(* ===== verification/Prelude.thy ===== *)
theory Prelude
  imports Main "HOL-Library.Monad_Syntax"
begin

text \<open>
  Facts that the components of the development share: collections of simplification rules,
  strictly ascending lists (the representation of every sorted container of the program), reads
  of a zero-padded vector, reads past an update, and the maximum of a list filled by a loop.
\<close>

section \<open>Collections of theorems\<close>

named_theorems vecset_specs \<open>what each operation of a sorted-vector set returns\<close>
named_theorems clock_specs \<open>vector clock operations read element by element\<close>
named_theorems graph_frame \<open>which fields of a saturated graph an operation leaves alone\<close>
named_theorems cpid_specs \<open>operations on process identifiers\<close>

section \<open>Assertions\<close>

text \<open>A call that fails an assertion, aborts or throws is \<open>None\<close>.\<close>

definition assertp :: "bool \<Rightarrow> unit option" where
  "assertp b = (if b then Some () else None)"

section \<open>Strictly ascending lists\<close>

text \<open>
  \<^verbatim>\<open>VecSet\<close>, the event lists of a process and the write lists of a saturated graph are
  all vectors in strictly ascending order.
\<close>

abbreviation ascending :: "'a::linorder list \<Rightarrow> bool" where
  "ascending xs \<equiv> sorted_wrt (<) xs"

lemma ascending_nth_less:
  "ascending xs \<Longrightarrow> i < j \<Longrightarrow> j < length xs \<Longrightarrow> xs ! i < xs ! j"
  by (simp add: sorted_wrt_iff_nth_less)

lemma ascending_nth_less_iff:
  "ascending xs \<Longrightarrow> i < length xs \<Longrightarrow> j < length xs \<Longrightarrow> xs ! i < xs ! j \<longleftrightarrow> i < j"
  by (metis ascending_nth_less less_asym less_irrefl linorder_neqE_nat)

lemma ascending_distinct: "ascending xs \<Longrightarrow> distinct xs"
  by (simp add: strict_sorted_iff)

lemma ascending_unique:
  "ascending xs \<Longrightarrow> ascending ys \<Longrightarrow> set xs = set ys \<Longrightarrow> xs = ys"
  by (simp add: strict_sorted_equal)

lemma ascending_snoc: "ascending (xs @ [x]) \<longleftrightarrow> ascending xs \<and> (\<forall>y \<in> set xs. y < x)"
  by (auto simp: sorted_wrt_append)

lemma ascending_take: "ascending xs \<Longrightarrow> ascending (take n xs)"
  by (rule sorted_wrt_take)

lemma ascending_drop: "ascending xs \<Longrightarrow> ascending (drop n xs)"
  by (rule sorted_wrt_drop)

lemma ascending_set_take_less:
  assumes "ascending xs" and "i < length xs"
  shows "set (take i xs) = {x \<in> set xs. x < xs ! i}"
proof (rule set_eqI)
  fix x
  show "x \<in> set (take i xs) \<longleftrightarrow> x \<in> {x \<in> set xs. x < xs ! i}"
    using assms
    by (auto simp: in_set_conv_nth ascending_nth_less_iff dest: less_trans)
qed

lemma set_take_Suc: "i < length xs \<Longrightarrow> set (take (Suc i) xs) = insert (xs ! i) (set (take i xs))"
  by (simp add: take_Suc_conv_app_nth)

section \<open>Reading a zero-padded vector\<close>

text \<open>A read past the end of a \<^verbatim>\<open>std::vector\<close> that stands for a total function returns the padding.\<close>

definition nth_or :: "'a \<Rightarrow> 'a list \<Rightarrow> nat \<Rightarrow> 'a" where
  "nth_or d xs i = (if i < length xs then xs ! i else d)"

lemma nth_or_inside [simp]: "i < length xs \<Longrightarrow> nth_or d xs i = xs ! i"
  by (simp add: nth_or_def)

lemma nth_or_outside [simp]: "length xs \<le> i \<Longrightarrow> nth_or d xs i = d"
  by (simp add: nth_or_def)

lemma nth_or_Nil [simp]: "nth_or d [] i = d"
  by (simp add: nth_or_def)

text \<open>\<^verbatim>\<open>vec.resize(n, d)\<close>: cut to \<open>n\<close> elements, or padded with \<open>d\<close> up to \<open>n\<close>.\<close>

definition resize :: "nat \<Rightarrow> 'a \<Rightarrow> 'a list \<Rightarrow> 'a list" where
  "resize n d xs = take n xs @ replicate (n - length xs) d"

lemma length_resize [simp]: "length (resize n d xs) = n"
  by (simp add: resize_def)

lemma nth_resize: "i < n \<Longrightarrow> resize n d xs ! i = nth_or d xs i"
  by (auto simp: resize_def nth_append nth_or_def)

lemma resize_id [simp]: "resize (length xs) d xs = xs"
  by (simp add: resize_def)

section \<open>Loops that overwrite a vector from the front\<close>

text \<open>
  Many loops of the program compute \<^verbatim>\<open>v[i] = f(i, v[i])\<close> for \<open>i\<close> ascending below a bound.
\<close>

fun upd_upto :: "nat \<Rightarrow> (nat \<Rightarrow> 'a \<Rightarrow> 'a) \<Rightarrow> 'a list \<Rightarrow> 'a list" where
  "upd_upto 0 f xs = xs"
| "upd_upto (Suc n) f xs = (let ys = upd_upto n f xs in ys[n := f n (ys ! n)])"

lemma length_upd_upto [simp]: "length (upd_upto n f xs) = length xs"
  by (induction n) (auto simp: Let_def)

lemma nth_upd_upto:
  "i < length xs \<Longrightarrow> upd_upto n f xs ! i = (if i < n then f i (xs ! i) else xs ! i)"
proof (induction n)
  case (Suc n)
  then show ?case by (cases "i = n") (auto simp: Let_def nth_list_update)
qed simp

section \<open>Objects driven by calls\<close>

text \<open>
  A component that is driven by calls from outside, each of which may fail an assertion (\<open>None\<close>):
  an invariant of the initial states that every call keeps holds after every sequence of calls.
\<close>

fun run_calls :: "('c \<Rightarrow> 's \<Rightarrow> 's option) \<Rightarrow> 'c list \<Rightarrow> 's \<Rightarrow> 's option" where
  "run_calls call [] s = Some s"
| "run_calls call (c # cs) s = Option.bind (call c s) (run_calls call cs)"

lemma run_calls_append: "run_calls call (cs @ ds) s = Option.bind (run_calls call cs s) (run_calls call ds)"
  by (induction cs arbitrary: s) (auto split: bind_splits)

locale call_system =
  fixes init :: "'s \<Rightarrow> bool" and call :: "'c \<Rightarrow> 's \<Rightarrow> 's option" and inv :: "'s \<Rightarrow> bool"
  assumes init_inv: "init s \<Longrightarrow> inv s" and call_inv: "inv s \<Longrightarrow> call c s = Some t \<Longrightarrow> inv t"
begin

lemma run_inv: "inv s \<Longrightarrow> run_calls call cs s = Some t \<Longrightarrow> inv t"
  by (induction cs arbitrary: s) (auto split: bind_splits intro: call_inv)

lemma reachable_inv: "init s \<Longrightarrow> run_calls call cs s = Some t \<Longrightarrow> inv t"
  using init_inv run_inv by blast

text \<open>The invariant holds at every state on the way, too.\<close>

lemma prefix_inv:
  assumes "init s" "run_calls call (cs @ ds) s = Some t"
  obtains u where "run_calls call cs s = Some u" "inv u" "run_calls call ds u = Some t"
  using assms reachable_inv by (auto simp: run_calls_append split: bind_splits)

end

end
