(* ===== verification/VecSet.thy ===== *)
theory VecSet
  imports Prelude
begin

text \<open>
  The sorted-vector set \<^verbatim>\<open>VecSet\<close> of \<^verbatim>\<open>src/src/vecset.h\<close> and \<^verbatim>\<open>src/src/vecset.tcc\<close>, with
  \<^verbatim>\<open>Compare = std::less\<close> read as the order of a linearly ordered type. A set is its vector
  \<^verbatim>\<open>vec\<close>; the in-place loops of the code are loops over indices that overwrite the list. Every
  operation is shown to compute the corresponding operation on finite sets and to keep the vector
  sorted and distinct. Indices are unbounded naturals: the code's \<^verbatim>\<open>int\<close> indices are assumed not
  to overflow.
\<close>

section \<open>Operations\<close>

type_synonym 'a vecset = "'a list"

definition vs_check_invariant :: "'a::linorder vecset \<Rightarrow> bool" where
  "vs_check_invariant vec = list_all (\<lambda>i. vec ! (i - 1) < vec ! i) [1..<length vec]"

definition vs_singleton :: "'a \<Rightarrow> 'a vecset" where
  "vs_singleton t = [] @ [t]"

subsection \<open>Searching\<close>

function find_geq_loop :: "'a::linorder vecset \<Rightarrow> 'a \<Rightarrow> nat \<Rightarrow> nat \<Rightarrow> nat" where
  "find_geq_loop vec t a b =
     (if a < b then
        let c = (a + b) div 2 in
        if vec ! c < t then find_geq_loop vec t (c + 1) b
        else if \<not> t < vec ! c then c
        else find_geq_loop vec t a c
      else a)"
  by pat_completeness auto
termination
  by (relation "measure (\<lambda>(vec, t, a, b). b - a)") auto

declare find_geq_loop.simps [simp del]

definition vs_find_geq :: "'a::linorder vecset \<Rightarrow> 'a \<Rightarrow> nat" where
  "vs_find_geq vec t = find_geq_loop vec t 0 (length vec)"

definition vs_find :: "'a::linorder vecset \<Rightarrow> 'a \<Rightarrow> int" where
  "vs_find vec t =
     (let i = vs_find_geq vec t in
      if i = length vec \<or> vec ! i \<noteq> t then -1 else int i)"

definition vs_count :: "'a::linorder vecset \<Rightarrow> 'a \<Rightarrow> nat" where
  "vs_count vec t = (if vs_find vec t \<ge> 0 then 1 else 0)"

subsection \<open>Inserting elements\<close>

text \<open>\<^verbatim>\<open>for(int j = vec.size()-2; j > i; j--) vec[j] = vec[j-1];\<close>\<close>

fun shift_up :: "nat \<Rightarrow> nat \<Rightarrow> 'a list \<Rightarrow> 'a list" where
  "shift_up i 0 vec = vec"
| "shift_up i (Suc j) vec = (if Suc j > i then shift_up i j (vec[Suc j := vec ! j]) else vec)"

text \<open>
  The assertion of the branch that finds the element, \<^verbatim>\<open>assert(!lt(vec[i], t))\<close>, is the predicate
  \<open>vs_insert_asserts\<close>; \<open>vs_insert\<close> is what the function computes.
\<close>

definition vs_insert_asserts :: "'a::linorder \<Rightarrow> 'a vecset \<Rightarrow> bool" where
  "vs_insert_asserts t vec =
     (let i = vs_find_geq vec t in
      if i < length vec \<and> \<not> t < vec ! i then \<not> vec ! i < t else True)"

definition vs_insert :: "'a::linorder \<Rightarrow> 'a vecset \<Rightarrow> 'a vecset \<times> nat \<times> bool" where
  "vs_insert t vec =
     (let i = vs_find_geq vec t in
      if i < length vec \<and> \<not> t < vec ! i then (vec, i, False)
      else if length vec = 0 then (vec @ [t], i, True)
      else let vec1 = vec @ [last vec];
               vec2 = shift_up i (length vec1 - 2) vec1
           in (vec2[i := t], i, True))"

text \<open>The two insertions at the end assert that the element is not below the last one, or above it.\<close>

definition vs_insert_geq :: "'a::linorder \<Rightarrow> 'a vecset \<Rightarrow> ('a vecset \<times> nat \<times> bool) option" where
  "vs_insert_geq t vec =
     (let i = length vec in
      if i \<noteq> 0 \<and> t < last vec then None
      else if i \<noteq> 0 \<and> last vec = t then Some (vec, i - 1, False) else Some (vec @ [t], i, True))"

definition vs_insert_gt :: "'a::linorder \<Rightarrow> 'a vecset \<Rightarrow> 'a vecset option" where
  "vs_insert_gt t vec = (if length vec = 0 \<or> last vec < t then Some (vec @ [t]) else None)"

fun vs_of_range :: "'a::linorder vecset \<Rightarrow> 'a list \<Rightarrow> 'a vecset" where
  "vs_of_range vec [] = vec"
| "vs_of_range vec (x # xs) =
     (if length vec \<noteq> 0 \<and> last vec < x then vs_of_range (vec @ [x]) xs
      else vs_of_range (fst (vs_insert x vec)) xs)"

subsection \<open>Union with another set\<close>

text \<open>The first loop counts the elements of \<open>s\<close> that are missing.\<close>

function missing_loop :: "'a::linorder vecset \<Rightarrow> 'a vecset \<Rightarrow> nat \<Rightarrow> nat \<Rightarrow> nat \<Rightarrow> nat" where
  "missing_loop vec s a b count =
     (if a < length vec \<and> b < length s then
        if vec ! a < s ! b then missing_loop vec s (a + 1) b count
        else if \<not> s ! b < vec ! a then missing_loop vec s (a + 1) (b + 1) count
        else missing_loop vec s a (b + 1) (count + 1)
      else if b < length s then count + (length s - b)
      else count)"
  by pat_completeness auto
termination
  by (relation "measure (\<lambda>(vec, s, a, b, count). (length vec - a) + (length s - b))") auto

declare missing_loop.simps [simp del]

text \<open>
  The second loop fills the enlarged vector from its end. The code's indices \<^verbatim>\<open>i\<close>, \<^verbatim>\<open>a\<close>, \<^verbatim>\<open>b\<close>
  run down to \<open>-1\<close>; the arguments here are \<open>i + 1\<close>, \<open>a + 1\<close> and \<open>b + 1\<close>.
\<close>

fun fill_loop :: "'a::linorder vecset \<Rightarrow> nat \<Rightarrow> nat \<Rightarrow> nat \<Rightarrow> 'a vecset \<Rightarrow> 'a vecset" where
  "fill_loop s 0 a b vec = vec"
| "fill_loop s (Suc i) a b vec =
     (if a = 0 \<or> (b > 0 \<and> vec ! (a - 1) < s ! (b - 1)) then
        fill_loop s i a (b - 1) (vec[i := s ! (b - 1)])
      else if a > 0 \<and> b > 0 \<and> \<not> s ! (b - 1) < vec ! (a - 1) then
        fill_loop s i (a - 1) (b - 1) (vec[i := vec ! (a - 1)])
      else fill_loop s i (a - 1) b (vec[i := vec ! (a - 1)]))"

text \<open>
  The assertions of this loop, along its run: \<^verbatim>\<open>i >= a\<close> at the head, \<^verbatim>\<open>a >= 0\<close> and
  \<^verbatim>\<open>b < 0 || lt(s.vec[b], vec[a])\<close> in the last branch, \<^verbatim>\<open>a == -1 && b == -1\<close> at the end. Every element
  that is read is inside its vector. (The assertion \<^verbatim>\<open>a == size()\<close> after the first loop is the
  negation of its guard.)
\<close>

fun fill_asserts :: "'a::linorder vecset \<Rightarrow> nat \<Rightarrow> nat \<Rightarrow> nat \<Rightarrow> 'a vecset \<Rightarrow> bool" where
  "fill_asserts s 0 a b vec \<longleftrightarrow> a = 0 \<and> b = 0"
| "fill_asserts s (Suc i) a b vec \<longleftrightarrow>
     Suc i \<ge> a \<and> i < length vec \<and>
     (if a = 0 \<or> (b > 0 \<and> vec ! (a - 1) < s ! (b - 1)) then
        b > 0 \<and> fill_asserts s i a (b - 1) (vec[i := s ! (b - 1)])
      else if a > 0 \<and> b > 0 \<and> \<not> s ! (b - 1) < vec ! (a - 1) then
        fill_asserts s i (a - 1) (b - 1) (vec[i := vec ! (a - 1)])
      else a > 0 \<and> (b = 0 \<or> s ! (b - 1) < vec ! (a - 1)) \<and> fill_asserts s i (a - 1) b (vec[i := vec ! (a - 1)]))"

definition vs_insert_set_asserts :: "'a::linorder vecset \<Rightarrow> 'a vecset \<Rightarrow> bool" where
  "vs_insert_set_asserts s vec =
     (if length s = 0 then True
      else if length s = 1 then vs_insert_asserts (s ! 0) vec
      else let count = missing_loop vec s 0 0 0 in
        if count > 0 then
          fill_asserts s (length vec + count) (length vec) (length s) (resize (length vec + count) (s ! 0) vec)
        else True)"

definition vs_insert_set :: "'a::linorder vecset \<Rightarrow> 'a vecset \<Rightarrow> 'a vecset \<times> nat" where
  "vs_insert_set s vec =
     (if length s = 0 then (vec, 0)
      else if length s = 1 then
        (case vs_insert (s ! 0) vec of (vec', i, b) \<Rightarrow> (vec', if b then 1 else 0))
      else let count = missing_loop vec s 0 0 0 in
        if count > 0 then
          (fill_loop s (length vec + count) (length vec) (length s)
             (resize (length vec + count) (s ! 0) vec), count)
        else (vec, count))"

subsection \<open>Erasing\<close>

text \<open>\<^verbatim>\<open>for(int j = p; j < int(vec.size())-1; ++j) vec[j] = vec[j+1];\<close>\<close>

function shift_down :: "nat \<Rightarrow> 'a list \<Rightarrow> 'a list" where
  "shift_down j vec = (if j + 1 < length vec then shift_down (j + 1) (vec[j := vec ! (j + 1)]) else vec)"
  by pat_completeness auto
termination
  by (relation "measure (\<lambda>(j, vec). length vec - j)") auto

declare shift_down.simps [simp del]

definition vs_erase_at :: "nat \<Rightarrow> 'a vecset \<Rightarrow> 'a vecset" where
  "vs_erase_at p vec = take (length vec - 1) (shift_down p vec)"

definition vs_erase :: "'a::linorder \<Rightarrow> 'a vecset \<Rightarrow> 'a vecset \<times> nat" where
  "vs_erase t vec =
     (let i = vs_find_geq vec t in
      if length vec \<le> i \<or> t < vec ! i then (vec, 0) else (vs_erase_at i vec, 1))"

text \<open>The loop of \<^verbatim>\<open>erase(const VecSet&)\<close> returns \<^verbatim>\<open>vec\<close>, \<^verbatim>\<open>a\<close>, \<^verbatim>\<open>ains\<close> and \<^verbatim>\<open>erase_count\<close>.\<close>

function erase_loop :: "'a::linorder vecset \<Rightarrow> nat \<Rightarrow> nat \<Rightarrow> nat \<Rightarrow> nat \<Rightarrow> 'a vecset \<Rightarrow>
    'a vecset \<times> nat \<times> nat \<times> nat" where
  "erase_loop S a b ains n vec =
     (if a < length vec \<and> b < length S then
        if vec ! a < S ! b then
          erase_loop S (a + 1) b (ains + 1) n (if ains \<noteq> a then vec[ains := vec ! a] else vec)
        else if S ! b < vec ! a then erase_loop S a (b + 1) ains n vec
        else erase_loop S (a + 1) (b + 1) ains (n + 1) vec
      else (vec, a, ains, n))"
  by pat_completeness auto
termination
  by (relation "measure (\<lambda>(S, a, b, ains, n, vec). (length vec - a) + (length S - b))") auto

declare erase_loop.simps [simp del]

text \<open>\<^verbatim>\<open>while(a < size()){ vec[ains] = vec[a]; ++a; ++ains; }\<close>\<close>

function move_tail :: "nat \<Rightarrow> nat \<Rightarrow> 'a list \<Rightarrow> 'a list \<times> nat" where
  "move_tail a ains vec =
     (if a < length vec then move_tail (a + 1) (ains + 1) (vec[ains := vec ! a]) else (vec, ains))"
  by pat_completeness auto
termination
  by (relation "measure (\<lambda>(a, ains, vec). length vec - a)") auto

declare move_tail.simps [simp del]

definition vs_erase_set :: "'a::linorder vecset \<Rightarrow> 'a vecset \<Rightarrow> 'a vecset \<times> nat" where
  "vs_erase_set S vec =
     (if vec = [] then (vec, 0)
      else if S = [] then (vec, 0)
      else case erase_loop S 0 0 0 0 vec of (vec1, a, ains, n) \<Rightarrow>
        if ains \<noteq> a then
          case move_tail a ains vec1 of (vec2, ains2) \<Rightarrow> (take ains2 vec2, n)
        else (vec1, n))"

subsection \<open>Comparing sets\<close>

function subset_loop :: "'a::linorder vecset \<Rightarrow> 'a vecset \<Rightarrow> nat \<Rightarrow> nat \<Rightarrow> bool" where
  "subset_loop vec s a b =
     (if a < length vec then
        if length vec - a > length s - b then False
        else if vec ! a < s ! b then False
        else if \<not> s ! b < vec ! a then subset_loop vec s (a + 1) (b + 1)
        else subset_loop vec s a (b + 1)
      else True)"
  by pat_completeness auto
termination
  by (relation "measure (\<lambda>(vec, s, a, b). (length vec - a) + (length s - b))") auto

declare subset_loop.simps [simp del]

definition vs_subset_of :: "'a::linorder vecset \<Rightarrow> 'a vecset \<Rightarrow> bool" where
  "vs_subset_of vec s = (if length vec > length s then False else subset_loop vec s 0 0)"

function intersects_loop :: "'a::linorder vecset \<Rightarrow> 'a vecset \<Rightarrow> nat \<Rightarrow> nat \<Rightarrow> bool" where
  "intersects_loop vec s a b =
     (if a < length vec \<and> b < length s then
        if vec ! a < s ! b then intersects_loop vec s (a + 1) b
        else if \<not> s ! b < vec ! a then True
        else intersects_loop vec s a (b + 1)
      else False)"
  by pat_completeness auto
termination
  by (relation "measure (\<lambda>(vec, s, a, b). (length vec - a) + (length s - b))") auto

declare intersects_loop.simps [simp del]

definition vs_intersects :: "'a::linorder vecset \<Rightarrow> 'a vecset \<Rightarrow> bool" where
  "vs_intersects vec s = intersects_loop vec s 0 0"

text \<open>\<^verbatim>\<open>std::lexicographical_compare\<close> and the element-wise comparison of \<^verbatim>\<open>seq_eq\<close>.\<close>

fun vs_seq_lt :: "'a::linorder vecset \<Rightarrow> 'a vecset \<Rightarrow> bool" where
  "vs_seq_lt xs [] = False"
| "vs_seq_lt [] (y # ys) = True"
| "vs_seq_lt (x # xs) (y # ys) = (if x < y then True else if y < x then False else vs_seq_lt xs ys)"

definition vs_seq_eq :: "'a::linorder vecset \<Rightarrow> 'a vecset \<Rightarrow> bool" where
  "vs_seq_eq xs ys =
     (if length xs \<noteq> length ys then False
      else list_all (\<lambda>i. \<not> (xs ! i < ys ! i \<or> ys ! i < xs ! i)) [0..<length xs])"

fun vs_join :: "('a \<Rightarrow> string) \<Rightarrow> 'a vecset \<Rightarrow> string" where
  "vs_join f [] = ''''"
| "vs_join f [x] = f x"
| "vs_join f (x # y # xs) = f x @ '', '' @ vs_join f (y # xs)"

definition vs_to_string_one_line :: "('a \<Rightarrow> string) \<Rightarrow> 'a vecset \<Rightarrow> string" where
  "vs_to_string_one_line f vec = ''{'' @ vs_join f vec @ ''}''"

section \<open>Correctness\<close>

subsection \<open>The invariant\<close>

lemma vs_check_invariant_iff [vecset_specs]: "vs_check_invariant vec \<longleftrightarrow> ascending vec"
proof -
  have "(\<forall>i. 1 \<le> i \<and> i < length vec \<longrightarrow> vec ! (i - 1) < vec ! i) \<longleftrightarrow>
        (\<forall>i. Suc i < length vec \<longrightarrow> vec ! i < vec ! Suc i)"
    by (metis One_nat_def Suc_le_D diff_Suc_1 le_add1 plus_1_eq_Suc)
  then show ?thesis
    by (auto simp: vs_check_invariant_def list_all_iff sorted_wrt_iff_nth_Suc_transp [OF transp_on_less])
qed

subsection \<open>Searching\<close>

lemma find_geq_loop_split:
  assumes "ascending vec" "a \<le> b" "b \<le> length vec"
    and "\<forall>i < a. vec ! i < t" "\<forall>i. b \<le> i \<and> i < length vec \<longrightarrow> t \<le> vec ! i"
  shows "find_geq_loop vec t a b \<le> length vec \<and>
    (\<forall>i < find_geq_loop vec t a b. vec ! i < t) \<and>
    (\<forall>i. find_geq_loop vec t a b \<le> i \<and> i < length vec \<longrightarrow> t \<le> vec ! i)"
  using assms
proof (induction vec t a b rule: find_geq_loop.induct)
  case (1 vec t a b)
  define c where "c = (a + b) div 2"
  show ?case
  proof (cases "a < b")
    case False
    then have "find_geq_loop vec t a b = a" by (simp add: find_geq_loop.simps [of vec t a b])
    with False "1.prems" show ?thesis by simp
  next
    case ab: True
    then have c: "a \<le> c" "c < b" "c < length vec" using "1.prems" by (auto simp: c_def)
    have below: "vec ! i < vec ! c" if "i < c" for i
      using ascending_nth_less [OF "1.prems"(1) that c(3)] .
    have above: "vec ! c \<le> vec ! i" if "c \<le> i" "i < length vec" for i
      using ascending_nth_less [OF "1.prems"(1), of c i] that by (cases "c = i") auto
    consider "vec ! c < t" | "vec ! c = t" | "t < vec ! c" by fastforce
    then show ?thesis
    proof cases
      case 1
      then have "\<forall>i < c + 1. vec ! i < t"
        using below by (metis Suc_eq_plus1 less_Suc_eq order.strict_trans)
      moreover have "find_geq_loop vec t a b = find_geq_loop vec t (c + 1) b"
        using ab 1 by (simp add: find_geq_loop.simps [of vec t a b] c_def Let_def)
      ultimately show ?thesis
        using "1.IH"(1) [OF ab c_def 1 "1.prems"(1) _ "1.prems"(3)] c "1.prems"(5) by simp
    next
      case 2
      then have "find_geq_loop vec t a b = c"
        using ab by (simp add: find_geq_loop.simps [of vec t a b] c_def Let_def)
      then show ?thesis using below above c 2 by auto
    next
      case 3
      then have "\<forall>i. c \<le> i \<and> i < length vec \<longrightarrow> t \<le> vec ! i"
        using above by fastforce
      moreover have "find_geq_loop vec t a b = find_geq_loop vec t a c"
        using ab 3 less_not_sym [OF 3] by (simp add: find_geq_loop.simps [of vec t a b] c_def Let_def)
      ultimately show ?thesis
        using "1.IH"(2) [OF ab c_def less_not_sym [OF 3] _ "1.prems"(1) c(1) less_imp_le [OF c(3)] "1.prems"(4)] 3
        by presburger
    qed
  qed
qed

lemma vs_find_geq_split:
  assumes "ascending vec"
  shows "vs_find_geq vec t \<le> length vec"
    and "i < vs_find_geq vec t \<Longrightarrow> vec ! i < t"
    and "vs_find_geq vec t \<le> i \<Longrightarrow> i < length vec \<Longrightarrow> t \<le> vec ! i"
proof -
  have *: "find_geq_loop vec t 0 (length vec) \<le> length vec \<and>
      (\<forall>i < find_geq_loop vec t 0 (length vec). vec ! i < t) \<and>
      (\<forall>i. find_geq_loop vec t 0 (length vec) \<le> i \<and> i < length vec \<longrightarrow> t \<le> vec ! i)"
    by (rule find_geq_loop_split [OF assms]) auto
  show "vs_find_geq vec t \<le> length vec" using * by (simp add: vs_find_geq_def)
  show "i < vs_find_geq vec t \<Longrightarrow> vec ! i < t" using * by (simp add: vs_find_geq_def)
  show "vs_find_geq vec t \<le> i \<Longrightarrow> i < length vec \<Longrightarrow> t \<le> vec ! i" using * by (simp add: vs_find_geq_def)
qed

text \<open>The element at the insertion point is \<open>t\<close> exactly when \<open>t\<close> is in the set.\<close>

lemma vs_find_geq_hit:
  assumes "ascending vec"
  shows "(vs_find_geq vec t < length vec \<and> \<not> t < vec ! vs_find_geq vec t) \<longleftrightarrow> t \<in> set vec"
    and "t \<in> set vec \<Longrightarrow> vec ! vs_find_geq vec t = t"
proof -
  let ?i = "vs_find_geq vec t"
  have eq: "vec ! ?i = t" if "t \<in> set vec"
  proof -
    obtain j where j: "j < length vec" "vec ! j = t" using \<open>t \<in> set vec\<close> by (auto simp: in_set_conv_nth)
    have "?i \<le> j" using vs_find_geq_split(2) [OF assms, of j t] j by force
    moreover have "\<not> ?i < j"
      using vs_find_geq_split(3) [OF assms, of t ?i] ascending_nth_less [OF assms, of ?i j] j by force
    ultimately show ?thesis using j by simp
  qed
  then show "t \<in> set vec \<Longrightarrow> vec ! ?i = t" .
  show "(?i < length vec \<and> \<not> t < vec ! ?i) \<longleftrightarrow> t \<in> set vec"
  proof
    assume "?i < length vec \<and> \<not> t < vec ! ?i"
    then show "t \<in> set vec"
      using vs_find_geq_split(3) [OF assms, of t ?i] by (metis antisym_conv2 nth_mem order_refl)
  next
    assume t: "t \<in> set vec"
    then obtain j where "j < length vec" "vec ! j = t" by (auto simp: in_set_conv_nth)
    then have "?i < length vec"
      using vs_find_geq_split(2) [OF assms, of j t] by (metis less_irrefl not_less order.strict_trans1)
    then show "?i < length vec \<and> \<not> t < vec ! ?i" using eq [OF t] by simp
  qed
qed

lemma vs_find_spec [vecset_specs]:
  assumes "ascending vec"
  shows "vs_find vec t = (if t \<in> set vec then int (vs_find_geq vec t) else -1)"
proof (cases "t \<in> set vec")
  case True
  then show ?thesis
    using vs_find_geq_hit [OF assms, of t] by (auto simp: vs_find_def Let_def)
next
  case False
  moreover have "vec ! vs_find_geq vec t \<in> set vec" if "vs_find_geq vec t \<noteq> length vec"
    using that vs_find_geq_split(1) [OF assms, of t] by simp
  ultimately show ?thesis by (auto simp: vs_find_def Let_def)
qed

lemma vs_count_spec [vecset_specs]:
  "ascending vec \<Longrightarrow> vs_count vec t = (if t \<in> set vec then 1 else 0)"
  by (simp add: vs_count_def vs_find_spec)

subsection \<open>Inserting one element\<close>

lemma length_shift_up [simp]: "length (shift_up i j vec) = length vec"
  by (induction j arbitrary: vec) auto

lemma nth_shift_up:
  "j < length vec \<Longrightarrow> k < length vec \<Longrightarrow>
   shift_up i j vec ! k = (if i < k \<and> k \<le> j then vec ! (k - 1) else vec ! k)"
proof (induction j arbitrary: vec)
  case (Suc j)
  then show ?case by (cases "k = Suc j") (auto simp: nth_list_update)
qed auto

lemma shift_up_snoc:
  assumes "i \<le> length vec" "vec \<noteq> []"
  shows "(shift_up i (length vec - 1) (vec @ [last vec]))[i := t] = take i vec @ t # drop i vec"
proof (rule nth_equalityI)
  show "length ((shift_up i (length vec - 1) (vec @ [last vec]))[i := t]) =
        length (take i vec @ t # drop i vec)"
    using assms by simp
next
  fix k
  assume "k < length ((shift_up i (length vec - 1) (vec @ [last vec]))[i := t])"
  then have k: "k < Suc (length vec)" by simp
  have l: "vec ! (length vec - 1) = last vec" using assms(2) by (simp add: last_conv_nth)
  consider "k < i" | "k = i" | "i < k" "k < length vec" | "i < k" "k = length vec" using k by linarith
  then show "(shift_up i (length vec - 1) (vec @ [last vec]))[i := t] ! k =
        (take i vec @ t # drop i vec) ! k"
    using assms l
    by cases (auto simp: nth_append nth_shift_up nth_Cons' nth_list_update not_less dest!: le_antisym)
qed

lemma vs_insert_eq:
  assumes "ascending vec"
  shows "vs_insert t vec =
    (if t \<in> set vec then (vec, vs_find_geq vec t, False)
     else (take (vs_find_geq vec t) vec @ t # drop (vs_find_geq vec t) vec, vs_find_geq vec t, True))"
proof -
  let ?i = "vs_find_geq vec t"
  have "?i \<le> length vec" by (rule vs_find_geq_split(1) [OF assms])
  then show ?thesis
    using vs_find_geq_hit(1) [OF assms, of t] shift_up_snoc [of ?i vec t]
    by (cases "vec = []") (auto simp: vs_insert_def Let_def)
qed

lemma ascending_insert_at:
  assumes "ascending vec" "t \<notin> set vec"
  shows "ascending (take (vs_find_geq vec t) vec @ t # drop (vs_find_geq vec t) vec)"
proof -
  let ?i = "vs_find_geq vec t"
  have lo: "x < t" if "x \<in> set (take ?i vec)" for x
    using that vs_find_geq_split(2) [OF assms(1)] by (auto simp: in_set_conv_nth)
  have hi: "t < x" if x: "x \<in> set (drop ?i vec)" for x
  proof -
    have "t \<le> x"
      using x vs_find_geq_split(3) [OF assms(1), of t] by (auto simp: in_set_conv_nth)
    then show ?thesis using assms(2) x in_set_dropD [of x ?i vec] by (metis antisym_conv2)
  qed
  show ?thesis
    using lo hi assms(1) by (auto simp: sorted_wrt_append ascending_take ascending_drop intro: less_trans)
qed

lemma vs_insert_spec [vecset_specs]:
  assumes "ascending vec"
  shows "ascending (fst (vs_insert t vec))"
    and "set (fst (vs_insert t vec)) = insert t (set vec)"
    and "snd (snd (vs_insert t vec)) \<longleftrightarrow> t \<notin> set vec"
    and "fst (vs_insert t vec) ! fst (snd (vs_insert t vec)) = t"
proof -
  let ?i = "vs_find_geq vec t"
  have "set (take ?i vec) \<union> set (drop ?i vec) = set vec"
    by (metis append_take_drop_id set_append)
  then show "set (fst (vs_insert t vec)) = insert t (set vec)"
    using assms by (auto simp: vs_insert_eq)
  show "fst (vs_insert t vec) ! fst (snd (vs_insert t vec)) = t"
    using assms vs_find_geq_hit(2) [OF assms, of t] vs_find_geq_split(1) [OF assms, of t]
    by (auto simp: vs_insert_eq nth_append)
qed (auto simp: vs_insert_eq ascending_insert_at assms)

subsection \<open>Building a set from a range\<close>

lemma vs_insert_geq_spec:
  assumes "ascending vec" "\<forall>x \<in> set vec. x \<le> t"
  shows "\<exists>vec1 i new. vs_insert_geq t vec = Some (vec1, i, new) \<and> ascending vec1 \<and> set vec1 = insert t (set vec) \<and>
    (new \<longleftrightarrow> t \<notin> set vec) \<and> i < length vec1 \<and> vec1 ! i = t"
proof -
  have l: "last vec = t" if "t \<in> set vec"
  proof -
    have "vec \<noteq> []" using that by auto
    then have "vec = butlast vec @ [last vec]" by simp
    then have "\<forall>y \<in> set (butlast vec). y < last vec" using assms(1) ascending_snoc by metis
    moreover have "last vec \<le> t" using assms(2) \<open>vec \<noteq> []\<close> by simp
    ultimately show ?thesis
      using that \<open>vec = butlast vec @ [last vec]\<close>
      by (metis UnE leD list.set(1) list.simps(15) set_append singletonD)
  qed
  have nl: "vec \<noteq> [] \<Longrightarrow> \<not> t < last vec" using assms(2) last_in_set by fastforce
  show ?thesis
  proof (cases "t \<in> set vec")
    case True
    then have "vec \<noteq> []" by auto
    then show ?thesis using True l nl assms(1) by (auto simp: vs_insert_geq_def Let_def last_conv_nth)
  next
    case False
    then have "\<forall>x \<in> set vec. x < t" using assms(2) by (metis order_le_imp_less_or_eq)
    moreover have "vec = [] \<or> last vec \<noteq> t" using False last_in_set by metis
    ultimately show ?thesis using False assms(1) nl by (auto simp: vs_insert_geq_def Let_def sorted_wrt_append)
  qed
qed

lemma vs_of_range_spec [vecset_specs]:
  "ascending vec \<Longrightarrow> ascending (vs_of_range vec xs) \<and> set (vs_of_range vec xs) = set vec \<union> set xs"
proof (induction xs arbitrary: vec)
  case (Cons x xs)
  have snoc: "ascending (vec @ [x])" if "vec \<noteq> []" "last vec < x"
  proof -
    have "\<forall>y \<in> set vec. y \<le> last vec"
      using Cons.prems that(1) by (metis append_butlast_last_id ascending_snoc less_imp_le nle_le rotate1.simps(2) set_ConsD set_rotate1)
    then show ?thesis using Cons.prems that(2) by (auto simp: ascending_snoc)
  qed
  show ?case
    using Cons.IH [of "vec @ [x]"] Cons.IH [of "fst (vs_insert x vec)"] snoc vs_insert_spec(1,2) [OF Cons.prems, of x]
    by auto
qed simp

subsection \<open>Union\<close>

text \<open>
  Both loops walk two ascending vectors; their results are stated over the parts still to visit.
\<close>

lemma drop_insert_nth: "i < length xs \<Longrightarrow> set (drop i xs) = insert (xs ! i) (set (drop (Suc i) xs))"
  by (metis Cons_nth_drop_Suc list.simps(15))

lemma ascending_drop_nth:
  assumes "ascending xs" "i < length xs"
  shows "\<forall>y \<in> set (drop (Suc i) xs). xs ! i < y"
  using ascending_drop [OF assms(1), of i] assms(2) by (simp add: Cons_nth_drop_Suc [symmetric])

lemma missing_loop_spec:
  assumes "ascending vec" "ascending s"
  shows "missing_loop vec s a b count = count + card (set (drop b s) - set (drop a vec))"
  using assms
proof (induction vec s a b count rule: missing_loop.induct)
  case (1 vec s a b count)
  note IH = "1.IH" and sv = "1.prems"
  show ?case
  proof (cases "a < length vec \<and> b < length s")
    case False
    have "set (drop b s) - set (drop a vec) = set (drop b s)" if "b < length s"
      using False that by auto
    moreover have "card (set (drop b s)) = length s - b"
      using distinct_card [of "drop b s"] ascending_distinct [OF sv(2)] by simp
    ultimately show ?thesis
      using False by (cases "b < length s") (auto simp: missing_loop.simps [of vec s a b count])
  next
    case True
    then have ab: "a < length vec" "b < length s" by auto
    note dv = drop_insert_nth [OF ab(1)] and ds = drop_insert_nth [OF ab(2)]
    note gv = ascending_drop_nth [OF sv(1) ab(1)] and gs = ascending_drop_nth [OF sv(2) ab(2)]
    consider "vec ! a < s ! b" | "vec ! a = s ! b" | "s ! b < vec ! a" by fastforce
    then show ?thesis
    proof cases
      case 1
      have "set (drop b s) - set (drop a vec) = set (drop b s) - set (drop (a + 1) vec)"
        using 1 gs by (force simp: dv ds)
      then show ?thesis
        using IH(1) [OF True 1 sv] True 1 by (simp add: missing_loop.simps [of vec s a b count])
    next
      case 2
      have "set (drop b s) - set (drop a vec) = set (drop (b + 1) s) - set (drop (a + 1) vec)"
        using 2 gs gv by (force simp: dv ds)
      then show ?thesis
        using IH(2) [OF True _ _ sv] True 2 by (simp add: missing_loop.simps [of vec s a b count])
    next
      case 3
      have "set (drop b s) - set (drop a vec) = insert (s ! b) (set (drop (b + 1) s) - set (drop a vec))"
        using 3 gv by (force simp: dv ds)
      moreover have "s ! b \<notin> set (drop (b + 1) s)" using gs by auto
      ultimately have "card (set (drop b s) - set (drop a vec)) =
          Suc (card (set (drop (b + 1) s) - set (drop a vec)))" by simp
      then show ?thesis
        using IH(3) [OF True _ _ sv] True 3 less_not_sym [OF 3]
        by (simp add: missing_loop.simps [of vec s a b count])
    qed
  qed
qed

lemma sorted_list_of_set_snoc:
  assumes "finite U" "\<forall>x \<in> U. x < m"
  shows "sorted_list_of_set (insert m U) = sorted_list_of_set U @ [m :: 'a::linorder]"
proof (rule ascending_unique)
  show "ascending (sorted_list_of_set (insert m U))" by (rule strict_sorted_list_of_set)
  show "ascending (sorted_list_of_set U @ [m])"
    using assms by (simp add: ascending_snoc strict_sorted_list_of_set)
  show "set (sorted_list_of_set (insert m U)) = set (sorted_list_of_set U @ [m])"
    using assms(1) by (simp only: set_sorted_list_of_set finite_insert set_append) auto
qed

lemma take_below_last:
  assumes "ascending (take a vec)" "0 < a" "a \<le> length vec"
  shows "set (take a vec) = insert (vec ! (a - 1)) (set (take (a - 1) vec))"
    and "\<forall>x \<in> set (take (a - 1) vec). x < vec ! (a - 1)"
proof -
  have eq: "take a vec = take (a - 1) vec @ [vec ! (a - 1)]"
    using assms(2,3) by (metis Suc_pred' le_imp_less_Suc less_Suc_eq_le nat_less_le not_less take_Suc_conv_app_nth zero_less_diff)
  show "set (take a vec) = insert (vec ! (a - 1)) (set (take (a - 1) vec))"
    by (subst eq) simp
  show "\<forall>x \<in> set (take (a - 1) vec). x < vec ! (a - 1)"
    using assms(1) unfolding eq by (simp add: ascending_snoc)
qed

text \<open>One step of the filling loop writes the largest element that is left.\<close>

lemma fill_write:
  assumes "finite U" "\<forall>x \<in> U. x < m" "i < length vec"
  shows "sorted_list_of_set U @ drop i (vec[i := m]) = sorted_list_of_set (insert m U) @ drop (Suc i) vec"
  using assms
  by (simp add: sorted_list_of_set_snoc drop_update_cancel Cons_nth_drop_Suc [symmetric]
      del: sorted_list_of_set_insert_remove)

lemma card_take_ascending: "ascending (take a vec) \<Longrightarrow> a \<le> length vec \<Longrightarrow> card (set (take a vec)) = a"
  using distinct_card [OF ascending_distinct] by fastforce

lemma fill_loop_spec:
  assumes "ascending (take a vec)" "ascending s" "a \<le> length vec" "b \<le> length s" "i \<le> length vec"
    and "i = card (set (take a vec) \<union> set (take b s))"
  shows "fill_loop s i a b vec = sorted_list_of_set (set (take a vec) \<union> set (take b s)) @ drop i vec \<and>
    fill_asserts s i a b vec"
  using assms
proof (induction i arbitrary: a b vec)
  case 0
  then have "set (take a vec) \<union> set (take b s) = {}" by (metis List.finite_set card_0_eq finite_UnI)
  then show ?case using "0.prems"(3,4) by auto
next
  case (Suc i)
  let ?A = "\<lambda>k. set (take k vec)" and ?B = "\<lambda>k. set (take k s)"
  have as: "ascending (take b s)" by (rule ascending_take [OF Suc.prems(2)])
  have ca: "card (?A a) = a" by (rule card_take_ascending [OF Suc.prems(1,3)])
  note ta = take_below_last [OF Suc.prems(1) _ Suc.prems(3)]
  note tb = take_below_last [OF as _ Suc.prems(4)]
  have il: "i < length vec" using Suc.prems(5) by simp
  have ai: "a \<le> Suc i" using card_mono [of "?A a \<union> ?B b" "?A a"] ca Suc.prems(6) by simp
  have step: "fill_loop s i a' b' (vec[i := m]) = sorted_list_of_set (?A a \<union> ?B b) @ drop (Suc i) vec \<and>
      fill_asserts s i a' b' (vec[i := m])"
    if U: "?A a \<union> ?B b = insert m (?A a' \<union> ?B b')" and m: "\<forall>x \<in> ?A a' \<union> ?B b'. x < m"
      and le: "a' \<le> a" "b' \<le> b" "a' \<le> i" for a' b' m
  proof -
    have "m \<notin> ?A a' \<union> ?B b'" using m by blast
    then have c: "i = card (?A a' \<union> ?B b')" using Suc.prems(6) U by simp
    have t: "take a' (vec[i := m]) = take a' vec" using le(3) by simp
    have "ascending (take a' vec)"
      using ascending_take [OF Suc.prems(1), of a'] le(1) by (simp add: min_def)
    then have IH: "fill_loop s i a' b' (vec[i := m]) = sorted_list_of_set (?A a' \<union> ?B b') @ drop i (vec[i := m]) \<and>
        fill_asserts s i a' b' (vec[i := m])"
      using Suc.IH [of a' "vec[i := m]" b'] Suc.prems le c t il by simp
    then have "fill_loop s i a' b' (vec[i := m]) = sorted_list_of_set (?A a' \<union> ?B b') @ drop i (vec[i := m])" by blast
    also have "\<dots> = sorted_list_of_set (?A a \<union> ?B b) @ drop (Suc i) vec"
      unfolding U by (rule fill_write) (use m il in auto)
    finally show ?thesis using IH by blast
  qed
  consider (s) "a = 0 \<or> (b > 0 \<and> vec ! (a - 1) < s ! (b - 1))"
    | (both) "a > 0" "b > 0" "vec ! (a - 1) = s ! (b - 1)"
    | (vec) "a > 0" "b = 0 \<or> s ! (b - 1) < vec ! (a - 1)"
    by fastforce
  then show ?case
  proof cases
    case s
    have b0: "b > 0" using s Suc.prems(6) by (cases b) auto
    have lt: "\<forall>x \<in> ?A a. x < s ! (b - 1)" using s ta by (cases "a = 0") (auto intro: less_trans)
    have "a \<le> i"
    proof -
      have "insert (s ! (b - 1)) (?A a) \<subseteq> ?A a \<union> ?B b" using tb(1) b0 by auto
      then have "card (insert (s ! (b - 1)) (?A a)) \<le> Suc i"
        using Suc.prems(6) card_mono by (metis List.finite_set finite_UnI)
      moreover have "s ! (b - 1) \<notin> ?A a" using lt by blast
      ultimately show ?thesis using ca by simp
    qed
    then show ?thesis
      using step [of "s ! (b - 1)" a "b - 1"] s tb b0 lt ai il by auto
  next
    case both
    have "a - 1 \<le> i" using ai by simp
    then show ?thesis
      using step [of "vec ! (a - 1)" "a - 1" "b - 1"] both ta tb ai il by auto
  next
    case vec
    have "a - 1 \<le> i" using ai by simp
    moreover have "\<forall>x \<in> ?B b. x < vec ! (a - 1)"
      using vec(2) tb by (cases "b = 0") (auto intro: less_trans)
    ultimately show ?thesis
      using step [of "vec ! (a - 1)" "a - 1" b] vec ta less_not_sym ai il by auto
  qed
qed

lemma vs_insert_asserts_hold: "ascending vec \<Longrightarrow> vs_insert_asserts t vec"
  using vs_find_geq_split(3) [of vec t "vs_find_geq vec t"] by (auto simp: vs_insert_asserts_def Let_def)

lemma vs_insert_set_asserts_hold:
  assumes "ascending vec" "ascending s"
  shows "vs_insert_set_asserts s vec"
proof -
  let ?n = "length vec + card (set s - set vec)"
  have miss: "missing_loop vec s 0 0 0 = card (set s - set vec)"
    using missing_loop_spec [OF assms, of 0 0 0] by simp
  have card: "?n = card (set vec \<union> set s)"
    using card_Un_disjoint [of "set vec" "set s - set vec"] distinct_card [OF ascending_distinct [OF assms(1)]]
    by (simp add: Un_Diff_cancel)
  have tk: "take (length vec) (resize ?n (s ! 0) vec) = vec" by (simp add: resize_def)
  have "fill_asserts s ?n (length vec) (length s) (resize ?n (s ! 0) vec)"
    using fill_loop_spec [of "length vec" "resize ?n (s ! 0) vec" s "length s" ?n] assms card unfolding tk by simp
  then show ?thesis using vs_insert_asserts_hold [OF assms(1)] by (simp add: vs_insert_set_asserts_def miss Let_def)
qed

lemma vs_insert_set_spec [vecset_specs]:
  assumes "ascending vec" "ascending s"
  shows "ascending (fst (vs_insert_set s vec))"
    and "set (fst (vs_insert_set s vec)) = set vec \<union> set s"
    and "snd (vs_insert_set s vec) = card (set s - set vec)"
proof -
  have miss: "missing_loop vec s 0 0 0 = card (set s - set vec)"
    using missing_loop_spec [OF assms, of 0 0 0] by simp
  have one: "s = [x] \<Longrightarrow> vs_insert_set s vec = (fst (vs_insert x vec), card (set s - set vec))" for x
    using assms(1) by (auto simp: vs_insert_set_def vs_insert_eq insert_Diff_if)
  have many: "fst (vs_insert_set s vec) = sorted_list_of_set (set vec \<union> set s)"
      "snd (vs_insert_set s vec) = card (set s - set vec)" if "length s \<noteq> 0" "length s \<noteq> 1"
  proof -
    let ?n = "length vec + card (set s - set vec)"
    have card: "?n = card (set vec \<union> set s)"
      using card_Un_disjoint [of "set vec" "set s - set vec"] distinct_card [OF ascending_distinct [OF assms(1)]]
      by (simp add: Un_Diff_cancel)
    show "fst (vs_insert_set s vec) = sorted_list_of_set (set vec \<union> set s)"
    proof (cases "card (set s - set vec) > 0")
      case True
      have tk: "take (length vec) (resize ?n (s ! 0) vec) = vec" by (simp add: resize_def)
      have "fill_loop s ?n (length vec) (length s) (resize ?n (s ! 0) vec) =
          sorted_list_of_set (set vec \<union> set s)"
        using fill_loop_spec [of "length vec" "resize ?n (s ! 0) vec" s "length s" ?n] assms card
        unfolding tk by simp
      then show ?thesis using that True miss by (simp add: vs_insert_set_def Let_def)
    next
      case False
      then have "set s \<subseteq> set vec" by auto
      then have "set vec \<union> set s = set vec" by blast
      moreover have "missing_loop vec s 0 0 0 = 0" using False miss by linarith
      ultimately show ?thesis
        using that assms(1)
        by (simp add: vs_insert_set_def Let_def sorted_list_of_set.idem_if_sorted_distinct strict_sorted_iff)
    qed
    show "snd (vs_insert_set s vec) = card (set s - set vec)"
      using that miss by (simp add: vs_insert_set_def Let_def)
  qed
  consider "s = []" | x where "s = [x]" | "length s \<noteq> 0" "length s \<noteq> 1"
    by (metis One_nat_def length_0_conv length_Suc_conv)
  then show "ascending (fst (vs_insert_set s vec))"
    "set (fst (vs_insert_set s vec)) = set vec \<union> set s"
    "snd (vs_insert_set s vec) = card (set s - set vec)"
  proof (atomize (full), cases)
    case 1
    then show "ascending (fst (vs_insert_set s vec)) \<and>
      set (fst (vs_insert_set s vec)) = set vec \<union> set s \<and>
      snd (vs_insert_set s vec) = card (set s - set vec)"
      using assms by (simp add: vs_insert_set_def)
  next
    case (2 x)
    then show "ascending (fst (vs_insert_set s vec)) \<and>
      set (fst (vs_insert_set s vec)) = set vec \<union> set s \<and>
      snd (vs_insert_set s vec) = card (set s - set vec)"
      using one [OF 2] vs_insert_spec [OF assms(1)] by simp
  next
    case 3
    then show "ascending (fst (vs_insert_set s vec)) \<and>
      set (fst (vs_insert_set s vec)) = set vec \<union> set s \<and>
      snd (vs_insert_set s vec) = card (set s - set vec)"
      using many by (simp add: strict_sorted_iff)
  qed
qed

subsection \<open>Erasing\<close>

lemma length_shift_down [simp]: "length (shift_down j vec) = length vec"
  by (induction j vec rule: shift_down.induct) (subst shift_down.simps, simp)

lemma nth_shift_down:
  "k < length vec \<Longrightarrow>
   shift_down j vec ! k = (if j \<le> k \<and> k + 1 < length vec then vec ! (k + 1) else vec ! k)"
proof (induction j vec rule: shift_down.induct)
  case (1 j vec)
  show ?case
  proof (cases "j + 1 < length vec")
    case True
    then show ?thesis
      using 1 by (cases "k = j") (auto simp: shift_down.simps [of j vec] nth_list_update)
  next
    case False
    then show ?thesis using "1.prems" by (auto simp: shift_down.simps [of j vec])
  qed
qed

lemma vs_erase_at_eq [vecset_specs]:
  assumes "p < length vec"
  shows "vs_erase_at p vec = take p vec @ drop (Suc p) vec"
  by (rule nth_equalityI) (use assms in \<open>auto simp: vs_erase_at_def nth_shift_down nth_append\<close>)

lemma vs_erase_spec [vecset_specs]:
  assumes "ascending vec"
  shows "ascending (fst (vs_erase t vec))"
    and "set (fst (vs_erase t vec)) = set vec - {t}"
    and "snd (vs_erase t vec) = (if t \<in> set vec then 1 else 0)"
proof -
  let ?i = "vs_find_geq vec t"
  have hit: "(length vec \<le> ?i \<or> t < vec ! ?i) \<longleftrightarrow> t \<notin> set vec"
    using vs_find_geq_hit(1) [OF assms, of t] by auto
  have in_case: "ascending (take ?i vec @ drop (Suc ?i) vec) \<and>
      set (take ?i vec @ drop (Suc ?i) vec) = set vec - {t}" if t: "t \<in> set vec"
  proof -
    have i: "?i < length vec" "vec ! ?i = t" using hit vs_find_geq_hit(2) [OF assms t] t by auto
    then have eq: "vec = take ?i vec @ t # drop (Suc ?i) vec" by (metis id_take_nth_drop)
    have "ascending (take ?i vec @ t # drop (Suc ?i) vec)" using assms eq by simp
    moreover have "set vec = insert t (set (take ?i vec) \<union> set (drop (Suc ?i) vec))"
      by (subst eq) auto
    ultimately show ?thesis by (auto simp: sorted_wrt_append)
  qed
  show "ascending (fst (vs_erase t vec))" "set (fst (vs_erase t vec)) = set vec - {t}"
    "snd (vs_erase t vec) = (if t \<in> set vec then 1 else 0)"
    using hit in_case assms
    by (cases "t \<in> set vec"; simp add: vs_erase_def Let_def vs_erase_at_eq del: not_le not_less)+
qed

text \<open>
  \<open>ains\<close> is the length of the part already compacted, \<open>a\<close> the next element to look at; \<open>ains \<le> a\<close>,
  so the elements from \<open>a\<close> on are the original ones.
\<close>

lemma erase_loop_spec:
  assumes "ascending (drop a vec)" "ascending S" "ains \<le> a"
    and "erase_loop S a b ains n vec = (vec', a', ains', n')"
  shows "length vec' = length vec \<and> ains' \<le> a' \<and> (a \<le> length vec \<longrightarrow> a' \<le> length vec) \<and>
    take ains' vec' @ drop a' vec' = take ains vec @ filter (\<lambda>x. x \<notin> set (drop b S)) (drop a vec) \<and>
    n' + ains' + a = n + ains + a'"
  using assms
proof (induction S a b ains n vec arbitrary: vec' a' ains' n' rule: erase_loop.induct)
  case (1 S a b ains n vec)
  show ?case
  proof (cases "a < length vec \<and> b < length S")
    case False
    then have "filter (\<lambda>x. x \<notin> set (drop b S)) (drop a vec) = drop a vec" by auto
    moreover have "erase_loop S a b ains n vec = (vec, a, ains, n)"
      using False by (auto simp: erase_loop.simps [of S a b ains n vec])
    ultimately show ?thesis using "1.prems"(3,4) by simp
  next
    case True
    then have ab: "a < length vec" "b < length S" by auto
    have dv: "drop a vec = vec ! a # drop (Suc a) vec" using ab(1) by (simp add: Cons_nth_drop_Suc)
    have ds: "set (drop b S) = insert (S ! b) (set (drop (Suc b) S))" by (rule drop_insert_nth [OF ab(2)])
    have gv: "\<forall>y \<in> set (drop (Suc a) vec). vec ! a < y" and sv: "ascending (drop (Suc a) vec)"
      using "1.prems"(1) by (simp_all add: dv)
    note gs = ascending_drop_nth [OF "1.prems"(2) ab(2)]
    consider (lt) "vec ! a < S ! b" | (gt) "S ! b < vec ! a" | (eq) "S ! b = vec ! a" by fastforce
    then show ?thesis
    proof cases
      case lt
      let ?v = "if ains \<noteq> a then vec[ains := vec ! a] else vec"
      have v: "drop (Suc a) ?v = drop (Suc a) vec" "take (Suc ains) ?v = take ains vec @ [vec ! a]"
        "length ?v = length vec"
        using "1.prems"(3) ab(1) by (auto simp: take_Suc_conv_app_nth)
      have "vec ! a \<notin> set (drop b S)" using lt gs by (auto simp: ds)
      moreover have "erase_loop S (a + 1) b (ains + 1) n ?v = (vec', a', ains', n')"
        using "1.prems"(4) True lt by (simp add: erase_loop.simps [of S a b ains n vec])
      ultimately show ?thesis
        using "1.IH"(1) [OF True lt, of vec' a' ains' n'] v sv "1.prems"(2,3) ab(1) by (simp add: dv)
    next
      case gt
      then have "filter (\<lambda>x. x \<notin> set (drop b S)) (drop a vec) = filter (\<lambda>x. x \<notin> set (drop (b + 1) S)) (drop a vec)"
        using gv by (intro filter_cong) (auto simp: dv ds)
      moreover have "erase_loop S a (b + 1) ains n vec = (vec', a', ains', n')"
        using "1.prems"(4) True gt less_not_sym [OF gt] by (simp add: erase_loop.simps [of S a b ains n vec])
      ultimately show ?thesis
        using "1.IH"(2) [OF True less_not_sym [OF gt] gt, of vec' a' ains' n'] "1.prems"(1,2,3) by simp
    next
      case eq
      then have "filter (\<lambda>x. x \<notin> set (drop b S)) (drop a vec) =
          filter (\<lambda>x. x \<notin> set (drop (b + 1) S)) (drop (a + 1) vec)"
        using gv by (simp add: dv ds) (auto intro!: filter_cong)
      moreover have "erase_loop S (a + 1) (b + 1) ains (n + 1) vec = (vec', a', ains', n')"
        using "1.prems"(4) True eq by (simp add: erase_loop.simps [of S a b ains n vec])
      ultimately show ?thesis
        using "1.IH"(3) [OF True, of vec' a' ains' n'] eq sv "1.prems"(2,3) ab(1) by (simp add: dv)
    qed
  qed
qed

lemma move_tail_eq:
  assumes "ains \<le> a" "a \<le> length vec"
  shows "snd (move_tail a ains vec) = ains + (length vec - a) \<and>
    take (snd (move_tail a ains vec)) (fst (move_tail a ains vec)) = take ains vec @ drop a vec"
  using assms
proof (induction a ains vec rule: move_tail.induct)
  case (1 a ains vec)
  show ?case
  proof (cases "a < length vec")
    case True
    then have "take (Suc ains) (vec[ains := vec ! a]) = take ains vec @ [vec ! a]"
      using "1.prems" by (simp add: take_Suc_conv_app_nth)
    moreover have "drop (a + 1) (vec[ains := vec ! a]) = drop (Suc a) vec" using "1.prems" by simp
    ultimately have rest: "take (ains + 1) (vec[ains := vec ! a]) @ drop (a + 1) (vec[ains := vec ! a]) =
        take ains vec @ drop a vec"
      using True by (simp add: Cons_nth_drop_Suc)
    have IH: "snd (move_tail (a + 1) (ains + 1) (vec[ains := vec ! a])) = ains + 1 + (length vec - (a + 1)) \<and>
        take (snd (move_tail (a + 1) (ains + 1) (vec[ains := vec ! a])))
          (fst (move_tail (a + 1) (ains + 1) (vec[ains := vec ! a]))) = take ains vec @ drop a vec"
      using "1.IH" [OF True] True "1.prems" unfolding rest length_list_update by linarith
    have "move_tail a ains vec = move_tail (a + 1) (ains + 1) (vec[ains := vec ! a])"
      using True by (simp add: move_tail.simps [of a ains vec])
    moreover have "ains + 1 + (length vec - (a + 1)) = ains + (length vec - a)" using True by simp
    ultimately show ?thesis using IH by metis
  next
    case False
    then have "move_tail a ains vec = (vec, ains)" by (simp add: move_tail.simps [of a ains vec])
    then show ?thesis using False "1.prems" by simp
  qed
qed

lemma vs_erase_set_spec [vecset_specs]:
  assumes "ascending vec" "ascending S"
  shows "fst (vs_erase_set S vec) = filter (\<lambda>x. x \<notin> set S) vec"
    and "snd (vs_erase_set S vec) = card (set vec \<inter> set S)"
proof -
  obtain v a ains n where el: "erase_loop S 0 0 0 0 vec = (v, a, ains, n)"
    using prod_cases4 by blast
  note sp = erase_loop_spec [of 0 vec S 0, OF _ assms(2) _ el, simplified, OF assms(1)]
  let ?r = "filter (\<lambda>x. x \<notin> set S) vec"
  have count: "card (set vec \<inter> set S) + length ?r = length vec"
  proof -
    have "card (set vec \<inter> set S) = length (filter (\<lambda>x. x \<in> set S) vec)"
      using distinct_card [of "filter (\<lambda>x. x \<in> set S) vec"] ascending_distinct [OF assms(1)]
      by (simp add: Int_def)
    then show ?thesis using sum_length_filter_compl [of "\<lambda>x. x \<in> set S" vec] by simp
  qed
  have n: "n = card (set vec \<inter> set S)"
  proof -
    have "length v = length vec" "ains \<le> a" "a \<le> length vec" using sp by simp_all
    then have "length (take ains v @ drop a v) = ains + (length vec - a)" by simp
    moreover have "length (take ains v @ drop a v) = length ?r" using sp by metis
    ultimately show ?thesis using sp count by linarith
  qed
  have eq: "vs_erase_set S vec = (?r, n)" if "vec \<noteq> []" "S \<noteq> []"
  proof (cases "ains = a")
    case True
    then have "v = ?r" using sp by (metis append_take_drop_id)
    then show ?thesis using that el True by (simp add: vs_erase_set_def)
  next
    case False
    then show ?thesis
      using that el sp move_tail_eq [of ains a v]
      by (cases "move_tail a ains v") (simp add: vs_erase_set_def)
  qed
  show "fst (vs_erase_set S vec) = ?r" "snd (vs_erase_set S vec) = card (set vec \<inter> set S)"
    using eq n by (cases "vec = []"; cases "S = []"; simp add: vs_erase_set_def)+
qed

subsection \<open>Inclusion, intersection and the total order\<close>

lemma subset_loop_spec:
  assumes "ascending vec" "ascending s"
  shows "subset_loop vec s a b \<longleftrightarrow> set (drop a vec) \<subseteq> set (drop b s)"
  using assms
proof (induction vec s a b rule: subset_loop.induct)
  case (1 vec s a b)
  note sv = "1.prems"
  show ?case
  proof (cases "a < length vec")
    case False
    then show ?thesis by (simp add: subset_loop.simps [of vec s a b])
  next
    case a: True
    show ?thesis
    proof (cases "length vec - a > length s - b")
      case True
      have "card (set (drop a vec)) = length vec - a" "card (set (drop b s)) = length s - b"
        using distinct_card [of "drop a vec"] distinct_card [of "drop b s"]
          ascending_distinct [OF sv(1)] ascending_distinct [OF sv(2)] by simp_all
      then have "\<not> set (drop a vec) \<subseteq> set (drop b s)"
        using True card_mono [of "set (drop b s)" "set (drop a vec)"] by auto
      then show ?thesis using a True by (simp add: subset_loop.simps [of vec s a b])
    next
      case len: False
      then have b: "b < length s" using a by linarith
      note dv = drop_insert_nth [OF a] and ds = drop_insert_nth [OF b]
      note gv = ascending_drop_nth [OF sv(1) a] and gs = ascending_drop_nth [OF sv(2) b]
      consider "vec ! a < s ! b" | "vec ! a = s ! b" | "s ! b < vec ! a" by fastforce
      then show ?thesis
      proof cases
        case 1
        then have "vec ! a \<notin> set (drop b s)" using gs by (auto simp: ds)
        then have "\<not> set (drop a vec) \<subseteq> set (drop b s)" by (auto simp: dv)
        then show ?thesis using a 1 by (simp add: subset_loop.simps [of vec s a b])
      next
        case 2
        then show ?thesis
          using a len "1.IH"(1) [OF a len _ _ sv] gv by (auto simp: subset_loop.simps [of vec s a b] dv ds)
      next
        case 3
        then have "s ! b \<notin> set (drop a vec)" using gv by (auto simp: dv)
        then have "set (drop a vec) \<subseteq> set (drop b s) \<longleftrightarrow> set (drop a vec) \<subseteq> set (drop (b + 1) s)"
          by (simp add: ds subset_insert)
        then show ?thesis
          using a len 3 less_not_sym [OF 3] "1.IH"(2) [OF a len _ _ sv]
          by (simp add: subset_loop.simps [of vec s a b])
      qed
    qed
  qed
qed

lemma vs_subset_of_spec [vecset_specs]:
  assumes "ascending vec" "ascending s"
  shows "vs_subset_of vec s \<longleftrightarrow> set vec \<subseteq> set s"
proof -
  have "\<not> set vec \<subseteq> set s" if "length vec > length s"
    using that card_mono [of "set s" "set vec"] distinct_card [OF ascending_distinct [OF assms(1)]]
      distinct_card [OF ascending_distinct [OF assms(2)]] by auto
  then show ?thesis using subset_loop_spec [OF assms, of 0 0] by (auto simp: vs_subset_of_def)
qed

lemma intersects_loop_spec:
  assumes "ascending vec" "ascending s"
  shows "intersects_loop vec s a b \<longleftrightarrow> set (drop a vec) \<inter> set (drop b s) \<noteq> {}"
  using assms
proof (induction vec s a b rule: intersects_loop.induct)
  case (1 vec s a b)
  note sv = "1.prems"
  show ?case
  proof (cases "a < length vec \<and> b < length s")
    case False
    then show ?thesis by (auto simp: intersects_loop.simps [of vec s a b])
  next
    case True
    then have ab: "a < length vec" "b < length s" by auto
    note dv = drop_insert_nth [OF ab(1)] and ds = drop_insert_nth [OF ab(2)]
    note gv = ascending_drop_nth [OF sv(1) ab(1)] and gs = ascending_drop_nth [OF sv(2) ab(2)]
    consider "vec ! a < s ! b" | "vec ! a = s ! b" | "s ! b < vec ! a" by fastforce
    then show ?thesis
    proof cases
      case 1
      then have "vec ! a \<notin> set (drop b s)" using gs by (auto simp: ds)
      then show ?thesis
        using "1.IH"(1) [OF True 1 sv] True 1 by (simp add: intersects_loop.simps [of vec s a b] dv)
    next
      case 2
      then show ?thesis using True by (simp add: intersects_loop.simps [of vec s a b] dv ds)
    next
      case 3
      then have "s ! b \<notin> set (drop a vec)" using gv by (auto simp: dv)
      then show ?thesis
        using "1.IH"(2) [OF True less_not_sym [OF 3] _ sv] True 3 less_not_sym [OF 3]
        by (simp add: intersects_loop.simps [of vec s a b] ds)
    qed
  qed
qed

lemma vs_intersects_spec [vecset_specs]:
  "ascending vec \<Longrightarrow> ascending s \<Longrightarrow> vs_intersects vec s \<longleftrightarrow> set vec \<inter> set s \<noteq> {}"
  using intersects_loop_spec [of vec s 0 0] by (simp add: vs_intersects_def)

lemma vs_seq_eq_iff [vecset_specs]: "vs_seq_eq xs ys \<longleftrightarrow> xs = ys"
proof -
  have eq: "(\<not> (a < b \<or> b < a)) = (a = b)" for a b :: 'a by auto
  show ?thesis unfolding vs_seq_eq_def list_all_iff list_eq_iff_nth_eq eq by auto
qed

lemma vs_seq_lt_Cons:
  "vs_seq_lt (x # xs) (y # ys) \<longleftrightarrow> x < y \<or> x = y \<and> vs_seq_lt xs ys"
  by auto

lemma vs_seq_lt_irrefl: "\<not> vs_seq_lt xs xs"
  by (induction xs) auto

lemma vs_seq_lt_trans: "vs_seq_lt xs ys \<Longrightarrow> vs_seq_lt ys zs \<Longrightarrow> vs_seq_lt xs zs"
proof (induction xs zs arbitrary: ys rule: vs_seq_lt.induct)
  case (1 xs)
  then show ?case by simp
next
  case (2 z zs)
  then show ?case by simp
next
  case (3 x xs z zs)
  then obtain y ys' where ys: "ys = y # ys'" by (cases ys) auto
  have "x < y \<or> x = y \<and> vs_seq_lt xs ys'" "y < z \<or> y = z \<and> vs_seq_lt ys' zs"
    using "3.prems" unfolding ys vs_seq_lt_Cons by auto
  then consider "x < z" | "x = z" "vs_seq_lt xs ys'" "vs_seq_lt ys' zs"
    by (elim disjE conjE) (auto intro: less_trans)
  then show ?case
  proof cases
    case 2
    then show ?thesis using "3.IH" [of ys'] by simp
  qed simp
qed

lemma vs_seq_lt_total: "vs_seq_lt xs ys \<or> xs = ys \<or> vs_seq_lt ys xs"
proof (induction xs ys rule: vs_seq_lt.induct)
  case (1 xs)
  then show ?case by (cases xs) auto
qed auto

section \<open>The set interface\<close>

text \<open>
  What a client of a set container relies on: an abstraction to finite sets, kept by every
  operation, through which the operations are the ones of sets. Clients are verified against the
  locale only.
\<close>

locale set_container =
  fixes invar :: "'s \<Rightarrow> bool" and \<alpha> :: "'s \<Rightarrow> 'a set"
    and ins :: "'a \<Rightarrow> 's \<Rightarrow> 's" and del :: "'a \<Rightarrow> 's \<Rightarrow> 's"
    and join :: "'s \<Rightarrow> 's \<Rightarrow> 's" and minus_set :: "'s \<Rightarrow> 's \<Rightarrow> 's"
    and mem :: "'a \<Rightarrow> 's \<Rightarrow> bool"
  assumes ins_invar: "invar s \<Longrightarrow> invar (ins x s)" and ins_set: "invar s \<Longrightarrow> \<alpha> (ins x s) = insert x (\<alpha> s)"
    and del_invar: "invar s \<Longrightarrow> invar (del x s)" and del_set: "invar s \<Longrightarrow> \<alpha> (del x s) = \<alpha> s - {x}"
    and join_invar: "invar s \<Longrightarrow> invar t \<Longrightarrow> invar (join t s)"
    and join_set: "invar s \<Longrightarrow> invar t \<Longrightarrow> \<alpha> (join t s) = \<alpha> s \<union> \<alpha> t"
    and minus_invar: "invar s \<Longrightarrow> invar t \<Longrightarrow> invar (minus_set t s)"
    and minus_set: "invar s \<Longrightarrow> invar t \<Longrightarrow> \<alpha> (minus_set t s) = \<alpha> s - \<alpha> t"
    and mem_set: "invar s \<Longrightarrow> mem x s \<longleftrightarrow> x \<in> \<alpha> s"
begin

lemmas kept = ins_invar del_invar join_invar minus_invar
lemmas meaning = ins_set del_set join_set minus_set mem_set

lemma fold_ins: "invar s \<Longrightarrow> invar (fold ins xs s) \<and> \<alpha> (fold ins xs s) = \<alpha> s \<union> set xs"
  by (induction xs arbitrary: s) (auto simp: kept meaning)

lemma fold_del: "invar s \<Longrightarrow> invar (fold del xs s) \<and> \<alpha> (fold del xs s) = \<alpha> s - set xs"
  by (induction xs arbitrary: s) (auto simp: kept meaning)

lemma union_then_minus:
  assumes "invar s" "invar t"
  shows "mem x (minus_set t (join t s)) \<longleftrightarrow> mem x s \<and> \<not> mem x t"
  using assms by (simp add: kept meaning) blast

end

text \<open>A client program: a sequence of updates of one set.\<close>

datatype 'a set_op = Insert 'a | InsertAll "'a list" | Erase 'a | EraseAll "'a list"

fun vs_apply :: "'a::linorder set_op \<Rightarrow> 'a vecset \<Rightarrow> 'a vecset" where
  "vs_apply (Insert x) vec = fst (vs_insert x vec)"
| "vs_apply (InsertAll xs) vec = fst (vs_insert_set (vs_of_range [] xs) vec)"
| "vs_apply (Erase x) vec = fst (vs_erase x vec)"
| "vs_apply (EraseAll xs) vec = fst (vs_erase_set (vs_of_range [] xs) vec)"

text \<open>The run of a program, which stops at a failed assertion.\<close>

fun vs_asserts :: "'a::linorder set_op \<Rightarrow> 'a vecset \<Rightarrow> bool" where
  "vs_asserts (Insert x) vec = vs_insert_asserts x vec"
| "vs_asserts (InsertAll xs) vec = vs_insert_set_asserts (vs_of_range [] xs) vec"
| "vs_asserts (Erase x) vec = True"
| "vs_asserts (EraseAll xs) vec = True"

fun vs_run :: "'a::linorder set_op list \<Rightarrow> 'a vecset \<Rightarrow> 'a vecset option" where
  "vs_run [] vec = Some vec"
| "vs_run (op # ops) vec = (if vs_asserts op vec then vs_run ops (vs_apply op vec) else None)"

fun set_apply :: "'a set_op \<Rightarrow> 'a set \<Rightarrow> 'a set" where
  "set_apply (Insert x) A = insert x A"
| "set_apply (InsertAll xs) A = A \<union> set xs"
| "set_apply (Erase x) A = A - {x}"
| "set_apply (EraseAll xs) A = A - set xs"

interpretation vs: set_container ascending set "\<lambda>x v. fst (vs_insert x v)" "\<lambda>x v. fst (vs_erase x v)"
  "\<lambda>t v. fst (vs_insert_set t v)" "\<lambda>t v. fst (vs_erase_set t v)" "\<lambda>x v. vs_count v x = 1"
  by unfold_locales (auto simp: vecset_specs sorted_wrt_filter)

lemma vs_apply_refines:
  assumes "ascending vec"
  shows "ascending (vs_apply op vec) \<and> set (vs_apply op vec) = set_apply op (set vec)"
proof -
  have r: "ascending (vs_of_range [] xs)" "set (vs_of_range [] xs) = set xs" for xs :: "'a list"
    using vs_of_range_spec [of "[]" xs] by simp_all
  show ?thesis using assms by (cases op) (simp_all add: vs.kept vs.meaning r)
qed

section \<open>Properties\<close>

text \<open>
  C29. Every sequence of insertions, unions, removals and differences, started from the empty set,
  runs without failing an assertion and leaves a strictly ascending vector that holds exactly the elements of the set the same sequence
  of set operations gives.
\<close>

theorem vs_operations_refine_sets:
  "\<exists>vec. vs_run ops [] = Some vec \<and> vs_check_invariant vec \<and> set vec = fold set_apply ops {}"
proof -
  have "\<exists>v. vs_run ops vec = Some v \<and> ascending v \<and> set v = fold set_apply ops (set vec)"
    if "ascending vec" for vec :: "'a list"
    using that
  proof (induction ops arbitrary: vec)
    case (Cons op ops)
    have "ascending (vs_of_range [] xs)" for xs :: "'a list" using vs_of_range_spec [of "[]" xs] by simp
    then have "vs_asserts op vec"
      using Cons.prems by (cases op) (simp_all add: vs_insert_asserts_hold vs_insert_set_asserts_hold)
    then show ?case using Cons.IH [of "vs_apply op vec"] vs_apply_refines [OF Cons.prems, of op] by auto
  qed simp
  from this [of "[]"] show ?thesis by (simp add: vs_check_invariant_iff)
qed

text \<open>
  The binary search returns the first position whose element is not smaller than the key, so a
  lookup returns the position of the key, and \<open>-1\<close> exactly when it is not a member.
\<close>

lemma vs_find_geq_first:
  assumes "vs_check_invariant vec"
  shows "vs_find_geq vec t \<le> length vec \<and> (\<forall>i < vs_find_geq vec t. vec ! i < t) \<and>
    (\<forall>i. vs_find_geq vec t \<le> i \<and> i < length vec \<longrightarrow> t \<le> vec ! i) \<and>
    (vs_find vec t = -1 \<longleftrightarrow> t \<notin> set vec) \<and> (t \<in> set vec \<longrightarrow> vec ! nat (vs_find vec t) = t)"
proof -
  have a: "ascending vec" using assms by (simp add: vs_check_invariant_iff)
  show ?thesis
    using vs_find_geq_split [OF a] vs_find_geq_hit(2) [OF a] by (simp add: vs_find_spec [OF a])
qed

text \<open>
  Union and difference with another set report how many elements they added or removed, and the
  inclusion and intersection tests decide inclusion and intersection.
\<close>

lemma vs_set_operations_count:
  assumes "vs_check_invariant vec" "vs_check_invariant s"
  shows "snd (vs_insert_set s vec) = card (set s - set vec) \<and> snd (vs_erase_set s vec) = card (set vec \<inter> set s) \<and>
    length (fst (vs_insert_set s vec)) = length vec + snd (vs_insert_set s vec) \<and>
    fst (vs_erase_set s vec) = filter (\<lambda>x. x \<notin> set s) vec \<and>
    (vs_subset_of vec s \<longleftrightarrow> set vec \<subseteq> set s) \<and> (vs_intersects vec s \<longleftrightarrow> set vec \<inter> set s \<noteq> {})"
proof -
  have a: "ascending vec" "ascending s" using assms by (simp_all add: vs_check_invariant_iff)
  note I = vs_insert_set_spec [OF a]
  have "length (fst (vs_insert_set s vec)) = card (set vec \<union> set s)"
    using distinct_card [OF ascending_distinct [OF I(1)]] I(2) by simp
  also have "\<dots> = card (set vec) + card (set s - set vec)"
    by (subst card_Un_disjoint [symmetric]) auto
  also have "card (set vec) = length vec" by (rule distinct_card [OF ascending_distinct [OF a(1)]])
  finally show ?thesis
    using I(3) vs_erase_set_spec [OF a] vs_subset_of_spec [OF a] vs_intersects_spec [OF a] by simp
qed

text \<open>
  The comparison operators of sets are a strict total order that agrees with equality: for any
  two sets exactly one of less, equal and greater holds, and less is transitive.
\<close>

lemma vs_comparison_total:
  "(vs_seq_lt xs ys \<and> \<not> vs_seq_eq xs ys \<and> \<not> vs_seq_lt ys xs \<or>
    \<not> vs_seq_lt xs ys \<and> vs_seq_eq xs ys \<and> \<not> vs_seq_lt ys xs \<or>
    \<not> vs_seq_lt xs ys \<and> \<not> vs_seq_eq xs ys \<and> vs_seq_lt ys xs) \<and>
   (vs_seq_lt xs ys \<and> vs_seq_lt ys zs \<longrightarrow> vs_seq_lt xs zs)"
  using vs_seq_lt_irrefl vs_seq_lt_total [of xs ys] vs_seq_lt_trans by (auto simp: vs_seq_eq_iff)

end
