(* ===== verification/VClocks.thy ===== *)
theory VClocks
  imports Prelude
begin

text \<open>
  Vector clocks: \<^verbatim>\<open>VClock<int>\<close> (\<^verbatim>\<open>src/src/VClock.cpp\<close>), the packed array \<^verbatim>\<open>VClockVec\<close> and the
  general \<^verbatim>\<open>VClock<DOM>\<close> over a \<^verbatim>\<open>std::map\<close> (\<^verbatim>\<open>src/src/VClock.h\<close>, \<^verbatim>\<open>src/src/VClock.tcc\<close>). A
  \<^verbatim>\<open>VClock<int>\<close> is its vector, read as a function that is 0 past the end, so different vectors
  can be the same clock. The operations are shown to be the pointwise ones: join, meet, the partial
  order and the total order of clocks. Clock values are natural numbers, as the code asserts.
\<close>

section \<open>Clocks over process numbers: \<^verbatim>\<open>VClock<int>\<close>\<close>

type_synonym vclock = "nat list"

definition vc_get :: "vclock \<Rightarrow> nat \<Rightarrow> nat" where
  "vc_get vec i = (if i < length vec then vec ! i else 0)"

text \<open>The writing subscript \<^verbatim>\<open>vc[i] = x\<close>, which enlarges the vector first.\<close>

definition vc_set :: "vclock \<Rightarrow> nat \<Rightarrow> nat \<Rightarrow> vclock" where
  "vc_set vec i x = (if i \<ge> length vec then (resize (i + 1) 0 vec)[i := x] else vec[i := x])"

fun vc_size_loop :: "vclock \<Rightarrow> nat \<Rightarrow> nat" where
  "vc_size_loop vec 0 = 0"
| "vc_size_loop vec (Suc s) = (if vec ! s = 0 then vc_size_loop vec s else Suc s)"

definition vc_size :: "vclock \<Rightarrow> nat" where
  "vc_size vec = vc_size_loop vec (length vec)"

definition vc_size_ub :: "vclock \<Rightarrow> nat" where
  "vc_size_ub vec = length vec"

definition vc_includes :: "vclock \<Rightarrow> nat \<times> nat \<Rightarrow> bool" where
  "vc_includes vec iid = (snd iid \<le> vc_get vec (fst iid))"

definition vc_plus :: "vclock \<Rightarrow> vclock \<Rightarrow> vclock" where
  "vc_plus v w = map (\<lambda>i. max (vc_get v i) (vc_get w i)) [0..<max (length v) (length w)]"

definition vc_plus_assign :: "vclock \<Rightarrow> vclock \<Rightarrow> vclock" where
  "vc_plus_assign v w =
     (let sz = length w;
          v1 = (if length v < sz then resize sz 0 v else v)
      in upd_upto sz (\<lambda>i x. if w ! i > x then w ! i else x) v1)"

definition vc_minus :: "vclock \<Rightarrow> vclock \<Rightarrow> vclock" where
  "vc_minus v w = map (\<lambda>i. min (vc_get v i) (vc_get w i)) [0..<max (length v) (length w)]"

definition vc_minus_assign :: "vclock \<Rightarrow> vclock \<Rightarrow> vclock" where
  "vc_minus_assign v w =
     (let sz = length w;
          v1 = (if length v < sz then resize sz 0 v else v)
      in upd_upto sz (\<lambda>i x. if w ! i < x then w ! i else x) v1)"

definition vc_eq :: "vclock \<Rightarrow> vclock \<Rightarrow> bool" where
  "vc_eq v w = list_all (\<lambda>i. vc_get v i = vc_get w i) [0..<max (length v) (length w)]"

text \<open>The loops of \<^verbatim>\<open>operator<\<close>, \<^verbatim>\<open>lt\<close> and \<^verbatim>\<open>gt\<close> run over the remaining indices.\<close>

fun vc_less_loop :: "vclock \<Rightarrow> vclock \<Rightarrow> nat list \<Rightarrow> bool" where
  "vc_less_loop v w [] = False"
| "vc_less_loop v w (i # is) =
     (if vc_get v i < vc_get w i then True
      else if vc_get v i > vc_get w i then False
      else vc_less_loop v w is)"

definition vc_less :: "vclock \<Rightarrow> vclock \<Rightarrow> bool" where
  "vc_less v w = vc_less_loop v w [0..<max (length v) (length w)]"

definition vc_less_eq :: "vclock \<Rightarrow> vclock \<Rightarrow> bool" where
  "vc_less_eq v w = (\<not> vc_less w v)"

fun vc_lt_loop :: "vclock \<Rightarrow> vclock \<Rightarrow> bool \<Rightarrow> nat list \<Rightarrow> bool" where
  "vc_lt_loop v w strict [] = strict"
| "vc_lt_loop v w strict (i # is) =
     (if vc_get v i > vc_get w i then False
      else vc_lt_loop v w (strict \<or> vc_get v i < vc_get w i) is)"

definition vc_lt :: "vclock \<Rightarrow> vclock \<Rightarrow> bool" where
  "vc_lt v w = vc_lt_loop v w False [0..<max (length v) (length w)]"

definition vc_leq :: "vclock \<Rightarrow> vclock \<Rightarrow> bool" where
  "vc_leq v w =
     (list_all (\<lambda>i. \<not> w ! i < v ! i) [0..<min (length v) (length w)] \<and>
      list_all (\<lambda>i. v ! i = 0) [min (length v) (length w)..<length v])"

definition vc_geq :: "vclock \<Rightarrow> vclock \<Rightarrow> bool" where
  "vc_geq v w = list_all (\<lambda>i. \<not> vc_get v i < vc_get w i) [0..<max (length v) (length w)]"

fun vc_gt_loop :: "vclock \<Rightarrow> vclock \<Rightarrow> bool \<Rightarrow> nat list \<Rightarrow> bool" where
  "vc_gt_loop v w strict [] = strict"
| "vc_gt_loop v w strict (i # is) =
     (if vc_get v i < vc_get w i then False
      else vc_gt_loop v w (strict \<or> vc_get v i > vc_get w i) is)"

definition vc_gt :: "vclock \<Rightarrow> vclock \<Rightarrow> bool" where
  "vc_gt v w = vc_gt_loop v w False [0..<max (length v) (length w)]"

definition vc_intersects_below :: "vclock \<Rightarrow> vclock \<Rightarrow> bool" where
  "vc_intersects_below v w = list_ex (\<lambda>i. vc_get v i \<ge> vc_get w i) [0..<length w]"

section \<open>Correctness of \<^verbatim>\<open>VClock<int>\<close>\<close>

lemma vc_get_nth_or: "vc_get v i = nth_or 0 v i"
  by (simp add: vc_get_def nth_or_def)

lemma vc_get_Nil [simp]: "vc_get [] i = 0"
  by (simp add: vc_get_def)

lemma vc_get_beyond [simp]: "length v \<le> i \<Longrightarrow> vc_get v i = 0"
  by (simp add: vc_get_def)

lemma vc_get_set [clock_specs]: "vc_get (vc_set v i x) j = (if j = i then x else vc_get v j)"
  by (auto simp: vc_get_def vc_set_def nth_list_update nth_resize nth_or_def)

lemma length_vc_set [simp]: "length (vc_set v i x) = max (length v) (Suc i)"
  by (auto simp: vc_set_def)

lemma vc_get_plus [clock_specs]: "vc_get (vc_plus v w) i = max (vc_get v i) (vc_get w i)"
  by (auto simp: vc_plus_def vc_get_def)

lemma vc_get_plus_assign [clock_specs]: "vc_get (vc_plus_assign v w) i = max (vc_get v i) (vc_get w i)"
  by (auto simp: vc_plus_assign_def Let_def vc_get_def nth_upd_upto nth_resize nth_or_def max_def)

lemma vc_get_minus [clock_specs]: "vc_get (vc_minus v w) i = min (vc_get v i) (vc_get w i)"
  by (auto simp: vc_minus_def vc_get_def)

text \<open>
  \<^verbatim>\<open>operator-=\<close> stops at the length of its argument, so the entries of the receiver past that
  length keep their values although the argument is 0 there.
\<close>

lemma vc_get_minus_assign [clock_specs]:
  "vc_get (vc_minus_assign v w) i = (if i < length w then min (vc_get v i) (vc_get w i) else vc_get v i)"
  by (auto simp: vc_minus_assign_def Let_def vc_get_def nth_upd_upto nth_resize nth_or_def min_def)

text \<open>The bounded loops decide statements about all processes.\<close>

lemma all_below_max:
  assumes "P 0 0"
  shows "(\<forall>i \<in> set [0..<max (length v) (length w)]. P (vc_get v i) (vc_get w i)) \<longleftrightarrow>
    (\<forall>i. P (vc_get v i) (vc_get w i))"
proof -
  have "P (vc_get v i) (vc_get w i)" if "max (length v) (length w) \<le> i" for i
    using that assms by simp
  then show ?thesis by (metis atLeastLessThan_iff le0 not_le set_upt)
qed

lemma ex_below_max:
  assumes "\<not> P 0 0"
  shows "(\<exists>i \<in> set [0..<max (length v) (length w)]. P (vc_get v i) (vc_get w i)) \<longleftrightarrow>
    (\<exists>i. P (vc_get v i) (vc_get w i))"
  using all_below_max [of "\<lambda>x y. \<not> P x y" v w] assms by blast

lemma vc_eq_iff [clock_specs]: "vc_eq v w \<longleftrightarrow> (\<forall>i. vc_get v i = vc_get w i)"
  using all_below_max [of "(=)" v w] by (simp add: vc_eq_def list_all_iff del: set_upt)

lemma vc_geq_iff [clock_specs]: "vc_geq v w \<longleftrightarrow> (\<forall>i. vc_get w i \<le> vc_get v i)"
  using all_below_max [of "\<lambda>x y. \<not> x < y" v w] by (simp add: vc_geq_def list_all_iff not_less del: set_upt)

lemma vc_leq_iff [clock_specs]: "vc_leq v w \<longleftrightarrow> (\<forall>i. vc_get v i \<le> vc_get w i)"
proof -
  have "vc_leq v w \<longleftrightarrow> (\<forall>i < length v. v ! i \<le> vc_get w i)"
    by (auto simp: vc_leq_def list_all_iff vc_get_def min_def not_less split: if_splits)
  then show ?thesis by (auto simp: vc_get_def)
qed

lemma vc_lt_loop_iff:
  "vc_lt_loop v w b is \<longleftrightarrow>
   (\<forall>i \<in> set is. vc_get v i \<le> vc_get w i) \<and> (b \<or> (\<exists>i \<in> set is. vc_get v i < vc_get w i))"
  by (induction "is" arbitrary: b) auto

lemma vc_gt_loop_iff:
  "vc_gt_loop v w b is \<longleftrightarrow>
   (\<forall>i \<in> set is. vc_get w i \<le> vc_get v i) \<and> (b \<or> (\<exists>i \<in> set is. vc_get w i < vc_get v i))"
  by (induction "is" arbitrary: b) auto

lemma vc_lt_iff [clock_specs]:
  "vc_lt v w \<longleftrightarrow> (\<forall>i. vc_get v i \<le> vc_get w i) \<and> (\<exists>i. vc_get v i < vc_get w i)"
  using all_below_max [of "(\<le>)" v w] ex_below_max [of "(<)" v w]
  by (simp add: vc_lt_def vc_lt_loop_iff del: set_upt)

lemma vc_gt_iff [clock_specs]:
  "vc_gt v w \<longleftrightarrow> (\<forall>i. vc_get w i \<le> vc_get v i) \<and> (\<exists>i. vc_get w i < vc_get v i)"
  using all_below_max [of "(\<ge>)" v w] ex_below_max [of "(>)" v w]
  by (simp add: vc_gt_def vc_gt_loop_iff del: set_upt)

text \<open>The total order: at the first process where two clocks differ, the smaller value decides.\<close>

abbreviation first_less :: "vclock \<Rightarrow> vclock \<Rightarrow> nat \<Rightarrow> nat \<Rightarrow> bool" where
  "first_less v w m k \<equiv>
     vc_get v k < vc_get w k \<and> (\<forall>i. m \<le> i \<and> i < k \<longrightarrow> vc_get v i = vc_get w i)"

lemma first_less_Suc:
  assumes "vc_get v m = vc_get w m" "m \<le> k"
  shows "first_less v w m k \<longleftrightarrow> Suc m \<le> k \<and> first_less v w (Suc m) k"
  using assms by (metis Suc_leI Suc_le_lessD le_eq_less_or_eq less_irrefl)

lemma vc_less_loop_iff:
  "vc_less_loop v w [m..<n] \<longleftrightarrow> (\<exists>k. m \<le> k \<and> k < n \<and> first_less v w m k)"
proof (induction "n - m" arbitrary: m)
  case 0
  then show ?case by simp
next
  case (Suc d)
  then have m: "m < n" and IH: "vc_less_loop v w [Suc m..<n] \<longleftrightarrow>
     (\<exists>k. Suc m \<le> k \<and> k < n \<and> first_less v w (Suc m) k)"
    using Suc.hyps(1) [of "Suc m"] by auto
  note unf = upt_conv_Cons [OF m] vc_less_loop.simps IH
  consider "vc_get v m < vc_get w m" | "vc_get v m > vc_get w m" | "vc_get v m = vc_get w m"
    by linarith
  then show ?case
  proof cases
    case 1
    then show ?thesis unfolding unf using m by auto
  next
    case 2
    then have "\<not> first_less v w m k" if "m \<le> k" for k
      using that by (metis le_eq_less_or_eq less_asym less_irrefl)
    then show ?thesis unfolding unf using 2 by auto
  next
    case 3
    have "(m \<le> k \<and> k < n \<and> first_less v w m k) \<longleftrightarrow> (Suc m \<le> k \<and> k < n \<and> first_less v w (Suc m) k)" for k
      using first_less_Suc [OF 3, of k] Suc_leD [of m k] by blast
    then show ?thesis unfolding unf using 3 by simp
  qed
qed

lemma vc_less_iff [clock_specs]:
  "vc_less v w \<longleftrightarrow> (\<exists>k. vc_get v k < vc_get w k \<and> (\<forall>i < k. vc_get v i = vc_get w i))"
proof -
  have "k < max (length v) (length w)" if "vc_get v k < vc_get w k" for k
    using that by (auto simp: vc_get_def split: if_splits)
  then show ?thesis unfolding vc_less_def vc_less_loop_iff by (meson le0)
qed

lemma vc_less_total: "vc_less v w \<or> vc_eq v w \<or> vc_less w v"
proof (cases "vc_eq v w")
  case False
  then obtain j where "vc_get v j \<noteq> vc_get w j" by (auto simp: vc_eq_iff)
  then obtain k where k: "vc_get v k \<noteq> vc_get w k" "\<forall>i < k. vc_get v i = vc_get w i"
    using exists_least_iff [of "\<lambda>j. vc_get v j \<noteq> vc_get w j"] by auto
  then have "vc_get v k < vc_get w k \<or> vc_get w k < vc_get v k" by linarith
  then show ?thesis using k(2) unfolding vc_less_iff by metis
qed simp

lemma vc_less_irrefl: "vc_eq v w \<Longrightarrow> \<not> vc_less v w"
  by (auto simp: vc_less_iff vc_eq_iff)

lemma vc_less_trans: "vc_less u v \<Longrightarrow> vc_less v w \<Longrightarrow> vc_less u w"
proof -
  assume "vc_less u v" "vc_less v w"
  then obtain k l where k: "vc_get u k < vc_get v k" "\<forall>i < k. vc_get u i = vc_get v i"
    and l: "vc_get v l < vc_get w l" "\<forall>i < l. vc_get v i = vc_get w i"
    by (auto simp: vc_less_iff)
  have "vc_get u (min k l) < vc_get w (min k l)" "\<forall>i < min k l. vc_get u i = vc_get w i"
    using k l by (auto simp: min_def not_le dest: le_neq_implies_less intro: less_trans)
  then show "vc_less u w" by (auto simp: vc_less_iff)
qed

lemma vc_lt_trans:
  assumes "vc_lt u v" "vc_lt v w"
  shows "vc_lt u w"
proof -
  obtain i where "vc_get u i < vc_get v i" using assms(1) by (auto simp: vc_lt_iff)
  moreover have "vc_get v i \<le> vc_get w i" using assms(2) by (simp add: vc_lt_iff)
  ultimately have "vc_get u i < vc_get w i" by linarith
  then show ?thesis using assms unfolding vc_lt_iff by (meson order_trans)
qed

lemma vc_lt_irrefl: "\<not> vc_lt v v"
  by (simp add: vc_lt_iff)

lemma vc_leq_imp_less_eq: "vc_leq v w \<Longrightarrow> vc_less_eq v w"
  by (auto simp: vc_leq_iff vc_less_eq_def vc_less_iff not_less)

lemma vc_size_loop_spec:
  assumes "n \<le> length v"
  shows "vc_size_loop v n \<le> n \<and> (\<forall>i. vc_size_loop v n \<le> i \<and> i < n \<longrightarrow> v ! i = 0) \<and>
    (vc_size_loop v n \<noteq> 0 \<longrightarrow> v ! (vc_size_loop v n - 1) \<noteq> 0)"
  using assms by (induction n) (auto simp: less_Suc_eq)

lemma vc_size_spec [clock_specs]:
  "vc_size v \<le> i \<Longrightarrow> vc_get v i = 0"
  "vc_size v \<noteq> 0 \<Longrightarrow> vc_get v (vc_size v - 1) \<noteq> 0"
  using vc_size_loop_spec [of "length v" v] by (auto simp: vc_size_def vc_get_def)

section \<open>The packed array of clocks: \<^verbatim>\<open>VClockVec\<close>\<close>

text \<open>
  All clocks of a \<^verbatim>\<open>VClockVec\<close> live in one vector, clock \<open>d\<close> at the positions from
  \<open>d * clock_size\<close>. A \<^verbatim>\<open>Ref\<close> is a pointer into it; here its operations name the array and \<open>d\<close>.
\<close>

record vclock_vec =
  cv_vec :: "nat list"
  cv_clock_size :: nat

definition cv_new :: "nat \<Rightarrow> nat \<Rightarrow> vclock_vec" where
  "cv_new clock_size sz = \<lparr>cv_vec = replicate (clock_size * sz) 0, cv_clock_size = clock_size\<rparr>"

definition cv_get :: "vclock_vec \<Rightarrow> nat \<Rightarrow> nat \<Rightarrow> nat" where
  "cv_get cv d i = cv_vec cv ! (d * cv_clock_size cv + i)"

definition cv_put :: "vclock_vec \<Rightarrow> nat \<Rightarrow> nat \<Rightarrow> nat \<Rightarrow> vclock_vec" where
  "cv_put cv d i x = cv\<lparr>cv_vec := (cv_vec cv)[d * cv_clock_size cv + i := x]\<rparr>"

fun cv_assign_loop :: "vclock_vec \<Rightarrow> nat \<Rightarrow> (nat \<Rightarrow> nat) \<Rightarrow> nat list \<Rightarrow> vclock_vec" where
  "cv_assign_loop cv d f [] = cv"
| "cv_assign_loop cv d f (i # is) = cv_assign_loop (cv_put cv d i (f i)) d f is"

definition cv_assign_clock :: "vclock_vec \<Rightarrow> nat \<Rightarrow> vclock \<Rightarrow> vclock_vec" where
  "cv_assign_clock cv d vc = cv_assign_loop cv d (vc_get vc) [0..<cv_clock_size cv]"

fun cv_minus_loop :: "vclock_vec \<Rightarrow> nat \<Rightarrow> nat \<Rightarrow> nat list \<Rightarrow> vclock_vec" where
  "cv_minus_loop cv d e [] = cv"
| "cv_minus_loop cv d e (i # is) =
     cv_minus_loop (if cv_get cv e i < cv_get cv d i then cv_put cv d i (cv_get cv e i) else cv) d e is"

definition cv_minus_assign :: "vclock_vec \<Rightarrow> nat \<Rightarrow> nat \<Rightarrow> vclock_vec" where
  "cv_minus_assign cv d e = cv_minus_loop cv d e [0..<cv_clock_size cv]"

fun cv_lt_loop :: "vclock_vec \<Rightarrow> nat \<Rightarrow> nat \<Rightarrow> bool \<Rightarrow> nat list \<Rightarrow> bool" where
  "cv_lt_loop cv d e strict [] = strict"
| "cv_lt_loop cv d e strict (i # is) =
     (if cv_get cv d i > cv_get cv e i then False
      else cv_lt_loop cv d e (strict \<or> cv_get cv d i < cv_get cv e i) is)"

definition cv_lt :: "vclock_vec \<Rightarrow> nat \<Rightarrow> nat \<Rightarrow> bool" where
  "cv_lt cv d e = cv_lt_loop cv d e False [0..<cv_clock_size cv]"

fun cv_assign_all :: "vclock_vec \<Rightarrow> vclock \<Rightarrow> nat list \<Rightarrow> vclock_vec" where
  "cv_assign_all cv init [] = cv"
| "cv_assign_all cv init (d # ds) = cv_assign_all (cv_assign_clock cv d init) init ds"

definition cv_assign :: "vclock_vec \<Rightarrow> nat \<Rightarrow> nat \<Rightarrow> vclock \<Rightarrow> vclock_vec" where
  "cv_assign cv clock_size count init =
     (let cv1 = cv\<lparr>cv_clock_size := clock_size, cv_vec := resize (count * clock_size) 0 (cv_vec cv)\<rparr>
      in cv_assign_all cv1 init [0..<count])"

subsection \<open>Correctness\<close>

text \<open>\<open>cv_ok cv n\<close>: the array holds (at least) \<open>n\<close> clocks.\<close>

definition cv_ok :: "vclock_vec \<Rightarrow> nat \<Rightarrow> bool" where
  "cv_ok cv n \<longleftrightarrow> n * cv_clock_size cv \<le> length (cv_vec cv)"

lemma cv_index_less:
  assumes "cv_ok cv n" "d < n" "i < cv_clock_size cv"
  shows "d * cv_clock_size cv + i < length (cv_vec cv)"
proof -
  have "d * cv_clock_size cv + i < Suc d * cv_clock_size cv" using assms(3) by simp
  also have "\<dots> \<le> n * cv_clock_size cv" using assms(2) by (intro mult_le_mono1) simp
  finally show ?thesis using assms(1) by (simp add: cv_ok_def)
qed

lemma cv_index_inj:
  fixes cs :: nat
  assumes "i < cs" "j < cs"
  shows "d * cs + i = e * cs + j \<longleftrightarrow> d = e \<and> i = j"
proof
  assume "d * cs + i = e * cs + j"
  then have "(d * cs + i) div cs = (e * cs + j) div cs" "(d * cs + i) mod cs = (e * cs + j) mod cs" by simp_all
  then show "d = e \<and> i = j" using assms by simp
qed simp

lemma cv_put_simps [simp]:
  "cv_clock_size (cv_put cv d i x) = cv_clock_size cv"
  "cv_ok (cv_put cv d i x) n \<longleftrightarrow> cv_ok cv n"
  by (simp_all add: cv_put_def cv_ok_def)

lemma cv_get_put [clock_specs]:
  assumes "cv_ok cv n" "d < n" "i < cv_clock_size cv" "j < cv_clock_size cv"
  shows "cv_get (cv_put cv d i x) e j = (if e = d \<and> j = i then x else cv_get cv e j)"
proof -
  have "d * cv_clock_size cv + i = e * cv_clock_size cv + j \<longleftrightarrow> e = d \<and> j = i"
    using cv_index_inj [OF assms(3,4), of d e] by auto
  then show ?thesis
    using cv_index_less [OF assms(1-3)] by (auto simp: cv_get_def cv_put_def nth_list_update)
qed

lemma cv_assign_loop_spec:
  assumes "cv_ok cv n" "d < n" "set is \<subseteq> {..<cv_clock_size cv}" "j < cv_clock_size cv"
  shows "cv_ok (cv_assign_loop cv d f is) n \<and> cv_clock_size (cv_assign_loop cv d f is) = cv_clock_size cv \<and>
    cv_get (cv_assign_loop cv d f is) e j = (if e = d \<and> j \<in> set is then f j else cv_get cv e j)"
  using assms by (induction "is" arbitrary: cv) (auto simp: cv_get_put)

lemma cv_minus_loop_spec:
  assumes "cv_ok cv n" "d < n" "e < n" "d \<noteq> e" "set is \<subseteq> {..<cv_clock_size cv}" "j < cv_clock_size cv"
    and "distinct is"
  shows "cv_ok (cv_minus_loop cv d e is) n \<and> cv_clock_size (cv_minus_loop cv d e is) = cv_clock_size cv \<and>
    cv_get (cv_minus_loop cv d e is) k j =
      (if k = d \<and> j \<in> set is then min (cv_get cv d j) (cv_get cv e j) else cv_get cv k j)"
  using assms
proof (induction "is" arbitrary: cv)
  case (Cons i "is")
  let ?cv = "if cv_get cv e i < cv_get cv d i then cv_put cv d i (cv_get cv e i) else cv"
  have "cv_get ?cv k' j' = (if k' = d \<and> j' = i then min (cv_get cv d i) (cv_get cv e i) else cv_get cv k' j')"
    if "j' < cv_clock_size cv" for k' j'
    using Cons.prems that by (auto simp: cv_get_put [of cv n])
  then show ?case using Cons.prems Cons.IH [of ?cv] by auto
qed simp

lemma cv_get_assign_clock [clock_specs]:
  assumes "cv_ok cv n" "d < n" "j < cv_clock_size cv"
  shows "cv_get (cv_assign_clock cv d vc) e j = (if e = d then vc_get vc j else cv_get cv e j)"
    and "cv_ok (cv_assign_clock cv d vc) n" and "cv_clock_size (cv_assign_clock cv d vc) = cv_clock_size cv"
  using cv_assign_loop_spec [OF assms(1,2) _ assms(3), of "[0..<cv_clock_size cv]" "vc_get vc" e] assms(3)
  by (auto simp: cv_assign_clock_def atLeast0LessThan)

lemma cv_get_minus_assign [clock_specs]:
  assumes "cv_ok cv n" "d < n" "e < n" "d \<noteq> e" "j < cv_clock_size cv"
  shows "cv_get (cv_minus_assign cv d e) k j =
      (if k = d then min (cv_get cv d j) (cv_get cv e j) else cv_get cv k j)"
    and "cv_ok (cv_minus_assign cv d e) n" and "cv_clock_size (cv_minus_assign cv d e) = cv_clock_size cv"
  using cv_minus_loop_spec [OF assms(1-4) _ assms(5), of "[0..<cv_clock_size cv]"] assms(5)
  by (auto simp: cv_minus_assign_def atLeast0LessThan)

section \<open>Properties\<close>

text \<open>
  C34. \<^verbatim>\<open>operator+\<close> and \<^verbatim>\<open>operator-\<close> are the least upper bound and the greatest lower bound of the
  pointwise order \<^verbatim>\<open>leq\<close>, whatever the lengths of the two vectors.
\<close>

theorem vc_lattice:
  "(vc_leq (vc_plus v w) u \<longleftrightarrow> vc_leq v u \<and> vc_leq w u) \<and>
   (vc_leq (vc_plus_assign v w) u \<longleftrightarrow> vc_leq v u \<and> vc_leq w u) \<and>
   (vc_leq u (vc_minus v w) \<longleftrightarrow> vc_leq u v \<and> vc_leq u w) \<and>
   (vc_lt v w \<longleftrightarrow> vc_leq v w \<and> \<not> vc_leq w v) \<and> (vc_eq v w \<longleftrightarrow> vc_leq v w \<and> vc_leq w v)"
  by (auto simp: clock_specs not_le intro: antisym)

text \<open>
  C35. \<^verbatim>\<open>operator<\<close> on clocks is a strict total order up to trailing zeros, and it extends the
  happens-before order \<^verbatim>\<open>lt\<close>.
\<close>

theorem vc_less_order:
  "(vc_less v w \<or> vc_eq v w \<or> vc_less w v) \<and> \<not> (vc_less v w \<and> vc_less w v) \<and> \<not> (vc_less v w \<and> vc_eq v w) \<and>
   (vc_less u v \<and> vc_less v w \<longrightarrow> vc_less u w) \<and> (vc_lt v w \<longrightarrow> vc_less v w)"
proof -
  have "vc_less v w" if "vc_lt v w"
  proof -
    have "vc_less_eq v w" using that vc_leq_imp_less_eq by (auto simp: clock_specs)
    moreover have "\<not> vc_eq v w" using that by (metis less_irrefl vc_eq_iff vc_lt_iff)
    ultimately show ?thesis using vc_less_total by (auto simp: vc_less_eq_def)
  qed
  then show ?thesis using vc_less_total vc_less_trans vc_less_irrefl by (metis vc_eq_iff)
qed

theorem vc_less_order_witness:
  "vc_lt [1, 0] [1, 2] \<and> vc_less [1, 0] [1, 2] \<and> vc_less [1, 2] [2] \<and> vc_less [1, 0] [2]"
proof -
  have "vc_lt [1, 0] [1, 2]" "vc_less [1, 2] [2]" by code_simp+
  then show ?thesis using vc_less_order [of "[1, 0]" "[1, 2]" "[1, 0]"] vc_less_order [of "[1, 2]" "[2]" "[1, 0]"] by blast
qed

text \<open>
  In the packed array of clocks, assigning one clock or taking the minimum with another changes
  the named clock only, to the assigned clock or the pointwise minimum; with one clock per index and
  different indices the rows never overlap.
\<close>

lemma cv_lt_loop_iff:
  "cv_lt_loop cv d e strict is \<longleftrightarrow>
     (\<forall>i \<in> set is. cv_get cv d i \<le> cv_get cv e i) \<and> (strict \<or> (\<exists>i \<in> set is. cv_get cv d i < cv_get cv e i))"
  by (induction "is" arbitrary: strict) auto

lemma cv_lt_iff [clock_specs]:
  "cv_lt cv d e \<longleftrightarrow> (\<forall>i < cv_clock_size cv. cv_get cv d i \<le> cv_get cv e i) \<and>
     (\<exists>i < cv_clock_size cv. cv_get cv d i < cv_get cv e i)"
  by (auto simp: cv_lt_def cv_lt_loop_iff atLeast0LessThan)

lemma cv_rows_independent:
  assumes "cv_ok cv n" "d < n" "e < n" "d \<noteq> e" "j < cv_clock_size cv"
  shows "cv_get (cv_assign_clock cv d vc) k j = (if k = d then vc_get vc j else cv_get cv k j) \<and>
    cv_get (cv_minus_assign cv d e) k j = (if k = d then min (cv_get cv d j) (cv_get cv e j) else cv_get cv k j) \<and>
    cv_ok (cv_minus_assign (cv_assign_clock cv d vc) d e) n"
proof -
  note A = cv_get_assign_clock [OF assms(1,2,5)]
  have "j < cv_clock_size (cv_assign_clock cv d vc)" using A(3) assms(5) by simp
  then have "cv_ok (cv_minus_assign (cv_assign_clock cv d vc) d e) n"
    by (rule cv_get_minus_assign(2) [OF A(2) assms(2-4)])
  then show ?thesis using A(1) cv_get_minus_assign(1) [OF assms] by simp
qed

end
