(* ===== verification/CPids.thy ===== *)
theory CPids
  imports Prelude "HOL-Library.List_Lexorder" "HOL-Library.Product_Lexorder"
begin

text \<open>
  Process identifiers: \<^verbatim>\<open>CPid\<close> and \<^verbatim>\<open>CPidSystem\<close> of \<^verbatim>\<open>src/src/CPid.h\<close> and \<^verbatim>\<open>src/src/CPid.cpp\<close>. The comparison is shown to be a total
  order that agrees with equality on well-formed identifiers, printing to be injective, and a
  \<^verbatim>\<open>CPidSystem\<close> to hand out fresh identifiers only and to stay closed under parents and
  predecessors. Assertions of the code are preconditions here.
\<close>

section \<open>Identifiers\<close>

record cpid =
  proc_seq :: "int list"
  aux_idx :: int

definition CPid :: cpid where
  "CPid = \<lparr>proc_seq = [], aux_idx = -1\<rparr>"

text \<open>The constructors from a vector; \<open>None\<close> is a failed assertion.\<close>

definition CPid_vec :: "int list \<Rightarrow> cpid option" where
  "CPid_vec pvec = (if length pvec > 0 \<and> hd pvec = 0 then Some \<lparr>proc_seq = tl pvec, aux_idx = -1\<rparr> else None)"

definition CPid_aux :: "int list \<Rightarrow> int \<Rightarrow> cpid option" where
  "CPid_aux pvec i =
     (if length pvec > 0 \<and> hd pvec = 0 \<and> i \<ge> 0 then Some \<lparr>proc_seq = tl pvec, aux_idx = i\<rparr> else None)"

definition is_auxiliary :: "cpid \<Rightarrow> bool" where
  "is_auxiliary c = (aux_idx c \<ge> 0)"

definition has_parent :: "cpid \<Rightarrow> bool" where
  "has_parent c = (length (proc_seq c) \<noteq> 0 \<or> is_auxiliary c)"

definition cpid_spawn :: "cpid \<Rightarrow> int \<Rightarrow> cpid option" where
  "cpid_spawn c pn1 = (if \<not> is_auxiliary c \<and> 0 \<le> pn1 then Some (c\<lparr>proc_seq := proc_seq c @ [pn1]\<rparr>) else None)"

definition cpid_aux :: "cpid \<Rightarrow> int \<Rightarrow> cpid option" where
  "cpid_aux c i = (if \<not> is_auxiliary c \<and> 0 \<le> i then Some (c\<lparr>aux_idx := i\<rparr>) else None)"

definition cpid_parent :: "cpid \<Rightarrow> cpid option" where
  "cpid_parent c =
     (if has_parent c then
        Some (if is_auxiliary c then c\<lparr>aux_idx := -1\<rparr> else c\<lparr>proc_seq := butlast (proc_seq c)\<rparr>)
      else None)"

definition get_aux_index :: "cpid \<Rightarrow> int option" where
  "get_aux_index c = (if is_auxiliary c then Some (aux_idx c) else None)"

text \<open>The loop of \<^verbatim>\<open>compare\<close>, from the common position on; the vectors are what is left of them.\<close>

fun compare_loop :: "int list \<Rightarrow> int list \<Rightarrow> int option" where
  "compare_loop (x # xs) (y # ys) = (if x < y then Some (-1) else if x > y then Some 1 else compare_loop xs ys)"
| "compare_loop [] (y # ys) = Some (-1)"
| "compare_loop (x # xs) [] = Some 1"
| "compare_loop [] [] = None"

definition cpid_compare :: "cpid \<Rightarrow> cpid \<Rightarrow> int" where
  "cpid_compare a c =
     (case compare_loop (proc_seq a) (proc_seq c) of
        Some r \<Rightarrow> r
      | None \<Rightarrow>
          if aux_idx a = aux_idx c \<or> (\<not> is_auxiliary a \<and> \<not> is_auxiliary c) then 0
          else if aux_idx a < aux_idx c then -1
          else 1)"

text \<open>Decimal printing of an \<^verbatim>\<open>int\<close> by \<^verbatim>\<open>operator<<\<close>.\<close>

fun digits :: "nat \<Rightarrow> string" where
  "digits n = (if n < 10 then [char_of (48 + n)] else digits (n div 10) @ [char_of (48 + n mod 10)])"

definition show_int :: "int \<Rightarrow> string" where
  "show_int i = (if i < 0 then ''-'' @ digits (nat (- i)) else digits (nat i))"

definition cpid_to_string :: "cpid \<Rightarrow> string" where
  "cpid_to_string c =
     ''<0'' @ concat (map (\<lambda>i. ''.'' @ show_int i) (proc_seq c)) @
     (if is_auxiliary c then ''/'' @ show_int (aux_idx c) else '''') @ ''>''"

section \<open>Systems of identifiers\<close>

text \<open>
  \<^verbatim>\<open>identifiers[c]\<close> on a \<^verbatim>\<open>std::map\<close> inserts zero for an unknown key: the precondition is that
  \<open>c\<close> is in the set, and the model reads zero otherwise too.
\<close>

record cpid_system =
  real_children :: "nat list list"
  aux_children :: "nat list list"
  cs_parent :: "int list"
  cpids :: "cpid list"
  identifiers :: "cpid \<Rightarrow> nat option"

definition CPidSystem :: cpid_system where
  "CPidSystem = \<lparr>real_children = [[]], aux_children = [[]], cs_parent = [-1], cpids = [CPid],
     identifiers = [CPid \<mapsto> 0]\<rparr>"

definition cs_id :: "cpid_system \<Rightarrow> cpid \<Rightarrow> nat" where
  "cs_id s c = (case identifiers s c of None \<Rightarrow> 0 | Some i \<Rightarrow> i)"

definition cs_add :: "nat \<Rightarrow> cpid \<Rightarrow> cpid_system \<Rightarrow> cpid_system" where
  "cs_add c_id c2 s =
     s\<lparr>real_children := real_children s @ [[]], aux_children := aux_children s @ [[]],
       cs_parent := cs_parent s @ [int c_id], cpids := cpids s @ [c2],
       identifiers := (identifiers s)(c2 \<mapsto> length (cpids s))\<rparr>"

definition cs_spawn :: "cpid_system \<Rightarrow> cpid \<Rightarrow> (cpid \<times> cpid_system) option" where
  "cs_spawn s c =
     (let c_id = cs_id s c in
      case cpid_spawn c (int (length (real_children s ! c_id))) of
        None \<Rightarrow> None
      | Some c2 \<Rightarrow>
          let c2_id = length (cpids s);
              s1 = s\<lparr>real_children := (real_children s)[c_id := real_children s ! c_id @ [c2_id]]\<rparr>
          in Some (c2, cs_add c_id c2 s1))"

definition cs_new_aux :: "cpid_system \<Rightarrow> cpid \<Rightarrow> (cpid \<times> cpid_system) option" where
  "cs_new_aux s c =
     (let c_id = cs_id s c in
      case cpid_aux c (int (length (aux_children s ! c_id))) of
        None \<Rightarrow> None
      | Some c2 \<Rightarrow>
          let c2_id = length (cpids s);
              s1 = s\<lparr>aux_children := (aux_children s)[c_id := aux_children s ! c_id @ [c2_id]]\<rparr>
          in Some (c2, cs_add c_id c2 s1))"

section \<open>Comparison is a total order\<close>

definition cpid_ok :: "cpid \<Rightarrow> bool" where
  "cpid_ok c \<longleftrightarrow> (\<forall>x \<in> set (proc_seq c). 0 \<le> x) \<and> -1 \<le> aux_idx c"

text \<open>Identifiers compare by their sequence first, then by auxiliary index.\<close>

definition cpid_key :: "cpid \<Rightarrow> int list \<times> int" where
  "cpid_key c = (proc_seq c, if is_auxiliary c then aux_idx c else -1)"

lemma compare_loop_eq: "compare_loop xs ys = (if xs < ys then Some (-1) else if ys < xs then Some 1 else None)"
  by (induction xs ys rule: compare_loop.induct) auto

lemma cpid_compare_key:
  "cpid_compare a c = (if cpid_key a < cpid_key c then -1 else if cpid_key c < cpid_key a then 1 else 0)"
proof -
  consider "proc_seq a < proc_seq c" | "proc_seq c < proc_seq a" | "proc_seq a = proc_seq c" by fastforce
  then show ?thesis
    by cases (auto simp: cpid_compare_def compare_loop_eq cpid_key_def less_prod_def is_auxiliary_def)
qed

lemma cpid_key_inj: "cpid_ok a \<Longrightarrow> cpid_ok c \<Longrightarrow> cpid_key a = cpid_key c \<longleftrightarrow> a = c"
  by (cases a; cases c) (auto simp: cpid_ok_def cpid_key_def is_auxiliary_def split: if_splits)

lemma cpid_compare_zero: "cpid_ok a \<Longrightarrow> cpid_ok c \<Longrightarrow> cpid_compare a c = 0 \<longleftrightarrow> a = c"
  using cpid_key_inj [of a c] by (cases "cpid_key a" "cpid_key c" rule: linorder_cases) (auto simp: cpid_compare_key)

section \<open>Parents\<close>

lemma cpid_ok_ops [cpid_specs]:
  "cpid_ok CPid" "cpid_ok c \<Longrightarrow> cpid_spawn c i = Some d \<Longrightarrow> cpid_ok d" "cpid_ok c \<Longrightarrow> cpid_aux c i = Some d \<Longrightarrow> cpid_ok d"
  by (auto simp: cpid_ok_def CPid_def cpid_spawn_def cpid_aux_def split: if_splits)

lemma cpid_spawn_parent [cpid_specs]: "cpid_spawn c i = Some d \<Longrightarrow> has_parent d \<and> \<not> is_auxiliary d \<and> cpid_parent d = Some c"
  by (auto simp: cpid_spawn_def cpid_parent_def has_parent_def is_auxiliary_def split: if_splits)

lemma cpid_aux_parent [cpid_specs]:
  "cpid_ok c \<Longrightarrow> cpid_aux c i = Some d \<Longrightarrow> has_parent d \<and> is_auxiliary d \<and> cpid_parent d = Some c \<and> get_aux_index d = Some i"
  by (auto simp: cpid_aux_def cpid_parent_def has_parent_def is_auxiliary_def cpid_ok_def get_aux_index_def
      split: if_splits)

lemma has_parent_iff: "cpid_ok c \<Longrightarrow> has_parent c \<longleftrightarrow> c \<noteq> CPid"
  by (cases c) (auto simp: has_parent_def is_auxiliary_def CPid_def cpid_ok_def)

text \<open>
  Every identifier with a parent is built from it. The parent is a real process if the identifier is
  auxiliary; an identifier that extends the sequence of an auxiliary one does not occur.
\<close>

lemma cpid_from_parent:
  assumes "cpid_ok c" "cpid_parent c = Some q"
  shows "cpid_ok q \<and> \<not> is_auxiliary q \<and>
    (if is_auxiliary c then cpid_aux q (aux_idx c) = Some c
     else proc_seq c \<noteq> [] \<and> cpid_spawn q (last (proc_seq c)) = Some c)"
  using assms
  by (cases c) (auto simp: cpid_parent_def cpid_ok_def is_auxiliary_def cpid_aux_def cpid_spawn_def has_parent_def
      split: if_splits dest!: in_set_butlastD)

section \<open>Printing is injective\<close>

definition digit_value :: "string \<Rightarrow> nat" where
  "digit_value s = foldl (\<lambda>v c. 10 * v + (of_char c - 48)) 0 s"

definition is_digit :: "char \<Rightarrow> bool" where
  "is_digit c \<longleftrightarrow> 48 \<le> (of_char c :: nat) \<and> (of_char c :: nat) \<le> 57"

declare digits.simps [simp del]

lemma of_char_digit: "n < 10 \<Longrightarrow> (of_char (char_of (48 + n) :: char) :: nat) = 48 + n"
  by (simp add: of_char_of)

lemma digits_spec: "digit_value (digits n) = n \<and> list_all is_digit (digits n) \<and> digits n \<noteq> []"
proof (induction n rule: digits.induct)
  case (1 n)
  show ?case
  proof (cases "n < 10")
    case True
    then show ?thesis
      by (simp add: digits.simps [of n] digit_value_def is_digit_def of_char_digit)
  next
    case False
    have "n mod 10 < 10" by simp
    then show ?thesis
      using 1 False of_char_digit [of "n mod 10"]
      by (simp add: digits.simps [of n] digit_value_def is_digit_def)
  qed
qed

lemma digits_inj: "digits m = digits n \<longleftrightarrow> m = n"
  by (metis digits_spec)

text \<open>A number is delimited by the next character that is not a digit.\<close>

lemma digits_split:
  assumes "digits m @ xs = digits n @ ys" "xs = [] \<or> \<not> is_digit (hd xs)" "ys = [] \<or> \<not> is_digit (hd ys)"
  shows "m = n \<and> xs = ys"
proof -
  have t: "takeWhile is_digit (digits k @ zs) = digits k" if "zs = [] \<or> \<not> is_digit (hd zs)" for k zs
    using digits_spec [of k] that by (cases zs) (auto simp: takeWhile_append list_all_iff)
  then have "digits m = digits n" using t [OF assms(2), of m] t [OF assms(3), of n] assms(1) by simp
  then show ?thesis using assms(1) digits_inj by simp
qed

lemma not_digit: "\<not> is_digit (CHR ''.'')" "\<not> is_digit (CHR ''/'')" "\<not> is_digit (CHR ''>'')"
  by (simp_all add: is_digit_def)

definition seq_string :: "int list \<Rightarrow> string" where
  "seq_string xs = concat (map (\<lambda>i. ''.'' @ show_int i) xs)"

lemma seq_string_split:
  assumes "seq_string xs @ us = seq_string ys @ vs" "\<forall>x \<in> set xs. 0 \<le> x" "\<forall>y \<in> set ys. 0 \<le> y"
    and "us \<noteq> []" "vs \<noteq> []" "hd us \<in> {CHR ''/'', CHR ''>''}" "hd vs \<in> {CHR ''/'', CHR ''>''}"
  shows "xs = ys \<and> us = vs"
  using assms(1-3)
proof (induction xs arbitrary: ys)
  case Nil
  then show ?case using assms(4-7) by (cases ys; cases us) (auto simp: seq_string_def)
next
  case (Cons x xs)
  show ?case
  proof (cases ys)
    case Nil
    then show ?thesis using Cons.prems(1) assms(4-7) by (cases vs) (auto simp: seq_string_def)
  next
    case ys: (Cons y zs)
    have nd: "seq_string ws @ ts = [] \<or> \<not> is_digit (hd (seq_string ws @ ts))"
      if "ts \<noteq> []" "hd ts \<in> {CHR ''/'', CHR ''>''}" for ws ts
      using that not_digit by (cases ws) (auto simp: seq_string_def)
    have "digits (nat x) @ (seq_string xs @ us) = digits (nat y) @ (seq_string zs @ vs)"
      using Cons.prems by (simp add: seq_string_def show_int_def ys)
    from digits_split [OF this nd [OF assms(4,6)] nd [OF assms(5,7)]]
    have "x = y" "seq_string xs @ us = seq_string zs @ vs" using Cons.prems ys by auto
    then show ?thesis using Cons.IH [of zs] Cons.prems ys by simp
  qed
qed

lemma cpid_to_string_inj:
  assumes "cpid_ok a" "cpid_ok c" "cpid_to_string a = cpid_to_string c"
  shows "a = c"
proof -
  let ?t = "\<lambda>c. (if is_auxiliary c then ''/'' @ show_int (aux_idx c) else []) @ ''>''"
  have "seq_string (proc_seq a) @ ?t a = seq_string (proc_seq c) @ ?t c"
    using assms(3) by (simp add: cpid_to_string_def seq_string_def)
  then have s: "proc_seq a = proc_seq c" "?t a = ?t c"
    using seq_string_split [of "proc_seq a" "?t a" "proc_seq c" "?t c"] assms(1,2) by (auto simp: cpid_ok_def)
  have "is_auxiliary a = is_auxiliary c" using s(2) by (auto split: if_splits)
  moreover have "aux_idx a = aux_idx c" if "is_auxiliary a" "is_auxiliary c"
    using s(2) that digits_split [of "nat (aux_idx a)" "''>''" "nat (aux_idx c)" "''>''"] not_digit
    by (auto simp: show_int_def is_auxiliary_def)
  ultimately have "aux_idx a = aux_idx c" using assms(1,2) by (auto simp: is_auxiliary_def cpid_ok_def)
  then show ?thesis using s(1) by simp
qed

section \<open>A system hands out fresh identifiers\<close>

definition cs_ok :: "cpid_system \<Rightarrow> bool" where
  "cs_ok s \<longleftrightarrow>
     length (real_children s) = length (cpids s) \<and> length (aux_children s) = length (cpids s) \<and>
     length (cs_parent s) = length (cpids s) \<and>
     (\<forall>c i. identifiers s c = Some i \<longleftrightarrow> i < length (cpids s) \<and> cpids s ! i = c) \<and>
     (\<forall>c \<in> set (cpids s). cpid_ok c) \<and>
     (\<forall>i < length (cpids s). \<forall>k < length (real_children s ! i).
        real_children s ! i ! k < length (cpids s) \<and>
        cpid_spawn (cpids s ! i) (int k) = Some (cpids s ! (real_children s ! i ! k))) \<and>
     (\<forall>i < length (cpids s). \<forall>k < length (aux_children s ! i).
        aux_children s ! i ! k < length (cpids s) \<and>
        cpid_aux (cpids s ! i) (int k) = Some (cpids s ! (aux_children s ! i ! k))) \<and>
     (\<forall>j < length (cpids s). \<forall>q. cpid_parent (cpids s ! j) = Some q \<longrightarrow>
        (\<exists>i < length (cpids s). cpids s ! i = q \<and> cs_parent s ! j = int i \<and>
           (if is_auxiliary (cpids s ! j) then aux_idx (cpids s ! j) < int (length (aux_children s ! i))
            else last (proc_seq (cpids s ! j)) < int (length (real_children s ! i)))))"

lemma cs_okD:
  assumes "cs_ok s"
  shows "length (real_children s) = length (cpids s)" "length (aux_children s) = length (cpids s)"
    "length (cs_parent s) = length (cpids s)"
    "identifiers s c = Some i \<longleftrightarrow> i < length (cpids s) \<and> cpids s ! i = c"
    "c \<in> set (cpids s) \<Longrightarrow> cpid_ok c"
    "i < length (cpids s) \<Longrightarrow> k < length (real_children s ! i) \<Longrightarrow> real_children s ! i ! k < length (cpids s) \<and>
        cpid_spawn (cpids s ! i) (int k) = Some (cpids s ! (real_children s ! i ! k))"
    "i < length (cpids s) \<Longrightarrow> k < length (aux_children s ! i) \<Longrightarrow> aux_children s ! i ! k < length (cpids s) \<and>
        cpid_aux (cpids s ! i) (int k) = Some (cpids s ! (aux_children s ! i ! k))"
    "j < length (cpids s) \<Longrightarrow> cpid_parent (cpids s ! j) = Some q \<Longrightarrow>
        \<exists>i < length (cpids s). cpids s ! i = q \<and> cs_parent s ! j = int i \<and>
           (if is_auxiliary (cpids s ! j) then aux_idx (cpids s ! j) < int (length (aux_children s ! i))
            else last (proc_seq (cpids s ! j)) < int (length (real_children s ! i)))"
  using assms unfolding cs_ok_def by blast+

lemma cs_ok_init: "cs_ok CPidSystem"
  by (auto simp: cs_ok_def CPidSystem_def cpid_specs cpid_parent_def has_parent_def is_auxiliary_def CPid_def
      cpid_ok_def split: if_splits)

lemma cs_id_member:
  assumes "cs_ok s" "c \<in> set (cpids s)"
  shows "cs_id s c < length (cpids s)" "cpids s ! cs_id s c = c"
proof -
  obtain i where i: "i < length (cpids s)" "cpids s ! i = c" using assms(2) by (metis in_set_conv_nth)
  then have "identifiers s c = Some i" using cs_okD(4) [OF assms(1)] by blast
  then show "cs_id s c < length (cpids s)" "cpids s ! cs_id s c = c" using i by (simp_all add: cs_id_def)
qed

text \<open>Adding a child that is the next one of its parent.\<close>

lemma cs_add_ok:
  assumes "cs_ok s" "i < length (cpids s)" "c2 \<notin> set (cpids s)" "cpid_ok c2" "cpid_parent c2 = Some (cpids s ! i)"
    and "if is_auxiliary c2
      then cpid_aux (cpids s ! i) (int (length (aux_children s ! i))) = Some c2 \<and>
        s1 = s\<lparr>aux_children := (aux_children s)[i := aux_children s ! i @ [length (cpids s)]]\<rparr>
      else cpid_spawn (cpids s ! i) (int (length (real_children s ! i))) = Some c2 \<and>
        s1 = s\<lparr>real_children := (real_children s)[i := real_children s ! i @ [length (cpids s)]]\<rparr>"
  shows "cs_ok (cs_add i c2 s1)"
proof -
  note S = cs_okD [OF assms(1)]
  let ?n = "length (cpids s)" and ?t = "cs_add i c2 s1"
  have c: "cpids ?t = cpids s @ [c2]" "identifiers ?t = (identifiers s)(c2 \<mapsto> ?n)"
    "cs_parent ?t = cs_parent s @ [int i]"
    using assms(6) by (auto simp: cs_add_def split: if_splits)
  have rc: "length (real_children ?t) = Suc ?n" "length (aux_children ?t) = Suc ?n"
    "real_children ?t ! k = (if k = ?n then [] else if k = i \<and> \<not> is_auxiliary c2
       then real_children s ! k @ [?n] else real_children s ! k)"
    "aux_children ?t ! k = (if k = ?n then [] else if k = i \<and> is_auxiliary c2
       then aux_children s ! k @ [?n] else aux_children s ! k)" if "k < Suc ?n" for k
    using assms(2,6) S(1,2) that by (auto simp: cs_add_def nth_append nth_list_update split: if_splits)
  have old: "cpids ?t ! k = cpids s ! k" "cs_parent ?t ! k = cs_parent s ! k" if "k < ?n" for k
    using that S(3) by (simp_all add: c nth_append)
  have new: "cpids ?t ! ?n = c2" "cs_parent ?t ! ?n = int i" "length (cpids ?t) = Suc ?n" using S(3) by (simp_all add: c nth_append)
  have nxt: "\<not> is_auxiliary c2 \<Longrightarrow> cpid_spawn (cpids s ! i) (int (length (real_children s ! i))) = Some c2"
    "is_auxiliary c2 \<Longrightarrow> cpid_aux (cpids s ! i) (int (length (aux_children s ! i))) = Some c2"
    using assms(6) by (simp_all split: if_splits)
  have 1: "identifiers ?t d = Some k \<longleftrightarrow> k < Suc ?n \<and> cpids ?t ! k = d" for d k
  proof (cases "k = ?n")
    case True
    then show ?thesis using S(4) [of d ?n] new by (auto simp: c(2))
  next
    case False
    then show ?thesis using S(4) [of d k] assms(3) old(1) [of k] nth_mem [of k "cpids s"] by (auto simp: c(2))
  qed
  have 2: "real_children ?t ! k ! m < Suc ?n \<and>
      cpid_spawn (cpids ?t ! k) (int m) = Some (cpids ?t ! (real_children ?t ! k ! m))"
    if k: "k < Suc ?n" "m < length (real_children ?t ! k)" for k m
  proof -
    have kn: "k < ?n" using k rc(3) [OF k(1)] by (auto simp: less_Suc_eq)
    show ?thesis
    proof (cases "m < length (real_children s ! k)")
      case True
      then have e: "real_children ?t ! k ! m = real_children s ! k ! m"
        using kn by (auto simp: rc(3) nth_append)
      show ?thesis unfolding e using S(6) [OF kn True] old(1) kn by simp
    next
      case False
      then have "k = i" "\<not> is_auxiliary c2" "m = length (real_children s ! i)"
        using k(2) kn by (auto simp: rc(3) split: if_splits)
      then show ?thesis using nxt(1) kn new(1) old(1) by (simp add: rc(3))
    qed
  qed
  have 3: "aux_children ?t ! k ! m < Suc ?n \<and>
      cpid_aux (cpids ?t ! k) (int m) = Some (cpids ?t ! (aux_children ?t ! k ! m))"
    if k: "k < Suc ?n" "m < length (aux_children ?t ! k)" for k m
  proof -
    have kn: "k < ?n" using k rc(4) [OF k(1)] by (auto simp: less_Suc_eq)
    show ?thesis
    proof (cases "m < length (aux_children s ! k)")
      case True
      then have e: "aux_children ?t ! k ! m = aux_children s ! k ! m"
        using kn by (auto simp: rc(4) nth_append)
      show ?thesis unfolding e using S(7) [OF kn True] old(1) kn by simp
    next
      case False
      then have "k = i" "is_auxiliary c2" "m = length (aux_children s ! i)"
        using k(2) kn by (auto simp: rc(4) split: if_splits)
      then show ?thesis using nxt(2) kn new(1) old(1) by (simp add: rc(4))
    qed
  qed
  have 4: "\<exists>l < Suc ?n. cpids ?t ! l = q \<and> cs_parent ?t ! j = int l \<and>
      (if is_auxiliary (cpids ?t ! j) then aux_idx (cpids ?t ! j) < int (length (aux_children ?t ! l))
       else last (proc_seq (cpids ?t ! j)) < int (length (real_children ?t ! l)))"
    if j: "j < Suc ?n" "cpid_parent (cpids ?t ! j) = Some q" for j q
  proof (cases "j = ?n")
    case True
    then have "q = cpids s ! i" using j(2) assms(5) new by simp
    then show ?thesis
      using True new assms(2) nxt old rc(3,4) [of i]
      by (intro exI [of _ i]) (auto simp: cpid_aux_def cpid_spawn_def split: if_splits)
  next
    case False
    then have jn: "j < ?n" using j(1) by simp
    then obtain l where l: "l < ?n" "cpids s ! l = q" "cs_parent s ! j = int l"
      "if is_auxiliary (cpids s ! j) then aux_idx (cpids s ! j) < int (length (aux_children s ! l))
            else last (proc_seq (cpids s ! j)) < int (length (real_children s ! l))"
      using S(8) [OF jn, of q] j(2) old(1) by auto
    then show ?thesis using old jn rc(3,4) [of l] by (intro exI [of _ l]) (auto split: if_splits)
  qed
  have 5: "length (cs_parent ?t) = Suc ?n" "\<forall>d \<in> set (cpids ?t). cpid_ok d" using S(3,5) assms(4) by (auto simp: c)
  show ?thesis
    unfolding cs_ok_def new(3) using 1 2 3 4 5 rc(1,2) lessI by blast
qed

lemma cs_spawn_spec:
  assumes "cs_ok s" "c \<in> set (cpids s)" "cs_spawn s c = Some (c2, t)"
  shows "cs_ok t" "c2 \<notin> set (cpids s)" "cpids t = cpids s @ [c2]" "cpid_parent c2 = Some c" "\<not> is_auxiliary c2"
proof -
  let ?i = "cs_id s c"
  note M = cs_id_member [OF assms(1,2)] and S = cs_okD [OF assms(1)]
  have sp: "cpid_spawn c (int (length (real_children s ! ?i))) = Some c2"
    and t: "t = cs_add ?i c2 (s\<lparr>real_children := (real_children s)[?i := real_children s ! ?i @ [length (cpids s)]]\<rparr>)"
    using assms(3) by (auto simp: cs_spawn_def Let_def split: option.splits)
  show par: "cpid_parent c2 = Some c" "\<not> is_auxiliary c2" using cpid_spawn_parent [OF sp] by simp_all
  show fresh: "c2 \<notin> set (cpids s)"
  proof
    assume "c2 \<in> set (cpids s)"
    then obtain j where j: "j < length (cpids s)" "cpids s ! j = c2" by (metis in_set_conv_nth)
    obtain i where i: "i < length (cpids s)" "cpids s ! i = c" "last (proc_seq c2) < int (length (real_children s ! i))"
      using S(8) [OF j(1), of c] j(2) par by auto
    have "i = ?i" using S(4) [of c i] S(4) [of c ?i] i(1,2) M by simp
    moreover have "last (proc_seq c2) = int (length (real_children s ! ?i))"
      using sp by (auto simp: cpid_spawn_def split: if_splits)
    ultimately show False using i(3) by simp
  qed
  show "cpids t = cpids s @ [c2]" by (simp add: t cs_add_def)
  show "cs_ok t"
    unfolding t by (rule cs_add_ok [OF assms(1) M(1) fresh]) (use sp par M(2) cpid_ok_ops(2) S(5) assms(2) in auto)
qed

lemma cs_new_aux_spec:
  assumes "cs_ok s" "c \<in> set (cpids s)" "cs_new_aux s c = Some (c2, t)"
  shows "cs_ok t" "c2 \<notin> set (cpids s)" "cpids t = cpids s @ [c2]" "cpid_parent c2 = Some c" "is_auxiliary c2"
proof -
  let ?i = "cs_id s c"
  note M = cs_id_member [OF assms(1,2)] and S = cs_okD [OF assms(1)]
  have sp: "cpid_aux c (int (length (aux_children s ! ?i))) = Some c2"
    and t: "t = cs_add ?i c2 (s\<lparr>aux_children := (aux_children s)[?i := aux_children s ! ?i @ [length (cpids s)]]\<rparr>)"
    using assms(3) by (auto simp: cs_new_aux_def Let_def split: option.splits)
  show par: "cpid_parent c2 = Some c" "is_auxiliary c2" using cpid_aux_parent [OF S(5) [OF assms(2)] sp] by simp_all
  show fresh: "c2 \<notin> set (cpids s)"
  proof
    assume "c2 \<in> set (cpids s)"
    then obtain j where j: "j < length (cpids s)" "cpids s ! j = c2" by (metis in_set_conv_nth)
    obtain i where i: "i < length (cpids s)" "cpids s ! i = c" "aux_idx c2 < int (length (aux_children s ! i))"
      using S(8) [OF j(1), of c] j(2) par by auto
    have "i = ?i" using S(4) [of c i] S(4) [of c ?i] i(1,2) M by simp
    moreover have "aux_idx c2 = int (length (aux_children s ! ?i))"
      using sp by (auto simp: cpid_aux_def split: if_splits)
    ultimately show False using i(3) by simp
  qed
  show "cpids t = cpids s @ [c2]" by (simp add: t cs_add_def)
  show "cs_ok t"
    unfolding t by (rule cs_add_ok [OF assms(1) M(1) fresh]) (use sp par M(2) cpid_ok_ops(3) S(5) assms(2) in auto)
qed

text \<open>Reachable systems.\<close>

inductive cs_reachable :: "cpid_system \<Rightarrow> bool" where
  init: "cs_reachable CPidSystem"
| spawn: "cs_reachable s \<Longrightarrow> c \<in> set (cpids s) \<Longrightarrow> cs_spawn s c = Some (c2, t) \<Longrightarrow> cs_reachable t"
| new_aux: "cs_reachable s \<Longrightarrow> c \<in> set (cpids s) \<Longrightarrow> cs_new_aux s c = Some (c2, t) \<Longrightarrow> cs_reachable t"

lemma cs_reachable_ok: "cs_reachable s \<Longrightarrow> cs_ok s"
  by (induction rule: cs_reachable.induct) (fact cs_ok_init, erule (2) cs_spawn_spec(1), erule (2) cs_new_aux_spec(1))

lemma cs_ok_distinct: "cs_ok s \<Longrightarrow> distinct (cpids s)"
  unfolding distinct_conv_nth by (metis cs_okD(4) option.inject)

lemma cs_ok_parent:
  assumes "cs_ok s" "c \<in> set (cpids s)" "cpid_parent c = Some q"
  shows "q \<in> set (cpids s)"
proof -
  obtain j where j: "j < length (cpids s)" "cpids s ! j = c" using assms(2) by (metis in_set_conv_nth)
  then show ?thesis using cs_okD(8) [OF assms(1) j(1), of q] assms(3) nth_mem by auto
qed

lemma cs_ok_predecessor:
  assumes "cs_ok s" "c \<in> set (cpids s)" "cpid_parent c = Some q"
    and "0 \<le> i" "i < (if is_auxiliary c then aux_idx c else last (proc_seq c))"
  shows "\<exists>d \<in> set (cpids s). (if is_auxiliary c then cpid_aux q i else cpid_spawn q i) = Some d"
proof -
  obtain j where j: "j < length (cpids s)" "cpids s ! j = c" using assms(2) by (metis in_set_conv_nth)
  obtain l where l: "l < length (cpids s)" "cpids s ! l = q"
    "if is_auxiliary c then aux_idx c < int (length (aux_children s ! l))
     else last (proc_seq c) < int (length (real_children s ! l))"
    using cs_okD(8) [OF assms(1) j(1), of q] assms(3) j(2) by auto
  show ?thesis
  proof (cases "is_auxiliary c")
    case True
    then have "nat i < length (aux_children s ! l)" using l(3) assms(4,5) by simp
    then show ?thesis using cs_okD(7) [OF assms(1) l(1), of "nat i"] l(2) assms(4) True by (metis int_nat_eq nth_mem)
  next
    case False
    then have "nat i < length (real_children s ! l)" using l(3) assms(4,5) by simp
    then show ?thesis using cs_okD(6) [OF assms(1) l(1), of "nat i"] l(2) assms(4) False by (metis int_nat_eq nth_mem)
  qed
qed

section \<open>Properties\<close>

text \<open>
  C30. A system of process identifiers hands out a new identifier on every spawn: it was not in the
  set before, its parent is the spawning process, and identifiers stay pairwise distinct.
\<close>

theorem cs_spawn_fresh:
  assumes "cs_reachable s" "c \<in> set (cpids s)"
    and "cs_spawn s c = Some (c2, t) \<or> cs_new_aux s c = Some (c2, t)"
  shows "c2 \<notin> set (cpids s) \<and> set (cpids t) = insert c2 (set (cpids s)) \<and> cpid_parent c2 = Some c \<and>
    distinct (cpids t) \<and> cs_id t c2 = length (cpids s)"
proof -
  have ok: "cs_ok s" by (rule cs_reachable_ok [OF assms(1)])
  have t: "cs_ok t" "c2 \<notin> set (cpids s)" "cpids t = cpids s @ [c2]" "cpid_parent c2 = Some c"
    using assms(3) cs_spawn_spec [OF ok assms(2)] cs_new_aux_spec [OF ok assms(2)] by blast+
  have "identifiers t c2 = Some (length (cpids s))" using cs_okD(4) [OF t(1)] t(3) by simp
  then show ?thesis using t cs_ok_distinct [OF t(1)] by (simp add: cs_id_def)
qed

theorem cs_spawn_fresh_witness:
  "\<exists>c2 t. cs_spawn CPidSystem CPid = Some (c2, t) \<and> c2 \<notin> set (cpids CPidSystem) \<and> cpid_parent c2 = Some CPid"
proof -
  have m: "CPid \<in> set (cpids CPidSystem)" by (simp add: CPidSystem_def)
  obtain c2 t where s: "cs_spawn CPidSystem CPid = Some (c2, t)"
    by (cases "cs_spawn CPidSystem CPid")
      (auto simp: cs_spawn_def cpid_spawn_def is_auxiliary_def CPid_def CPidSystem_def cs_id_def Let_def)
  then show ?thesis using cs_spawn_fresh [OF cs_reachable.init m] by blast
qed

text \<open>
  C31. The set of identifiers of a system is closed as its comment promises: with an identifier it
  contains its parent, and with the i-th child of a process all earlier children of the same kind
  (for a first child the second part is empty, the first is not).
\<close>

theorem cs_closed:
  assumes "cs_reachable s" "c \<in> set (cpids s)" "cpid_parent c = Some q"
  shows "q \<in> set (cpids s) \<and>
    (\<forall>i. 0 \<le> i \<and> i < (if is_auxiliary c then aux_idx c else last (proc_seq c)) \<longrightarrow>
      (\<exists>d \<in> set (cpids s). (if is_auxiliary c then cpid_aux q i else cpid_spawn q i) = Some d))"
proof -
  note ok = cs_reachable_ok [OF assms(1)]
  have "\<exists>d \<in> set (cpids s). (if is_auxiliary c then cpid_aux q i else cpid_spawn q i) = Some d"
    if "0 \<le> i" "i < (if is_auxiliary c then aux_idx c else last (proc_seq c))" for i
    using cs_ok_predecessor [OF ok assms(2,3) that] by blast
  then show ?thesis using cs_ok_parent [OF ok assms(2,3)] by blast
qed

definition cs_example :: cpid_system where
  "cs_example = snd (the (cs_spawn (snd (the (cs_spawn CPidSystem CPid))) CPid))"

lemma cs_example_reachable: "cs_reachable cs_example" "cpids cs_example = [CPid, CPid\<lparr>proc_seq := [0]\<rparr>, CPid\<lparr>proc_seq := [1]\<rparr>]"
proof -
  let ?s = "snd (the (cs_spawn CPidSystem CPid))"
  have 1: "cs_spawn CPidSystem CPid = Some (CPid\<lparr>proc_seq := [0]\<rparr>, ?s)" "cpids ?s = [CPid, CPid\<lparr>proc_seq := [0]\<rparr>]"
    by (simp_all add: cs_spawn_def cpid_spawn_def is_auxiliary_def CPid_def CPidSystem_def cs_id_def cs_add_def Let_def)
  have 2: "cs_spawn ?s CPid = Some (CPid\<lparr>proc_seq := [1]\<rparr>, cs_example)"
    "cpids cs_example = [CPid, CPid\<lparr>proc_seq := [0]\<rparr>, CPid\<lparr>proc_seq := [1]\<rparr>]"
    by (simp_all add: cs_example_def cs_spawn_def cpid_spawn_def is_auxiliary_def CPid_def CPidSystem_def cs_id_def
        cs_add_def Let_def)
  have "cs_reachable ?s" by (rule cs_reachable.spawn [OF cs_reachable.init _ 1(1)]) (simp add: CPidSystem_def)
  then show "cs_reachable cs_example" by (rule cs_reachable.spawn [OF _ _ 2(1)]) (simp add: 1(2))
  show "cpids cs_example = [CPid, CPid\<lparr>proc_seq := [0]\<rparr>, CPid\<lparr>proc_seq := [1]\<rparr>]" by (rule 2(2))
qed

theorem cs_closed_witness:
  "CPid \<in> set (cpids cs_example) \<and> (\<exists>d \<in> set (cpids cs_example). cpid_spawn CPid 0 = Some d)"
proof -
  let ?c = "CPid\<lparr>proc_seq := [1]\<rparr>"
  have c: "?c \<in> set (cpids cs_example)" "cpid_parent ?c = Some CPid" "\<not> is_auxiliary ?c"
    by (simp_all add: cs_example_reachable(2) cpid_parent_def has_parent_def is_auxiliary_def CPid_def)
  have "0 < (if is_auxiliary ?c then aux_idx ?c else last (proc_seq ?c))" using c(3) by simp
  with cs_closed [OF cs_example_reachable(1) c(1,2)] show ?thesis using c(3) by (metis order_refl)
qed

text \<open>
  C36. The comparison of process identifiers is a total order that agrees with equality, and printing
  is injective: different identifiers print differently.
\<close>

theorem cpid_order_and_printing:
  assumes "cpid_ok a" "cpid_ok b" "cpid_ok c"
  shows "(cpid_compare a b = 0 \<longleftrightarrow> a = b) \<and> cpid_compare b a = - cpid_compare a b \<and>
    (cpid_compare a b < 0 \<and> cpid_compare b c < 0 \<longrightarrow> cpid_compare a c < 0) \<and>
    (cpid_to_string a = cpid_to_string b \<longleftrightarrow> a = b)"
  using cpid_compare_zero [OF assms(1,2)] cpid_to_string_inj [OF assms(1,2)]
  by (auto simp: cpid_compare_key split: if_splits)

theorem cpid_order_and_printing_witness:
  "(cpid_to_string (CPid\<lparr>proc_seq := [1]\<rparr>) = cpid_to_string (CPid\<lparr>proc_seq := [1, 2]\<rparr>)) \<longleftrightarrow>
   CPid\<lparr>proc_seq := [1]\<rparr> = CPid\<lparr>proc_seq := [1, 2]\<rparr>"
proof -
  have "cpid_ok (CPid\<lparr>proc_seq := [1]\<rparr>)" "cpid_ok (CPid\<lparr>proc_seq := [1, 2]\<rparr>)" by (simp_all add: cpid_ok_def CPid_def)
  then show ?thesis using cpid_order_and_printing by blast
qed

end
