(* ===== verification/Scheduler.thy ===== *)
theory Scheduler
  imports Prelude "HOL-Library.Multiset" "HOL-Library.Word"
begin

text \<open>
  The work queues of the parallel exploration, \<^verbatim>\<open>src/src/RFSCDecisionTree.h\<close> and \<^verbatim>\<open>src/src/RFSCDecisionTree.cpp\<close>:
  \<^verbatim>\<open>PriorityQueueScheduler\<close> and \<^verbatim>\<open>WorkstealingPQScheduler\<close>. Each critical section (what is done while a mutex
  is held) is one operation; threads interleave their operations in any order, so a statement about every sequence of
  operations is one about every schedule of the threads. Waiting on the condition variable is the result \<open>Wait\<close>.
\<close>

section \<open>Jobs\<close>

text \<open>A decision node, of which the schedulers read the depth.\<close>

record job =
  jb_node :: nat
  jb_depth :: int

datatype dequeued = Wait | Halted | Got job

fun delivered :: "dequeued \<Rightarrow> job multiset" where
  "delivered (Got j) = {#j#}"
| "delivered _ = {#}"

section \<open>One priority queue\<close>

record pq_sched =
  pq_outstanding :: "64 word"
  pq_queue :: "job list"
  pq_halting :: bool

definition PriorityQueueScheduler :: pq_sched where
  "PriorityQueueScheduler = \<lparr>pq_outstanding = 0, pq_queue = [], pq_halting = False\<rparr>"

text \<open>
  \<^verbatim>\<open>DecisionCompare\<close> orders by depth. Which of several deepest elements \<^verbatim>\<open>std::priority_queue::top\<close> returns is
  unspecified: \<open>pick\<close> is its position.
\<close>

definition decision_compare :: "job \<Rightarrow> job \<Rightarrow> bool" where
  "decision_compare a b = (jb_depth a < jb_depth b)"

definition picks_top :: "(job list \<Rightarrow> nat) \<Rightarrow> bool" where
  "picks_top pick \<longleftrightarrow> (\<forall>q. q \<noteq> [] \<longrightarrow> pick q < length q \<and> (\<forall>x \<in> set q. \<not> decision_compare (q ! pick q) x))"

definition pq_enqueue :: "job \<Rightarrow> pq_sched \<Rightarrow> pq_sched" where
  "pq_enqueue n s = s\<lparr>pq_outstanding := pq_outstanding s + 1, pq_queue := pq_queue s @ [n]\<rparr>"

definition pq_dequeue :: "(job list \<Rightarrow> nat) \<Rightarrow> pq_sched \<Rightarrow> dequeued \<times> pq_sched" where
  "pq_dequeue pick s =
     (if \<not> pq_halting s \<and> pq_queue s = [] then (Wait, s)
      else if pq_halting s then (Halted, s)
      else let i = pick (pq_queue s)
           in (Got (pq_queue s ! i), s\<lparr>pq_queue := take i (pq_queue s) @ drop (Suc i) (pq_queue s)\<rparr>))"

definition pq_halt :: "pq_sched \<Rightarrow> pq_sched" where
  "pq_halt s = s\<lparr>pq_halting := True\<rparr>"

datatype pq_op = PQ_enqueue job | PQ_dequeue | PQ_halt

fun pq_step :: "(job list \<Rightarrow> nat) \<Rightarrow> pq_op \<Rightarrow> pq_sched \<Rightarrow> (dequeued \<times> pq_sched) option" where
  "pq_step pick (PQ_enqueue n) s = Some (Wait, pq_enqueue n s)"
| "pq_step pick PQ_dequeue s = Some (pq_dequeue pick s)"
| "pq_step pick PQ_halt s = Some (Wait, pq_halt s)"

section \<open>Work stealing\<close>

text \<open>
  A queue of a thread: the jobs of each depth, in order of depth (\<^verbatim>\<open>std::map\<close>), each a queue that is not empty.
\<close>

type_synonym work_queue = "(int \<times> job list) list"

fun tq_push :: "job \<Rightarrow> work_queue \<Rightarrow> work_queue" where
  "tq_push n [] = [(jb_depth n, [n])]"
| "tq_push n ((d, q) # m) =
     (if jb_depth n < d then (jb_depth n, [n]) # (d, q) # m
      else if jb_depth n = d then (d, q @ [n]) # m
      else (d, q) # tq_push n m)"

definition tq_empty :: "work_queue \<Rightarrow> bool" where
  "tq_empty m = (m = [])"

text \<open>\<open>None\<close> where an assertion fails.\<close>

definition tq_pop :: "work_queue \<Rightarrow> (job \<times> work_queue) option" where
  "tq_pop m =
     (if tq_empty m then None
      else case last m of
        (d, []) \<Rightarrow> None
      | (d, n # q) \<Rightarrow> Some (n, butlast m @ (if q = [] then [] else [(d, q)])))"

text \<open>The loop of \<^verbatim>\<open>steal\<close>: the back of one queue is moved to the front of the other, \<open>cnt\<close> times.\<close>

fun move_back :: "nat \<Rightarrow> job list \<Rightarrow> job list \<Rightarrow> job list \<times> job list" where
  "move_back 0 mine other = (mine, other)"
| "move_back (Suc cnt) mine other = move_back cnt (last other # mine) (butlast other)"

text \<open>The result of \<^verbatim>\<open>steal\<close>, with the new queue of the thief and of the other thread.\<close>

fun tq_steal :: "work_queue \<Rightarrow> work_queue \<Rightarrow> (bool \<times> work_queue \<times> work_queue) option" where
  "tq_steal mine [] = (if tq_empty mine then Some (False, mine, []) else None)"
| "tq_steal mine ((d, oq) # m) =
     (let cnt = (length oq + 1) div 2 in
      if tq_empty mine \<and> cnt > 0 \<and> cnt \<le> length oq then
        let (mq, oq1) = move_back cnt [] oq
        in Some (True, [(d, mq)], if oq1 = [] then m else (d, oq1) # m)
      else None)"

text \<open>\<open>ws_lock\<close> is the thread that holds the scheduler's mutex from one section of the loop to the next.\<close>

record ws_sched =
  ws_outstanding :: "64 word"
  ws_queues :: "work_queue list"
  ws_halting :: bool
  ws_lock :: "nat option"

definition WorkstealingPQScheduler :: "nat \<Rightarrow> ws_sched" where
  "WorkstealingPQScheduler num_threads = \<lparr>ws_outstanding = 0, ws_queues = replicate num_threads [], ws_halting = False, ws_lock = None\<rparr>"

definition ws_register_thread :: "nat \<Rightarrow> ws_sched \<Rightarrow> nat option" where
  "ws_register_thread i s = (if i < length (ws_queues s) then Some i else None)"

definition ws_enqueue :: "nat \<Rightarrow> job \<Rightarrow> ws_sched \<Rightarrow> ws_sched option" where
  "ws_enqueue tid n s =
     (if tid < length (ws_queues s)
      then Some (s\<lparr>ws_outstanding := ws_outstanding s + 1, ws_queues := (ws_queues s)[tid := tq_push n (ws_queues s ! tid)]\<rparr>)
      else None)"

text \<open>The thread's own queue: the section under its own lock and the start of the loop. \<open>Wait\<close> is to go on.\<close>

definition ws_own :: "nat \<Rightarrow> ws_sched \<Rightarrow> (dequeued \<times> ws_sched) option" where
  "ws_own tid s =
     (if \<not> tid < length (ws_queues s) then None
      else if ws_halting s then Some (Halted, s)
      else if \<not> tq_empty (ws_queues s ! tid) then
        (case tq_pop (ws_queues s ! tid) of
           None \<Rightarrow> None
         | Some (n, m) \<Rightarrow> Some (Got n, s\<lparr>ws_queues := (ws_queues s)[tid := m]\<rparr>))
      else Some (Wait, s))"

text \<open>The section under the lock of another thread: steal from it and take the first job.\<close>

definition ws_steal :: "nat \<Rightarrow> nat \<Rightarrow> ws_sched \<Rightarrow> (dequeued \<times> ws_sched) option" where
  "ws_steal tid other s =
     (if \<not> (tid < length (ws_queues s) \<and> other < length (ws_queues s) \<and> other \<noteq> tid) then None
      else case tq_steal (ws_queues s ! tid) (ws_queues s ! other) of
        None \<Rightarrow> None
      | Some (False, mine, theirs) \<Rightarrow> Some (Wait, s)
      | Some (True, mine, theirs) \<Rightarrow>
          (case tq_pop mine of
             None \<Rightarrow> None
           | Some (n, mine1) \<Rightarrow> Some (Got n, s\<lparr>ws_queues := (ws_queues s)[tid := mine1, other := theirs]\<rparr>)))"

fun ws_steal_loop :: "nat \<Rightarrow> nat list \<Rightarrow> ws_sched \<Rightarrow> (dequeued \<times> ws_sched) option" where
  "ws_steal_loop tid [] s = Some (Wait, s)"
| "ws_steal_loop tid (other # others) s =
     (case ws_steal tid other s of
        Some (Wait, s1) \<Rightarrow> ws_steal_loop tid others s1
      | r \<Rightarrow> r)"

text \<open>The other threads, before they are shuffled.\<close>

definition ws_others :: "nat \<Rightarrow> nat \<Rightarrow> nat list" where
  "ws_others n tid = (let others = [0..<n - 1] in if tid \<noteq> length others then others[tid := length others] else others)"

text \<open>One call without interference: own queue, then a round through the others in the order \<open>others\<close>.\<close>

definition ws_dequeue :: "nat \<Rightarrow> nat list \<Rightarrow> ws_sched \<Rightarrow> (dequeued \<times> ws_sched) option" where
  "ws_dequeue tid others s =
     (case ws_own tid s of
        Some (Wait, s1) \<Rightarrow> ws_steal_loop tid others s1
      | r \<Rightarrow> r)"

definition ws_halt :: "ws_sched \<Rightarrow> ws_sched" where
  "ws_halt s = s\<lparr>ws_halting := True\<rparr>"

text \<open>
  The steps of the threads. \<open>WS_first\<close> is the section of \<^verbatim>\<open>dequeue\<close> under the thread's own lock, \<open>WS_enter\<close> the start
  of the loop (after the mutex was acquired, or after \<^verbatim>\<open>cv.wait\<close> returned), \<open>WS_steal\<close> one iteration of the loop over
  the other threads, \<open>WS_wait\<close> the release of the mutex by \<^verbatim>\<open>cv.wait\<close>.
\<close>

datatype ws_op = WS_enqueue nat job | WS_first nat | WS_enter nat | WS_steal nat nat | WS_wait nat | WS_halt

text \<open>A thread that holds the mutex is inside the loop of \<^verbatim>\<open>dequeue\<close>; the others wait for the mutex.\<close>

fun ws_enabled :: "ws_op \<Rightarrow> ws_sched \<Rightarrow> bool" where
  "ws_enabled (WS_enqueue tid n) s = (tid < length (ws_queues s) \<and> ws_lock s \<noteq> Some tid)"
| "ws_enabled (WS_first tid) s = (tid < length (ws_queues s) \<and> ws_lock s \<noteq> Some tid)"
| "ws_enabled (WS_enter tid) s = (tid < length (ws_queues s) \<and> ws_lock s = None)"
| "ws_enabled (WS_steal tid other) s =
     (ws_lock s = Some tid \<and> other \<in> set (ws_others (length (ws_queues s)) tid))"
| "ws_enabled (WS_wait tid) s = (ws_lock s = Some tid)"
| "ws_enabled WS_halt s = (ws_lock s = None)"

fun ws_step :: "ws_op \<Rightarrow> ws_sched \<Rightarrow> (dequeued \<times> ws_sched) option" where
  "ws_step (WS_enqueue tid n) s = map_option (\<lambda>s. (Wait, s)) (ws_enqueue tid n s)"
| "ws_step (WS_first tid) s = ws_own tid s"
| "ws_step (WS_enter tid) s =
     map_option (\<lambda>(r, s1). (r, if r = Wait then s1\<lparr>ws_lock := Some tid\<rparr> else s1)) (ws_own tid s)"
| "ws_step (WS_steal tid other) s =
     map_option (\<lambda>(r, s1). (r, if r = Wait then s1 else s1\<lparr>ws_lock := None\<rparr>)) (ws_steal tid other s)"
| "ws_step (WS_wait tid) s = Some (Wait, s\<lparr>ws_lock := None\<rparr>)"
| "ws_step WS_halt s = Some (Wait, ws_halt s)"

section \<open>Job pools\<close>

text \<open>
  The interface of both schedulers: steps of the threads that are enabled in a state, a contents, and what a step adds.
  A run is a sequence of steps in the order in which their critical sections happen, with what each returned.
\<close>

inductive pool_run ::
  "('op \<Rightarrow> 's \<Rightarrow> bool) \<Rightarrow> ('op \<Rightarrow> 's \<Rightarrow> (dequeued \<times> 's) option) \<Rightarrow> 's \<Rightarrow> ('op \<times> dequeued) list \<Rightarrow> 's \<Rightarrow> bool"
  for enabled :: "'op \<Rightarrow> 's \<Rightarrow> bool" and step :: "'op \<Rightarrow> 's \<Rightarrow> (dequeued \<times> 's) option" and s0 :: 's
where
  pool_start: "pool_run enabled step s0 [] s0"
| pool_step: "pool_run enabled step s0 tr s \<Longrightarrow> enabled c s \<Longrightarrow> step c s = Some (r, s1) \<Longrightarrow>
              pool_run enabled step s0 (tr @ [(c, r)]) s1"

definition all_delivered :: "('op \<times> dequeued) list \<Rightarrow> job multiset" where
  "all_delivered tr = sum_list (map (\<lambda>(c, r). delivered r) tr)"

definition all_added :: "('op \<Rightarrow> job multiset) \<Rightarrow> ('op \<times> dequeued) list \<Rightarrow> job multiset" where
  "all_added added tr = sum_list (map (\<lambda>(c, r). added c) tr)"

locale job_pool =
  fixes invar :: "'s \<Rightarrow> bool" and contents :: "'s \<Rightarrow> job multiset" and start :: 's
    and enabled :: "'op \<Rightarrow> 's \<Rightarrow> bool" and step :: "'op \<Rightarrow> 's \<Rightarrow> (dequeued \<times> 's) option"
    and added :: "'op \<Rightarrow> job multiset"
  assumes start_ok: "invar start" "contents start = {#}"
    and step_defined: "invar s \<Longrightarrow> enabled c s \<Longrightarrow> step c s \<noteq> None"
    and step_invar: "invar s \<Longrightarrow> enabled c s \<Longrightarrow> step c s = Some (r, s1) \<Longrightarrow> invar s1"
    and step_contents: "invar s \<Longrightarrow> enabled c s \<Longrightarrow> step c s = Some (r, s1) \<Longrightarrow>
                        contents s1 + delivered r = contents s + added c"
begin

lemma pool_invar: "pool_run enabled step start tr s \<Longrightarrow> invar s"
  by (induction rule: pool_run.induct) (auto intro: start_ok step_invar)

lemma pool_conserves:
  "pool_run enabled step start tr s \<Longrightarrow> contents s + all_delivered tr = all_added added tr"
proof (induction rule: pool_run.induct)
  case (pool_step tr s c r s1)
  have "contents s1 + delivered r = contents s + added c"
    by (rule step_contents [OF pool_invar [OF pool_step.hyps(1)] pool_step.hyps(2,3)])
  moreover have "contents s1 + all_delivered (tr @ [(c, r)]) = (contents s1 + delivered r) + all_delivered tr"
    by (simp add: all_delivered_def ac_simps)
  moreover have "all_added added (tr @ [(c, r)]) = all_added added tr + added c"
    by (simp add: all_added_def)
  ultimately show ?case using pool_step.IH by (metis add.assoc add.commute)
qed (simp add: start_ok all_delivered_def all_added_def)

lemma pool_safe: "pool_run enabled step start tr s \<Longrightarrow> enabled c s \<Longrightarrow> step c s \<noteq> None"
  by (rule step_defined [OF pool_invar])

end

section \<open>What the queues hold\<close>

definition tq_jobs :: "work_queue \<Rightarrow> job multiset" where
  "tq_jobs m = mset (concat (map snd m))"

text \<open>The keys ascend, no queue of a depth is empty, and every job is under its own depth.\<close>

definition tq_ok :: "work_queue \<Rightarrow> bool" where
  "tq_ok m \<longleftrightarrow> ascending (map fst m) \<and> (\<forall>(d, q) \<in> set m. q \<noteq> [] \<and> (\<forall>j \<in> set q. jb_depth j = d))"

lemma tq_simps [simp]:
  "tq_jobs [] = {#}" "tq_jobs ((d, q) # m) = mset q + tq_jobs m" "tq_jobs (m @ m1) = tq_jobs m + tq_jobs m1"
  "tq_ok []"
  by (simp_all add: tq_jobs_def tq_ok_def)

lemma tq_ok_Cons:
  "tq_ok ((d, q) # m) \<longleftrightarrow> tq_ok m \<and> (\<forall>e \<in> fst ` set m. d < e) \<and> q \<noteq> [] \<and> (\<forall>j \<in> set q. jb_depth j = d)"
  by (auto simp: tq_ok_def)

lemma tq_push_keys: "fst ` set (tq_push n m) = insert (jb_depth n) (fst ` set m)"
  by (induction n m rule: tq_push.induct) auto

lemma tq_push_ok: "tq_ok m \<Longrightarrow> tq_ok (tq_push n m)"
proof (induction n m rule: tq_push.induct)
  case (2 n d q m)
  then show ?case by (auto simp: tq_ok_Cons tq_push_keys dest: less_trans)
qed (simp add: tq_ok_Cons)

lemma tq_push_jobs [simp]: "tq_jobs (tq_push n m) = add_mset n (tq_jobs m)"
  by (induction n m rule: tq_push.induct) auto

lemma tq_ok_snoc:
  "tq_ok (m @ [(d, q)]) \<longleftrightarrow> tq_ok m \<and> (\<forall>e \<in> fst ` set m. e < d) \<and> q \<noteq> [] \<and> (\<forall>j \<in> set q. jb_depth j = d)"
  by (auto simp: tq_ok_def ascending_snoc)

lemma tq_pop_total:
  assumes "tq_ok m" "m \<noteq> []"
  obtains m0 d n q where "m = m0 @ [(d, n # q)]" "tq_pop m = Some (n, m0 @ (if q = [] then [] else [(d, q)]))"
proof -
  obtain m0 d q0 where m: "m = m0 @ [(d, q0)]"
    using assms(2) by (metis old.prod.exhaust rev_exhaust)
  then obtain n q where q0: "q0 = n # q" using assms(1) by (auto simp: tq_ok_snoc neq_Nil_conv)
  show ?thesis by (rule that [of m0 d n q]) (simp_all add: m q0 tq_pop_def tq_empty_def)
qed

lemma tq_pop_result:
  assumes "tq_ok m" "tq_pop m = Some (n, m1)"
  shows "tq_ok m1" "add_mset n (tq_jobs m1) = tq_jobs m"
proof -
  have "m \<noteq> []" using assms(2) by (auto simp: tq_pop_def tq_empty_def)
  with assms(1) obtain m0 d n1 q
    where m: "m = m0 @ [(d, n1 # q)]" "tq_pop m = Some (n1, m0 @ (if q = [] then [] else [(d, q)]))"
    by (rule tq_pop_total)
  then have "n1 = n" "m1 = m0 @ (if q = [] then [] else [(d, q)])" using assms(2) by auto
  then show "tq_ok m1" "add_mset n (tq_jobs m1) = tq_jobs m"
    using assms(1) m(1) by (auto simp: tq_ok_snoc)
qed

text \<open>Moving \<open>cnt\<close> jobs splits the other queue in two, with the order kept.\<close>

lemma move_back_split:
  "cnt \<le> length other \<Longrightarrow>
   move_back cnt mine other = (drop (length other - cnt) other @ mine, take (length other - cnt) other)"
proof (induction cnt mine other rule: move_back.induct)
  case (2 cnt mine other)
  then obtain x where o: "other = butlast other @ [x]"
    by (metis append_butlast_last_id le_zero_eq list.size(3) nat.distinct(1))
  define b where "b = butlast other"
  have oth: "other = b @ [x]" using o b_def by simp
  show ?case using 2 by (simp add: oth)
qed simp

lemma tq_steal_some:
  assumes "tq_ok ((d, oq) # m)"
  shows "tq_steal [] ((d, oq) # m) =
    Some (True, [(d, drop (length oq div 2) oq)], if length oq div 2 = 0 then m else (d, take (length oq div 2) oq) # m)"
proof -
  have l: "oq \<noteq> []" using assms by (simp add: tq_ok_Cons)
  then have c: "length oq - (length oq + 1) div 2 = length oq div 2" "(length oq + 1) div 2 \<le> length oq" "0 < (length oq + 1) div 2"
    by (cases oq; simp; linarith)+
  show ?thesis using l c by (simp add: tq_empty_def move_back_split Let_def)
qed

lemma tq_steal_result:
  assumes "tq_ok theirs" "tq_steal [] theirs = Some (b, mine, theirs1)"
  shows "tq_ok mine" "tq_ok theirs1" "tq_jobs mine + tq_jobs theirs1 = tq_jobs theirs" "b \<longleftrightarrow> theirs \<noteq> []" "b \<longleftrightarrow> mine \<noteq> []"
proof -
  have "tq_ok mine \<and> tq_ok theirs1 \<and> tq_jobs mine + tq_jobs theirs1 = tq_jobs theirs \<and> (b \<longleftrightarrow> theirs \<noteq> []) \<and> (b \<longleftrightarrow> mine \<noteq> [])"
  proof (cases theirs)
    case Nil
    then show ?thesis using assms by (auto simp: tq_empty_def)
  next
    case (Cons p m)
    obtain d oq where p: "p = (d, oq)" by (cases p)
    let ?h = "length oq div 2"
    have ok: "tq_ok ((d, oq) # m)" using assms(1) Cons p by simp
    have l: "oq \<noteq> []" using ok by (simp add: tq_ok_Cons)
    have r: "b" "mine = [(d, drop ?h oq)]" "theirs1 = (if ?h = 0 then m else (d, take ?h oq) # m)"
      using assms(2) tq_steal_some [OF ok] by (auto simp: Cons p)
    have h: "?h < length oq" using l by simp
    have m: "mset (drop ?h oq) + mset (take ?h oq) = mset oq"
      by (metis add.commute append_take_drop_id mset_append)
    have "tq_jobs mine + tq_jobs theirs1 = tq_jobs theirs"
    proof (cases "?h = 0")
      case True
      then show ?thesis unfolding r Cons p by simp
    next
      case False
      then show ?thesis unfolding r Cons p by (simp del: div_eq_0_iff) (metis m add.assoc)
    qed
    moreover have "tq_ok mine"
      using ok r by (auto simp: tq_ok_Cons dest: in_set_dropD) (use h in linarith)
    moreover have "tq_ok theirs1" using ok h l r by (auto simp: tq_ok_Cons dest: in_set_takeD simp del: div_eq_0_iff)
    ultimately show ?thesis using r Cons by simp
  qed
  then show "tq_ok mine" "tq_ok theirs1" "tq_jobs mine + tq_jobs theirs1 = tq_jobs theirs" "b \<longleftrightarrow> theirs \<noteq> []" "b \<longleftrightarrow> mine \<noteq> []"
    by auto
qed

lemma tq_steal_defined: "tq_ok theirs \<Longrightarrow> tq_steal [] theirs \<noteq> None"
proof (cases theirs)
  case (Cons p m)
  moreover assume "tq_ok theirs"
  ultimately show ?thesis by (metis option.distinct(1) surj_pair tq_steal_some)
qed (simp add: tq_empty_def)


section \<open>The work-stealing scheduler is a job pool\<close>

definition ws_contents :: "ws_sched \<Rightarrow> job multiset" where
  "ws_contents s = sum_list (map tq_jobs (ws_queues s))"

text \<open>The queues are well formed, and the thread that holds the mutex has found its queue empty.\<close>

definition ws_ok :: "nat \<Rightarrow> ws_sched \<Rightarrow> bool" where
  "ws_ok num_threads s \<longleftrightarrow> length (ws_queues s) = num_threads \<and> (\<forall>m \<in> set (ws_queues s). tq_ok m) \<and>
     (\<forall>tid. ws_lock s = Some tid \<longrightarrow> tid < num_threads \<and> ws_queues s ! tid = [])"

fun ws_added :: "ws_op \<Rightarrow> job multiset" where
  "ws_added (WS_enqueue tid n) = {#n#}"
| "ws_added _ = {#}"

lemma sum_list_update_cancel:
  fixes f :: "'a \<Rightarrow> 'b multiset"
  shows "i < length xs \<Longrightarrow> sum_list (map f (xs[i := x])) + f (xs ! i) = sum_list (map f xs) + f x"
proof (induction xs arbitrary: i)
  case (Cons y xs)
  show ?case
  proof (cases i)
    case (Suc j)
    then show ?thesis using Cons.IH [of j] Cons.prems by (simp add: add.assoc)
  qed (simp add: ac_simps)
qed simp

lemma ws_ok_nth: "ws_ok k s \<Longrightarrow> i < k \<Longrightarrow> tq_ok (ws_queues s ! i)"
  by (auto simp: ws_ok_def)

lemma ws_ok_update:
  "ws_ok k s \<Longrightarrow> tq_ok m \<Longrightarrow> ws_lock s \<noteq> Some i \<Longrightarrow> ws_ok k (s\<lparr>ws_queues := (ws_queues s)[i := m]\<rparr>)"
  by (auto simp: ws_ok_def dest!: set_update_subset_insert [THEN subsetD])

lemma ws_others_set: "tid < n \<Longrightarrow> set (ws_others n tid) = {0..<n} - {tid} \<and> distinct (ws_others n tid)"
proof -
  assume t: "tid < n"
  show ?thesis
  proof (cases "tid = n - 1")
    case True
    then show ?thesis using t by (auto simp: ws_others_def)
  next
    case False
    have "tid < length [0..<n - 1]" "[0..<n - 1] ! tid = tid" using t False by auto
    then have u: "set ([0..<n - 1][tid := n - 1]) = insert (n - 1) ({0..<n - 1} - {tid})"
      using set_update_distinct [of "[0..<n - 1]" tid "n - 1"] by simp
    have "distinct ([0..<n - 1][tid := n - 1])" by (rule distinct_list_update) simp_all
    moreover have "insert (n - 1) ({0..<n - 1} - {tid}) = {0..<n} - {tid}" using False t by auto
    ultimately show ?thesis using False u by (simp add: ws_others_def)
  qed
qed

lemma ws_own_result:
  assumes "ws_ok k s" "tid < k" "ws_lock s \<noteq> Some tid"
  obtains r s1 where "ws_own tid s = Some (r, s1)" "ws_ok k s1" "ws_contents s1 + delivered r = ws_contents s"
    "r = Wait \<Longrightarrow> s1 = s \<and> ws_queues s ! tid = [] \<and> \<not> ws_halting s" "ws_lock s1 = ws_lock s"
proof -
  have len: "tid < length (ws_queues s)" using assms by (simp add: ws_ok_def)
  show ?thesis
  proof (cases "ws_halting s \<or> ws_queues s ! tid = []")
    case True
    then show ?thesis using len assms
      by (intro that [of "if ws_halting s then Halted else Wait" s]) (auto simp: ws_own_def tq_empty_def)
  next
    case False
    note okm = ws_ok_nth [OF assms(1,2)]
    obtain n m where p: "tq_pop (ws_queues s ! tid) = Some (n, m)"
      using okm False by (auto elim: tq_pop_total)
    note res = tq_pop_result [OF okm p]
    have "sum_list (map tq_jobs ((ws_queues s)[tid := m])) + {#n#} + tq_jobs (ws_queues s ! tid)
        = ws_contents s + (add_mset n (tq_jobs m))"
      using sum_list_update_cancel [OF len, of tq_jobs m] by (simp add: ws_contents_def add.commute add.left_commute)
    then have "sum_list (map tq_jobs ((ws_queues s)[tid := m])) + {#n#} = ws_contents s"
      unfolding res(2) by simp
    moreover have "ws_ok k (s\<lparr>ws_queues := (ws_queues s)[tid := m]\<rparr>)" by (rule ws_ok_update [OF assms(1) res(1) assms(3)])
    ultimately show ?thesis using len False p
      by (intro that [of "Got n" "s\<lparr>ws_queues := (ws_queues s)[tid := m]\<rparr>"]) (auto simp: ws_own_def tq_empty_def ws_contents_def)
  qed
qed


lemma ws_steal_result:
  assumes "ws_ok k s" "tid < k" "ws_queues s ! tid = []" "other < k" "other \<noteq> tid"
  obtains "ws_steal tid other s = Some (Wait, s)" "ws_queues s ! other = []"
  | n s1 where "ws_steal tid other s = Some (Got n, s1)" "ws_queues s ! other \<noteq> []"
      "ws_ok k (s1\<lparr>ws_lock := None\<rparr>)" "ws_contents s1 + {#n#} = ws_contents s"
proof -
  let ?q = "ws_queues s"
  have len: "tid < length ?q" "other < length ?q" using assms by (simp_all add: ws_ok_def)
  note oko = ws_ok_nth [OF assms(1) assms(4)]
  obtain b mine theirs where st: "tq_steal [] (?q ! other) = Some (b, mine, theirs)"
    using tq_steal_defined [OF oko] by (metis not_None_eq prod_cases3)
  note res = tq_steal_result [OF oko st]
  show ?thesis
  proof (cases b)
    case False
    have "ws_steal tid other s = Some (Wait, s)" "ws_queues s ! other = []"
      using False res(4) st assms len by (simp_all add: ws_steal_def)
    then show ?thesis by (rule that(1))
  next
    case True
    then obtain n mine1 where p: "tq_pop mine = Some (n, mine1)"
      using res by (metis tq_pop_total)
    note pop = tq_pop_result [OF res(1) p]
    let ?s1 = "s\<lparr>ws_queues := ?q[tid := mine1, other := theirs]\<rparr>"
    have e: "ws_steal tid other s = Some (Got n, ?s1)"
      using True st p assms len by (simp add: ws_steal_def)
    have ok1: "ws_ok k (s\<lparr>ws_lock := None\<rparr>)" using assms(1) by (simp add: ws_ok_def)
    have ok2: "ws_ok k ((s\<lparr>ws_lock := None\<rparr>)\<lparr>ws_queues := ?q[tid := mine1]\<rparr>)"
      using ws_ok_update [OF ok1 pop(1), of tid] by simp
    have ok: "ws_ok k (?s1\<lparr>ws_lock := None\<rparr>)"
      using ws_ok_update [OF ok2 res(2), of other] by (simp add: ws_ok_def)
    have s1: "sum_list (map tq_jobs (?q[tid := mine1])) = ws_contents s + tq_jobs mine1"
      using sum_list_update_cancel [OF len(1), of tq_jobs mine1] assms(3) by (simp add: ws_contents_def)
    have "sum_list (map tq_jobs (?q[tid := mine1, other := theirs])) + tq_jobs (?q ! other)
        = (ws_contents s + tq_jobs mine1) + tq_jobs theirs"
      using sum_list_update_cancel [of other "?q[tid := mine1]" tq_jobs theirs] len assms(5) s1 by simp
    then have "ws_contents ?s1 + tq_jobs (?q ! other) = (ws_contents s + tq_jobs mine1) + tq_jobs theirs"
      by (simp add: ws_contents_def)
    moreover have "tq_jobs (?q ! other) = {#n#} + tq_jobs mine1 + tq_jobs theirs"
      using res(3) pop(2) by simp
    ultimately have "(ws_contents ?s1 + {#n#}) + (tq_jobs mine1 + tq_jobs theirs) = ws_contents s + (tq_jobs mine1 + tq_jobs theirs)"
      by (simp add: ac_simps)
    then have "ws_contents ?s1 + {#n#} = ws_contents s" by (metis add_right_cancel)
    then show ?thesis using that(2) e ok True res(4) by blast
  qed
qed

text \<open>Every enabled step is defined, keeps the invariant, and accounts for the jobs.\<close>

lemma ws_step_result:
  assumes ok: "ws_ok k s" and en: "ws_enabled c s"
  shows "\<exists>r s1. ws_step c s = Some (r, s1) \<and> ws_ok k s1 \<and> ws_contents s1 + delivered r = ws_contents s + ws_added c"
proof (cases c)
  case (WS_enqueue tid n)
  have t: "tid < length (ws_queues s)" "tid < k" "ws_lock s \<noteq> Some tid" using ok en WS_enqueue by (simp_all add: ws_ok_def)
  have "ws_ok k (s\<lparr>ws_queues := (ws_queues s)[tid := tq_push n (ws_queues s ! tid)]\<rparr>)"
    using ws_ok_update [OF ok tq_push_ok [OF ws_ok_nth [OF ok t(2)]] t(3)] by simp
  moreover have "sum_list (map tq_jobs ((ws_queues s)[tid := tq_push n (ws_queues s ! tid)])) = add_mset n (ws_contents s)"
    using sum_list_update_cancel [OF t(1), of tq_jobs "tq_push n (ws_queues s ! tid)"] by (simp add: ws_contents_def)
  ultimately show ?thesis using WS_enqueue t by (simp add: ws_enqueue_def ws_contents_def ws_ok_def)
next
  case (WS_first tid)
  have t: "tid < k" "ws_lock s \<noteq> Some tid" using ok en WS_first by (simp_all add: ws_ok_def)
  show ?thesis by (rule ws_own_result [OF ok t]) (simp add: WS_first)
next
  case (WS_enter tid)
  have t: "tid < k" "ws_lock s \<noteq> Some tid" using ok en WS_enter by (simp_all add: ws_ok_def)
  show ?thesis
  proof (rule ws_own_result [OF ok t])
    fix r s1
    assume o: "ws_own tid s = Some (r, s1)" "ws_ok k s1" "ws_contents s1 + delivered r = ws_contents s"
      "r = Wait \<Longrightarrow> s1 = s \<and> ws_queues s ! tid = [] \<and> \<not> ws_halting s"
    show ?thesis
    proof (cases "r = Wait")
      case True
      then show ?thesis using o t WS_enter by (auto simp: ws_ok_def ws_contents_def)
    qed (use o WS_enter in simp)
  qed
next
  case (WS_steal tid other)
  have t: "tid < k" "ws_queues s ! tid = []" "length (ws_queues s) = k" using ok en WS_steal by (auto simp: ws_ok_def)
  have u: "other < k" "other \<noteq> tid" using ws_others_set [OF t(1)] en t(3) WS_steal by auto
  show ?thesis
  proof (rule ws_steal_result [OF ok t(1,2) u])
    assume "ws_steal tid other s = Some (Wait, s)"
    then show ?thesis using WS_steal ok by simp
  next
    fix n s1
    assume "ws_steal tid other s = Some (Got n, s1)" "ws_ok k (s1\<lparr>ws_lock := None\<rparr>)" "ws_contents s1 + {#n#} = ws_contents s"
    then show ?thesis using WS_steal by (simp add: ws_contents_def)
  qed
qed (use ok in \<open>simp_all add: ws_ok_def ws_contents_def ws_halt_def\<close>)

lemma ws_start_ok: "ws_ok k (WorkstealingPQScheduler k)"
  by (simp add: ws_ok_def WorkstealingPQScheduler_def)

interpretation ws_pool: job_pool "ws_ok k" ws_contents "WorkstealingPQScheduler k" ws_enabled ws_step ws_added for k
proof unfold_locales
  show "ws_contents (WorkstealingPQScheduler k) = {#}"
    by (induction k) (simp_all add: ws_contents_def WorkstealingPQScheduler_def)
qed (use ws_start_ok ws_step_result in fastforce)+


section \<open>The priority queue is a job pool\<close>

definition pq_contents :: "pq_sched \<Rightarrow> job multiset" where
  "pq_contents s = mset (pq_queue s)"

fun pq_added :: "pq_op \<Rightarrow> job multiset" where
  "pq_added (PQ_enqueue n) = {#n#}"
| "pq_added _ = {#}"

lemma mset_remove_nth: "i < length q \<Longrightarrow> mset (take i q @ drop (Suc i) q) + {#q ! i#} = mset q"
  by (metis Cons_nth_drop_Suc append_take_drop_id mset.simps(2) mset_append add_mset_add_single union_mset_add_mset_right)

lemma pq_job_pool:
  assumes "picks_top pick"
  shows "job_pool (\<lambda>_. True) pq_contents PriorityQueueScheduler (\<lambda>_ _. True) (pq_step pick) pq_added"
proof unfold_locales
  fix s c r s1
  assume st: "pq_step pick c s = Some (r, s1)"
  have p: "pq_queue s \<noteq> [] \<Longrightarrow> pick (pq_queue s) < length (pq_queue s)" using assms by (simp add: picks_top_def)
  show "pq_contents s1 + delivered r = pq_contents s + pq_added c"
    using st mset_remove_nth [OF p]
    by (cases c) (auto simp: pq_contents_def pq_enqueue_def pq_dequeue_def pq_halt_def Let_def split: if_splits)
next
  fix s c
  show "pq_step pick c s \<noteq> None" by (cases c) simp_all
qed (simp_all add: pq_contents_def PriorityQueueScheduler_def)

text \<open>One choice of \<^verbatim>\<open>top\<close>: the first of the deepest.\<close>

fun first_deepest :: "job list \<Rightarrow> nat" where
  "first_deepest [] = 0"
| "first_deepest [n] = 0"
| "first_deepest (n # q) = (if decision_compare n (q ! first_deepest q) then Suc (first_deepest q) else 0)"

lemma first_deepest_picks_top: "picks_top first_deepest"
proof -
  have "q \<noteq> [] \<Longrightarrow> first_deepest q < length q \<and> (\<forall>x \<in> set q. \<not> decision_compare (q ! first_deepest q) x)" for q
    by (induction q rule: first_deepest.induct) (auto simp: decision_compare_def)
  then show ?thesis by (simp add: picks_top_def)
qed

interpretation pq_pool: job_pool "\<lambda>_. True" pq_contents PriorityQueueScheduler "\<lambda>_ _. True" "pq_step first_deepest" pq_added
  by (rule pq_job_pool [OF first_deepest_picks_top])

section \<open>Properties\<close>

text \<open>
  C25. The priority-queue scheduler: with any sequence of critical sections of any number of threads, and whichever of
  the deepest jobs \<^verbatim>\<open>top\<close> returns, the jobs that were enqueued are exactly those delivered and those still queued, each
  as often as it was enqueued; a job delivered next is one of the deepest in the queue; \<^verbatim>\<open>dequeue\<close> blocks exactly when
  the queue is empty and the scheduler is not halting, and returns no job once it is halting.
\<close>

theorem priority_queue_scheduler:
  assumes "picks_top pick" and "pool_run (\<lambda>_ _. True) (pq_step pick) PriorityQueueScheduler tr s"
  shows "mset (pq_queue s) + all_delivered tr = all_added pq_added tr \<and>
    (\<forall>n s1. pq_dequeue pick s = (Got n, s1) \<longrightarrow> n \<in> set (pq_queue s) \<and> (\<forall>x \<in> set (pq_queue s). jb_depth x \<le> jb_depth n)) \<and>
    (fst (pq_dequeue pick s) = Wait \<longleftrightarrow> \<not> pq_halting s \<and> pq_queue s = []) \<and>
    fst (pq_dequeue pick (pq_halt s)) = Halted"
proof (intro conjI allI impI)
  show "mset (pq_queue s) + all_delivered tr = all_added pq_added tr"
    using job_pool.pool_conserves [OF pq_job_pool [OF assms(1)] assms(2)] by (simp add: pq_contents_def)
next
  fix n s1
  assume "pq_dequeue pick s = (Got n, s1)"
  then show "n \<in> set (pq_queue s)" "\<forall>x \<in> set (pq_queue s). jb_depth x \<le> jb_depth n"
    using assms(1) by (auto simp: pq_dequeue_def picks_top_def decision_compare_def Let_def not_less split: if_splits)
qed (auto simp: pq_dequeue_def pq_halt_def Let_def)

text \<open>Two jobs are enqueued and the deeper one delivered.\<close>

theorem priority_queue_scheduler_witness:
  "\<exists>s. pool_run (\<lambda>_ _. True) (pq_step first_deepest) PriorityQueueScheduler
      [(PQ_enqueue \<lparr>jb_node = 1, jb_depth = 0\<rparr>, Wait), (PQ_enqueue \<lparr>jb_node = 2, jb_depth = 3\<rparr>, Wait),
       (PQ_dequeue, Got \<lparr>jb_node = 2, jb_depth = 3\<rparr>)] s \<and>
    mset (pq_queue s) + {#\<lparr>jb_node = 2, jb_depth = 3\<rparr>#} =
      {#\<lparr>jb_node = 1, jb_depth = 0\<rparr>, \<lparr>jb_node = 2, jb_depth = 3\<rparr>#}"
proof -
  let ?a = "\<lparr>jb_node = 1, jb_depth = 0\<rparr>" and ?b = "\<lparr>jb_node = 2, jb_depth = 3\<rparr>"
  let ?R = "pool_run (\<lambda>_ _. True) (pq_step first_deepest) PriorityQueueScheduler"
  have "?R ([] @ [(PQ_enqueue ?a, Wait)]) (pq_enqueue ?a PriorityQueueScheduler)"
    by (rule pool_step [OF pool_start]) simp_all
  from pool_step [OF this, of "PQ_enqueue ?b" Wait]
  have "?R (([] @ [(PQ_enqueue ?a, Wait)]) @ [(PQ_enqueue ?b, Wait)]) (pq_enqueue ?b (pq_enqueue ?a PriorityQueueScheduler))"
    by simp
  from pool_step [OF this, of PQ_dequeue "Got ?b"]
  obtain s where s: "?R [(PQ_enqueue ?a, Wait), (PQ_enqueue ?b, Wait), (PQ_dequeue, Got ?b)] s"
    by (auto simp: pq_enqueue_def pq_dequeue_def PriorityQueueScheduler_def decision_compare_def)
  then show ?thesis
    using priority_queue_scheduler [OF first_deepest_picks_top s] by (auto simp: all_delivered_def all_added_def)
qed

text \<open>
  C15. The work-stealing scheduler, with any number of threads and any interleaving of their critical sections: no job
  is lost and none delivered twice (those enqueued are exactly those delivered and those in the queues), and no step
  of any thread that can be scheduled next fails an assertion.
\<close>

theorem work_stealing_conserves:
  assumes "pool_run ws_enabled ws_step (WorkstealingPQScheduler num_threads) tr s"
  shows "ws_contents s + all_delivered tr = all_added ws_added tr \<and> (\<forall>c. ws_enabled c s \<longrightarrow> ws_step c s \<noteq> None)"
  using ws_pool.pool_conserves [OF assms] ws_pool.pool_safe [OF assms] by blast

text \<open>Of two threads, the second steals the job of the first.\<close>

theorem work_stealing_conserves_witness:
  "\<exists>s. pool_run ws_enabled ws_step (WorkstealingPQScheduler 2)
      [(WS_enqueue 0 \<lparr>jb_node = 1, jb_depth = 0\<rparr>, Wait), (WS_enter 1, Wait), (WS_steal 1 0, Got \<lparr>jb_node = 1, jb_depth = 0\<rparr>)] s \<and>
    ws_contents s = {#} \<and> ws_step (WS_first 0) s \<noteq> None"
proof -
  let ?a = "\<lparr>jb_node = 1, jb_depth = 0\<rparr>"
  let ?R = "pool_run ws_enabled ws_step (WorkstealingPQScheduler 2)"
  let ?s = "\<lambda>q l. \<lparr>ws_outstanding = 1, ws_queues = [q, []], ws_halting = False, ws_lock = l\<rparr>"
  have two: "replicate 2 ([] :: work_queue) = [[], []]" by (simp add: numeral_2_eq_2)
  have "?R ([] @ [(WS_enqueue 0 ?a, Wait)]) (?s [(0, [?a])] None)"
    by (rule pool_step [OF pool_start]) (simp_all add: WorkstealingPQScheduler_def two ws_enqueue_def)
  from pool_step [OF this, of "WS_enter 1" Wait]
  have "?R (([] @ [(WS_enqueue 0 ?a, Wait)]) @ [(WS_enter 1, Wait)]) (?s [(0, [?a])] (Some 1))"
    by (simp add: ws_own_def tq_empty_def)
  from pool_step [OF this, of "WS_steal 1 0" "Got ?a"]
  have s: "?R [(WS_enqueue 0 ?a, Wait), (WS_enter 1, Wait), (WS_steal 1 0, Got ?a)] (?s [] None)"
    by (simp add: ws_others_def ws_steal_def tq_pop_def tq_empty_def)
  note w = work_stealing_conserves [OF s]
  have c: "ws_contents (?s [] None) = {#}" "ws_step (WS_first 0) (?s [] None) \<noteq> None"
    using w [THEN conjunct1] w [THEN conjunct2, THEN spec, of "WS_first 0"]
    by (simp_all add: all_delivered_def all_added_def)
  show ?thesis by (intro exI conjI) (rule s, rule c, rule c)
qed

text \<open>A round through the other threads finds a job when one of them has one.\<close>

lemma ws_steal_loop_result:
  assumes "ws_ok k s" "tid < k" "ws_queues s ! tid = []" "set others \<subseteq> {0..<k} - {tid}"
  shows "\<exists>r s1. ws_steal_loop tid others s = Some (r, s1) \<and> r \<noteq> Halted \<and>
    (r = Wait \<longleftrightarrow> (\<forall>i \<in> set others. ws_queues s ! i = []))"
  using assms(4)
proof (induction others)
  case (Cons i others)
  have i: "i < k" "i \<noteq> tid" using Cons.prems by auto
  show ?case
    by (rule ws_steal_result [OF assms(1-3) i]) (use Cons.IH Cons.prems in auto)
qed simp

lemma sum_list_map_empty:
  fixes f :: "'a \<Rightarrow> 'b multiset"
  shows "sum_list (map f xs) = {#} \<longleftrightarrow> (\<forall>x \<in> set xs. f x = {#})"
  by (induction xs) auto

lemma ws_contents_empty: "ws_ok k s \<Longrightarrow> ws_contents s = {#} \<longleftrightarrow> (\<forall>i < k. ws_queues s ! i = [])"
proof -
  assume ok: "ws_ok k s"
  have j: "tq_jobs m = {#} \<longleftrightarrow> m = []" if "tq_ok m" for m
    using that by (cases m) (auto simp: tq_ok_Cons)
  have "ws_contents s = {#} \<longleftrightarrow> (\<forall>m \<in> set (ws_queues s). tq_jobs m = {#})"
    unfolding ws_contents_def by (rule sum_list_map_empty)
  also have "\<dots> \<longleftrightarrow> (\<forall>m \<in> set (ws_queues s). m = [])" using ok j by (auto simp: ws_ok_def)
  also have "\<dots> \<longleftrightarrow> (\<forall>i < k. ws_queues s ! i = [])" using ok by (auto simp: ws_ok_def all_set_conv_all_nth)
  finally show ?thesis .
qed

text \<open>
  C23. A call of \<^verbatim>\<open>dequeue\<close> of the work-stealing scheduler that is not interfered with, in any state the threads can
  bring about and for any order in which the other threads are shuffled: it fails no assertion, returns null exactly
  when the scheduler is halting, and otherwise blocks exactly when there is no job in the queue of any thread.
\<close>

theorem dequeue_finds_work:
  assumes "pool_run ws_enabled ws_step (WorkstealingPQScheduler num_threads) tr s"
    and "ws_lock s = None" "tid < num_threads" "mset others = mset (ws_others num_threads tid)"
  shows "\<exists>r s1. ws_dequeue tid others s = Some (r, s1) \<and> (r = Halted \<longleftrightarrow> ws_halting s) \<and>
    (r = Wait \<longleftrightarrow> \<not> ws_halting s \<and> ws_contents s = {#})"
proof -
  have ok: "ws_ok num_threads s" by (rule ws_pool.pool_invar [OF assms(1)])
  have set: "set others = {0..<num_threads} - {tid}"
    using ws_others_set [OF assms(3)] assms(4) by (metis set_mset_mset)
  have len: "tid < length (ws_queues s)" using ok assms(3) by (simp add: ws_ok_def)
  consider (halting) "ws_halting s" | (own) "\<not> ws_halting s" "ws_queues s ! tid \<noteq> []"
    | (others) "\<not> ws_halting s" "ws_queues s ! tid = []" by blast
  then show ?thesis
  proof cases
    case halting
    then show ?thesis using len by (simp add: ws_dequeue_def ws_own_def)
  next
    case own
    then obtain n m where "tq_pop (ws_queues s ! tid) = Some (n, m)"
      using ws_ok_nth [OF ok assms(3)] by (metis tq_pop_total)
    then show ?thesis using own len assms(3) ws_contents_empty [OF ok]
      by (auto simp: ws_dequeue_def ws_own_def tq_empty_def)
  next
    case others
    then have "ws_dequeue tid others s = ws_steal_loop tid others s"
      using len by (simp add: ws_dequeue_def ws_own_def tq_empty_def)
    moreover have "(\<forall>i \<in> set others. ws_queues s ! i = []) \<longleftrightarrow> ws_contents s = {#}"
      using others(2) unfolding ws_contents_empty [OF ok] set by auto
    ultimately show ?thesis
      using ws_steal_loop_result [OF ok assms(3) others(2), of others] others(1) set by auto
  qed
qed

theorem dequeue_finds_work_witness:
  "\<exists>s r s1. pool_run ws_enabled ws_step (WorkstealingPQScheduler 3) [(WS_enqueue 0 \<lparr>jb_node = 1, jb_depth = 0\<rparr>, Wait)] s \<and>
    ws_dequeue 2 [1, 0] s = Some (r, s1) \<and> r \<noteq> Wait \<and> r \<noteq> Halted"
proof -
  let ?a = "\<lparr>jb_node = 1, jb_depth = 0\<rparr>"
  let ?s = "\<lparr>ws_outstanding = 1, ws_queues = [[(0, [?a])], [], []], ws_halting = False, ws_lock = None\<rparr>"
  have three: "replicate 3 ([] :: work_queue) = [[], [], []]" by (simp add: numeral_3_eq_3)
  have "pool_run ws_enabled ws_step (WorkstealingPQScheduler 3) ([] @ [(WS_enqueue 0 ?a, Wait)]) ?s"
    by (rule pool_step [OF pool_start]) (simp_all add: WorkstealingPQScheduler_def three ws_enqueue_def)
  then have s: "pool_run ws_enabled ws_step (WorkstealingPQScheduler 3) [(WS_enqueue 0 ?a, Wait)] ?s" by simp
  have o: "mset [1, 0] = mset (ws_others 3 2)" by code_simp
  have "ws_contents ?s \<noteq> {#}" by (simp add: ws_contents_def)
  then show ?thesis using dequeue_finds_work [OF s _ _ o] s by fastforce
qed


text \<open>The abstract queue of a thread: the jobs of each depth, oldest first.\<close>

definition jobs_at :: "work_queue \<Rightarrow> int \<Rightarrow> job list" where
  "jobs_at m d = (case map_of m d of None \<Rightarrow> [] | Some q \<Rightarrow> q)"

lemma jobs_at_simps [simp]:
  "jobs_at [] e = []" "jobs_at ((d, q) # m) e = (if e = d then q else jobs_at m e)"
  by (simp_all add: jobs_at_def)

lemma jobs_at_absent: "e \<notin> fst ` set m \<Longrightarrow> jobs_at m e = []"
  by (induction m) auto

lemma jobs_at_append: "jobs_at (m @ m1) e = (if e \<in> fst ` set m then jobs_at m e else jobs_at m1 e)"
proof (induction m)
  case (Cons p m)
  then show ?case by (cases p; cases "e = fst p") simp_all
qed simp

lemma jobs_at_push: "tq_ok m \<Longrightarrow> jobs_at (tq_push n m) e = (if e = jb_depth n then jobs_at m e @ [n] else jobs_at m e)"
proof (induction n m rule: tq_push.induct)
  case (2 n d q m)
  have "jb_depth n < d \<Longrightarrow> jobs_at m (jb_depth n) = []"
    using "2.prems" by (intro jobs_at_absent) (auto simp: tq_ok_Cons)
  then show ?case using 2 by (auto simp: tq_ok_Cons)
qed simp

lemma jobs_at_pop:
  assumes "tq_ok m" "m \<noteq> []"
  shows "\<exists>n m1 d. tq_pop m = Some (n, m1) \<and> (\<forall>e. jobs_at m e \<noteq> [] \<longrightarrow> e \<le> d) \<and>
    jobs_at m d = n # jobs_at m1 d \<and> (\<forall>e. e \<noteq> d \<longrightarrow> jobs_at m1 e = jobs_at m e)"
proof (rule tq_pop_total [OF assms])
  fix m0 d n q
  assume m: "m = m0 @ [(d, n # q)]" "tq_pop m = Some (n, m0 @ (if q = [] then [] else [(d, q)]))"
  have k: "\<forall>e \<in> fst ` set m0. e < d" using assms(1) m(1) by (simp add: tq_ok_snoc)
  then have "\<forall>e. jobs_at m e \<noteq> [] \<longrightarrow> e \<le> d" by (auto simp: m(1) jobs_at_append split: if_splits)
  moreover have d: "d \<notin> fst ` set m0" using k by blast
  moreover have "jobs_at (m0 @ (if q = [] then [] else [(d, q)])) d = q"
    using d jobs_at_absent [OF d] by (simp add: jobs_at_append)
  moreover have "\<forall>e. e \<noteq> d \<longrightarrow> jobs_at (m0 @ (if q = [] then [] else [(d, q)])) e = jobs_at m e"
    using jobs_at_absent [of _ m0] by (simp add: jobs_at_append m(1))
  moreover have "jobs_at m d = n # q" using d by (simp add: jobs_at_append m(1))
  ultimately show ?thesis using m(2) by auto
qed

lemma jobs_at_steal:
  assumes "tq_ok m" "m \<noteq> []"
  shows "\<exists>mine theirs d. tq_steal [] m = Some (True, mine, theirs) \<and> (\<forall>e. jobs_at m e \<noteq> [] \<longrightarrow> d \<le> e) \<and>
    jobs_at m d = jobs_at theirs d @ jobs_at mine d \<and> length (jobs_at mine d) = (length (jobs_at m d) + 1) div 2 \<and>
    (\<forall>e. e \<noteq> d \<longrightarrow> jobs_at mine e = [] \<and> jobs_at theirs e = jobs_at m e)"
proof -
  obtain d oq m1 where m: "m = (d, oq) # m1" using assms(2) by (metis neq_Nil_conv old.prod.exhaust)
  let ?h = "length oq div 2"
  let ?theirs = "if ?h = 0 then m1 else (d, take ?h oq) # m1"
  have ok: "tq_ok ((d, oq) # m1)" using assms(1) m by simp
  have k: "\<forall>e \<in> fst ` set m1. d < e" using ok by (simp add: tq_ok_Cons)
  then have dm: "jobs_at m1 d = []" by (intro jobs_at_absent) blast
  have "d \<le> e" if "jobs_at m e \<noteq> []" for e
  proof (cases "e \<in> fst ` set m1")
    case True
    then show ?thesis using k by fastforce
  qed (use that jobs_at_absent [of e m1] in \<open>auto simp: m split: if_splits\<close>)
  moreover have "jobs_at ?theirs d = take ?h oq" using dm by simp
  moreover have "length (drop ?h oq) = (length oq + 1) div 2" by simp
  moreover have "tq_steal [] m = Some (True, [(d, drop ?h oq)], ?theirs)" unfolding m by (rule tq_steal_some [OF ok])
  moreover have "jobs_at ?theirs e = jobs_at m e" if "e \<noteq> d" for e using that by (simp add: m)
  moreover have "jobs_at m d = oq" "jobs_at [(d, drop ?h oq)] d = drop ?h oq" "take ?h oq @ drop ?h oq = oq" by (simp_all add: m)
  moreover have "\<forall>e. e \<noteq> d \<longrightarrow> jobs_at [(d, drop ?h oq)] e = []" by simp
  ultimately show ?thesis by metis
qed

text \<open>
  C24. The queue of a thread refines a map from depths to queues: \<^verbatim>\<open>push\<close> appends to the queue of the job's depth;
  \<^verbatim>\<open>pop\<close> takes the oldest job of the deepest depth (the exploration is depth first); \<^verbatim>\<open>steal\<close> moves the newer half, rounded
  up, of the shallowest depth to the thief in the same order and leaves the rest.
\<close>

theorem work_queue_order:
  assumes "tq_ok m"
  shows "jobs_at (tq_push n m) = (jobs_at m)(jb_depth n := jobs_at m (jb_depth n) @ [n]) \<and>
    (m \<noteq> [] \<longrightarrow> (\<exists>n m1 d. tq_pop m = Some (n, m1) \<and> (\<forall>e. jobs_at m e \<noteq> [] \<longrightarrow> e \<le> d) \<and>
      jobs_at m d = n # jobs_at m1 d \<and> (\<forall>e. e \<noteq> d \<longrightarrow> jobs_at m1 e = jobs_at m e))) \<and>
    (m \<noteq> [] \<longrightarrow> (\<exists>mine theirs d. tq_steal [] m = Some (True, mine, theirs) \<and> (\<forall>e. jobs_at m e \<noteq> [] \<longrightarrow> d \<le> e) \<and>
      jobs_at m d = jobs_at theirs d @ jobs_at mine d \<and> length (jobs_at mine d) = (length (jobs_at m d) + 1) div 2 \<and>
      (\<forall>e. e \<noteq> d \<longrightarrow> jobs_at mine e = [] \<and> jobs_at theirs e = jobs_at m e)))"
  using jobs_at_push [OF assms] jobs_at_pop [OF assms] jobs_at_steal [OF assms] by (auto simp: fun_eq_iff)

theorem work_queue_order_witness:
  "\<exists>m mine theirs d. m = [(0, [\<lparr>jb_node = 1, jb_depth = 0\<rparr>, \<lparr>jb_node = 2, jb_depth = 0\<rparr>]), (3, [\<lparr>jb_node = 7, jb_depth = 3\<rparr>])] \<and>
    tq_steal [] m = Some (True, mine, theirs) \<and> jobs_at m d = jobs_at theirs d @ jobs_at mine d"
proof -
  define m :: work_queue where "m = [(0, [\<lparr>jb_node = 1, jb_depth = 0\<rparr>, \<lparr>jb_node = 2, jb_depth = 0\<rparr>]), (3, [\<lparr>jb_node = 7, jb_depth = 3\<rparr>])]"
  have ok: "tq_ok m" and ne: "m \<noteq> []" by (auto simp: tq_ok_def m_def)
  obtain mine theirs d where "tq_steal [] m = Some (True, mine, theirs)" "jobs_at m d = jobs_at theirs d @ jobs_at mine d"
    using work_queue_order [OF ok, THEN conjunct2, THEN conjunct2, rule_format, OF ne] by metis
  then show ?thesis unfolding m_def [symmetric] by (intro exI conjI) (rule refl)
qed

end
