(* ===== verification/SatGraph.thy ===== *)
theory SatGraph
  imports VClocks
begin

text \<open>
  The reads-from graph of \<^verbatim>\<open>src/src/SaturatedGraph.h\<close> and \<^verbatim>\<open>src/src/SaturatedGraph.cpp\<close>: events of
  a partial execution with program order, reads-from and derived edges, and the worklist algorithm
  \<^verbatim>\<open>saturate\<close>, which adds the coherence and from-read edges that follow and keeps a vector clock
  per event. This theory holds the model; \<^verbatim>\<open>SatGraph_Inv\<close> holds its invariant, \<^verbatim>\<open>SatGraph_Correct\<close>
  termination, acyclicity and soundness.

  The persistent containers \<^verbatim>\<open>gen::vector\<close> and \<^verbatim>\<open>gen::map\<close> are lists and functions; a
  \<^verbatim>\<open>gen::map\<close> is iterated in the order of its hash trie, which is the parameter \<open>trav\<close> of
  \<open>add_event\<close>. External event identifiers (\<^verbatim>\<open>ExtID\<close>) and addresses (\<^verbatim>\<open>SymAddr\<close>) are type
  parameters. The timing guards and the trace output have no effect on the graph and are left out.
\<close>

section \<open>State\<close>

datatype event_kind = NONE | STORE | LOAD | RMW

text \<open>\<^verbatim>\<open>Event\<close>: the internal identifier \<^verbatim>\<open>IID<Pid>\<close> is the pair of \<open>ev_pid\<close> and \<open>ev_index\<close>.\<close>

record ('x, 'a) event =
  ev_pid :: nat
  ev_index :: nat
  ext_id :: 'x
  is_load :: bool
  is_store :: bool
  addr :: 'a
  read_from :: "nat option"
  readers :: "nat list"
  po_predecessor :: "nat option"

record ('x, 'a) sgraph =
  extid_to_id :: "'x \<Rightarrow> nat option"
  events :: "('x, 'a) event list"
  ins :: "nat list list"
  outs :: "nat list list"
  writes_by_address :: "'a \<Rightarrow> (nat \<times> nat) list"
  reads_from_init :: "'a \<Rightarrow> nat list"
  events_by_pid :: "nat list list"
  vclocks :: "vclock list"
  writes_by_process_and_address :: "('a \<Rightarrow> nat list) list"
  saturated_until :: nat
  wq_queue :: "nat list"
  wq_set :: "bool list"

definition sg_empty :: "('x, 'a) sgraph" where
  "sg_empty = \<lparr>extid_to_id = (\<lambda>_. None), events = [], ins = [], outs = [],
     writes_by_address = (\<lambda>_. []), reads_from_init = (\<lambda>_. []), events_by_pid = [], vclocks = [],
     writes_by_process_and_address = [], saturated_until = 0, wq_queue = [], wq_set = []\<rparr>"

section \<open>The work queue\<close>

definition wq_add :: "nat \<Rightarrow> ('x, 'a) sgraph \<Rightarrow> ('x, 'a) sgraph" where
  "wq_add eid g =
     (if length (wq_set g) > eid \<and> wq_set g ! eid then g
      else let s = (if length (wq_set g) \<le> eid then resize (eid + 1) False (wq_set g) else wq_set g)
           in g\<lparr>wq_set := s[eid := True], wq_queue := wq_queue g @ [eid]\<rparr>)"

definition wq_add_first :: "nat \<Rightarrow> ('x, 'a) sgraph \<Rightarrow> ('x, 'a) sgraph" where
  "wq_add_first eid g =
     (if length (wq_set g) > eid \<and> wq_set g ! eid then g
      else let s = (if length (wq_set g) \<le> eid then resize (eid + 1) False (wq_set g) else wq_set g)
           in g\<lparr>wq_set := s[eid := True], wq_queue := eid # wq_queue g\<rparr>)"

definition wq_empty :: "('x, 'a) sgraph \<Rightarrow> bool" where
  "wq_empty g = (wq_queue g = [])"

definition wq_pop :: "('x, 'a) sgraph \<Rightarrow> nat \<times> ('x, 'a) sgraph" where
  "wq_pop g =
     (let ret = hd (wq_queue g)
      in (ret, g\<lparr>wq_queue := tl (wq_queue g), wq_set := (wq_set g)[ret := False]\<rparr>))"

fun wq_add_all :: "nat list \<Rightarrow> ('x, 'a) sgraph \<Rightarrow> ('x, 'a) sgraph" where
  "wq_add_all [] g = g"
| "wq_add_all (i # is) g = wq_add_all is (wq_add i g)"

section \<open>Edges and events\<close>

text \<open>\<^verbatim>\<open>vec.mut(i).push_back(x)\<close>\<close>

definition push_at :: "nat \<Rightarrow> 'b \<Rightarrow> 'b list list \<Rightarrow> 'b list list" where
  "push_at i x vec = vec[i := vec ! i @ [x]]"

definition add_edge_internal :: "nat \<Rightarrow> nat \<Rightarrow> ('x, 'a) sgraph \<Rightarrow> ('x, 'a) sgraph" where
  "add_edge_internal from to g =
     wq_add to (g\<lparr>outs := push_at from to (outs g), ins := push_at to from (ins g)\<rparr>)"

text \<open>\<^verbatim>\<open>extid_to_id.at\<close> throws on an unknown identifier: the result is then \<open>None\<close>.\<close>

definition add_edge :: "'x \<Rightarrow> 'x \<Rightarrow> ('x, 'a) sgraph \<Rightarrow> ('x, 'a) sgraph option" where
  "add_edge from to g =
     (case extid_to_id g from of None \<Rightarrow> None | Some f \<Rightarrow>
      case extid_to_id g to of None \<Rightarrow> None | Some t \<Rightarrow> Some (add_edge_internal f t g))"

fun add_edges :: "(nat \<times> nat) list \<Rightarrow> ('x, 'a) sgraph \<Rightarrow> ('x, 'a) sgraph" where
  "add_edges [] g = g"
| "add_edges ((from, to) # es) g = add_edges es (add_edge_internal from to g)"

definition enlarge :: "'b \<Rightarrow> 'b list \<Rightarrow> nat \<Rightarrow> 'b list" where
  "enlarge d vec n = (if length vec \<ge> n then vec else resize n d vec)"

fun lookup_all :: "('x \<Rightarrow> nat option) \<Rightarrow> 'x list \<Rightarrow> nat list option" where
  "lookup_all m [] = Some []"
| "lookup_all m (x # xs) =
     (case m x of None \<Rightarrow> None | Some i \<Rightarrow> map_option ((#) i) (lookup_all m xs))"

text \<open>The from-read edges of a new load of the initial value, to the first write of each process.\<close>

fun add_init_reads :: "nat \<Rightarrow> (nat \<times> nat) list \<Rightarrow> ('x, 'a) sgraph \<Rightarrow> ('x, 'a) sgraph" where
  "add_init_reads eid [] g = g"
| "add_init_reads eid ((p, w) # ws) g =
     add_init_reads eid ws
       (wq_add w (g\<lparr>outs := push_at eid w (outs g), ins := push_at w eid (ins g)\<rparr>))"

text \<open>The from-read edges to a first write, from the loads of the initial value.\<close>

fun add_init_readers :: "nat \<Rightarrow> nat list \<Rightarrow> ('x, 'a) sgraph \<Rightarrow> ('x, 'a) sgraph" where
  "add_init_readers eid [] g = g"
| "add_init_readers eid (r # rs) g =
     add_init_readers eid rs (g\<lparr>ins := push_at eid r (ins g), outs := push_at r eid (outs g)\<rparr>)"

fun add_outs :: "nat \<Rightarrow> nat list \<Rightarrow> ('x, 'a) sgraph \<Rightarrow> ('x, 'a) sgraph" where
  "add_outs eid [] g = g"
| "add_outs eid (i # is) g = add_outs eid is (g\<lparr>outs := push_at i eid (outs g)\<rparr>)"

text \<open>
  The parts of \<^verbatim>\<open>add_event\<close>, in its order: the place in program order, the reading half, the
  writing half.
\<close>

definition event_program_order ::
  "nat \<Rightarrow> nat \<Rightarrow> ('x, 'a) sgraph \<Rightarrow> nat option \<times> nat \<times> ('x, 'a) sgraph" where
  "event_program_order pid eid g =
     (let g1 = g\<lparr>events_by_pid := enlarge [] (events_by_pid g) (pid + 1),
                 writes_by_process_and_address :=
                   enlarge (\<lambda>_. []) (writes_by_process_and_address g) (pid + 1)\<rparr>;
          events_by_p = events_by_pid g1 ! pid;
          po = (if length events_by_p \<noteq> 0 then Some (last events_by_p) else None);
          index = (case po of None \<Rightarrow> 1 | Some q \<Rightarrow> ev_index (events g1 ! q) + 1);
          g2 = (case po of None \<Rightarrow> g1 | Some q \<Rightarrow> g1\<lparr>outs := push_at q eid (outs g1)\<rparr>)
      in (po, index, g2\<lparr>events_by_pid := push_at pid eid (events_by_pid g2)\<rparr>))"

definition event_reads ::
  "((nat \<times> nat) list \<Rightarrow> (nat \<times> nat) list) \<Rightarrow> nat \<Rightarrow> bool \<Rightarrow> 'a \<Rightarrow> nat option \<Rightarrow>
   ('x, 'a) sgraph \<Rightarrow> ('x, 'a) sgraph" where
  "event_reads trav eid load a rf g =
     (case rf of
        Some w \<Rightarrow> g\<lparr>events := (events g)[w := (events g ! w)\<lparr>readers := readers (events g ! w) @ [eid]\<rparr>]\<rparr>
      | None \<Rightarrow> if load then add_init_reads eid (trav (writes_by_address g a)) g else g)"

definition event_writes :: "nat \<Rightarrow> nat \<Rightarrow> bool \<Rightarrow> 'a \<Rightarrow> ('x, 'a) sgraph \<Rightarrow> ('x, 'a) sgraph" where
  "event_writes pid eid store a g =
     (if store then
        let g1 = (if pid \<notin> fst ` set (writes_by_address g a) then
                    let g0 = add_init_readers eid (reads_from_init g a) g
                    in g0\<lparr>writes_by_address :=
                         (writes_by_address g0)(a := writes_by_address g0 a @ [(pid, eid)])\<rparr>
                  else g);
            wpa = writes_by_process_and_address g1 ! pid
        in g1\<lparr>writes_by_process_and_address :=
             (writes_by_process_and_address g1)[pid := wpa(a := wpa a @ [eid])]\<rparr>
      else g)"

text \<open>\<open>None\<close> is an unknown identifier, or a failed assertion on the sizes of the vectors.\<close>

definition add_event ::
  "((nat \<times> nat) list \<Rightarrow> (nat \<times> nat) list) \<Rightarrow> nat \<Rightarrow> 'x \<Rightarrow> event_kind \<Rightarrow> 'a \<Rightarrow> 'x option \<Rightarrow>
   'x list \<Rightarrow> ('x, 'a) sgraph \<Rightarrow> ('x, 'a) sgraph option" where
  "add_event trav pid extid kind a ext_read_from orig_in g =
     (let eid = length (events g);
          load = (kind = LOAD \<or> kind = RMW);
          store = (kind = STORE \<or> kind = RMW);
          g1 = g\<lparr>extid_to_id := (extid_to_id g)(extid := Some eid)\<rparr>;
          (po, index, g2) = event_program_order pid eid g1
      in if \<not> (length (ins g) = eid \<and> length (outs g) = eid \<and> length (vclocks g) = eid) then None
      else case (case ext_read_from of None \<Rightarrow> Some None | Some x \<Rightarrow> map_option Some (extid_to_id g2 x)) of
           None \<Rightarrow> None
         | Some rf \<Rightarrow>
      case lookup_all (extid_to_id g2) orig_in of
           None \<Rightarrow> None
         | Some before \<Rightarrow>
      let g3 = g2\<lparr>outs := outs g2 @ [[]], ins := ins g2 @ [before]\<rparr>;
          g4 = event_reads trav eid load a rf g3;
          g5 = event_writes pid eid store a g4;
          g6 = add_outs eid (ins g5 ! eid) g5;
          e = \<lparr>ev_pid = pid, ev_index = index, ext_id = extid, is_load = load, is_store = store,
               addr = a, read_from = rf, readers = [], po_predecessor = po\<rparr>;
          g7 = g6\<lparr>events := events g6 @ [e]\<rparr>;
          g8 = (if rf = None \<and> load
                then g7\<lparr>reads_from_init := (reads_from_init g7)(a := reads_from_init g7 a @ [eid])\<rparr>
                else g7);
          g9 = g8\<lparr>vclocks := vclocks g8 @ [[]]\<rparr>
      in Some (wq_add eid g9))"

section \<open>Clocks and cycle detection\<close>

definition get_process_event_asserts :: "('x, 'a) sgraph \<Rightarrow> nat \<Rightarrow> nat \<Rightarrow> bool" where
  "get_process_event_asserts g pid index \<longleftrightarrow>
     pid < length (events_by_pid g) \<and> 0 < index \<and> index \<le> length (events_by_pid g ! pid)"

definition get_process_event :: "('x, 'a) sgraph \<Rightarrow> nat \<Rightarrow> nat \<Rightarrow> nat" where
  "get_process_event g pid index = events_by_pid g ! pid ! (index - 1)"

text \<open>
  The code asserts that the process is known and \<^verbatim>\<open>0 < index\<close>. The outer \<open>None\<close> is an assertion
  failing (without assertions the read is out of bounds), the inner one an index past the last event.
\<close>

definition maybe_get_process_event :: "('x, 'a) sgraph \<Rightarrow> nat \<Rightarrow> nat \<Rightarrow> nat option option" where
  "maybe_get_process_event g pid index =
     (if \<not> pid < length (events_by_pid g) \<or> index = 0 then None
      else if index > length (events_by_pid g ! pid) then Some None
      else Some (Some (events_by_pid g ! pid ! (index - 1))))"

definition initial_vc_for_event :: "('x, 'a) event \<Rightarrow> vclock" where
  "initial_vc_for_event e = vc_set [] (ev_pid e) (ev_index e)"

text \<open>The events a clock is computed from, in the order the code adds them.\<close>

definition clock_sources :: "('x, 'a) event \<Rightarrow> nat list \<Rightarrow> nat list" where
  "clock_sources e in_edges =
     (case po_predecessor e of None \<Rightarrow> [] | Some q \<Rightarrow> [q]) @
     (case read_from e of None \<Rightarrow> [] | Some w \<Rightarrow> [w]) @ in_edges"

definition recompute_vc_for_event :: "('x, 'a) sgraph \<Rightarrow> ('x, 'a) event \<Rightarrow> nat list \<Rightarrow> vclock" where
  "recompute_vc_for_event g e in_edges =
     fold (\<lambda>i vc. vc_plus_assign vc (vclocks g ! i)) (clock_sources e in_edges) (initial_vc_for_event e)"

definition is_in_cycle :: "('x, 'a) sgraph \<Rightarrow> ('x, 'a) event \<Rightarrow> nat list \<Rightarrow> vclock \<Rightarrow> bool" where
  "is_in_cycle g e in_edges vc =
     (let vc_different = (\<lambda>other. \<not> vc_eq (vclocks g ! other) vc)
      in if (case po_predecessor e of None \<Rightarrow> False | Some q \<Rightarrow> \<not> vc_different q) then True
         else if (case read_from e of None \<Rightarrow> False | Some w \<Rightarrow> \<not> vc_different w) then True
         else if \<not> list_all vc_different in_edges then True
         else False)"

definition add_successors_to_wq :: "nat \<Rightarrow> ('x, 'a) event \<Rightarrow> ('x, 'a) sgraph \<Rightarrow> ('x, 'a) sgraph" where
  "add_successors_to_wq eid e g =
     (let g1 = (if is_store e then wq_add_all (readers e) g else g)
      in wq_add_all (outs g1 ! eid) g1)"

section \<open>The consistency check\<close>

text \<open>\<^verbatim>\<open>check_graph_consistency\<close>: the assertions of the debug build that \<^verbatim>\<open>saturate\<close> makes when it starts and returns.\<close>

definition check_event_consistency :: "('x, 'a) sgraph \<Rightarrow> nat \<Rightarrow> bool" where
  "check_event_consistency g eid =
     (let e = events g ! eid in
      list_all (\<lambda>i. eid \<in> set (outs g ! i)) (ins g ! eid) \<and>
      (case read_from e of None \<Rightarrow> True | Some w \<Rightarrow>
         is_store (events g ! w) \<and> addr (events g ! w) = addr e \<and> eid \<in> set (readers (events g ! w))) \<and>
      (case po_predecessor e of None \<Rightarrow> True | Some q \<Rightarrow> eid \<in> set (outs g ! q)) \<and>
      list_all (\<lambda>s. eid \<in> set (ins g ! s) \<or> po_predecessor (events g ! s) = Some eid) (outs g ! eid) \<and>
      (is_store e \<longrightarrow>
         list_all (\<lambda>r. is_load (events g ! r) \<and> read_from (events g ! r) = Some eid) (readers e)))"

definition check_graph_consistency :: "('x, 'a) sgraph \<Rightarrow> bool" where
  "check_graph_consistency g = list_all (check_event_consistency g) [0..<length (events g)]"

section \<open>Saturation\<close>

text \<open>\<^verbatim>\<open>std::upper_bound\<close> and \<^verbatim>\<open>std::lower_bound\<close> on a sorted range, as positions.\<close>

definition upper_bound :: "nat list \<Rightarrow> nat \<Rightarrow> nat" where
  "upper_bound xs x = length (takeWhile (\<lambda>y. y \<le> x) xs)"

definition lower_bound :: "nat list \<Rightarrow> nat \<Rightarrow> nat" where
  "lower_bound xs x = length (takeWhile (\<lambda>y. y < x) xs)"

text \<open>
  The last write to \<open>a\<close> by process \<open>pid\<close> other than \<open>eid\<close> among the first \<open>bound\<close> events of the
  process; \<open>None\<close> where the loop body of \<^verbatim>\<open>saturate\<close> continues with the next process.
\<close>

definition last_visible_write :: "('x, 'a) sgraph \<Rightarrow> nat \<Rightarrow> 'a \<Rightarrow> nat \<Rightarrow> nat \<Rightarrow> nat option" where
  "last_visible_write g eid a pid bound =
     (let writes = (writes_by_process_and_address g ! pid) a;
          last_visible = get_process_event g pid bound;
          ub = upper_bound writes last_visible
      in if ub = 0 then None
         else if writes ! (ub - 1) = eid then
           (if ub - 1 = 0 then None else Some (writes ! (ub - 1 - 1)))
         else Some (writes ! (ub - 1)))"

text \<open>The from-read edges into the store \<open>eid\<close> from the readers of an earlier write.\<close>

fun add_from_reads :: "nat \<Rightarrow> nat list \<Rightarrow> ('x, 'a) sgraph \<times> bool \<Rightarrow> ('x, 'a) sgraph \<times> bool" where
  "add_from_reads eid [] s = s"
| "add_from_reads eid (r # rs) (g, new_in) =
     (if r = eid then add_from_reads eid rs (g, new_in)
      else add_from_reads eid rs (g\<lparr>ins := push_at eid r (ins g), outs := push_at r eid (outs g)\<rparr>, True))"

text \<open>
  One round of the loop over processes. \<open>Inl\<close> is the early \<^verbatim>\<open>return false\<close>; the state is the
  graph, \<^verbatim>\<open>new_edges\<close> and \<^verbatim>\<open>new_in\<close>.
\<close>

type_synonym ('x, 'a) sat_state = "('x, 'a) sgraph \<times> (nat \<times> nat) list \<times> bool"

definition saturate_pid ::
  "nat \<Rightarrow> ('x, 'a) event \<Rightarrow> vclock \<Rightarrow> vclock \<Rightarrow> nat \<Rightarrow> ('x, 'a) sat_state \<Rightarrow>
   ('x, 'a) sgraph + ('x, 'a) sat_state" where
  "saturate_pid eid e old_vc vc pid s =
     (case s of (g, new_edges, new_in) \<Rightarrow>
      if vc_get old_vc pid = vc_get vc pid then Inr s
      else case last_visible_write g eid (addr e) pid (vc_get vc pid) of
        None \<Rightarrow> Inr s
      | Some pe_id \<Rightarrow>
          let pe = events g ! pe_id in
          if ev_index pe \<le> vc_get old_vc pid then Inr s
          else let (g1, new_in1) =
                 (if is_store e then add_from_reads eid (readers pe) (g, new_in) else (g, new_in))
               in if is_load e then
                    (case read_from e of
                       None \<Rightarrow> Inl g1
                     | Some my_read_from \<Rightarrow>
                         if pe_id \<noteq> my_read_from then Inr (g1, new_edges @ [(pe_id, my_read_from)], new_in1)
                         else Inr (g1, new_edges, new_in1))
                  else Inr (g1, new_edges, new_in1))"

text \<open>
  The assertions of the round: the clock grew, the subscripts of \<^verbatim>\<open>get_process_event\<close>, the write found
  is another event and visible, its readers are loads of the same address.
\<close>

definition saturate_pid_asserts ::
  "nat \<Rightarrow> ('x, 'a) event \<Rightarrow> vclock \<Rightarrow> vclock \<Rightarrow> nat \<Rightarrow> ('x, 'a) sgraph \<Rightarrow> bool" where
  "saturate_pid_asserts eid e old_vc vc pid g =
     (if vc_get old_vc pid = vc_get vc pid then True
      else vc_get old_vc pid < vc_get vc pid \<and> get_process_event_asserts g pid (vc_get vc pid) \<and>
        (case last_visible_write g eid (addr e) pid (vc_get vc pid) of
           None \<Rightarrow> True
         | Some pe_id \<Rightarrow>
             let pe = events g ! pe_id in
             pe_id \<noteq> eid \<and>
             (if ev_index pe \<le> vc_get old_vc pid then True
              else ev_index pe \<le> vc_get vc pid \<and>
                (is_store e \<longrightarrow> list_all (\<lambda>r. r = eid \<or> is_load (events g ! r) \<and> addr (events g ! r) = addr e) (readers pe)))))"

fun saturate_pids ::
  "nat \<Rightarrow> ('x, 'a) event \<Rightarrow> vclock \<Rightarrow> vclock \<Rightarrow> nat list \<Rightarrow> ('x, 'a) sat_state \<Rightarrow>
   ('x, 'a) sgraph + ('x, 'a) sat_state" where
  "saturate_pids eid e old_vc vc [] s = Inr s"
| "saturate_pids eid e old_vc vc (pid # pids) s =
     (case saturate_pid eid e old_vc vc pid s of
        Inl g \<Rightarrow> Inl g
      | Inr s1 \<Rightarrow> saturate_pids eid e old_vc vc pids s1)"

text \<open>The assertions of all rounds, along the run of the loop.\<close>

fun saturate_pids_asserts ::
  "nat \<Rightarrow> ('x, 'a) event \<Rightarrow> vclock \<Rightarrow> vclock \<Rightarrow> nat list \<Rightarrow> ('x, 'a) sat_state \<Rightarrow> bool" where
  "saturate_pids_asserts eid e old_vc vc [] s = True"
| "saturate_pids_asserts eid e old_vc vc (pid # pids) s \<longleftrightarrow>
     saturate_pid_asserts eid e old_vc vc pid (fst s) \<and>
     (case saturate_pid eid e old_vc vc pid s of
        Inl g \<Rightarrow> True
      | Inr s1 \<Rightarrow> saturate_pids_asserts eid e old_vc vc pids s1)"

text \<open>One iteration of the loop of \<^verbatim>\<open>saturate\<close>: \<open>Inl\<close> when a cycle was found.\<close>

definition saturate_one :: "('x, 'a) sgraph \<Rightarrow> ('x, 'a) sgraph + ('x, 'a) sgraph" where
  "saturate_one g0 =
     (let (eid, g) = wq_pop g0;
          e = events g ! eid;
          old_in = ins g ! eid;
          vc = recompute_vc_for_event g e old_in;
          old_vc = vclocks g ! eid
      in if is_in_cycle g e old_in vc then Inl g
         else if vc_eq vc old_vc then Inr g
         else case (if is_load e \<or> is_store e
                    then saturate_pids eid e old_vc vc [0..<vc_size_ub vc] (g, [], False)
                    else Inr (g, [], False)) of
             Inl g1 \<Rightarrow> Inl g1
           | Inr (g1, new_edges, new_in) \<Rightarrow>
               let g2 = add_successors_to_wq eid e g1;
                   g3 = g2\<lparr>vclocks := (vclocks g2)[eid := vc]\<rparr>;
                   g4 = (if new_in then wq_add_first eid g3 else g3)
               in Inr (add_edges new_edges g4))"

text \<open>
  Its assertions: the event exists, as do the clocks that are joined, those of the rounds, and the
  consistency check before \<^verbatim>\<open>return false\<close>.
\<close>

definition saturate_one_asserts :: "('x, 'a) sgraph \<Rightarrow> bool" where
  "saturate_one_asserts g0 \<longleftrightarrow>
     (let (eid, g) = wq_pop g0;
          e = events g ! eid;
          old_in = ins g ! eid;
          vc = recompute_vc_for_event g e old_in;
          old_vc = vclocks g ! eid
      in eid < length (events g) \<and> list_all (\<lambda>i. i < length (vclocks g)) (clock_sources e old_in) \<and>
         (if is_in_cycle g e old_in vc \<or> vc_eq vc old_vc \<or> \<not> (is_load e \<or> is_store e) then True
          else saturate_pids_asserts eid e old_vc vc [0..<vc_size_ub vc] (g, [], False))) \<and>
     (case saturate_one g0 of Inl g1 \<Rightarrow> check_graph_consistency g1 | Inr _ \<Rightarrow> True)"

text \<open>
  The outcome of \<^verbatim>\<open>saturate\<close>: a failed assertion, or its boolean result and the graph. The loop may run
  forever as far as its definition goes, which is \<open>None\<close>.
\<close>

datatype 'g sat_result = Aborted | Done bool 'g

partial_function (option) saturate_loop :: "('x, 'a) sgraph \<Rightarrow> ('x, 'a) sgraph sat_result option" where
  "saturate_loop g =
     (if wq_empty g then
        let h = g\<lparr>wq_set := []\<rparr> in Some (if check_graph_consistency h then Done True h else Aborted)
      else if \<not> saturate_one_asserts g then Some Aborted
      else case saturate_one g of
          Inl g1 \<Rightarrow> Some (Done False g1)
        | Inr g1 \<Rightarrow> saturate_loop g1)"

section \<open>Reverse saturation\<close>

definition po_successor :: "('x, 'a) sgraph \<Rightarrow> nat \<Rightarrow> ('x, 'a) event \<Rightarrow> nat option" where
  "po_successor g eid e =
     (let evs = events_by_pid g ! ev_pid e
      in if last evs = eid then None else Some (evs ! upper_bound evs eid))"

text \<open>\<^verbatim>\<open>assert(suc != events.end())\<close>\<close>

definition po_successor_asserts :: "('x, 'a) sgraph \<Rightarrow> nat \<Rightarrow> bool" where
  "po_successor_asserts g eid \<longleftrightarrow>
     (let evs = events_by_pid g ! ev_pid (events g ! eid)
      in last evs = eid \<or> upper_bound evs eid < length evs)"

text \<open>The events \<^verbatim>\<open>foreach_succ\<close> applies its function to, in its order.\<close>

definition successors :: "('x, 'a) sgraph \<Rightarrow> nat \<Rightarrow> nat list" where
  "successors g eid =
     (let e = events g ! eid
      in (case po_successor g eid e of None \<Rightarrow> [] | Some s \<Rightarrow> [s]) @ readers e @ outs g ! eid)"

text \<open>
  \<^verbatim>\<open>add_to_care\<close>, a depth-first search in post order, on a list of events still to visit. The state
  is \<^verbatim>\<open>care.set\<close> and \<^verbatim>\<open>care.vec\<close>; an event past the end of \<^verbatim>\<open>care.set\<close> is skipped.
\<close>

function add_to_cares ::
  "('x, 'a) sgraph \<Rightarrow> nat list \<Rightarrow> bool list \<times> nat list \<Rightarrow> bool list \<times> nat list" where
  "add_to_cares g [] c = c"
| "add_to_cares g (i # is) (m, vec) =
     (if i \<ge> length m \<or> m ! i then add_to_cares g is (m, vec)
      else let (m1, vec1) = add_to_cares g (successors g i) (m[i := True], vec)
           in add_to_cares g is (m1, vec1 @ [i]))"
  by pat_completeness auto

definition unmarked :: "bool list \<Rightarrow> nat" where
  "unmarked m = length (filter Not m)"

lemma unmarked_update_less: "i < length m \<Longrightarrow> \<not> m ! i \<Longrightarrow> unmarked (m[i := True]) < unmarked m"
proof -
  assume i: "i < length m" "\<not> m ! i"
  then have "m = take i m @ False # drop (Suc i) m" by (metis id_take_nth_drop)
  then have "unmarked m = unmarked (take i m @ False # drop (Suc i) m)"
    "unmarked (m[i := True]) = unmarked (take i m @ True # drop (Suc i) m)"
    using i(1) by (auto simp: upd_conv_take_nth_drop)
  then show ?thesis by (simp add: unmarked_def)
qed

lemma add_to_cares_unmarked:
  "add_to_cares_dom (g, is, c) \<Longrightarrow> unmarked (fst (add_to_cares g is c)) \<le> unmarked (fst c)"
proof (induction g "is" c rule: add_to_cares.pinduct)
  case (1 g c)
  then show ?case by (simp add: add_to_cares.psimps)
next
  case (2 g i "is" m vec)
  show ?case
  proof (cases "i \<ge> length m \<or> m ! i")
    case True
    then show ?thesis using 2 by (simp add: add_to_cares.psimps)
  next
    case False
    obtain m1 vec1 where r: "add_to_cares g (successors g i) (m[i := True], vec) = (m1, vec1)"
      by fastforce
    have "unmarked m1 \<le> unmarked (m[i := True])" using "2.IH"(2) [OF False] r by simp
    moreover have "unmarked (fst (add_to_cares g is (m1, vec1 @ [i]))) \<le> unmarked m1"
      using "2.IH"(3) [OF False r [symmetric] refl] by simp
    ultimately have "unmarked (fst (add_to_cares g is (m1, vec1 @ [i]))) \<le> unmarked m"
      using unmarked_update_less [of i m] False by simp
    then show ?thesis using False r by (simp add: add_to_cares.psimps(2) [OF "2.hyps"])
  qed
qed

termination add_to_cares
proof (relation "measures [\<lambda>(g, is, c). unmarked (fst c), \<lambda>(g, is, c). length is]", goal_cases)
  case (4 g i "is" m vec x m1 vec1)
  then have "unmarked m1 \<le> unmarked (m[i := True])" by (metis add_to_cares_unmarked fst_conv)
  then show ?case using unmarked_update_less [of i m] 4 by simp
qed (auto simp: unmarked_update_less)

definition add_to_care :: "('x, 'a) sgraph \<Rightarrow> bool list \<times> nat list \<Rightarrow> nat \<Rightarrow> bool list \<times> nat list" where
  "add_to_care g care eid = add_to_cares g [eid] care"

fun reverse_care_loop :: "('x, 'a) sgraph \<Rightarrow> nat list \<Rightarrow> bool list \<times> nat list \<Rightarrow> bool list \<times> nat list" where
  "reverse_care_loop g [] care = care"
| "reverse_care_loop g (eid # ids) care =
     (let e = events g ! eid
      in reverse_care_loop g ids
           (case read_from e of
              None \<Rightarrow> care
            | Some w \<Rightarrow> if is_load e \<and> w < saturated_until g then add_to_care g care w else care))"

definition reverse_care_set :: "('x, 'a) sgraph \<Rightarrow> bool list \<times> nat list" where
  "reverse_care_set g =
     reverse_care_loop g [saturated_until g..<length (events g)] (replicate (length (events g)) False, [])"

text \<open>\<^verbatim>\<open>top\<close>: one more than the number of events of each process. It asserts that this is the index of the last one.\<close>

definition top_asserts :: "('x, 'a) sgraph \<Rightarrow> bool" where
  "top_asserts g \<longleftrightarrow>
     list_all (\<lambda>evs. evs = [] \<or> ev_index (events g ! last evs) = length evs) (events_by_pid g)"

definition top_clock :: "('x, 'a) sgraph \<Rightarrow> vclock" where
  "top_clock g =
     fold (\<lambda>pid vc. vc_set vc pid (length (events_by_pid g ! pid) + 1)) [0..<length (events_by_pid g)] []"

text \<open>The clock of the events that can only come after \<open>eid\<close>, from those of its successors.\<close>

definition below_clock :: "('x, 'a) sgraph \<Rightarrow> vclock \<Rightarrow> nat \<Rightarrow> vclock_vec \<Rightarrow> vclock_vec" where
  "below_clock g top_vc eid bc =
     (let e = events g ! eid;
          bc1 = cv_assign_clock bc eid top_vc;
          bc2 = cv_put bc1 eid (ev_pid e) (ev_index e)
      in fold (\<lambda>s b. cv_minus_assign b eid s) (successors g eid) bc2)"

fun add_missed_from_reads :: "nat list \<Rightarrow> nat \<Rightarrow> ('x, 'a) sgraph \<Rightarrow> ('x, 'a) sgraph" where
  "add_missed_from_reads [] pe_id g = g"
| "add_missed_from_reads (r # rs) pe_id g =
     add_missed_from_reads rs pe_id (if r = pe_id then g else add_edge_internal r pe_id g)"

text \<open>The first write to \<open>a\<close> by \<open>pid\<close> other than \<open>eid\<close> from the event \<open>first_visible\<close> on.\<close>

definition first_visible_write :: "('x, 'a) sgraph \<Rightarrow> nat \<Rightarrow> 'a \<Rightarrow> nat \<Rightarrow> nat \<Rightarrow> nat option" where
  "first_visible_write g eid a pid first_visible =
     (let writes = (writes_by_process_and_address g ! pid) a;
          lb = lower_bound writes first_visible
      in if lb = length writes then None
         else if writes ! lb = eid then
           (if lb + 1 = length writes then None else Some (writes ! (lb + 1)))
         else Some (writes ! lb))"

text \<open>
  \<open>None\<close> is a failed assertion: those of \<open>maybe_get_process_event\<close>, or that the write found is another
  store to the same address, whose clock is above.
\<close>

fun reverse_pids ::
  "nat \<Rightarrow> 'a \<Rightarrow> vclock_vec \<Rightarrow> nat list \<Rightarrow> nat list \<Rightarrow> ('x, 'a) sgraph \<Rightarrow> ('x, 'a) sgraph option" where
  "reverse_pids eid a bc new_out [] g = Some g"
| "reverse_pids eid a bc new_out (pid # pids) g =
     (case maybe_get_process_event g pid (cv_get bc eid pid) of
        None \<Rightarrow> None
      | Some None \<Rightarrow> reverse_pids eid a bc new_out pids g
      | Some (Some first_visible) \<Rightarrow>
          (case first_visible_write g eid a pid first_visible of
             None \<Rightarrow> reverse_pids eid a bc new_out pids g
           | Some pe_id \<Rightarrow>
               let pe = events g ! pe_id in
               if pe_id \<noteq> eid \<and> is_store pe \<and> addr pe = a \<and> cv_lt bc eid pe_id
               then reverse_pids eid a bc new_out pids (add_missed_from_reads new_out pe_id g)
               else None))"

fun reverse_loop ::
  "vclock \<Rightarrow> nat list \<Rightarrow> vclock_vec \<Rightarrow> ('x, 'a) sgraph \<Rightarrow> ('x, 'a) sgraph option" where
  "reverse_loop top_vc [] bc g = Some g"
| "reverse_loop top_vc (eid # ids) bc g =
     (let e = events g ! eid;
          bc1 = below_clock g top_vc eid bc;
          new_out = filter (\<lambda>r. r \<ge> saturated_until g) (readers e)
      in if is_store e \<and> new_out \<noteq> [] then
           (case reverse_pids eid (addr e) bc1 new_out [0..<cv_clock_size bc1] g of
              None \<Rightarrow> None
            | Some g1 \<Rightarrow> reverse_loop top_vc ids bc1 g1)
         else reverse_loop top_vc ids bc1 g)"

text \<open>
  The events of the care set are those whose successors are looked up, so that the assertion of
  \<^verbatim>\<open>po_successor\<close> is made for each of them; the vectors it reads do not change afterwards.
\<close>

definition reverse_saturate :: "('x, 'a) sgraph \<Rightarrow> ('x, 'a) sgraph option" where
  "reverse_saturate g =
     map_option (\<lambda>g1. g1\<lparr>saturated_until := length (events g1)\<rparr>)
       (if saturated_until g \<noteq> 0 \<and> saturated_until g \<noteq> length (events g) then
          let care = reverse_care_set g
          in if \<not> list_all (po_successor_asserts g) (snd care) then None
             else if snd care = [] then Some g
             else if \<not> top_asserts g then None
             else reverse_loop (top_clock g) (snd care)
                    (cv_new (length (events_by_pid g)) (length (events g))) g
        else Some g)"

definition saturate :: "('x, 'a) sgraph \<Rightarrow> ('x, 'a) sgraph sat_result option" where
  "saturate g =
     (if \<not> check_graph_consistency g then Some Aborted
      else case reverse_saturate g of
        None \<Rightarrow> Some Aborted
      | Some g1 \<Rightarrow> saturate_loop g1)"

section \<open>Queries\<close>

definition is_saturated :: "('x, 'a) sgraph \<Rightarrow> bool" where
  "is_saturated g = wq_empty g"

text \<open>A clone shares the vectors of its original, which must be saturated.\<close>

definition clone :: "('x, 'a) sgraph \<Rightarrow> ('x, 'a) sgraph option" where
  "clone g = (if wq_empty g then Some g else None)"

definition has_event :: "('x, 'a) sgraph \<Rightarrow> 'x \<Rightarrow> bool" where
  "has_event g x = (extid_to_id g x \<noteq> None)"

definition event_ids :: "('x, 'a) sgraph \<Rightarrow> 'x list" where
  "event_ids g = map ext_id (events g)"

definition event_is_store :: "('x, 'a) sgraph \<Rightarrow> 'x \<Rightarrow> bool option" where
  "event_is_store g x = map_option (\<lambda>i. is_store (events g ! i)) (extid_to_id g x)"

text \<open>\<open>None\<close> is an unknown identifier or a failed assertion.\<close>

definition event_addr :: "('x, 'a) sgraph \<Rightarrow> 'x \<Rightarrow> 'a option" where
  "event_addr g x =
     (case extid_to_id g x of
        None \<Rightarrow> None
      | Some i \<Rightarrow> if is_load (events g ! i) \<or> is_store (events g ! i) then Some (addr (events g ! i)) else None)"

definition event_vc :: "('x, 'a) sgraph \<Rightarrow> 'x \<Rightarrow> vclock option" where
  "event_vc g x = (if is_saturated g then map_option (\<lambda>i. vclocks g ! i) (extid_to_id g x) else None)"

definition event_in :: "('x, 'a) sgraph \<Rightarrow> 'x \<Rightarrow> 'x list option" where
  "event_in g x =
     map_option (\<lambda>i. let e = events g ! i
        in map (\<lambda>j. ext_id (events g ! j)) (ins g ! i) @
           (case po_predecessor e of None \<Rightarrow> [] | Some q \<Rightarrow> [ext_id (events g ! q)]) @
           (case read_from e of None \<Rightarrow> [] | Some w \<Rightarrow> [ext_id (events g ! w)]))
       (extid_to_id g x)"

end
