(* ===== verification/SymAddrs.thy ===== *)
theory SymAddrs
  imports CPids "HOL-Library.Word"
begin

unbundle bit_operations_syntax

text \<open>
  Symbolic addresses (\<^verbatim>\<open>src/src/SymAddr.h\<close>, \<^verbatim>\<open>src/src/SymAddr.cpp\<close>) and instruction identifiers
  (\<^verbatim>\<open>src/src/IID.h\<close>), at the widths of the code: a memory block is a 16 bit process and a signed 16
  bit allocation number, an address adds a 32 bit offset. Offset arithmetic wraps as in the code.
  \<^verbatim>\<open>None\<close> results stand for failed assertions.
\<close>

section \<open>Memory blocks\<close>

record symblock =
  sb_pid :: "16 word"
  sb_alloc :: "16 word"

definition mk_block :: "int \<Rightarrow> int \<Rightarrow> symblock option" where
  "mk_block pid alloc =
     (if 0 \<le> pid \<and> pid \<le> 65535 \<and> -32768 \<le> alloc \<and> alloc \<le> 32767
      then Some \<lparr>sb_pid = word_of_int pid, sb_alloc = word_of_int alloc\<rparr> else None)"

definition sb_Null :: symblock where
  "sb_Null = \<lparr>sb_pid = 65535, sb_alloc = word_of_int (-1)\<rparr>"

definition sb_Global :: "nat \<Rightarrow> symblock option" where
  "sb_Global no = (if no \<le> 32767 then mk_block 65535 (int no) else None)"

definition sb_Stack :: "int \<Rightarrow> nat \<Rightarrow> symblock option" where
  "sb_Stack pid no = (if no \<le> 32767 then mk_block pid (-1 - int no) else None)"

definition sb_Heap :: "int \<Rightarrow> nat \<Rightarrow> symblock option" where
  "sb_Heap pid no = (if no \<le> 32767 then mk_block pid (int no) else None)"

definition sb_le :: "symblock \<Rightarrow> symblock \<Rightarrow> bool" where
  "sb_le a b = (sb_pid a < sb_pid b \<or> (sb_pid a = sb_pid b \<and> sint (sb_alloc a) \<le> sint (sb_alloc b)))"

definition sb_lt :: "symblock \<Rightarrow> symblock \<Rightarrow> bool" where
  "sb_lt a b = (sb_le a b \<and> a \<noteq> b)"

definition sb_is_null :: "symblock \<Rightarrow> bool" where
  "sb_is_null b = (sb_pid b = 65535 \<and> sint (sb_alloc b) = -1)"

definition sb_is_global :: "symblock \<Rightarrow> bool" where
  "sb_is_global b = (sb_pid b = 65535)"

definition sb_is_stack :: "symblock \<Rightarrow> bool" where
  "sb_is_stack b = (\<not> sb_is_global b \<and> sint (sb_alloc b) < 0)"

definition sb_is_heap :: "symblock \<Rightarrow> bool" where
  "sb_is_heap b = (\<not> sb_is_global b \<and> sint (sb_alloc b) \<ge> 0)"

definition sb_get_no :: "symblock \<Rightarrow> int" where
  "sb_get_no b = (if sint (sb_alloc b) < 0 then -1 - sint (sb_alloc b) else sint (sb_alloc b))"

definition sb_to_string :: "(int \<Rightarrow> string) \<Rightarrow> symblock \<Rightarrow> string" where
  "sb_to_string pid_str b =
     (if sb_is_null b then ''Null()''
      else (if sb_is_global b then ''Global(''
            else (if sb_is_stack b then ''Stack('' else ''Heap('') @ pid_str (uint (sb_pid b)) @ '','') @
           show_int (sb_get_no b) @ '')'')"

section \<open>Addresses\<close>

record symaddr =
  sa_block :: symblock
  sa_offset :: "32 word"

definition sa_null :: symaddr where
  "sa_null = \<lparr>sa_block = sb_Null, sa_offset = 0\<rparr>"

definition mk_addr :: "symblock \<Rightarrow> nat \<Rightarrow> symaddr option" where
  "mk_addr b offset =
     (if \<not> sb_is_null b \<and> offset \<le> 4294967295 then Some \<lparr>sa_block = b, sa_offset = of_nat offset\<rparr> else None)"

definition sa_le :: "symaddr \<Rightarrow> symaddr \<Rightarrow> bool" where
  "sa_le a b = (sb_lt (sa_block a) (sa_block b) \<or> (sa_block a = sa_block b \<and> sa_offset a \<le> sa_offset b))"

definition sa_lt :: "symaddr \<Rightarrow> symaddr \<Rightarrow> bool" where
  "sa_lt a b = (sa_le a b \<and> a \<noteq> b)"

text \<open>\<^verbatim>\<open>operator++\<close>, \<^verbatim>\<open>operator--\<close>, and addition of a signed 64 bit number, on a \<^verbatim>\<open>uint32_t\<close>.\<close>

definition sa_plus :: "symaddr \<Rightarrow> int \<Rightarrow> symaddr" where
  "sa_plus a addend = a\<lparr>sa_offset := sa_offset a + word_of_int addend\<rparr>"

definition sa_minus :: "symaddr \<Rightarrow> int \<Rightarrow> symaddr" where
  "sa_minus a addend = a\<lparr>sa_offset := sa_offset a - word_of_int addend\<rparr>"

definition sa_inc :: "symaddr \<Rightarrow> symaddr" where
  "sa_inc a = a\<lparr>sa_offset := sa_offset a + 1\<rparr>"

definition sa_dec :: "symaddr \<Rightarrow> symaddr" where
  "sa_dec a = a\<lparr>sa_offset := sa_offset a - 1\<rparr>"

text \<open>The difference is computed as a \<^verbatim>\<open>uint32_t\<close> and then converted to \<^verbatim>\<open>intptr_t\<close>.\<close>

definition sa_diff :: "symaddr \<Rightarrow> symaddr \<Rightarrow> int option" where
  "sa_diff a b = (if sa_block a = sa_block b then Some (uint (sa_offset a - sa_offset b)) else None)"

definition sa_hash :: "symaddr \<Rightarrow> 64 word" where
  "sa_hash a =
     ucast (sb_pid (sa_block a)) OR push_bit 16 (ucast (sb_alloc (sa_block a))) OR push_bit 32 (ucast (sa_offset a))"

definition sa_to_string :: "(int \<Rightarrow> string) \<Rightarrow> symaddr \<Rightarrow> string" where
  "sa_to_string pid_str a =
     (if sa_offset a = 0 then sb_to_string pid_str (sa_block a)
      else ''('' @ sb_to_string pid_str (sa_block a) @ ''+'' @ show_int (uint (sa_offset a)) @ '')'')"

section \<open>Address ranges\<close>

record symaddrsize =
  as_addr :: symaddr
  as_size :: "16 word"

definition mk_addrsize :: "symaddr \<Rightarrow> nat \<Rightarrow> symaddrsize option" where
  "mk_addrsize a sz = (if sz \<le> 65535 then Some \<lparr>as_addr = a, as_size = of_nat sz\<rparr> else None)"

text \<open>Ends of a range as \<^verbatim>\<open>uintptr_t\<close>.\<close>

definition as_low :: "symaddrsize \<Rightarrow> 64 word" where
  "as_low r = ucast (sa_offset (as_addr r))"

definition as_high :: "symaddrsize \<Rightarrow> 64 word" where
  "as_high r = as_low r + ucast (as_size r)"

definition as_subsetof :: "symaddrsize \<Rightarrow> symaddrsize \<Rightarrow> bool" where
  "as_subsetof r other =
     (if sa_block (as_addr r) \<noteq> sa_block (as_addr other) then False
      else as_low r \<ge> as_low other \<and> as_high r \<le> as_high other)"

definition as_overlaps :: "symaddrsize \<Rightarrow> symaddrsize \<Rightarrow> bool" where
  "as_overlaps r other =
     (if sa_block (as_addr r) \<noteq> sa_block (as_addr other) then False
      else as_low other < as_high r \<and> as_low r < as_high other)"

text \<open>\<^verbatim>\<open>addr.offset + size\<close> is computed as a \<^verbatim>\<open>uint32_t\<close> here.\<close>

definition as_includes :: "symaddrsize \<Rightarrow> symaddr \<Rightarrow> bool" where
  "as_includes r a =
     (sa_block (as_addr r) = sa_block a \<and> sa_offset (as_addr r) \<le> sa_offset a \<and>
      sa_offset (as_addr r) + ucast (as_size r) > sa_offset a)"

definition as_lt :: "symaddrsize \<Rightarrow> symaddrsize \<Rightarrow> bool" where
  "as_lt a b = (sa_lt (as_addr a) (as_addr b) \<or> (as_addr a = as_addr b \<and> as_size a < as_size b))"

definition as_to_string :: "(int \<Rightarrow> string) \<Rightarrow> symaddrsize \<Rightarrow> string" where
  "as_to_string pid_str r = sa_to_string pid_str (as_addr r) @ ''('' @ show_int (uint (as_size r)) @ '')''"

text \<open>
  The iterator: from \<^verbatim>\<open>begin()\<close> the offset is incremented until it is that of \<^verbatim>\<open>end()\<close>, which is the
  address plus the size (the blocks are the same).
\<close>

function as_iterate :: "symblock \<Rightarrow> 32 word \<Rightarrow> 32 word \<Rightarrow> symaddr list" where
  "as_iterate b it e = (if it = e then [] else \<lparr>sa_block = b, sa_offset = it\<rparr> # as_iterate b (it + 1) e)"
  by pat_completeness auto

termination as_iterate
proof (relation "measure (\<lambda>(b, it, e). unat (e - it))")
  fix it e :: "32 word" and b :: symblock
  assume "it \<noteq> e"
  then have "e - it \<noteq> 0" by simp
  then have "unat (e - it - 1) < unat (e - it)"
    by (metis measure_unat)
  then show "((b, it + 1, e), b, it, e) \<in> measure (\<lambda>(b, it, e). unat (e - it))"
    by (simp add: algebra_simps)
qed simp

declare as_iterate.simps [simp del]

definition as_elements :: "symaddrsize \<Rightarrow> symaddr list" where
  "as_elements r =
     as_iterate (sa_block (as_addr r)) (sa_offset (as_addr r)) (sa_offset (sa_plus (as_addr r) (uint (as_size r))))"

text \<open>
  \<^verbatim>\<open>SymData\<close>: a range with its bytes, a shared pointer that may be null; \<open>None\<close> where the assertion
  \<^verbatim>\<open>ref.includes(addr)\<close> fails or a null block would be read.
\<close>

record symdata =
  sd_ref :: symaddrsize
  sd_block :: "8 word list option"

definition sd_at :: "symdata \<Rightarrow> symaddr \<Rightarrow> 8 word option" where
  "sd_at d a =
     (if as_includes (sd_ref d) a
      then Option.bind (sa_diff a (as_addr (sd_ref d))) (\<lambda>i. map_option (\<lambda>blk. blk ! nat i) (sd_block d)) else None)"

section \<open>Instruction identifiers\<close>

text \<open>\<^verbatim>\<open>IID<int>\<close>: the index is an \<^verbatim>\<open>unsigned\<close>, the process a 32 bit \<^verbatim>\<open>int\<close>.\<close>

record iid =
  iid_idx :: "32 word"
  iid_pid :: "32 word"

definition mk_iid :: "int \<Rightarrow> int \<Rightarrow> iid option" where
  "mk_iid p i = (if i \<ge> 0 then Some \<lparr>iid_idx = word_of_int i, iid_pid = word_of_int p\<rparr> else None)"

definition iid_valid :: "iid \<Rightarrow> bool" where
  "iid_valid i = (iid_idx i > 0)"

definition iid_is_null :: "iid \<Rightarrow> bool" where
  "iid_is_null i = (iid_idx i = 0)"

definition iid_inc :: "iid \<Rightarrow> iid" where
  "iid_inc i = i\<lparr>iid_idx := iid_idx i + 1\<rparr>"

definition iid_dec :: "iid \<Rightarrow> iid option" where
  "iid_dec i = (if iid_idx i > 0 then Some (i\<lparr>iid_idx := iid_idx i - 1\<rparr>) else None)"

text \<open>The comparisons of the class template.\<close>

definition iid_eq :: "iid \<Rightarrow> iid \<Rightarrow> bool" where
  "iid_eq a b = (iid_idx a = iid_idx b \<and> iid_pid a = iid_pid b)"

definition iid_lt :: "iid \<Rightarrow> iid \<Rightarrow> bool" where
  "iid_lt a b = (sint (iid_pid a) < sint (iid_pid b) \<or> (iid_pid a = iid_pid b \<and> iid_idx a < iid_idx b))"

text \<open>The specialisations for \<^verbatim>\<open>int\<close> compare one 64 bit number.\<close>

definition comp_value :: "iid \<Rightarrow> 64 word" where
  "comp_value i = ucast (iid_idx i) OR push_bit 32 (ucast (iid_pid i))"

definition iid_int_eq :: "iid \<Rightarrow> iid \<Rightarrow> bool" where
  "iid_int_eq a b = (comp_value a = comp_value b)"

definition iid_int_lt :: "iid \<Rightarrow> iid \<Rightarrow> bool" where
  "iid_int_lt a b = (comp_value a < comp_value b)"

definition iid_int_le :: "iid \<Rightarrow> iid \<Rightarrow> bool" where
  "iid_int_le a b = (comp_value a \<le> comp_value b)"

section \<open>Packed words\<close>

text \<open>Two numbers in the halves of a wider one.\<close>

lemma unat_pack:
  fixes x :: "'a::len word" and y :: "'b::len word" and n :: nat
  assumes "LENGTH('a) \<le> n" "n + LENGTH('b) \<le> LENGTH('c)"
  shows "unat (ucast x OR push_bit n (ucast y) :: 'c::len word) = unat x + 2 ^ n * unat y"
proof -
  have bx: "unat x < 2 ^ n"
    using unsigned_less [of x] assms(1) by (meson less_le_trans one_le_numeral power_increasing)
  have "unat (ucast x OR push_bit n (ucast y) :: 'c word) = unat x OR push_bit n (unat y)"
  proof (rule bit_eqI)
    fix k
    show "bit (unat (ucast x OR push_bit n (ucast y) :: 'c word)) k \<longleftrightarrow> bit (unat x OR push_bit n (unat y)) k"
      using assms by (auto simp: bit_simps dest: bit_imp_le_length)
  qed
  also have "\<dots> = unat x + push_bit n (unat y)"
  proof (rule disjunctive_add_eq_or [symmetric], rule bit_eqI)
    fix k
    show "bit (unat x AND push_bit n (unat y)) k \<longleftrightarrow> bit (0 :: nat) k"
      using assms(1) by (auto simp: bit_simps dest: bit_imp_le_length)
  qed
  finally show ?thesis by (simp add: push_bit_eq_mult mult.commute)
qed

lemma pack_lt:
  fixes a b c d N :: nat
  assumes "a < N" "b < d"
  shows "a + N * b < c + N * d"
proof -
  have "N * Suc b \<le> N * d" using assms(2) by (intro mult_le_mono2) simp
  then show ?thesis using assms(1) by simp
qed

lemma pack_less:
  fixes a b c d N :: nat
  assumes "a < N" "c < N"
  shows "a + N * b < c + N * d \<longleftrightarrow> b < d \<or> b = d \<and> a < c"
  using pack_lt [of a N b d c] pack_lt [of c N d b a] assms by (cases b d rule: linorder_cases) auto

lemma pack_eq:
  fixes a b c d N :: nat
  assumes "a < N" "c < N"
  shows "a + N * b = c + N * d \<longleftrightarrow> a = c \<and> b = d"
  using pack_lt [of a N b d c] pack_lt [of c N d b a] assms by (cases b d rule: linorder_cases) auto

lemma unat_comp_value: "unat (comp_value i) = unat (iid_idx i) + 2 ^ 32 * unat (iid_pid i)"
  unfolding comp_value_def by (rule unat_pack) auto

lemma unat_sa_hash:
  "unat (sa_hash a) =
     unat (sb_pid (sa_block a)) + 2 ^ 16 * (unat (sb_alloc (sa_block a)) + 2 ^ 16 * unat (sa_offset a))"
proof -
  let ?b = "sa_block a"
  have pack: "push_bit 16 (ucast (sb_alloc ?b)) OR push_bit 32 (ucast (sa_offset a)) =
      push_bit 16 (ucast (ucast (sb_alloc ?b) OR push_bit 16 (ucast (sa_offset a)) :: 48 word) :: 64 word)"
    by (rule bit_eqI) (auto simp: bit_simps dest: bit_imp_le_length)
  have "unat (sa_hash a) =
      unat (ucast (sb_pid ?b) OR
        push_bit 16 (ucast (ucast (sb_alloc ?b) OR push_bit 16 (ucast (sa_offset a)) :: 48 word)) :: 64 word)"
    unfolding sa_hash_def or.assoc pack ..
  also have "\<dots> = unat (sb_pid ?b) +
      2 ^ 16 * unat (ucast (sb_alloc ?b) OR push_bit 16 (ucast (sa_offset a)) :: 48 word)"
    by (rule unat_pack) auto
  also have "unat (ucast (sb_alloc ?b) OR push_bit 16 (ucast (sa_offset a)) :: 48 word) =
      unat (sb_alloc ?b) + 2 ^ 16 * unat (sa_offset a)"
    by (rule unat_pack) auto
  finally show ?thesis .
qed

section \<open>Orders\<close>

text \<open>The order of pairs of numbers that the packed representations have.\<close>

lemma comp_value_eq_iff: "comp_value a = comp_value b \<longleftrightarrow> a = b"
proof -
  have "comp_value a = comp_value b \<longleftrightarrow> unat (comp_value a) = unat (comp_value b)"
    by (simp add: word_unat_eq_iff)
  also have "\<dots> \<longleftrightarrow> iid_idx a = iid_idx b \<and> iid_pid a = iid_pid b"
    unfolding unat_comp_value using unsigned_less [of "iid_idx a"] unsigned_less [of "iid_idx b"]
    by (subst pack_eq) (auto simp: word_unat_eq_iff)
  finally show ?thesis by (cases a; cases b) auto
qed

lemma comp_value_less_iff:
  "comp_value a < comp_value b \<longleftrightarrow> iid_pid a < iid_pid b \<or> iid_pid a = iid_pid b \<and> iid_idx a < iid_idx b"
  unfolding word_less_nat_alt unat_comp_value
  using unsigned_less [of "iid_idx a"] unsigned_less [of "iid_idx b"]
  by (subst pack_less) (auto simp: word_unat_eq_iff)

lemma sa_hash_eq_iff: "sa_hash a = sa_hash b \<longleftrightarrow> a = b"
proof -
  have "sa_hash a = sa_hash b \<longleftrightarrow> unat (sa_hash a) = unat (sa_hash b)"
    by (simp add: word_unat_eq_iff)
  also have "\<dots> \<longleftrightarrow> sb_pid (sa_block a) = sb_pid (sa_block b) \<and>
      sb_alloc (sa_block a) = sb_alloc (sa_block b) \<and> sa_offset a = sa_offset b"
    unfolding unat_sa_hash
    using unsigned_less [of "sb_pid (sa_block a)"] unsigned_less [of "sb_pid (sa_block b)"]
      unsigned_less [of "sb_alloc (sa_block a)"] unsigned_less [of "sb_alloc (sa_block b)"]
    by (subst pack_eq, simp, simp, subst pack_eq) (auto simp: word_unat_eq_iff)
  finally show ?thesis by (cases a; cases b; cases "sa_block a"; cases "sa_block b") auto
qed

lemma sint_less_nonneg:
  fixes a b :: "'a::len word"
  assumes "0 \<le> sint a" "0 \<le> sint b"
  shows "sint a < sint b \<longleftrightarrow> a < b"
proof -
  have "sint x = uint x" if "0 \<le> sint x" for x :: "'a word"
    using that sint_lt [of x] by (simp add: uint_sint take_bit_int_eq_self order_less_le_trans)
  then show ?thesis using assms by (simp add: word_less_def)
qed

lemma sint_word_eq_iff: "sint (a :: 'a::len word) = sint b \<longleftrightarrow> a = b"
  by (auto intro: signed_word_eqI)

lemma sb_eq_iff: "(a :: symblock) = b \<longleftrightarrow> sb_pid a = sb_pid b \<and> sb_alloc a = sb_alloc b"
  by (cases a; cases b) auto

lemma sa_eq_iff: "(a :: symaddr) = b \<longleftrightarrow> sa_block a = sa_block b \<and> sa_offset a = sa_offset b"
  by (cases a; cases b) auto

lemma as_eq_iff: "(a :: symaddrsize) = b \<longleftrightarrow> as_addr a = as_addr b \<and> as_size a = as_size b"
  by (cases a; cases b) auto

lemma sb_lt_iff:
  "sb_lt a b \<longleftrightarrow> sb_pid a < sb_pid b \<or> (sb_pid a = sb_pid b \<and> sint (sb_alloc a) < sint (sb_alloc b))"
  by (auto simp: sb_lt_def sb_le_def sb_eq_iff sint_word_eq_iff order_less_le)

lemma sa_lt_iff:
  "sa_lt a b \<longleftrightarrow> sb_lt (sa_block a) (sa_block b) \<or> (sa_block a = sa_block b \<and> sa_offset a < sa_offset b)"
  by (auto simp: sa_lt_def sa_le_def sa_eq_iff sb_lt_def order_less_le)

lemma sb_lt_order:
  "\<not> sb_lt a a" "sb_lt a b \<Longrightarrow> sb_lt b c \<Longrightarrow> sb_lt a c" "sb_lt a b \<or> a = b \<or> sb_lt b a"
proof -
  show "\<not> sb_lt a a" by (simp add: sb_lt_def)
  show "sb_lt a b \<Longrightarrow> sb_lt b c \<Longrightarrow> sb_lt a c"
    unfolding sb_lt_iff by (metis order_less_trans)
  show "sb_lt a b \<or> a = b \<or> sb_lt b a"
    unfolding sb_lt_iff sb_eq_iff by (metis linorder_neqE sint_word_eq_iff)
qed

lemma sa_lt_order:
  "\<not> sa_lt a a" "sa_lt a b \<Longrightarrow> sa_lt b c \<Longrightarrow> sa_lt a c" "sa_lt a b \<or> a = b \<or> sa_lt b a"
proof -
  show "\<not> sa_lt a a" by (simp add: sa_lt_def)
  show "sa_lt a b \<Longrightarrow> sa_lt b c \<Longrightarrow> sa_lt a c"
    unfolding sa_lt_iff by (metis order_less_trans sb_lt_order(2))
  show "sa_lt a b \<or> a = b \<or> sa_lt b a"
    unfolding sa_lt_iff sa_eq_iff by (metis linorder_neqE sb_lt_order(3))
qed

lemma as_lt_order:
  "\<not> as_lt a a" "as_lt a b \<Longrightarrow> as_lt b c \<Longrightarrow> as_lt a c" "as_lt a b \<or> a = b \<or> as_lt b a"
proof -
  show "\<not> as_lt a a" by (simp add: as_lt_def sa_lt_order(1))
  show "as_lt a b \<Longrightarrow> as_lt b c \<Longrightarrow> as_lt a c"
    unfolding as_lt_def by (metis order_less_trans sa_lt_order(2))
  show "as_lt a b \<or> a = b \<or> as_lt b a"
    unfolding as_lt_def as_eq_iff by (metis linorder_neqE sa_lt_order(3))
qed

text \<open>
  Blocks and addresses as linearly ordered types, so that they can be kept in sorted containers. The
  instances are for the extensible records; on the records themselves they are the comparisons of the
  code.
\<close>

instantiation symblock_ext :: (linorder) linorder
begin
definition less_eq_symblock_ext :: "'a symblock_scheme \<Rightarrow> 'a symblock_scheme \<Rightarrow> bool" where
  "less_eq_symblock_ext a b \<longleftrightarrow>
     (sb_pid a, sint (sb_alloc a), symblock.more a) \<le> (sb_pid b, sint (sb_alloc b), symblock.more b)"
definition less_symblock_ext :: "'a symblock_scheme \<Rightarrow> 'a symblock_scheme \<Rightarrow> bool" where
  "less_symblock_ext a b \<longleftrightarrow>
     (sb_pid a, sint (sb_alloc a), symblock.more a) < (sb_pid b, sint (sb_alloc b), symblock.more b)"
instance
proof
  fix x y z :: "'a symblock_scheme"
  let ?k = "\<lambda>a :: 'a symblock_scheme. (sb_pid a, sint (sb_alloc a), symblock.more a)"
  show "(x < y) = (x \<le> y \<and> \<not> y \<le> x)"
    unfolding less_symblock_ext_def less_eq_symblock_ext_def by (rule less_le_not_le)
  show "x \<le> x" unfolding less_eq_symblock_ext_def by (rule order_refl)
  show "x \<le> y \<Longrightarrow> y \<le> z \<Longrightarrow> x \<le> z" unfolding less_eq_symblock_ext_def by (rule order_trans)
  show "x \<le> y \<or> y \<le> x" unfolding less_eq_symblock_ext_def by (rule linear)
  assume "x \<le> y" "y \<le> x"
  then have "?k x = ?k y" unfolding less_eq_symblock_ext_def by (rule order_antisym)
  then show "x = y" by (cases x; cases y) (simp add: sint_word_eq_iff)
qed
end

instantiation symaddr_ext :: (linorder) linorder
begin
definition less_eq_symaddr_ext :: "'a symaddr_scheme \<Rightarrow> 'a symaddr_scheme \<Rightarrow> bool" where
  "less_eq_symaddr_ext a b \<longleftrightarrow>
     (sa_block a, sa_offset a, symaddr.more a) \<le> (sa_block b, sa_offset b, symaddr.more b)"
definition less_symaddr_ext :: "'a symaddr_scheme \<Rightarrow> 'a symaddr_scheme \<Rightarrow> bool" where
  "less_symaddr_ext a b \<longleftrightarrow>
     (sa_block a, sa_offset a, symaddr.more a) < (sa_block b, sa_offset b, symaddr.more b)"
instance
proof
  fix x y z :: "'a symaddr_scheme"
  let ?k = "\<lambda>a :: 'a symaddr_scheme. (sa_block a, sa_offset a, symaddr.more a)"
  show "(x < y) = (x \<le> y \<and> \<not> y \<le> x)"
    unfolding less_symaddr_ext_def less_eq_symaddr_ext_def by (rule less_le_not_le)
  show "x \<le> x" unfolding less_eq_symaddr_ext_def by (rule order_refl)
  show "x \<le> y \<Longrightarrow> y \<le> z \<Longrightarrow> x \<le> z" unfolding less_eq_symaddr_ext_def by (rule order_trans)
  show "x \<le> y \<or> y \<le> x" unfolding less_eq_symaddr_ext_def by (rule linear)
  assume "x \<le> y" "y \<le> x"
  then have "?k x = ?k y" unfolding less_eq_symaddr_ext_def by (rule order_antisym)
  then show "x = y" by (cases x; cases y) simp
qed
end

lemma symblock_less: "(a :: symblock) < b \<longleftrightarrow> sb_lt a b"
  by (auto simp: less_symblock_ext_def sb_lt_iff less_prod_def)

lemma symaddr_less: "(a :: symaddr) < b \<longleftrightarrow> sa_lt a b"
  unfolding less_symaddr_ext_def sa_lt_iff symblock_less [symmetric] by (auto simp: order_le_less)

section \<open>Ranges as sets of bytes\<close>

text \<open>The bytes of a range: a block with the positions in it, as numbers.\<close>

definition as_bytes :: "symaddrsize \<Rightarrow> (symblock \<times> nat) set" where
  "as_bytes r = {(b, n). b = sa_block (as_addr r) \<and>
     unat (sa_offset (as_addr r)) \<le> n \<and> n < unat (sa_offset (as_addr r)) + unat (as_size r)}"

definition as_fits :: "symaddrsize \<Rightarrow> bool" where
  "as_fits r = (unat (sa_offset (as_addr r)) + unat (as_size r) < 2 ^ 32)"

lemma unat_ucast_up_simp:
  fixes x :: "'a::len word"
  assumes "LENGTH('a) \<le> LENGTH('b)"
  shows "unat (ucast x :: 'b::len word) = unat x"
proof -
  have "unat x < 2 ^ LENGTH('b)"
    using unsigned_less [of x] assms by (meson less_le_trans one_le_numeral power_increasing)
  then show ?thesis by (simp add: unsigned_ucast_eq take_bit_nat_eq_self)
qed

lemma unat_low: "unat (as_low r) = unat (sa_offset (as_addr r))"
  unfolding as_low_def by (rule unat_ucast_up_simp) simp

lemma unat_high: "unat (as_high r) = unat (sa_offset (as_addr r)) + unat (as_size r)"
proof -
  have sz: "unat (ucast (as_size r) :: 64 word) = unat (as_size r)"
    by (rule unat_ucast_up_simp) simp
  have "unat (sa_offset (as_addr r)) < 2 ^ 32" "unat (as_size r) < 2 ^ 16"
    using unsigned_less [of "sa_offset (as_addr r)"] unsigned_less [of "as_size r"] by auto
  then show ?thesis
    unfolding as_high_def by (subst unat_add_lem [THEN iffD1]) (auto simp: unat_low sz)
qed

lemma as_overlaps_iff:
  "as_overlaps r s \<longleftrightarrow> sa_block (as_addr r) = sa_block (as_addr s) \<and>
     unat (sa_offset (as_addr s)) < unat (sa_offset (as_addr r)) + unat (as_size r) \<and>
     unat (sa_offset (as_addr r)) < unat (sa_offset (as_addr s)) + unat (as_size s)"
  by (auto simp: as_overlaps_def word_less_nat_alt unat_low unat_high)

lemma as_subsetof_iff:
  "as_subsetof r s \<longleftrightarrow> sa_block (as_addr r) = sa_block (as_addr s) \<and>
     unat (sa_offset (as_addr s)) \<le> unat (sa_offset (as_addr r)) \<and>
     unat (sa_offset (as_addr r)) + unat (as_size r) \<le> unat (sa_offset (as_addr s)) + unat (as_size s)"
  by (auto simp: as_subsetof_def word_le_nat_alt unat_low unat_high)

lemma as_overlaps_bytes:
  assumes "as_size r \<noteq> 0" "as_size s \<noteq> 0"
  shows "as_overlaps r s \<longleftrightarrow> as_bytes r \<inter> as_bytes s \<noteq> {}"
proof -
  have pos: "unat (as_size r) > 0" "unat (as_size s) > 0"
    using assms by (auto simp: unat_gt_0)
  have witness: "(sa_block (as_addr r), max (unat (sa_offset (as_addr r))) (unat (sa_offset (as_addr s)))) \<in>
      as_bytes r \<inter> as_bytes s" if "as_overlaps r s"
    using that pos unfolding as_overlaps_iff as_bytes_def by (simp add: max_def)
  then show ?thesis unfolding as_overlaps_iff as_bytes_def by (intro iffI) (blast, auto)
qed

lemma as_subsetof_bytes:
  assumes "as_size r \<noteq> 0"
  shows "as_subsetof r s \<longleftrightarrow> as_bytes r \<subseteq> as_bytes s"
proof
  show "as_bytes r \<subseteq> as_bytes s" if "as_subsetof r s"
    using that unfolding as_subsetof_iff as_bytes_def by auto
next
  assume sub: "as_bytes r \<subseteq> as_bytes s"
  have pos: "unat (as_size r) > 0" using assms by (auto simp: unat_gt_0)
  let ?b = "sa_block (as_addr r)" and ?lo = "unat (sa_offset (as_addr r))"
  have "(?b, ?lo) \<in> as_bytes s" "(?b, ?lo + unat (as_size r) - 1) \<in> as_bytes s"
    using pos by (intro subsetD [OF sub], simp add: as_bytes_def)+
  then show "as_subsetof r s"
    using pos unfolding as_subsetof_iff as_bytes_def by auto
qed

lemma as_end_fits:
  assumes "as_fits r"
  shows "unat (sa_offset (as_addr r) + ucast (as_size r)) = unat (sa_offset (as_addr r)) + unat (as_size r)"
proof -
  have "unat (ucast (as_size r) :: 32 word) = unat (as_size r)"
    by (rule unat_ucast_up_simp) simp
  with assms show ?thesis
    unfolding as_fits_def by (subst unat_add_lem [THEN iffD1]) auto
qed

lemma as_includes_bytes:
  assumes "as_fits r"
  shows "as_includes r a \<longleftrightarrow> (sa_block a, unat (sa_offset a)) \<in> as_bytes r"
  using as_end_fits [OF assms] by (auto simp: as_includes_def as_bytes_def word_less_nat_alt word_le_nat_alt)

text \<open>
  The end of a range that does not fit wraps to a 32 bit value that is not above its first offset,
  so that nothing is included in it.
\<close>

lemma as_includes_iff:
  "as_includes r a \<longleftrightarrow> as_fits r \<and> (sa_block a, unat (sa_offset a)) \<in> as_bytes r"
proof (cases "as_fits r")
  case True
  then show ?thesis by (simp add: as_includes_bytes)
next
  case False
  let ?o = "sa_offset (as_addr r)" and ?n = "ucast (as_size r) :: 32 word"
  have n: "unat ?n = unat (as_size r)" by (rule unat_ucast_up_simp) simp
  have "unat (as_size r) < 2 ^ 16" "unat ?o < 2 ^ 32"
    using unsigned_less [of "as_size r"] unsigned_less [of ?o] by simp_all
  then have "unat (?o + ?n) \<le> unat ?o"
    using False by (simp add: unat_word_ariths n as_fits_def mod_if del: not_less; linarith)
  then have "\<not> as_includes r a" by (auto simp: as_includes_def word_less_nat_alt word_le_nat_alt)
  then show ?thesis using False by simp
qed

text \<open>An empty range overlaps the ranges of its block that its position is strictly inside of.\<close>

lemma as_overlaps_empty:
  "as_size r = 0 \<Longrightarrow> as_overlaps r s \<longleftrightarrow>
     (\<exists>b k. as_addr r = \<lparr>sa_block = b, sa_offset = k\<rparr> \<and> 0 < unat k \<and>
            (b, unat k) \<in> as_bytes s \<and> (b, unat k - 1) \<in> as_bytes s)"
  by (cases r; cases "as_addr r") (auto simp: as_overlaps_iff as_bytes_def)

text \<open>Inclusion as the code computes it implies that the byte index is within the size.\<close>

lemma as_includes_offset:
  assumes "as_includes r a"
  shows "unat (sa_offset a - sa_offset (as_addr r)) < unat (as_size r)"
proof -
  let ?o = "sa_offset (as_addr r)"
  have le: "?o \<le> sa_offset a" and lt: "sa_offset a < ?o + ucast (as_size r)"
    using assms by (auto simp: as_includes_def)
  have "unat (?o + (ucast (as_size r) :: 32 word)) \<le> unat ?o + unat (ucast (as_size r) :: 32 word)"
    by (simp add: unat_word_ariths)
  moreover have "unat (ucast (as_size r) :: 32 word) = unat (as_size r)"
    by (rule unat_ucast_up_simp) simp
  ultimately show ?thesis
    using le lt by (simp add: word_less_nat_alt word_le_nat_alt unat_sub)
qed

text \<open>The iteration over a range visits its addresses in order, across the end of the offsets too.\<close>

lemma as_iterate_upto:
  "n < 2 ^ 32 \<Longrightarrow> as_iterate b it (it + of_nat n) = map (\<lambda>i. \<lparr>sa_block = b, sa_offset = it + of_nat i\<rparr>) [0..<n]"
proof (induction n arbitrary: it)
  case 0
  then show ?case by (simp add: as_iterate.simps)
next
  case (Suc n)
  have "it + of_nat (Suc n) \<noteq> it"
    using Suc.prems by (simp add: word_of_nat_eq_0_iff nat_dvd_not_less del: of_nat_Suc)
  then have "as_iterate b it (it + of_nat (Suc n)) =
      \<lparr>sa_block = b, sa_offset = it\<rparr> # as_iterate b (it + 1) ((it + 1) + of_nat n)"
    by (subst as_iterate.simps) (simp add: algebra_simps)
  also have "\<dots> = \<lparr>sa_block = b, sa_offset = it\<rparr> #
      map (\<lambda>i. \<lparr>sa_block = b, sa_offset = (it + 1) + of_nat i\<rparr>) [0..<n]"
    using Suc.IH [of "it + 1"] Suc.prems by simp
  also have "\<dots> = map (\<lambda>i. \<lparr>sa_block = b, sa_offset = it + of_nat i\<rparr>) [0..<Suc n]"
    by (simp add: upt_conv_Cons map_Suc_upt [symmetric] algebra_simps del: upt_Suc)
  finally show ?case .
qed

lemma as_elements_eq:
  "as_elements r = map (\<lambda>i. sa_plus (as_addr r) (int i)) [0..<unat (as_size r)]"
proof -
  have sz: "unat (as_size r) < 2 ^ 32"
    using unsigned_less [of "as_size r", where 'a = nat] by simp
  have "word_of_int (uint (as_size r)) = (of_nat (unat (as_size r)) :: 32 word)"
    by (simp add: of_nat_unat unsigned_ucast_eq)
  then show ?thesis
    unfolding as_elements_def using as_iterate_upto [OF sz, of "sa_block (as_addr r)" "sa_offset (as_addr r)"]
    by (cases "as_addr r") (simp add: sa_plus_def)
qed

text \<open>The numbers the assertions admit are represented exactly.\<close>

lemma sint_alloc16: "-32768 \<le> k \<Longrightarrow> k \<le> 32767 \<Longrightarrow> sint (word_of_int k :: 16 word) = k"
  by (simp add: sint_sbintrunc' signed_take_bit_int_eq_self)

lemma uint_pid16: "0 \<le> k \<Longrightarrow> k \<le> 65535 \<Longrightarrow> uint (word_of_int k :: 16 word) = k"
  by (simp add: uint_word_of_int take_bit_int_eq_self)

lemma pid16_neq_reserved:
  assumes "0 \<le> k" "k < 65535"
  shows "(word_of_int k :: 16 word) \<noteq> 65535"
proof
  assume "(word_of_int k :: 16 word) = 65535"
  then have "uint (word_of_int k :: 16 word) = uint (65535 :: 16 word)" by simp
  then show False using assms by (simp add: uint_pid16)
qed

section \<open>Properties\<close>

text \<open>
  C37. Address ranges, also those whose end is above 2^32: two non-empty ranges \<^verbatim>\<open>overlaps\<close> iff they
  have a byte in common, since the 64 bit ends cannot wrap, and an empty range overlaps another iff
  its position is strictly inside of it; a non-empty range is \<^verbatim>\<open>subsetof\<close> another iff all its bytes
  are in it; a range \<^verbatim>\<open>includes\<close> an address iff it contains that byte and ends below 2^32, as the
  sum is one of 32 bits there. The iterator visits exactly \<^verbatim>\<open>size\<close> addresses in order from the first.
\<close>
theorem symaddr_ranges:
  "(as_size r \<noteq> 0 \<and> as_size s \<noteq> 0 \<longrightarrow> (as_overlaps r s \<longleftrightarrow> as_bytes r \<inter> as_bytes s \<noteq> {})) \<and>
   (as_size r = 0 \<longrightarrow> (as_overlaps r s \<longleftrightarrow>
      (\<exists>b k. as_addr r = \<lparr>sa_block = b, sa_offset = k\<rparr> \<and> 0 < unat k \<and>
             (b, unat k) \<in> as_bytes s \<and> (b, unat k - 1) \<in> as_bytes s))) \<and>
   (as_size r \<noteq> 0 \<longrightarrow> (as_subsetof r s \<longleftrightarrow> as_bytes r \<subseteq> as_bytes s)) \<and>
   (as_includes r a \<longleftrightarrow> as_fits r \<and> (sa_block a, unat (sa_offset a)) \<in> as_bytes r) \<and>
   as_elements r = map (\<lambda>i. sa_plus (as_addr r) (int i)) [0..<unat (as_size r)]"
  by (intro conjI impI, erule conjE)
    (fact as_overlaps_bytes | erule as_overlaps_empty | erule as_subsetof_bytes | rule as_includes_iff | rule as_elements_eq)+

definition wit_range :: "nat \<Rightarrow> nat \<Rightarrow> symaddrsize" where
  "wit_range k n = \<lparr>as_addr = \<lparr>sa_block = \<lparr>sb_pid = 0, sb_alloc = 3\<rparr>, sa_offset = of_nat k\<rparr>, as_size = of_nat n\<rparr>"

theorem symaddr_ranges_witness:
  "(as_overlaps (wit_range 4 4) (wit_range 6 4) \<longleftrightarrow> as_bytes (wit_range 4 4) \<inter> as_bytes (wit_range 6 4) \<noteq> {}) \<and>
   as_overlaps (wit_range 6 0) (wit_range 4 4)"
proof -
  have "as_size (wit_range 4 4) \<noteq> 0" "as_size (wit_range 6 4) \<noteq> 0" "as_size (wit_range 6 0) = 0"
    by (simp_all add: wit_range_def)
  then show ?thesis
    using symaddr_ranges [of "wit_range 4 4" "wit_range 6 4"] symaddr_ranges [of "wit_range 6 0" "wit_range 4 4"]
    by (simp add: wit_range_def as_bytes_def)
qed

text \<open>
  Reading a byte of a \<^verbatim>\<open>SymData\<close> is in bounds: whenever the assertion \<^verbatim>\<open>ref.includes(addr)\<close>
  passes, the index \<^verbatim>\<open>addr - ref.addr\<close> into the block is below the size of the range, also when the
  32 bit sum in \<^verbatim>\<open>includes\<close> wraps, so the result is that byte of the block.
\<close>
lemma symdata_index_in_bounds:
  assumes "sd_block d = Some blk" "length blk \<ge> unat (as_size (sd_ref d))" "as_includes (sd_ref d) a"
  shows "\<exists>i < length blk. sa_diff a (as_addr (sd_ref d)) = Some (int i) \<and> sd_at d a = Some (blk ! i)"
proof -
  let ?w = "sa_offset a - sa_offset (as_addr (sd_ref d))"
  have "unat ?w < length blk" using as_includes_offset [OF assms(3)] assms(2) by simp
  moreover have "sa_diff a (as_addr (sd_ref d)) = Some (int (unat ?w))"
    using assms(3) by (simp add: sa_diff_def as_includes_def)
  ultimately show ?thesis using assms(1,3)
    by (intro exI [of _ "unat ?w"]) (simp add: sd_at_def del: unat_minus_one)
qed

text \<open>
  C38. Packed identifiers: the 64 bit hash of an address is injective, \<^verbatim>\<open>IID<int>\<close>'s packed
  comparisons are equality and a strict total order, which is the order of the class template
  (process first, then index) for identifiers whose processes are not negative.
\<close>
theorem packed_identifiers:
  assumes "0 \<le> sint (iid_pid i)" "0 \<le> sint (iid_pid j)"
  shows "(sa_hash a = sa_hash b \<longleftrightarrow> a = b) \<and> (iid_int_eq i j \<longleftrightarrow> iid_eq i j) \<and> (iid_int_lt i j \<longleftrightarrow> iid_lt i j) \<and>
         (iid_int_le i j \<longleftrightarrow> iid_lt i j \<or> iid_eq i j) \<and> (iid_int_lt i j \<or> i = j \<or> iid_int_lt j i)"
proof -
  have eq: "iid_eq i j \<longleftrightarrow> i = j" by (cases i; cases j) (auto simp: iid_eq_def)
  have lt: "iid_lt i j \<longleftrightarrow> comp_value i < comp_value j"
    by (auto simp: iid_lt_def comp_value_less_iff sint_less_nonneg [OF assms])
  show ?thesis
    using sa_hash_eq_iff [of a b] comp_value_eq_iff [of i j] eq lt
    by (auto simp: iid_int_eq_def iid_int_lt_def iid_int_le_def)
qed

theorem packed_identifiers_witness:
  "iid_int_lt \<lparr>iid_idx = 7, iid_pid = 1\<rparr> \<lparr>iid_idx = 2, iid_pid = 3\<rparr> \<longleftrightarrow>
     iid_lt \<lparr>iid_idx = 7, iid_pid = 1\<rparr> \<lparr>iid_idx = 2, iid_pid = 3\<rparr>"
  using packed_identifiers [of "\<lparr>iid_idx = 7, iid_pid = 1\<rparr>" "\<lparr>iid_idx = 2, iid_pid = 3\<rparr>"] by simp

text \<open>
  Memory blocks: for a process other than the reserved one and an allocation number that passes
  the assertion, the constructors give blocks of pairwise different kinds, and \<^verbatim>\<open>get_no\<close> and the
  process read back the arguments.
\<close>
lemma symblock_kinds:
  assumes "0 \<le> p" "p < 65535" "n \<le> 32767"
  shows "\<exists>g s h. sb_Global n = Some g \<and> sb_Stack p n = Some s \<and> sb_Heap p n = Some h \<and>
     sb_is_global g \<and> \<not> sb_is_null g \<and> \<not> sb_is_stack g \<and> \<not> sb_is_heap g \<and>
     sb_is_stack s \<and> \<not> sb_is_heap s \<and> \<not> sb_is_global s \<and> sb_is_heap h \<and> \<not> sb_is_stack h \<and> \<not> sb_is_global h \<and>
     sb_get_no g = int n \<and> sb_get_no s = int n \<and> sb_get_no h = int n \<and>
     uint (sb_pid s) = p \<and> uint (sb_pid h) = p"
proof -
  have neq: "(word_of_int p :: 16 word) \<noteq> 65535"
    using assms(1,2) by (rule pid16_neq_reserved)
  have "sint (word_of_int (int n) :: 16 word) = int n" "sint (word_of_int (-1 - int n) :: 16 word) = -1 - int n"
    using assms(3) by (intro sint_alloc16; simp)+
  then show ?thesis
    using assms neq
    by (simp add: sb_Global_def sb_Stack_def sb_Heap_def mk_block_def sb_is_global_def sb_is_null_def
        sb_is_stack_def sb_is_heap_def sb_get_no_def uint_pid16)
qed

end
