(* ===== verification/Rmw.thy ===== *)
theory Rmw
  imports Prelude "HOL-Library.Word"
begin

unbundle bit_operations_syntax

text \<open>
  The byte-wise arithmetic of read-modify-write operations and await conditions:
  \<^verbatim>\<open>src/src/RMWAction.h\<close>, \<^verbatim>\<open>src/src/RMWAction.cpp\<close>, \<^verbatim>\<open>src/src/AwaitCond.h\<close> and
  \<^verbatim>\<open>src/src/AwaitCond.cpp\<close>. A block of memory is a list of bytes; the constant
  \<^verbatim>\<open>llvm::sys::IsBigEndianHost\<close> is the parameter \<open>be\<close>. The operations are shown to be the ones on
  the integers the blocks denote, for both byte orders.
\<close>

section \<open>Comparison of blocks\<close>

type_synonym bytes = "8 word list"

text \<open>\<^verbatim>\<open>memcmp\<close>, of which only the sign is used.\<close>

fun memcmp :: "bytes \<Rightarrow> bytes \<Rightarrow> nat \<Rightarrow> int" where
  "memcmp lhs rhs 0 = 0"
| "memcmp (x # lhs) (y # rhs) (Suc n) = (if x < y then -1 else if x > y then 1 else memcmp lhs rhs n)"
| "memcmp lhs rhs n = 0"

fun apcmp_loop :: "bytes \<Rightarrow> bytes \<Rightarrow> nat \<Rightarrow> int" where
  "apcmp_loop lhs rhs 0 = 0"
| "apcmp_loop lhs rhs (Suc count) =
     (if lhs ! count > rhs ! count then 1
      else if lhs ! count < rhs ! count then -1
      else apcmp_loop lhs rhs count)"

definition apcmp :: "bool \<Rightarrow> bytes \<Rightarrow> bytes \<Rightarrow> nat \<Rightarrow> int" where
  "apcmp be lhs rhs count = (if be then memcmp lhs rhs count else apcmp_loop lhs rhs count)"

text \<open>The sign of a byte: \<^verbatim>\<open>((const char*)lhs)[i] >> (CHAR_BIT-1)\<close> is nonzero iff bit 7 is set.\<close>

definition sapcmp :: "bool \<Rightarrow> bytes \<Rightarrow> bytes \<Rightarrow> nat \<Rightarrow> int" where
  "sapcmp be lhs rhs count =
     (if count = 0 then 0
      else let big_byte_index = (if be then 0 else count - 1);
               lsign = bit (lhs ! big_byte_index) 7;
               rsign = bit (rhs ! big_byte_index) 7
           in if lsign \<noteq> rsign then (if lsign then -1 else 1)
              else apcmp be lhs rhs count)"

section \<open>Await conditions\<close>

text \<open>The operators, with the bit fields of the enumeration.\<close>

datatype await_op = None_op | UGT | EQ | UGE | ULT | NE | ULE | SGT | SGE | SLT | SLE

fun op_bits :: "await_op \<Rightarrow> 8 word" where
  "op_bits None_op = 0"
| "op_bits UGT = 0b0001"
| "op_bits EQ = 0b0010"
| "op_bits UGE = 0b0011"
| "op_bits ULT = 0b0100"
| "op_bits NE = 0b0101"
| "op_bits ULE = 0b0110"
| "op_bits SGT = 0b1001"
| "op_bits SGE = 0b1011"
| "op_bits SLT = 0b1100"
| "op_bits SLE = 0b1110"

definition await_names :: "string option list" where
  "await_names =
     [None, Some ''UGT'', Some ''EQ'', Some ''UGE'', Some ''ULT'', Some ''NE'', Some ''ULE'', None,
      None, Some ''SGT'', None, Some ''SGE'', Some ''SLT'', None, Some ''SLE'']"

definition await_name :: "await_op \<Rightarrow> string option" where
  "await_name opr = await_names ! unat (op_bits opr)"

text \<open>
  The condition itself: the operand is a shared pointer, which may be null. The two constructors; the
  second asserts that there is an operator.
\<close>

record await_cond =
  ac_operand :: "bytes option"
  ac_op :: await_op

definition AwaitCond0 :: await_cond where
  "AwaitCond0 = \<lparr>ac_operand = None, ac_op = None_op\<rparr>"

definition AwaitCond :: "await_op \<Rightarrow> bytes option \<Rightarrow> await_cond option" where
  "AwaitCond opr operand = (if opr = None_op then None else Some \<lparr>ac_operand = operand, ac_op = opr\<rparr>)"

definition satisfied_by :: "bool \<Rightarrow> await_op \<Rightarrow> bytes \<Rightarrow> bytes \<Rightarrow> nat \<Rightarrow> bool" where
  "satisfied_by be opr operand data sz =
     (let cmp = (if drop_bit 3 (op_bits opr) AND 0b1 \<noteq> 0 then sapcmp be data operand sz
                 else apcmp be data operand sz);
          shift = (if cmp < 0 then 2 else if cmp = 0 then 1 else 0)
      in drop_bit shift (op_bits opr) AND 0b1 \<noteq> 0)"

section \<open>Read-modify-write actions\<close>

datatype rmw_kind = XCHG | ADD | SUB | AND_k | NAND | OR_k | XOR_k | MAX_k | MIN_k | UMAX | UMIN

fun rmw_name :: "rmw_kind \<Rightarrow> string" where
  "rmw_name XCHG = ''XCHG''"
| "rmw_name ADD = ''ADD''"
| "rmw_name SUB = ''SUB''"
| "rmw_name AND_k = ''AND''"
| "rmw_name NAND = ''NAND''"
| "rmw_name OR_k = ''OR''"
| "rmw_name XOR_k = ''XOR''"
| "rmw_name MAX_k = ''MAX''"
| "rmw_name MIN_k = ''MIN''"
| "rmw_name UMAX = ''UMAX''"
| "rmw_name UMIN = ''UMIN''"

text \<open>
  One byte of the sum: \<^verbatim>\<open>sum\<close> is a \<^verbatim>\<open>uint16_t\<close>, the carry an \<^verbatim>\<open>int8_t\<close>. The loop visits the bytes
  from the least significant one; on a big-endian host it runs over the block backwards.
\<close>

definition byte_sum :: "bool \<Rightarrow> 8 word \<Rightarrow> 8 word \<Rightarrow> 8 word \<Rightarrow> 16 word" where
  "byte_sum add i a carry = (if add then ucast i + ucast a + scast carry else ucast i - ucast a + scast carry)"

fun sum_loop :: "bool \<Rightarrow> bytes \<Rightarrow> bytes \<Rightarrow> 8 word \<Rightarrow> bytes" where
  "sum_loop add (i # inp) (a # argp) carry =
     (let sum = byte_sum add i a carry
      in ucast sum # sum_loop add inp argp (ucast (drop_bit 8 sum)))"
| "sum_loop add inp argp carry = []"

fun bitwise :: "rmw_kind \<Rightarrow> 8 word \<Rightarrow> 8 word \<Rightarrow> 8 word" where
  "bitwise AND_k lhs rhs = lhs AND rhs"
| "bitwise NAND lhs rhs = NOT (lhs AND rhs)"
| "bitwise OR_k lhs rhs = lhs OR rhs"
| "bitwise XOR_k lhs rhs = lhs XOR rhs"
| "bitwise k lhs rhs = lhs"

definition apply_to :: "bool \<Rightarrow> rmw_kind \<Rightarrow> bytes \<Rightarrow> bytes \<Rightarrow> bytes" where
  "apply_to be kind operand data =
     (let sz = length data in
      if kind = ADD \<or> kind = SUB then
        (if be then rev (sum_loop (kind = ADD) (rev data) (rev operand) 0)
         else sum_loop (kind = ADD) data operand 0)
      else if kind = AND_k \<or> kind = NAND \<or> kind = OR_k \<or> kind = XOR_k then map2 (bitwise kind) data operand
      else if kind = XCHG then operand
      else let is_signed = (kind = MAX_k \<or> kind = MIN_k);
               out = (if is_signed then sapcmp be data operand sz else apcmp be data operand sz);
               take_rhs = (if kind = MAX_k \<or> kind = UMAX then \<not> out > 0 else out > 0)
           in if take_rhs then operand else data)"

section \<open>The integer a block denotes\<close>

fun le_val :: "bytes \<Rightarrow> nat" where
  "le_val [] = 0"
| "le_val (b # bs) = unat b + 256 * le_val bs"

definition block_val :: "bool \<Rightarrow> bytes \<Rightarrow> nat" where
  "block_val be bs = le_val (if be then rev bs else bs)"

text \<open>Two's complement.\<close>

definition block_sval :: "bool \<Rightarrow> bytes \<Rightarrow> int" where
  "block_sval be bs =
     (if 2 * block_val be bs \<ge> 256 ^ length bs then int (block_val be bs) - 256 ^ length bs
      else int (block_val be bs))"

lemma byte_less: "unat (b :: 8 word) < 256"
  using unsigned_less [of b] by simp

lemma le_val_snoc: "le_val (bs @ [b]) = le_val bs + 256 ^ length bs * unat b"
  by (induction bs) (simp_all add: algebra_simps)

lemma le_val_less: "le_val bs < 256 ^ length bs"
proof (induction bs)
  case (Cons b bs)
  then show ?case using byte_less [of b] by simp
qed simp

lemma block_val_less: "block_val be bs < 256 ^ length bs"
  using le_val_less [of "rev bs"] le_val_less [of bs] by (simp add: block_val_def)

text \<open>The most significant byte decides; blocks with equal ones compare by the rest.\<close>

lemma snoc_compare:
  assumes "length xs = length ys"
  shows "le_val (xs @ [x]) < le_val (ys @ [y]) \<longleftrightarrow> x < y \<or> x = y \<and> le_val xs < le_val ys"
proof -
  let ?N = "256 ^ length xs :: nat"
  have l: "le_val xs < ?N" "le_val ys < ?N" using le_val_less [of xs] le_val_less [of ys] assms by simp_all
  have "le_val xs + ?N * unat x < le_val ys + ?N * unat y" if "unat x < unat y"
  proof -
    have "?N * unat x + ?N \<le> ?N * unat y" using that by (metis Suc_leI add.commute mult_Suc_right mult_le_mono2)
    then show ?thesis using l by linarith
  qed
  moreover have "\<not> le_val xs + ?N * unat x < le_val ys + ?N * unat y" if "unat y < unat x"
  proof -
    have "?N * unat y + ?N \<le> ?N * unat x" using that by (metis Suc_leI add.commute mult_Suc_right mult_le_mono2)
    then show ?thesis using l by linarith
  qed
  ultimately show ?thesis
    using assms
    by (cases "unat x" "unat y" rule: linorder_cases) (auto simp: le_val_snoc word_less_nat_alt word_unat_eq_iff)
qed

lemma le_val_inj: "length xs = length ys \<Longrightarrow> le_val xs = le_val ys \<Longrightarrow> xs = ys"
proof (induction xs ys rule: list_induct2)
  case (Cons x xs y ys)
  have e: "unat x + 256 * le_val xs = unat y + 256 * le_val ys" using Cons.prems by simp
  then have "(unat x + 256 * le_val xs) mod 256 = (unat y + 256 * le_val ys) mod 256" by simp
  then have "unat x = unat y" using byte_less [of x] byte_less [of y] by simp
  then show ?case using e Cons.IH by (simp add: word_unat_eq_iff)
qed simp

definition sign_of :: "nat \<Rightarrow> nat \<Rightarrow> int" where
  "sign_of m n = (if m < n then -1 else if n < m then 1 else 0)"

lemma apcmp_loop_spec:
  assumes "length lhs = length rhs" "n \<le> length lhs"
  shows "apcmp_loop lhs rhs n = sign_of (le_val (take n lhs)) (le_val (take n rhs))"
  using assms(2)
proof (induction n)
  case (Suc n)
  then have t: "take (Suc n) lhs = take n lhs @ [lhs ! n]" "take (Suc n) rhs = take n rhs @ [rhs ! n]"
    using assms(1) by (simp_all add: take_Suc_conv_app_nth)
  have "length (take n lhs) = length (take n rhs)" using assms(1) by simp
  note c = snoc_compare [OF this] snoc_compare [OF this [symmetric]]
  show ?case using Suc by (auto simp: t sign_of_def c)
qed (simp add: sign_of_def)

lemma memcmp_spec:
  "length lhs = length rhs \<Longrightarrow> memcmp lhs rhs (length lhs) = sign_of (le_val (rev lhs)) (le_val (rev rhs))"
proof (induction lhs rhs rule: list_induct2)
  case (Cons x xs y ys)
  have "length (rev xs) = length (rev ys)" using Cons by simp
  note c = snoc_compare [OF this] snoc_compare [OF this [symmetric]]
  show ?case using Cons by (auto simp: sign_of_def c)
qed (simp add: sign_of_def)

lemma apcmp_spec:
  "length lhs = length rhs \<Longrightarrow> apcmp be lhs rhs (length lhs) = sign_of (block_val be lhs) (block_val be rhs)"
  using apcmp_loop_spec [of lhs rhs "length lhs"] memcmp_spec [of lhs rhs]
  by (simp add: apcmp_def block_val_def)

text \<open>The sign bit.\<close>

lemma byte_sign: "bit (b :: 8 word) 7 \<longleftrightarrow> 128 \<le> unat b"
proof -
  have "bit b 7 \<longleftrightarrow> bit (unat b) 7" by (simp add: bit_unsigned_iff)
  also have "\<dots> \<longleftrightarrow> odd (unat b div 128)" by (simp add: bit_iff_odd)
  also have "\<dots> \<longleftrightarrow> 128 \<le> unat b"
  proof (cases "128 \<le> unat b")
    case True
    then have "unat b div 128 = 1" using byte_less [of b] by (intro div_nat_eqI) simp_all
    then show ?thesis using True by simp
  qed simp
  finally show ?thesis .
qed

lemma le_val_sign:
  "2 * le_val (bs @ [b]) \<ge> 256 ^ length (bs @ [b]) \<longleftrightarrow> bit b 7"
proof -
  let ?N = "256 ^ length bs :: nat"
  have l: "le_val bs < ?N" by (rule le_val_less)
  have "2 * (le_val bs + ?N * unat b) \<ge> 256 * ?N \<longleftrightarrow> 128 \<le> unat b"
  proof
    assume "128 \<le> unat b"
    then have "?N * 128 \<le> ?N * unat b" by (intro mult_le_mono2)
    then have "256 * ?N \<le> 2 * (?N * unat b)" by linarith
    then show "2 * (le_val bs + ?N * unat b) \<ge> 256 * ?N" unfolding distrib_left by linarith
  next
    assume a: "2 * (le_val bs + ?N * unat b) \<ge> 256 * ?N"
    show "128 \<le> unat b"
    proof (rule ccontr)
      assume "\<not> 128 \<le> unat b"
      then have "?N * unat b \<le> ?N * 127" by (intro mult_le_mono2) simp
      then have "2 * (?N * unat b) \<le> 254 * ?N" by simp
      then show False using a l unfolding distrib_left by linarith
    qed
  qed
  then show ?thesis by (simp add: le_val_snoc byte_sign mult.commute)
qed

lemma block_sign:
  assumes "bs \<noteq> []"
  shows "2 * block_val be bs \<ge> 256 ^ length bs \<longleftrightarrow> bit (bs ! (if be then 0 else length bs - 1)) 7"
proof (cases be)
  case True
  obtain x xs where bs: "bs = x # xs" using assms by (cases bs) auto
  then show ?thesis using le_val_sign [of "rev xs" x] True by (simp add: block_val_def)
next
  case False
  have bs: "bs = butlast bs @ [last bs]" using assms by simp
  have "2 * le_val bs \<ge> 256 ^ length bs \<longleftrightarrow> bit (last bs) 7"
    using le_val_sign [of "butlast bs" "last bs"] bs by metis
  then show ?thesis using False assms by (simp add: block_val_def last_conv_nth)
qed

lemma sapcmp_spec:
  assumes "length lhs = length rhs"
  shows "sapcmp be lhs rhs (length lhs) =
    (if block_sval be lhs < block_sval be rhs then -1 else if block_sval be rhs < block_sval be lhs then 1 else 0)"
proof (cases "lhs = []")
  case True
  then show ?thesis using assms by (simp add: sapcmp_def block_sval_def block_val_def)
next
  case False
  then have r: "rhs \<noteq> []" using assms by auto
  note s = block_sign [OF False, of be] block_sign [OF r, of be]
  define L R N where "L = int (block_val be lhs)" "R = int (block_val be rhs)" "N = int (256 ^ length rhs)"
  have b: "0 \<le> L" "L < N" "0 \<le> R" "R < N"
    using block_val_less [of be lhs] block_val_less [of be rhs] assms by (simp_all add: L_R_N_def del: of_nat_power)
  have h: "2 * block_val be lhs \<ge> 256 ^ length lhs \<longleftrightarrow> N \<le> 2 * L" "2 * block_val be rhs \<ge> 256 ^ length rhs \<longleftrightarrow> N \<le> 2 * R"
    unfolding L_R_N_def assms by linarith+
  have "sapcmp be lhs rhs (length lhs) =
      (if (N \<le> 2 * L) \<noteq> (N \<le> 2 * R) then (if N \<le> 2 * L then -1 else 1) else if L < R then -1 else if R < L then 1 else 0)"
  proof -
    have "sapcmp be lhs rhs (length lhs) =
      (if (2 * block_val be lhs \<ge> 256 ^ length lhs) \<noteq> (2 * block_val be rhs \<ge> 256 ^ length rhs)
       then (if 2 * block_val be lhs \<ge> 256 ^ length lhs then -1 else 1)
       else sign_of (block_val be lhs) (block_val be rhs))"
      unfolding s apcmp_spec [OF assms, of be, symmetric] using False r assms by (simp add: sapcmp_def Let_def)
    then show ?thesis unfolding h by (simp add: sign_of_def L_R_N_def)
  qed
  moreover have "block_sval be lhs = (if N \<le> 2 * L then L - N else L)" "block_sval be rhs = (if N \<le> 2 * R then R - N else R)"
    unfolding block_sval_def h by (simp_all add: L_R_N_def assms)
  ultimately show ?thesis using b by auto
qed

section \<open>Addition and subtraction\<close>

text \<open>One byte with carry: the low byte and the carry are remainder and floor of the sum by 256.\<close>

lemma byte_sum_int:
  assumes "sint c \<in> {-1, 0, 1}" "s = (if add then uint i + uint a else uint i - uint a) + sint c"
  shows "uint (ucast (byte_sum add i a c) :: 8 word) = s mod 256"
    "sint (ucast (drop_bit 8 (byte_sum add i a c)) :: 8 word) = s div 256"
proof -
  have r: "0 \<le> uint i" "uint i < 256" "0 \<le> uint a" "uint a < 256"
    using unsigned_less [of i] unsigned_less [of a] by simp_all
  have "byte_sum add i a c = word_of_int s"
    unfolding byte_sum_def assms(2)
    by (cases add) (simp_all only: if_True if_False ucast_eq scast_eq of_int_add of_int_diff)
  then have u: "uint (byte_sum add i a c) = s mod 65536" by (simp add: uint_word_of_int)
  have "uint (ucast (byte_sum add i a c) :: 8 word) = s mod 65536 mod 256"
    by (simp add: unsigned_ucast_eq take_bit_eq_mod u)
  then show "uint (ucast (byte_sum add i a c) :: 8 word) = s mod 256" by (simp add: mod_mod_cancel)
  have d: "uint (ucast (drop_bit 8 (byte_sum add i a c)) :: 8 word) = s mod 65536 div 256"
  proof -
    have "drop_bit 8 (byte_sum add i a c) = byte_sum add i a c div 256" by (simp add: drop_bit_eq_div)
    then have "uint (drop_bit 8 (byte_sum add i a c)) = s mod 65536 div 256" by (simp only: uint_div u) simp
    moreover have "s mod 65536 div 256 < 256" by (simp add: div_less_iff_less_mult)
    ultimately show ?thesis by (simp only: unsigned_ucast_eq take_bit_eq_mod) simp
  qed
  have "s mod 65536 div 256 = (s div 256) mod 256"
    using zmod_zmult2_eq [of 256 s 256] by simp
  then have v: "uint (ucast (drop_bit 8 (byte_sum add i a c)) :: 8 word) = (s div 256) mod 256" using d by simp
  have "-1 \<le> sint c" "sint c \<le> 1" using assms(1) by auto
  then have "- 256 \<le> s" "s < 512" unfolding assms(2) using r by (cases add; simp; linarith)+
  then have "s div 256 \<in> {-1, 0, 1}" by auto
  then show "sint (ucast (drop_bit 8 (byte_sum add i a c)) :: 8 word) = s div 256"
    unfolding sint_uint v by auto
qed

lemma sum_loop_spec:
  assumes "length inp = length argp" "sint c \<in> {-1, 0, 1}"
  shows "length (sum_loop add inp argp c) = length inp \<and>
    int (le_val (sum_loop add inp argp c)) =
      ((if add then int (le_val inp) + int (le_val argp) else int (le_val inp) - int (le_val argp)) + sint c)
        mod 256 ^ length inp"
  using assms
proof (induction inp argp arbitrary: c rule: list_induct2)
  case (Cons i inp a argp)
  define s where "s = (if add then uint i + uint a else uint i - uint a) + sint c"
  define S where "S = (if add then int (le_val inp) + int (le_val argp) else int (le_val inp) - int (le_val argp))"
  let ?w = "byte_sum add i a c"
  note B = byte_sum_int [OF Cons.prems s_def]
  have r: "0 \<le> uint i" "uint i < 256" "0 \<le> uint a" "uint a < 256"
    using unsigned_less [of i] unsigned_less [of a] by simp_all
  have "-1 \<le> sint c" "sint c \<le> 1" using Cons.prems by auto
  then have "- 256 \<le> s" "s < 512" unfolding s_def using r by (cases add; simp; linarith)+
  then have "sint (ucast (drop_bit 8 ?w) :: 8 word) \<in> {-1, 0, 1}" unfolding B(2) by auto
  note IH = Cons.IH [OF this, folded S_def, unfolded B(2)]
  have b: "int (unat (ucast ?w :: 8 word)) = s mod 256" using B(1) by simp
  have "int (le_val (sum_loop add (i # inp) (a # argp) c)) =
      s mod 256 + 256 * ((S + s div 256) mod 256 ^ length inp)"
    using IH b by (simp add: Let_def)
  also have "\<dots> = (256 * (S + s div 256) + s mod 256) mod (256 * 256 ^ length inp)"
    using zmod_zmult2_eq [of "256 ^ length inp" "256 * (S + s div 256) + s mod 256" 256] by simp
  also have "256 * (S + s div 256) + s mod 256 = 256 * S + s" by (simp add: algebra_simps)
  also have "256 * S + s =
      (if add then int (le_val (i # inp)) + int (le_val (a # argp)) else int (le_val (i # inp)) - int (le_val (a # argp))) + sint c"
    by (simp add: S_def s_def)
  finally show ?case using IH by (simp add: Let_def)
qed simp

lemma apply_sum:
  assumes "length operand = length data"
  shows "int (block_val be (apply_to be ADD operand data)) =
      (int (block_val be data) + int (block_val be operand)) mod 256 ^ length data"
    "int (block_val be (apply_to be SUB operand data)) =
      (int (block_val be data) - int (block_val be operand)) mod 256 ^ length data"
  using sum_loop_spec [of data operand 0] sum_loop_spec [of "rev data" "rev operand" 0] assms
  by (simp_all add: apply_to_def block_val_def)

section \<open>Bitwise operations\<close>

lemma bit_le_val: "bit (le_val bs) k \<longleftrightarrow> k < 8 * length bs \<and> bit (bs ! (k div 8)) (k mod 8)"
proof (induction bs arbitrary: k)
  case (Cons b bs)
  have "le_val (b # bs) = unat b OR push_bit 8 (le_val bs)"
  proof -
    have "unat b AND push_bit 8 (le_val bs) = 0"
    proof (rule bit_eqI)
      fix m show "bit (unat b AND push_bit 8 (le_val bs)) m \<longleftrightarrow> bit (0 :: nat) m"
        by (auto simp: bit_simps dest: bit_imp_le_length)
    qed
    then have "unat b + push_bit 8 (le_val bs) = unat b OR push_bit 8 (le_val bs)"
      by (rule disjunctive_add_eq_or)
    then show ?thesis by (simp add: push_bit_eq_mult mult.commute)
  qed
  then have "bit (le_val (b # bs)) k \<longleftrightarrow> (if k < 8 then bit b k else bit (le_val bs) (k - 8))"
    by (auto simp: bit_simps dest: bit_imp_le_length)
  moreover have "(k - 8) div 8 = k div 8 - 1" "(k - 8) mod 8 = k mod 8" "k div 8 \<noteq> 0" if "\<not> k < 8"
    using that by (auto simp: le_mod_geq le_div_geq)
  ultimately show ?case using Cons.IH [of "k - 8"] by (cases "k < 8") (auto simp: nth_Cons')
qed simp

lemma apply_bitwise:
  assumes "length operand = length data" "kind \<in> {AND_k, NAND, OR_k, XOR_k}"
  shows "bit (block_val be (apply_to be kind operand data)) k \<longleftrightarrow>
    k < 8 * length data \<and>
    (case kind of
       AND_k \<Rightarrow> bit (block_val be data) k \<and> bit (block_val be operand) k
     | NAND \<Rightarrow> \<not> (bit (block_val be data) k \<and> bit (block_val be operand) k)
     | OR_k \<Rightarrow> bit (block_val be data) k \<or> bit (block_val be operand) k
     | _ \<Rightarrow> bit (block_val be data) k \<noteq> bit (block_val be operand) k)"
proof -
  have a: "apply_to be kind operand data = map2 (bitwise kind) data operand"
    using assms(2) by (auto simp: apply_to_def)
  have "k div 8 < n" if "k < 8 * n" for n :: nat using that by (simp add: less_mult_imp_div_less mult.commute)
  moreover have "k mod 8 < 8" by simp
  ultimately show ?thesis
    using assms by (auto simp: a block_val_def bit_le_val rev_map zip_rev bit_simps rev_nth)
qed

section \<open>Properties\<close>

text \<open>
  C32. The byte-wise loops of \<^verbatim>\<open>RmwAction::apply_to\<close> compute machine arithmetic: with the carry kept in
  an \<^verbatim>\<open>int8_t\<close>, ADD and SUB are addition and subtraction modulo two to the number of bits, MAX and
  MIN take the larger and smaller two's complement value, UMAX and UMIN the unsigned one, and XCHG
  stores the operand; on hosts of either byte order.
\<close>

theorem rmw_apply_correct:
  assumes "length operand = length data"
  shows "int (block_val be (apply_to be ADD operand data)) =
      (int (block_val be data) + int (block_val be operand)) mod 256 ^ length data \<and>
    int (block_val be (apply_to be SUB operand data)) =
      (int (block_val be data) - int (block_val be operand)) mod 256 ^ length data \<and>
    block_sval be (apply_to be MAX_k operand data) = max (block_sval be data) (block_sval be operand) \<and>
    block_sval be (apply_to be MIN_k operand data) = min (block_sval be data) (block_sval be operand) \<and>
    block_val be (apply_to be UMAX operand data) = max (block_val be data) (block_val be operand) \<and>
    block_val be (apply_to be UMIN operand data) = min (block_val be data) (block_val be operand) \<and>
    apply_to be XCHG operand data = operand"
  using apply_sum [OF assms] sapcmp_spec [OF assms [symmetric]] apcmp_spec [OF assms [symmetric]]
  by (auto simp: apply_to_def Let_def sign_of_def max_def min_def)

theorem rmw_apply_correct_witness:
  "int (block_val False (apply_to False ADD [1, 1] [255, 0])) = (255 + 257) mod 256 ^ 2 \<and>
   int (block_val False (apply_to False SUB [1, 0] [0, 1])) = 255"
proof -
  have "length [1, 1 :: 8 word] = length [255, 0 :: 8 word]" "length [1, 0 :: 8 word] = length [0, 1 :: 8 word]" by simp_all
  then have "int (block_val False (apply_to False ADD [1, 1] [255, 0])) =
      (int (block_val False [255, 0]) + int (block_val False [1, 1])) mod 256 ^ length [255, 0 :: 8 word]"
    "int (block_val False (apply_to False SUB [1, 0] [0, 1])) =
      (int (block_val False [0, 1]) - int (block_val False [1, 0])) mod 256 ^ length [0, 1 :: 8 word]"
    using rmw_apply_correct by blast+
  then show ?thesis by (simp add: block_val_def)
qed

text \<open>
  AND, NAND, OR and XOR act bit by bit on the integers that the blocks denote.
\<close>

lemma rmw_bitwise_correct:
  assumes "length operand = length data" "kind \<in> {AND_k, NAND, OR_k, XOR_k}"
  shows "bit (block_val be (apply_to be kind operand data)) k \<longleftrightarrow>
    k < 8 * length data \<and>
    (case kind of
       AND_k \<Rightarrow> bit (block_val be data) k \<and> bit (block_val be operand) k
     | NAND \<Rightarrow> \<not> (bit (block_val be data) k \<and> bit (block_val be operand) k)
     | OR_k \<Rightarrow> bit (block_val be data) k \<or> bit (block_val be operand) k
     | _ \<Rightarrow> bit (block_val be data) k \<noteq> bit (block_val be operand) k)"
  by (rule apply_bitwise [OF assms])

text \<open>
  C33. An await condition holds exactly when the integer comparison its operator names holds between
  the data and the operand, signed for the S operators and unsigned for the U operators.
\<close>

theorem await_satisfied_correct:
  assumes "length operand = length data"
  shows "satisfied_by be opr operand data (length data) \<longleftrightarrow>
    (case opr of
       None_op \<Rightarrow> False
     | UGT \<Rightarrow> block_val be data > block_val be operand
     | EQ \<Rightarrow> data = operand
     | UGE \<Rightarrow> block_val be data \<ge> block_val be operand
     | ULT \<Rightarrow> block_val be data < block_val be operand
     | NE \<Rightarrow> data \<noteq> operand
     | ULE \<Rightarrow> block_val be data \<le> block_val be operand
     | SGT \<Rightarrow> block_sval be data > block_sval be operand
     | SGE \<Rightarrow> block_sval be data \<ge> block_sval be operand
     | SLT \<Rightarrow> block_sval be data < block_sval be operand
     | SLE \<Rightarrow> block_sval be data \<le> block_sval be operand)"
proof -
  have eq: "block_val be data = block_val be operand \<longleftrightarrow> data = operand"
    using le_val_inj [of data operand] le_val_inj [of "rev data" "rev operand"] assms
    by (auto simp: block_val_def)
  have cs: "sapcmp be data operand (length data) =
      (if block_sval be data < block_sval be operand then -1 else if block_sval be operand < block_sval be data then 1 else 0)"
    "apcmp be data operand (length data) = sign_of (block_val be data) (block_val be operand)"
    using sapcmp_spec [OF assms [symmetric]] apcmp_spec [OF assms [symmetric]] by simp_all
  have sh: "drop_bit 3 (op_bits opr) AND 1 \<noteq> 0 \<longleftrightarrow> opr \<in> {SGT, SGE, SLT, SLE}"
    "drop_bit 2 (op_bits opr) AND 1 \<noteq> 0 \<longleftrightarrow> opr \<in> {ULT, NE, ULE, SLT, SLE}"
    "drop_bit 1 (op_bits opr) AND 1 \<noteq> 0 \<longleftrightarrow> opr \<in> {EQ, UGE, ULE, SGE, SLE}"
    "drop_bit 0 (op_bits opr) AND 1 \<noteq> 0 \<longleftrightarrow> opr \<in> {UGT, UGE, NE, SGT, SGE}"
    by (cases opr; simp)+
  show ?thesis
    unfolding satisfied_by_def Let_def cs sh(1)
    by (cases opr; use eq sh in \<open>auto simp: sign_of_def\<close>)
qed

theorem await_satisfied_correct_witness:
  "satisfied_by False SLT [0, 0] [255, 255] 2 \<longleftrightarrow> block_sval False [255, 255] < block_sval False [0, 0]"
proof -
  have "length [0, 0 :: 8 word] = length [255, 255 :: 8 word]" by simp
  from await_satisfied_correct [OF this, of False SLT] show ?thesis by (simp add: numeral_2_eq_2)
qed

end
