(* ===== verification/SymEvs.thy ===== *)
theory SymEvs
  imports SymAddrs Rmw
begin

text \<open>
  Symbolic events, \<^verbatim>\<open>src/src/SymEv.h\<close> and \<^verbatim>\<open>src/src/SymEv.cpp\<close>: the labels of the events of a trace.
  The union \<^verbatim>\<open>arg\<close> is a datatype, reading a member that was not written is undefined and gives
  \<open>None\<close>, as do failed assertions; shared blocks of bytes are optional lists.
\<close>

section \<open>Events\<close>

datatype sym_kind =
  K_NONE | NONDET | LOAD | LOAD_AWAIT | STORE | FULLMEM | RMW | XCHG_AWAIT | CMPXHG | CMPXHGFAIL
  | M_INIT | M_LOCK | M_TRYLOCK | M_TRYLOCK_FAIL | M_UNLOCK | M_DELETE
  | C_INIT | C_SIGNAL | C_BRDCST | C_WAIT | C_AWAKE | C_DELETE | SPAWN | JOIN | UNOBS_STORE

datatype sym_arg = Arg_unset | Arg_addr symaddrsize | Arg_num int

datatype sym_arg2 = Arg2_unset | Arg2_rmw rmw_kind | Arg2_await await_op

record symev =
  ev_kind :: sym_kind
  ev_arg :: sym_arg
  ev_arg2 :: sym_arg2
  ev_rmw_result_used :: "bool option"
  ev_expected :: "bytes option"
  ev_written :: "bytes option"

text \<open>
  The private constructors; the last two assert \<^verbatim>\<open>has_data()\<close>, which for the kinds they are called
  with is that the written block is not null.
\<close>

definition mk_ev :: "sym_kind \<Rightarrow> sym_arg \<Rightarrow> symev" where
  "mk_ev k a = \<lparr>ev_kind = k, ev_arg = a, ev_arg2 = Arg2_unset, ev_rmw_result_used = None,
     ev_expected = None, ev_written = None\<rparr>"

definition mk_ev_cond :: "sym_kind \<Rightarrow> sym_arg \<Rightarrow> await_cond \<Rightarrow> symev" where
  "mk_ev_cond k a cond = (mk_ev k a)\<lparr>ev_arg2 := Arg2_await (ac_op cond), ev_expected := ac_operand cond\<rparr>"

definition mk_ev_data :: "sym_kind \<Rightarrow> symdata \<Rightarrow> symev" where
  "mk_ev_data k d = (mk_ev k (Arg_addr (sd_ref d)))\<lparr>ev_written := sd_block d\<rparr>"

definition mk_ev_data_expected :: "sym_kind \<Rightarrow> symdata \<Rightarrow> bytes option \<Rightarrow> symev" where
  "mk_ev_data_expected k d expected = (mk_ev_data k d)\<lparr>ev_expected := expected\<rparr>"

fun kind_writes :: "sym_kind \<Rightarrow> bool" where
  "kind_writes STORE = True"
| "kind_writes UNOBS_STORE = True"
| "kind_writes RMW = True"
| "kind_writes XCHG_AWAIT = True"
| "kind_writes CMPXHG = True"
| "kind_writes CMPXHGFAIL = True"
| "kind_writes _ = False"

definition has_data :: "symev \<Rightarrow> bool" where
  "has_data e = (kind_writes (ev_kind e) \<and> ev_written e \<noteq> None)"

definition mk_ev_rmw :: "sym_kind \<Rightarrow> symdata \<Rightarrow> rmw_kind \<Rightarrow> bytes option \<Rightarrow> bool \<Rightarrow> symev option" where
  "mk_ev_rmw k d rk operand used =
     (let e = (mk_ev_data_expected k d operand)\<lparr>ev_arg2 := Arg2_rmw rk, ev_rmw_result_used := Some used\<rparr>
      in if has_data e then Some e else None)"

definition mk_ev_data_cond :: "sym_kind \<Rightarrow> symdata \<Rightarrow> await_cond \<Rightarrow> symev option" where
  "mk_ev_data_cond k d cond =
     (let e = (mk_ev_data_expected k d (ac_operand cond))\<lparr>ev_arg2 := Arg2_await (ac_op cond)\<rparr>
      in if has_data e then Some e else None)"

text \<open>The public ones.\<close>

definition ev_None :: symev where "ev_None = mk_ev K_NONE Arg_unset"
definition ev_Nondet :: "int \<Rightarrow> symev" where "ev_Nondet count = mk_ev NONDET (Arg_num count)"
definition ev_Load :: "symaddrsize \<Rightarrow> symev" where "ev_Load a = mk_ev LOAD (Arg_addr a)"
definition ev_LoadAwait :: "symaddrsize \<Rightarrow> await_cond \<Rightarrow> symev" where
  "ev_LoadAwait a cond = mk_ev_cond LOAD_AWAIT (Arg_addr a) cond"
definition ev_Store :: "symdata \<Rightarrow> symev" where "ev_Store d = mk_ev_data STORE d"
definition ev_Rmw :: "symdata \<Rightarrow> rmw_kind \<Rightarrow> bytes option \<Rightarrow> bool \<Rightarrow> symev option" where
  "ev_Rmw d rk operand used = (if sd_block d = None then None else mk_ev_rmw RMW d rk operand used)"
definition ev_XchgAwait :: "symdata \<Rightarrow> await_cond \<Rightarrow> symev option" where
  "ev_XchgAwait d cond = mk_ev_data_cond XCHG_AWAIT d cond"
definition ev_CmpXhg :: "symdata \<Rightarrow> bytes option \<Rightarrow> symev" where
  "ev_CmpXhg d expected = mk_ev_data_expected CMPXHG d expected"
definition ev_CmpXhgFail :: "symdata \<Rightarrow> bytes option \<Rightarrow> symev" where
  "ev_CmpXhgFail d expected = mk_ev_data_expected CMPXHGFAIL d expected"
definition ev_Fullmem :: symev where "ev_Fullmem = mk_ev FULLMEM Arg_unset"
definition ev_MInit :: "symaddrsize \<Rightarrow> symev" where "ev_MInit a = mk_ev M_INIT (Arg_addr a)"
definition ev_MLock :: "symaddrsize \<Rightarrow> symev" where "ev_MLock a = mk_ev M_LOCK (Arg_addr a)"
definition ev_MTryLock :: "symaddrsize \<Rightarrow> symev" where "ev_MTryLock a = mk_ev M_TRYLOCK (Arg_addr a)"
definition ev_MTryLockFail :: "symaddrsize \<Rightarrow> symev" where "ev_MTryLockFail a = mk_ev M_TRYLOCK_FAIL (Arg_addr a)"
definition ev_MUnlock :: "symaddrsize \<Rightarrow> symev" where "ev_MUnlock a = mk_ev M_UNLOCK (Arg_addr a)"
definition ev_MDelete :: "symaddrsize \<Rightarrow> symev" where "ev_MDelete a = mk_ev M_DELETE (Arg_addr a)"
definition ev_CInit :: "symaddrsize \<Rightarrow> symev" where "ev_CInit a = mk_ev C_INIT (Arg_addr a)"
definition ev_CSignal :: "symaddrsize \<Rightarrow> symev" where "ev_CSignal a = mk_ev C_SIGNAL (Arg_addr a)"
definition ev_CBrdcst :: "symaddrsize \<Rightarrow> symev" where "ev_CBrdcst a = mk_ev C_BRDCST (Arg_addr a)"
definition ev_CWait :: "symaddrsize \<Rightarrow> symev" where "ev_CWait a = mk_ev C_WAIT (Arg_addr a)"
definition ev_CAwake :: "symaddrsize \<Rightarrow> symev" where "ev_CAwake a = mk_ev C_AWAKE (Arg_addr a)"
definition ev_CDelete :: "symaddrsize \<Rightarrow> symev" where "ev_CDelete a = mk_ev C_DELETE (Arg_addr a)"
definition ev_Spawn :: "int \<Rightarrow> symev" where "ev_Spawn proc = mk_ev SPAWN (Arg_num proc)"
definition ev_Join :: "int \<Rightarrow> symev" where "ev_Join proc = mk_ev JOIN (Arg_num proc)"
definition ev_UnobsStore :: "symdata \<Rightarrow> symev" where "ev_UnobsStore d = mk_ev_data UNOBS_STORE d"

section \<open>Queries\<close>

fun kind_has_addr :: "sym_kind \<Rightarrow> bool" where
  "kind_has_addr K_NONE = False"
| "kind_has_addr FULLMEM = False"
| "kind_has_addr NONDET = False"
| "kind_has_addr SPAWN = False"
| "kind_has_addr JOIN = False"
| "kind_has_addr _ = True"

fun kind_has_num :: "sym_kind \<Rightarrow> bool" where
  "kind_has_num SPAWN = True"
| "kind_has_num JOIN = True"
| "kind_has_num NONDET = True"
| "kind_has_num _ = False"

definition has_addr :: "symev \<Rightarrow> bool" where "has_addr e = kind_has_addr (ev_kind e)"
definition has_num :: "symev \<Rightarrow> bool" where "has_num e = kind_has_num (ev_kind e)"
definition has_expected :: "symev \<Rightarrow> bool" where
  "has_expected e = ((ev_kind e = CMPXHG \<or> ev_kind e = CMPXHGFAIL) \<and> ev_written e \<noteq> None)"
definition has_rmwaction :: "symev \<Rightarrow> bool" where "has_rmwaction e = (ev_kind e = RMW)"
definition has_cond :: "symev \<Rightarrow> bool" where
  "has_cond e = (ev_kind e = LOAD_AWAIT \<or> ev_kind e = XCHG_AWAIT)"
definition ev_empty :: "symev \<Rightarrow> bool" where "ev_empty e = (ev_kind e = K_NONE)"

text \<open>Members of the unions.\<close>

fun arg_addr :: "sym_arg \<Rightarrow> symaddrsize option" where
  "arg_addr (Arg_addr a) = Some a"
| "arg_addr _ = None"

fun arg_num :: "sym_arg \<Rightarrow> int option" where
  "arg_num (Arg_num n) = Some n"
| "arg_num _ = None"

fun arg2_rmw :: "sym_arg2 \<Rightarrow> rmw_kind option" where
  "arg2_rmw (Arg2_rmw k) = Some k"
| "arg2_rmw _ = None"

fun arg2_await :: "sym_arg2 \<Rightarrow> await_op option" where
  "arg2_await (Arg2_await opr) = Some opr"
| "arg2_await _ = None"

definition ev_addr :: "symev \<Rightarrow> symaddrsize option" where
  "ev_addr e = (if has_addr e then arg_addr (ev_arg e) else None)"
definition ev_num :: "symev \<Rightarrow> int option" where
  "ev_num e = (if has_num e then arg_num (ev_arg e) else None)"
definition ev_data :: "symev \<Rightarrow> symdata option" where
  "ev_data e = (if has_data e then
     (case (arg_addr (ev_arg e), ev_written e) of
        (Some a, Some b) \<Rightarrow> Some \<lparr>sd_ref = a, sd_block = Some b\<rparr> | _ \<Rightarrow> None) else None)"

text \<open>The block of \<^verbatim>\<open>expected()\<close> may be null, as \<^verbatim>\<open>has_expected()\<close> tests the written one.\<close>

definition ev_expected_data :: "symev \<Rightarrow> symdata option" where
  "ev_expected_data e =
     (if has_expected e then map_option (\<lambda>a. \<lparr>sd_ref = a, sd_block = ev_expected e\<rparr>) (arg_addr (ev_arg e)) else None)"
definition ev_rmwaction :: "symev \<Rightarrow> (rmw_kind \<times> bytes \<times> bool) option" where
  "ev_rmwaction e = (if has_rmwaction e then
     (case (arg2_rmw (ev_arg2 e), ev_expected e, ev_rmw_result_used e) of
        (Some k, Some b, Some u) \<Rightarrow> Some (k, b, u) | _ \<Rightarrow> None) else None)"
definition ev_cond :: "symev \<Rightarrow> await_cond option" where
  "ev_cond e = (if has_cond e then
     (case (arg2_await (ev_arg2 e), ev_expected e) of (Some opr, Some b) \<Rightarrow> AwaitCond opr (Some b) | _ \<Rightarrow> None) else None)"

section \<open>Comparison\<close>

text \<open>Comparison of two members of a union, and a sequence of tests of which a failed one returns.\<close>

fun same_member :: "'a option \<Rightarrow> 'a option \<Rightarrow> bool option" where
  "same_member (Some x) (Some y) = Some (x = y)"
| "same_member _ _ = None"

fun and_then :: "bool option \<Rightarrow> bool option \<Rightarrow> bool option" where
  "and_then None b = None"
| "and_then (Some False) b = Some False"
| "and_then (Some True) b = b"

definition kinds_compatible :: "sym_kind \<Rightarrow> sym_kind \<Rightarrow> bool" where
  "kinds_compatible k l =
     (k = l \<or> (k = STORE \<and> l = UNOBS_STORE) \<or> (k = M_TRYLOCK \<and> l = M_TRYLOCK_FAIL) \<or>
      (k = M_TRYLOCK_FAIL \<and> l = M_TRYLOCK))"

text \<open>\<^verbatim>\<open>if (_expected) assert(other._expected)\<close>\<close>

definition expected_assert :: "symev \<Rightarrow> symev \<Rightarrow> bool option" where
  "expected_assert e other = (if ev_expected e \<noteq> None \<and> ev_expected other = None then None else Some True)"

definition is_compatible_with :: "symev \<Rightarrow> symev \<Rightarrow> bool option" where
  "is_compatible_with e other =
     (if \<not> kinds_compatible (ev_kind e) (ev_kind other) then Some False
      else and_then
        (if ev_kind e = RMW
         then and_then (same_member (arg2_rmw (ev_arg2 e)) (arg2_rmw (ev_arg2 other))) (expected_assert e other)
         else if ev_kind e = LOAD_AWAIT \<or> ev_kind e = XCHG_AWAIT
         then and_then (same_member (arg2_await (ev_arg2 e)) (arg2_await (ev_arg2 other))) (expected_assert e other)
         else Some True)
        (if kind_has_addr (ev_kind e) then same_member (arg_addr (ev_arg e)) (arg_addr (ev_arg other))
         else if kind_has_num (ev_kind e) then same_member (arg_num (ev_arg e)) (arg_num (ev_arg other))
         else Some True))"


section \<open>Changes\<close>


definition set_observed :: "symev \<Rightarrow> bool \<Rightarrow> symev option" where
  "set_observed e observed =
     (if observed then
        (if ev_kind e = UNOBS_STORE then Some (e\<lparr>ev_kind := STORE\<rparr>)
         else if ev_kind e = STORE then Some e else None)
      else
        (if ev_kind e = STORE then Some (e\<lparr>ev_kind := UNOBS_STORE\<rparr>)
         else if ev_kind e = UNOBS_STORE then Some e else None))"

section \<open>Printing\<close>

definition hex_digit :: "nat \<Rightarrow> char" where
  "hex_digit d = ''0123456789abcdef'' ! d"

text \<open>An \<^verbatim>\<open>int\<close> below 256 under \<^verbatim>\<open>std::hex\<close>, and with \<^verbatim>\<open>width(2)\<close> and \<^verbatim>\<open>fill('0')\<close>.\<close>

definition hex_byte :: "8 word \<Rightarrow> string" where
  "hex_byte b = (if unat b < 16 then [hex_digit (unat b)] else [hex_digit (unat b div 16), hex_digit (unat b mod 16)])"

definition hex_byte2 :: "8 word \<Rightarrow> string" where
  "hex_byte2 b = (if unat b < 16 then ''0'' @ hex_byte b else hex_byte b)"

fun skip_zeros :: "bytes \<Rightarrow> nat \<Rightarrow> nat" where
  "skip_zeros ptr 0 = 0"
| "skip_zeros ptr (Suc i) = (if ptr ! Suc i = 0 then skip_zeros ptr i else Suc i)"

text \<open>
  The bytes from the given index down to 0. The width set on the stream is reset by the first
  output, so only the first of these bytes is padded.
\<close>

fun print_rest :: "bytes \<Rightarrow> bool \<Rightarrow> nat \<Rightarrow> string" where
  "print_rest ptr width 0 = []"
| "print_rest ptr width (Suc i) = (if width then hex_byte2 (ptr ! i) else hex_byte (ptr ! i)) @ print_rest ptr False i"

text \<open>For a size of 0 the code reads before the block, for one above its length behind it.\<close>

definition block_to_string :: "bytes option \<Rightarrow> nat \<Rightarrow> string option" where
  "block_to_string blk sz =
     (case blk of
        None \<Rightarrow> Some ''-''
      | Some ptr \<Rightarrow>
          if sz = 0 \<or> length ptr < sz then None
          else let i = skip_zeros ptr (sz - 1)
               in Some (''0x'' @ hex_byte (ptr ! i) @ print_rest ptr True i))"

fun cat_opt :: "string option list \<Rightarrow> string option" where
  "cat_opt [] = Some ''''"
| "cat_opt (None # ss) = None"
| "cat_opt (Some s # ss) = map_option (\<lambda>t. s @ t) (cat_opt ss)"

definition ev_name :: "sym_kind \<Rightarrow> string" where
  "ev_name k = (case k of
     K_NONE \<Rightarrow> ''None('' | NONDET \<Rightarrow> ''Nondet('' | LOAD \<Rightarrow> ''Load('' | LOAD_AWAIT \<Rightarrow> ''LoadAwait(''
   | STORE \<Rightarrow> ''Store('' | FULLMEM \<Rightarrow> ''Fullmem('' | M_INIT \<Rightarrow> ''MInit('' | M_LOCK \<Rightarrow> ''MLock(''
   | M_TRYLOCK \<Rightarrow> ''MTryLock('' | M_TRYLOCK_FAIL \<Rightarrow> ''MTryLockFail('' | M_UNLOCK \<Rightarrow> ''MUnlock(''
   | M_DELETE \<Rightarrow> ''MDelete('' | C_INIT \<Rightarrow> ''CInit('' | C_SIGNAL \<Rightarrow> ''CSignal('' | C_BRDCST \<Rightarrow> ''CBrdcst(''
   | C_WAIT \<Rightarrow> ''CWait('' | C_AWAKE \<Rightarrow> ''CAwake('' | C_DELETE \<Rightarrow> ''CDelete('' | SPAWN \<Rightarrow> ''Spawn('' | JOIN \<Rightarrow> ''Join(''
   | UNOBS_STORE \<Rightarrow> ''UnobsStore('' | RMW \<Rightarrow> ''Rmw('' | XCHG_AWAIT \<Rightarrow> ''XchgAwait('' | CMPXHG \<Rightarrow> ''CmpXhg(''
   | CMPXHGFAIL \<Rightarrow> ''CmpXhgFail('')"

definition ev_args_string :: "(int \<Rightarrow> string) \<Rightarrow> symev \<Rightarrow> string option" where
  "ev_args_string pid_str e =
     (let addr = map_option (as_to_string pid_str) (arg_addr (ev_arg e));
          sz = (case arg_addr (ev_arg e) of None \<Rightarrow> 0 | Some a \<Rightarrow> unat (as_size a));
          written = block_to_string (ev_written e) sz;
          expected = block_to_string (ev_expected e) sz;
          await = Option.bind (arg2_await (ev_arg2 e)) await_name;
          rmw = map_option rmw_name (arg2_rmw (ev_arg2 e));
          k = ev_kind e
      in if k = K_NONE \<or> k = FULLMEM then Some ''''
         else if k = NONDET then map_option show_int (arg_num (ev_arg e))
         else if k = SPAWN \<or> k = JOIN then map_option pid_str (arg_num (ev_arg e))
         else if k = LOAD_AWAIT then cat_opt [addr, Some '', '', await, Some '' '', expected]
         else if k = STORE \<or> k = UNOBS_STORE then cat_opt [addr, Some '','', written]
         else if k = RMW then cat_opt [addr, Some '','', written, Some '','', rmw, Some '' '', expected]
         else if k = XCHG_AWAIT then cat_opt [addr, Some '','', written, Some '', '', await, Some '' '', expected]
         else if k = CMPXHG \<or> k = CMPXHGFAIL then cat_opt [addr, Some '','', expected, Some '','', written]
         else addr)"

definition ev_to_string :: "(int \<Rightarrow> string) \<Rightarrow> symev \<Rightarrow> string option" where
  "ev_to_string pid_str e = cat_opt [Some (ev_name (ev_kind e)), ev_args_string pid_str e, Some '')'']"

section \<open>Well-formed events\<close>

text \<open>The members of the unions that the kind of an event calls for have been written.\<close>

definition ev_wf :: "symev \<Rightarrow> bool" where
  "ev_wf e \<longleftrightarrow>
     (has_addr e \<longrightarrow> arg_addr (ev_arg e) \<noteq> None) \<and> (has_num e \<longrightarrow> arg_num (ev_arg e) \<noteq> None) \<and>
     (has_rmwaction e \<longrightarrow> arg2_rmw (ev_arg2 e) \<noteq> None) \<and> (has_cond e \<longrightarrow> arg2_await (ev_arg2 e) \<noteq> None)"

lemmas mk_ev_defs = mk_ev_def mk_ev_cond_def mk_ev_data_def mk_ev_data_expected_def mk_ev_rmw_def mk_ev_data_cond_def

lemmas ev_constructor_defs =
  ev_None_def ev_Nondet_def ev_Load_def ev_LoadAwait_def ev_Store_def ev_Rmw_def ev_XchgAwait_def ev_CmpXhg_def
  ev_CmpXhgFail_def ev_Fullmem_def ev_MInit_def ev_MLock_def ev_MTryLock_def ev_MTryLockFail_def ev_MUnlock_def
  ev_MDelete_def ev_CInit_def ev_CSignal_def ev_CBrdcst_def ev_CWait_def ev_CAwake_def ev_CDelete_def ev_Spawn_def
  ev_Join_def ev_UnobsStore_def

lemmas ev_query_defs =
  has_addr_def has_num_def has_data_def has_expected_def has_rmwaction_def has_cond_def ev_addr_def ev_num_def
  ev_data_def ev_expected_data_def ev_rmwaction_def ev_cond_def









section \<open>Hexadecimal numbers\<close>

definition hex_index :: "char \<Rightarrow> nat" where
  "hex_index c = (let n = of_char c in if n \<ge> 97 then n - 87 else n - 48)"

definition hex_value :: "nat \<Rightarrow> string \<Rightarrow> nat" where
  "hex_value acc ds = foldl (\<lambda>n d. 16 * n + hex_index d) acc ds"

lemma hex_index_digit: "d < 16 \<Longrightarrow> hex_index (hex_digit d) = d"
proof -
  have "list_all (\<lambda>d. hex_index (hex_digit d) = d) [0..<16]" by code_simp
  then show "d < 16 \<Longrightarrow> hex_index (hex_digit d) = d" by (simp add: list_all_iff)
qed

lemma hex_value_append: "hex_value acc (s @ t) = hex_value (hex_value acc s) t"
  by (simp add: hex_value_def)

lemma hex_value_byte: "16 \<le> unat b \<Longrightarrow> hex_value acc (hex_byte b) = 256 * acc + unat b"
  using byte_less [of b] by (simp add: hex_value_def hex_byte_def hex_index_digit less_mult_imp_div_less)

lemma hex_value_byte0: "hex_value 0 (hex_byte b) = unat b"
  using byte_less [of b] by (auto simp: hex_value_def hex_byte_def hex_index_digit less_mult_imp_div_less)

lemma hex_value_byte2: "hex_value acc (hex_byte2 b) = 256 * acc + unat b"
proof -
  have "hex_index (CHR ''0'') = 0" by code_simp
  then show ?thesis
    using byte_less [of b] hex_value_byte [of b acc]
    by (auto simp: hex_byte2_def) (simp add: hex_value_def hex_byte_def hex_index_digit)
qed

lemma skip_zeros_le: "skip_zeros ptr i \<le> i"
  by (induction i) auto

lemma skip_zeros_val:
  "i < length ptr \<Longrightarrow> le_val (take (Suc i) ptr) = le_val (take (Suc (skip_zeros ptr i)) ptr)"
proof (induction i)
  case (Suc i)
  have "le_val (take (Suc (Suc i)) ptr) = le_val (take (Suc i) ptr) + 256 ^ Suc i * unat (ptr ! Suc i)"
    using Suc.prems take_Suc_conv_app_nth [of "Suc i" ptr] le_val_snoc [of "take (Suc i) ptr"] by simp
  then show ?case using Suc by simp
qed simp

lemma print_rest_val:
  assumes "i \<le> length ptr" "\<And>j. j + (if width then 1 else 0) < i \<Longrightarrow> 16 \<le> unat (ptr ! j)"
  shows "hex_value acc (print_rest ptr width i) = 256 ^ i * acc + le_val (take i ptr)"
  using assms
proof (induction i arbitrary: acc width)
  case (Suc i)
  let ?b = "ptr ! i"
  have one: "hex_value acc (if width then hex_byte2 ?b else hex_byte ?b) = 256 * acc + unat ?b"
    using Suc.prems(2) [of i] by (auto simp: hex_value_byte2 hex_value_byte)
  have rest: "hex_value (256 * acc + unat ?b) (print_rest ptr False i) =
      256 ^ i * (256 * acc + unat ?b) + le_val (take i ptr)"
    using Suc.prems by (intro Suc.IH) (auto split: if_splits)
  have "le_val (take (Suc i) ptr) = le_val (take i ptr) + 256 ^ i * unat ?b"
    using Suc.prems by (simp add: take_Suc_conv_app_nth le_val_snoc del: take_Suc)
  then show ?case using one rest by (simp add: hex_value_append algebra_simps del: if_split)
qed (simp add: hex_value_def)

section \<open>Properties\<close>

text \<open>
  The events that the constructors return are well formed. Those with data keep the range, and
  \<^verbatim>\<open>data()\<close> gives the argument back when its block is not null; a null block is refused by \<^verbatim>\<open>Rmw\<close> and
  \<^verbatim>\<open>XchgAwait\<close>, and accepted by the others, after which \<^verbatim>\<open>data()\<close> fails its assertion. The condition
  of an await is given back when it was made with an operator and an operand.
\<close>
lemma symev_addressed_wf:
  assumes "e \<in> {ev_Load a, ev_LoadAwait a cond, ev_MInit a, ev_MLock a, ev_MTryLock a, ev_MTryLockFail a, ev_MUnlock a,
       ev_MDelete a, ev_CInit a, ev_CSignal a, ev_CBrdcst a, ev_CWait a, ev_CAwake a, ev_CDelete a}"
  shows "ev_wf e \<and> ev_addr e = Some a \<and> ev_num e = None \<and> \<not> has_data e"
  using assms by (auto simp: ev_constructor_defs mk_ev_defs ev_query_defs ev_wf_def)

lemma symev_data_wf:
  assumes "e \<in> {ev_Store d, ev_UnobsStore d, ev_CmpXhg d b, ev_CmpXhgFail d b} \<or> ev_Rmw d rk b u = Some e \<or>
    ev_XchgAwait d cond = Some e"
  shows "ev_wf e \<and> ev_addr e = Some (sd_ref d) \<and> ev_num e = None \<and>
    ev_data e = (if sd_block d = None then None else Some d)"
  using assms by (cases d) (auto simp: ev_constructor_defs mk_ev_defs ev_query_defs ev_wf_def Let_def split: if_splits)

lemma symev_null_block:
  "ev_Rmw d rk b u = None \<longleftrightarrow> sd_block d = None" "ev_XchgAwait d cond = None \<longleftrightarrow> sd_block d = None"
  by (simp_all add: ev_constructor_defs mk_ev_defs has_data_def Let_def)

lemma symev_cond_given:
  assumes "AwaitCond opr (Some b) = Some cond"
  shows "ev_cond (ev_LoadAwait a cond) = Some cond" "ev_XchgAwait d cond = Some e \<Longrightarrow> ev_cond e = Some cond"
  using assms by (auto simp: ev_constructor_defs mk_ev_defs ev_query_defs AwaitCond_def Let_def split: if_splits)



text \<open>
  \<^verbatim>\<open>set_observed\<close> on stores: marking a store unobserved and observed again gives the store back,
  the marks are idempotent, it keeps address and data, an observed store is compatible with its
  unobserved version but not the other way round, and on other events the assertion fails.
\<close>
lemma set_observed_roundtrip:
  "set_observed (ev_Store d) False = Some (ev_UnobsStore d) \<and> set_observed (ev_UnobsStore d) True = Some (ev_Store d) \<and>
   set_observed (ev_Store d) True = Some (ev_Store d) \<and> set_observed (ev_UnobsStore d) False = Some (ev_UnobsStore d) \<and>
   is_compatible_with (ev_Store d) (ev_UnobsStore d) = Some True \<and>
   is_compatible_with (ev_UnobsStore d) (ev_Store d) = Some False \<and>
   (set_observed e b = None \<longleftrightarrow> ev_kind e \<noteq> STORE \<and> ev_kind e \<noteq> UNOBS_STORE)"
  by (simp add: set_observed_def is_compatible_with_def kinds_compatible_def ev_constructor_defs mk_ev_defs)

text \<open>
  Printing a block: the hexadecimal number printed denotes the little-endian value of the block
  when every byte printed after the second one has two digits. Without that it need not: the
  bytes of 0x10005 and of 0x1005 print the same, because the width is set only once.
\<close>
lemma block_to_string_value:
  assumes "0 < sz" "sz \<le> length ptr"
    and "\<And>j. j + 1 < skip_zeros ptr (sz - 1) \<Longrightarrow> 16 \<le> unat (ptr ! j)"
  shows "(\<exists>ds. block_to_string (Some ptr) sz = Some (''0x'' @ ds) \<and> hex_value 0 ds = le_val (take sz ptr)) \<and>
         block_to_string (Some [0x05, 0x00, 0x01]) 3 = block_to_string (Some [0x05, 0x10, 0x00]) 3"
proof
  let ?i = "skip_zeros ptr (sz - 1)"
  have i: "?i < length ptr" using assms(1,2) skip_zeros_le [of ptr "sz - 1"] by linarith
  have "hex_value 0 (hex_byte (ptr ! ?i) @ print_rest ptr True ?i) = 256 ^ ?i * unat (ptr ! ?i) + le_val (take ?i ptr)"
    using print_rest_val [of ?i ptr True "unat (ptr ! ?i)"] i assms(3)
    by (simp add: hex_value_append hex_value_byte0)
  also have "\<dots> = le_val (take (Suc ?i) ptr)"
    using i by (simp add: take_Suc_conv_app_nth le_val_snoc)
  also have "\<dots> = le_val (take sz ptr)"
    using skip_zeros_val [of "sz - 1" ptr] assms(1,2) by simp
  finally show "\<exists>ds. block_to_string (Some ptr) sz = Some (''0x'' @ ds) \<and> hex_value 0 ds = le_val (take sz ptr)"
    using assms(1,2) by (auto simp: block_to_string_def Let_def)
  show "block_to_string (Some [0x05, 0x00, 0x01]) 3 = block_to_string (Some [0x05, 0x10, 0x00]) 3"
    by code_simp
qed

end
