(* ===== verification/DecisionTree.thy ===== *)
theory DecisionTree
  imports Scheduler SatGraph SymEvs
begin

text \<open>
  The decision tree of the optimal exploration, \<^verbatim>\<open>src/src/RFSCDecisionTree.h\<close> and \<^verbatim>\<open>src/src/RFSCDecisionTree.cpp\<close>: decision
  nodes with their parent pointers, the sets of allocated events, pruning, and the cached saturated graphs. Nodes are
  kept in a list, a pointer is an index. Every method changes one node, under that node's mutex or through its atomic
  flag, so that it is one step.
\<close>

section \<open>Leaves\<close>

record rf_branch =
  rb_pid :: int
  rb_size :: int
  rb_decision_depth :: int
  rb_pinned :: bool
  rb_sym :: symev

text \<open>A vector with its capacity, which tells a bottom leaf from a leaf with an empty prefix.\<close>

record leaf =
  lf_prefix :: "rf_branch list"
  lf_capacity :: nat

definition is_bottom :: "leaf \<Rightarrow> bool" where
  "is_bottom l = (lf_capacity l = 0)"

definition bottom_leaf :: leaf where
  "bottom_leaf = \<lparr>lf_prefix = [], lf_capacity = 0\<rparr>"

definition prefix_leaf :: "rf_branch list \<Rightarrow> nat \<Rightarrow> leaf" where
  "prefix_leaf pre cap = \<lparr>lf_prefix = pre, lf_capacity = (if cap = 0 then 1 else cap)\<rparr>"

text \<open>The copy of a vector has the capacity of its elements.\<close>

definition copy_leaf :: "leaf \<Rightarrow> leaf" where
  "copy_leaf l = l\<lparr>lf_capacity := length (lf_prefix l)\<rparr>"

section \<open>Nodes\<close>

record ('x, 'a) dnode =
  dn_depth :: int
  dn_unfold_node :: "nat option"
  dn_leaf :: leaf
  dn_parent :: "nat option"
  dn_pruned_subtree :: bool
  dn_cache_initialised :: bool
  dn_children_unf_set :: "nat option list"
  dn_graph_cache :: "('x, 'a) sgraph"

type_synonym ('x, 'a) dtree = "('x, 'a) dnode list"

definition root_node :: "('x, 'a) dnode" where
  "root_node = \<lparr>dn_depth = -1, dn_unfold_node = None, dn_leaf = prefix_leaf [] 0, dn_parent = None,
     dn_pruned_subtree = False, dn_cache_initialised = True, dn_children_unf_set = [], dn_graph_cache = sg_empty\<rparr>"

definition child_node :: "nat \<Rightarrow> int \<Rightarrow> ('x, 'a) dnode" where
  "child_node parent d = \<lparr>dn_depth = d + 1, dn_unfold_node = None, dn_leaf = bottom_leaf, dn_parent = Some parent,
     dn_pruned_subtree = False, dn_cache_initialised = False, dn_children_unf_set = [], dn_graph_cache = sg_empty\<rparr>"

definition sibling_node :: "nat \<Rightarrow> int \<Rightarrow> nat option \<Rightarrow> leaf \<Rightarrow> ('x, 'a) dnode" where
  "sibling_node parent d unf l = \<lparr>dn_depth = d + 1, dn_unfold_node = unf, dn_leaf = copy_leaf l, dn_parent = Some parent,
     dn_pruned_subtree = False, dn_cache_initialised = False, dn_children_unf_set = [], dn_graph_cache = sg_empty\<rparr>"

text \<open>The tree starts with its root, which is enqueued; \<open>None\<close> below is a null pointer or a failed assertion.\<close>

definition initial_tree :: "('x, 'a) dtree" where
  "initial_tree = [root_node]"

definition RFSCDecisionTree :: "pq_sched \<Rightarrow> ('x, 'a) dtree \<times> pq_sched" where
  "RFSCDecisionTree s = (initial_tree, pq_enqueue \<lparr>jb_node = 0, jb_depth = -1\<rparr> s)"

definition parent_of :: "('x, 'a) dtree \<Rightarrow> nat \<Rightarrow> nat option" where
  "parent_of tr n = (if n < length tr then dn_parent (tr ! n) else None)"

text \<open>Whether the event was not yet in the parent's set, which it is in afterwards.\<close>

definition try_alloc_unf :: "nat \<Rightarrow> nat option \<Rightarrow> ('x, 'a) dtree \<Rightarrow> (bool \<times> ('x, 'a) dtree) option" where
  "try_alloc_unf n unf tr =
     map_option (\<lambda>q. let s = dn_children_unf_set (tr ! q)
                     in if unf \<in> set s then (False, tr)
                        else (True, tr[q := (tr ! q)\<lparr>dn_children_unf_set := unf # s\<rparr>])) (parent_of tr n)"

definition alloc_unf :: "nat \<Rightarrow> nat option \<Rightarrow> ('x, 'a) dtree \<Rightarrow> ('x, 'a) dtree option" where
  "alloc_unf n unf tr =
     (case try_alloc_unf n unf tr of Some (True, tr1) \<Rightarrow> Some tr1 | _ \<Rightarrow> None)"

definition new_decision_node :: "nat \<Rightarrow> nat option \<Rightarrow> ('x, 'a) dtree \<Rightarrow> (nat \<times> ('x, 'a) dtree) option" where
  "new_decision_node parent unf tr =
     (if parent < length tr
      then map_option (\<lambda>tr1. (length tr, tr1)) (alloc_unf (length tr) unf (tr @ [child_node parent (dn_depth (tr ! parent))]))
      else None)"

definition make_sibling :: "nat \<Rightarrow> nat option \<Rightarrow> leaf \<Rightarrow> ('x, 'a) dtree \<Rightarrow> (nat \<times> ('x, 'a) dtree) option" where
  "make_sibling n unf l tr =
     map_option (\<lambda>q. (length tr, tr @ [sibling_node q (dn_depth (tr ! q)) unf (copy_leaf l)])) (parent_of tr n)"

text \<open>The sibling is enqueued as a job, here with the priority queue.\<close>

definition construct_sibling ::
  "nat \<Rightarrow> nat option \<Rightarrow> leaf \<Rightarrow> ('x, 'a) dtree \<times> pq_sched \<Rightarrow> (('x, 'a) dtree \<times> pq_sched) option" where
  "construct_sibling n unf l = (\<lambda>(tr, s).
     map_option (\<lambda>(m, tr1). (tr1, pq_enqueue \<lparr>jb_node = m, jb_depth = dn_depth (tr1 ! m)\<rparr> s)) (make_sibling n unf l tr))"

definition prune_decisions :: "nat \<Rightarrow> ('x, 'a) dtree \<Rightarrow> ('x, 'a) dtree option" where
  "prune_decisions n tr = (if n < length tr then Some (tr[n := (tr ! n)\<lparr>dn_pruned_subtree := True\<rparr>]) else None)"

partial_function (option) is_pruned :: "('x, 'a) dtree \<Rightarrow> nat \<Rightarrow> bool option" where
  "is_pruned tr n =
     (if \<not> n < length tr then None
      else if dn_depth (tr ! n) = -1 then Some False
      else if dn_pruned_subtree (tr ! n) then Some True
      else Option.bind (dn_parent (tr ! n)) (is_pruned tr))"

partial_function (option) get_ancestor :: "('x, 'a) dtree \<Rightarrow> int \<Rightarrow> nat \<Rightarrow> nat option" where
  "get_ancestor tr wanted n =
     Option.bind (parent_of tr n) (\<lambda>q.
       if \<not> q < length tr then None
       else if dn_depth (tr ! q) \<noteq> wanted then get_ancestor tr wanted q
       else Some q)"

definition find_ancestor :: "('x, 'a) dtree \<Rightarrow> nat \<Rightarrow> int \<Rightarrow> nat option" where
  "find_ancestor tr n wanted =
     (if \<not> (n < length tr \<and> wanted \<le> dn_depth (tr ! n)) then None
      else if dn_depth (tr ! n) = wanted then Some n
      else get_ancestor tr wanted n)"

text \<open>
  The loop of \<^verbatim>\<open>get_saturated_graph\<close>: the cache of the nearest initialised ancestor; at the root the graph is left as
  it is.
\<close>

partial_function (option) reuse_loop :: "('x, 'a) dtree \<Rightarrow> ('x, 'a) sgraph \<Rightarrow> nat \<Rightarrow> ('x, 'a) sgraph option" where
  "reuse_loop tr g n =
     (if \<not> n < length tr then None
      else if dn_cache_initialised (tr ! n) then clone (dn_graph_cache (tr ! n))
      else Option.bind (dn_parent (tr ! n)) (\<lambda>q.
        if q < length tr then if dn_depth (tr ! q) \<noteq> -1 then reuse_loop tr g q else Some g else None))"

definition get_saturated_graph ::
  "(('x, 'a) sgraph \<Rightarrow> ('x, 'a) sgraph option) \<Rightarrow> nat \<Rightarrow> ('x, 'a) dtree \<Rightarrow> (('x, 'a) sgraph \<times> ('x, 'a) dtree) option" where
  "get_saturated_graph construct n tr =
     Option.bind (parent_of tr n) (\<lambda>q.
       let g = dn_graph_cache (tr ! q) in
       if dn_cache_initialised (tr ! q) then
         if events g \<noteq> [] \<or> dn_depth (tr ! n) = 0 then Some (g, tr) else None
       else if dn_depth (tr ! n) > 0 \<and> events g = [] then
         Option.bind (reuse_loop tr g q) (\<lambda>g1.
         Option.bind (construct g1) (\<lambda>g2.
           Some (g2, tr[q := (tr ! q)\<lparr>dn_graph_cache := g2, dn_cache_initialised := True\<rparr>])))
       else None)"

text \<open>
  The calls that trace builders make, in any order. Each call of \<^verbatim>\<open>get_saturated_graph\<close> brings its own function that
  completes the graph, here by the node it is called for.
\<close>

datatype dtree_call = D_new nat "nat option" | D_sibling nat "nat option" leaf | D_try_alloc nat "nat option" | D_prune nat | D_graph nat

fun dtree_do :: "(nat \<Rightarrow> ('x, 'a) sgraph \<Rightarrow> ('x, 'a) sgraph option) \<Rightarrow> dtree_call \<Rightarrow> ('x, 'a) dtree \<Rightarrow> ('x, 'a) dtree option" where
  "dtree_do construct (D_new n unf) tr = map_option snd (new_decision_node n unf tr)"
| "dtree_do construct (D_sibling n unf l) tr = map_option snd (make_sibling n unf l tr)"
| "dtree_do construct (D_try_alloc n unf) tr = map_option snd (try_alloc_unf n unf tr)"
| "dtree_do construct (D_prune n) tr = prune_decisions n tr"
| "dtree_do construct (D_graph n) tr = map_option snd (get_saturated_graph (construct n) n tr)"

section \<open>Shape of the tree\<close>

text \<open>
  The first node is the root; every other one has a parent that was made before it and is one deeper than it. A graph
  that is not initialised is empty.
\<close>

definition dtree_inv :: "('x, 'a) dtree \<Rightarrow> bool" where
  "dtree_inv tr \<longleftrightarrow> tr \<noteq> [] \<and> dn_depth (tr ! 0) = -1 \<and> dn_parent (tr ! 0) = None \<and> dn_cache_initialised (tr ! 0) \<and>
     dn_graph_cache (tr ! 0) = sg_empty \<and>
     (\<forall>n < length tr. n \<noteq> 0 \<longrightarrow>
        (\<exists>q < n. dn_parent (tr ! n) = Some q \<and> dn_depth (tr ! n) = dn_depth (tr ! q) + 1) \<and>
        (\<not> dn_cache_initialised (tr ! n) \<longrightarrow> dn_graph_cache (tr ! n) = sg_empty))"

text \<open>An update of a node that keeps its place in the tree.\<close>

definition same_place :: "('x, 'a) dnode \<Rightarrow> ('x, 'a) dnode \<Rightarrow> bool" where
  "same_place x y \<longleftrightarrow> dn_depth x = dn_depth y \<and> dn_parent x = dn_parent y"

lemma dtree_inv_update:
  assumes "dtree_inv tr" "n < length tr" "same_place x (tr ! n)"
    and "dn_cache_initialised x \<and> (n = 0 \<longrightarrow> dn_graph_cache x = sg_empty) \<or>
         dn_cache_initialised x = dn_cache_initialised (tr ! n) \<and> dn_graph_cache x = dn_graph_cache (tr ! n)"
  shows "dtree_inv (tr[n := x])"
proof -
  have "dn_depth (tr[n := x] ! i) = dn_depth (tr ! i)" "dn_parent (tr[n := x] ! i) = dn_parent (tr ! i)" for i
    using assms(2,3) by (cases "i = n"; simp add: same_place_def)+
  moreover have "\<not> dn_cache_initialised (tr[n := x] ! i) \<longrightarrow> dn_graph_cache (tr[n := x] ! i) = sg_empty" if "i < length tr" for i
    using assms that by (cases "i = n"; cases "i = 0") (auto simp: dtree_inv_def)
  moreover have "dn_cache_initialised (tr[n := x] ! 0)" "dn_graph_cache (tr[n := x] ! 0) = sg_empty"
    using assms by (cases "n = 0"; auto simp: dtree_inv_def)+
  ultimately show ?thesis using assms(1) by (simp add: dtree_inv_def)
qed

lemma dtree_inv_snoc:
  assumes "dtree_inv tr" "q < length tr" "dn_parent x = Some q" "dn_depth x = dn_depth (tr ! q) + 1" "dn_graph_cache x = sg_empty"
  shows "dtree_inv (tr @ [x])"
proof -
  have "\<exists>p < n. dn_parent ((tr @ [x]) ! n) = Some p \<and> dn_depth ((tr @ [x]) ! n) = dn_depth ((tr @ [x]) ! p) + 1"
    if n: "n < Suc (length tr)" "n \<noteq> 0" for n
  proof (cases "n = length tr")
    case True
    then show ?thesis using assms by (auto simp: nth_append)
  next
    case False
    then obtain p where "p < n" "dn_parent (tr ! n) = Some p \<and> dn_depth (tr ! n) = dn_depth (tr ! p) + 1"
      using assms(1) n unfolding dtree_inv_def by (metis less_SucE)
    then show ?thesis using n False by (auto simp: nth_append)
  qed
  then show ?thesis using assms by (auto simp: dtree_inv_def nth_append)
qed

lemma dtree_parent:
  assumes "dtree_inv tr" "parent_of tr n = Some q"
  shows "n < length tr" "n \<noteq> 0" "q < n" "dn_depth (tr ! n) = dn_depth (tr ! q) + 1"
proof -
  show n: "n < length tr" "n \<noteq> 0" using assms by (auto simp: parent_of_def dtree_inv_def split: if_splits)
  then have "\<exists>q < n. dn_parent (tr ! n) = Some q \<and> dn_depth (tr ! n) = dn_depth (tr ! q) + 1"
    using assms(1) by (simp add: dtree_inv_def)
  then show "q < n" "dn_depth (tr ! n) = dn_depth (tr ! q) + 1" using assms(2) n by (auto simp: parent_of_def)
qed

lemma dtree_parent_ex: "dtree_inv tr \<Longrightarrow> n < length tr \<Longrightarrow> n \<noteq> 0 \<Longrightarrow> \<exists>q. parent_of tr n = Some q"
  by (auto simp: dtree_inv_def parent_of_def)

lemma dtree_depth: "dtree_inv tr \<Longrightarrow> n < length tr \<Longrightarrow> -1 \<le> dn_depth (tr ! n) \<and> (dn_depth (tr ! n) = -1 \<longleftrightarrow> n = 0)"
proof (induction n rule: less_induct)
  case (less n)
  show ?case
  proof (cases "n = 0")
    case False
    then obtain q where q: "parent_of tr n = Some q" using dtree_parent_ex less.prems by blast
    note d = dtree_parent [OF less.prems(1) q]
    show ?thesis using less.IH [OF d(3) less.prems(1)] d by (auto simp: False)
  qed (use less in \<open>simp add: dtree_inv_def\<close>)
qed

text \<open>What calls keep: no node is removed, changes its place, loses an allocated event or an initialised graph.\<close>

definition extends :: "('x, 'a) dtree \<Rightarrow> ('x, 'a) dtree \<Rightarrow> bool" where
  "extends tr tr1 \<longleftrightarrow> length tr \<le> length tr1 \<and>
     (\<forall>n < length tr. same_place (tr1 ! n) (tr ! n) \<and> set (dn_children_unf_set (tr ! n)) \<subseteq> set (dn_children_unf_set (tr1 ! n)) \<and>
        (dn_cache_initialised (tr ! n) \<longrightarrow> dn_cache_initialised (tr1 ! n) \<and> dn_graph_cache (tr1 ! n) = dn_graph_cache (tr ! n)))"

lemma extends_refl: "extends tr tr"
  by (simp add: extends_def same_place_def)

lemma extends_trans: "extends a b \<Longrightarrow> extends b c \<Longrightarrow> extends a c"
  unfolding extends_def same_place_def by (smt (verit) dual_order.trans order_less_le_trans)

lemma extends_update:
  assumes "same_place x (tr ! n)" "set (dn_children_unf_set (tr ! n)) \<subseteq> set (dn_children_unf_set x)"
    and "dn_cache_initialised (tr ! n) \<longrightarrow> dn_cache_initialised x \<and> dn_graph_cache x = dn_graph_cache (tr ! n)"
  shows "extends tr (tr[n := x])"
proof -
  let ?kept = "\<lambda>y z. same_place z y \<and> set (dn_children_unf_set y) \<subseteq> set (dn_children_unf_set z) \<and>
    (dn_cache_initialised y \<longrightarrow> dn_cache_initialised z \<and> dn_graph_cache z = dn_graph_cache y)"
  have "?kept (tr ! i) (tr[n := x] ! i)" if "i < length tr" for i
  proof (cases "i = n")
    case True
    then show ?thesis using that assms by simp
  qed (simp add: same_place_def)
  then show ?thesis by (simp add: extends_def)
qed

lemma extends_snoc: "extends tr (tr @ [x])"
  by (auto simp: extends_def nth_append same_place_def)

lemma try_alloc_keeps:
  assumes "dtree_inv tr" "try_alloc_unf n unf tr = Some (b, tr1)"
  shows "dtree_inv tr1" "extends tr tr1"
proof -
  obtain q where q: "parent_of tr n = Some q" using assms(2) by (auto simp: try_alloc_unf_def)
  then have "q < length tr" using dtree_parent [OF assms(1) q] by linarith
  then have "dtree_inv tr1 \<and> extends tr tr1"
    using assms q by (auto simp: try_alloc_unf_def Let_def extends_refl same_place_def
        intro!: dtree_inv_update extends_update split: if_splits)
  then show "dtree_inv tr1" "extends tr tr1" by auto
qed

lemma dtree_do_keeps:
  assumes inv: "dtree_inv tr" and step: "dtree_do construct c tr = Some tr1"
  shows "dtree_inv tr1 \<and> extends tr tr1"
proof (cases c)
  case (D_new n unf)
  let ?x = "child_node n (dn_depth (tr ! n))"
  have n: "n < length tr" "alloc_unf (length tr) unf (tr @ [?x]) = Some tr1"
    using step D_new by (auto simp: new_decision_node_def split: if_splits)
  have i: "dtree_inv (tr @ [?x])" by (rule dtree_inv_snoc [OF inv n(1)]) (simp_all add: child_node_def)
  have "try_alloc_unf (length tr) unf (tr @ [?x]) = Some (True, tr1)"
    using n(2) by (auto simp: alloc_unf_def split: option.splits bool.splits)
  then show ?thesis using try_alloc_keeps [OF i] extends_trans [OF extends_snoc] by blast
next
  case (D_sibling n unf l)
  then obtain q where q: "parent_of tr n = Some q" "tr1 = tr @ [sibling_node q (dn_depth (tr ! q)) unf (copy_leaf l)]"
    using step by (auto simp: make_sibling_def)
  have "q < length tr" using dtree_parent [OF inv q(1)] by linarith
  then show ?thesis using q(2) extends_snoc by (auto simp: sibling_node_def intro!: dtree_inv_snoc [OF inv])
next
  case (D_try_alloc n unf)
  then show ?thesis using try_alloc_keeps [OF inv] step by auto
next
  case (D_prune n)
  then show ?thesis using step inv
    by (auto simp: prune_decisions_def same_place_def intro!: dtree_inv_update extends_update split: if_splits)
next
  case (D_graph n)
  then obtain q where q: "parent_of tr n = Some q" using step by (auto simp: get_saturated_graph_def split: bind_splits)
  have l: "q < length tr" using dtree_parent [OF inv q] by linarith
  have z: "\<not> dn_cache_initialised (tr ! q) \<Longrightarrow> q \<noteq> 0" using inv unfolding dtree_inv_def by metis
  show ?thesis using step D_graph q l z inv
    by (auto simp: get_saturated_graph_def Let_def extends_refl same_place_def
        intro!: dtree_inv_update extends_update split: if_splits bind_splits)
qed

definition dtree_init :: "('x, 'a) dtree \<Rightarrow> bool" where
  "dtree_init tr \<longleftrightarrow> tr = initial_tree"

interpretation dtree_sys: call_system dtree_init "dtree_do construct" dtree_inv for construct
proof
  show "dtree_inv s" if "dtree_init s" for s :: "('a, 'b) dtree"
    using that by (simp add: dtree_init_def dtree_inv_def initial_tree_def root_node_def)
  show "dtree_inv t" if "dtree_inv s" "dtree_do construct c s = Some t" for s c and t :: "('a, 'b) dtree"
    using dtree_do_keeps [OF that] by blast
qed

lemma dtree_run_inv: "run_calls (dtree_do construct) cs initial_tree = Some tr \<Longrightarrow> dtree_inv tr"
  by (rule dtree_sys.reachable_inv) (simp_all add: dtree_init_def)

lemma dtree_run_extends: "dtree_inv tr \<Longrightarrow> run_calls (dtree_do construct) cs tr = Some tr1 \<Longrightarrow> extends tr tr1"
proof (induction cs arbitrary: tr)
  case (Cons c cs)
  then obtain s where s: "dtree_do construct c tr = Some s" "run_calls (dtree_do construct) cs s = Some tr1" by (auto split: bind_splits)
  show ?case using Cons.IH s dtree_do_keeps [OF Cons.prems(1) s(1)] extends_trans by blast
qed (simp add: extends_refl)

section \<open>Paths to the root\<close>

text \<open>The ancestor \<open>k\<close> steps up.\<close>

fun ancestor :: "('x, 'a) dtree \<Rightarrow> nat \<Rightarrow> nat \<Rightarrow> nat option" where
  "ancestor tr 0 n = Some n"
| "ancestor tr (Suc k) n = Option.bind (parent_of tr n) (ancestor tr k)"

lemma get_ancestor_path:
  assumes inv: "dtree_inv tr" and w: "-1 \<le> wanted"
  shows "n < length tr \<Longrightarrow> wanted < dn_depth (tr ! n) \<Longrightarrow>
    \<exists>a. get_ancestor tr wanted n = Some a \<and> a < length tr \<and> dn_depth (tr ! a) = wanted \<and>
      ancestor tr (nat (dn_depth (tr ! n) - wanted)) n = Some a"
proof (induction n rule: less_induct)
  case (less n)
  have "n \<noteq> 0" using less.prems w dtree_depth [OF inv, of n] by auto
  then obtain q where q: "parent_of tr n = Some q" using dtree_parent_ex [OF inv less.prems(1)] by blast
  note d = dtree_parent [OF inv q]
  have l: "q < length tr" using d by linarith
  have e: "nat (dn_depth (tr ! n) - wanted) = Suc (nat (dn_depth (tr ! q) - wanted))" using d(4) less.prems(2) by simp
  show ?case
  proof (cases "dn_depth (tr ! q) = wanted")
    case True
    then show ?thesis using q l e by (simp add: get_ancestor.simps [of _ _ n])
  next
    case False
    then have "wanted < dn_depth (tr ! q)" using d(4) less.prems(2) by simp
    then show ?thesis using less.IH [OF d(3) l] q l e False by (simp add: get_ancestor.simps [of _ _ n])
  qed
qed

lemma is_pruned_path:
  assumes inv: "dtree_inv tr"
  shows "n < length tr \<Longrightarrow> is_pruned tr n =
    Some (\<exists>k a. ancestor tr k n = Some a \<and> a \<noteq> 0 \<and> dn_pruned_subtree (tr ! a))"
proof (induction n rule: less_induct)
  case (less n)
  let ?up = "\<lambda>n. \<exists>k a. ancestor tr k n = Some a \<and> a \<noteq> 0 \<and> dn_pruned_subtree (tr ! a)"
  show ?case
  proof (cases "n = 0")
    case True
    have "ancestor tr k 0 = Some a \<Longrightarrow> a = 0" for k a
      using inv by (cases k) (auto simp: parent_of_def dtree_inv_def split: if_splits)
    then show ?thesis using inv True less.prems by (auto simp: is_pruned.simps [of _ 0] dtree_inv_def)
  next
    case False
    then obtain q where q: "parent_of tr n = Some q" using dtree_parent_ex [OF inv less.prems] by blast
    note d = dtree_parent [OF inv q]
    have l: "q < length tr" using d by linarith
    have par: "dn_parent (tr ! n) = Some q" using q less.prems by (simp add: parent_of_def)
    have "dn_depth (tr ! n) \<noteq> -1" using dtree_depth [OF inv less.prems] False by simp
    then have step: "is_pruned tr n = (if dn_pruned_subtree (tr ! n) then Some True else is_pruned tr q)"
      using less.prems par by (simp add: is_pruned.simps [of _ n])
    have "?up n \<longleftrightarrow> dn_pruned_subtree (tr ! n) \<or> ?up q"
    proof
      assume "?up n"
      then obtain k a where a: "ancestor tr k n = Some a" "a \<noteq> 0" "dn_pruned_subtree (tr ! a)" by blast
      then show "dn_pruned_subtree (tr ! n) \<or> ?up q" using q by (cases k) auto
    next
      assume "dn_pruned_subtree (tr ! n) \<or> ?up q"
      then show "?up n"
      proof
        assume "dn_pruned_subtree (tr ! n)"
        then show ?thesis using False by (intro exI [of _ 0] exI [of _ n]) simp
      next
        assume "?up q"
        then obtain k a where "ancestor tr k q = Some a" "a \<noteq> 0" "dn_pruned_subtree (tr ! a)" by blast
        then show ?thesis using q by (intro exI [of _ "Suc k"] exI [of _ a]) simp
      qed
    qed
    then show ?thesis using step less.IH [OF d(3) l] by simp
  qed
qed

text \<open>
  C22. In every tree that the calls of trace builders make, whatever their order: \<^verbatim>\<open>find_ancestor\<close> of a node returns, for
  every wanted depth from -1 (the root) to the node's own, the one ancestor at that depth, and fails its assertion for
  a greater depth only; and \<^verbatim>\<open>is_pruned\<close> returns, being true exactly when the node or an ancestor other than the root
  is marked as pruned.
\<close>

theorem decision_tree_paths:
  assumes "run_calls (dtree_do construct) cs initial_tree = Some tr" "n < length tr" "-1 \<le> wanted"
  shows "(wanted \<le> dn_depth (tr ! n) \<longrightarrow>
      (\<exists>a. find_ancestor tr n wanted = Some a \<and> dn_depth (tr ! a) = wanted \<and>
           ancestor tr (nat (dn_depth (tr ! n) - wanted)) n = Some a)) \<and>
    (dn_depth (tr ! n) < wanted \<longrightarrow> find_ancestor tr n wanted = None) \<and>
    is_pruned tr n = Some (\<exists>k a. ancestor tr k n = Some a \<and> a \<noteq> 0 \<and> dn_pruned_subtree (tr ! a))"
proof -
  have inv: "dtree_inv tr" by (rule dtree_run_inv [OF assms(1)])
  show ?thesis
    using get_ancestor_path [OF inv assms(3,2)] is_pruned_path [OF inv assms(2)] assms(2)
    by (auto simp: find_ancestor_def)
qed

text \<open>A path of two decisions below the root, the first of which is pruned.\<close>

theorem decision_tree_paths_witness:
  "\<exists>tr a. run_calls (dtree_do (\<lambda>_ _. None)) [D_new 0 (Some 5), D_new 1 None, D_prune 1] (initial_tree :: (nat, nat) dtree) = Some tr \<and>
     find_ancestor tr 2 0 = Some a \<and> dn_depth (tr ! a) = 0 \<and> is_pruned tr 2 = Some True"
proof -
  let ?run = "run_calls (dtree_do (\<lambda>_ _. None)) [D_new 0 (Some 5), D_new 1 None, D_prune 1] (initial_tree :: (nat, nat) dtree)"
  obtain tr where tr: "?run = Some tr" and t: "length tr = 3" "dn_depth (tr ! 2) = 1" "parent_of tr 2 = Some 1" "dn_pruned_subtree (tr ! 1)"
    by (simp add: initial_tree_def new_decision_node_def alloc_unf_def try_alloc_unf_def parent_of_def child_node_def
        root_node_def prune_decisions_def)
  have "ancestor tr 1 2 = Some 1" using t(3) by simp
  then have "\<exists>k a. ancestor tr k 2 = Some a \<and> a \<noteq> 0 \<and> dn_pruned_subtree (tr ! a)" using t(4) by blast
  then show ?thesis using decision_tree_paths [OF tr, of 2 0] t(1,2) tr by auto
qed


section \<open>What siblings share\<close>

text \<open>A completed graph has events and is saturated, where the functions that complete graphs see to it.\<close>

definition constructs :: "(nat \<Rightarrow> ('x, 'a) sgraph \<Rightarrow> ('x, 'a) sgraph option) \<Rightarrow> bool" where
  "constructs construct \<longleftrightarrow> (\<forall>m g. \<exists>g1. construct m g = Some g1 \<and> events g1 \<noteq> [] \<and> wq_empty g1)"

definition graphs_ok :: "('x, 'a) dtree \<Rightarrow> bool" where
  "graphs_ok tr \<longleftrightarrow> (\<forall>n < length tr. dn_cache_initialised (tr ! n) \<longrightarrow>
     (n \<noteq> 0 \<longrightarrow> events (dn_graph_cache (tr ! n)) \<noteq> []) \<and> wq_empty (dn_graph_cache (tr ! n)))"

lemma graphs_ok_update:
  assumes "graphs_ok tr" "dn_cache_initialised x \<longrightarrow> events (dn_graph_cache x) \<noteq> [] \<and> wq_empty (dn_graph_cache x) \<or>
      dn_cache_initialised (tr ! n) \<and> dn_graph_cache x = dn_graph_cache (tr ! n)"
  shows "graphs_ok (tr[n := x])"
  unfolding graphs_ok_def
proof (intro allI impI)
  fix i
  assume "i < length (tr[n := x])" "dn_cache_initialised (tr[n := x] ! i)"
  then show "(i \<noteq> 0 \<longrightarrow> events (dn_graph_cache (tr[n := x] ! i)) \<noteq> []) \<and> wq_empty (dn_graph_cache (tr[n := x] ! i))"
    using assms by (cases "i = n") (auto simp: graphs_ok_def)
qed

lemma graphs_ok_snoc: "graphs_ok tr \<Longrightarrow> \<not> dn_cache_initialised x \<Longrightarrow> graphs_ok (tr @ [x])"
  by (auto simp: graphs_ok_def nth_append less_Suc_eq)

lemma graphs_ok_alloc: "graphs_ok tr \<Longrightarrow> try_alloc_unf n unf tr = Some (b, tr1) \<Longrightarrow> graphs_ok tr1"
  by (auto simp: try_alloc_unf_def Let_def intro: graphs_ok_update split: if_splits)

lemma graphs_ok_do:
  assumes "constructs construct" "graphs_ok tr" "dtree_do construct c tr = Some tr1"
  shows "graphs_ok tr1"
proof (cases c)
  case (D_new n unf)
  let ?x = "child_node n (dn_depth (tr ! n))"
  have "alloc_unf (length tr) unf (tr @ [?x]) = Some tr1"
    using assms(3) D_new by (auto simp: new_decision_node_def split: if_splits)
  then have a: "try_alloc_unf (length tr) unf (tr @ [?x]) = Some (True, tr1)" by (auto simp: alloc_unf_def split: option.splits bool.splits)
  have "graphs_ok (tr @ [?x])" by (rule graphs_ok_snoc [OF assms(2)]) (simp add: child_node_def)
  then show ?thesis by (rule graphs_ok_alloc [OF _ a])
next
  case (D_sibling n unf l)
  then show ?thesis using assms(2,3) by (auto simp: make_sibling_def sibling_node_def intro: graphs_ok_snoc)
next
  case (D_try_alloc n unf)
  then show ?thesis using assms(2,3) graphs_ok_alloc by auto
next
  case (D_prune n)
  then show ?thesis using assms(2,3) by (auto simp: prune_decisions_def intro!: graphs_ok_update split: if_splits)
next
  case (D_graph n)
  have "\<And>g g1. construct n g = Some g1 \<Longrightarrow> events g1 \<noteq> [] \<and> wq_empty g1" using assms(1) by (metis constructs_def option.inject)
  then show ?thesis using assms(2,3) D_graph
    by (auto simp: get_saturated_graph_def Let_def intro!: graphs_ok_update split: if_splits bind_splits)
qed

lemma graphs_ok_run:
  "constructs construct \<Longrightarrow> graphs_ok tr \<Longrightarrow> run_calls (dtree_do construct) cs tr = Some tr1 \<Longrightarrow> graphs_ok tr1"
  by (induction cs arbitrary: tr) (auto split: bind_splits intro: graphs_ok_do)

text \<open>The loop finds the nearest initialised ancestor; the graph of the root is the empty one.\<close>

definition nearest :: "('x, 'a) dtree \<Rightarrow> nat \<Rightarrow> nat \<Rightarrow> bool" where
  "nearest tr n a \<longleftrightarrow> (\<exists>k. ancestor tr k n = Some a \<and> dn_cache_initialised (tr ! a) \<and>
     (\<forall>j < k. \<forall>b. ancestor tr j n = Some b \<longrightarrow> \<not> dn_cache_initialised (tr ! b)))"

lemma nearest_self: "dn_cache_initialised (tr ! n) \<Longrightarrow> nearest tr n n"
  unfolding nearest_def by (rule exI [of _ 0]) simp

lemma nearest_up: "\<not> dn_cache_initialised (tr ! n) \<Longrightarrow> parent_of tr n = Some q \<Longrightarrow> nearest tr q a \<Longrightarrow> nearest tr n a"
  unfolding nearest_def
proof (elim exE conjE)
  fix k
  assume "\<not> dn_cache_initialised (tr ! n)" "parent_of tr n = Some q" "ancestor tr k q = Some a" "dn_cache_initialised (tr ! a)"
    "\<forall>j < k. \<forall>b. ancestor tr j q = Some b \<longrightarrow> \<not> dn_cache_initialised (tr ! b)"
  then show "\<exists>k. ancestor tr k n = Some a \<and> dn_cache_initialised (tr ! a) \<and>
      (\<forall>j < k. \<forall>b. ancestor tr j n = Some b \<longrightarrow> \<not> dn_cache_initialised (tr ! b))"
    by (intro exI [of _ "Suc k"]) (auto simp: less_Suc_eq_0_disj)
qed

lemma reuse_loop_nearest:
  assumes inv: "dtree_inv tr" and ok: "graphs_ok tr"
  shows "n < length tr \<Longrightarrow> \<exists>a. reuse_loop tr sg_empty n = Some (dn_graph_cache (tr ! a)) \<and> nearest tr n a"
proof (induction n rule: less_induct)
  case (less n)
  show ?case
  proof (cases "dn_cache_initialised (tr ! n)")
    case True
    then have "clone (dn_graph_cache (tr ! n)) = Some (dn_graph_cache (tr ! n))"
      using ok less.prems by (simp add: clone_def graphs_ok_def)
    then show ?thesis using True less.prems nearest_self by (auto simp: reuse_loop.simps [of _ _ n])
  next
    case False
    then have "n \<noteq> 0" using inv unfolding dtree_inv_def by metis
    then obtain q where q: "parent_of tr n = Some q" using dtree_parent_ex [OF inv less.prems] by blast
    note d = dtree_parent [OF inv q]
    have l: "q < length tr" using d by linarith
    have par: "dn_parent (tr ! n) = Some q" using q less.prems by (simp add: parent_of_def)
    show ?thesis
    proof (cases "q = 0")
      case True
      have r: "dn_depth (tr ! 0) = -1" "dn_cache_initialised (tr ! 0)" "dn_graph_cache (tr ! 0) = sg_empty"
        using inv by (simp_all add: dtree_inv_def)
      then have "nearest tr n 0" using nearest_up [OF False q] nearest_self True by metis
      moreover have "reuse_loop tr sg_empty n = Some sg_empty"
        using less.prems False par l r True by (simp add: reuse_loop.simps [of _ _ n])
      ultimately show ?thesis using r(3) by metis
    next
      case q0: False
      then have "dn_depth (tr ! q) \<noteq> -1" using dtree_depth [OF inv l] by simp
      then have "reuse_loop tr sg_empty n = reuse_loop tr sg_empty q"
        using less.prems False par l by (simp add: reuse_loop.simps [of _ _ n])
      then show ?thesis using less.IH [OF d(3) l] nearest_up [OF False q] by metis
    qed
  qed
qed


lemma graph_total:
  assumes inv: "dtree_inv tr" and ok: "graphs_ok tr" and con: "constructs construct" and q: "parent_of tr n = Some q"
  shows "\<exists>g tr1. get_saturated_graph (construct n) n tr = Some (g, tr1) \<and> dn_cache_initialised (tr1 ! q) \<and> dn_graph_cache (tr1 ! q) = g \<and>
    (dn_cache_initialised (tr ! q) \<longrightarrow> g = dn_graph_cache (tr ! q) \<and> tr1 = tr) \<and>
    (\<not> dn_cache_initialised (tr ! q) \<longrightarrow> (\<exists>a. nearest tr q a \<and> construct n (dn_graph_cache (tr ! a)) = Some g))"
proof -
  note d = dtree_parent [OF inv q]
  have l: "q < length tr" using d by linarith
  show ?thesis
  proof (cases "dn_cache_initialised (tr ! q)")
    case True
    have "events (dn_graph_cache (tr ! q)) \<noteq> [] \<or> dn_depth (tr ! n) = 0"
      using ok l True d(4) dtree_depth [OF inv l] by (auto simp: graphs_ok_def)
    then show ?thesis using True q by (auto simp: get_saturated_graph_def)
  next
    case False
    then have q0: "q \<noteq> 0" using inv unfolding dtree_inv_def by metis
    have e: "dn_graph_cache (tr ! q) = sg_empty" using inv l q0 False by (auto simp: dtree_inv_def)
    have dep: "0 < dn_depth (tr ! n)" using dtree_depth [OF inv l] q0 d(4) by simp
    obtain a where a: "reuse_loop tr sg_empty q = Some (dn_graph_cache (tr ! a))" "nearest tr q a"
      using reuse_loop_nearest [OF inv ok l] by blast
    obtain g where "construct n (dn_graph_cache (tr ! a)) = Some g" using con by (metis constructs_def)
    then show ?thesis using q False e dep a l by (auto simp: get_saturated_graph_def sg_empty_def [THEN arg_cong [of _ _ events]])
  qed
qed

text \<open>
  C21. Siblings share their parent's event set and graph, in every tree that calls of trace builders make: an event
  is allocated for a parent once, whichever sibling asks (\<^verbatim>\<open>try_alloc_unf\<close> returns true exactly when it is new, and false
  to every sibling from then on); and \<^verbatim>\<open>get_saturated_graph\<close> fails no assertion, completes the graph of the nearest
  ancestor that has one, and returns that same graph to every sibling from then on without constructing it again. The
  functions that complete graphs are taken to return saturated graphs with events.
\<close>

theorem decision_tree_sharing:
  assumes "constructs construct" "run_calls (dtree_do construct) cs initial_tree = Some tr" "parent_of tr n = Some q"
  shows "(\<exists>b tr1. try_alloc_unf n unf tr = Some (b, tr1) \<and> (b \<longleftrightarrow> unf \<notin> set (dn_children_unf_set (tr ! q))) \<and>
      (\<forall>ds tr2 m. run_calls (dtree_do construct) ds tr1 = Some tr2 \<and> parent_of tr2 m = Some q \<longrightarrow>
         try_alloc_unf m unf tr2 = Some (False, tr2))) \<and>
    (\<exists>g tr1. get_saturated_graph (construct n) n tr = Some (g, tr1) \<and>
      (\<not> dn_cache_initialised (tr ! q) \<longrightarrow> (\<exists>a. nearest tr q a \<and> construct n (dn_graph_cache (tr ! a)) = Some g)) \<and>
      (\<forall>ds tr2 m. run_calls (dtree_do construct) ds tr1 = Some tr2 \<and> parent_of tr2 m = Some q \<longrightarrow>
         get_saturated_graph (construct m) m tr2 = Some (g, tr2)))"
proof (intro conjI)
  have inv: "dtree_inv tr" by (rule dtree_run_inv [OF assms(2)])
  have ok0: "graphs_ok (initial_tree :: ('a, 'b) dtree)"
    by (simp add: graphs_ok_def initial_tree_def root_node_def sg_empty_def wq_empty_def)
  have ok: "graphs_ok tr" by (rule graphs_ok_run [OF assms(1) ok0 assms(2)])
  have l: "q < length tr" using dtree_parent [OF inv assms(3)] by linarith
  obtain b tr1 where a: "try_alloc_unf n unf tr = Some (b, tr1)" "b \<longleftrightarrow> unf \<notin> set (dn_children_unf_set (tr ! q))"
      "unf \<in> set (dn_children_unf_set (tr1 ! q))" "length tr1 = length tr"
    using assms(3) l by (cases "unf \<in> set (dn_children_unf_set (tr ! q))") (auto simp: try_alloc_unf_def Let_def)
  have "try_alloc_unf m unf tr2 = Some (False, tr2)"
    if "run_calls (dtree_do construct) ds tr1 = Some tr2" "parent_of tr2 m = Some q" for ds tr2 m
  proof -
    have "unf \<in> set (dn_children_unf_set (tr2 ! q))"
      using dtree_run_extends [OF try_alloc_keeps(1) [OF inv a(1)] that(1)] a(3,4) l by (auto simp: extends_def)
    then show ?thesis using that(2) by (simp add: try_alloc_unf_def)
  qed
  then show "\<exists>b tr1. try_alloc_unf n unf tr = Some (b, tr1) \<and> (b \<longleftrightarrow> unf \<notin> set (dn_children_unf_set (tr ! q))) \<and>
      (\<forall>ds tr2 m. run_calls (dtree_do construct) ds tr1 = Some tr2 \<and> parent_of tr2 m = Some q \<longrightarrow>
         try_alloc_unf m unf tr2 = Some (False, tr2))" using a by blast
  obtain g tr1 where g: "get_saturated_graph (construct n) n tr = Some (g, tr1)" "dn_cache_initialised (tr1 ! q)" "dn_graph_cache (tr1 ! q) = g"
      "\<not> dn_cache_initialised (tr ! q) \<longrightarrow> (\<exists>a. nearest tr q a \<and> construct n (dn_graph_cache (tr ! a)) = Some g)"
    using graph_total [OF inv ok assms(1,3)] by blast
  have step: "dtree_do construct (D_graph n) tr = Some tr1" using g(1) by simp
  have inv1: "dtree_inv tr1" and len: "q < length tr1" using dtree_do_keeps [OF inv step] l by (auto simp: extends_def)
  have "get_saturated_graph (construct m) m tr2 = Some (g, tr2)"
    if run: "run_calls (dtree_do construct) ds tr1 = Some tr2" and m: "parent_of tr2 m = Some q" for ds tr2 m
  proof -
    have "dn_cache_initialised (tr2 ! q)" "dn_graph_cache (tr2 ! q) = g"
      using dtree_run_extends [OF inv1 run] len g(2,3) by (auto simp: extends_def)
    then show ?thesis
      using graph_total [OF dtree_sys.run_inv [OF inv1 run] graphs_ok_run [OF assms(1) graphs_ok_do [OF assms(1) ok step] run] assms(1) m]
      by auto
  qed
  then show "\<exists>g tr1. get_saturated_graph (construct n) n tr = Some (g, tr1) \<and>
      (\<not> dn_cache_initialised (tr ! q) \<longrightarrow> (\<exists>a. nearest tr q a \<and> construct n (dn_graph_cache (tr ! a)) = Some g)) \<and>
      (\<forall>ds tr2 m. run_calls (dtree_do construct) ds tr1 = Some tr2 \<and> parent_of tr2 m = Some q \<longrightarrow>
         get_saturated_graph (construct m) m tr2 = Some (g, tr2))" using g(1,4) by blast
qed

text \<open>The graphs are completed with one event.\<close>

theorem decision_tree_sharing_witness:
  "\<exists>construct tr g tr1. constructs construct \<and>
     run_calls (dtree_do construct) [D_new 0 (Some 5), D_new 1 None] (initial_tree :: (nat, nat) dtree) = Some tr \<and>
     get_saturated_graph (construct 2) 2 tr = Some (g, tr1) \<and> get_saturated_graph (construct 2) 2 tr1 = Some (g, tr1) \<and>
     try_alloc_unf 2 None tr = Some (False, tr)"
proof -
  let ?c = "\<lambda>(m :: nat) (g :: (nat, nat) sgraph). Some (g\<lparr>events := \<lparr>ev_pid = 0, ev_index = 1, ext_id = 0, is_load = False, is_store = True, addr = 0,
    read_from = None, readers = [], po_predecessor = None\<rparr> # events g, wq_queue := []\<rparr>)"
  let ?run = "\<lambda>cs. run_calls (dtree_do ?c) cs (initial_tree :: (nat, nat) dtree)"
  have c: "constructs ?c" by (simp add: constructs_def wq_empty_def)
  obtain tr where tr: "?run [D_new 0 (Some 5), D_new 1 None] = Some tr" and t: "parent_of tr 2 = Some 1" "None \<in> set (dn_children_unf_set (tr ! 1))"
    by (simp add: initial_tree_def new_decision_node_def alloc_unf_def try_alloc_unf_def parent_of_def child_node_def root_node_def)
  note s = decision_tree_sharing [OF c tr t(1), of None]
  obtain g tr1 where g: "get_saturated_graph (?c 2) 2 tr = Some (g, tr1)"
      "\<And>ds tr2 m. run_calls (dtree_do ?c) ds tr1 = Some tr2 \<and> parent_of tr2 m = Some 1 \<Longrightarrow> get_saturated_graph (?c m) m tr2 = Some (g, tr2)"
    using s [THEN conjunct2] by blast
  have "parent_of tr1 2 = Some 1"
    using dtree_do_keeps [OF dtree_run_inv [OF tr], of ?c "D_graph 2" tr1] g(1) dtree_parent(1) [OF dtree_run_inv [OF tr] t(1)] t(1)
    by (auto simp: extends_def same_place_def parent_of_def split: if_splits)
  then have "get_saturated_graph (?c 2) 2 tr1 = Some (g, tr1)" using g(2) [of "[]" tr1 2] by simp
  moreover have "try_alloc_unf 2 None tr = Some (False, tr)" using t by (simp add: try_alloc_unf_def)
  ultimately show ?thesis using c tr g(1) by blast
qed


section \<open>Copies of leaves\<close>

text \<open>
  The constructor from a prefix makes a leaf that is not bottom, but its copy, which the constructor of a sibling takes,
  is bottom when the prefix is empty; the leaf of the root, the only empty one, is not copied.
\<close>

lemma copied_leaf_bottom:
  "\<not> is_bottom (prefix_leaf pre cap)" "is_bottom (copy_leaf (prefix_leaf pre cap)) \<longleftrightarrow> pre = []"
  by (simp_all add: is_bottom_def prefix_leaf_def copy_leaf_def)


end
