(* ===== verification/Unfolding.thy ===== *)
theory Unfolding
  imports CPids "HOL-Library.Word"
begin

text \<open>
  The unfolding tree, \<^verbatim>\<open>src/src/RFSCUnfoldingTree.h\<close>, \<^verbatim>\<open>src/src/RFSCUnfoldingTree.cpp\<close> and \<^verbatim>\<open>src/src/Seqno.h\<close>. Nodes live in a
  heap; an address is a number that is not used again, as a \<^verbatim>\<open>weak_ptr\<close> never finds another object than its own. The
  steps are the calls of \<^verbatim>\<open>find_unfolding_node\<close>, which are atomic under the mutex of the list they work on, and the
  release of a node by its last \<^verbatim>\<open>shared_ptr\<close>.
\<close>

section \<open>Sequence numbers\<close>

record seqno =
  sq_tid :: "64 word"
  sq_n :: "64 word"

text \<open>The counter of a thread, and the new number of threads.\<close>

definition seqno_new :: "64 word \<Rightarrow> seqno \<times> 64 word" where
  "seqno_new thread_count = (\<lparr>sq_tid = thread_count + 1, sq_n = 0\<rparr>, thread_count + 1)"

definition seqno_inc :: "seqno \<Rightarrow> 64 word \<times> seqno" where
  "seqno_inc c = ((sq_n c + 1) * 1024 + sq_tid c, c\<lparr>sq_n := sq_n c + 1\<rparr>)"

section \<open>The tree\<close>

record unf_node =
  un_parent :: "nat option"
  un_read_from :: "nat option"
  un_children :: "nat list"
  un_seqno :: "32 word"

text \<open>The live nodes, the next address, the lists of first events, and the counters \<^verbatim>\<open>unf_ctr_root\<close> and \<^verbatim>\<open>unf_ctr\<close>.\<close>

record unf_tree =
  ut_nodes :: "nat \<rightharpoonup> unf_node"
  ut_next :: nat
  ut_first :: "cpid \<rightharpoonup> nat list"
  ut_ctr_root :: "64 word"
  ut_ctr :: "nat \<rightharpoonup> seqno"

definition RFSCUnfoldingTree :: unf_tree where
  "RFSCUnfoldingTree = \<lparr>ut_nodes = Map.empty, ut_next = 0, ut_first = Map.empty, ut_ctr_root = 0, ut_ctr = Map.empty\<rparr>"

text \<open>The counter of thread \<open>t\<close> is made when the thread first uses it.\<close>

definition next_seqno :: "nat \<Rightarrow> unf_tree \<Rightarrow> 64 word \<times> unf_tree" where
  "next_seqno t st =
     (let (c, root) = (case ut_ctr st t of Some c \<Rightarrow> (c, ut_ctr_root st) | None \<Rightarrow> seqno_new (ut_ctr_root st));
          (n, c1) = seqno_inc c
      in (n, st\<lparr>ut_ctr_root := root, ut_ctr := (ut_ctr st)(t \<mapsto> c1)\<rparr>))"

text \<open>The constructor; its \<^verbatim>\<open>seqno\<close> is \<^verbatim>\<open>unsigned\<close>.\<close>

definition UnfoldingNode :: "nat option \<Rightarrow> nat option \<Rightarrow> 64 word \<Rightarrow> unf_node" where
  "UnfoldingNode parent read_from n =
     \<lparr>un_parent = parent, un_read_from = read_from, un_children = [], un_seqno = ucast n\<rparr>"

text \<open>
  The loop of \<^verbatim>\<open>get_or_create\<close> over the children: expired entries are replaced by the last one. The result is the node
  that was found and the list; \<open>None\<close> is a failed assertion.
\<close>

function find_child ::
  "(nat \<rightharpoonup> unf_node) \<Rightarrow> nat option \<Rightarrow> nat option \<Rightarrow> nat \<Rightarrow> nat list \<Rightarrow> (nat option \<times> nat list) option" where
  "find_child nodes parent read_from ci parent_list =
     (if ci < length parent_list then
        case nodes (parent_list ! ci) of
          None \<Rightarrow> find_child nodes parent read_from ci (butlast (parent_list[ci := last parent_list]))
        | Some c \<Rightarrow>
            if un_read_from c = read_from
            then if parent = un_parent c then Some (Some (parent_list ! ci), parent_list) else None
            else find_child nodes parent read_from (Suc ci) parent_list
      else Some (None, parent_list))"
  by pat_completeness auto
termination
  by (relation "measure (\<lambda>(nodes, parent, read_from, ci, parent_list). length parent_list - ci)") auto

declare find_child.simps [simp del]

text \<open>The children list that a call works on, and its update.\<close>

definition get_unfolding_root :: "cpid \<Rightarrow> unf_tree \<Rightarrow> nat list \<times> unf_tree" where
  "get_unfolding_root p st =
     (case ut_first st p of
        Some l \<Rightarrow> (l, st)
      | None \<Rightarrow> ([], st\<lparr>ut_first := (ut_first st)(p \<mapsto> [])\<rparr>))"

definition children_of :: "cpid \<Rightarrow> nat option \<Rightarrow> unf_tree \<Rightarrow> nat list" where
  "children_of p parent st =
     (case parent of
        Some q \<Rightarrow> (case ut_nodes st q of Some x \<Rightarrow> un_children x | None \<Rightarrow> [])
      | None \<Rightarrow> (case ut_first st p of Some l \<Rightarrow> l | None \<Rightarrow> []))"

definition set_children :: "cpid \<Rightarrow> nat option \<Rightarrow> nat list \<Rightarrow> unf_tree \<Rightarrow> unf_tree" where
  "set_children p parent l st =
     (case parent of
        Some q \<Rightarrow> st\<lparr>ut_nodes := (ut_nodes st)(q := map_option (\<lambda>x. x\<lparr>un_children := l\<rparr>) (ut_nodes st q))\<rparr>
      | None \<Rightarrow> st\<lparr>ut_first := (ut_first st)(p \<mapsto> l)\<rparr>)"

definition get_or_create :: "nat \<Rightarrow> cpid \<Rightarrow> nat list \<Rightarrow> nat option \<Rightarrow> nat option \<Rightarrow> unf_tree \<Rightarrow> (nat \<times> unf_tree) option" where
  "get_or_create t p parent_list parent read_from st =
     (case find_child (ut_nodes st) parent read_from 0 parent_list of
        None \<Rightarrow> None
      | Some (Some c, l) \<Rightarrow> Some (c, set_children p parent l st)
      | Some (None, l) \<Rightarrow>
          (let (n, st1) = next_seqno t st;
               c = ut_next st1;
               st2 = st1\<lparr>ut_nodes := (ut_nodes st1)(c \<mapsto> UnfoldingNode parent read_from n), ut_next := c + 1\<rparr>
           in Some (c, set_children p parent (l @ [c]) st2)))"

definition find_unfolding_node :: "nat \<Rightarrow> cpid \<Rightarrow> nat option \<Rightarrow> nat option \<Rightarrow> unf_tree \<Rightarrow> (nat \<times> unf_tree) option" where
  "find_unfolding_node t p parent read_from st =
     (case parent of
        Some q \<Rightarrow> (case ut_nodes st q of
                     None \<Rightarrow> None
                   | Some x \<Rightarrow> get_or_create t p (un_children x) parent read_from st)
      | None \<Rightarrow> (let (l, st1) = get_unfolding_root p st in get_or_create t p l parent read_from st1))"

text \<open>The last pointer to a node goes away: it is then neither the parent of a live node nor read from by one.\<close>

definition release_node :: "nat \<Rightarrow> unf_tree \<Rightarrow> unf_tree option" where
  "release_node c st =
     (if ut_nodes st c \<noteq> None \<and>
         (\<forall>n < ut_next st. case ut_nodes st n of None \<Rightarrow> True | Some x \<Rightarrow> un_parent x \<noteq> Some c \<and> un_read_from x \<noteq> Some c)
      then Some (st\<lparr>ut_nodes := (ut_nodes st)(c := None)\<rparr>) else None)"

text \<open>The pointers that the caller passes keep their nodes alive.\<close>

definition live_ptr :: "unf_tree \<Rightarrow> nat option \<Rightarrow> bool" where
  "live_ptr st q = (case q of None \<Rightarrow> True | Some n \<Rightarrow> ut_nodes st n \<noteq> None)"

datatype unf_call = U_find nat cpid "nat option" "nat option" | U_release nat

fun unf_do :: "unf_call \<Rightarrow> unf_tree \<Rightarrow> unf_tree option" where
  "unf_do (U_find t p parent read_from) st =
     (if live_ptr st parent \<and> live_ptr st read_from then map_option snd (find_unfolding_node t p parent read_from st) else None)"
| "unf_do (U_release c) st = release_node c st"

section \<open>Invariant\<close>

text \<open>What identifies a live node among the events of its thread.\<close>

definition ukey :: "unf_tree \<Rightarrow> nat \<Rightarrow> (nat option \<times> nat option) option" where
  "ukey st n = map_option (\<lambda>x. (un_parent x, un_read_from x)) (ut_nodes st n)"

definition unf_inv :: "unf_tree \<Rightarrow> bool" where
  "unf_inv st \<longleftrightarrow>
     (\<forall>n q r. ukey st n = Some (q, r) \<longrightarrow> n < ut_next st \<and> live_ptr st q \<and> live_ptr st r) \<and>
     (\<forall>p q. \<forall>c \<in> set (children_of p q st). c < ut_next st) \<and>
     (\<forall>p q c k. c \<in> set (children_of p q st) \<and> ukey st c = Some k \<longrightarrow> fst k = q) \<and>
     (\<forall>p q c d k. c \<in> set (children_of p q st) \<and> d \<in> set (children_of p q st) \<and> ukey st c = Some k \<and>
        ukey st d = Some k \<longrightarrow> c = d) \<and>
     (\<forall>p p1 c. c \<in> set (children_of p None st) \<and> c \<in> set (children_of p1 None st) \<and> ukey st c \<noteq> None \<longrightarrow> p = p1)"

lemma unf_invD:
  assumes "unf_inv st"
  shows "ukey st n = Some (q, r) \<Longrightarrow> n < ut_next st \<and> live_ptr st q \<and> live_ptr st r"
    "c \<in> set (children_of p q st) \<Longrightarrow> c < ut_next st"
    "c \<in> set (children_of p q st) \<Longrightarrow> ukey st c = Some k \<Longrightarrow> fst k = q"
    "c \<in> set (children_of p q st) \<Longrightarrow> d \<in> set (children_of p q st) \<Longrightarrow> ukey st c = Some k \<Longrightarrow> ukey st d = Some k \<Longrightarrow> c = d"
    "c \<in> set (children_of p None st) \<Longrightarrow> c \<in> set (children_of p1 None st) \<Longrightarrow> ukey st c \<noteq> None \<Longrightarrow> p = p1"
  using assms unfolding unf_inv_def by blast+

lemma live_ptr_ukey: "live_ptr st q \<longleftrightarrow> (\<forall>n. q = Some n \<longrightarrow> ukey st n \<noteq> None)"
  by (cases q) (auto simp: live_ptr_def ukey_def)

lemma ukey_none: "ukey st n = None \<longleftrightarrow> ut_nodes st n = None"
  by (simp add: ukey_def)

text \<open>The list of \<open>(p, q)\<close> is that of \<open>(p0, q0)\<close>: the thread only matters for first events.\<close>

definition same_list :: "cpid \<Rightarrow> nat option \<Rightarrow> cpid \<Rightarrow> nat option \<Rightarrow> bool" where
  "same_list p q p0 q0 \<longleftrightarrow> q = q0 \<and> (q0 = None \<longrightarrow> p = p0)"

lemma set_children_frame [simp]:
  "ukey (set_children p q l st) = ukey st" "ut_next (set_children p q l st) = ut_next st"
  by (auto simp: ukey_def set_children_def fun_eq_iff option.map_comp o_def split: option.splits)

lemma children_of_set_children:
  "live_ptr st q0 \<Longrightarrow>
   children_of p q (set_children p0 q0 l st) = (if same_list p q p0 q0 then l else children_of p q st)"
  by (auto simp: children_of_def set_children_def live_ptr_def same_list_def split: option.splits)

lemma next_seqno_frame [simp]:
  "ut_nodes (snd (next_seqno t st)) = ut_nodes st" "ut_next (snd (next_seqno t st)) = ut_next st"
  "ut_first (snd (next_seqno t st)) = ut_first st"
  by (simp_all add: next_seqno_def Let_def split: prod.splits)

text \<open>What the loop returns.\<close>

definition alive :: "(nat \<rightharpoonup> unf_node) \<Rightarrow> nat list \<Rightarrow> nat set" where
  "alive nodes l = {c \<in> set l. nodes c \<noteq> None}"

lemma drop_expired:
  assumes "ci < length l" "nodes (l ! ci) = None"
  shows "alive nodes (butlast (l[ci := last l])) = alive nodes l" "set (butlast (l[ci := last l])) \<subseteq> set l"
    "take ci (butlast (l[ci := last l])) = take ci l"
proof -
  obtain b y where l: "l = b @ [y]" using assms(1) by (metis length_0_conv less_nat_zero_code rev_exhaust)
  have "ci = length b \<or> ci < length b" using assms(1) l by auto
  then have "alive nodes (butlast (l[ci := last l])) = alive nodes l \<and> set (butlast (l[ci := last l])) \<subseteq> set l \<and>
    take ci (butlast (l[ci := last l])) = take ci l"
  proof
    assume "ci = length b"
    then show ?thesis using assms(2) by (auto simp: l alive_def list_update_append)
  next
    assume c: "ci < length b"
    then have e: "butlast (l[ci := last l]) = b[ci := y]" "nodes (b ! ci) = None"
      using assms(2) by (simp_all add: l list_update_append nth_append)
    have "alive nodes (b[ci := y]) = alive nodes l"
    proof -
      have "b = take ci b @ b ! ci # drop (Suc ci) b" by (rule id_take_nth_drop [OF c])
      then have "set b = insert (b ! ci) (set (take ci b) \<union> set (drop (Suc ci) b))"
        by (metis Un_insert_right list.simps(15) set_append)
      then show ?thesis using e(2) unfolding alive_def l by (auto simp: upd_conv_take_nth_drop [OF c])
    qed
    then show ?thesis unfolding e(1) using c set_update_subset_insert [of b ci y] by (auto simp: l)
  qed
  then show "alive nodes (butlast (l[ci := last l])) = alive nodes l" "set (butlast (l[ci := last l])) \<subseteq> set l"
    "take ci (butlast (l[ci := last l])) = take ci l" by auto
qed

lemma find_child_result:
  assumes "\<forall>c x. c \<in> set l \<and> nodes c = Some x \<longrightarrow> un_parent x = parent"
    and "\<forall>c x. c \<in> set (take ci l) \<and> nodes c = Some x \<longrightarrow> un_read_from x \<noteq> rf"
  shows "\<exists>r l1. find_child nodes parent rf ci l = Some (r, l1) \<and> alive nodes l1 = alive nodes l \<and> set l1 \<subseteq> set l \<and>
    (case r of None \<Rightarrow> \<forall>c x. c \<in> set l1 \<and> nodes c = Some x \<longrightarrow> un_read_from x \<noteq> rf
     | Some c \<Rightarrow> c \<in> set l1 \<and> (\<exists>x. nodes c = Some x \<and> un_read_from x = rf))"
  using assms
proof (induction nodes parent rf ci l rule: find_child.induct)
  case (1 nodes parent rf ci l)
  show ?case
  proof (cases "ci < length l")
    case False
    then show ?thesis using 1(4) by (simp add: find_child.simps [of _ _ _ ci])
  next
    case ci: True
    show ?thesis
    proof (cases "nodes (l ! ci)")
      case None
      note d = drop_expired [of ci l nodes, OF ci None]
      let ?l = "butlast (l[ci := last l])"
      have "\<forall>c x. c \<in> set ?l \<and> nodes c = Some x \<longrightarrow> un_parent x = parent" using 1(3) d(2) by blast
      moreover have "\<forall>c x. c \<in> set (take ci ?l) \<and> nodes c = Some x \<longrightarrow> un_read_from x \<noteq> rf" using 1(4) unfolding d(3) .
      ultimately obtain r l1 where r: "find_child nodes parent rf ci ?l = Some (r, l1)" "alive nodes l1 = alive nodes ?l" "set l1 \<subseteq> set ?l"
        "case r of None \<Rightarrow> \<forall>c x. c \<in> set l1 \<and> nodes c = Some x \<longrightarrow> un_read_from x \<noteq> rf
         | Some c \<Rightarrow> c \<in> set l1 \<and> (\<exists>x. nodes c = Some x \<and> un_read_from x = rf)"
        using 1(1) [OF ci None] by blast
      have "find_child nodes parent rf ci l = Some (r, l1)" using ci None r(1) by (simp add: find_child.simps [of _ _ _ ci l])
      then show ?thesis using r(2-4) d(1,2) by blast
    next
      case (Some c)
      show ?thesis
      proof (cases "un_read_from c = rf")
        case True
        moreover have "parent = un_parent c" using ci Some 1(3) nth_mem by metis
        ultimately show ?thesis using ci Some by (simp add: find_child.simps [of _ _ _ ci l])
      next
        case False
        have "\<forall>d x. d \<in> set (take (Suc ci) l) \<and> nodes d = Some x \<longrightarrow> un_read_from x \<noteq> rf"
          using 1(4) False Some ci by (auto simp: take_Suc_conv_app_nth)
        then show ?thesis using 1(2) [OF ci Some False] 1(3) ci Some False by (simp add: find_child.simps [of _ _ _ ci l])
      qed
    qed
  qed
qed

text \<open>The call works on the list of the parent or of the thread.\<close>

lemma find_is_get_or_create:
  assumes "live_ptr st parent"
  obtains st0 where "find_unfolding_node t p parent rf st = get_or_create t p (children_of p parent st) parent rf st0"
    "ut_nodes st0 = ut_nodes st" "ut_next st0 = ut_next st" "\<And>p q. children_of p q st0 = children_of p q st"
proof (cases parent)
  case None
  let ?st0 = "snd (get_unfolding_root p st)"
  show ?thesis
    by (rule that [of ?st0])
      (auto simp: None find_unfolding_node_def get_unfolding_root_def children_of_def split: option.splits)
next
  case (Some q)
  then show ?thesis using assms
    by (intro that [of st]) (auto simp: find_unfolding_node_def children_of_def live_ptr_def)
qed

text \<open>What a call does: it finds the node with this key in the list, or creates it.\<close>

definition found :: "cpid \<Rightarrow> nat option \<Rightarrow> nat option \<Rightarrow> unf_tree \<Rightarrow> nat \<Rightarrow> unf_tree \<Rightarrow> bool" where
  "found p parent rf st c st1 \<longleftrightarrow>
     (if c \<in> set (children_of p parent st) \<and> ukey st c = Some (parent, rf) then ut_next st1 = ut_next st
      else c = ut_next st \<and> ut_next st1 = Suc c \<and> (\<forall>d \<in> set (children_of p parent st). ukey st d \<noteq> Some (parent, rf))) \<and>
     ukey st1 = (ukey st)(c \<mapsto> (parent, rf)) \<and>
     c \<in> set (children_of p parent st1) \<and>
     (\<forall>p1 q d. d \<in> set (children_of p1 q st1) \<longrightarrow> d \<in> set (children_of p1 q st) \<or> (d = c \<and> same_list p1 q p parent)) \<and>
     (\<forall>p1 q d. d \<in> set (children_of p1 q st) \<and> ukey st d \<noteq> None \<longrightarrow> d \<in> set (children_of p1 q st1))"

lemma same_list_children: "same_list p1 q p parent \<Longrightarrow> children_of p1 q st = children_of p parent st"
  by (cases parent) (auto simp: same_list_def children_of_def)

lemma found_old:
  assumes "live_ptr st parent" "c \<in> set l" "ukey st c = Some (parent, rf)" "set l \<subseteq> set (children_of p parent st)"
    and "alive (ut_nodes st) l = alive (ut_nodes st) (children_of p parent st)"
  shows "found p parent rf st c (set_children p parent l st)"
proof -
  let ?st1 = "set_children p parent l st"
  note ch = children_of_set_children [OF assms(1), where ?p0.0 = p and l = l]
  have "same_list p parent p parent" by (simp add: same_list_def)
  then have in1: "c \<in> set (children_of p parent ?st1)" using assms(2) by (simp add: ch)
  have "d \<in> set (children_of p1 q st)" if "d \<in> set (children_of p1 q ?st1)" for p1 q d
    using that assms(4) same_list_children [of p1 q p parent st] by (auto simp: ch split: if_splits)
  moreover have "d \<in> set (children_of p1 q ?st1)" if d: "d \<in> set (children_of p1 q st)" "ukey st d \<noteq> None" for p1 q d
  proof (cases "same_list p1 q p parent")
    case True
    then have "d \<in> alive (ut_nodes st) l"
      unfolding assms(5) using d same_list_children [OF True] by (simp add: alive_def ukey_none)
    then show ?thesis using True by (simp add: ch alive_def)
  qed (use d ch in simp)
  moreover have "c \<in> set (children_of p parent st)" using assms(2,4) by blast
  ultimately show ?thesis using assms(3) in1 unfolding found_def by (simp add: fun_upd_idem)
qed

lemma found_new:
  assumes "unf_inv st" "live_ptr st parent" "set l \<subseteq> set (children_of p parent st)"
    and "alive (ut_nodes st) l = alive (ut_nodes st) (children_of p parent st)"
    and "\<forall>d \<in> set l. ukey st d \<noteq> Some (parent, rf)"
    and st2: "ukey st2 = (ukey st)(ut_next st \<mapsto> (parent, rf))" "ut_next st2 = Suc (ut_next st)"
      "\<And>p q. children_of p q st2 = children_of p q st"
  shows "found p parent rf st (ut_next st) (set_children p parent (l @ [ut_next st]) st2)"
proof -
  note s = same_list_children [of _ _ p parent st]
  have live: "live_ptr st2 parent" using assms(2) by (simp add: live_ptr_ukey st2)
  have new: "ut_next st \<notin> set (children_of p parent st)" using unf_invD(2) [OF assms(1)] by blast
  have no: "\<forall>d \<in> set (children_of p parent st). ukey st d \<noteq> Some (parent, rf)"
  proof
    fix d
    assume d: "d \<in> set (children_of p parent st)"
    show "ukey st d \<noteq> Some (parent, rf)"
    proof (cases "ukey st d")
      case (Some k)
      then have "d \<in> alive (ut_nodes st) l" unfolding assms(4) using d by (auto simp: alive_def ukey_def)
      then show ?thesis using assms(5) by (simp add: alive_def)
    qed simp
  qed
  let ?st1 = "set_children p parent (l @ [ut_next st]) st2"
  note ch = children_of_set_children [OF live, where ?p0.0 = p and l = "l @ [ut_next st]", unfolded st2(3)]
  have "same_list p parent p parent" by (simp add: same_list_def)
  then have in1: "ut_next st \<in> set (children_of p parent ?st1)" by (simp add: ch)
  have "d \<in> set (children_of p1 q st) \<or> d = ut_next st \<and> same_list p1 q p parent"
    if "d \<in> set (children_of p1 q ?st1)" for p1 q d
    using that assms(3) s [of p1 q] by (auto simp: ch split: if_splits)
  moreover have "d \<in> set (children_of p1 q ?st1)" if d: "d \<in> set (children_of p1 q st)" "ukey st d \<noteq> None" for p1 q d
  proof (cases "same_list p1 q p parent")
    case True
    then have "d \<in> alive (ut_nodes st) l"
      unfolding assms(4) using d s [OF True] by (simp add: alive_def ukey_none)
    then show ?thesis using True by (simp add: ch alive_def)
  qed (use d ch in simp)
  ultimately show ?thesis using new no in1 st2(1,2) unfolding found_def by simp
qed

lemma find_total:
  assumes inv: "unf_inv st" and live: "live_ptr st parent"
  shows "\<exists>c st1. find_unfolding_node t p parent rf st = Some (c, st1) \<and> found p parent rf st c st1"
proof (rule find_is_get_or_create [OF live])
  fix st0
  let ?l = "children_of p parent st"
  assume f: "find_unfolding_node t p parent rf st = get_or_create t p ?l parent rf st0"
    and st0: "ut_nodes st0 = ut_nodes st" "ut_next st0 = ut_next st" "\<And>p q. children_of p q st0 = children_of p q st"
  have k0: "ukey st0 = ukey st" by (simp add: ukey_def st0 fun_eq_iff)
  have l0: "live_ptr st0 = live_ptr st" by (simp add: fun_eq_iff live_ptr_def st0(1) split: option.split)
  have inv0: "unf_inv st0" using inv unfolding unf_inv_def k0 l0 st0(2,3) .
  have live0: "live_ptr st0 parent" using live by (simp add: l0)
  have e: "found p parent rf st0 c s \<Longrightarrow> found p parent rf st c s" for c s
    unfolding found_def k0 st0(2,3) .
  have par: "\<forall>c x. c \<in> set ?l \<and> ut_nodes st0 c = Some x \<longrightarrow> un_parent x = parent"
    using unf_invD(3) [OF inv] by (fastforce simp: ukey_def st0)
  obtain r l1 where r: "find_child (ut_nodes st0) parent rf 0 ?l = Some (r, l1)" "alive (ut_nodes st0) l1 = alive (ut_nodes st0) ?l"
      "set l1 \<subseteq> set ?l" "case r of None \<Rightarrow> \<forall>c x. c \<in> set l1 \<and> ut_nodes st0 c = Some x \<longrightarrow> un_read_from x \<noteq> rf
        | Some c \<Rightarrow> c \<in> set l1 \<and> (\<exists>x. ut_nodes st0 c = Some x \<and> un_read_from x = rf)"
    using find_child_result [OF par, of 0 rf] by auto
  show ?thesis
  proof (cases r)
    case (Some c)
    have "ukey st0 c = Some (parent, rf)" using r(3,4) Some par by (auto simp: ukey_def)
    then have "found p parent rf st0 c (set_children p parent l1 st0)"
      using found_old [OF live0, of c l1 rf p] r(2,3,4) Some by (simp add: st0(3))
    then show ?thesis using f r(1) Some e by (simp add: get_or_create_def)
  next
    case None
    obtain n st1 where n: "next_seqno t st0 = (n, st1)" by (cases "next_seqno t st0")
    have st1: "ut_nodes st1 = ut_nodes st0" "ut_next st1 = ut_next st0" "ut_first st1 = ut_first st0"
      using next_seqno_frame [of t st0] by (simp_all add: n)
    let ?st2 = "st1\<lparr>ut_nodes := (ut_nodes st1)(ut_next st1 \<mapsto> UnfoldingNode parent rf n), ut_next := ut_next st1 + 1\<rparr>"
    have fresh: "ukey st0 (ut_next st0) = None"
      using unf_invD(1) [OF inv0, of "ut_next st0"] by (cases "ukey st0 (ut_next st0)") auto
    have k2: "ukey ?st2 = (ukey st0)(ut_next st0 \<mapsto> (parent, rf))"
      by (simp add: ukey_def fun_eq_iff st1 UnfoldingNode_def)
    have c2: "children_of p q ?st2 = children_of p q st0" for p q
      using fresh by (auto simp: children_of_def st1 UnfoldingNode_def ukey_none split: option.splits)
    have no: "\<forall>d \<in> set l1. ukey st0 d \<noteq> Some (parent, rf)" using r(4) None by (auto simp: ukey_def)
    have "found p parent rf st0 (ut_next st0) (set_children p parent (l1 @ [ut_next st0]) ?st2)"
      by (rule found_new [OF inv0 live0 _ _ no k2 _ c2]) (use r(2,3) st1 in \<open>simp_all add: st0(3)\<close>)
    then show ?thesis using f r(1) None n e by (simp add: get_or_create_def Let_def st1 st0(2))
  qed
qed

lemma found_live_ptr: "found p parent rf st c st1 \<Longrightarrow> live_ptr st q \<Longrightarrow> live_ptr st1 q"
  by (auto simp: live_ptr_ukey found_def)

lemma found_inv:
  assumes inv: "unf_inv st" and fd: "found p parent rf st c st1" and live: "live_ptr st parent" "live_ptr st rf"
  shows "unf_inv st1"
proof -
  have k: "ukey st1 = (ukey st)(c \<mapsto> (parent, rf))" using fd by (simp add: found_def)
  have nx: "c < ut_next st1" "ut_next st \<le> ut_next st1"
    using fd unf_invD(2) [OF inv, of c p parent] by (auto simp: found_def split: if_splits)
  have alt: "c \<in> set (children_of p parent st) \<and> ukey st c = Some (parent, rf) \<or>
      c = ut_next st \<and> (\<forall>d \<in> set (children_of p parent st). ukey st d \<noteq> Some (parent, rf))"
    using fd unfolding found_def by presburger
  have old: "d \<in> set (children_of p1 q st) \<or> d = c \<and> same_list p1 q p parent" if "d \<in> set (children_of p1 q st1)" for p1 q d
    using fd that by (simp add: found_def)
  have uniq: "d = c" if "d \<in> set (children_of p parent st1)" "ukey st1 d = Some (parent, rf)" for d
  proof (rule ccontr)
    assume "d \<noteq> c"
    then have d: "d \<in> set (children_of p parent st)" "ukey st d = Some (parent, rf)" using old [OF that(1)] that(2) by (auto simp: k)
    show False using alt
    proof
      assume m: "c \<in> set (children_of p parent st) \<and> ukey st c = Some (parent, rf)"
      show False using unf_invD(4) [OF inv d(1) _ d(2)] m \<open>d \<noteq> c\<close> by blast
    qed (use d in blast)
  qed
  have new: "same_list p1 q p parent" if "c \<in> set (children_of p1 q st1)" for p1 q
  proof (cases "c \<in> set (children_of p1 q st)")
    case True
    then have "c \<noteq> ut_next st" using unf_invD(2) [OF inv] by blast
    then have m: "c \<in> set (children_of p parent st)" "ukey st c = Some (parent, rf)" using alt by blast+
    then have "q = parent" using unf_invD(3) [OF inv True] by simp
    then show ?thesis using unf_invD(5) [OF inv] True m by (auto simp: same_list_def)
  qed (use old [OF that] in auto)
  show ?thesis unfolding unf_inv_def
  proof (intro conjI allI impI ballI)
    fix n q r assume "ukey st1 n = Some (q, r)"
    then have n: "n = c \<and> q = parent \<and> r = rf \<or> ukey st n = Some (q, r)" by (auto simp: k split: if_splits)
    then show "n < ut_next st1" "live_ptr st1 q" "live_ptr st1 r"
      using nx live found_live_ptr [OF fd] by (auto dest!: unf_invD(1) [OF inv])
  next
    fix p1 q d assume "d \<in> set (children_of p1 q st1)"
    then show "d < ut_next st1" using old [of d p1 q] unf_invD(2) [OF inv] nx by (auto dest: less_le_trans)
  next
    fix p1 q d key assume d: "d \<in> set (children_of p1 q st1) \<and> ukey st1 d = Some key"
    show "fst key = q"
    proof (cases "d = c")
      case True
      then show ?thesis using new d by (auto simp: k same_list_def)
    qed (use d old [of d p1 q] unf_invD(3) [OF inv] in \<open>auto simp: k\<close>)
  next
    fix p1 q d d1 key
    assume d: "d \<in> set (children_of p1 q st1) \<and> d1 \<in> set (children_of p1 q st1) \<and> ukey st1 d = Some key \<and> ukey st1 d1 = Some key"
    show "d = d1"
    proof (cases "d = c \<or> d1 = c")
      case True
      then have "same_list p1 q p parent" "key = (parent, rf)" using new d by (auto simp: k)
      then show ?thesis using uniq d same_list_children [of p1 q p parent st1] by metis
    qed (use d old [of d p1 q] old [of d1 p1 q] unf_invD(4) [OF inv] in \<open>auto simp: k\<close>)
  next
    fix p1 p2 d
    assume d: "d \<in> set (children_of p1 None st1) \<and> d \<in> set (children_of p2 None st1) \<and> ukey st1 d \<noteq> None"
    show "p1 = p2"
    proof (cases "d = c")
      case True
      then show ?thesis using new [of p1 None] new [of p2 None] d by (auto simp: same_list_def)
    qed (use d old [of d p1 None] old [of d p2 None] unf_invD(5) [OF inv] in \<open>auto simp: k\<close>)
  qed
qed


lemma release_inv:
  assumes inv: "unf_inv st" and rel: "release_node c st = Some st1"
  shows "unf_inv st1"
proof -
  have c: "ukey st n = Some (q, r) \<Longrightarrow> q \<noteq> Some c \<and> r \<noteq> Some c" for n q r
    using rel unf_invD(1) [OF inv, of n q r] by (auto simp: release_node_def ukey_def split: if_splits)
  have st1: "st1 = st\<lparr>ut_nodes := (ut_nodes st)(c := None)\<rparr>" using rel by (auto simp: release_node_def split: if_splits)
  have k: "ukey st1 = (ukey st)(c := None)" by (simp add: st1 ukey_def fun_eq_iff)
  have ch: "set (children_of p q st1) \<subseteq> set (children_of p q st)" for p q
    by (auto simp: st1 children_of_def split: option.splits if_splits)
  have nx: "ut_next st1 = ut_next st" by (simp add: st1)
  have "n < ut_next st1 \<and> live_ptr st1 q \<and> live_ptr st1 r" if "ukey st1 n = Some (q, r)" for n q r
    using that unf_invD(1) [OF inv, of n q r] c [of n q r] by (auto simp: live_ptr_ukey k nx split: if_splits)
  moreover have "ukey st1 n = Some key \<Longrightarrow> ukey st n = Some key" for n key by (auto simp: k split: if_splits)
  ultimately show ?thesis
    using inv unfolding unf_inv_def nx by (smt (verit) ch subsetD not_Some_eq)
qed

text \<open>A node keeps its place as long as it is alive, and an address is not given to another node.\<close>

definition is_event :: "cpid \<Rightarrow> nat option \<Rightarrow> nat option \<Rightarrow> nat \<Rightarrow> unf_tree \<Rightarrow> bool" where
  "is_event p parent rf c st \<longleftrightarrow> c < ut_next st \<and>
     (ukey st c = None \<or> ukey st c = Some (parent, rf) \<and> c \<in> set (children_of p parent st))"

definition unf_init :: "unf_tree \<Rightarrow> bool" where
  "unf_init st = (st = RFSCUnfoldingTree)"

lemma unf_do_cases:
  assumes "unf_inv st" "unf_do call st = Some st1"
  obtains p parent rf c where "found p parent rf st c st1" "live_ptr st parent" "live_ptr st rf" | c where "release_node c st = Some st1"
proof (cases call)
  case (U_find t p parent rf)
  then have l: "live_ptr st parent" "live_ptr st rf" "map_option snd (find_unfolding_node t p parent rf st) = Some st1"
    using assms(2) by (auto split: if_splits)
  then show ?thesis using find_total [OF assms(1) l(1), of t p rf] that(1) by auto
next
  case (U_release c)
  then show ?thesis using assms(2) that(2) by simp
qed

interpretation unf_sys: call_system unf_init unf_do unf_inv
proof
  show "unf_inv s" if "unf_init s" for s
    using that by (auto simp: unf_init_def unf_inv_def RFSCUnfoldingTree_def ukey_def children_of_def split: option.splits)
  show "unf_inv t" if "unf_inv s" "unf_do c s = Some t" for s c t
    by (rule unf_do_cases [OF that]) (auto intro: found_inv release_inv that(1))
qed

lemma event_kept:
  assumes inv: "unf_inv st" and step: "unf_do call st = Some st1" and ev: "is_event p parent rf c st"
  shows "is_event p parent rf c st1"
proof (rule unf_do_cases [OF inv step])
  fix p0 parent0 rf0 c0
  assume fd: "found p0 parent0 rf0 st c0 st1"
  have k: "ukey st1 = (ukey st)(c0 \<mapsto> (parent0, rf0))" using fd by (simp add: found_def)
  have keep: "\<And>p1 q d. d \<in> set (children_of p1 q st) \<Longrightarrow> ukey st d \<noteq> None \<Longrightarrow> d \<in> set (children_of p1 q st1)"
    using fd by (simp add: found_def)
  have alt: "ukey st c0 = Some (parent0, rf0) \<and> ut_next st1 = ut_next st \<or> c0 = ut_next st \<and> ut_next st1 = Suc c0"
    using fd unfolding found_def by presburger
  show ?thesis using alt ev keep [of c p parent] by (auto simp: is_event_def k)
next
  fix c0
  assume "release_node c0 st = Some st1"
  then have st1: "st1 = st\<lparr>ut_nodes := (ut_nodes st)(c0 := None)\<rparr>" and free: "ukey st n = Some (q, r) \<Longrightarrow> q \<noteq> Some c0" for n q r
    using unf_invD(1) [OF inv, of n q r] by (auto simp: release_node_def ukey_def split: if_splits)
  show ?thesis using ev free [of c parent rf] by (auto simp: is_event_def st1 ukey_def children_of_def split: option.splits)
qed


section \<open>Property\<close>

lemma events_kept:
  "unf_inv st \<Longrightarrow> run_calls unf_do cs st = Some st1 \<Longrightarrow> is_event p parent rf c st \<Longrightarrow> is_event p parent rf c st1"
proof (induction cs arbitrary: st)
  case (Cons call cs)
  then obtain s where s: "unf_do call st = Some s" "run_calls unf_do cs s = Some st1" by (auto split: bind_splits)
  show ?case
    by (rule Cons.IH [OF unf_sys.call_inv [OF Cons.prems(1) s(1)] s(2) event_kept [OF Cons.prems(1) s(1) Cons.prems(3)]])
qed simp

text \<open>
  C14. Each event is represented by a unique node, so that pointers can be compared for equality of events: after any
  calls and releases of nodes, \<^verbatim>\<open>find_unfolding_node\<close> fails no assertion and returns a live node \<open>c\<close> with the given
  parent and read-from node; and as long as that node is alive, whatever happens in between, a call returns \<open>c\<close> again
  exactly when it is made for the same parent, the same read-from node and (for first events) the same thread.
\<close>

theorem unfolding_nodes_unique:
  assumes "run_calls unf_do cs RFSCUnfoldingTree = Some st" "live_ptr st parent" "live_ptr st read_from"
  shows "\<exists>c st1 x. find_unfolding_node t p parent read_from st = Some (c, st1) \<and> ut_nodes st1 c = Some x \<and>
    un_parent x = parent \<and> un_read_from x = read_from \<and>
    (\<forall>ds st2 t' p' parent' read_from'.
       run_calls unf_do ds st1 = Some st2 \<and> ut_nodes st2 c \<noteq> None \<and> live_ptr st2 parent' \<and> live_ptr st2 read_from' \<longrightarrow>
       (\<exists>c' st3. find_unfolding_node t' p' parent' read_from' st2 = Some (c', st3) \<and>
          (c' = c \<longleftrightarrow> parent' = parent \<and> read_from' = read_from \<and> (parent = None \<longrightarrow> p' = p))))"
proof -
  have inv: "unf_inv st" using unf_sys.reachable_inv [OF _ assms(1)] by (simp add: unf_init_def)
  obtain c st1 where f: "find_unfolding_node t p parent read_from st = Some (c, st1)" "found p parent read_from st c st1"
    using find_total [OF inv assms(2)] by blast
  have inv1: "unf_inv st1" by (rule found_inv [OF inv f(2) assms(2,3)])
  have k1: "ukey st1 c = Some (parent, read_from)" and in1: "c \<in> set (children_of p parent st1)" using f(2) by (simp_all add: found_def)
  then have ev1: "is_event p parent read_from c st1" using unf_invD(2) [OF inv1] by (simp add: is_event_def)
  have "\<exists>c' st3. find_unfolding_node t' p' parent' read_from' st2 = Some (c', st3) \<and>
      (c' = c \<longleftrightarrow> parent' = parent \<and> read_from' = read_from \<and> (parent = None \<longrightarrow> p' = p))"
    if run: "run_calls unf_do ds st1 = Some st2" and alive: "ut_nodes st2 c \<noteq> None" and live: "live_ptr st2 parent'" "live_ptr st2 read_from'"
    for ds st2 t' p' parent' read_from'
  proof -
    have inv2: "unf_inv st2" by (rule unf_sys.run_inv [OF inv1 run])
    have "is_event p parent read_from c st2" by (rule events_kept [OF inv1 run ev1])
    then have k2: "ukey st2 c = Some (parent, read_from)" and in2: "c \<in> set (children_of p parent st2)"
      using alive by (auto simp: is_event_def ukey_none)
    obtain c' st3 where g: "find_unfolding_node t' p' parent' read_from' st2 = Some (c', st3)" "found p' parent' read_from' st2 c' st3"
      using find_total [OF inv2 live(1)] by blast
    have alt: "c' \<in> set (children_of p' parent' st2) \<and> ukey st2 c' = Some (parent', read_from') \<or>
        c' = ut_next st2 \<and> (\<forall>d \<in> set (children_of p' parent' st2). ukey st2 d \<noteq> Some (parent', read_from'))"
      using g(2) unfolding found_def by presburger
    have "c < ut_next st2" by (rule unf_invD(2) [OF inv2 in2])
    have "c' = c \<longleftrightarrow> same_list p' parent' p parent \<and> read_from' = read_from"
    proof
      assume "c' = c"
      then have "c \<in> set (children_of p' parent' st2)" "ukey st2 c = Some (parent', read_from')"
        using alt \<open>c < ut_next st2\<close> by auto
      then show "same_list p' parent' p parent \<and> read_from' = read_from"
        using k2 in2 unf_invD(5) [OF inv2] by (auto simp: same_list_def)
    next
      assume s: "same_list p' parent' p parent \<and> read_from' = read_from"
      then have "parent' = parent" by (simp add: same_list_def)
      then show "c' = c"
        using alt s k2 in2 unf_invD(4) [OF inv2, of c' p parent c] same_list_children [of p' parent' p parent st2] by auto
    qed
    then show ?thesis using g(1) by (auto simp: same_list_def)
  qed
  moreover obtain x where "ut_nodes st1 c = Some x" "un_parent x = parent" "un_read_from x = read_from"
    using k1 by (auto simp: ukey_def)
  ultimately show ?thesis using f(1) by blast
qed

text \<open>
  Three events of the first process, the third of which reads from the first; a fourth is made and released, and the
  third one asked for again by another thread.
\<close>

theorem unfolding_nodes_unique_witness:
  "\<exists>st st1 st2 c. run_calls unf_do [U_find 0 CPid None None, U_find 0 CPid (Some 0) None] RFSCUnfoldingTree = Some st \<and>
    find_unfolding_node 0 CPid (Some 0) (Some 0) st = Some (c, st1) \<and>
    run_calls unf_do [U_find 1 CPid (Some 1) (Some 0), U_release 3] st1 = Some st2 \<and>
    (\<exists>st3. find_unfolding_node 1 CPid (Some 0) (Some 0) st2 = Some (c, st3))"
proof -
  let ?cs = "[U_find 0 CPid None None, U_find 0 CPid (Some 0) None]"
  let ?chk = "\<lambda>st. live_ptr st (Some 0) \<and> (case find_unfolding_node 0 CPid (Some 0) (Some 0) st of None \<Rightarrow> False | Some (c, st1) \<Rightarrow>
    (case run_calls unf_do [U_find 1 CPid (Some 1) (Some 0), U_release 3] st1 of None \<Rightarrow> False
     | Some st2 \<Rightarrow> ut_nodes st2 c \<noteq> None \<and> live_ptr st2 (Some 0)))"
  have "map_option ?chk (run_calls unf_do ?cs RFSCUnfoldingTree) = Some True"
    by (simp add: RFSCUnfoldingTree_def find_unfolding_node_def get_unfolding_root_def get_or_create_def next_seqno_def
        seqno_new_def seqno_inc_def UnfoldingNode_def set_children_def find_child.simps live_ptr_def release_node_def
        less_Suc_eq numeral_3_eq_3 all_conj_distrib)
  then obtain st where st: "run_calls unf_do ?cs RFSCUnfoldingTree = Some st" and chk: "?chk st" by auto
  from chk obtain c st1 st2 where s: "find_unfolding_node 0 CPid (Some 0) (Some 0) st = Some (c, st1)"
      "run_calls unf_do [U_find 1 CPid (Some 1) (Some 0), U_release 3] st1 = Some st2" "ut_nodes st2 c \<noteq> None" "live_ptr st2 (Some 0)"
    by (auto simp del: run_calls.simps split: option.splits prod.splits)
  have l: "live_ptr st (Some 0)" using chk by simp
  have "\<exists>c' st3. find_unfolding_node 1 CPid (Some 0) (Some 0) st2 = Some (c', st3) \<and> c' = c"
    using unfolding_nodes_unique [OF st l l, of 0 CPid] s by (simp only: s(1) option.inject prod.inject) blast
  then show ?thesis using st s by blast
qed


end
