(* ===== verification/SatGraph_Inv.thy ===== *)
theory SatGraph_Inv
  imports SatGraph
begin

text \<open>
  The invariant of the saturated graph and the effect of each operation on it: the static part (the
  events and their indices), the edges, the work queue, and the clocks, which are a fixed point at
  every event that is not queued. Every operation of saturation is shown to keep the invariant.
\<close>

section \<open>Reading graphs\<close>

abbreviation ev :: "('x, 'a) sgraph \<Rightarrow> nat \<Rightarrow> ('x, 'a) event" where
  "ev g i \<equiv> events g ! i"

abbreviation vclk :: "('x, 'a) sgraph \<Rightarrow> nat \<Rightarrow> vclock" where
  "vclk g i \<equiv> vclocks g ! i"

text \<open>The direct predecessors of an event, and the clock computed from them.\<close>

definition preds :: "('x, 'a) sgraph \<Rightarrow> nat \<Rightarrow> nat set" where
  "preds g i = set (clock_sources (ev g i) (ins g ! i))"

definition rvc :: "('x, 'a) sgraph \<Rightarrow> nat \<Rightarrow> vclock" where
  "rvc g i = recompute_vc_for_event g (ev g i) (ins g ! i)"

definition sg_edge_rel :: "('x, 'a) sgraph \<Rightarrow> (nat \<times> nat) set" where
  "sg_edge_rel g = {(i, j). j < length (events g) \<and> i \<in> preds g j}"

lemma preds_iff:
  "j \<in> preds g i \<longleftrightarrow> po_predecessor (ev g i) = Some j \<or> read_from (ev g i) = Some j \<or> j \<in> set (ins g ! i)"
  by (auto simp: preds_def clock_sources_def split: option.splits)

lemma fold_plus_le_iff:
  "vc_get (fold (\<lambda>i vc. vc_plus_assign vc (f i)) is v) p \<le> x \<longleftrightarrow>
   vc_get v p \<le> x \<and> (\<forall>i \<in> set is. vc_get (f i) p \<le> x)"
  by (induction "is" arbitrary: v) (auto simp: vc_get_plus_assign)

lemma vc_get_initial:
  "vc_get (initial_vc_for_event e) p = (if p = ev_pid e then ev_index e else 0)"
  by (simp add: initial_vc_for_event_def vc_get_set)

text \<open>The recomputed clock is the least upper bound of the predecessors' clocks and the event itself.\<close>

lemma rvc_le_iff:
  "vc_get (rvc g i) p \<le> x \<longleftrightarrow>
   (p = ev_pid (ev g i) \<longrightarrow> ev_index (ev g i) \<le> x) \<and> (\<forall>j \<in> preds g i. vc_get (vclk g j) p \<le> x)"
  by (simp add: rvc_def recompute_vc_for_event_def fold_plus_le_iff vc_get_initial preds_def)

lemma rvc_ge_own: "ev_index (ev g i) \<le> vc_get (rvc g i) (ev_pid (ev g i))"
  using rvc_le_iff [of g i "ev_pid (ev g i)" "vc_get (rvc g i) (ev_pid (ev g i))"] by simp

lemma rvc_ge_pred: "j \<in> preds g i \<Longrightarrow> vc_get (vclk g j) p \<le> vc_get (rvc g i) p"
  using rvc_le_iff [of g i p "vc_get (rvc g i) p"] by simp

lemma rvc_mono:
  assumes "ev g' i = ev g i" "preds g i \<subseteq> preds g' i"
    and "\<And>j. j \<in> preds g i \<Longrightarrow> vc_get (vclk g j) p \<le> vc_get (vclk g' j) p"
  shows "vc_get (rvc g i) p \<le> vc_get (rvc g' i) p"
  unfolding rvc_le_iff using assms rvc_ge_own [of g' i] rvc_ge_pred [of _ g' i p]
  by (metis order_trans subsetD)

lemma rvc_cong:
  assumes "ev g' i = ev g i" "ins g' ! i = ins g ! i" "\<And>j. j \<in> preds g i \<Longrightarrow> vclk g' j = vclk g j"
  shows "rvc g' i = rvc g i"
proof -
  have "fold (\<lambda>i vc. vc_plus_assign vc (vclk g' i)) xs v = fold (\<lambda>i vc. vc_plus_assign vc (vclk g i)) xs v"
    if "set xs \<subseteq> preds g i" for xs v
    using that assms(3) by (intro fold_cong) auto
  then show ?thesis by (simp add: rvc_def recompute_vc_for_event_def assms(1,2) preds_def)
qed

lemma length_fold_plus:
  "length (fold (\<lambda>i vc. vc_plus_assign vc (f i)) is v) =
   Max (insert (length v) ((\<lambda>i. length (f i)) ` set is))"
proof (induction "is" arbitrary: v)
  case (Cons i "is")
  have "length (vc_plus_assign v (f i)) = max (length v) (length (f i))"
    by (auto simp: vc_plus_assign_def Let_def)
  then show ?case using Cons by (cases "is = []") (simp_all add: max.assoc)
qed simp

lemma is_in_cycle_iff:
  "is_in_cycle g (ev g i) (ins g ! i) vc \<longleftrightarrow> (\<exists>j \<in> preds g i. vc_eq (vclk g j) vc)"
  by (auto simp: is_in_cycle_def preds_iff list_all_iff Let_def split: option.splits)

section \<open>The invariant\<close>

text \<open>Where events are: by process and index, their program order, reads-from and write lists.\<close>

definition place_ok :: "('x, 'a) event list \<Rightarrow> nat list list \<Rightarrow> nat \<Rightarrow> bool" where
  "place_ok E B i \<longleftrightarrow>
     ev_pid (E ! i) < length B \<and> 0 < ev_index (E ! i) \<and>
     ev_index (E ! i) \<le> length (B ! ev_pid (E ! i)) \<and> B ! ev_pid (E ! i) ! (ev_index (E ! i) - 1) = i \<and>
     po_predecessor (E ! i) =
       (if ev_index (E ! i) = 1 then None else Some (B ! ev_pid (E ! i) ! (ev_index (E ! i) - 2)))"

definition process_ok :: "('x, 'a) event list \<Rightarrow> nat list list \<Rightarrow> ('a \<Rightarrow> nat list) list \<Rightarrow> nat \<Rightarrow> bool" where
  "process_ok E B W p \<longleftrightarrow>
     ascending (B ! p) \<and>
     (\<forall>k < length (B ! p). B ! p ! k < length E \<and> ev_pid (E ! (B ! p ! k)) = p \<and>
        ev_index (E ! (B ! p ! k)) = Suc k) \<and>
     (\<forall>a. (W ! p) a = filter (\<lambda>i. is_store (E ! i) \<and> addr (E ! i) = a) (B ! p))"

definition reads_ok :: "('x, 'a) event list \<Rightarrow> bool" where
  "reads_ok E \<longleftrightarrow>
     (\<forall>i < length E. \<forall>w. read_from (E ! i) = Some w \<longrightarrow>
        w < length E \<and> is_store (E ! w) \<and> addr (E ! w) = addr (E ! i) \<and> i \<in> set (readers (E ! w)) \<and>
        is_load (E ! i)) \<and>
     (\<forall>w < length E. \<forall>r \<in> set (readers (E ! w)). r < length E \<and> read_from (E ! r) = Some w)"

definition sg_static :: "('x, 'a) sgraph \<Rightarrow> bool" where
  "sg_static g \<longleftrightarrow>
     length (writes_by_process_and_address g) = length (events_by_pid g) \<and>
     (\<forall>i < length (events g). place_ok (events g) (events_by_pid g) i) \<and>
     (\<forall>p < length (events_by_pid g).
        process_ok (events g) (events_by_pid g) (writes_by_process_and_address g) p) \<and>
     reads_ok (events g)"

text \<open>The two adjacency vectors agree, and program order is among the outgoing edges.\<close>

definition edges_ok :: "('x, 'a) event list \<Rightarrow> nat list list \<Rightarrow> nat list list \<Rightarrow> bool" where
  "edges_ok E I U \<longleftrightarrow>
     length I = length E \<and> length U = length E \<and>
     (\<forall>i < length E. \<forall>j \<in> set (I ! i). j < length E \<and> i \<in> set (U ! j)) \<and>
     (\<forall>i < length E. \<forall>j \<in> set (U ! i). j < length E \<and> (i \<in> set (I ! j) \<or> po_predecessor (E ! j) = Some i)) \<and>
     (\<forall>i < length E. \<forall>q. po_predecessor (E ! i) = Some q \<longrightarrow> q < length E \<and> i \<in> set (U ! q))"

definition marked :: "bool list \<Rightarrow> nat \<Rightarrow> bool" where
  "marked S i \<longleftrightarrow> i < length S \<and> S ! i"

definition queue_ok :: "nat \<Rightarrow> nat list \<Rightarrow> bool list \<Rightarrow> bool" where
  "queue_ok n Q S \<longleftrightarrow> distinct Q \<and> (\<forall>i \<in> set Q. i < n) \<and> (\<forall>i. marked S i \<longleftrightarrow> i \<in> set Q)"

definition clock_bound :: "('x, 'a) sgraph \<Rightarrow> nat \<Rightarrow> nat" where
  "clock_bound g p = (if p < length (events_by_pid g) then length (events_by_pid g ! p) else 0)"

definition clocks_ok :: "('x, 'a) sgraph \<Rightarrow> bool" where
  "clocks_ok g \<longleftrightarrow>
     length (vclocks g) = length (events g) \<and>
     (\<forall>i < length (events g). length (vclk g i) \<le> length (events_by_pid g)) \<and>
     (\<forall>i < length (events g). \<forall>p. vc_get (vclk g i) p \<le> clock_bound g p) \<and>
     (\<forall>i < length (events g). vc_leq (vclk g i) (rvc g i))"

text \<open>Away from the queue, the clocks are a fixed point and distinguish neighbours.\<close>

definition stable_at :: "('x, 'a) sgraph \<Rightarrow> nat \<Rightarrow> bool" where
  "stable_at g i \<longleftrightarrow> vc_eq (vclk g i) (rvc g i) \<and> \<not> is_in_cycle g (ev g i) (ins g ! i) (rvc g i)"

definition sg_inv :: "('x, 'a) sgraph \<Rightarrow> bool" where
  "sg_inv g \<longleftrightarrow>
     sg_static g \<and> edges_ok (events g) (ins g) (outs g) \<and>
     queue_ok (length (events g)) (wq_queue g) (wq_set g) \<and> clocks_ok g \<and>
     (\<forall>i < length (events g). i \<notin> set (wq_queue g) \<longrightarrow> stable_at g i)"

lemma sg_invD:
  assumes "sg_inv g"
  shows "sg_static g" "edges_ok (events g) (ins g) (outs g)"
    "queue_ok (length (events g)) (wq_queue g) (wq_set g)" "clocks_ok g"
    "i < length (events g) \<Longrightarrow> i \<notin> set (wq_queue g) \<Longrightarrow> stable_at g i"
  using assms by (auto simp: sg_inv_def)

lemma sg_inv_empty: "sg_inv sg_empty"
  by (simp add: sg_inv_def sg_empty_def sg_static_def reads_ok_def edges_ok_def queue_ok_def clocks_ok_def
      marked_def)

lemma edges_okD:
  assumes "edges_ok E I U"
  shows "length I = length E" "length U = length E"
    and "i < length E \<Longrightarrow> j \<in> set (I ! i) \<Longrightarrow> j < length E" "i < length E \<Longrightarrow> j \<in> set (I ! i) \<Longrightarrow> i \<in> set (U ! j)"
    and "i < length E \<Longrightarrow> j \<in> set (U ! i) \<Longrightarrow> j < length E"
    and "i < length E \<Longrightarrow> j \<in> set (U ! i) \<Longrightarrow> i \<in> set (I ! j) \<or> po_predecessor (E ! j) = Some i"
    and "i < length E \<Longrightarrow> po_predecessor (E ! i) = Some q \<Longrightarrow> q < length E"
    and "i < length E \<Longrightarrow> po_predecessor (E ! i) = Some q \<Longrightarrow> i \<in> set (U ! q)"
  using assms unfolding edges_ok_def by blast+

lemma reads_okD:
  assumes "reads_ok E"
  shows "i < length E \<Longrightarrow> read_from (E ! i) = Some w \<Longrightarrow> w < length E \<and> is_store (E ! w) \<and>
      addr (E ! w) = addr (E ! i) \<and> i \<in> set (readers (E ! w)) \<and> is_load (E ! i)"
    and "w < length E \<Longrightarrow> r \<in> set (readers (E ! w)) \<Longrightarrow> r < length E \<and> read_from (E ! r) = Some w"
  using assms unfolding reads_ok_def by blast+

lemma sg_staticD:
  assumes "sg_static g"
  shows "length (writes_by_process_and_address g) = length (events_by_pid g)"
    and "i < length (events g) \<Longrightarrow> place_ok (events g) (events_by_pid g) i"
    and "p < length (events_by_pid g) \<Longrightarrow>
      process_ok (events g) (events_by_pid g) (writes_by_process_and_address g) p"
    and "reads_ok (events g)"
  using assms unfolding sg_static_def by blast+

lemma preds_less:
  assumes "sg_static g" "edges_ok (events g) (ins g) (outs g)" "i < length (events g)" "j \<in> preds g i"
  shows "j < length (events g)"
proof -
  from assms(4) consider "po_predecessor (ev g i) = Some j" | "read_from (ev g i) = Some j" | "j \<in> set (ins g ! i)"
    by (auto simp: preds_iff)
  then show ?thesis
    using edges_okD(3,7) [OF assms(2,3)] reads_okD(1) [OF sg_staticD(4) [OF assms(1)] assms(3)]
    by cases blast+
qed

section \<open>The work queue\<close>

lemma marked_set:
  "marked ((if length S \<le> i then resize (i + 1) False S else S)[i := True]) j \<longleftrightarrow> j = i \<or> marked S j"
  by (cases "j = i") (auto simp: marked_def nth_resize nth_or_def split: if_splits)

lemma marked_clear: "marked (S[i := False]) j \<longleftrightarrow> j \<noteq> i \<and> marked S j"
  by (cases "j = i") (auto simp: marked_def)

lemma wq_add_eq:
  "wq_add i g = (if marked (wq_set g) i then g
     else g\<lparr>wq_set := (if length (wq_set g) \<le> i then resize (i + 1) False (wq_set g) else wq_set g)[i := True],
            wq_queue := wq_queue g @ [i]\<rparr>)"
  "wq_add_first i g = (if marked (wq_set g) i then g
     else g\<lparr>wq_set := (if length (wq_set g) \<le> i then resize (i + 1) False (wq_set g) else wq_set g)[i := True],
            wq_queue := i # wq_queue g\<rparr>)"
  by (simp_all add: wq_add_def wq_add_first_def Let_def marked_def)

lemma wq_add_queue_ok:
  assumes "queue_ok n (wq_queue g) (wq_set g)" "i < n"
  shows "queue_ok n (wq_queue (wq_add i g)) (wq_set (wq_add i g))"
    and "queue_ok n (wq_queue (wq_add_first i g)) (wq_set (wq_add_first i g))"
  using assms
  by (auto simp: queue_ok_def wq_add_eq marked_set)

lemma set_wq_add [simp]:
  assumes "queue_ok n (wq_queue g) (wq_set g)"
  shows "set (wq_queue (wq_add i g)) = insert i (set (wq_queue g))"
    and "set (wq_queue (wq_add_first i g)) = insert i (set (wq_queue g))"
  using assms by (auto simp: queue_ok_def wq_add_eq)

text \<open>Queue operations touch the queue only.\<close>

definition same_graph :: "('x, 'a) sgraph \<Rightarrow> ('x, 'a) sgraph \<Rightarrow> bool" where
  "same_graph g h \<longleftrightarrow>
     events h = events g \<and> ins h = ins g \<and> outs h = outs g \<and> vclocks h = vclocks g \<and>
     events_by_pid h = events_by_pid g \<and>
     writes_by_process_and_address h = writes_by_process_and_address g \<and>
     writes_by_address h = writes_by_address g \<and> reads_from_init h = reads_from_init g \<and>
     extid_to_id h = extid_to_id g \<and> saturated_until h = saturated_until g"

lemma same_graph_refl [simp]: "same_graph g g"
  by (simp add: same_graph_def)

lemma same_graph_trans: "same_graph f g \<Longrightarrow> same_graph g h \<Longrightarrow> same_graph f h"
  by (simp add: same_graph_def)

lemma wq_add_same [simp]: "same_graph g (wq_add i g)" "same_graph g (wq_add_first i g)"
  by (auto simp: wq_add_eq same_graph_def)

lemma wq_add_all_spec:
  assumes "queue_ok n (wq_queue g) (wq_set g)" "\<forall>i \<in> set is. i < n"
  shows "same_graph g (wq_add_all is g) \<and>
    queue_ok n (wq_queue (wq_add_all is g)) (wq_set (wq_add_all is g)) \<and>
    set (wq_queue (wq_add_all is g)) = set is \<union> set (wq_queue g)"
  using assms
proof (induction "is" arbitrary: g)
  case (Cons i "is")
  have i: "i < n" "\<forall>k \<in> set is. k < n" using Cons.prems(2) by auto
  note IH = Cons.IH [OF wq_add_queue_ok(1) [OF Cons.prems(1) i(1)] i(2)]
  show ?case
    using IH same_graph_trans [OF wq_add_same(1) [of g i]] set_wq_add(1) [OF Cons.prems(1), of i] by auto
qed simp

section \<open>Adding edges\<close>

lemma length_push_at [simp]: "length (push_at i x vec) = length vec"
  by (simp add: push_at_def)

lemma nth_push_at: "j < length vec \<Longrightarrow> push_at i x vec ! j = (if j = i then vec ! j @ [x] else vec ! j)"
  by (simp add: push_at_def)

lemma edges_ok_push:
  assumes "edges_ok E I U" "f < length E" "t < length E"
  shows "edges_ok E (push_at t f I) (push_at f t U)"
proof -
  note D = edges_okD [OF assms(1)]
  have "length (push_at t f I) = length E" "length (push_at f t U) = length E" using D(1,2) by simp_all
  moreover have "j < length E \<and> i \<in> set (push_at f t U ! j)"
    if "i < length E" "j \<in> set (push_at t f I ! i)" for i j
    using that D(1-4) assms(2,3) by (auto simp: nth_push_at split: if_splits)
  moreover have "j < length E \<and> (i \<in> set (push_at t f I ! j) \<or> po_predecessor (E ! j) = Some i)"
    if ij: "i < length E" "j \<in> set (push_at f t U ! i)" for i j
  proof -
    have "j \<in> set (U ! i) \<or> (i = f \<and> j = t)" using ij D(2) by (auto simp: nth_push_at split: if_splits)
    then show ?thesis using ij D(1) D(5,6) [of i j] assms(3) by (auto simp: nth_push_at)
  qed
  moreover have "q < length E \<and> i \<in> set (push_at f t U ! q)"
    if "i < length E" "po_predecessor (E ! i) = Some q" for i q
    using that D(2,7,8) by (auto simp: nth_push_at)
  ultimately show ?thesis unfolding edges_ok_def by blast
qed

text \<open>\<open>h\<close> differs from \<open>g\<close> in edges and queue only, and has every edge and queued event of \<open>g\<close>.\<close>

definition grows :: "('x, 'a) sgraph \<Rightarrow> ('x, 'a) sgraph \<Rightarrow> bool" where
  "grows g h \<longleftrightarrow>
     events h = events g \<and> vclocks h = vclocks g \<and> events_by_pid h = events_by_pid g \<and>
     writes_by_process_and_address h = writes_by_process_and_address g \<and>
     writes_by_address h = writes_by_address g \<and> reads_from_init h = reads_from_init g \<and>
     extid_to_id h = extid_to_id g \<and> saturated_until h = saturated_until g \<and>
     edges_ok (events h) (ins h) (outs h) \<and>
     queue_ok (length (events h)) (wq_queue h) (wq_set h) \<and>
     set (wq_queue g) \<subseteq> set (wq_queue h) \<and>
     (\<forall>i < length (events g). set (ins g ! i) \<subseteq> set (ins h ! i)) \<and>
     (\<forall>i < length (events g). set (outs g ! i) \<subseteq> set (outs h ! i))"

lemma growsD:
  assumes "grows g h"
  shows "events h = events g" "vclocks h = vclocks g" "events_by_pid h = events_by_pid g"
    "writes_by_process_and_address h = writes_by_process_and_address g"
    "writes_by_address h = writes_by_address g" "reads_from_init h = reads_from_init g"
    "extid_to_id h = extid_to_id g" "saturated_until h = saturated_until g"
    "edges_ok (events h) (ins h) (outs h)" "queue_ok (length (events h)) (wq_queue h) (wq_set h)"
    "set (wq_queue g) \<subseteq> set (wq_queue h)"
    "i < length (events g) \<Longrightarrow> set (ins g ! i) \<subseteq> set (ins h ! i)"
    "i < length (events g) \<Longrightarrow> set (outs g ! i) \<subseteq> set (outs h ! i)"
  using assms by (auto simp: grows_def)

lemma grows_refl:
  "edges_ok (events g) (ins g) (outs g) \<Longrightarrow> queue_ok (length (events g)) (wq_queue g) (wq_set g) \<Longrightarrow> grows g g"
  by (simp add: grows_def)

lemma grows_trans: "grows f g \<Longrightarrow> grows g h \<Longrightarrow> grows f h"
proof -
  assume a: "grows f g" and b: "grows g h"
  note A = growsD [OF a] and B = growsD [OF b]
  have i: "set (ins f ! i) \<subseteq> set (ins h ! i)" if "i < length (events f)" for i
    using A(12) [OF that] B(12) [of i] that A(1) by auto
  have o: "set (outs f ! i) \<subseteq> set (outs h ! i)" if "i < length (events f)" for i
    using A(13) [OF that] B(13) [of i] that A(1) by auto
  have q: "set (wq_queue f) \<subseteq> set (wq_queue h)" using A(11) B(11) by blast
  show "grows f h"
    unfolding grows_def using i o q B(9,10) by (simp add: A(1-8) B(1-8))
qed

lemma grows_push:
  assumes "grows g g" "f < length (events g)" "t < length (events g)"
  shows "grows g (g\<lparr>ins := push_at t f (ins g), outs := push_at f t (outs g)\<rparr>)"
    and "grows g (g\<lparr>outs := push_at f t (outs g), ins := push_at t f (ins g)\<rparr>)"
  using growsD(9) [OF assms(1)] edges_ok_push [OF growsD(9) [OF assms(1)] assms(2,3)] growsD(10) [OF assms(1)]
  by (auto simp: grows_def nth_push_at edges_okD(1,2))

lemma grows_wq_add:
  assumes "grows g h" "i < length (events g)"
  shows "grows g (wq_add i h)" "grows g (wq_add_first i h)"
proof -
  note D = growsD [OF assms(1)]
  have "i < length (events h)" using assms(2) D(1) by simp
  note q = wq_add_queue_ok [OF D(10) this] and s = set_wq_add [OF D(10), of i]
  show "grows g (wq_add i h)" "grows g (wq_add_first i h)"
    using D q s wq_add_same [of h i] by (auto simp: grows_def same_graph_def)
qed

lemma add_edge_internal_spec:
  assumes "grows g g" "f < length (events g)" "t < length (events g)"
  shows "grows g (add_edge_internal f t g)"
    and "set (wq_queue (add_edge_internal f t g)) = insert t (set (wq_queue g))"
    and "j < length (events g) \<Longrightarrow>
      ins (add_edge_internal f t g) ! j = (if j = t then ins g ! j @ [f] else ins g ! j)"
proof -
  let ?g = "g\<lparr>outs := push_at f t (outs g), ins := push_at t f (ins g)\<rparr>"
  have gr: "grows g ?g" by (rule grows_push(2) [OF assms])
  have eq: "add_edge_internal f t g = wq_add t ?g" by (simp add: add_edge_internal_def)
  show "grows g (add_edge_internal f t g)" unfolding eq by (rule grows_wq_add(1) [OF gr assms(3)])
  show "set (wq_queue (add_edge_internal f t g)) = insert t (set (wq_queue g))"
    unfolding eq using set_wq_add(1) [OF growsD(10) [OF gr]] by simp
  show "j < length (events g) \<Longrightarrow>
      ins (add_edge_internal f t g) ! j = (if j = t then ins g ! j @ [f] else ins g ! j)"
    unfolding eq using wq_add_same(1) [of ?g t] edges_okD(1) [OF growsD(9) [OF assms(1)]]
    by (simp add: same_graph_def nth_push_at)
qed

lemma grows_self: "grows g h \<Longrightarrow> grows h h"
  by (auto simp: grows_def)

lemma add_edges_spec:
  assumes "grows g g" "\<forall>(f, t) \<in> set es. f < length (events g) \<and> t < length (events g)"
  shows "grows g (add_edges es g) \<and>
    set (wq_queue (add_edges es g)) = snd ` set es \<union> set (wq_queue g) \<and>
    (\<forall>j < length (events g). set (ins (add_edges es g) ! j) = set (ins g ! j) \<union> {f. (f, j) \<in> set es} \<and>
       (j \<notin> snd ` set es \<longrightarrow> ins (add_edges es g) ! j = ins g ! j))"
  using assms
proof (induction es arbitrary: g)
  case (Cons e es)
  obtain f t where e: "e = (f, t)" by fastforce
  have ft: "f < length (events g)" "t < length (events g)" using Cons.prems(2) e by auto
  let ?h = "add_edge_internal f t g"
  note S = add_edge_internal_spec [OF Cons.prems(1) ft]
  have "\<forall>(f, t) \<in> set es. f < length (events ?h) \<and> t < length (events ?h)"
    using Cons.prems(2) growsD(1) [OF S(1)] by auto
  note IH = Cons.IH [OF grows_self [OF S(1)] this]
  have "add_edges (e # es) g = add_edges es ?h" by (simp add: e)
  then show ?case
    using IH grows_trans [OF S(1), of "add_edges es ?h"] growsD(1) [OF S(1)] S(2,3) by (auto simp: e)
qed simp

lemma add_from_reads_spec:
  assumes "grows g g" "eid < length (events g)" "\<forall>r \<in> set rs. r < length (events g)"
    and "add_from_reads eid rs (g, b) = (h, c)"
  shows "grows g h \<and> wq_queue h = wq_queue g \<and> (b \<longrightarrow> c) \<and> (\<not> c \<longrightarrow> h = g) \<and>
    (\<forall>j < length (events g). j \<noteq> eid \<longrightarrow> ins h ! j = ins g ! j) \<and>
    set (ins h ! eid) = set (ins g ! eid) \<union> (set rs - {eid})"
  using assms
proof (induction rs arbitrary: g b)
  case (Cons r rs)
  show ?case
  proof (cases "r = eid")
    case True
    then show ?thesis using Cons by auto
  next
    case False
    let ?h = "g\<lparr>ins := push_at eid r (ins g), outs := push_at r eid (outs g)\<rparr>"
    have gr: "grows g ?h" by (rule grows_push(1)) (use Cons.prems in auto)
    note I = edges_okD(1) [OF growsD(9) [OF Cons.prems(1)]]
    have "add_from_reads eid rs (?h, True) = (h, c)" using Cons.prems(4) False by simp
    note IH = Cons.IH [OF grows_self [OF gr] _ _ this]
    show ?thesis
      using IH Cons.prems(2,3) grows_trans [OF gr, of h] False by (auto simp: nth_push_at I)
  qed
qed auto

section \<open>Events of a process and its visible writes\<close>

lemma takeWhile_ascending:
  assumes "ascending xs" "\<And>x y. x < y \<Longrightarrow> P y \<Longrightarrow> P x"
  shows "takeWhile P xs = filter P xs"
  using assms(1)
proof (induction xs)
  case (Cons x xs)
  have "filter P xs = []" if "\<not> P x" using that Cons.prems assms(2) by (auto simp: filter_empty_conv)
  then show ?case using Cons by auto
qed simp

lemma take_takeWhile: "take (length (takeWhile P xs)) xs = takeWhile P xs"
  by (metis takeWhile_eq_take)

text \<open>The last element of an ascending list that satisfies a downward closed condition, and the one before.\<close>

lemma filter_last_two:
  assumes "ascending xs" "\<And>x y. x < y \<Longrightarrow> P y \<Longrightarrow> P x" "n = length (takeWhile P xs)" "0 < n"
  shows "xs ! (n - 1) \<in> set xs" "P (xs ! (n - 1))" "\<forall>y \<in> set xs. P y \<longrightarrow> y \<le> xs ! (n - 1)"
    and "1 < n \<Longrightarrow> xs ! (n - 2) \<in> set xs \<and> P (xs ! (n - 2)) \<and> xs ! (n - 2) \<noteq> xs ! (n - 1) \<and>
      (\<forall>y \<in> set xs. P y \<longrightarrow> y \<noteq> xs ! (n - 1) \<longrightarrow> y \<le> xs ! (n - 2))"
    and "n = 1 \<Longrightarrow> \<forall>y \<in> set xs. P y \<longrightarrow> y = xs ! (n - 1)"
proof -
  have tk: "take n xs = filter P xs"
    unfolding assms(3) take_takeWhile by (rule takeWhile_ascending) (use assms(1,2) in blast)+
  have nl: "n \<le> length xs" using assms(3) length_takeWhile_le by metis
  have mem: "y \<in> set xs \<and> P y \<longleftrightarrow> (\<exists>k < n. y = xs ! k)" for y
  proof -
    have "y \<in> set xs \<and> P y \<longleftrightarrow> y \<in> set (take n xs)" by (simp add: tk)
    then show ?thesis using nl by (auto simp: in_set_conv_nth)
  qed
  have le: "xs ! j \<le> xs ! k" if "j \<le> k" "k < n" for j k
    using ascending_nth_less [OF assms(1), of j k] that nl by (cases "j = k") auto
  have at: "xs ! k \<in> set xs \<and> P (xs ! k)" if "k < n" for k using mem [of "xs ! k"] that by blast
  show "xs ! (n - 1) \<in> set xs" "P (xs ! (n - 1))" using at [of "n - 1"] assms(4) by simp_all
  show "\<forall>y \<in> set xs. P y \<longrightarrow> y \<le> xs ! (n - 1)"
  proof (intro ballI impI)
    fix y assume "y \<in> set xs" "P y"
    then obtain k where "k < n" "y = xs ! k" using mem by blast
    then show "y \<le> xs ! (n - 1)" using le [of k "n - 1"] assms(4) by simp
  qed
  show "n = 1 \<Longrightarrow> \<forall>y \<in> set xs. P y \<longrightarrow> y = xs ! (n - 1)" using mem by auto
  show "1 < n \<Longrightarrow> xs ! (n - 2) \<in> set xs \<and> P (xs ! (n - 2)) \<and> xs ! (n - 2) \<noteq> xs ! (n - 1) \<and>
      (\<forall>y \<in> set xs. P y \<longrightarrow> y \<noteq> xs ! (n - 1) \<longrightarrow> y \<le> xs ! (n - 2))"
  proof (intro conjI ballI impI)
    assume n: "1 < n"
    show "xs ! (n - 2) \<in> set xs" "P (xs ! (n - 2))" using at [of "n - 2"] n by simp_all
    have "n - 2 < n - 1" "n - 1 < length xs" using n nl by auto
    then show "xs ! (n - 2) \<noteq> xs ! (n - 1)" using ascending_nth_less [OF assms(1)] by (metis less_irrefl)
    fix y assume "y \<in> set xs" "P y" "y \<noteq> xs ! (n - 1)"
    then obtain k where k: "k < n" "y = xs ! k" "k \<noteq> n - 1" using mem by blast
    then show "y \<le> xs ! (n - 2)" using le [of k "n - 2"] n by simp
  qed
qed

definition visible :: "('x, 'a) sgraph \<Rightarrow> 'a \<Rightarrow> nat \<Rightarrow> nat \<Rightarrow> nat \<Rightarrow> bool" where
  "visible g a p b w \<longleftrightarrow>
     w < length (events g) \<and> ev_pid (ev g w) = p \<and> is_store (ev g w) \<and> addr (ev g w) = a \<and>
     ev_index (ev g w) \<le> b"

lemma place_okD:
  assumes "place_ok E B i"
  shows "ev_pid (E ! i) < length B" "0 < ev_index (E ! i)" "ev_index (E ! i) \<le> length (B ! ev_pid (E ! i))"
    "B ! ev_pid (E ! i) ! (ev_index (E ! i) - 1) = i"
    "po_predecessor (E ! i) =
       (if ev_index (E ! i) = 1 then None else Some (B ! ev_pid (E ! i) ! (ev_index (E ! i) - 2)))"
  using assms unfolding place_ok_def by blast+

lemma process_okD:
  assumes "process_ok E B W p"
  shows "ascending (B ! p)" "k < length (B ! p) \<Longrightarrow> B ! p ! k < length E"
    "k < length (B ! p) \<Longrightarrow> ev_pid (E ! (B ! p ! k)) = p"
    "k < length (B ! p) \<Longrightarrow> ev_index (E ! (B ! p ! k)) = Suc k"
    "(W ! p) a = filter (\<lambda>i. is_store (E ! i) \<and> addr (E ! i) = a) (B ! p)"
  using assms unfolding process_ok_def by blast+

text \<open>Within a process, positions, indices and identifiers are ordered alike.\<close>

lemma process_member:
  assumes "sg_static g" "p < length (events_by_pid g)"
  shows "i \<in> set (events_by_pid g ! p) \<longleftrightarrow> i < length (events g) \<and> ev_pid (ev g i) = p"
proof
  assume "i \<in> set (events_by_pid g ! p)"
  then show "i < length (events g) \<and> ev_pid (ev g i) = p"
    using process_okD(2,3) [OF sg_staticD(3) [OF assms]] by (metis in_set_conv_nth)
next
  assume i: "i < length (events g) \<and> ev_pid (ev g i) = p"
  note P = place_okD [OF sg_staticD(2) [OF assms(1), of i]]
  show "i \<in> set (events_by_pid g ! p)"
    using P(2-4) i by (metis Suc_pred' Suc_le_lessD nth_mem)
qed

lemma same_process_order:
  assumes "sg_static g" "i < length (events g)" "j < length (events g)" "ev_pid (ev g i) = ev_pid (ev g j)"
  shows "i < j \<longleftrightarrow> ev_index (ev g i) < ev_index (ev g j)"
    and "i = j \<longleftrightarrow> ev_index (ev g i) = ev_index (ev g j)"
proof -
  note P = place_okD [OF sg_staticD(2) [OF assms(1,2)]] and Q = place_okD [OF sg_staticD(2) [OF assms(1,3)]]
  note A = process_okD(1) [OF sg_staticD(3) [OF assms(1) P(1)]]
  let ?B = "events_by_pid g ! ev_pid (ev g i)"
  have "ev_index (ev g i) - 1 < length ?B" "ev_index (ev g j) - 1 < length ?B"
    using P(2,3) Q(2,3) assms(4) by simp_all
  note lt = ascending_nth_less_iff [OF A this]
  show "i < j \<longleftrightarrow> ev_index (ev g i) < ev_index (ev g j)"
    using lt P(2,4) Q(2,4) assms(4) by (metis One_nat_def Suc_less_eq Suc_pred)
  show "i = j \<longleftrightarrow> ev_index (ev g i) = ev_index (ev g j)"
    using P(2,4) Q(2,4) assms(4) by metis
qed

lemma get_process_event_spec:
  assumes "sg_static g" "p < length (events_by_pid g)" "0 < k" "k \<le> length (events_by_pid g ! p)"
  shows "get_process_event g p k < length (events g)" "ev_pid (ev g (get_process_event g p k)) = p"
    "ev_index (ev g (get_process_event g p k)) = k"
  using process_okD(2-4) [OF sg_staticD(3) [OF assms(1,2)], of "k - 1"] assms(3,4)
  by (simp_all add: get_process_event_def)

lemma write_list_visible:
  assumes "sg_static g" "p < length (events_by_pid g)" "0 < b" "b \<le> length (events_by_pid g ! p)"
  shows "w \<in> set ((writes_by_process_and_address g ! p) a) \<and> w \<le> get_process_event g p b \<longleftrightarrow> visible g a p b w"
    and "ascending ((writes_by_process_and_address g ! p) a)"
proof -
  note P = sg_staticD(3) [OF assms(1,2)] and G = get_process_event_spec [OF assms]
  have W: "w \<in> set ((writes_by_process_and_address g ! p) a) \<longleftrightarrow>
      w < length (events g) \<and> ev_pid (ev g w) = p \<and> is_store (ev g w) \<and> addr (ev g w) = a"
    using process_member [OF assms(1,2)] by (auto simp: process_okD(5) [OF P])
  have "w \<le> get_process_event g p b \<longleftrightarrow> ev_index (ev g w) \<le> b"
    if "w < length (events g)" "ev_pid (ev g w) = p"
    using same_process_order(1) [OF assms(1) G(1) that(1)] G(2,3) that(2) by (simp flip: not_less)
  then show "w \<in> set ((writes_by_process_and_address g ! p) a) \<and> w \<le> get_process_event g p b \<longleftrightarrow> visible g a p b w"
    using W by (auto simp: visible_def)
  show "ascending ((writes_by_process_and_address g ! p) a)"
    using process_okD(1) [OF P] by (simp add: process_okD(5) [OF P] sorted_wrt_filter)
qed

lemma last_visible_write_spec:
  assumes "sg_static g" "p < length (events_by_pid g)" "0 < b" "b \<le> length (events_by_pid g ! p)"
  shows "last_visible_write g eid a p b = Some w \<Longrightarrow>
      visible g a p b w \<and> w \<noteq> eid \<and> (\<forall>v. visible g a p b v \<longrightarrow> v \<noteq> eid \<longrightarrow> ev_index (ev g v) \<le> ev_index (ev g w))"
    and "last_visible_write g eid a p b = None \<Longrightarrow> visible g a p b v \<Longrightarrow> v = eid"
proof -
  let ?ws = "(writes_by_process_and_address g ! p) a" and ?lv = "get_process_event g p b"
  define n where "n = upper_bound ?ws ?lv"
  note V = write_list_visible(1) [OF assms, of _ a]
  note asc = write_list_visible(2) [OF assms, of a]
  have def: "last_visible_write g eid a p b =
      (if n = 0 then None
       else if ?ws ! (n - 1) = eid then (if n = 1 then None else Some (?ws ! (n - 2)))
       else Some (?ws ! (n - 1)))"
    by (auto simp: last_visible_write_def n_def Let_def numeral_2_eq_2)
  have idx: "ev_index (ev g v) \<le> ev_index (ev g w)"
    if "visible g a p b v" "visible g a p b w" "v \<le> w" for v w
  proof -
    have vw: "v < length (events g)" "w < length (events g)" "ev_pid (ev g v) = ev_pid (ev g w)"
      using that by (auto simp: visible_def)
    then show ?thesis using same_process_order [OF assms(1) vw] \<open>v \<le> w\<close> by (cases "v = w") auto
  qed
  have none: "\<not> visible g a p b v" if "n = 0" for v
  proof -
    have "filter (\<lambda>y. y \<le> ?lv) ?ws = []"
      using that takeWhile_ascending [OF asc, of "\<lambda>y. y \<le> ?lv"] by (simp add: n_def upper_bound_def)
    then show ?thesis using V [of v] by (auto simp: filter_empty_conv)
  qed
  note two = filter_last_two [OF asc, of "\<lambda>y. y \<le> ?lv" n, OF _ n_def [unfolded upper_bound_def]]
  show "last_visible_write g eid a p b = Some w \<Longrightarrow>
      visible g a p b w \<and> w \<noteq> eid \<and> (\<forall>v. visible g a p b v \<longrightarrow> v \<noteq> eid \<longrightarrow> ev_index (ev g v) \<le> ev_index (ev g w))"
  proof -
    assume r: "last_visible_write g eid a p b = Some w"
    then have n0: "0 < n" by (auto simp: def split: if_splits)
    show ?thesis
    proof (cases "?ws ! (n - 1) = eid")
      case True
      then have n1: "1 < n" and w: "w = ?ws ! (n - 2)" using r n0 by (auto simp: def split: if_splits)
      have w_in: "w \<in> set ?ws" "w \<le> ?lv" "w \<noteq> eid" and mx: "\<forall>y \<in> set ?ws. y \<le> ?lv \<longrightarrow> y \<noteq> eid \<longrightarrow> y \<le> w"
        using two(4) [OF _ n0 n1] w True by auto
      then have "visible g a p b w" using V by blast
      then show ?thesis using w_in(3) mx idx V by metis
    next
      case False
      then have w: "w = ?ws ! (n - 1)" using r n0 by (auto simp: def)
      have w_in: "w \<in> set ?ws" "w \<le> ?lv" and mx: "\<forall>y \<in> set ?ws. y \<le> ?lv \<longrightarrow> y \<le> w"
        using two(1-3) [OF _ n0] w by auto
      then have "visible g a p b w" using V by blast
      then show ?thesis using False w mx idx V by metis
    qed
  qed
  show "last_visible_write g eid a p b = None \<Longrightarrow> visible g a p b v \<Longrightarrow> v = eid"
  proof -
    assume r: "last_visible_write g eid a p b = None" and v: "visible g a p b v"
    then have n0: "0 < n" using none by blast
    then have "n = 1" "?ws ! (n - 1) = eid" using r by (auto simp: def split: if_splits)
    then show ?thesis using two(5) [OF _ n0] V [of v] v by auto
  qed
qed

section \<open>One iteration keeps the invariant\<close>

text \<open>
  What the loop over processes does to the graph it starts from: only the edges into the event
  itself grow, and \<^verbatim>\<open>new_in\<close> says whether they did.
\<close>

definition pids_effect :: "nat \<Rightarrow> ('x, 'a) sgraph \<Rightarrow> ('x, 'a) sat_state \<Rightarrow> bool" where
  "pids_effect eid g s \<longleftrightarrow>
     (case s of (h, es, new_in) \<Rightarrow>
        grows g h \<and> wq_queue h = wq_queue g \<and> (\<not> new_in \<longrightarrow> h = g) \<and>
        (\<forall>j < length (events g). j \<noteq> eid \<longrightarrow> ins h ! j = ins g ! j) \<and>
        (\<forall>(f, t) \<in> set es. f < length (events g) \<and> t < length (events g)))"

text \<open>A clock the loop can meet: within the bounds, so that every subscript is in range.\<close>

definition vc_in_range :: "('x, 'a) sgraph \<Rightarrow> vclock \<Rightarrow> bool" where
  "vc_in_range g vc \<longleftrightarrow> length vc \<le> length (events_by_pid g) \<and> (\<forall>p. vc_get vc p \<le> clock_bound g p)"

lemma clock_bound_cong: "events_by_pid h = events_by_pid g \<Longrightarrow> clock_bound h = clock_bound g"
  by (simp add: clock_bound_def fun_eq_iff)

lemma vc_in_range_grows: "grows g h \<Longrightarrow> vc_in_range h vc \<longleftrightarrow> vc_in_range g vc"
  by (simp add: vc_in_range_def clock_bound_def growsD)

lemma sg_static_grows: "grows g h \<Longrightarrow> sg_static h \<longleftrightarrow> sg_static g"
  by (simp add: sg_static_def growsD)

lemma vc_in_range_visible:
  assumes "vc_in_range g vc" "vc_get vc p \<noteq> 0"
  shows "p < length (events_by_pid g)" "0 < vc_get vc p" "vc_get vc p \<le> length (events_by_pid g ! p)"
proof -
  have "vc_get vc p \<le> clock_bound g p" using assms(1) by (simp add: vc_in_range_def)
  then show "p < length (events_by_pid g)" "vc_get vc p \<le> length (events_by_pid g ! p)"
    using assms(2) by (auto simp: clock_bound_def split: if_splits)
qed (use assms(2) in simp)

text \<open>The two results of one round, with what is known of the write it looks at.\<close>

lemma saturate_pid_cases:
  assumes "sg_static g" "vc_in_range g vc" "vc_leq old_vc vc"
  obtains (skip) "saturate_pid eid e old_vc vc p (g, es, b) = Inr (g, es, b)"
  | (init) w h where "visible g (addr e) p (vc_get vc p) w" "w \<noteq> eid" "is_load e" "read_from e = None"
      "saturate_pid eid e old_vc vc p (g, es, b) = Inl h"
  | (edges) w h c where "visible g (addr e) p (vc_get vc p) w" "w \<noteq> eid"
      "(h, c) = (if is_store e then add_from_reads eid (readers (ev g w)) (g, b) else (g, b))"
      "is_load e \<Longrightarrow> \<exists>rf. read_from e = Some rf"
      "saturate_pid eid e old_vc vc p (g, es, b) =
        Inr (h, es @ (if is_load e \<and> read_from e \<noteq> Some w then [(w, the (read_from e))] else []), c)"
proof (cases "vc_get old_vc p = vc_get vc p \<or> last_visible_write g eid (addr e) p (vc_get vc p) = None")
  case True
  then show ?thesis using skip by (auto simp: saturate_pid_def)
next
  case False
  then obtain w where w: "last_visible_write g eid (addr e) p (vc_get vc p) = Some w" by auto
  have "vc_get vc p \<noteq> 0" using False assms(3) by (metis le_zero_eq vc_leq_iff)
  note r = vc_in_range_visible [OF assms(2) this]
  have vis: "visible g (addr e) p (vc_get vc p) w" "w \<noteq> eid"
    using last_visible_write_spec(1) [OF assms(1) r w] by auto
  show ?thesis
  proof (cases "ev_index (ev g w) \<le> vc_get old_vc p")
    case True
    then show ?thesis using skip w False by (auto simp: saturate_pid_def)
  next
    case new: False
    obtain h c where hc: "(h, c) = (if is_store e then add_from_reads eid (readers (ev g w)) (g, b) else (g, b))"
      by (metis surj_pair)
    show ?thesis
    proof (cases "is_load e \<and> read_from e = None")
      case True
      then have "saturate_pid eid e old_vc vc p (g, es, b) = Inl h"
        using False w new by (simp add: saturate_pid_def flip: hc)
      then show ?thesis using init vis True by blast
    next
      case False
      then have ld: "is_load e \<Longrightarrow> \<exists>rf. read_from e = Some rf" by auto
      have "saturate_pid eid e old_vc vc p (g, es, b) =
          Inr (h, es @ (if is_load e \<and> read_from e \<noteq> Some w then [(w, the (read_from e))] else []), c)"
        using \<open>\<not> (vc_get old_vc p = vc_get vc p \<or> _)\<close> w new ld
        by (cases "is_load e") (auto simp: saturate_pid_def simp flip: hc)
      then show ?thesis using edges vis hc ld by blast
    qed
  qed
qed

lemma saturate_pid_effect:
  assumes "sg_static g" "grows g g" "vc_in_range g vc" "vc_leq old_vc vc" "eid < length (events g)"
    and "e = ev g eid" "pids_effect eid g s" "saturate_pid eid e old_vc vc p s = Inr s'"
  shows "pids_effect eid g s'"
proof -
  obtain h es b where s: "s = (h, es, b)" by (cases s)
  have gh: "grows g h" and ne: "\<not> b \<longrightarrow> h = g" and q: "wq_queue h = wq_queue g"
    and fr: "\<forall>j < length (events g). j \<noteq> eid \<longrightarrow> ins h ! j = ins g ! j"
    and es: "\<forall>(f, t) \<in> set es. f < length (events g) \<and> t < length (events g)"
    using assms(7) by (auto simp: pids_effect_def s)
  have E: "events h = events g" using growsD(1) [OF gh] .
  have st: "sg_static h" "vc_in_range h vc"
    using assms(1,3) sg_static_grows [OF gh] vc_in_range_grows [OF gh] by simp_all
  show ?thesis
  proof (rule saturate_pid_cases [OF st assms(4), of eid e p es b])
    assume "saturate_pid eid e old_vc vc p (h, es, b) = Inr (h, es, b)"
    then show ?thesis using assms(7,8) by (simp add: s)
  next
    fix w k assume "saturate_pid eid e old_vc vc p (h, es, b) = Inl k"
    then show ?thesis using assms(8) by (simp add: s)
  next
    fix w k c
    assume vis: "visible h (addr e) p (vc_get vc p) w"
      and kc: "(k, c) = (if is_store e then add_from_reads eid (readers (ev h w)) (h, b) else (h, b))"
      and ld: "is_load e \<Longrightarrow> \<exists>rf. read_from e = Some rf"
      and res: "saturate_pid eid e old_vc vc p (h, es, b) =
        Inr (k, es @ (if is_load e \<and> read_from e \<noteq> Some w then [(w, the (read_from e))] else []), c)"
    have w: "w < length (events g)" using vis E by (simp add: visible_def)
    have rd: "\<forall>r \<in> set (readers (ev h w)). r < length (events h)"
      using reads_okD(2) [OF sg_staticD(4) [OF assms(1)] w] by (simp add: E)
    have k: "grows h k \<and> wq_queue k = wq_queue h \<and> (b \<longrightarrow> c) \<and> (\<not> c \<longrightarrow> k = h) \<and>
        (\<forall>j < length (events h). j \<noteq> eid \<longrightarrow> ins k ! j = ins h ! j)"
    proof (cases "is_store e")
      case True
      then show ?thesis
        using add_from_reads_spec [OF grows_self [OF gh] _ rd, of eid b k c] kc assms(5) E by auto
    next
      case False
      then show ?thesis using kc grows_self [OF gh] by simp
    qed
    have rf: "the (read_from e) < length (events g)" if "is_load e"
      using ld [OF that] reads_okD(1) [OF sg_staticD(4) [OF assms(1)] assms(5)] assms(6) by auto
    show ?thesis
      using k grows_trans [OF gh, of k] ne q fr es res assms(8) w rf E
      by (auto simp: pids_effect_def s split: if_splits)
  qed
qed

lemma saturate_pids_effect:
  assumes "sg_static g" "grows g g" "vc_in_range g vc" "vc_leq old_vc vc" "eid < length (events g)"
    and "e = ev g eid" "pids_effect eid g s" "saturate_pids eid e old_vc vc ps s = Inr s'"
  shows "pids_effect eid g s'"
  using assms(7,8)
proof (induction ps arbitrary: s)
  case (Cons p ps)
  then obtain s1 where "saturate_pid eid e old_vc vc p s = Inr s1" "saturate_pids eid e old_vc vc ps s1 = Inr s'"
    by (auto split: sum.splits)
  then show ?case using saturate_pid_effect [OF assms(1-6) Cons.prems(1)] Cons.IH by blast
qed simp

text \<open>The assertions of the loop over processes hold, and the graph it stops at is consistent.\<close>

lemma saturate_pid_asserts_hold:
  assumes "sg_static g" "vc_in_range g vc" "vc_leq old_vc vc" "e = ev g eid"
  shows "saturate_pid_asserts eid e old_vc vc p g"
proof (cases "vc_get old_vc p = vc_get vc p")
  case False
  then have lt: "vc_get old_vc p < vc_get vc p" using assms(3) by (metis le_neq_implies_less vc_leq_iff)
  then have "vc_get vc p \<noteq> 0" by simp
  note r = vc_in_range_visible [OF assms(2) this]
  have "w \<noteq> eid \<and> ev_index (ev g w) \<le> vc_get vc p \<and>
      (\<forall>x \<in> set (readers (ev g w)). is_load (ev g x) \<and> addr (ev g x) = addr e)"
    if "last_visible_write g eid (addr e) p (vc_get vc p) = Some w" for w
  proof -
    note V = last_visible_write_spec(1) [OF assms(1) r that]
    then have w: "w < length (events g)" "addr (ev g w) = addr e" by (auto simp: visible_def)
    note R = reads_okD [OF sg_staticD(4) [OF assms(1)]]
    have "is_load (ev g x) \<and> addr (ev g x) = addr e" if "x \<in> set (readers (ev g w))" for x
      using R(2) [OF w(1) that] R(1) [of x w] w(2) by simp
    then show ?thesis using V by (simp add: visible_def)
  qed
  then show ?thesis
    using False lt r by (auto simp: saturate_pid_asserts_def get_process_event_asserts_def Let_def list_all_iff split: option.split)
qed (simp add: saturate_pid_asserts_def)

lemma saturate_pids_asserts_hold:
  assumes "sg_static g" "grows g g" "vc_in_range g vc" "vc_leq old_vc vc" "eid < length (events g)"
    and "e = ev g eid" "pids_effect eid g s"
  shows "saturate_pids_asserts eid e old_vc vc ps s"
  using assms(7)
proof (induction ps arbitrary: s)
  case (Cons p ps)
  obtain h es b where s: "s = (h, es, b)" by (cases s)
  have gh: "grows g h" using Cons.prems by (simp add: pids_effect_def s)
  have "saturate_pid_asserts eid e old_vc vc p h"
    by (rule saturate_pid_asserts_hold)
      (use assms sg_static_grows [OF gh] vc_in_range_grows [OF gh] growsD(1) [OF gh] in simp_all)
  then show ?case
    using Cons.IH saturate_pid_effect [OF assms(1-6) Cons.prems] by (auto simp: s split: sum.split)
qed simp

lemma saturate_pid_stop:
  assumes "sg_static g" "vc_in_range g vc" "vc_leq old_vc vc" "eid < length (events g)" "grows g h"
    and "saturate_pid eid e old_vc vc p (h, es, b) = Inl k"
  shows "grows g k"
proof -
  have st: "sg_static h" "vc_in_range h vc"
    using assms(1,2) sg_static_grows [OF assms(5)] vc_in_range_grows [OF assms(5)] by simp_all
  obtain w c where w: "vc_get old_vc p \<noteq> vc_get vc p" "last_visible_write h eid (addr e) p (vc_get vc p) = Some w"
    and k: "(if is_store e then add_from_reads eid (readers (ev h w)) (h, b) else (h, b)) = (k, c)"
    using assms(6) by (auto simp: saturate_pid_def Let_def split: if_splits option.splits prod.splits)
  have "vc_get vc p \<noteq> 0" using w(1) assms(3) by (metis le_zero_eq vc_leq_iff)
  note r = vc_in_range_visible [OF st(2) this]
  have "w < length (events h)" using last_visible_write_spec(1) [OF st(1) r w(2)] by (simp add: visible_def)
  then have rd: "\<forall>r \<in> set (readers (ev h w)). r < length (events h)"
    using reads_okD(2) [OF sg_staticD(4) [OF st(1)]] by blast
  have "grows h k"
    using k add_from_reads_spec [OF grows_self [OF assms(5)] _ rd, of eid b k c] growsD(1) [OF assms(5)] assms(4)
      grows_self [OF assms(5)] by (auto split: if_splits)
  then show ?thesis by (rule grows_trans [OF assms(5)])
qed

lemma saturate_pids_stop:
  assumes "sg_static g" "grows g g" "vc_in_range g vc" "vc_leq old_vc vc" "eid < length (events g)"
    and "e = ev g eid" "pids_effect eid g s" "saturate_pids eid e old_vc vc ps s = Inl k"
  shows "grows g k"
  using assms(7,8)
proof (induction ps arbitrary: s)
  case (Cons p ps)
  obtain h es b where s: "s = (h, es, b)" by (cases s)
  have gh: "grows g h" using Cons.prems(1) by (simp add: pids_effect_def s)
  show ?case
  proof (cases "saturate_pid eid e old_vc vc p s")
    case (Inl l)
    then have "l = k" using Cons.prems(2) by simp
    then show ?thesis using saturate_pid_stop [OF assms(1,3-5) gh] Inl by (simp add: s)
  next
    case (Inr s1)
    then show ?thesis using Cons.IH saturate_pid_effect [OF assms(1-6) Cons.prems(1) Inr] Cons.prems(2) by simp
  qed
qed simp

lemma clocks_okD:
  assumes "clocks_ok g"
  shows "length (vclocks g) = length (events g)"
    and "i < length (events g) \<Longrightarrow> length (vclk g i) \<le> length (events_by_pid g)"
    and "i < length (events g) \<Longrightarrow> vc_get (vclk g i) p \<le> clock_bound g p"
    and "i < length (events g) \<Longrightarrow> vc_leq (vclk g i) (rvc g i)"
  using assms unfolding clocks_ok_def by blast+

lemma rvc_in_range:
  assumes "sg_static g" "edges_ok (events g) (ins g) (outs g)" "clocks_ok g" "i < length (events g)"
  shows "vc_in_range g (rvc g i)"
proof -
  note P = place_okD [OF sg_staticD(2) [OF assms(1,4)]]
  have pr: "j \<in> preds g i \<Longrightarrow> j < length (events g)" for j using preds_less [OF assms(1,2,4)] .
  have "length (rvc g i) \<le> length (events_by_pid g)"
    using P(1) pr clocks_okD(2) [OF assms(3)]
    by (auto simp: rvc_def recompute_vc_for_event_def length_fold_plus initial_vc_for_event_def preds_def)
  moreover have "vc_get (rvc g i) p \<le> clock_bound g p" for p
    unfolding rvc_le_iff using P(1,3) pr clocks_okD(3) [OF assms(3)] by (auto simp: clock_bound_def)
  ultimately show ?thesis by (simp add: vc_in_range_def)
qed

lemma wq_pop_spec:
  assumes "queue_ok n (wq_queue g) (wq_set g)" "\<not> wq_empty g" "wq_pop g = (eid, h)"
  shows "same_graph g h" "queue_ok n (wq_queue h) (wq_set h)" "eid < n" "eid \<in> set (wq_queue g)"
    "set (wq_queue h) = set (wq_queue g) - {eid}" "length (wq_queue h) < length (wq_queue g)"
proof -
  obtain Q where Q: "wq_queue g = eid # Q" "wq_queue h = Q"
    using assms(2,3) by (cases "wq_queue g") (auto simp: wq_empty_def wq_pop_def Let_def)
  show "same_graph g h" using assms(3) by (auto simp: wq_pop_def Let_def same_graph_def)
  show "queue_ok n (wq_queue h) (wq_set h)"
    using assms(1,3) Q by (auto simp: queue_ok_def wq_pop_def Let_def marked_clear)
  show "eid < n" "eid \<in> set (wq_queue g)" "set (wq_queue h) = set (wq_queue g) - {eid}"
    "length (wq_queue h) < length (wq_queue g)"
    using assms(1) Q by (auto simp: queue_ok_def)
qed

text \<open>Clocks and predecessors do not depend on the queue.\<close>

lemma same_graph_clocks:
  assumes "same_graph g h"
  shows "preds h i = preds g i" "rvc h i = rvc g i" "sg_static h \<longleftrightarrow> sg_static g" "clocks_ok h \<longleftrightarrow> clocks_ok g"
    "stable_at h i \<longleftrightarrow> stable_at g i"
proof -
  note S = assms [unfolded same_graph_def]
  show p: "preds h i = preds g i" for i using S by (simp add: preds_def)
  show r: "rvc h i = rvc g i" for i using S by (simp add: rvc_def recompute_vc_for_event_def)
  show "sg_static h \<longleftrightarrow> sg_static g" using S by (simp add: sg_static_def)
  show "clocks_ok h \<longleftrightarrow> clocks_ok g" using S r by (simp add: clocks_ok_def clock_bound_def)
  show "stable_at h i \<longleftrightarrow> stable_at g i" unfolding stable_at_def is_in_cycle_iff using S r p by simp
qed

text \<open>
  The state after an iteration that changed the clock of \<open>eid\<close> to \<open>vc\<close>: everything that depends on
  \<open>eid\<close> or has new incoming edges is queued.
\<close>

definition updated :: "nat \<Rightarrow> vclock \<Rightarrow> ('x, 'a) sgraph \<Rightarrow> ('x, 'a) sgraph \<Rightarrow> bool" where
  "updated eid vc g h \<longleftrightarrow>
     events h = events g \<and> events_by_pid h = events_by_pid g \<and>
     writes_by_process_and_address h = writes_by_process_and_address g \<and>
     vclocks h = (vclocks g)[eid := vc] \<and>
     edges_ok (events h) (ins h) (outs h) \<and> queue_ok (length (events h)) (wq_queue h) (wq_set h) \<and>
     set (wq_queue g) - {eid} \<subseteq> set (wq_queue h) \<and>
     (\<forall>j < length (events g). set (ins g ! j) \<subseteq> set (ins h ! j)) \<and>
     (\<forall>j < length (events g). j \<notin> set (wq_queue h) \<longrightarrow> ins h ! j = ins g ! j \<and> eid \<notin> preds g j)"

lemma pred_is_queued:
  assumes "sg_static g" "edges_ok (events g) (ins g) (outs g)" "eid < length (events g)" "j < length (events g)"
    and "eid \<in> preds g j"
  shows "j \<in> set (outs g ! eid) \<or> (is_store (ev g eid) \<and> j \<in> set (readers (ev g eid)))"
proof -
  from assms(5) consider "po_predecessor (ev g j) = Some eid" | "read_from (ev g j) = Some eid" | "eid \<in> set (ins g ! j)"
    by (auto simp: preds_iff)
  then show ?thesis
    using edges_okD(4,8) [OF assms(2,4)] reads_okD(1) [OF sg_staticD(4) [OF assms(1)] assms(4)]
    by cases blast+
qed

lemma finish_updated:
  assumes "sg_static g" "grows g g" "eid < length (events g)" "e = ev g eid"
    and "pids_effect eid g (h, es, new_in)"
    and "g2 = add_successors_to_wq eid e h" "g3 = g2\<lparr>vclocks := (vclocks g2)[eid := vc]\<rparr>"
    and "g4 = (if new_in then wq_add_first eid g3 else g3)"
  shows "updated eid vc g (add_edges es g4)"
    and "j < length (events g) \<Longrightarrow> set (ins (add_edges es g4) ! j) = set (ins h ! j) \<union> {f. (f, j) \<in> set es}"
proof -
  let ?n = "length (events g)"
  have gh: "grows g h" and q: "wq_queue h = wq_queue g" and ni: "\<not> new_in \<longrightarrow> h = g"
    and fr: "\<And>j. j < ?n \<Longrightarrow> j \<noteq> eid \<Longrightarrow> ins h ! j = ins g ! j"
    and es: "\<forall>(f, t) \<in> set es. f < ?n \<and> t < ?n"
    using assms(5) by (auto simp: pids_effect_def)
  note H = growsD [OF gh]
  let ?succ = "(if is_store e then set (readers e) else {}) \<union> set (outs h ! eid)"
  have rd: "\<forall>r \<in> set (readers e). r < ?n"
    using reads_okD(2) [OF sg_staticD(4) [OF assms(1)] assms(3)] assms(4) by blast
  have g2: "same_graph h g2 \<and> queue_ok ?n (wq_queue g2) (wq_set g2) \<and> set (wq_queue g2) = ?succ \<union> set (wq_queue h)"
  proof -
    let ?g1 = "if is_store e then wq_add_all (readers e) h else h"
    have 1: "same_graph h ?g1 \<and> queue_ok ?n (wq_queue ?g1) (wq_set ?g1) \<and>
        set (wq_queue ?g1) = (if is_store e then set (readers e) else {}) \<union> set (wq_queue h)"
      using wq_add_all_spec [OF _ rd, of h] H(1,10) by auto
    then have o: "outs ?g1 ! eid = outs h ! eid" "\<forall>i \<in> set (outs h ! eid). i < ?n"
      using edges_okD(5) [OF H(9)] assms(3) H(1) by (auto simp: same_graph_def)
    show ?thesis
      using 1 o wq_add_all_spec [of ?n ?g1 "outs ?g1 ! eid"] same_graph_trans [of h ?g1]
      by (auto simp: assms(6) add_successors_to_wq_def Let_def)
  qed
  have n4: "events g4 = events g" "events_by_pid g4 = events_by_pid g" "ins g4 = ins h" "outs g4 = outs h"
    "writes_by_process_and_address g4 = writes_by_process_and_address g" "vclocks g4 = (vclocks g)[eid := vc]"
    using g2 H wq_add_same(2) [of g3 eid] by (auto simp: assms(7,8) same_graph_def)
  have q3: "queue_ok ?n (wq_queue g3) (wq_set g3)" "wq_queue g3 = wq_queue g2" using g2 by (simp_all add: assms(7))
  have q4: "queue_ok ?n (wq_queue g4) (wq_set g4)"
    "set (wq_queue g4) = (if new_in then {eid} else {}) \<union> ?succ \<union> set (wq_queue g)"
    using q3 g2 q wq_add_queue_ok(2) [OF q3(1) assms(3)] set_wq_add(2) [OF q3(1), of eid]
    by (auto simp: assms(8))
  have g4: "grows g4 g4" using H(1,9) q4(1) by (intro grows_refl) (simp_all add: n4)
  note A = add_edges_spec [OF g4, of es, unfolded n4, OF es]
  have grow: "grows g4 (add_edges es g4)" using A by blast
  note F = growsD [OF grow]
  have qA: "set (wq_queue (add_edges es g4)) = snd ` set es \<union> set (wq_queue g4)" using A by blast
  have away: "ins (add_edges es g4) ! j = ins g ! j \<and> eid \<notin> preds g j"
    if j: "j < ?n" "j \<notin> set (wq_queue (add_edges es g4))" for j
  proof
    have nq: "j \<notin> snd ` set es" "new_in \<Longrightarrow> j \<noteq> eid" "j \<notin> ?succ" using j(2) qA q4(2) by auto
    have "ins h ! j = ins g ! j" using fr [OF j(1)] ni nq(2) by (cases "j = eid") auto
    then show "ins (add_edges es g4) ! j = ins g ! j" using A nq(1) j(1) by simp
    show "eid \<notin> preds g j"
    proof
      assume "eid \<in> preds g j"
      then have "j \<in> set (outs g ! eid) \<or> (is_store e \<and> j \<in> set (readers e))"
        using pred_is_queued [OF assms(1) growsD(9) [OF assms(2)] assms(3) j(1)] assms(4) by blast
      then show False using nq(3) H(13) [OF assms(3)] by auto
    qed
  qed
  have "set (ins g ! j) \<subseteq> set (ins (add_edges es g4) ! j)" if "j < ?n" for j
    using H(12) [OF that] F(12) [of j] that n4 by auto
  moreover have "set (wq_queue g) - {eid} \<subseteq> set (wq_queue (add_edges es g4))" using qA q4(2) by auto
  ultimately show "updated eid vc g (add_edges es g4)"
    unfolding updated_def using F n4 away by simp
  show "j < length (events g) \<Longrightarrow> set (ins (add_edges es g4) ! j) = set (ins h ! j) \<union> {f. (f, j) \<in> set es}"
    using A by (simp add: n4(3))
qed

text \<open>
  The clocks grow with every iteration that changes one, and are bounded by the lengths of the
  processes: this distance, and then the queue, decreases.
\<close>

definition clock_room :: "('x, 'a) sgraph \<Rightarrow> nat" where
  "clock_room g =
     (\<Sum>i < length (events g). \<Sum>p < length (events_by_pid g). clock_bound g p - vc_get (vclk g i) p)"

lemma updated_inv:
  assumes "sg_inv g" "eid < length (events g)" "vc = rvc g eid"
    and "\<not> is_in_cycle g (ev g eid) (ins g ! eid) vc" "updated eid vc g h"
  shows "sg_inv h"
proof -
  let ?n = "length (events g)"
  note G = sg_invD [OF assms(1)]
  note C = clocks_okD [OF G(4)]
  from assms(5) have E: "events h = events g" "events_by_pid h = events_by_pid g"
      "writes_by_process_and_address h = writes_by_process_and_address g" and V: "vclocks h = (vclocks g)[eid := vc]"
    and ed: "edges_ok (events h) (ins h) (outs h)" and qu: "queue_ok (length (events h)) (wq_queue h) (wq_set h)"
    and old: "set (wq_queue g) - {eid} \<subseteq> set (wq_queue h)"
    and grow: "\<And>j. j < ?n \<Longrightarrow> set (ins g ! j) \<subseteq> set (ins h ! j)"
    and away: "\<And>j. j < ?n \<Longrightarrow> j \<notin> set (wq_queue h) \<Longrightarrow> ins h ! j = ins g ! j \<and> eid \<notin> preds g j"
    unfolding updated_def by blast+
  have st: "sg_static h" using G(1) by (simp add: sg_static_def E)
  have vh: "vclk h j = (if j = eid then vc else vclk g j)" if "j < ?n" for j
    using that C(1) by (simp add: V)
  have pr: "preds g j \<subseteq> preds h j" if "j < ?n" for j
    using grow [OF that] by (auto simp: preds_iff E)
  have pl: "k < ?n" if "j < ?n" "k \<in> preds g j" for j k using preds_less [OF G(1,2) that] .
  have up: "vc_get (vclk g j) p \<le> vc_get (vclk h j) p" if "j < ?n" for j p
    using vh [OF that] C(4) [OF assms(2)] assms(3) by (simp add: vc_leq_iff)
  have mono: "vc_get (rvc g j) p \<le> vc_get (rvc h j) p" if "j < ?n" for j p
    by (rule rvc_mono) (use that pr up pl E in auto)
  have rng: "vc_in_range g vc" using rvc_in_range [OF G(1,2,4) assms(2)] assms(3) by simp
  have cb: "clock_bound h = clock_bound g" by (rule clock_bound_cong [OF E(2)])
  have "clocks_ok h"
    unfolding clocks_ok_def
  proof (intro conjI allI impI)
    show "length (vclocks h) = length (events h)" using C(1) by (simp add: V E)
    fix i assume "i < length (events h)"
    then have i: "i < ?n" by (simp add: E)
    show "length (vclk h i) \<le> length (events_by_pid h)"
      using rng C(2) [OF i] vh [OF i] by (simp add: vc_in_range_def E)
    show "vc_get (vclk h i) p \<le> clock_bound h p" for p
      using rng C(3) [OF i] vh [OF i] cb by (simp add: vc_in_range_def)
    show "vc_leq (vclk h i) (rvc h i)"
      unfolding vc_leq_iff using vh [OF i] C(4) [OF i] mono [OF i] assms(3)
      by (metis order_trans vc_leq_iff)
  qed
  moreover have "stable_at h i" if "i < length (events h)" "i \<notin> set (wq_queue h)" for i
  proof -
    have i: "i < ?n" using that(1) E by simp
    have away_i: "ins h ! i = ins g ! i" "eid \<notin> preds g i" using away [OF i that(2)] by auto
    have r: "rvc h i = rvc g i"
      by (rule rvc_cong) (use away_i vh pl i E in auto)
    have p: "preds h i = preds g i" using away_i(1) by (simp add: preds_def E)
    have vk: "vclk h k = vclk g k" if "k \<in> preds g i" for k
      using vh [OF pl [OF i that]] that away_i(2) by auto
    show ?thesis
    proof (cases "i = eid")
      case True
      then show ?thesis
        using assms(3,4) vh [OF i] r p vk by (auto simp: stable_at_def is_in_cycle_iff vc_eq_iff)
    next
      case False
      then have "stable_at g i" using G(5) [OF i] old that(2) by blast
      then show ?thesis
        using False vh [OF i] r p vk by (simp add: stable_at_def is_in_cycle_iff)
    qed
  qed
  ultimately show ?thesis using st ed qu by (simp add: sg_inv_def)
qed

lemma updated_room:
  assumes "sg_inv g" "eid < length (events g)" "vc = rvc g eid" "\<not> vc_eq vc (vclk g eid)" "updated eid vc g h"
  shows "clock_room h < clock_room g"
proof -
  note G = sg_invD [OF assms(1)]
  note C = clocks_okD [OF G(4)]
  have E: "events h = events g" "events_by_pid h = events_by_pid g" "vclocks h = (vclocks g)[eid := vc]"
    using assms(5) by (auto simp: updated_def)
  have vh: "vclk h j = (if j = eid then vc else vclk g j)" if "j < length (events g)" for j
    using that C(1) by (simp add: E)
  have rng: "vc_in_range g vc" using rvc_in_range [OF G(1,2,4) assms(2)] assms(3) by simp
  have le: "vc_get (vclk g eid) p \<le> vc_get vc p" for p
    using C(4) [OF assms(2)] assms(3) by (simp add: vc_leq_iff)
  obtain q where q: "vc_get (vclk g eid) q < vc_get vc q"
    using assms(4) le by (metis le_neq_implies_less vc_eq_iff)
  have qb: "q < length (events_by_pid g)" using vc_in_range_visible(1) [OF rng] q by (metis not_less_zero)
  have bd: "vc_get vc q \<le> clock_bound g q" using rng by (simp add: vc_in_range_def)
  have "(\<Sum>p < length (events_by_pid g). clock_bound g p - vc_get vc p) <
      (\<Sum>p < length (events_by_pid g). clock_bound g p - vc_get (vclk g eid) p)"
    by (rule sum_strict_mono_ex1) (use le q qb bd in \<open>auto intro!: diff_le_mono2 bexI [of _ q]\<close>)
  then show ?thesis
    unfolding clock_room_def E
    by (intro sum_strict_mono_ex1)
      (use assms(2) vh C(1) in \<open>auto simp: clock_bound_def E nth_list_update intro!: bexI [of _ eid]\<close>)
qed

section \<open>The assertions of the debug build\<close>

lemma consistent_edges:
  assumes "reads_ok (events g)" "edges_ok (events g) (ins g) (outs g)"
  shows "check_graph_consistency g"
  unfolding check_graph_consistency_def list_all_iff
proof
  fix i assume "i \<in> set [0..<length (events g)]"
  then have i: "i < length (events g)" by simp
  note E = edges_okD [OF assms(2)] and R = reads_okD [OF assms(1)]
  have 1: "\<forall>j \<in> set (ins g ! i). i \<in> set (outs g ! j)" using E(4) i by blast
  have 2: "is_store (ev g w) \<and> addr (ev g w) = addr (ev g i) \<and> i \<in> set (readers (ev g w))"
    if "read_from (ev g i) = Some w" for w using R(1) [OF i that] by blast
  have 3: "i \<in> set (outs g ! q)" if "po_predecessor (ev g i) = Some q" for q using E(8) [OF i that] .
  have 4: "\<forall>j \<in> set (outs g ! i). i \<in> set (ins g ! j) \<or> po_predecessor (ev g j) = Some i" using E(6) [OF i] by blast
  have 5: "\<forall>r \<in> set (readers (ev g i)). is_load (ev g r) \<and> read_from (ev g r) = Some i"
    using R(2) [OF i] R(1) by blast
  show "check_event_consistency g i"
    using 1 2 3 4 5 by (auto simp: check_event_consistency_def Let_def list_all_iff split: option.split)
qed

lemma sg_inv_consistent: "sg_inv g \<Longrightarrow> check_graph_consistency g"
  using consistent_edges sg_invD(2) sg_staticD(4) [OF sg_invD(1)] by blast

end
