(* ===== verification/SatGraph_Correct.thy ===== *)
theory SatGraph_Correct
  imports SatGraph_Inv
begin

text \<open>
  What \<^verbatim>\<open>saturate\<close> achieves: its loop terminates from every graph that satisfies the invariant; a
  graph it accepts is acyclic; and it rejects a graph only if no sequentially consistent execution
  has the graph's program order, reads-from relation and edges. The last point is shown by keeping
  such an execution, given as a position for every event, compatible with every edge that is added.
\<close>

section \<open>The loop\<close>

lemma saturate_one_cases:
  assumes "sg_inv g" "\<not> wq_empty g"
  obtains (cycle) eid h where "wq_pop g = (eid, h)" "eid < length (events g)"
      "is_in_cycle g (ev g eid) (ins g ! eid) (rvc g eid)" "saturate_one g = Inl h"
  | (same) eid h where "wq_pop g = (eid, h)" "eid < length (events g)"
      "\<not> is_in_cycle g (ev g eid) (ins g ! eid) (rvc g eid)"
      "vc_eq (rvc g eid) (vclk g eid)" "saturate_one g = Inr h"
  | (init) eid h k where "wq_pop g = (eid, h)" "eid < length (events g)"
      "is_load (ev g eid) \<or> is_store (ev g eid)" "saturate_one g = Inl k"
      "saturate_pids eid (ev g eid) (vclk g eid) (rvc g eid) [0..<length (rvc g eid)] (h, [], False) = Inl k"
  | (update) eid h k es new_in l where "wq_pop g = (eid, h)" "eid < length (events g)"
      "\<not> is_in_cycle g (ev g eid) (ins g ! eid) (rvc g eid)" "\<not> vc_eq (rvc g eid) (vclk g eid)"
      "(if is_load (ev g eid) \<or> is_store (ev g eid) then
          saturate_pids eid (ev g eid) (vclk g eid) (rvc g eid) [0..<length (rvc g eid)] (h, [], False)
        else Inr (h, [], False)) = Inr (k, es, new_in)"
      "l = (let g2 = add_successors_to_wq eid (ev g eid) k;
                g3 = g2\<lparr>vclocks := (vclocks g2)[eid := rvc g eid]\<rparr>;
                g4 = (if new_in then wq_add_first eid g3 else g3)
            in add_edges es g4)"
      "saturate_one g = Inr l"
proof -
  obtain eid h where p: "wq_pop g = (eid, h)" by fastforce
  note W = wq_pop_spec [OF sg_invD(3) [OF assms(1)] assms(2) p]
  have S: "events h = events g" "ins h = ins g" "vclocks h = vclocks g"
    using W(1) by (auto simp: same_graph_def)
  have r: "recompute_vc_for_event h (ev g eid) (ins g ! eid) = rvc g eid"
    using same_graph_clocks(2) [OF W(1), of eid] S by (simp add: rvc_def)
  have c: "is_in_cycle h (ev g eid) (ins g ! eid) vc = is_in_cycle g (ev g eid) (ins g ! eid) vc" for vc
    using S by (simp add: is_in_cycle_def)
  note eq = saturate_one_def [of g, unfolded p Let_def prod.case S r c vc_size_ub_def]
  show ?thesis
  proof (cases "is_in_cycle g (ev g eid) (ins g ! eid) (rvc g eid)")
    case True
    then show ?thesis using cycle p W(3) by (simp add: eq)
  next
    case nc: False
    show ?thesis
    proof (cases "vc_eq (rvc g eid) (vclk g eid)")
      case True
      then show ?thesis using same [OF p W(3) nc] nc by (simp add: eq)
    next
      case ne: False
      let ?r = "if is_load (ev g eid) \<or> is_store (ev g eid) then
          saturate_pids eid (ev g eid) (vclk g eid) (rvc g eid) [0..<length (rvc g eid)] (h, [], False)
        else Inr (h, [], False)"
      show ?thesis
      proof (cases ?r)
        case (Inl k)
        then show ?thesis
          using init [OF p W(3), of k] nc ne by (auto simp: eq split: if_splits)
      next
        case (Inr s)
        obtain k es b where "s = (k, es, b)" by (cases s)
        then show ?thesis using update [OF p W(3) nc ne _ refl, of k es b] Inr nc ne by (simp add: eq Let_def)
      qed
    qed
  qed
qed

lemma popped_ok:
  assumes "sg_inv g" "\<not> wq_empty g" "wq_pop g = (eid, h)"
  shows "sg_static h" "grows h h" "vc_in_range h (rvc g eid)" "vc_leq (vclk g eid) (rvc g eid)"
    "eid < length (events h)" "ev g eid = ev h eid" "pids_effect eid h (h, [], False)"
proof -
  note G = sg_invD [OF assms(1)]
  note W = wq_pop_spec [OF G(3) assms(2,3)]
  note S = W(1) [unfolded same_graph_def]
  note C = same_graph_clocks [OF W(1)]
  show st: "sg_static h" using G(1) C(3) by simp
  show gr: "grows h h" by (rule grows_refl) (use G(2) W(2) S in simp_all)
  show "eid < length (events h)" "ev g eid = ev h eid" using W(3) S by simp_all
  show "vc_in_range h (rvc g eid)"
    using rvc_in_range [OF G(1,2,4) W(3)] S clock_bound_cong [of h g] by (simp add: vc_in_range_def)
  show "vc_leq (vclk g eid) (rvc g eid)" using clocks_okD(4) [OF G(4) W(3)] .
  show "pids_effect eid h (h, [], False)" using gr by (simp add: pids_effect_def)
qed

lemma updated_queue:
  assumes "same_graph g h" "set (wq_queue h) = set (wq_queue g) - {eid}" "updated eid vc h l"
  shows "updated eid vc g l"
  using assms same_graph_clocks(1) [OF assms(1)] unfolding updated_def same_graph_def by auto

lemma saturate_one_inv:
  assumes "sg_inv g" "\<not> wq_empty g" "saturate_one g = Inr g'"
  shows "sg_inv g' \<and>
    (clock_room g' < clock_room g \<or> clock_room g' = clock_room g \<and> length (wq_queue g') < length (wq_queue g))"
  using assms(1,2)
proof (cases rule: saturate_one_cases)
  case (same eid h)
  note G = sg_invD [OF assms(1)]
  note W = wq_pop_spec [OF G(3) assms(2) same(1)]
  note S = W(1) [unfolded same_graph_def] and C = same_graph_clocks [OF W(1)]
  have "stable_at g eid" using same(3,4) by (simp add: stable_at_def vc_eq_iff)
  then have "stable_at g i" if "i < length (events g)" "i \<notin> set (wq_queue h)" for i
    using that G(5) W(5) by (cases "i = eid") auto
  then have "sg_inv h" using G W(2) C S by (simp add: sg_inv_def)
  moreover have "clock_room h = clock_room g" using S by (simp add: clock_room_def clock_bound_def)
  ultimately show ?thesis using same(5) assms(3) W(6) by simp
next
  case (update eid h k es new_in l)
  note P = popped_ok [OF assms(1,2) update(1)]
  note W = wq_pop_spec [OF sg_invD(3) [OF assms(1)] assms(2) update(1)]
  have eff: "pids_effect eid h (k, es, new_in)"
    using update(5) P(7) saturate_pids_effect [OF P(1-5,6,7)] by (auto split: if_splits)
  have "updated eid (rvc g eid) h l"
    unfolding update(6) Let_def by (rule finish_updated(1) [OF P(1,2,5,6) eff refl refl refl])
  then have "updated eid (rvc g eid) g l" using updated_queue [OF W(1,5)] by blast
  then have "sg_inv l" "clock_room l < clock_room g"
    using updated_inv [OF assms(1) update(2) refl update(3)] updated_room [OF assms(1) update(2) refl update(4)]
    by blast+
  then show ?thesis using update(7) assms(3) by simp
qed (use assms(3) in auto)

text \<open>No assertion of an iteration fails.\<close>

lemma saturate_one_stop:
  assumes "sg_inv g" "\<not> wq_empty g" "saturate_one g = Inl h"
  shows "check_graph_consistency h"
proof -
  have rd: "reads_ok (events g)" by (rule sg_staticD(4) [OF sg_invD(1) [OF assms(1)]])
  obtain eid k where k: "wq_pop g = (eid, k)" by fastforce
  note P = popped_ok [OF assms(1,2) k]
  have kE: "events k = events g"
    using wq_pop_spec(1) [OF sg_invD(3) [OF assms(1)] assms(2) k] by (simp add: same_graph_def)
  have "grows k h"
    using assms(1,2)
  proof (cases rule: saturate_one_cases)
    case (cycle i l)
    then show ?thesis using P(2) assms(3) k by simp
  next
    case (init i l m)
    then show ?thesis using saturate_pids_stop [OF P(1-6) P(7)] assms(3) k by simp
  qed (use assms(3) in auto)
  then show ?thesis using consistent_edges [of h] growsD(1,9) [of k h] rd kE by simp
qed

lemma saturate_one_asserts_hold:
  assumes "sg_inv g" "\<not> wq_empty g"
  shows "saturate_one_asserts g"
proof -
  obtain eid k where k: "wq_pop g = (eid, k)" by fastforce
  note G = sg_invD [OF assms(1)]
  note P = popped_ok [OF assms k]
  note W = wq_pop_spec [OF G(3) assms(2) k]
  have S: "events k = events g" "ins k = ins g" "vclocks k = vclocks g" using W(1) by (auto simp: same_graph_def)
  have r: "recompute_vc_for_event k (ev g eid) (ins g ! eid) = rvc g eid"
    using same_graph_clocks(2) [OF W(1), of eid] S by (simp add: rvc_def)
  have "\<forall>i \<in> preds g eid. i < length (vclocks g)"
    using preds_less [OF G(1,2) W(3)] clocks_okD(1) [OF G(4)] by simp
  moreover have "saturate_pids_asserts eid (ev g eid) (vclk g eid) (rvc g eid) ps (k, [], False)" for ps
    by (rule saturate_pids_asserts_hold [OF P(1-6) P(7)])
  ultimately show ?thesis
    using W(3) saturate_one_stop [OF assms]
    by (auto simp: saturate_one_asserts_def k S r Let_def preds_def list_all_iff split: sum.split)
qed

lemma saturate_loop_unfold:
  assumes "sg_inv g"
  shows "wq_empty g \<Longrightarrow> saturate_loop g = Some (Done True (g\<lparr>wq_set := []\<rparr>))"
    "\<not> wq_empty g \<Longrightarrow> saturate_one g = Inl h \<Longrightarrow> saturate_loop g = Some (Done False h)"
    "\<not> wq_empty g \<Longrightarrow> saturate_one g = Inr h \<Longrightarrow> saturate_loop g = saturate_loop h"
proof -
  have "check_graph_consistency (g\<lparr>wq_set := []\<rparr>)"
    using consistent_edges [of "g\<lparr>wq_set := []\<rparr>"] sg_staticD(4) [OF sg_invD(1) [OF assms]] sg_invD(2) [OF assms] by simp
  then show "wq_empty g \<Longrightarrow> saturate_loop g = Some (Done True (g\<lparr>wq_set := []\<rparr>))"
    by (subst saturate_loop.simps) (simp add: Let_def)
qed (subst saturate_loop.simps; simp add: saturate_one_asserts_hold [OF assms])+

text \<open>Induction over the iterations of the loop, from a graph that satisfies the invariant.\<close>

lemma saturate_loop_induct [consumes 1, case_names empty stop step]:
  assumes "sg_inv g"
    and "\<And>g. sg_inv g \<Longrightarrow> wq_empty g \<Longrightarrow> P g"
    and "\<And>g h. sg_inv g \<Longrightarrow> \<not> wq_empty g \<Longrightarrow> saturate_one g = Inl h \<Longrightarrow> P g"
    and "\<And>g h. sg_inv g \<Longrightarrow> \<not> wq_empty g \<Longrightarrow> saturate_one g = Inr h \<Longrightarrow> P h \<Longrightarrow> P g"
  shows "P g"
  using assms(1)
proof (induction g rule: wf_induct_rule [OF wf_measures [of "[clock_room, \<lambda>g. length (wq_queue g)]"]])
  case (1 g)
  show ?case
  proof (cases "wq_empty g")
    case True
    then show ?thesis using assms(2) 1 by blast
  next
    case ne: False
    show ?thesis
    proof (cases "saturate_one g")
      case (Inl h)
      then show ?thesis using assms(3) 1 ne by blast
    next
      case (Inr h)
      then show ?thesis using assms(4) [OF "1.prems" ne Inr] "1.IH" [of h] saturate_one_inv [OF "1.prems" ne Inr] by auto
    qed
  qed
qed

lemma saturate_loop_terminates:
  "sg_inv g \<Longrightarrow> \<exists>b h. saturate_loop g = Some (Done b h) \<and> check_graph_consistency h"
proof (induction rule: saturate_loop_induct)
  case (empty g)
  have "check_graph_consistency (g\<lparr>wq_set := []\<rparr>)"
    using consistent_edges [of "g\<lparr>wq_set := []\<rparr>"] sg_staticD(4) [OF sg_invD(1) [OF empty(1)]] sg_invD(2) [OF empty(1)] by simp
  then show ?case using saturate_loop_unfold(1) [OF empty] by blast
qed (auto simp: saturate_loop_unfold saturate_one_stop)

lemma saturate_loop_inv:
  assumes "sg_inv g" "saturate_loop g = Some (Done True h)"
  shows "sg_inv h \<and> wq_empty h"
  using assms
proof (induction rule: saturate_loop_induct)
  case (empty g)
  then have h: "h = g\<lparr>wq_set := []\<rparr>" by (simp add: saturate_loop_unfold)
  then have "same_graph g h" by (simp add: same_graph_def)
  note C = same_graph_clocks [OF this]
  show ?case using empty h C by (simp add: sg_inv_def wq_empty_def queue_ok_def marked_def)
qed (auto simp: saturate_loop_unfold)

section \<open>A saturated graph is acyclic\<close>

lemma saturated_edge_lt:
  assumes "sg_inv g" "wq_empty g" "(i, j) \<in> sg_edge_rel g"
  shows "vc_lt (vclk g i) (vclk g j)"
proof -
  have j: "j < length (events g)" "i \<in> preds g j" using assms(3) by (auto simp: sg_edge_rel_def)
  have "stable_at g j" using sg_invD(5) [OF assms(1) j(1)] assms(2) by (simp add: wq_empty_def)
  then have "vc_eq (vclk g j) (rvc g j)" "\<not> vc_eq (vclk g i) (rvc g j)"
    using j(2) by (auto simp: stable_at_def is_in_cycle_iff)
  moreover have "vc_get (vclk g i) p \<le> vc_get (rvc g j) p" for p by (rule rvc_ge_pred [OF j(2)])
  moreover obtain p where "vc_get (vclk g i) p \<noteq> vc_get (rvc g j) p" using calculation(2) vc_eq_iff by blast
  ultimately have "vc_get (vclk g i) p < vc_get (rvc g j) p" "\<forall>p. vc_get (vclk g j) p = vc_get (rvc g j) p"
    by (simp_all add: le_neq_implies_less vc_eq_iff)
  then show ?thesis using rvc_ge_pred [OF j(2)] unfolding vc_lt_iff by metis
qed

lemma saturated_path_lt:
  assumes "sg_inv g" "wq_empty g" "(i, j) \<in> (sg_edge_rel g)\<^sup>+"
  shows "vc_lt (vclk g i) (vclk g j)"
  using assms(3)
proof (induction rule: trancl_induct)
  case (base j)
  then show ?case using saturated_edge_lt [OF assms(1,2)] by blast
next
  case (step j k)
  then show ?case using saturated_edge_lt [OF assms(1,2) step(2)] vc_lt_trans by blast
qed

lemma saturated_acyclic: "sg_inv g \<Longrightarrow> wq_empty g \<Longrightarrow> acyclic (sg_edge_rel g)"
  unfolding acyclic_def using saturated_path_lt vc_lt_irrefl by blast

section \<open>The clocks of a saturated graph are its happens-before relation\<close>

lemma edge_rel_wf:
  assumes "sg_inv g" "acyclic (sg_edge_rel g)"
  shows "wf (sg_edge_rel g)"
proof (rule finite_acyclic_wf)
  note G = sg_invD [OF assms(1)]
  have "sg_edge_rel g \<subseteq> {..<length (events g)} \<times> {..<length (events g)}"
    using preds_less [OF G(1,2)] by (auto simp: sg_edge_rel_def)
  then show "finite (sg_edge_rel g)" by (rule finite_subset) simp
qed (rule assms(2))

lemma program_order_path:
  assumes "sg_static g"
  shows "i < length (events g) \<Longrightarrow> j < length (events g) \<Longrightarrow> ev_pid (ev g i) = ev_pid (ev g j) \<Longrightarrow>
    ev_index (ev g j) = ev_index (ev g i) + d \<Longrightarrow> (i, j) \<in> (sg_edge_rel g)\<^sup>*"
proof (induction d arbitrary: j)
  case 0
  then show ?case using same_process_order(2) [OF assms 0(1,2,3)] by simp
next
  case (Suc d)
  note P = place_okD [OF sg_staticD(2) [OF assms Suc.prems(2)]]
  have "0 < ev_index (ev g i)" using place_okD(2) [OF sg_staticD(2) [OF assms Suc.prems(1)]] .
  then have k: "0 < ev_index (ev g j) - 1" "ev_index (ev g j) - 1 \<le> length (events_by_pid g ! ev_pid (ev g j))"
    using P(3) Suc.prems(4) by simp_all
  let ?q = "get_process_event g (ev_pid (ev g j)) (ev_index (ev g j) - 1)"
  note Q = get_process_event_spec [OF assms P(1) k]
  have "po_predecessor (ev g j) = Some ?q"
    using P(5) k(1) by (simp add: get_process_event_def numeral_2_eq_2)
  then have "(?q, j) \<in> sg_edge_rel g" using Suc.prems(2) by (simp add: sg_edge_rel_def preds_iff)
  moreover have "(i, ?q) \<in> (sg_edge_rel g)\<^sup>*" by (rule Suc.IH) (use Suc.prems Q in simp_all)
  ultimately show ?case by simp
qed

text \<open>The stored clocks never claim more than the edges give, whether or not events are queued.\<close>

lemma clock_path:
  assumes "sg_inv g" "acyclic (sg_edge_rel g)" "i < length (events g)" "j < length (events g)"
    and "ev_index (ev g j) \<le> vc_get (vclk g i) (ev_pid (ev g j))"
  shows "(j, i) \<in> (sg_edge_rel g)\<^sup>*"
  using assms(3,5)
proof (induction i rule: wf_induct_rule [OF edge_rel_wf [OF assms(1,2)]])
  case (1 i)
  note G = sg_invD [OF assms(1)]
  have "vc_leq (vclk g i) (rvc g i)" using clocks_okD(4) [OF G(4) 1(2)] .
  then have "ev_index (ev g j) \<le> vc_get (rvc g i) (ev_pid (ev g j))" using 1(3) by (meson order_trans vc_leq_iff)
  moreover have "0 < ev_index (ev g j)" using place_okD(2) [OF sg_staticD(2) [OF G(1) assms(4)]] .
  ultimately have "\<not> vc_get (rvc g i) (ev_pid (ev g j)) \<le> ev_index (ev g j) - 1" by linarith
  then consider "ev_pid (ev g j) = ev_pid (ev g i)" "ev_index (ev g j) \<le> ev_index (ev g i)"
    | k where "k \<in> preds g i" "ev_index (ev g j) \<le> vc_get (vclk g k) (ev_pid (ev g j))"
    unfolding rvc_le_iff by fastforce
  then show ?case
  proof cases
    case 1
    then show ?thesis
      using program_order_path [OF G(1) assms(4) \<open>i < length (events g)\<close>, of "ev_index (ev g i) - ev_index (ev g j)"] by simp
  next
    case (2 k)
    then have e: "(k, i) \<in> sg_edge_rel g" using 1(2) by (simp add: sg_edge_rel_def)
    have "(j, k) \<in> (sg_edge_rel g)\<^sup>*" using "1.IH" [OF e] preds_less [OF G(1,2) 1(2) 2(1)] 2(2) by blast
    then show ?thesis using e by simp
  qed
qed

lemma saturated_clock_iff:
  assumes "sg_inv g" "wq_empty g" "i < length (events g)" "j < length (events g)"
  shows "ev_index (ev g j) \<le> vc_get (vclk g i) (ev_pid (ev g j)) \<longleftrightarrow> (j, i) \<in> (sg_edge_rel g)\<^sup>*"
proof
  show "ev_index (ev g j) \<le> vc_get (vclk g i) (ev_pid (ev g j)) \<Longrightarrow> (j, i) \<in> (sg_edge_rel g)\<^sup>*"
    by (rule clock_path [OF assms(1) saturated_acyclic [OF assms(1,2)] assms(3,4)])
  assume "(j, i) \<in> (sg_edge_rel g)\<^sup>*"
  then have "vc_leq (vclk g j) (vclk g i)"
    using saturated_path_lt [OF assms(1,2)] by (auto simp: rtrancl_eq_or_trancl vc_leq_iff vc_lt_iff)
  moreover have "ev_index (ev g j) \<le> vc_get (vclk g j) (ev_pid (ev g j))"
  proof -
    have "stable_at g j" using sg_invD(5) [OF assms(1,4)] assms(2) by (simp add: wq_empty_def)
    then show ?thesis using rvc_ge_own [of g j] by (simp add: stable_at_def vc_eq_iff)
  qed
  ultimately show "ev_index (ev g j) \<le> vc_get (vclk g i) (ev_pid (ev g j))"
    by (meson order_trans vc_leq_iff)
qed

end
