(* ===== verification/SatGraph_Sound.thy ===== *)
theory SatGraph_Sound
  imports SatGraph_Correct
begin

text \<open>
  Soundness of saturation. A sequentially consistent execution of the events of a graph is a
  position for every event such that edges go forward and every load reads the last store to its
  address before it (the initial value if there is none). Every edge the algorithm adds goes forward
  in every such execution, so if one exists the algorithm does not reject the graph.
\<close>

section \<open>Sequentially consistent executions of a graph\<close>

definition edges_forward :: "('x, 'a) sgraph \<Rightarrow> (nat \<Rightarrow> nat) \<Rightarrow> bool" where
  "edges_forward g pos \<longleftrightarrow> (\<forall>j < length (events g). \<forall>i \<in> preds g j. pos i < pos j)"

definition reads_last :: "('x, 'a) event list \<Rightarrow> (nat \<Rightarrow> nat) \<Rightarrow> bool" where
  "reads_last E pos \<longleftrightarrow>
     inj_on pos {..<length E} \<and>
     (\<forall>i < length E. \<forall>s < length E.
        is_load (E ! i) \<and> is_store (E ! s) \<and> addr (E ! s) = addr (E ! i) \<and> s \<noteq> i \<and> pos s < pos i \<longrightarrow>
        (\<exists>w. read_from (E ! i) = Some w \<and> (s = w \<or> pos s < pos w)))"

definition sc_execution :: "('x, 'a) sgraph \<Rightarrow> (nat \<Rightarrow> nat) \<Rightarrow> bool" where
  "sc_execution g pos \<longleftrightarrow> edges_forward g pos \<and> reads_last (events g) pos"

text \<open>A clock value \<open>k\<close> for process \<open>p\<close> at event \<open>i\<close> claims that the first \<open>k\<close> events of \<open>p\<close> are not after \<open>i\<close>.\<close>

definition vc_claims :: "('x, 'a) sgraph \<Rightarrow> (nat \<Rightarrow> nat) \<Rightarrow> vclock \<Rightarrow> nat \<Rightarrow> bool" where
  "vc_claims g pos vc i \<longleftrightarrow>
     (\<forall>j < length (events g). ev_index (ev g j) \<le> vc_get vc (ev_pid (ev g j)) \<longrightarrow> pos j \<le> pos i)"

definition clocks_sound :: "('x, 'a) sgraph \<Rightarrow> (nat \<Rightarrow> nat) \<Rightarrow> bool" where
  "clocks_sound g pos \<longleftrightarrow> (\<forall>i < length (events g). vc_claims g pos (vclk g i) i)"

lemma edges_forwardD: "edges_forward g pos \<Longrightarrow> j < length (events g) \<Longrightarrow> i \<in> preds g j \<Longrightarrow> pos i < pos j"
  by (simp add: edges_forward_def)

lemma reads_lastD:
  assumes "reads_last E pos" "i < length E" "s < length E" "is_load (E ! i)" "is_store (E ! s)"
    and "addr (E ! s) = addr (E ! i)" "s \<noteq> i" "pos s < pos i"
  obtains w where "read_from (E ! i) = Some w" "s = w \<or> pos s < pos w"
  using assms unfolding reads_last_def by blast

lemma reads_last_neq:
  assumes "reads_last E pos" "i < length E" "j < length E" "i \<noteq> j"
  shows "pos i < pos j \<or> pos j < pos i"
proof -
  have "pos i \<noteq> pos j" using assms by (auto simp: reads_last_def inj_on_def)
  then show ?thesis by linarith
qed

text \<open>Program order goes forward.\<close>

lemma program_order_forward:
  assumes "sg_static g" "edges_forward g pos"
  shows "i < length (events g) \<Longrightarrow> j < length (events g) \<Longrightarrow> ev_pid (ev g i) = ev_pid (ev g j) \<Longrightarrow>
    ev_index (ev g j) = Suc (ev_index (ev g i) + d) \<Longrightarrow> pos i < pos j"
proof (induction d arbitrary: j)
  case 0
  note P = place_okD [OF sg_staticD(2) [OF assms(1) "0.prems"(2)]]
  note Q = place_okD [OF sg_staticD(2) [OF assms(1) "0.prems"(1)]]
  have "po_predecessor (ev g j) = Some i" using P(5) Q(2,4) 0 by simp
  then show ?case using edges_forwardD [OF assms(2) "0.prems"(2)] by (simp add: preds_iff)
next
  case (Suc d)
  note P = place_okD [OF sg_staticD(2) [OF assms(1) Suc.prems(2)]]
  let ?q = "get_process_event g (ev_pid (ev g j)) (ev_index (ev g j) - 1)"
  have i1: "0 < ev_index (ev g j) - 1" "ev_index (ev g j) - 1 \<le> length (events_by_pid g ! ev_pid (ev g j))"
    using P(3) Suc.prems(4) by simp_all
  note G = get_process_event_spec [OF assms(1) P(1) i1]
  have "po_predecessor (ev g j) = Some ?q"
    using P(5) Suc.prems(4) by (simp add: get_process_event_def)
  then have "pos ?q < pos j" using edges_forwardD [OF assms(2) Suc.prems(2)] by (simp add: preds_iff)
  moreover have "pos i < pos ?q"
    by (rule Suc.IH) (use Suc.prems G in simp_all)
  ultimately show ?case by simp
qed

lemma same_process_forward:
  assumes "sg_static g" "edges_forward g pos" "i < length (events g)" "j < length (events g)"
    and "ev_pid (ev g i) = ev_pid (ev g j)" "ev_index (ev g i) \<le> ev_index (ev g j)"
  shows "pos i \<le> pos j"
proof (cases "ev_index (ev g i) = ev_index (ev g j)")
  case True
  then show ?thesis using same_process_order(2) [OF assms(1,3,4,5)] by simp
next
  case False
  then obtain d where "ev_index (ev g j) = Suc (ev_index (ev g i) + d)"
    using assms(6) by (metis add_Suc_right le_neq_implies_less less_iff_Suc_add)
  then show ?thesis using program_order_forward [OF assms(1-5)] by force
qed

lemma rvc_claims:
  assumes "sg_static g" "edges_ok (events g) (ins g) (outs g)" "edges_forward g pos" "clocks_sound g pos"
    and "i < length (events g)"
  shows "vc_claims g pos (rvc g i) i"
  unfolding vc_claims_def
proof (intro allI impI)
  fix j assume j: "j < length (events g)" "ev_index (ev g j) \<le> vc_get (rvc g i) (ev_pid (ev g j))"
  have "0 < ev_index (ev g j)" using place_okD(2) [OF sg_staticD(2) [OF assms(1) j(1)]] .
  then have "\<not> vc_get (rvc g i) (ev_pid (ev g j)) \<le> ev_index (ev g j) - 1" using j(2) by linarith
  then consider "ev_pid (ev g j) = ev_pid (ev g i)" "ev_index (ev g j) \<le> ev_index (ev g i)"
    | k where "k \<in> preds g i" "ev_index (ev g j) \<le> vc_get (vclk g k) (ev_pid (ev g j))"
    unfolding rvc_le_iff by fastforce
  then show "pos j \<le> pos i"
  proof cases
    case 1
    then show ?thesis using same_process_forward [OF assms(1,3) j(1) assms(5)] by simp
  next
    case (2 k)
    have k: "k < length (events g)" using preds_less [OF assms(1,2,5) 2(1)] .
    then have "pos j \<le> pos k" using assms(4) 2(2) j(1) by (simp add: clocks_sound_def vc_claims_def)
    then show ?thesis using edges_forwardD [OF assms(3,5) 2(1)] by simp
  qed
qed

section \<open>Every added edge goes forward\<close>

lemma no_cycle_detected:
  assumes "sg_static g" "edges_ok (events g) (ins g) (outs g)" "edges_forward g pos" "clocks_sound g pos"
    and "i < length (events g)"
  shows "\<not> is_in_cycle g (ev g i) (ins g ! i) (rvc g i)"
proof
  assume "is_in_cycle g (ev g i) (ins g ! i) (rvc g i)"
  then obtain k where k: "k \<in> preds g i" "vc_eq (vclk g k) (rvc g i)" by (auto simp: is_in_cycle_iff)
  have "ev_index (ev g i) \<le> vc_get (vclk g k) (ev_pid (ev g i))"
    using rvc_ge_own [of g i] k(2) by (simp add: vc_eq_iff)
  then have "pos i \<le> pos k"
    using assms(4) preds_less [OF assms(1,2,5) k(1)] assms(5) by (simp add: clocks_sound_def vc_claims_def)
  then show False using edges_forwardD [OF assms(3,5) k(1)] by simp
qed

text \<open>A visible write other than the event itself comes strictly before it.\<close>

lemma visible_before:
  assumes "reads_last (events g) pos" "vc_claims g pos vc eid" "eid < length (events g)"
    and "visible g a p (vc_get vc p) w" "w \<noteq> eid"
  shows "pos w < pos eid"
proof -
  have w: "w < length (events g)" "ev_pid (ev g w) = p" "ev_index (ev g w) \<le> vc_get vc p"
    using assms(4) by (auto simp: visible_def)
  then have "pos w \<le> pos eid" using assms(2) by (simp add: vc_claims_def)
  then show ?thesis using reads_last_neq [OF assms(1) w(1) assms(3,5)] by linarith
qed

lemma from_read_forward:
  assumes "sg_static g" "reads_last (events g) pos" "eid < length (events g)" "w < length (events g)"
    and "is_store (ev g eid)" "addr (ev g w) = addr (ev g eid)" "pos w < pos eid"
    and "r \<in> set (readers (ev g w))" "r \<noteq> eid"
  shows "pos r < pos eid"
proof (rule ccontr)
  note R = reads_okD [OF sg_staticD(4) [OF assms(1)]]
  have r: "r < length (events g)" "read_from (ev g r) = Some w" using R(2) [OF assms(4,8)] by auto
  have ld: "is_load (ev g r)" "addr (ev g w) = addr (ev g r)" using R(1) [OF r] by auto
  assume "\<not> pos r < pos eid"
  then have "pos eid < pos r" using reads_last_neq [OF assms(2) r(1) assms(3,9)] by blast
  then obtain v where "read_from (ev g r) = Some v" "eid = v \<or> pos eid < pos v"
    using reads_lastD [OF assms(2) r(1) assms(3) ld(1) assms(5)] ld(2) assms(6,9) by metis
  then show False using r(2) assms(7) by auto
qed

definition state_sound :: "nat \<Rightarrow> ('x, 'a) sgraph \<Rightarrow> (nat \<Rightarrow> nat) \<Rightarrow> ('x, 'a) sat_state \<Rightarrow> bool" where
  "state_sound eid g pos s \<longleftrightarrow>
     pids_effect eid g s \<and>
     (case s of (h, es, b) \<Rightarrow> edges_forward h pos \<and> (\<forall>(f, t) \<in> set es. pos f < pos t))"

lemma saturate_pid_sound:
  assumes "sg_static g" "grows g g" "vc_in_range g vc" "vc_leq old_vc vc" "eid < length (events g)"
    and "e = ev g eid" "reads_last (events g) pos" "vc_claims g pos vc eid" "state_sound eid g pos s"
  shows "\<exists>s'. saturate_pid eid e old_vc vc p s = Inr s' \<and> state_sound eid g pos s'"
proof -
  obtain h es b where s: "s = (h, es, b)" by (cases s)
  have eff: "pids_effect eid g s" and rsp: "edges_forward h pos" and fwd: "\<forall>(f, t) \<in> set es. pos f < pos t"
    using assms(9) by (auto simp: state_sound_def s)
  have gh: "grows g h" using eff by (simp add: pids_effect_def s)
  have E: "events h = events g" using growsD(1) [OF gh] .
  have st: "sg_static h" "vc_in_range h vc"
    using assms(1,3) sg_static_grows [OF gh] vc_in_range_grows [OF gh] by simp_all
  have cl: "vc_claims h pos vc eid" "reads_last (events h) pos" "eid < length (events h)"
    using assms(5,7,8) E by (simp_all add: vc_claims_def)
  have before: "pos w < pos eid" if "visible h (addr e) p (vc_get vc p) w" "w \<noteq> eid" for w
    using visible_before [OF cl(2,1,3) that] .
  have coh: "\<exists>rf. read_from e = Some rf \<and> (w = rf \<or> pos w < pos rf)"
    if w: "visible h (addr e) p (vc_get vc p) w" "w \<noteq> eid" and "is_load e" for w
  proof -
    have "w < length (events g)" "is_store (ev g w)" "addr (ev g w) = addr e"
      using w(1) E by (auto simp: visible_def)
    then show ?thesis
      using reads_lastD [OF assms(7,5), of w] before [OF w] w(2) assms(6) \<open>is_load e\<close> by metis
  qed
  show ?thesis
  proof (rule saturate_pid_cases [OF st assms(4), of eid e p es b])
    assume "saturate_pid eid e old_vc vc p (h, es, b) = Inr (h, es, b)"
    then show ?thesis using assms(9) by (simp add: s)
  next
    fix w k
    assume "visible h (addr e) p (vc_get vc p) w" "w \<noteq> eid" "is_load e" "read_from e = None"
    then show ?thesis using coh by force
  next
    fix w k c
    assume vis: "visible h (addr e) p (vc_get vc p) w" "w \<noteq> eid"
      and kc: "(k, c) = (if is_store e then add_from_reads eid (readers (ev h w)) (h, b) else (h, b))"
      and res: "saturate_pid eid e old_vc vc p (h, es, b) =
        Inr (k, es @ (if is_load e \<and> read_from e \<noteq> Some w then [(w, the (read_from e))] else []), c)"
    let ?s = "(k, es @ (if is_load e \<and> read_from e \<noteq> Some w then [(w, the (read_from e))] else []), c)"
    have eff': "pids_effect eid g ?s"
      using saturate_pid_effect [OF assms(1-6) eff] res by (simp add: s)
    then have Ek: "events k = events g" using growsD(1) by (fastforce simp: pids_effect_def)
    have w: "w < length (events h)" "addr (ev h w) = addr (ev h eid)"
      using vis E assms(6) by (auto simp: visible_def)
    have "pos i < pos j" if j: "j < length (events k)" "i \<in> preds k j" for i j
    proof (cases "i \<in> preds h j")
      case True
      then show ?thesis using edges_forwardD [OF rsp] j(1) E Ek by simp
    next
      case False
      then have new: "i \<in> set (ins k ! j)" "i \<notin> set (ins h ! j)"
        using j(2) E Ek by (auto simp: preds_iff)
      have store: "is_store e" using kc new by (cases "is_store e") auto
      have rd: "\<forall>r \<in> set (readers (ev h w)). r < length (events h)"
        using reads_okD(2) [OF sg_staticD(4) [OF st(1)] w(1)] by blast
      note A = add_from_reads_spec [OF grows_self [OF gh] cl(3) rd, of b k c]
      have "j = eid" "i \<in> set (readers (ev h w))" "i \<noteq> eid"
        using A kc store new j(1) E Ek by auto
      then show ?thesis
        using from_read_forward [OF st(1) cl(2,3) w(1)] store w(2) before [OF vis] assms(6) E by simp
    qed
    then have "edges_forward k pos" by (simp add: edges_forward_def)
    moreover have "pos w < pos (the (read_from e))" if "is_load e" "read_from e \<noteq> Some w"
      using coh [OF vis that(1)] that(2) by auto
    ultimately have "state_sound eid g pos ?s" using eff' fwd by (auto simp: state_sound_def)
    then show ?thesis using res by (simp add: s)
  qed
qed

lemma saturate_pids_sound:
  assumes "sg_static g" "grows g g" "vc_in_range g vc" "vc_leq old_vc vc" "eid < length (events g)"
    and "e = ev g eid" "reads_last (events g) pos" "vc_claims g pos vc eid" "state_sound eid g pos s"
  shows "\<exists>s'. saturate_pids eid e old_vc vc ps s = Inr s' \<and> state_sound eid g pos s'"
  using assms(9)
proof (induction ps arbitrary: s)
  case (Cons p ps)
  obtain s1 where "saturate_pid eid e old_vc vc p s = Inr s1" "state_sound eid g pos s1"
    using saturate_pid_sound [OF assms(1-8) Cons.prems] by blast
  then show ?case using Cons.IH by simp
qed simp

section \<open>The loop accepts\<close>

text \<open>Positions are read off the static part, edges and clocks only.\<close>

lemma same_graph_sound:
  assumes "same_graph g h"
  shows "sc_execution h pos \<longleftrightarrow> sc_execution g pos" "clocks_sound h pos \<longleftrightarrow> clocks_sound g pos"
    "vc_claims h pos vc i \<longleftrightarrow> vc_claims g pos vc i"
  using assms same_graph_clocks(1) [OF assms]
  by (simp_all add: same_graph_def sc_execution_def edges_forward_def clocks_sound_def vc_claims_def)

lemma saturate_one_sound:
  assumes "sg_inv g" "\<not> wq_empty g" "sc_execution g pos" "clocks_sound g pos"
  shows "\<exists>h. saturate_one g = Inr h \<and> sc_execution h pos \<and> clocks_sound h pos"
proof -
  note G = sg_invD [OF assms(1)]
  have fw: "edges_forward g pos" and rl: "reads_last (events g) pos"
    using assms(3) by (simp_all add: sc_execution_def)
  note nc = no_cycle_detected [OF G(1,2) fw assms(4)] and cl = rvc_claims [OF G(1,2) fw assms(4)]
  have start: "state_sound eid h pos (h, [], False)" "reads_last (events h) pos" "vc_claims h pos (rvc g eid) eid"
    if p: "wq_pop g = (eid, h)" for eid h
  proof -
    note W = wq_pop_spec [OF G(3) assms(2) p]
    show "state_sound eid h pos (h, [], False)" "reads_last (events h) pos"
      using same_graph_sound(1) [OF W(1), of pos] assms(3) popped_ok(7) [OF assms(1,2) p]
      by (simp_all add: state_sound_def sc_execution_def)
    show "vc_claims h pos (rvc g eid) eid" using cl [OF W(3)] same_graph_sound(3) [OF W(1)] by simp
  qed
  have run: "\<exists>s. saturate_pids eid (ev g eid) (vclk g eid) (rvc g eid) ps (h, [], False) = Inr s \<and>
      state_sound eid h pos s" if p: "wq_pop g = (eid, h)" for eid h ps
    by (rule saturate_pids_sound [OF popped_ok(1-6) [OF assms(1,2) p] start(2,3,1) [OF p]])
  from assms(1,2) show ?thesis
  proof (cases rule: saturate_one_cases)
    case (cycle eid h)
    then show ?thesis using nc by blast
  next
    case (same eid h)
    then show ?thesis
      using wq_pop_spec(1) [OF G(3) assms(2) same(1)] same_graph_sound assms(3,4) by blast
  next
    case (init eid h k)
    then show ?thesis using run [OF init(1)] by (metis Inl_Inr_False)
  next
    case (update eid h k es new_in l)
    note P = popped_ok [OF assms(1,2) update(1)] and W = wq_pop_spec [OF G(3) assms(2) update(1)]
    have ss: "state_sound eid h pos (k, es, new_in)"
      using update(5) start(1) [OF update(1)] run [OF update(1), of "[0..<length (rvc g eid)]"]
      by (auto split: if_splits)
    then have eff: "pids_effect eid h (k, es, new_in)" and fk: "edges_forward k pos"
      and fes: "\<forall>(f, t) \<in> set es. pos f < pos t" by (simp_all add: state_sound_def)
    note F = finish_updated [OF P(1,2,5,6) eff refl refl refl, where vc = "rvc g eid"]
    have up: "updated eid (rvc g eid) h l" unfolding update(6) Let_def by (rule F(1))
    have Ek: "events k = events h" using eff growsD(1) by (fastforce simp: pids_effect_def)
    have E: "events l = events h" "vclocks l = (vclocks h)[eid := rvc g eid]" using up by (simp_all add: updated_def)
    have S: "events h = events g" "vclocks h = vclocks g" using W(1) by (simp_all add: same_graph_def)
    have "pos i < pos j" if j: "j < length (events l)" "i \<in> preds l j" for i j
    proof -
      have "set (ins l ! j) = set (ins k ! j) \<union> {f. (f, j) \<in> set es}"
        unfolding update(6) Let_def using F(2) [of j] j(1) E(1) by simp
      then have "i \<in> preds k j \<or> (i, j) \<in> set es" using j(2) E Ek by (auto simp: preds_iff)
      then show ?thesis using edges_forwardD [OF fk] fes j(1) E(1) Ek by auto
    qed
    then have "sc_execution l pos" using rl E S by (simp add: sc_execution_def edges_forward_def)
    moreover have "clocks_sound l pos"
      unfolding clocks_sound_def
    proof (intro allI impI)
      fix i assume "i < length (events l)"
      then have i: "i < length (events g)" "i < length (vclocks g)"
        using E S clocks_okD(1) [OF G(4)] by simp_all
      have "vc_claims g pos (vclk l i) i"
        using cl [OF i(1)] assms(4) i E S by (cases "i = eid") (simp_all add: clocks_sound_def)
      then show "vc_claims l pos (vclk l i) i" using E S by (simp add: vc_claims_def)
    qed
    ultimately show ?thesis using update(7) by blast
  qed
qed

lemma saturate_loop_sound:
  assumes "sg_inv g" "sc_execution g pos" "clocks_sound g pos"
  shows "\<exists>h. saturate_loop g = Some (Done True h) \<and> sc_execution h pos \<and> clocks_sound h pos"
  using assms
proof (induction rule: saturate_loop_induct)
  case (empty g)
  have "same_graph g (g\<lparr>wq_set := []\<rparr>)" by (simp add: same_graph_def)
  then show ?case using empty same_graph_sound saturate_loop_unfold(1) by blast
next
  case (stop g h)
  then show ?case using saturate_one_sound by fastforce
next
  case (step g h)
  then obtain k where "saturate_one g = Inr k" "sc_execution k pos" "clocks_sound k pos"
    using saturate_one_sound by blast
  then show ?case using step saturate_loop_unfold(3) by fastforce
qed

end
