(* ===== verification/SatGraph_Reverse.thy ===== *)
theory SatGraph_Reverse
  imports SatGraph_Sound
begin

text \<open>
  Reverse saturation and the whole of \<^verbatim>\<open>saturate\<close>. Reverse saturation only adds edges whose targets
  it queues, so it keeps the invariant. In a graph with a sequentially consistent execution the care
  set is a post order of the successor relation, so every clock it reads has been computed, the
  assertion in \<^verbatim>\<open>maybe_get_process_event\<close> holds, and every added edge goes forward.
\<close>

section \<open>Adding edges into queued events\<close>

definition added :: "('x, 'a) sgraph \<Rightarrow> ('x, 'a) sgraph \<Rightarrow> bool" where
  "added g h \<longleftrightarrow> grows g h \<and> (\<forall>j < length (events g). j \<notin> set (wq_queue h) \<longrightarrow> ins h ! j = ins g ! j)"

lemma added_trans: "added f g \<Longrightarrow> added g h \<Longrightarrow> added f h"
  unfolding added_def using grows_trans growsD(1,11) by (metis subsetD)

lemma added_self: "added g h \<Longrightarrow> grows h h"
  unfolding added_def using grows_self by blast

lemma added_inv:
  assumes "sg_inv g" "added g h"
  shows "sg_inv h"
proof -
  note G = sg_invD [OF assms(1)]
  have gr: "grows g h" using assms(2) by (simp add: added_def)
  note D = growsD [OF gr] and C = clocks_okD [OF G(4)]
  have pr: "preds g i \<subseteq> preds h i" if "i < length (events g)" for i
    using D(12) [OF that] by (auto simp: preds_iff D(1))
  have mono: "vc_get (rvc g i) p \<le> vc_get (rvc h i) p" if "i < length (events g)" for i p
    by (rule rvc_mono) (use pr [OF that] in \<open>simp_all add: D\<close>)
  have "clocks_ok h"
    unfolding clocks_ok_def
  proof (intro conjI allI impI)
    show "length (vclocks h) = length (events h)" using C(1) by (simp add: D)
    fix i assume "i < length (events h)"
    then have i: "i < length (events g)" by (simp add: D)
    show "length (vclk h i) \<le> length (events_by_pid h)" using C(2) [OF i] by (simp add: D)
    show "vc_get (vclk h i) p \<le> clock_bound h p" for p
      using C(3) [OF i] clock_bound_cong [OF D(3)] by (simp add: D)
    show "vc_leq (vclk h i) (rvc h i)"
      using C(4) [OF i] mono [OF i] unfolding vc_leq_iff by (simp add: D(2)) (meson order_trans)
  qed
  moreover have "stable_at h i" if i: "i < length (events h)" "i \<notin> set (wq_queue h)" for i
  proof -
    have e: "ins h ! i = ins g ! i" using i assms(2) D(1) by (simp add: added_def)
    have r: "rvc h i = rvc g i" by (rule rvc_cong) (simp_all add: D e)
    have p: "preds h i = preds g i" by (simp add: preds_def D e)
    have "stable_at g i" using G(5) [of i] i D(1,11) by auto
    then show ?thesis unfolding stable_at_def is_in_cycle_iff r p D(2) .
  qed
  moreover have "sg_static h" using G(1) sg_static_grows [OF gr] by simp
  ultimately show ?thesis using D(9,10) by (simp add: sg_inv_def)
qed

lemma added_edge_internal:
  assumes "grows g g" "f < length (events g)" "t < length (events g)"
  shows "added g (add_edge_internal f t g)"
    and "i < length (events g) \<Longrightarrow> i \<noteq> f \<Longrightarrow> outs (add_edge_internal f t g) ! i = outs g ! i"
proof -
  note S = add_edge_internal_spec [OF assms]
  show "added g (add_edge_internal f t g)" using S by (auto simp: added_def)
  show "i < length (events g) \<Longrightarrow> i \<noteq> f \<Longrightarrow> outs (add_edge_internal f t g) ! i = outs g ! i"
    using wq_add_same(1) [of "g\<lparr>outs := push_at f t (outs g), ins := push_at t f (ins g)\<rparr>" t]
      edges_okD(2) [OF growsD(9) [OF assms(1)]]
    by (simp add: add_edge_internal_def same_graph_def nth_push_at)
qed

lemma add_missed_from_reads_spec:
  assumes "grows g g" "pe < length (events g)" "\<forall>r \<in> set rs. r < length (events g)"
    and "h = add_missed_from_reads rs pe g"
  shows "added g h \<and> (\<forall>i < length (events g). i \<notin> set rs \<longrightarrow> outs h ! i = outs g ! i) \<and>
    (\<forall>j < length (events g). set (ins h ! j) = set (ins g ! j) \<union> (if j = pe then set rs - {pe} else {}))"
  using assms
proof (induction rs arbitrary: g)
  case Nil
  then show ?case by (auto simp: added_def)
next
  case (Cons r rs)
  show ?case
  proof (cases "r = pe")
    case True
    then show ?thesis using Cons by auto
  next
    case False
    let ?g = "add_edge_internal r pe g"
    have r: "r < length (events g)" using Cons.prems(3) by simp
    note A = added_edge_internal [OF Cons.prems(1) r Cons.prems(2)]
    note S = add_edge_internal_spec [OF Cons.prems(1) r Cons.prems(2)]
    have E: "events ?g = events g" using growsD(1) [OF S(1)] .
    have "h = add_missed_from_reads rs pe ?g" using Cons.prems(4) False by simp
    note IH = Cons.IH [OF added_self [OF A(1)] _ _ this, unfolded E, OF Cons.prems(2)]
    show ?thesis using IH A S(3) added_trans [OF A(1), of h] Cons.prems(3) False by auto
  qed
qed

section \<open>Reverse saturation keeps the invariant\<close>

lemma lower_bound_spec:
  assumes "ascending xs" "k = lower_bound xs x" "k < length xs"
  shows "x \<le> xs ! k" "k + 1 < length xs \<Longrightarrow> xs ! k < xs ! (k + 1)"
proof -
  have "\<not> xs ! k < x"
    using nth_length_takeWhile [of "\<lambda>y. y < x" xs] assms(2,3) by (simp add: lower_bound_def)
  then show "x \<le> xs ! k" by simp
  show "k + 1 < length xs \<Longrightarrow> xs ! k < xs ! (k + 1)" using ascending_nth_less [OF assms(1)] by simp
qed

lemma first_visible_write_spec:
  assumes "sg_static g" "fv < length (events g)" "p = ev_pid (ev g fv)"
    and "first_visible_write g eid a p fv = Some w"
  shows "w < length (events g)" "ev_pid (ev g w) = p" "is_store (ev g w)" "addr (ev g w) = a" "w \<noteq> eid"
    "ev_index (ev g fv) \<le> ev_index (ev g w)"
proof -
  let ?ws = "(writes_by_process_and_address g ! p) a"
  define k where "k = lower_bound ?ws fv"
  have p: "p < length (events_by_pid g)" using place_okD(1) [OF sg_staticD(2) [OF assms(1,2)]] assms(3) by simp
  note P = sg_staticD(3) [OF assms(1) p]
  have asc: "ascending ?ws" using process_okD(1) [OF P] by (simp add: process_okD(5) [OF P] sorted_wrt_filter)
  have kl: "k < length ?ws" using assms(4) length_takeWhile_le [of "\<lambda>y. y < fv" ?ws]
    by (auto simp: first_visible_write_def k_def lower_bound_def Let_def split: if_splits)
  note L = lower_bound_spec [OF asc k_def kl]
  obtain l where l: "w = ?ws ! l" "l < length ?ws" "fv \<le> w" "w \<noteq> eid"
  proof (cases "?ws ! k = eid")
    case True
    then have "k + 1 < length ?ws" "w = ?ws ! (k + 1)"
      using assms(4) kl by (auto simp: first_visible_write_def k_def Let_def split: if_splits)
    then show ?thesis using that [of "k + 1"] L True by simp
  next
    case False
    then have "w = ?ws ! k"
      using assms(4) kl by (auto simp: first_visible_write_def k_def Let_def split: if_splits)
    then show ?thesis using that [of k] L kl False by simp
  qed
  have "w \<in> set ?ws" using l by simp
  then show w: "w < length (events g)" "ev_pid (ev g w) = p" "is_store (ev g w)" "addr (ev g w) = a"
    using process_member [OF assms(1) p] by (auto simp: process_okD(5) [OF P])
  show "w \<noteq> eid" by (rule l)
  have "ev_pid (ev g w) = ev_pid (ev g fv)" using w(2) assms(3) by simp
  then have "w < fv \<longleftrightarrow> ev_index (ev g w) < ev_index (ev g fv)"
    by (rule same_process_order(1) [OF assms(1) w(1) assms(2)])
  then show "ev_index (ev g fv) \<le> ev_index (ev g w)" using l(3) by simp
qed

lemma maybe_get_process_event_spec:
  assumes "sg_static g" "p < length (events_by_pid g)" "maybe_get_process_event g p k = Some (Some fv)"
  shows "fv < length (events g)" "p = ev_pid (ev g fv)" "ev_index (ev g fv) = k"
proof -
  have k: "0 < k" "k \<le> length (events_by_pid g ! p)" "fv = get_process_event g p k"
    using assms(3) by (auto simp: maybe_get_process_event_def get_process_event_def split: if_splits)
  then show "fv < length (events g)" "p = ev_pid (ev g fv)" "ev_index (ev g fv) = k"
    using get_process_event_spec [OF assms(1,2) k(1,2)] by simp_all
qed

lemma reverse_pids_cons:
  assumes "reverse_pids eid a bc new_out (p # ps) g = Some h"
  obtains (skip) "reverse_pids eid a bc new_out ps g = Some h"
  | (found) fv w where "maybe_get_process_event g p (cv_get bc eid p) = Some (Some fv)"
      "first_visible_write g eid a p fv = Some w"
      "reverse_pids eid a bc new_out ps (add_missed_from_reads new_out w g) = Some h"
  using assms by (auto simp: Let_def split: option.splits if_splits)

lemma reverse_pids_added:
  assumes "sg_static g" "grows g g" "\<forall>r \<in> set new_out. r < length (events g)"
    and "\<forall>p \<in> set ps. p < length (events_by_pid g)" "reverse_pids eid a bc new_out ps g = Some h"
  shows "added g h"
  using assms
proof (induction ps arbitrary: g)
  case Nil
  then show ?case by (simp add: added_def)
next
  case (Cons p ps)
  have p: "p < length (events_by_pid g)" using Cons.prems(4) by simp
  from Cons.prems(5) show ?case
  proof (cases rule: reverse_pids_cons)
    case skip
    then show ?thesis using Cons.IH [OF Cons.prems(1-3)] Cons.prems(4) by simp
  next
    case 2: (found fv w)
    note M = maybe_get_process_event_spec [OF Cons.prems(1) p 2(1)]
    note F = first_visible_write_spec [OF Cons.prems(1) M(1,2) 2(2)]
    have A: "added g (add_missed_from_reads new_out w g)"
      using add_missed_from_reads_spec [OF Cons.prems(2) F(1) Cons.prems(3) refl] by blast
    then have gr: "grows g (add_missed_from_reads new_out w g)" by (simp add: added_def)
    have "added (add_missed_from_reads new_out w g) h"
      by (rule Cons.IH [OF _ added_self [OF A] _ _ 2(3)])
        (use Cons.prems(1,3,4) sg_static_grows [OF gr] growsD(1,3) [OF gr] in auto)
    then show ?thesis using added_trans [OF A] by blast
  qed
qed

lemma reverse_pids_outs:
  assumes "sg_static g" "grows g g" "\<forall>r \<in> set new_out. r < length (events g)"
    and "\<forall>p \<in> set ps. p < length (events_by_pid g)" "reverse_pids eid a bc new_out ps g = Some h"
  shows "\<forall>i < length (events g). i \<notin> set new_out \<longrightarrow> outs h ! i = outs g ! i"
  using assms
proof (induction ps arbitrary: g)
  case (Cons p ps)
  have p: "p < length (events_by_pid g)" using Cons.prems(4) by simp
  from Cons.prems(5) show ?case
  proof (cases rule: reverse_pids_cons)
    case skip
    then show ?thesis using Cons.IH [OF Cons.prems(1-3)] Cons.prems(4) by simp
  next
    case 2: (found fv w)
    note M = maybe_get_process_event_spec [OF Cons.prems(1) p 2(1)]
    note A = add_missed_from_reads_spec [OF Cons.prems(2) first_visible_write_spec(1) [OF Cons.prems(1) M(1,2) 2(2)]
        Cons.prems(3) refl]
    then have gr: "grows g (add_missed_from_reads new_out w g)" by (simp add: added_def)
    have "\<forall>i < length (events (add_missed_from_reads new_out w g)). i \<notin> set new_out \<longrightarrow>
        outs h ! i = outs (add_missed_from_reads new_out w g) ! i"
      by (rule Cons.IH [OF _ grows_self [OF gr] _ _ 2(3)])
        (use Cons.prems(1,3,4) sg_static_grows [OF gr] growsD(1,3) [OF gr] in auto)
    then show ?thesis using A growsD(1) [OF gr] by simp
  qed
qed simp

lemma below_clock_size:
  "cv_clock_size (below_clock g top_vc eid bc) = cv_clock_size bc"
proof -
  have 1: "cv_clock_size (cv_assign_loop cv d f is) = cv_clock_size cv" for cv d f "is"
    by (induction "is" arbitrary: cv) simp_all
  have 2: "cv_clock_size (cv_minus_loop cv d e is) = cv_clock_size cv" for cv d e "is"
    by (induction "is" arbitrary: cv) simp_all
  have 3: "cv_clock_size (fold (\<lambda>s b. cv_minus_assign b eid s) ss cv) = cv_clock_size cv" for ss cv
    by (induction ss arbitrary: cv) (simp_all add: cv_minus_assign_def 2)
  show ?thesis by (simp add: below_clock_def Let_def 1 3 cv_assign_clock_def)
qed

lemma reverse_loop_added:
  assumes "sg_static g" "grows g g" "\<forall>i \<in> set ids. i < length (events g)"
    and "cv_clock_size bc = length (events_by_pid g)" "reverse_loop top_vc ids bc g = Some h"
  shows "added g h"
  using assms
proof (induction ids arbitrary: g bc)
  case Nil
  then show ?case by (simp add: added_def)
next
  case (Cons eid ids)
  let ?bc = "below_clock g top_vc eid bc" and ?rs = "filter (\<lambda>r. r \<ge> saturated_until g) (readers (ev g eid))"
  have cs: "cv_clock_size ?bc = length (events_by_pid g)" using Cons.prems(4) by (simp add: below_clock_size)
  from Cons.prems(5) consider "reverse_loop top_vc ids ?bc g = Some h"
    | k where "reverse_pids eid (addr (ev g eid)) ?bc ?rs [0..<cv_clock_size ?bc] g = Some k"
        "reverse_loop top_vc ids ?bc k = Some h"
    by (auto simp: Let_def split: if_splits option.splits)
  then show ?case
  proof cases
    case 1
    then show ?thesis using Cons.IH [OF Cons.prems(1,2) _ cs] Cons.prems(3) by simp
  next
    case (2 k)
    have "\<forall>r \<in> set ?rs. r < length (events g)"
      using reads_okD(2) [OF sg_staticD(4) [OF Cons.prems(1)]] Cons.prems(3) by auto
    then have A: "added g k" using reverse_pids_added [OF Cons.prems(1,2) _ _ 2(1)] cs by auto
    then have gr: "grows g k" by (simp add: added_def)
    have "added k h"
      by (rule Cons.IH [OF _ added_self [OF A] _ _ 2(2)])
        (use Cons.prems(1,3) sg_static_grows [OF gr] growsD(1,3) [OF gr] cs in auto)
    then show ?thesis using added_trans [OF A] by blast
  qed
qed

lemma add_to_cares_less:
  assumes "add_to_cares g is c = c'" "\<forall>i \<in> set (snd c). i < length (fst c)"
  shows "length (fst c') = length (fst c) \<and> (\<forall>i \<in> set (snd c'). i < length (fst c))"
  using assms
proof (induction g "is" c arbitrary: c' rule: add_to_cares.induct)
  case (2 g i "is" m vec)
  show ?case
  proof (cases "i \<ge> length m \<or> m ! i")
    case True
    then show ?thesis using "2.IH"(1) [OF True, of c'] "2.prems" by auto
  next
    case False
    obtain m1 vec1 where r: "add_to_cares g (successors g i) (m[i := True], vec) = (m1, vec1)" by fastforce
    have 1: "length m1 = length m" "\<forall>i \<in> set vec1. i < length m"
      using "2.IH"(2) [OF False r] "2.prems"(2) by simp_all
    then show ?thesis
      using "2.IH"(3) [OF False r [symmetric] refl, of c'] "2.prems" False r by simp
  qed
qed simp

lemma reverse_care_less:
  "i \<in> set (snd (reverse_care_set g)) \<Longrightarrow> i < length (events g)"
proof -
  have "length (fst (reverse_care_loop g ids c)) = length (fst c) \<and>
      (\<forall>i \<in> set (snd (reverse_care_loop g ids c)). i < length (fst c))"
    if "\<forall>i \<in> set (snd c). i < length (fst c)" for ids c
    using that
  proof (induction ids arbitrary: c)
    case (Cons eid ids)
    let ?c = "case read_from (ev g eid) of None \<Rightarrow> c
      | Some w \<Rightarrow> if is_load (ev g eid) \<and> w < saturated_until g then add_to_care g c w else c"
    have "length (fst ?c) = length (fst c) \<and> (\<forall>i \<in> set (snd ?c). i < length (fst c))"
      using add_to_cares_less [OF refl Cons.prems, of g] Cons.prems unfolding add_to_care_def
      by (auto split: option.split)
    then show ?case using Cons.IH [of ?c] by (simp add: Let_def)
  qed simp
  from this [of "(replicate (length (events g)) False, [])"]
  show "i \<in> set (snd (reverse_care_set g)) \<Longrightarrow> i < length (events g)" by (simp add: reverse_care_set_def)
qed

lemma saturated_until_inv: "sg_inv (g\<lparr>saturated_until := n\<rparr>) \<longleftrightarrow> sg_inv g"
  by (simp add: sg_inv_def sg_static_def clocks_ok_def stable_at_def rvc_def clock_bound_def
      recompute_vc_for_event_def is_in_cycle_def)

lemma reverse_saturate_added:
  assumes "sg_inv g" "reverse_saturate g = Some h"
  obtains k where "added g k" "h = k\<lparr>saturated_until := length (events k)\<rparr>"
proof -
  note G = sg_invD [OF assms(1)]
  have gr: "grows g g" by (rule grows_refl [OF G(2,3)])
  obtain k where k: "h = k\<lparr>saturated_until := length (events k)\<rparr>" "k = g \<or>
      reverse_loop (top_clock g) (snd (reverse_care_set g))
        (cv_new (length (events_by_pid g)) (length (events g))) g = Some k"
    using assms(2) by (auto simp: reverse_saturate_def Let_def split: if_splits)
  have "added g g" using gr by (simp add: added_def)
  moreover have "added g k" if "reverse_loop (top_clock g) (snd (reverse_care_set g))
        (cv_new (length (events_by_pid g)) (length (events g))) g = Some k"
    by (rule reverse_loop_added [OF G(1) gr _ _ that]) (use reverse_care_less in \<open>auto simp: cv_new_def\<close>)
  ultimately show ?thesis using that k by blast
qed

lemma reverse_saturate_inv:
  assumes "sg_inv g" "reverse_saturate g = Some h"
  shows "sg_inv h"
  using reverse_saturate_added [OF assms] added_inv [OF assms(1)] saturated_until_inv by metis

section \<open>The care set is a post order\<close>

text \<open>Every successor comes before the event.\<close>

definition post_ordered :: "('x, 'a) sgraph \<Rightarrow> nat list \<Rightarrow> bool" where
  "post_ordered g vec \<longleftrightarrow> (\<forall>k < length vec. set (successors g (vec ! k)) \<subseteq> set (take k vec))"

lemma post_ordered_snoc:
  "post_ordered g (vec @ [i]) \<longleftrightarrow> post_ordered g vec \<and> set (successors g i) \<subseteq> set vec"
  by (auto simp: post_ordered_def nth_append less_Suc_eq)

definition succs_forward :: "('x, 'a) sgraph \<Rightarrow> (nat \<Rightarrow> nat) \<Rightarrow> bool" where
  "succs_forward g pos \<longleftrightarrow>
     (\<forall>i < length (events g). \<forall>s \<in> set (successors g i). s < length (events g) \<and> pos i < pos s)"

lemma upper_bound_place:
  assumes "sg_static g" "i < length (events g)"
  shows "upper_bound (events_by_pid g ! ev_pid (ev g i)) i = ev_index (ev g i)"
    "last (events_by_pid g ! ev_pid (ev g i)) = i \<or> ev_index (ev g i) < length (events_by_pid g ! ev_pid (ev g i))"
proof -
  let ?B = "events_by_pid g ! ev_pid (ev g i)" and ?k = "ev_index (ev g i)"
  note P = place_okD [OF sg_staticD(2) [OF assms]]
  note Q = process_okD [OF sg_staticD(3) [OF assms(1) P(1)]]
  have k: "?k - 1 < length ?B" using P(2,3) by linarith
  have split: "?B = take (?k - 1) ?B @ i # drop ?k ?B"
    using id_take_nth_drop [OF k] P(2,4) by simp
  have "\<forall>x \<in> set (take (?k - 1) ?B). x \<le> i" "\<forall>x \<in> set (drop ?k ?B). \<not> x \<le> i"
    using Q(1) by (subst (asm) split, auto simp: sorted_wrt_append)+
  then have "takeWhile (\<lambda>x. x \<le> i) ?B = take (?k - 1) ?B @ [i]"
    by (subst split) (cases "drop ?k ?B"; simp add: takeWhile_append2)
  then show "upper_bound ?B i = ?k" using k P(2) by (simp add: upper_bound_def)
  show "last ?B = i \<or> ?k < length ?B"
  proof (rule ccontr)
    assume a: "\<not> (last ?B = i \<or> ?k < length ?B)"
    then have "drop ?k ?B = []" by simp
    then have "last ?B = i" by (subst split) simp
    then show False using a by blast
  qed
qed

lemma po_successor_spec:
  assumes "sg_static g" "i < length (events g)" "po_successor g i (ev g i) = Some s"
  shows "s < length (events g)" "ev_pid (ev g s) = ev_pid (ev g i)" "ev_index (ev g s) = Suc (ev_index (ev g i))"
proof -
  note P = place_okD [OF sg_staticD(2) [OF assms(1,2)]]
  note Q = process_okD [OF sg_staticD(3) [OF assms(1) P(1)]]
  have "ev_index (ev g i) < length (events_by_pid g ! ev_pid (ev g i))"
    "s = events_by_pid g ! ev_pid (ev g i) ! ev_index (ev g i)"
    using assms(3) upper_bound_place [OF assms(1,2)] by (auto simp: po_successor_def Let_def split: if_splits)
  then show "s < length (events g)" "ev_pid (ev g s) = ev_pid (ev g i)" "ev_index (ev g s) = Suc (ev_index (ev g i))"
    using Q(2-4) by blast+
qed

lemma reverse_asserts_hold:
  assumes "sg_static g"
  shows "i < length (events g) \<Longrightarrow> po_successor_asserts g i" "top_asserts g"
proof -
  show "i < length (events g) \<Longrightarrow> po_successor_asserts g i"
    using upper_bound_place [OF assms] by (auto simp: po_successor_asserts_def Let_def)
  have "ev_index (ev g (last evs)) = length evs" if e: "evs \<in> set (events_by_pid g)" "evs \<noteq> []" for evs
  proof -
    obtain p where p: "p < length (events_by_pid g)" "evs = events_by_pid g ! p" using e(1) by (metis in_set_conv_nth)
    then show ?thesis
      using process_okD(4) [OF sg_staticD(3) [OF assms p(1)], of "length evs - 1"] e(2) by (simp add: last_conv_nth)
  qed
  then show "top_asserts g" by (auto simp: top_asserts_def list_all_iff)
qed

lemma edge_successor:
  assumes "sg_static g" "edges_ok (events g) (ins g) (outs g)" "(i, j) \<in> sg_edge_rel g"
  shows "j \<in> set (successors g i)"
proof -
  have j: "j < length (events g)" "i \<in> preds g j" using assms(3) by (auto simp: sg_edge_rel_def)
  then show ?thesis
    using pred_is_queued [OF assms(1,2) preds_less [OF assms(1,2) j] j] by (auto simp: successors_def Let_def)
qed

lemma succs_forward_execution:
  assumes "sg_static g" "edges_ok (events g) (ins g) (outs g)" "edges_forward g pos"
  shows "succs_forward g pos"
  unfolding succs_forward_def
proof (intro allI impI ballI)
  fix i s assume i: "i < length (events g)" and "s \<in> set (successors g i)"
  then consider "po_successor g i (ev g i) = Some s" | "s \<in> set (readers (ev g i))" | "s \<in> set (outs g ! i)"
    by (auto simp: successors_def Let_def split: option.splits)
  then show "s < length (events g) \<and> pos i < pos s"
  proof cases
    case 1
    note S = po_successor_spec [OF assms(1) i 1]
    then show ?thesis using program_order_forward [OF assms(1,3) i S(1), of 0] by simp
  next
    case 2
    then have s: "s < length (events g)" "read_from (ev g s) = Some i"
      using reads_okD(2) [OF sg_staticD(4) [OF assms(1)] i] by simp_all
    then show ?thesis using edges_forwardD [OF assms(3) s(1), of i] by (simp add: preds_iff)
  next
    case 3
    note s = edges_okD(5,6) [OF assms(2) i 3]
    then show ?thesis using edges_forwardD [OF assms(3) s(1), of i] by (auto simp: preds_iff)
  qed
qed

text \<open>
  The search, from events that come after everything on its stack (marked, but not yet listed):
  the list stays a post order, the stack is restored, and the events asked for are listed.
\<close>

lemma add_to_cares_post_order:
  assumes "succs_forward g pos" "add_to_cares g is (m, vec) = (m', vec')" "length m = length (events g)"
    and "\<forall>i \<in> set is. i < length m \<and> (\<forall>j. marked m j \<and> j \<notin> set vec \<longrightarrow> pos j < pos i)"
    and "post_ordered g vec" "\<forall>j \<in> set vec. marked m j" "distinct vec"
  shows "length m' = length m \<and> post_ordered g vec' \<and> (\<forall>j \<in> set vec'. marked m' j) \<and> distinct vec' \<and>
    set vec \<subseteq> set vec' \<and> set is \<subseteq> set vec' \<and>
    (\<forall>j. marked m' j \<and> j \<notin> set vec' \<longleftrightarrow> marked m j \<and> j \<notin> set vec)"
  using assms
proof (induction g "is" "(m, vec)" arbitrary: m vec m' vec' rule: add_to_cares.induct)
  case (2 g i "is" m vec)
  have i: "i < length m" "\<And>j. marked m j \<Longrightarrow> j \<notin> set vec \<Longrightarrow> pos j < pos i" using "2.prems"(4) by auto
  show ?case
  proof (cases "m ! i")
    case True
    then have "i \<in> set vec" using i by (metis less_irrefl marked_def)
    then show ?thesis using "2.hyps"(1) [OF disjI2 "2.prems"(1)] "2.prems" True by simp blast
  next
    case False
    then have nm: "\<not> (i \<ge> length m \<or> m ! i)" "\<not> marked m i" "i \<notin> set vec"
      using i(1) "2.prems"(6) by (auto simp: marked_def)
    have mk: "marked (m[i := True]) j \<longleftrightarrow> j = i \<or> marked m j" for j
      using i(1) by (auto simp: marked_def nth_list_update)
    obtain m1 vec1 where r: "add_to_cares g (successors g i) (m[i := True], vec) = (m1, vec1)" by fastforce
    have succ: "s < length m \<and> pos i < pos s" if "s \<in> set (successors g i)" for s
      using that "2.prems"(1,3) i(1) by (auto simp: succs_forward_def)
    have inner: "length m1 = length m \<and> post_ordered g vec1 \<and> (\<forall>j \<in> set vec1. marked m1 j) \<and> distinct vec1 \<and>
      set vec \<subseteq> set vec1 \<and> set (successors g i) \<subseteq> set vec1 \<and>
      (\<forall>j. marked m1 j \<and> j \<notin> set vec1 \<longleftrightarrow> (j = i \<or> marked m j) \<and> j \<notin> set vec)"
    proof -
      have "pos j < pos s" if "s \<in> set (successors g i)" "j = i \<or> marked m j" "j \<notin> set vec" for s j
        using succ [OF that(1)] i(2) [of j] that(2,3) by auto
      then show ?thesis
        using "2.hyps"(2) [OF nm(1) "2.prems"(1) r] "2.prems"(3,5-7) succ by (simp add: mk)
    qed
    then have i1: "marked m1 i" "i \<notin> set vec1" using nm by auto
    have out: "marked m1 j \<and> j \<notin> set (vec1 @ [i]) \<longleftrightarrow> marked m j \<and> j \<notin> set vec" for j
      using inner nm by auto
    have "add_to_cares g is (m1, vec1 @ [i]) = (m', vec')" using "2.prems"(2) nm r by simp
    note rest = "2.hyps"(3) [OF nm(1) r [symmetric] refl "2.prems"(1) this]
    have stack: "\<forall>k \<in> set is. k < length m1 \<and> (\<forall>j. marked m1 j \<and> j \<notin> set (vec1 @ [i]) \<longrightarrow> pos j < pos k)"
      using "2.prems"(4) inner unfolding out by simp
    have "post_ordered g (vec1 @ [i])" "\<forall>j \<in> set (vec1 @ [i]). marked m1 j" "distinct (vec1 @ [i])"
      using inner i1 by (simp_all add: post_ordered_snoc)
    note rest [OF _ stack this]
    then show ?thesis unfolding out using inner "2.prems"(3) by simp blast
  qed
qed simp

lemma reverse_care_post_order:
  assumes "succs_forward g pos"
  shows "post_ordered g (snd (reverse_care_set g)) \<and> distinct (snd (reverse_care_set g)) \<and>
    (\<forall>r w. saturated_until g \<le> r \<and> r < length (events g) \<and> is_load (ev g r) \<and> read_from (ev g r) = Some w \<and>
       w < saturated_until g \<and> w < length (events g) \<longrightarrow> w \<in> set (snd (reverse_care_set g)))"
proof -
  let ?ok = "\<lambda>(m, vec). length m = length (events g) \<and> post_ordered g vec \<and> distinct vec \<and>
    (\<forall>j. marked m j \<longleftrightarrow> j \<in> set vec)"
  let ?wants = "\<lambda>r w. is_load (ev g r) \<and> read_from (ev g r) = Some w \<and> w < saturated_until g \<and> w < length (events g)"
  have care: "?ok (add_to_care g c w) \<and> set (snd c) \<subseteq> set (snd (add_to_care g c w)) \<and>
      (w < length (events g) \<longrightarrow> w \<in> set (snd (add_to_care g c w)))" if "?ok c" for c w
  proof (cases "w < length (events g)")
    case True
    obtain m vec where c: "c = (m, vec)" by fastforce
    obtain m' vec' where r: "add_to_cares g [w] (m, vec) = (m', vec')" by fastforce
    show ?thesis
      using add_to_cares_post_order [OF assms r] that True c r by (auto simp: add_to_care_def)
  qed (use that in \<open>cases c; simp add: add_to_care_def\<close>)
  have loop: "?ok (reverse_care_loop g ids c) \<and> set (snd c) \<subseteq> set (snd (reverse_care_loop g ids c)) \<and>
      (\<forall>r w. r \<in> set ids \<and> ?wants r w \<longrightarrow> w \<in> set (snd (reverse_care_loop g ids c)))" if "?ok c" for ids c
    using that
  proof (induction ids arbitrary: c)
    case (Cons eid ids)
    let ?c = "case read_from (ev g eid) of None \<Rightarrow> c
      | Some w \<Rightarrow> if is_load (ev g eid) \<and> w < saturated_until g then add_to_care g c w else c"
    have "?ok ?c" "set (snd c) \<subseteq> set (snd ?c)" "\<forall>w. ?wants eid w \<longrightarrow> w \<in> set (snd ?c)"
      using care [OF Cons.prems] Cons.prems by (auto split: option.split)
    moreover have "reverse_care_loop g (eid # ids) c = reverse_care_loop g ids ?c" by (simp add: Let_def)
    ultimately show ?case using Cons.IH [of ?c] by auto
  qed simp
  have "?ok (replicate (length (events g)) False, [])" by (simp add: post_ordered_def marked_def)
  note L = loop [OF this, of "[saturated_until g..<length (events g)]", folded reverse_care_set_def]
  then show ?thesis by (cases "reverse_care_set g") auto
qed

section \<open>The below clocks\<close>

lemma vc_get_top_clock:
  "vc_get (top_clock g) p = (if p < length (events_by_pid g) then length (events_by_pid g ! p) + 1 else 0)"
proof -
  have "vc_get (fold (\<lambda>pid vc. vc_set vc pid (f pid)) [0..<n] []) p = (if p < n then f p else 0)"
    for n and f :: "nat \<Rightarrow> nat"
  proof (induction n)
    case 0
    show ?case by (simp add: vc_get_def)
  qed (auto simp: vc_get_set)
  then show ?thesis by (simp add: top_clock_def)
qed

lemma fold_minus_spec:
  assumes "cv_ok cv n" "d < n" "\<forall>s \<in> set ss. s < n \<and> s \<noteq> d" "j < cv_clock_size cv"
  shows "cv_ok (fold (\<lambda>s b. cv_minus_assign b d s) ss cv) n \<and>
    (\<forall>k. k \<noteq> d \<longrightarrow> cv_get (fold (\<lambda>s b. cv_minus_assign b d s) ss cv) k j = cv_get cv k j) \<and>
    (\<forall>x. x \<le> cv_get (fold (\<lambda>s b. cv_minus_assign b d s) ss cv) d j \<longleftrightarrow>
       x \<le> cv_get cv d j \<and> (\<forall>s \<in> set ss. x \<le> cv_get cv s j))"
  using assms
proof (induction ss arbitrary: cv)
  case (Cons s ss)
  note M = cv_get_minus_assign [OF Cons.prems(1,2), of s, OF _ _ Cons.prems(4)]
  have s: "s < n" "d \<noteq> s" using Cons.prems(3) by auto
  show ?case
    using Cons.IH [of "cv_minus_assign cv d s"] Cons.prems s M [OF s] by (auto simp: min_le_iff_disj)
qed simp

text \<open>
  The clock of event \<open>i\<close> is positive and claims that the events of a process from its value on come
  after \<open>i\<close>. The events that have clocks are closed under that, and the later clock is above.
\<close>

definition below_claims :: "('x, 'a) sgraph \<Rightarrow> (nat \<Rightarrow> nat) \<Rightarrow> vclock_vec \<Rightarrow> nat \<Rightarrow> bool" where
  "below_claims g pos bc i \<longleftrightarrow>
     (\<forall>p < length (events_by_pid g). 0 < cv_get bc i p \<and>
        (\<forall>j < length (events g). ev_pid (ev g j) = p \<and> cv_get bc i p \<le> ev_index (ev g j) \<longrightarrow> j = i \<or> pos i < pos j))"

definition below_trans :: "('x, 'a) sgraph \<Rightarrow> vclock_vec \<Rightarrow> nat set \<Rightarrow> nat \<Rightarrow> bool" where
  "below_trans g bc D i \<longleftrightarrow> cv_get bc i (ev_pid (ev g i)) \<le> ev_index (ev g i) \<and>
     (\<forall>j < length (events g). cv_get bc i (ev_pid (ev g j)) \<le> ev_index (ev g j) \<longrightarrow>
        j \<in> D \<and> (\<forall>q < length (events_by_pid g). cv_get bc i q \<le> cv_get bc j q))"

text \<open>Program order goes forward; this concerns the events only and is kept when edges are added.\<close>

definition process_forward :: "('x, 'a) sgraph \<Rightarrow> (nat \<Rightarrow> nat) \<Rightarrow> bool" where
  "process_forward g pos \<longleftrightarrow>
     (\<forall>i j. i < length (events g) \<and> j < length (events g) \<and> ev_pid (ev g i) = ev_pid (ev g j) \<and>
        ev_index (ev g i) < ev_index (ev g j) \<longrightarrow> pos i < pos j)"

lemma process_forwardI: "sg_static g \<Longrightarrow> edges_forward g pos \<Longrightarrow> process_forward g pos"
  unfolding process_forward_def using program_order_forward [of g pos] less_iff_Suc_add by (metis add_Suc_right)

lemma below_clock_get:
  assumes "sg_static g" "\<forall>s \<in> set (successors g eid). s < length (events g) \<and> s \<noteq> eid" "eid < length (events g)"
    and "cv_ok bc (length (events g))" "cv_clock_size bc = length (events_by_pid g)"
    and "bc' = below_clock g (top_clock g) eid bc" "p < length (events_by_pid g)"
  shows "cv_ok bc' (length (events g))" "k \<noteq> eid \<Longrightarrow> cv_get bc' k p = cv_get bc k p"
    and "x \<le> cv_get bc' eid p \<longleftrightarrow>
      x \<le> (if p = ev_pid (ev g eid) then ev_index (ev g eid) else length (events_by_pid g ! p) + 1) \<and>
      (\<forall>s \<in> set (successors g eid). x \<le> cv_get bc s p)"
proof -
  let ?n = "length (events g)" and ?e = "ev g eid"
  let ?bc1 = "cv_assign_clock bc eid (top_clock g)"
  let ?bc2 = "cv_put ?bc1 eid (ev_pid ?e) (ev_index ?e)"
  note P = place_okD [OF sg_staticD(2) [OF assms(1,3)]]
  have pe: "ev_pid ?e < cv_clock_size bc" using P(1) assms(5) by simp
  note s = assms(2)
  note A = cv_get_assign_clock [OF assms(4,3)]
  have sz: "cv_clock_size ?bc1 = cv_clock_size bc" "cv_ok ?bc2 ?n" using A(2,3) [OF pe] by simp_all
  have get2: "cv_get ?bc2 k p = (if k = eid then if p = ev_pid ?e then ev_index ?e else length (events_by_pid g ! p) + 1
      else cv_get bc k p)" for k
    using assms(7) cv_get_put [OF A(2) [OF pe] assms(3), where i = "ev_pid ?e" and j = p] A(1) [where j = p] pe sz assms(5)
    by (simp add: vc_get_top_clock)
  note F = fold_minus_spec [OF sz(2) assms(3) s, of p]
  show "cv_ok bc' ?n" "k \<noteq> eid \<Longrightarrow> cv_get bc' k p = cv_get bc k p"
    "x \<le> cv_get bc' eid p \<longleftrightarrow> x \<le> (if p = ev_pid ?e then ev_index ?e else length (events_by_pid g ! p) + 1) \<and>
      (\<forall>s \<in> set (successors g eid). x \<le> cv_get bc s p)"
    using F assms(5,7) sz(1) s by (auto simp: assms(6) below_clock_def Let_def get2)
qed

lemma below_clock_claims:
  assumes "sg_static g" "process_forward g pos" "eid < length (events g)"
    and "\<forall>s \<in> set (successors g eid). s < length (events g) \<and> pos eid < pos s"
    and "cv_ok bc (length (events g))" "cv_clock_size bc = length (events_by_pid g)"
    and "\<forall>s \<in> set (successors g eid). below_claims g pos bc s" "bc' = below_clock g (top_clock g) eid bc"
  shows "cv_ok bc' (length (events g))" "below_claims g pos bc' eid"
    and "i \<noteq> eid \<Longrightarrow> below_claims g pos bc i \<Longrightarrow> below_claims g pos bc' i"
proof -
  let ?e = "ev g eid"
  note P = place_okD [OF sg_staticD(2) [OF assms(1,3)]]
  have s: "\<forall>s \<in> set (successors g eid). s < length (events g) \<and> s \<noteq> eid" using assms(4) by auto
  note F = below_clock_get [OF assms(1) s assms(3,5,6,8)]
  show "cv_ok bc' (length (events g))" by (rule F(1) [OF P(1)])
  show "i \<noteq> eid \<Longrightarrow> below_claims g pos bc i \<Longrightarrow> below_claims g pos bc' i"
    using F(2) by (simp add: below_claims_def)
  show "below_claims g pos bc' eid"
    unfolding below_claims_def
  proof (intro allI impI conjI)
    fix p assume p: "p < length (events_by_pid g)"
    have "\<forall>s \<in> set (successors g eid). Suc 0 \<le> cv_get bc s p"
      using assms(7) p by (auto simp: below_claims_def Suc_le_eq)
    then have "Suc 0 \<le> cv_get bc' eid p" using F(3) [OF p] P(2) by auto
    then show "0 < cv_get bc' eid p" by simp
    fix j assume j: "j < length (events g)" "ev_pid (ev g j) = p \<and> cv_get bc' eid p \<le> ev_index (ev g j)"
    then have "\<not> Suc (ev_index (ev g j)) \<le> cv_get bc' eid p" by simp
    then consider "\<not> Suc (ev_index (ev g j)) \<le> (if p = ev_pid ?e then ev_index ?e else length (events_by_pid g ! p) + 1)"
      | s where "s \<in> set (successors g eid)" "\<not> Suc (ev_index (ev g j)) \<le> cv_get bc s p"
      using F(3) [OF p] by blast
    then show "j = eid \<or> pos eid < pos j"
    proof cases
      case 1
      have "ev_index (ev g j) \<le> length (events_by_pid g ! p)"
        using place_okD(3) [OF sg_staticD(2) [OF assms(1) j(1)]] j(2) by simp
      then have pe: "p = ev_pid ?e" "ev_index ?e \<le> ev_index (ev g j)" using 1 by (auto split: if_splits)
      then show ?thesis
        using same_process_order(2) [OF assms(1,3) j(1)] j assms(2,3) unfolding process_forward_def
        by (metis order_le_less)
    next
      case (2 s)
      then have "cv_get bc s p \<le> ev_index (ev g j)" "below_claims g pos bc s" using assms(7) by auto
      then have "j = s \<or> pos s < pos j" using p j by (auto simp: below_claims_def)
      moreover have "pos eid < pos s" using 2(1) assms(4) by auto
      ultimately show ?thesis by auto
    qed
  qed
qed

lemma below_clock_trans:
  assumes "sg_static g" "edges_ok (events g) (ins g) (outs g)" "eid < length (events g)" "eid \<notin> D"
    and "D \<subseteq> {..<length (events g)}" "set (successors g eid) \<subseteq> D"
    and "cv_ok bc (length (events g))" "cv_clock_size bc = length (events_by_pid g)"
    and "\<forall>i \<in> D. below_trans g bc D i" "bc' = below_clock g (top_clock g) eid bc"
  shows "\<forall>i \<in> insert eid D. below_trans g bc' (insert eid D) i"
proof -
  let ?e = "ev g eid" and ?n = "length (events g)" and ?P = "length (events_by_pid g)"
  have pl: "ev_pid (ev g j) < ?P" if "j < ?n" for j using place_okD(1) [OF sg_staticD(2) [OF assms(1) that]] .
  have s: "\<forall>s \<in> set (successors g eid). s < ?n \<and> s \<noteq> eid" using assms(4-6) by auto
  note F = below_clock_get [OF assms(1) s assms(3,7,8,10)]
  have row: "cv_get bc' k q = cv_get bc k q" if "k \<in> D" "q < ?P" for k q using F(2) [OF that(2)] that(1) assms(4) by metis
  have T: "j \<in> D" "q < ?P \<Longrightarrow> cv_get bc i q \<le> cv_get bc j q"
    if "i \<in> D" "j < ?n" "cv_get bc i (ev_pid (ev g j)) \<le> ev_index (ev g j)" for i j q
    using assms(9) that by (auto simp: below_trans_def)
  have own: "cv_get bc i (ev_pid (ev g i)) \<le> ev_index (ev g i)" if "i \<in> D" for i
    using assms(9) that by (simp add: below_trans_def)
  have old: "below_trans g bc' (insert eid D) i" if i: "i \<in> D" for i
    unfolding below_trans_def
  proof (intro conjI allI impI)
    have il: "i < ?n" using i assms(5) by auto
    show "cv_get bc' i (ev_pid (ev g i)) \<le> ev_index (ev g i)" using own [OF i] row [OF i pl [OF il]] by simp
    fix j assume j: "j < ?n" "cv_get bc' i (ev_pid (ev g j)) \<le> ev_index (ev g j)"
    then have jD: "j \<in> D" using T(1) [OF i j(1)] row [OF i pl [OF j(1)]] by simp
    then show "j \<in> insert eid D" by simp
    fix q assume q: "q < ?P"
    show "cv_get bc' i q \<le> cv_get bc' j q"
      using T(2) [OF i j(1) _ q] j row [OF i pl [OF j(1)]] row [OF i q] row [OF jD q] by simp
  qed
  have le: "cv_get bc' eid q \<le> cv_get bc k q" if "k \<in> set (successors g eid)" "q < ?P" for k q
    using F(3) [OF that(2), THEN iffD1, OF order_refl] that(1) by blast
  have via: "j \<in> insert eid D \<and> (\<forall>q < ?P. cv_get bc' eid q \<le> cv_get bc' j q)"
    if k: "k \<in> set (successors g eid)" "cv_get bc k (ev_pid (ev g j)) \<le> ev_index (ev g j)" "j < ?n" for j k
  proof -
    have kD: "k \<in> D" using k(1) assms(6) by blast
    have jD: "j \<in> D" by (rule T(1) [OF kD k(3,2)])
    have "cv_get bc' eid q \<le> cv_get bc' j q" if "q < ?P" for q
      using le [OF k(1) that] T(2) [OF kD k(3,2) that] row [OF jD that] by simp
    then show ?thesis using jD by blast
  qed
  have "below_trans g bc' (insert eid D) eid"
    unfolding below_trans_def
  proof (intro conjI allI impI)
    show own_e: "cv_get bc' eid (ev_pid ?e) \<le> ev_index ?e"
      using F(3) [OF pl [OF assms(3)], THEN iffD1, OF order_refl] by simp
    fix j assume j: "j < ?n" "cv_get bc' eid (ev_pid (ev g j)) \<le> ev_index (ev g j)"
    let ?p = "ev_pid (ev g j)"
    have "j \<in> insert eid D \<and> (\<forall>q < ?P. cv_get bc' eid q \<le> cv_get bc' j q)"
    proof -
      have "\<not> Suc (ev_index (ev g j)) \<le> cv_get bc' eid ?p" using j(2) by simp
      then consider "\<not> Suc (ev_index (ev g j)) \<le> (if ?p = ev_pid ?e then ev_index ?e else length (events_by_pid g ! ?p) + 1)"
        | k where "k \<in> set (successors g eid)" "\<not> Suc (ev_index (ev g j)) \<le> cv_get bc k ?p"
        using F(3) [OF pl [OF j(1)]] by blast
      then show ?thesis
      proof cases
        case 1
        note J = place_okD [OF sg_staticD(2) [OF assms(1) j(1)]]
        have pe: "?p = ev_pid ?e" "ev_index ?e \<le> ev_index (ev g j)" using 1 J(3) by (auto split: if_splits)
        show ?thesis
        proof (cases "ev_index ?e = ev_index (ev g j)")
          case True
          then have "j = eid" using same_process_order(2) [OF assms(1,3) j(1)] pe(1) by simp
          then show ?thesis by simp
        next
          case False
          let ?s = "events_by_pid g ! ?p ! ev_index ?e"
          have k: "ev_index ?e < length (events_by_pid g ! ?p)" using False pe(2) J(3) by simp
          note Q = process_okD [OF sg_staticD(3) [OF assms(1) pl [OF j(1)]]]
          have sn: "?s < ?n" "ev_pid (ev g ?s) = ?p" "ev_index (ev g ?s) = Suc (ev_index ?e)" using Q(2-4) [OF k] .
          note S = place_okD [OF sg_staticD(2) [OF assms(1) sn(1)]] and E = place_okD [OF sg_staticD(2) [OF assms(1,3)]]
          have "po_predecessor (ev g ?s) = Some eid" using S(5) E(2,4) sn pe(1) by simp
          then have "(eid, ?s) \<in> sg_edge_rel g" using sn(1) by (simp add: sg_edge_rel_def preds_iff)
          then have ss: "?s \<in> set (successors g eid)" by (rule edge_successor [OF assms(1,2)])
          then have "cv_get bc ?s ?p \<le> ev_index (ev g ?s)" using own [of ?s] assms(6) sn(2) by auto
          then show ?thesis using via [OF ss _ j(1)] sn(3) False pe(2) by simp
        qed
      next
        case (2 k)
        then show ?thesis using via [OF 2(1) _ j(1)] by simp
      qed
    qed
    then show "j \<in> insert eid D" "\<And>q. q < ?P \<Longrightarrow> cv_get bc' eid q \<le> cv_get bc' j q" by blast+
  qed
  then show ?thesis using old by blast
qed

section \<open>Reverse saturation adds forward edges\<close>

text \<open>The assertions hold when the edges the clocks were computed from go forward.\<close>

lemma below_clock_lt:
  assumes "sg_static g" "eid < length (events g)" "cv_clock_size bc = length (events_by_pid g)" "eid \<in> D"
    and "\<forall>i \<in> D. below_claims g pos bc i \<and> below_trans g bc D i"
    and "w < length (events g)" "w \<noteq> eid" "cv_get bc eid (ev_pid (ev g w)) \<le> ev_index (ev g w)"
  shows "cv_lt bc eid w" "pos eid < pos w"
proof -
  let ?p = "ev_pid (ev g eid)"
  have pl: "ev_pid (ev g j) < length (events_by_pid g)" if "j < length (events g)" for j
    using place_okD(1) [OF sg_staticD(2) [OF assms(1) that]] .
  have C: "j = i \<or> pos i < pos j" if "i \<in> D" "j < length (events g)" "cv_get bc i (ev_pid (ev g j)) \<le> ev_index (ev g j)" for i j
    using assms(5) that pl [OF that(2)] by (auto simp: below_claims_def)
  have T: "w \<in> D" "\<forall>q < length (events_by_pid g). cv_get bc eid q \<le> cv_get bc w q" "cv_get bc eid ?p \<le> ev_index (ev g eid)"
    using assms(4-6,8) by (auto simp: below_trans_def)
  show lt: "pos eid < pos w" using C [OF assms(4,6,8)] assms(7) by simp
  then have "ev_index (ev g eid) < cv_get bc w ?p" using C [OF T(1) assms(2)] assms(7) by force
  then show "cv_lt bc eid w" using T(2,3) pl [OF assms(2)] assms(3) by (auto simp: cv_lt_iff)
qed

lemma reverse_pids_returns:
  assumes "sg_static g" "grows g g" "eid < length (events g)" "\<forall>r \<in> set new_out. r < length (events g)"
    and "cv_clock_size bc = length (events_by_pid g)" "eid \<in> D"
    and "\<forall>i \<in> D. below_claims g pos bc i \<and> below_trans g bc D i"
    and "\<forall>p \<in> set ps. p < length (events_by_pid g)"
  shows "\<exists>h. reverse_pids eid a bc new_out ps g = Some h"
  using assms
proof (induction ps arbitrary: g)
  case (Cons p ps)
  note pr = Cons.prems
  have p: "p < length (events_by_pid g)" "\<forall>p \<in> set ps. p < length (events_by_pid g)" using pr(8) by auto
  have "0 < cv_get bc eid p" using pr(6,7) p(1) by (auto simp: below_claims_def)
  then consider "maybe_get_process_event g p (cv_get bc eid p) = Some None"
    | fv where "maybe_get_process_event g p (cv_get bc eid p) = Some (Some fv)"
    using p(1) by (cases "cv_get bc eid p > length (events_by_pid g ! p)") (auto simp: maybe_get_process_event_def)
  then show ?case
  proof cases
    case 1
    then show ?thesis using Cons.IH [OF pr(1-7) p(2)] by simp
  next
    case (2 fv)
    show ?thesis
    proof (cases "first_visible_write g eid a p fv")
      case None
      then show ?thesis using Cons.IH [OF pr(1-7) p(2)] 2 by simp
    next
      case (Some w)
      let ?h = "add_missed_from_reads new_out w g"
      note M = maybe_get_process_event_spec [OF pr(1) p(1) 2]
      note F = first_visible_write_spec [OF pr(1) M(1,2) Some]
      have "cv_lt bc eid w" using below_clock_lt(1) [OF pr(1,3,5-7) F(1,5)] F(2,6) M(3) by simp
      moreover have gr: "grows g ?h"
        using add_missed_from_reads_spec [OF pr(2) F(1) pr(4) refl] by (simp add: added_def)
      note E = growsD(1,3) [OF gr]
      have "\<exists>h. reverse_pids eid a bc new_out ps ?h = Some h"
        by (rule Cons.IH [OF _ grows_self [OF gr]])
          (use pr p(2) E sg_static_grows [OF gr] in \<open>simp_all add: below_claims_def below_trans_def\<close>)
      ultimately show ?thesis using 2 Some F(3-5) by (simp add: Let_def)
    qed
  qed
qed simp

lemma reverse_pids_forward:
  assumes "sg_static g" "grows g g" "edges_forward g pos" "reads_last (events g) pos" "eid < length (events g)"
    and "cv_clock_size bc = length (events_by_pid g)" "eid \<in> D" "\<forall>i \<in> D. below_claims g pos bc i \<and> below_trans g bc D i"
    and "set new_out \<subseteq> set (readers (ev g eid))" "\<forall>p \<in> set ps. p < length (events_by_pid g)"
    and "reverse_pids eid (addr (ev g eid)) bc new_out ps g = Some h"
  shows "edges_forward h pos"
  using assms
proof (induction ps arbitrary: g)
  case (Cons p ps)
  note pr = Cons.prems
  have p: "p < length (events_by_pid g)" "\<forall>p \<in> set ps. p < length (events_by_pid g)" using pr(10) by auto
  from pr(11) show ?case
  proof (cases rule: reverse_pids_cons)
    case skip
    then show ?thesis using Cons.IH [OF pr(1-9) p(2)] by simp
  next
    case 2: (found fv w)
    let ?h = "add_missed_from_reads new_out w g"
    note M = maybe_get_process_event_spec [OF pr(1) p(1) 2(1)]
    note F = first_visible_write_spec [OF pr(1) M(1,2) 2(2)]
    have rd: "\<forall>r \<in> set new_out. r < length (events g)"
      using reads_okD(2) [OF sg_staticD(4) [OF pr(1)] pr(5)] pr(9) by blast
    note A = add_missed_from_reads_spec [OF pr(2) F(1) rd refl]
    then have gr: "grows g ?h" by (simp add: added_def)
    have E: "events ?h = events g" "events_by_pid ?h = events_by_pid g" using growsD(1,3) [OF gr] .
    have ew: "pos eid < pos w" using below_clock_lt(2) [OF pr(1,5-8) F(1,5)] F(2,6) M(3) by simp
    have "edges_forward ?h pos"
      unfolding edges_forward_def
    proof (intro allI impI ballI)
      fix j i assume j: "j < length (events ?h)" "i \<in> preds ?h j"
      then have "i \<in> preds g j \<or> (j = w \<and> i \<in> set new_out - {w})"
        using A E by (auto simp: preds_iff split: if_splits)
      then show "pos i < pos j"
        using edges_forwardD [OF pr(3)] from_read_forward [OF pr(1,4) F(1) pr(5) F(3) _ ew, of i] F(4) pr(9) j(1) E(1)
        by auto
    qed
    then show ?thesis
      by (intro Cons.IH [OF _ grows_self [OF gr]])
        (use pr(1,4-9) p(2) E sg_static_grows [OF gr] 2(3) in \<open>simp_all add: below_claims_def below_trans_def\<close>)
  qed
qed simp

fun ordered_after :: "('x, 'a) sgraph \<Rightarrow> nat set \<Rightarrow> nat list \<Rightarrow> bool" where
  "ordered_after g D [] \<longleftrightarrow> True"
| "ordered_after g D (i # is) \<longleftrightarrow> set (successors g i) \<subseteq> D \<and> ordered_after g (insert i D) is"

lemma ordered_after_post_ordered: "post_ordered g (xs @ ys) \<Longrightarrow> ordered_after g (set xs) ys"
proof (induction ys arbitrary: xs)
  case (Cons y ys)
  have "set (successors g y) \<subseteq> set xs"
    using Cons.prems [unfolded post_ordered_def, rule_format, of "length xs"] by simp
  moreover have "ordered_after g (set (xs @ [y])) ys" using Cons.IH [of "xs @ [y]"] Cons.prems by simp
  ultimately show ?case by simp
qed simp

lemma ordered_after_cong:
  "(\<And>i. i \<in> set is \<Longrightarrow> successors h i = successors g i) \<Longrightarrow> ordered_after h D is = ordered_after g D is"
  by (induction "is" arbitrary: D) auto

text \<open>
  What holds between the iterations of reverse saturation: the clocks of the events listed so far,
  \<open>D\<close>, are right, and the edges from the events still to come go forward.
\<close>

definition reverse_ok :: "(nat \<Rightarrow> nat) \<Rightarrow> nat set \<Rightarrow> nat list \<Rightarrow> vclock_vec \<Rightarrow> ('x, 'a) sgraph \<Rightarrow> bool" where
  "reverse_ok pos D ids bc g \<longleftrightarrow>
     sg_static g \<and> grows g g \<and> process_forward g pos \<and> set ids \<union> D \<subseteq> {..<length (events g)} \<and>
     (\<forall>i \<in> set ids. \<forall>s \<in> set (successors g i). s < length (events g) \<and> pos i < pos s) \<and>
     cv_ok bc (length (events g)) \<and> cv_clock_size bc = length (events_by_pid g) \<and>
     (\<forall>i \<in> D. below_claims g pos bc i \<and> below_trans g bc D i) \<and>
     ordered_after g D ids \<and> distinct ids \<and> D \<inter> set ids = {}"

lemma reverse_ok_next:
  assumes "reverse_ok pos D (eid # ids) bc g" "bc1 = below_clock g (top_clock g) eid bc"
  shows "cv_clock_size bc1 = length (events_by_pid g)"
    "\<forall>i \<in> insert eid D. below_claims g pos bc1 i \<and> below_trans g bc1 (insert eid D) i"
    "grows g k \<Longrightarrow> \<forall>i < length (events g). i \<notin> set (readers (ev g eid)) \<longrightarrow> outs k ! i = outs g ! i \<Longrightarrow>
      reverse_ok pos (insert eid D) ids bc1 k"
proof -
  note R = assms(1) [unfolded reverse_ok_def]
  have eid: "eid < length (events g)" "eid \<notin> D" "set (successors g eid) \<subseteq> D" using R by auto
  have st: "sg_static g" "grows g g" "process_forward g pos" using R by blast+
  have fw: "\<forall>s \<in> set (successors g eid). s < length (events g) \<and> pos eid < pos s" using R by simp
  have bc: "cv_ok bc (length (events g))" "cv_clock_size bc = length (events_by_pid g)" using R by blast+
  have "\<forall>s \<in> set (successors g eid). below_claims g pos bc s" using R eid(3) by blast
  note B = below_clock_claims [OF st(1,3) eid(1) fw bc this assms(2)]
  have "D \<subseteq> {..<length (events g)}" "\<forall>i \<in> D. below_trans g bc D i" using R by blast+
  note T = below_clock_trans [OF st(1) growsD(9) [OF st(2)] eid(1,2) this(1) eid(3) bc this(2) assms(2)]
  show cs: "cv_clock_size bc1 = length (events_by_pid g)" using bc(2) by (simp add: assms(2) below_clock_size)
  have cl: "\<forall>i \<in> insert eid D. below_claims g pos bc1 i" using B(2,3) R by (metis insert_iff)
  then show "\<forall>i \<in> insert eid D. below_claims g pos bc1 i \<and> below_trans g bc1 (insert eid D) i" using T by blast
  show "reverse_ok pos (insert eid D) ids bc1 k"
    if gr: "grows g k" and outs: "\<forall>i < length (events g). i \<notin> set (readers (ev g eid)) \<longrightarrow> outs k ! i = outs g ! i"
  proof -
    note E = growsD(1,3) [OF gr]
    have succ: "successors k i = successors g i" if "i \<in> set ids" for i
    proof -
      have "i \<notin> D" using that R by auto
      then have "i \<notin> set (readers (ev g eid))" using eid(3) by (auto simp: successors_def Let_def)
      moreover have "i < length (events g)" using that R by auto
      ultimately show ?thesis using outs E by (simp add: successors_def po_successor_def)
    qed
    have "ordered_after k (insert eid D) ids" using ordered_after_cong [of ids k g] succ R by auto
    moreover have "\<forall>i \<in> insert eid D. below_claims k pos bc1 i \<and> below_trans k bc1 (insert eid D) i"
      using cl T by (simp add: below_claims_def below_trans_def E)
    moreover have "process_forward k pos" using st(3) by (simp add: process_forward_def E)
    ultimately show ?thesis
      using R B(1) cs eid(1,2) succ st(1) sg_static_grows [OF gr] grows_self [OF gr]
      by (simp add: reverse_ok_def E)
  qed
qed

lemma readers_less:
  "reverse_ok pos D (eid # ids) bc g \<Longrightarrow> \<forall>r \<in> set (filter P (readers (ev g eid))). r < length (events g)"
  using reads_okD(2) [OF sg_staticD(4)] by (fastforce simp: reverse_ok_def)

lemma reverse_loop_step:
  assumes "reverse_ok pos D (eid # ids) bc g" "top_vc = top_clock g"
  obtains k where "reverse_loop top_vc (eid # ids) bc g = reverse_loop top_vc ids (below_clock g top_vc eid bc) k"
    "reverse_ok pos (insert eid D) ids (below_clock g top_vc eid bc) k" "top_vc = top_clock k" "events k = events g"
    "edges_forward g pos \<and> reads_last (events g) pos \<longrightarrow> edges_forward k pos"
proof -
  let ?bc = "below_clock g top_vc eid bc" and ?rs = "filter (\<lambda>r. r \<ge> saturated_until g) (readers (ev g eid))"
  note R = assms(1) [unfolded reverse_ok_def]
  have st: "sg_static g" "grows g g" "eid < length (events g)" using R by auto
  note N = reverse_ok_next [OF assms(1) refl, folded assms(2)]
  have ps: "\<forall>p \<in> set [0..<cv_clock_size ?bc]. p < length (events_by_pid g)" using N(1) by simp
  note rd = readers_less [OF assms(1), of "\<lambda>r. r \<ge> saturated_until g"]
  show ?thesis
  proof (cases "is_store (ev g eid) \<and> ?rs \<noteq> []")
    case True
    obtain k where k: "reverse_pids eid (addr (ev g eid)) ?bc ?rs [0..<cv_clock_size ?bc] g = Some k"
      using reverse_pids_returns [OF st rd N(1) insertI1 N(2) ps] by blast
    have "added g k" by (rule reverse_pids_added [OF st(1,2) rd ps k])
    then have gr: "grows g k" by (simp add: added_def)
    have "\<forall>i < length (events g). i \<notin> set (readers (ev g eid)) \<longrightarrow> outs k ! i = outs g ! i"
      using reverse_pids_outs [OF st(1,2) rd ps k] by auto
    then have "reverse_ok pos (insert eid D) ids ?bc k" by (rule N(3) [OF gr])
    moreover have "edges_forward k pos" if "edges_forward g pos" "reads_last (events g) pos"
      using reverse_pids_forward [OF st(1,2) that st(3) N(1) insertI1 N(2) _ ps k] by auto
    ultimately show ?thesis
      using that [of k] True k growsD(1,3) [OF gr] assms(2) by (simp add: Let_def top_clock_def)
  next
    case False
    then show ?thesis using that [of g] N(3) [OF st(2)] assms(2) by (auto simp: Let_def)
  qed
qed

lemma reverse_loop_returns:
  assumes "reverse_ok pos D ids bc g" "top_vc = top_clock g"
  shows "\<exists>h. reverse_loop top_vc ids bc g = Some h \<and>
    (edges_forward g pos \<and> reads_last (events g) pos \<longrightarrow> edges_forward h pos)"
  using assms
proof (induction ids arbitrary: D bc g)
  case (Cons eid ids)
  obtain k where k: "reverse_loop top_vc (eid # ids) bc g = reverse_loop top_vc ids (below_clock g top_vc eid bc) k"
    "reverse_ok pos (insert eid D) ids (below_clock g top_vc eid bc) k" "top_vc = top_clock k" "events k = events g"
    "edges_forward g pos \<and> reads_last (events g) pos \<longrightarrow> edges_forward k pos"
    by (rule reverse_loop_step [OF Cons.prems])
  show ?case unfolding k(1) using Cons.IH [OF k(2,3)] k(4,5) by auto
qed simp

lemma saturated_until_sound:
  "sc_execution (g\<lparr>saturated_until := n\<rparr>) pos \<longleftrightarrow> sc_execution g pos"
  "clocks_sound (g\<lparr>saturated_until := n\<rparr>) pos \<longleftrightarrow> clocks_sound g pos"
  by (simp_all add: sc_execution_def edges_forward_def preds_def clocks_sound_def vc_claims_def)

lemma reverse_saturate_returns:
  assumes "sg_inv g" "edges_forward g pos"
  shows "\<exists>h. reverse_saturate g = Some h \<and> (reads_last (events g) pos \<longrightarrow> edges_forward h pos)"
proof -
  note G = sg_invD [OF assms(1)]
  have gr: "grows g g" by (rule grows_refl [OF G(2,3)])
  let ?ids = "snd (reverse_care_set g)" and ?bc = "cv_new (length (events_by_pid g)) (length (events g))"
  have sf: "succs_forward g pos" by (rule succs_forward_execution [OF G(1,2) assms(2)])
  have ids: "\<forall>i \<in> set ?ids. i < length (events g)" using reverse_care_less by blast
  have "set ?ids \<union> {} \<subseteq> {..<length (events g)}" using ids by auto
  moreover have "\<forall>i \<in> set ?ids. \<forall>s \<in> set (successors g i). s < length (events g) \<and> pos i < pos s"
    using ids sf unfolding succs_forward_def by blast
  moreover have "ordered_after g {} ?ids" "distinct ?ids"
    using reverse_care_post_order [OF sf] ordered_after_post_ordered [of g "[]" ?ids] by simp_all
  moreover have "cv_ok ?bc (length (events g))" "cv_clock_size ?bc = length (events_by_pid g)"
    by (simp_all add: cv_ok_def cv_new_def mult.commute)
  ultimately have "reverse_ok pos {} ?ids ?bc g"
    using G(1) gr process_forwardI [OF G(1) assms(2)] by (simp only: reverse_ok_def ball_empty Int_empty_left simp_thms)
  then obtain k where k: "reverse_loop (top_clock g) ?ids ?bc g = Some k" "reads_last (events g) pos \<longrightarrow> edges_forward k pos"
    using reverse_loop_returns [OF _ refl] assms(2) by blast
  have "list_all (po_successor_asserts g) ?ids" "top_asserts g"
    using reverse_asserts_hold [OF G(1)] ids by (auto simp: list_all_iff)
  moreover have "edges_forward (l\<lparr>saturated_until := n\<rparr>) pos = edges_forward l pos" for n and l :: "('a, 'b) sgraph"
    by (simp add: edges_forward_def preds_def)
  ultimately show ?thesis using k assms(2) by (auto simp: reverse_saturate_def Let_def)
qed

lemma reverse_saturate_sound:
  assumes "sg_inv g" "sc_execution g pos" "clocks_sound g pos"
  shows "\<exists>h. reverse_saturate g = Some h \<and> sc_execution h pos \<and> clocks_sound h pos"
proof -
  have fw: "edges_forward g pos" "reads_last (events g) pos" using assms(2) by (simp_all add: sc_execution_def)
  obtain h where h: "reverse_saturate g = Some h" "edges_forward h pos"
    using reverse_saturate_returns [OF assms(1) fw(1)] fw(2) by blast
  obtain k where "added g k" "h = k\<lparr>saturated_until := length (events k)\<rparr>"
    using reverse_saturate_added [OF assms(1) h(1)] .
  then have E: "events h = events g" "vclocks h = vclocks g" by (simp_all add: added_def grows_def)
  then show ?thesis using h fw(2) assms(3) by (simp add: sc_execution_def clocks_sound_def vc_claims_def)
qed

section \<open>The whole of saturation\<close>

lemma saturate_done:
  assumes "sg_inv g" "reverse_saturate g = Some k"
  shows "saturate g = saturate_loop k" "\<exists>b h. saturate g = Some (Done b h) \<and> check_graph_consistency h"
  using assms saturate_loop_terminates [OF reverse_saturate_inv [OF assms]] sg_inv_consistent [OF assms(1)]
  by (simp_all add: saturate_def)

lemma saturate_total:
  assumes "sg_inv g"
  shows "saturate g = Some Aborted \<or> (\<exists>b h. saturate g = Some (Done b h) \<and> check_graph_consistency h)"
proof (cases "reverse_saturate g")
  case (Some k)
  then show ?thesis using saturate_done(2) [OF assms Some] by blast
qed (simp add: saturate_def)

lemma saturate_accepts:
  assumes "sg_inv g" "saturate g = Some (Done True h)"
  obtains k where "reverse_saturate g = Some k" "saturate_loop k = Some (Done True h)" "sg_inv k" "sg_inv h" "wq_empty h"
proof -
  obtain k where k: "reverse_saturate g = Some k" "saturate_loop k = Some (Done True h)"
    using assms(2) by (auto simp: saturate_def split: option.splits if_splits)
  then show ?thesis
    using that saturate_loop_inv [OF reverse_saturate_inv [OF assms(1) k(1)] k(2)] reverse_saturate_inv [OF assms(1) k(1)] by blast
qed

lemma saturate_accepted:
  assumes "sg_inv g" "saturate g = Some (Done True h)"
  shows "sg_inv h" "wq_empty h"
  using saturate_accepts [OF assms] by blast+

lemma acyclic_positions:
  assumes "sg_inv g" "acyclic (sg_edge_rel g)"
  shows "\<exists>pos. edges_forward g pos"
proof
  let ?before = "\<lambda>i. {j. (j, i) \<in> (sg_edge_rel g)\<^sup>+}"
  have dom: "j < length (events g)" if "(j, i) \<in> (sg_edge_rel g)\<^sup>+" for i j
    using tranclD [OF that] preds_less [OF sg_invD(1,2) [OF assms(1)]] by (auto simp: sg_edge_rel_def)
  show "edges_forward g (\<lambda>i. card (?before i))"
    unfolding edges_forward_def
  proof (intro allI impI ballI psubset_card_mono)
    fix j i assume "j < length (events g)" "i \<in> preds g j"
    then have e: "(i, j) \<in> sg_edge_rel g" by (simp add: sg_edge_rel_def)
    show "finite (?before j)" by (rule finite_subset [of _ "{..<length (events g)}"]) (use dom in auto)
    have "i \<in> ?before j" "i \<notin> ?before i" using e assms(2) by (auto simp: acyclic_def)
    moreover have "?before i \<subseteq> ?before j" using e by auto
    ultimately show "?before i \<subset> ?before j" by blast
  qed
qed

lemma saturate_acyclic_returns:
  assumes "sg_inv g" "acyclic (sg_edge_rel g)"
  shows "\<exists>b h. saturate g = Some (Done b h)"
proof -
  obtain pos where "edges_forward g pos" using acyclic_positions [OF assms] by blast
  then obtain k where "reverse_saturate g = Some k" using reverse_saturate_returns [OF assms(1)] by blast
  then show ?thesis using saturate_done(2) [OF assms(1)] by blast
qed

lemma saturate_sound:
  assumes "sg_inv g" "sc_execution g pos" "clocks_sound g pos"
  shows "\<exists>h. saturate g = Some (Done True h) \<and> sc_execution h pos \<and> clocks_sound h pos"
proof -
  obtain k where k: "reverse_saturate g = Some k" "sc_execution k pos" "clocks_sound k pos"
    using reverse_saturate_sound [OF assms] by blast
  show ?thesis
    unfolding saturate_done(1) [OF assms(1) k(1)]
    using saturate_loop_sound [OF reverse_saturate_inv [OF assms(1) k(1)] k(2,3)] .
qed

end
