(* ===== verification/SatGraph_Events.thy ===== *)
theory SatGraph_Events
  imports SatGraph_Reverse
begin

text \<open>
  \<^verbatim>\<open>add_event\<close> and \<^verbatim>\<open>add_edge\<close>: they keep the invariant of the graph and the agreement of its
  indices (by external identifier, by address, the loads of the initial value), and the edges they
  derive go forward in every sequentially consistent execution of the events.
\<close>

section \<open>The indices\<close>

definition sg_index :: "('x, 'a) sgraph \<Rightarrow> bool" where
  "sg_index g \<longleftrightarrow>
     (\<forall>x i. extid_to_id g x = Some i \<longleftrightarrow> i < length (events g) \<and> ext_id (ev g i) = x) \<and>
     (\<forall>a p w. (p, w) \<in> set (writes_by_address g a) \<longrightarrow>
        w < length (events g) \<and> is_store (ev g w) \<and> addr (ev g w) = a \<and> ev_pid (ev g w) = p) \<and>
     (\<forall>a w. w < length (events g) \<and> is_store (ev g w) \<and> addr (ev g w) = a \<longrightarrow>
        ev_pid (ev g w) \<in> fst ` set (writes_by_address g a)) \<and>
     (\<forall>a r. r \<in> set (reads_from_init g a) \<longleftrightarrow>
        r < length (events g) \<and> is_load (ev g r) \<and> read_from (ev g r) = None \<and> addr (ev g r) = a)"

lemma sg_indexD:
  assumes "sg_index g"
  shows "extid_to_id g x = Some i \<longleftrightarrow> i < length (events g) \<and> ext_id (ev g i) = x"
    and "(p, w) \<in> set (writes_by_address g a) \<Longrightarrow>
      w < length (events g) \<and> is_store (ev g w) \<and> addr (ev g w) = a \<and> ev_pid (ev g w) = p"
    and "w < length (events g) \<Longrightarrow> is_store (ev g w) \<Longrightarrow> addr (ev g w) = a \<Longrightarrow>
      ev_pid (ev g w) \<in> fst ` set (writes_by_address g a)"
    and "r \<in> set (reads_from_init g a) \<longleftrightarrow>
      r < length (events g) \<and> is_load (ev g r) \<and> read_from (ev g r) = None \<and> addr (ev g r) = a"
  using assms unfolding sg_index_def by blast+

lemma sg_index_empty: "sg_index sg_empty"
  by (simp add: sg_index_def sg_empty_def)

text \<open>Fields other than edges and queue.\<close>

definition same_data :: "('x, 'a) sgraph \<Rightarrow> ('x, 'a) sgraph \<Rightarrow> bool" where
  "same_data g h \<longleftrightarrow>
     events h = events g \<and> vclocks h = vclocks g \<and> events_by_pid h = events_by_pid g \<and>
     writes_by_process_and_address h = writes_by_process_and_address g \<and>
     writes_by_address h = writes_by_address g \<and> reads_from_init h = reads_from_init g \<and>
     extid_to_id h = extid_to_id g \<and> saturated_until h = saturated_until g"

lemma same_data_index: "same_data g h \<Longrightarrow> sg_index h \<longleftrightarrow> sg_index g"
  by (simp add: same_data_def sg_index_def)

lemma add_init_reads_spec:
  assumes "h = add_init_reads eid ws g" "eid < length (outs g)" "length (ins g) = length (outs g)"
    and "\<forall>(p, w) \<in> set ws. w < length (outs g)" "queue_ok m (wq_queue g) (wq_set g)" "length (outs g) \<le> m"
  shows "same_data g h \<and> length (outs h) = length (outs g) \<and> length (ins h) = length (ins g) \<and>
    queue_ok m (wq_queue h) (wq_set h) \<and> set (wq_queue h) = snd ` set ws \<union> set (wq_queue g) \<and>
    (\<forall>i < length (outs g). set (outs h ! i) = set (outs g ! i) \<union> (if i = eid then snd ` set ws else {})) \<and>
    (\<forall>j < length (outs g). set (ins h ! j) = set (ins g ! j) \<union> (if j \<in> snd ` set ws then {eid} else {}) \<and>
       (j \<notin> snd ` set ws \<longrightarrow> ins h ! j = ins g ! j))"
  using assms
proof (induction ws arbitrary: g)
  case Nil
  then show ?case by (simp add: same_data_def)
next
  case (Cons x ws)
  obtain p w where x: "x = (p, w)" by fastforce
  let ?g = "g\<lparr>outs := push_at eid w (outs g), ins := push_at w eid (ins g)\<rparr>"
  have w: "w < length (outs g)" using Cons.prems(4) x by auto
  note S = wq_add_same(1) [of ?g w, unfolded same_graph_def]
  have q: "queue_ok m (wq_queue ?g) (wq_set ?g)" using Cons.prems(5) by simp
  note Q = wq_add_queue_ok(1) [OF q, of w] set_wq_add(1) [OF q, of w]
  have "h = add_init_reads eid ws (wq_add w ?g)" using Cons.prems(1) x by simp
  note IH = Cons.IH [OF this]
  show ?case
    using IH S Q w Cons.prems(2-6) by (auto simp: x nth_push_at same_data_def)
qed

lemma add_init_readers_spec:
  assumes "h = add_init_readers eid rs g" "eid < length (ins g)" "length (ins g) = length (outs g)"
    and "\<forall>r \<in> set rs. r < length (outs g)"
  shows "same_data g h \<and> length (outs h) = length (outs g) \<and> length (ins h) = length (ins g) \<and>
    wq_queue h = wq_queue g \<and> wq_set h = wq_set g \<and>
    (\<forall>i < length (outs g). set (outs h ! i) = set (outs g ! i) \<union> (if i \<in> set rs then {eid} else {})) \<and>
    (\<forall>j < length (outs g). ins h ! j = ins g ! j @ (if j = eid then rs else []))"
  using assms
proof (induction rs arbitrary: g)
  case (Cons r rs)
  let ?g = "g\<lparr>ins := push_at eid r (ins g), outs := push_at r eid (outs g)\<rparr>"
  have "h = add_init_readers eid rs ?g" using Cons.prems(1) by simp
  from Cons.IH [OF this] show ?case
    using Cons.prems(2-4) by (auto simp: nth_push_at same_data_def)
qed (simp add: same_data_def)

lemma add_outs_spec:
  assumes "h = add_outs eid is g" "\<forall>i \<in> set is. i < length (outs g)"
  shows "same_data g h \<and> length (outs h) = length (outs g) \<and> ins h = ins g \<and>
    wq_queue h = wq_queue g \<and> wq_set h = wq_set g \<and>
    (\<forall>i < length (outs g). set (outs h ! i) = set (outs g ! i) \<union> (if i \<in> set is then {eid} else {}))"
  using assms
proof (induction "is" arbitrary: g)
  case (Cons i "is")
  have "h = add_outs eid is (g\<lparr>outs := push_at i eid (outs g)\<rparr>)" using Cons.prems(1) by simp
  from Cons.IH [OF this] show ?case
    using Cons.prems(2) by (auto simp: nth_push_at same_data_def)
qed (simp add: same_data_def)

section \<open>The graph after an event was added\<close>

text \<open>
  The arguments \<^verbatim>\<open>add_event\<close> is called with: the identifier is new, a read-from event is a store to
  the same address, and only a load has one; the traversal of a map visits exactly its entries.
\<close>

definition event_args_ok ::
  "((nat \<times> nat) list \<Rightarrow> (nat \<times> nat) list) \<Rightarrow> 'x \<Rightarrow> event_kind \<Rightarrow> 'a \<Rightarrow> 'x option \<Rightarrow> ('x, 'a) sgraph \<Rightarrow> bool" where
  "event_args_ok trav x kind a rf g \<longleftrightarrow>
     extid_to_id g x = None \<and> (\<forall>ws. set (trav ws) = set ws) \<and>
     (case rf of None \<Rightarrow> True
      | Some y \<Rightarrow> (kind = LOAD \<or> kind = RMW) \<and> y \<noteq> x \<and>
          (case extid_to_id g y of None \<Rightarrow> True | Some w \<Rightarrow> is_store (ev g w) \<and> addr (ev g w) = a))"

text \<open>The old events after a reader was recorded.\<close>

definition read_by :: "nat option \<Rightarrow> nat \<Rightarrow> ('x, 'a) event list \<Rightarrow> ('x, 'a) event list" where
  "read_by rf eid E = (case rf of None \<Rightarrow> E | Some w \<Rightarrow> E[w := (E ! w)\<lparr>readers := readers (E ! w) @ [eid]\<rparr>])"

lemma nth_read_by:
  "i < length E \<Longrightarrow> read_by rf eid E ! i =
     (if rf = Some i then (E ! i)\<lparr>readers := readers (E ! i) @ [eid]\<rparr> else E ! i)"
  by (cases rf) (auto simp: read_by_def)

lemma read_by_simps [simp]:
  "length (read_by rf eid E) = length E"
  "i < length E \<Longrightarrow> ev_pid (read_by rf eid E ! i) = ev_pid (E ! i)"
  "i < length E \<Longrightarrow> ev_index (read_by rf eid E ! i) = ev_index (E ! i)"
  "i < length E \<Longrightarrow> ext_id (read_by rf eid E ! i) = ext_id (E ! i)"
  "i < length E \<Longrightarrow> is_load (read_by rf eid E ! i) = is_load (E ! i)"
  "i < length E \<Longrightarrow> is_store (read_by rf eid E ! i) = is_store (E ! i)"
  "i < length E \<Longrightarrow> addr (read_by rf eid E ! i) = addr (E ! i)"
  "i < length E \<Longrightarrow> read_from (read_by rf eid E ! i) = read_from (E ! i)"
  "i < length E \<Longrightarrow> po_predecessor (read_by rf eid E ! i) = po_predecessor (E ! i)"
  by (simp add: read_by_def split: option.split) (simp_all add: nth_read_by)

lemma readers_read_by:
  "i < length E \<Longrightarrow> set (readers (read_by rf eid E ! i)) = set (readers (E ! i)) \<union> (if rf = Some i then {eid} else {})"
  by (simp add: nth_read_by)

lemma length_enlarge [simp]: "length (enlarge d xs n) = max (length xs) n"
  by (simp add: enlarge_def max_def)

lemma nth_enlarge: "i < max (length xs) n \<Longrightarrow> enlarge d xs n ! i = nth_or d xs i"
  by (auto simp: enlarge_def nth_resize)

text \<open>What the new graph is, field by field.\<close>

abbreviation loads :: "event_kind \<Rightarrow> bool" where
  "loads kind \<equiv> kind = LOAD \<or> kind = RMW"

abbreviation stores :: "event_kind \<Rightarrow> bool" where
  "stores kind \<equiv> kind = STORE \<or> kind = RMW"

abbreviation process_events :: "('x, 'a) sgraph \<Rightarrow> nat \<Rightarrow> nat list" where
  "process_events g pid \<equiv> nth_or [] (events_by_pid g) pid"

abbreviation process_writes :: "('x, 'a) sgraph \<Rightarrow> nat \<Rightarrow> 'a \<Rightarrow> nat list" where
  "process_writes g pid \<equiv> nth_or (\<lambda>_. []) (writes_by_process_and_address g) pid"

definition last_event :: "('x, 'a) sgraph \<Rightarrow> nat \<Rightarrow> nat option" where
  "last_event g pid = (if process_events g pid = [] then None else Some (last (process_events g pid)))"

definition new_event :: "nat \<Rightarrow> 'x \<Rightarrow> event_kind \<Rightarrow> 'a \<Rightarrow> nat option \<Rightarrow> ('x, 'a) sgraph \<Rightarrow> ('x, 'a) event" where
  "new_event pid x kind a rf g =
     \<lparr>ev_pid = pid, ev_index = (case last_event g pid of None \<Rightarrow> 1 | Some q \<Rightarrow> ev_index (ev g q) + 1), ext_id = x,
      is_load = loads kind, is_store = stores kind, addr = a, read_from = rf, readers = [],
      po_predecessor = last_event g pid\<rparr>"

text \<open>The targets of the from-read edges of a load of the initial value, and the sources of those into a first write.\<close>

definition init_targets :: "event_kind \<Rightarrow> 'a \<Rightarrow> nat option \<Rightarrow> ('x, 'a) sgraph \<Rightarrow> nat set" where
  "init_targets kind a rf g = (if rf = None \<and> loads kind then snd ` set (writes_by_address g a) else {})"

definition first_write :: "nat \<Rightarrow> event_kind \<Rightarrow> 'a \<Rightarrow> ('x, 'a) sgraph \<Rightarrow> bool" where
  "first_write pid kind a g \<longleftrightarrow> stores kind \<and> pid \<notin> fst ` set (writes_by_address g a)"

definition event_added ::
  "nat \<Rightarrow> 'x \<Rightarrow> event_kind \<Rightarrow> 'a \<Rightarrow> nat option \<Rightarrow> nat list \<Rightarrow> ('x, 'a) sgraph \<Rightarrow> ('x, 'a) sgraph \<Rightarrow> bool" where
  "event_added pid x kind a rf before g h \<longleftrightarrow>
     events h = read_by rf (length (events g)) (events g) @ [new_event pid x kind a rf g] \<and>
     events_by_pid h = (enlarge [] (events_by_pid g) (pid + 1))[pid := process_events g pid @ [length (events g)]] \<and>
     writes_by_process_and_address h =
       (enlarge (\<lambda>_. []) (writes_by_process_and_address g) (pid + 1))
         [pid := if stores kind then (process_writes g pid)(a := process_writes g pid a @ [length (events g)])
                 else process_writes g pid] \<and>
     extid_to_id h = (extid_to_id g)(x := Some (length (events g))) \<and>
     writes_by_address h =
       (if first_write pid kind a g
        then (writes_by_address g)(a := writes_by_address g a @ [(pid, length (events g))])
        else writes_by_address g) \<and>
     reads_from_init h =
       (if rf = None \<and> loads kind then (reads_from_init g)(a := reads_from_init g a @ [length (events g)])
        else reads_from_init g) \<and>
     vclocks h = vclocks g @ [[]] \<and>
     length (ins h) = Suc (length (events g)) \<and> length (outs h) = Suc (length (events g)) \<and>
     set (ins h ! length (events g)) =
       set before \<union> (if first_write pid kind a g then set (reads_from_init g a) else {}) \<and>
     (\<forall>j < length (events g).
        set (ins h ! j) = set (ins g ! j) \<union> (if j \<in> init_targets kind a rf g then {length (events g)} else {}) \<and>
        (j \<notin> init_targets kind a rf g \<longrightarrow> ins h ! j = ins g ! j)) \<and>
     (\<forall>i < length (events g).
        set (outs h ! i) = set (outs g ! i) \<union>
          (if last_event g pid = Some i \<or> i \<in> set (ins h ! length (events g)) then {length (events g)} else {})) \<and>
     set (outs h ! length (events g)) = init_targets kind a rf g \<union>
       (if length (events g) \<in> set (ins h ! length (events g)) then {length (events g)} else {}) \<and>
     queue_ok (Suc (length (events g))) (wq_queue h) (wq_set h) \<and>
     set (wq_queue h) = insert (length (events g)) (init_targets kind a rf g \<union> set (wq_queue g))"

lemma event_addedD:
  assumes "event_added pid x kind a rf before g h"
  shows "events h = read_by rf (length (events g)) (events g) @ [new_event pid x kind a rf g]"
    and "events_by_pid h = (enlarge [] (events_by_pid g) (pid + 1))[pid := process_events g pid @ [length (events g)]]"
    and "writes_by_process_and_address h =
       (enlarge (\<lambda>_. []) (writes_by_process_and_address g) (pid + 1))
         [pid := if stores kind then (process_writes g pid)(a := process_writes g pid a @ [length (events g)])
                 else process_writes g pid]"
    and "extid_to_id h = (extid_to_id g)(x := Some (length (events g)))"
    and "writes_by_address h =
       (if first_write pid kind a g
        then (writes_by_address g)(a := writes_by_address g a @ [(pid, length (events g))])
        else writes_by_address g)"
    and "reads_from_init h =
       (if rf = None \<and> loads kind then (reads_from_init g)(a := reads_from_init g a @ [length (events g)])
        else reads_from_init g)"
    and "vclocks h = vclocks g @ [[]]"
    and "length (ins h) = Suc (length (events g))" "length (outs h) = Suc (length (events g))"
    and "set (ins h ! length (events g)) =
       set before \<union> (if first_write pid kind a g then set (reads_from_init g a) else {})"
    and "j < length (events g) \<Longrightarrow>
        set (ins h ! j) = set (ins g ! j) \<union> (if j \<in> init_targets kind a rf g then {length (events g)} else {})"
    and "j < length (events g) \<Longrightarrow> j \<notin> init_targets kind a rf g \<Longrightarrow> ins h ! j = ins g ! j"
    and "i < length (events g) \<Longrightarrow>
        set (outs h ! i) = set (outs g ! i) \<union>
          (if last_event g pid = Some i \<or> i \<in> set (ins h ! length (events g)) then {length (events g)} else {})"
    and "set (outs h ! length (events g)) = init_targets kind a rf g \<union>
       (if length (events g) \<in> set (ins h ! length (events g)) then {length (events g)} else {})"
    and "queue_ok (Suc (length (events g))) (wq_queue h) (wq_set h)"
    and "set (wq_queue h) = insert (length (events g)) (init_targets kind a rf g \<union> set (wq_queue g))"
  using assms unfolding event_added_def by blast+

lemma event_program_order_spec:
  assumes "event_program_order pid eid g = (po, index, h)"
  shows "po = (if nth_or [] (events_by_pid g) pid = [] then None else Some (last (nth_or [] (events_by_pid g) pid)))"
    "index = (case po of None \<Rightarrow> 1 | Some q \<Rightarrow> ev_index (ev g q) + 1)"
    "h = g\<lparr>events_by_pid := (enlarge [] (events_by_pid g) (pid + 1))[pid := nth_or [] (events_by_pid g) pid @ [eid]],
          writes_by_process_and_address := enlarge (\<lambda>_. []) (writes_by_process_and_address g) (pid + 1),
          outs := (case po of None \<Rightarrow> outs g | Some q \<Rightarrow> push_at q eid (outs g))\<rparr>"
proof -
  have n: "enlarge [] (events_by_pid g) (pid + 1) ! pid = nth_or [] (events_by_pid g) pid"
    by (rule nth_enlarge) simp
  note D = assms [unfolded event_program_order_def Let_def, simplified]
  show po: "po = (if nth_or [] (events_by_pid g) pid = [] then None else Some (last (nth_or [] (events_by_pid g) pid)))"
    using D n by (auto split: if_splits)
  show "index = (case po of None \<Rightarrow> 1 | Some q \<Rightarrow> ev_index (ev g q) + 1)"
    using D n po by (auto split: if_splits)
  show "h = g\<lparr>events_by_pid := (enlarge [] (events_by_pid g) (pid + 1))[pid := nth_or [] (events_by_pid g) pid @ [eid]],
          writes_by_process_and_address := enlarge (\<lambda>_. []) (writes_by_process_and_address g) (pid + 1),
          outs := (case po of None \<Rightarrow> outs g | Some q \<Rightarrow> push_at q eid (outs g))\<rparr>"
    using D n po by (auto simp: push_at_def split: if_splits)
qed

lemma event_reads_spec:
  assumes "h = event_reads trav eid load a rf g" "eid < length (outs g)" "length (ins g) = length (outs g)"
    and "\<forall>(p, w) \<in> set (writes_by_address g a). w < length (outs g)" "queue_ok m (wq_queue g) (wq_set g)"
    and "length (outs g) \<le> m" "set (trav (writes_by_address g a)) = set (writes_by_address g a)"
    and "frs = (if rf = None \<and> load then snd ` set (writes_by_address g a) else {})"
  shows "same_data (g\<lparr>events := read_by rf eid (events g)\<rparr>) h \<and>
    length (outs h) = length (outs g) \<and> length (ins h) = length (ins g) \<and>
    queue_ok m (wq_queue h) (wq_set h) \<and> set (wq_queue h) = frs \<union> set (wq_queue g) \<and>
    (\<forall>i < length (outs g). set (outs h ! i) = set (outs g ! i) \<union> (if i = eid then frs else {})) \<and>
    (\<forall>j < length (outs g). set (ins h ! j) = set (ins g ! j) \<union> (if j \<in> frs then {eid} else {}) \<and>
       (j \<notin> frs \<longrightarrow> ins h ! j = ins g ! j))"
proof (cases "rf = None \<and> load")
  case True
  have "h = add_init_reads eid (trav (writes_by_address g a)) g" using assms(1) True by (simp add: event_reads_def)
  from add_init_reads_spec [OF this assms(2,3) _ assms(5,6)] show ?thesis
    using assms(4,7,8) True by (simp add: read_by_def)
next
  case False
  then have "h = g\<lparr>events := read_by rf eid (events g)\<rparr>"
    using assms(1) by (auto simp: event_reads_def read_by_def split: option.splits)
  moreover have "frs = {}" using False assms(8) by auto
  ultimately show ?thesis using assms(5) by (simp add: same_data_def)
qed

lemma event_writes_spec:
  assumes "h = event_writes pid eid store a g" "eid < length (ins g)" "length (ins g) = length (outs g)"
    and "\<forall>r \<in> set (reads_from_init g a). r < length (outs g)"
    and "pid < length (writes_by_process_and_address g)" "wpa = writes_by_process_and_address g ! pid"
    and "first = (pid \<notin> fst ` set (writes_by_address g a))"
    and "rs = (if store \<and> first then reads_from_init g a else [])"
  shows "same_data (g\<lparr>writes_by_process_and_address := (writes_by_process_and_address g)
        [pid := if store then wpa(a := wpa a @ [eid]) else wpa],
      writes_by_address := (if store \<and> first then (writes_by_address g)(a := writes_by_address g a @ [(pid, eid)])
           else writes_by_address g)\<rparr>) h \<and>
    length (outs h) = length (outs g) \<and> length (ins h) = length (ins g) \<and>
    wq_queue h = wq_queue g \<and> wq_set h = wq_set g \<and>
    (\<forall>i < length (outs g). set (outs h ! i) = set (outs g ! i) \<union> (if i \<in> set rs then {eid} else {})) \<and>
    (\<forall>j < length (outs g). ins h ! j = ins g ! j @ (if j = eid then rs else []))"
proof (cases "store \<and> first")
  case True
  let ?k = "add_init_readers eid (reads_from_init g a) g"
  note A = add_init_readers_spec [OF refl assms(2-4)]
  have "h = ?k\<lparr>writes_by_address := (writes_by_address ?k)(a := writes_by_address ?k a @ [(pid, eid)]),
      writes_by_process_and_address := (writes_by_process_and_address ?k)
        [pid := (writes_by_process_and_address ?k ! pid)(a := (writes_by_process_and_address ?k ! pid) a @ [eid])]\<rparr>"
    using assms(1,7) True by (simp add: event_writes_def Let_def)
  then show ?thesis using A True assms(6,8) by (simp add: same_data_def)
next
  case False
  then have "rs = []" using assms(8) by auto
  then show ?thesis using False assms(1,5-7) by (auto simp: event_writes_def Let_def same_data_def)
qed

lemma lookup_all_eq: "lookup_all m xs = Some is \<longleftrightarrow> map m xs = map Some is"
  by (induction xs arbitrary: "is") (auto split: option.splits)

lemma last_of_process:
  assumes "sg_static g" "nth_or [] (events_by_pid g) pid \<noteq> []"
  shows "last (nth_or [] (events_by_pid g) pid) < length (events g)"
    "ev_index (ev g (last (nth_or [] (events_by_pid g) pid))) = length (nth_or [] (events_by_pid g) pid)"
proof -
  have p: "pid < length (events_by_pid g)" using assms(2) by (metis nth_or_outside not_less)
  note P = process_okD [OF sg_staticD(3) [OF assms(1) p]]
  have l: "length (events_by_pid g ! pid) - 1 < length (events_by_pid g ! pid)" using assms(2) p by simp
  show "last (nth_or [] (events_by_pid g) pid) < length (events g)"
    "ev_index (ev g (last (nth_or [] (events_by_pid g) pid))) = length (nth_or [] (events_by_pid g) pid)"
    using P(2,4) [OF l] assms(2) p by (simp_all add: last_conv_nth)
qed

lemma add_event_spec:
  assumes "sg_inv g" "sg_index g" "event_args_ok trav x kind a rfx g"
    and "add_event trav pid x kind a rfx orig_in g = Some h"
  obtains rf before where
    "case rfx of None \<Rightarrow> rf = None | Some y \<Rightarrow> \<exists>w < length (events g). extid_to_id g y = Some w \<and> rf = Some w"
    "map ((extid_to_id g)(x \<mapsto> length (events g))) orig_in = map Some before"
    "event_added pid x kind a rf before g h"
proof -
  let ?n = "length (events g)" and ?load = "kind = LOAD \<or> kind = RMW" and ?store = "kind = STORE \<or> kind = RMW"
  let ?g1 = "g\<lparr>extid_to_id := (extid_to_id g)(x \<mapsto> ?n)\<rparr>"
  note G = sg_invD [OF assms(1)] and X = sg_indexD [OF assms(2)]
  obtain po index g2 where po: "event_program_order pid ?n ?g1 = (po, index, g2)" by (metis prod_cases3)
  note P = event_program_order_spec [OF po, simplified]
  have ext2: "extid_to_id g2 = (extid_to_id g)(x \<mapsto> ?n)" by (simp add: P(3))
  obtain rf before where
    rf: "(case rfx of None \<Rightarrow> Some None | Some y \<Rightarrow> map_option Some (extid_to_id g2 y)) = Some rf"
    and bf: "lookup_all (extid_to_id g2) orig_in = Some before"
    using assms(4) po by (auto simp: add_event_def Let_def split: option.splits)
  define g3 where "g3 = g2\<lparr>outs := outs g2 @ [[]], ins := ins g2 @ [before]\<rparr>"
  define g4 where "g4 = event_reads trav ?n ?load a rf g3"
  define g5 where "g5 = event_writes pid ?n ?store a g4"
  define g6 where "g6 = add_outs ?n (ins g5 ! ?n) g5"
  define e where "e = \<lparr>ev_pid = pid, ev_index = index, ext_id = x, is_load = ?load, is_store = ?store,
               addr = a, read_from = rf, readers = [], po_predecessor = po\<rparr>"
  define g7 where "g7 = g6\<lparr>events := events g6 @ [e]\<rparr>"
  define g8 where "g8 = (if rf = None \<and> ?load
      then g7\<lparr>reads_from_init := (reads_from_init g7)(a := reads_from_init g7 a @ [?n])\<rparr> else g7)"
  define g9 where "g9 = g8\<lparr>vclocks := vclocks g8 @ [[]]\<rparr>"
  have "add_event trav pid x kind a rfx orig_in g = Some (wq_add ?n g9)"
    unfolding add_event_def Let_def po prod.case rf bf option.case g9_def g8_def g7_def e_def g6_def g5_def g4_def g3_def
    using edges_okD(1,2) [OF G(2)] clocks_okD(1) [OF G(4)] by simp
  then have h: "h = wq_add ?n g9" using assms(4) by (simp only: option.inject)
  define frs where "frs = (if rf = None \<and> ?load then snd ` set (writes_by_address g a) else {})"
  define rs where "rs = (if ?store \<and> pid \<notin> fst ` set (writes_by_address g a) then reads_from_init g a else [])"
  note L = edges_okD(1,2) [OF G(2)]
  have l3: "?n < length (outs g3)" "length (ins g3) = length (outs g3)" "length (outs g3) \<le> Suc ?n"
    "length (outs g3) = Suc ?n" using L by (auto simp: g3_def P(3) split: option.split)
  have q3: "queue_ok (Suc ?n) (wq_queue g3) (wq_set g3)" "wq_queue g3 = wq_queue g"
    using G(3) by (auto simp: g3_def P(3) queue_ok_def)
  have w3: "writes_by_address g3 = writes_by_address g" "reads_from_init g3 = reads_from_init g" "events g3 = events g"
    by (simp_all add: g3_def P(3))
  have tr: "set (trav ws) = set ws" for ws using assms(3) by (simp add: event_args_ok_def)
  have "\<forall>(p, w) \<in> set (writes_by_address g3 a). w < length (outs g3)" using X(2) w3 l3 by fastforce
  note R = event_reads_spec [OF g4_def l3(1,2) this q3(1) l3(3) tr frs_def [folded w3(1)], unfolded l3(2,4)]
  then have d4: "same_data (g3\<lparr>events := read_by rf ?n (events g)\<rparr>) g4" using w3 by simp
  note D4 = d4 [unfolded same_data_def, simplified]
  have wp4: "writes_by_process_and_address g4 = enlarge (\<lambda>_. []) (writes_by_process_and_address g) (pid + 1)"
    "writes_by_process_and_address g4 ! pid = nth_or (\<lambda>_. []) (writes_by_process_and_address g) pid"
    using D4 by (simp_all add: g3_def P(3) nth_enlarge)
  have w4: "reads_from_init g4 = reads_from_init g" "writes_by_address g4 = writes_by_address g"
    using D4 w3 by simp_all
  have l4: "?n < length (ins g4)" "length (ins g4) = length (outs g4)" "length (outs g4) = Suc ?n"
    "pid < length (writes_by_process_and_address g4)" using R l3(2,4) by (simp_all add: wp4)
  have "\<forall>r \<in> set (reads_from_init g4 a). r < length (outs g4)" using X(4) w4(1) l4(3) by auto
  note W = event_writes_spec [OF g5_def l4(1,2) this l4(4) refl refl refl, unfolded w4 wp4(2) l4(2,3), folded rs_def,
      unfolded wp4(1)]
  have frs_less: "w < ?n" if "w \<in> frs" for w using that X(2) by (auto simp: frs_def split: if_splits)
  then have nf: "?n \<notin> frs" by blast
  have ins5: "ins g5 ! ?n = before @ rs"
    using W R nf L by (simp add: g3_def P(3) nth_append)
  have bf': "map ((extid_to_id g)(x \<mapsto> ?n)) orig_in = map Some before" using bf by (simp add: lookup_all_eq ext2)
  have before_less: "i < Suc ?n" if "i \<in> set before" for i
  proof -
    have "Some i \<in> set (map ((extid_to_id g)(x \<mapsto> ?n)) orig_in)" using that bf' by simp
    then obtain y where "((extid_to_id g)(x \<mapsto> ?n)) y = Some i" unfolding set_map by (metis imageE)
    then show ?thesis using X(1) [of y i] by (auto split: if_splits)
  qed
  have rs_less: "i < ?n" if "i \<in> set rs" for i using that X(4) by (auto simp: rs_def split: if_splits)
  have l5: "length (outs g5) = Suc ?n" "length (ins g5) = Suc ?n" using W by blast+
  have "\<forall>i \<in> set (ins g5 ! ?n). i < length (outs g5)"
    unfolding ins5 l5 set_append by (meson Un_iff before_less rs_less less_SucI)
  note O = add_outs_spec [OF g6_def this]
  have S: "same_graph g9 h" "queue_ok (Suc ?n) (wq_queue h) (wq_set h)" "set (wq_queue h) = insert ?n (frs \<union> set (wq_queue g))"
  proof -
    have q9: "wq_queue g9 = wq_queue g4" "wq_set g9 = wq_set g4"
      using W O by (simp_all add: g9_def g8_def g7_def)
    then have "queue_ok (Suc ?n) (wq_queue g9) (wq_set g9)" "set (wq_queue g9) = frs \<union> set (wq_queue g)"
      using R q3(2) by simp_all
    then show "queue_ok (Suc ?n) (wq_queue h) (wq_set h)" "set (wq_queue h) = insert ?n (frs \<union> set (wq_queue g))"
      using wq_add_queue_ok(1) [of "Suc ?n" g9 ?n] set_wq_add(1) [of "Suc ?n" g9 ?n] by (simp_all add: h)
    show "same_graph g9 h" by (simp add: h)
  qed
  have oi: "ins h = ins g5" "outs h = outs g6" using S(1) O by (simp_all add: same_graph_def g9_def g8_def g7_def)
  have data: "events h = read_by rf ?n (events g) @ [e]"
    "events_by_pid h = (enlarge [] (events_by_pid g) (pid + 1))[pid := nth_or [] (events_by_pid g) pid @ [?n]]"
    "extid_to_id h = (extid_to_id g)(x := Some ?n)" "vclocks h = vclocks g @ [[]]"
    using S(1) O [THEN conjunct1] W [THEN conjunct1] D4
    by (simp_all add: same_graph_def same_data_def g9_def g8_def g7_def g3_def P(3))
  have maps: "writes_by_process_and_address h =
      (enlarge (\<lambda>_. []) (writes_by_process_and_address g) (pid + 1))
        [pid := if ?store then (nth_or (\<lambda>_. []) (writes_by_process_and_address g) pid)
            (a := nth_or (\<lambda>_. []) (writes_by_process_and_address g) pid a @ [?n])
          else nth_or (\<lambda>_. []) (writes_by_process_and_address g) pid]"
    "writes_by_address h = (if ?store \<and> pid \<notin> fst ` set (writes_by_address g a)
       then (writes_by_address g)(a := writes_by_address g a @ [(pid, ?n)]) else writes_by_address g)"
    "reads_from_init h = (if rf = None \<and> ?load then (reads_from_init g)(a := reads_from_init g a @ [?n])
       else reads_from_init g)"
    using S(1) O [THEN conjunct1] W [THEN conjunct1] w4
    by (simp_all add: same_graph_def same_data_def g9_def g8_def g7_def)
  have oi_old: "outs g3 ! i = outs g2 ! i" "ins g3 ! i = ins g ! i" if "i < ?n" for i
    using that L by (auto simp: g3_def P(3) nth_append split: option.split)
  have out_h: "set (outs h ! i) = set (outs g3 ! i) \<union> (if i = ?n then frs else {}) \<union>
      (if i \<in> set (ins h ! ?n) then {?n} else {})" if "i < Suc ?n" for i
  proof -
    have "set (outs g4 ! i) = set (outs g3 ! i) \<union> (if i = ?n then frs else {})"
      "set (outs g5 ! i) = set (outs g4 ! i) \<union> (if i \<in> set rs then {?n} else {})"
      "set (outs g6 ! i) = set (outs g5 ! i) \<union> (if i \<in> set (ins g5 ! ?n) then {?n} else {})"
      using R [THEN conjunct2, THEN conjunct2, THEN conjunct2, THEN conjunct2, THEN conjunct2, THEN conjunct1]
        W [THEN conjunct2, THEN conjunct2, THEN conjunct2, THEN conjunct2, THEN conjunct2, THEN conjunct1]
        O [THEN conjunct2, THEN conjunct2, THEN conjunct2, THEN conjunct2, THEN conjunct2] that l5(1) by simp_all
    then show ?thesis by (auto simp: oi ins5)
  qed
  have in_h: "set (ins h ! j) = set (ins g ! j) \<union> (if j \<in> frs then {?n} else {}) \<and>
      (j \<notin> frs \<longrightarrow> ins h ! j = ins g ! j)" if "j < ?n" for j
  proof -
    have "ins g5 ! j = ins g4 ! j" using W that by auto
    moreover have "set (ins g4 ! j) = set (ins g3 ! j) \<union> (if j \<in> frs then {?n} else {})"
      "j \<notin> frs \<Longrightarrow> ins g4 ! j = ins g3 ! j" using R that less_SucI by blast+
    ultimately show ?thesis using oi_old(2) [OF that] by (simp add: oi)
  qed
  have "set (outs g3 ! i) = set (outs g ! i) \<union> (if po = Some i then {?n} else {})" if "i < ?n" for i
    using that oi_old(1) L(2) by (auto simp: P(3) nth_push_at split: option.split)
  then have outs: "\<forall>i < ?n. set (outs h ! i) = set (outs g ! i) \<union> (if po = Some i \<or> i \<in> set (ins h ! ?n) then {?n} else {})"
    using out_h by auto
  have "outs g3 ! ?n = []" using L(2) l3(4) by (simp add: g3_def nth_append)
  then have out_n: "set (outs h ! ?n) = frs \<union> (if ?n \<in> set (ins h ! ?n) then {?n} else {})" using out_h [of ?n] by simp
  have lens: "length (ins h) = Suc ?n" "length (outs h) = Suc ?n" using O l5 by (simp_all add: oi)
  have "event_added pid x kind a rf before g h"
    unfolding event_added_def
    using S(2,3) data maps outs out_n in_h lens ins5
    by (simp add: e_def P(1,2) oi(1) frs_def rs_def new_event_def last_event_def init_targets_def first_write_def)
  moreover have "case rfx of None \<Rightarrow> rf = None | Some y \<Rightarrow> \<exists>w < length (events g). extid_to_id g y = Some w \<and> rf = Some w"
    using rf assms(3) X(1) ext2 by (auto simp: event_args_ok_def split: option.splits if_splits)
  ultimately show ?thesis using that bf' by blast
qed

section \<open>Adding an event keeps the invariant\<close>

definition reads_store :: "event_kind \<Rightarrow> 'a \<Rightarrow> nat option \<Rightarrow> ('x, 'a) sgraph \<Rightarrow> bool" where
  "reads_store kind a rf g \<longleftrightarrow>
     (\<forall>w. rf = Some w \<longrightarrow> w < length (events g) \<and> is_store (ev g w) \<and> addr (ev g w) = a \<and> loads kind)"

lemma event_added_events:
  assumes "event_added pid x kind a rf before g h"
  shows "length (events h) = Suc (length (events g))"
    "i < length (events g) \<Longrightarrow> ev h i = read_by rf (length (events g)) (events g) ! i"
    "ev h (length (events g)) = new_event pid x kind a rf g"
  by (simp_all add: event_addedD(1) [OF assms] nth_append)

lemma event_added_process:
  assumes "event_added pid x kind a rf before g h" "length (writes_by_process_and_address g) = length (events_by_pid g)"
  shows "length (events_by_pid h) = max (length (events_by_pid g)) (Suc pid)"
    "length (writes_by_process_and_address h) = length (events_by_pid h)"
    "p < length (events_by_pid h) \<Longrightarrow>
      events_by_pid h ! p = process_events g p @ (if p = pid then [length (events g)] else [])"
    "p < length (events_by_pid h) \<Longrightarrow> (writes_by_process_and_address h ! p) b =
      process_writes g p b @ (if p = pid \<and> stores kind \<and> b = a then [length (events g)] else [])"
proof -
  note D = event_addedD(2,3) [OF assms(1)]
  show l: "length (events_by_pid h) = max (length (events_by_pid g)) (Suc pid)"
    "length (writes_by_process_and_address h) = length (events_by_pid h)"
    by (simp_all add: D assms(2))
  show "p < length (events_by_pid h) \<Longrightarrow>
      events_by_pid h ! p = process_events g p @ (if p = pid then [length (events g)] else [])"
    using l by (simp add: D nth_list_update nth_enlarge)
  show "p < length (events_by_pid h) \<Longrightarrow> (writes_by_process_and_address h ! p) b =
      process_writes g p b @ (if p = pid \<and> stores kind \<and> b = a then [length (events g)] else [])"
    using l assms(2) by (auto simp: D nth_list_update nth_enlarge)
qed

text \<open>Processes past the end of the vector have no events.\<close>

lemma process_events_ok:
  assumes "sg_static g"
  shows "ascending (process_events g p)"
    "k < length (process_events g p) \<Longrightarrow> process_events g p ! k < length (events g) \<and>
      ev_pid (ev g (process_events g p ! k)) = p \<and> ev_index (ev g (process_events g p ! k)) = Suc k"
    "process_writes g p b = filter (\<lambda>i. is_store (ev g i) \<and> addr (ev g i) = b) (process_events g p)"
proof -
  note l = sg_staticD(1) [OF assms] and P = process_okD [OF sg_staticD(3) [OF assms]]
  show "ascending (process_events g p)" using P(1) by (cases "p < length (events_by_pid g)") simp_all
  show "k < length (process_events g p) \<Longrightarrow> process_events g p ! k < length (events g) \<and>
      ev_pid (ev g (process_events g p ! k)) = p \<and> ev_index (ev g (process_events g p ! k)) = Suc k"
    using P(2-4) by (cases "p < length (events_by_pid g)") simp_all
  show "process_writes g p b = filter (\<lambda>i. is_store (ev g i) \<and> addr (ev g i) = b) (process_events g p)"
    using P(5) l by (cases "p < length (events_by_pid g)") simp_all
qed

lemma last_event_spec:
  assumes "sg_static g"
  shows "ev_index (new_event pid x kind a rf g) = Suc (length (process_events g pid))"
    "last_event g pid = (if process_events g pid = [] then None
       else Some (process_events g pid ! (length (process_events g pid) - 1)))"
    "last_event g pid = Some q \<Longrightarrow> q < length (events g)"
  using last_of_process [OF assms, of pid]
  by (auto simp: new_event_def last_event_def last_conv_nth split: if_splits)

lemma event_added_static:
  assumes "sg_static g" "event_added pid x kind a rf before g h" "reads_store kind a rf g"
  shows "sg_static h"
proof -
  let ?n = "length (events g)" and ?e = "new_event pid x kind a rf g"
  note E = event_added_events [OF assms(2)] and B = event_added_process [OF assms(2) sg_staticD(1) [OF assms(1)]]
  note P = process_events_ok [OF assms(1)] and L = last_event_spec [OF assms(1), of pid]
  have npid: "ev_pid ?e = pid" "is_store ?e = stores kind" "addr ?e = a" "read_from ?e = rf" "is_load ?e = loads kind"
    "readers ?e = []" "po_predecessor ?e = last_event g pid" by (simp_all add: new_event_def)
  have "place_ok (events h) (events_by_pid h) i" if "i < length (events h)" for i
  proof (cases "i < ?n")
    case True
    note Q = place_okD [OF sg_staticD(2) [OF assms(1) True]]
    have p: "ev_pid (ev h i) = ev_pid (ev g i)" "ev_index (ev h i) = ev_index (ev g i)"
      "po_predecessor (ev h i) = po_predecessor (ev g i)" using True by (simp_all add: E(2))
    have "events_by_pid h ! ev_pid (ev g i) = events_by_pid g ! ev_pid (ev g i) @ (if ev_pid (ev g i) = pid then [?n] else [])"
      using B(1,3) Q(1) by simp
    then show ?thesis unfolding place_ok_def p using Q B(1) by (auto simp: nth_append)
  next
    case False
    then have i: "i = ?n" using that E(1) by simp
    have "events_by_pid h ! pid = process_events g pid @ [?n]" using B(1,3) by simp
    then show ?thesis
      unfolding place_ok_def i E(3) npid L(1,2) using B(1) by (auto simp: nth_append numeral_2_eq_2)
  qed
  moreover have "process_ok (events h) (events_by_pid h) (writes_by_process_and_address h) p"
    if p: "p < length (events_by_pid h)" for p
  proof -
    have mem: "j < ?n" if "j \<in> set (process_events g p)" for j
      using that P(2) [where p = p] by (metis in_set_conv_nth)
    have "ascending (events_by_pid h ! p)" using P(1) mem by (auto simp: B(3) [OF p] ascending_snoc)
    moreover have "events_by_pid h ! p ! k < length (events h) \<and> ev_pid (ev h (events_by_pid h ! p ! k)) = p \<and>
        ev_index (ev h (events_by_pid h ! p ! k)) = Suc k" if "k < length (events_by_pid h ! p)" for k
    proof (cases "k < length (process_events g p)")
      case True
      then show ?thesis using P(2) [OF True] by (simp add: B(3) [OF p] nth_append E)
    next
      case False
      then have "p = pid" "k = length (process_events g p)" using that by (auto simp: B(3) [OF p] split: if_splits)
      then show ?thesis unfolding B(3) [OF p] by (simp add: nth_append E npid L(1))
    qed
    moreover have "(writes_by_process_and_address h ! p) b =
        filter (\<lambda>i. is_store (ev h i) \<and> addr (ev h i) = b) (events_by_pid h ! p)" for b
    proof -
      have "filter (\<lambda>i. is_store (ev h i) \<and> addr (ev h i) = b) (process_events g p) = process_writes g p b"
        unfolding P(3) by (rule filter_cong) (use mem in \<open>auto simp: E(2)\<close>)
      then show ?thesis by (auto simp: B(3,4) [OF p] E(3) npid)
    qed
    ultimately show ?thesis by (simp add: process_ok_def)
  qed
  moreover have "reads_ok (events h)"
  proof -
    note R = reads_okD [OF sg_staticD(4) [OF assms(1)]]
    have "w < length (events h) \<and> is_store (ev h w) \<and> addr (ev h w) = addr (ev h i) \<and> i \<in> set (readers (ev h w)) \<and>
        is_load (ev h i)" if i: "i < length (events h)" "read_from (ev h i) = Some w" for i w
    proof (cases "i < ?n")
      case True
      then have "read_from (ev g i) = Some w" using i(2) by (simp add: E(2))
      from R(1) [OF True this] show ?thesis using True by (simp add: E(1,2) readers_read_by)
    next
      case False
      then have "i = ?n" "rf = Some w" using i E(1,3) npid(4) by (auto simp: less_Suc_eq)
      then show ?thesis using assms(3) by (simp add: E new_event_def reads_store_def readers_read_by)
    qed
    moreover have "r < length (events h) \<and> read_from (ev h r) = Some w"
      if w: "w < length (events h)" "r \<in> set (readers (ev h w))" for w r
    proof -
      have wn: "w < ?n" using w E(1,3) npid(6) by (cases "w = ?n") (auto simp: less_Suc_eq)
      then have "r \<in> set (readers (ev g w)) \<or> (rf = Some w \<and> r = ?n)"
        using w(2) by (auto simp: E(2) readers_read_by split: if_splits)
      then show ?thesis using R(2) [OF wn, of r] by (auto simp: E new_event_def)
    qed
    ultimately show ?thesis unfolding reads_ok_def by blast
  qed
  ultimately show ?thesis using B(2) by (simp add: sg_static_def)
qed

lemma event_added_edges:
  assumes "sg_static g" "sg_index g" "edges_ok (events g) (ins g) (outs g)" "event_added pid x kind a rf before g h"
    and "\<forall>i \<in> set before. i < Suc (length (events g))"
  shows "edges_ok (events h) (ins h) (outs h)"
proof -
  let ?n = "length (events g)" and ?e = "new_event pid x kind a rf g"
  note D = event_addedD [OF assms(4)] and O = edges_okD [OF assms(3)]
  note E = event_added_events [OF assms(4)]
  have tg: "j < ?n" if "j \<in> init_targets kind a rf g" for j
    using that sg_indexD(2) [OF assms(2)] by (auto simp: init_targets_def split: if_splits)
  have inn: "j < Suc ?n" if "j \<in> set (ins h ! ?n)" for j
    using that assms(5) sg_indexD(4) [OF assms(2), of j a] by (auto simp: D(10) split: if_splits)
  have po: "po_predecessor (ev h i) = (if i = ?n then last_event g pid else po_predecessor (ev g i))" if "i < Suc ?n" for i
    using that E(3) by (auto simp: E(2) less_Suc_eq new_event_def)
  have 1: "j < Suc ?n \<and> i \<in> set (outs h ! j)" if "i < Suc ?n" "j \<in> set (ins h ! i)" for i j
  proof (cases "i < ?n")
    case True
    then have "j \<in> set (ins g ! i) \<or> (i \<in> init_targets kind a rf g \<and> j = ?n)"
      using that(2) by (auto simp: D(11) split: if_splits)
    then show ?thesis using O(3,4) [OF True, of j] D(13) [of j] D(14) by auto
  next
    case False
    then have i: "i = ?n" using that(1) by simp
    then have j: "j < Suc ?n" "j \<in> set (ins h ! ?n)" using inn that(2) by simp_all
    then have "?n \<in> set (outs h ! j)" using D(13) [of j] D(14) by (cases "j = ?n") simp_all
    then show ?thesis using j(1) i by simp
  qed
  have 2: "j < Suc ?n \<and> (i \<in> set (ins h ! j) \<or> po_predecessor (ev h j) = Some i)"
    if ij: "i < Suc ?n" "j \<in> set (outs h ! i)" for i j
  proof (cases "i < ?n")
    case True
    then consider "j \<in> set (outs g ! i)" | "j = ?n" "last_event g pid = Some i \<or> i \<in> set (ins h ! ?n)"
      using ij(2) unfolding D(13) [OF True] Un_iff by (metis empty_iff singletonD)
    then show ?thesis
    proof cases
      case 1
      then have "j < ?n" "i \<in> set (ins g ! j) \<or> po_predecessor (ev g j) = Some i" using O(5,6) [OF True] by blast+
      then show ?thesis using D(11) [of j] po [of j] by (simp add: less_Suc_eq) blast
    next
      case 2
      then show ?thesis using po [of ?n] by auto
    qed
  next
    case False
    then have i: "i = ?n" using that(1) by simp
    then have "j \<in> init_targets kind a rf g \<or> (j = ?n \<and> ?n \<in> set (ins h ! ?n))"
      using ij(2) unfolding i D(14) Un_iff by (metis empty_iff singletonD)
    moreover have "?n \<in> set (ins h ! j)" "j < Suc ?n" if "j \<in> init_targets kind a rf g"
      using that tg [OF that] D(11) [OF tg [OF that]] by simp_all
    ultimately show ?thesis unfolding i by blast
  qed
  have 3: "q < Suc ?n \<and> i \<in> set (outs h ! q)" if "i < Suc ?n" "po_predecessor (ev h i) = Some q" for i q
  proof (cases "i = ?n")
    case True
    then have q: "last_event g pid = Some q" using that po by simp
    then show ?thesis using last_event_spec(3) [OF assms(1) q] D(13) [of q] True by simp
  next
    case False
    then have i: "i < ?n" "po_predecessor (ev g i) = Some q" using that po [of i] by simp_all
    then show ?thesis using O(7,8) [OF i] D(13) [of q] by simp
  qed
  show ?thesis unfolding edges_ok_def E(1) D(8,9) using 1 2 3 by blast
qed

lemma event_added_clocks:
  assumes "sg_inv g" "event_added pid x kind a rf before g h"
  shows "clocks_ok h" "\<And>i. i < length (events g) \<Longrightarrow> i \<notin> set (wq_queue h) \<Longrightarrow> stable_at h i"
proof -
  let ?n = "length (events g)"
  note G = sg_invD [OF assms(1)] and D = event_addedD [OF assms(2)] and E = event_added_events [OF assms(2)]
  note C = clocks_okD [OF G(4)] and B = event_added_process [OF assms(2) sg_staticD(1) [OF G(1)]]
  have pl: "j < ?n" if "i < ?n" "j \<in> preds g i" for i j using preds_less [OF G(1,2) that] .
  have vh: "vclk h i = vclk g i" if "i < ?n" for i using that C(1) by (simp add: D(7) nth_append)
  have vn: "vclk h ?n = []" using C(1) by (simp add: D(7) nth_append)
  have src: "clock_sources (ev h i) xs = clock_sources (ev g i) xs"
    "initial_vc_for_event (ev h i) = initial_vc_for_event (ev g i)" if "i < ?n" for i xs
    using that by (simp_all add: E(2) clock_sources_def initial_vc_for_event_def)
  have pr: "preds g i \<subseteq> preds h i" if "i < ?n" for i
    using D(11) [OF that] by (auto simp: preds_iff E(2) [OF that] that)
  have le: "vc_get (rvc g i) p \<le> vc_get (rvc h i) p" if "i < ?n" for i p
  proof -
    have "vc_get (vclk g j) p \<le> vc_get (rvc h i) p" if "j \<in> preds g i" for j
      using rvc_ge_pred [of j h i p] pr [OF \<open>i < ?n\<close>] that vh pl [OF \<open>i < ?n\<close> that] by auto
    then show ?thesis
      unfolding rvc_le_iff using rvc_ge_own [of h i] that by (auto simp: E(2))
  qed
  have cb: "clock_bound g p \<le> clock_bound h p" for p
    using B(1) B(3) [of p] by (auto simp: clock_bound_def)
  show "clocks_ok h"
    unfolding clocks_ok_def E(1)
  proof (intro conjI allI impI)
    show "length (vclocks h) = Suc ?n" using C(1) by (simp add: D(7))
    fix i assume i: "i < Suc ?n"
    show "length (vclk h i) \<le> length (events_by_pid h)"
      using i vn vh C(2) [of i] B(1) by (cases "i = ?n") auto
    show "vc_get (vclk h i) p \<le> clock_bound h p" for p
      using i vn vh C(3) [of i p] cb [of p] by (cases "i = ?n") (auto simp: vc_get_def [of "[]"])
    show "vc_leq (vclk h i) (rvc h i)"
      unfolding vc_leq_iff using i vn vh C(4) [of i] le [of i]
      by (cases "i = ?n") (auto simp: vc_get_def [of "[]"] vc_leq_iff intro: order_trans)
  qed
  show "stable_at h i" if i: "i < ?n" "i \<notin> set (wq_queue h)" for i
  proof -
    have nt: "i \<notin> init_targets kind a rf g" "i \<notin> set (wq_queue g)" using i(2) D(16) by auto
    have ie: "ins h ! i = ins g ! i" by (rule D(12) [OF i(1) nt(1)])
    have p: "preds h i = preds g i" by (simp add: preds_def src(1) [OF i(1)] ie)
    have r: "rvc h i = rvc g i"
      unfolding rvc_def recompute_vc_for_event_def src [OF i(1)] ie
      by (rule fold_cong) (use vh pl [OF i(1)] in \<open>auto simp: preds_def\<close>)
    have "stable_at g i" by (rule G(5) [OF i(1) nt(2)])
    then show ?thesis
      using vh pl [OF i(1)] i(1) unfolding stable_at_def is_in_cycle_iff p r by auto
  qed
qed

lemma event_added_inv:
  assumes "sg_inv g" "sg_index g" "event_added pid x kind a rf before g h" "reads_store kind a rf g"
    and "\<forall>i \<in> set before. i < Suc (length (events g))"
  shows "sg_inv h"
proof -
  note G = sg_invD [OF assms(1)] and C = event_added_clocks [OF assms(1,3)]
  note E = event_added_events(1) [OF assms(3)] and D = event_addedD(15,16) [OF assms(3)]
  have "stable_at h i" if "i < length (events h)" "i \<notin> set (wq_queue h)" for i
    using that C(2) D(2) E by (auto simp: less_Suc_eq)
  then show ?thesis
    unfolding sg_inv_def
    using event_added_static [OF G(1) assms(3,4)] event_added_edges [OF G(1) assms(2) G(2) assms(3,5)] C(1) D(1) E
    by simp
qed

lemma event_added_index:
  assumes "sg_inv g" "sg_index g" "event_added pid x kind a rf before g h" "extid_to_id g x = None"
  shows "sg_index h"
proof -
  let ?n = "length (events g)"
  note X = sg_indexD [OF assms(2)] and D = event_addedD [OF assms(3)] and E = event_added_events [OF assms(3)]
  have new: "ext_id (ev h ?n) = x" "ev_pid (ev h ?n) = pid" "is_store (ev h ?n) = stores kind" "addr (ev h ?n) = a"
    "is_load (ev h ?n) = loads kind" "read_from (ev h ?n) = rf" by (simp_all add: E(3) new_event_def)
  have old: "ext_id (ev h i) = ext_id (ev g i)" "ev_pid (ev h i) = ev_pid (ev g i)" "is_store (ev h i) = is_store (ev g i)"
    "addr (ev h i) = addr (ev g i)" "is_load (ev h i) = is_load (ev g i)" "read_from (ev h i) = read_from (ev g i)"
    if "i < ?n" for i using that by (simp_all add: E(2))
  have 1: "extid_to_id h y = Some i \<longleftrightarrow> i < Suc ?n \<and> ext_id (ev h i) = y" for y i
    using X(1) [of x i] X(1) [of y i] assms(4) old(1) [of i] new(1) by (auto simp: D(4) less_Suc_eq)
  have 2: "w < Suc ?n \<and> is_store (ev h w) \<and> addr (ev h w) = b \<and> ev_pid (ev h w) = p"
    if "(p, w) \<in> set (writes_by_address h b)" for b p w
  proof -
    from that consider "(p, w) \<in> set (writes_by_address g b)" | "first_write pid kind a g" "b = a" "p = pid" "w = ?n"
      by (auto simp: D(5) split: if_splits)
    then show ?thesis using X(2) [of p w b] old [of w] new by cases (auto simp: first_write_def)
  qed
  have 3: "ev_pid (ev h w) \<in> fst ` set (writes_by_address h b)"
    if w: "w < Suc ?n" "is_store (ev h w)" "addr (ev h w) = b" for w b
  proof (cases "w = ?n")
    case True
    then show ?thesis using w new by (auto simp: D(5) first_write_def image_iff)
  next
    case False
    then have "ev_pid (ev h w) \<in> fst ` set (writes_by_address g b)" using w X(3) [of w b] old [of w] by simp
    then show ?thesis by (auto simp: D(5))
  qed
  have 4: "r \<in> set (reads_from_init h b) \<longleftrightarrow> r < Suc ?n \<and> is_load (ev h r) \<and> read_from (ev h r) = None \<and> addr (ev h r) = b"
    for r b using X(4) [of r b] old [of r] new by (auto simp: D(6) less_Suc_eq)
  show ?thesis unfolding sg_index_def E(1) using 1 2 3 4 by blast
qed

text \<open>The successful calls of \<^verbatim>\<open>add_event\<close>, as their effect.\<close>

lemma add_event_effect:
  assumes "sg_inv g" "sg_index g" "event_args_ok trav x kind a rfx g"
    and "add_event trav pid x kind a rfx orig_in g = Some h"
  obtains rf before where
    "rf = (case rfx of None \<Rightarrow> None | Some y \<Rightarrow> extid_to_id g y)" "rfx \<noteq> None \<Longrightarrow> rf \<noteq> None"
    "map (extid_to_id h) orig_in = map Some before" "event_added pid x kind a rf before g h"
    "reads_store kind a rf g" "\<forall>i \<in> set before. i < Suc (length (events g))" "extid_to_id g x = None"
proof -
  obtain rf before where rf: "case rfx of None \<Rightarrow> rf = None
        | Some y \<Rightarrow> \<exists>w < length (events g). extid_to_id g y = Some w \<and> rf = Some w"
    and bf: "map ((extid_to_id g)(x \<mapsto> length (events g))) orig_in = map Some before"
    and A: "event_added pid x kind a rf before g h"
    using add_event_spec [OF assms] by blast
  have rs: "reads_store kind a rf g"
    using rf assms(3) by (auto simp: reads_store_def event_args_ok_def split: option.splits)
  have "\<forall>i \<in> set before. i < Suc (length (events g))"
  proof
    fix i assume "i \<in> set before"
    then have "Some i \<in> set (map ((extid_to_id g)(x \<mapsto> length (events g))) orig_in)" using bf by simp
    then obtain y where "((extid_to_id g)(x \<mapsto> length (events g))) y = Some i" unfolding set_map by (metis imageE)
    then show "i < Suc (length (events g))" using sg_indexD(1) [OF assms(2), of y i] by (auto split: if_splits)
  qed
  moreover have "rf = (case rfx of None \<Rightarrow> None | Some y \<Rightarrow> extid_to_id g y)" "rfx \<noteq> None \<Longrightarrow> rf \<noteq> None"
    using rf by (auto split: option.splits)
  moreover have "map (extid_to_id h) orig_in = map Some before" using bf event_addedD(4) [OF A] by simp
  ultimately show ?thesis using that A rs assms(3) by (simp add: event_args_ok_def)
qed

lemma add_event_keeps:
  assumes "sg_inv g" "sg_index g" "event_args_ok trav x kind a rfx g"
    and "add_event trav pid x kind a rfx orig_in g = Some h"
  shows "sg_inv h" "sg_index h"
  by (rule add_event_effect [OF assms], rule event_added_inv [OF assms(1,2)], assumption+)
     (rule add_event_effect [OF assms], rule event_added_index [OF assms(1,2)], assumption+)

text \<open>With known identifiers the call succeeds.\<close>

lemma add_event_succeeds:
  assumes "\<forall>y \<in> set orig_in. y = x \<or> extid_to_id g y \<noteq> None" "\<forall>y. rfx = Some y \<longrightarrow> extid_to_id g y \<noteq> None" "sg_inv g"
  shows "\<exists>h. add_event trav pid x kind a rfx orig_in g = Some h"
proof -
  obtain po index g2 where po: "event_program_order pid (length (events g))
      (g\<lparr>extid_to_id := (extid_to_id g)(x \<mapsto> length (events g))\<rparr>) = (po, index, g2)" by (metis prod_cases3)
  have e: "extid_to_id g2 = (extid_to_id g)(x \<mapsto> length (events g))"
    using event_program_order_spec(3) [OF po] by simp
  have "\<exists>before. lookup_all (extid_to_id g2) xs = Some before" if "set xs \<subseteq> set orig_in" for xs
    using that assms(1) by (induction xs) (auto simp: e split: option.splits)
  then obtain before where "lookup_all (extid_to_id g2) orig_in = Some before" by blast
  moreover have "(case rfx of None \<Rightarrow> Some None | Some y \<Rightarrow> map_option Some (extid_to_id g2 y)) \<noteq> None"
    using assms(2) by (auto simp: e split: option.splits)
  ultimately show ?thesis
    using edges_okD(1,2) [OF sg_invD(2) [OF assms(3)]] clocks_okD(1) [OF sg_invD(4) [OF assms(3)]]
    unfolding add_event_def Let_def po prod.case by auto
qed

section \<open>Executions of a growing graph\<close>

text \<open>The events a caller asks for: the new one comes after its program order, reads-from and given predecessors.\<close>

lemma reads_last_prefix:
  assumes "event_added pid x kind a rf before g h" "reads_last (events h) pos"
  shows "reads_last (events g) pos"
  unfolding reads_last_def
proof (intro conjI allI impI)
  note E = event_added_events [OF assms(1)]
  have "inj_on pos {..<length (events h)}" using assms(2) by (simp add: reads_last_def)
  then show "inj_on pos {..<length (events g)}" by (rule inj_on_subset) (auto simp: E(1))
  fix i s assume i: "i < length (events g)" "s < length (events g)"
    and "is_load (ev g i) \<and> is_store (ev g s) \<and> addr (ev g s) = addr (ev g i) \<and> s \<noteq> i \<and> pos s < pos i"
  then obtain w where "read_from (ev h i) = Some w" "s = w \<or> pos s < pos w"
    using reads_lastD [OF assms(2), of i s] by (auto simp: E(1,2))
  then show "\<exists>w. read_from (ev g i) = Some w \<and> (s = w \<or> pos s < pos w)" using i by (simp add: E(2))
qed

lemma event_added_sound:
  assumes "sg_inv g" "sg_index g" "event_added pid x kind a rf before g h" "reads_store kind a rf g"
    and "edges_forward g pos" "clocks_sound g pos" "reads_last (events h) pos"
    and "\<forall>i \<in> set before. pos i < pos (length (events g))"
    and "\<forall>q. last_event g pid = Some q \<or> rf = Some q \<longrightarrow> pos q < pos (length (events g))"
  shows "sc_execution h pos \<and> clocks_sound h pos"
proof -
  let ?n = "length (events g)"
  note G = sg_invD [OF assms(1)] and D = event_addedD [OF assms(3)] and E = event_added_events [OF assms(3)]
  note X = sg_indexD [OF assms(2)]
  have init_before: "pos r < pos w"
    if r: "r < length (events h)" "is_load (ev h r)" "read_from (ev h r) = None"
      and w: "w < length (events h)" "is_store (ev h w)" "addr (ev h w) = addr (ev h r)" "w \<noteq> r" for r w
    using reads_lastD [OF assms(7) r(1) w(1) r(2) w(2,3,4)] reads_last_neq [OF assms(7) r(1) w(1)] r(3) w(4)
    by (metis option.distinct(1))
  have "pos i < pos j" if j: "j < length (events h)" "i \<in> preds h j" for i j
  proof (cases "j < ?n")
    case True
    then consider "i \<in> preds g j" | "i = ?n" "j \<in> init_targets kind a rf g"
      using j(2) D(11) [OF True] by (auto simp: preds_iff E(2) split: if_splits)
    then show ?thesis
    proof cases
      case 1
      then show ?thesis using edges_forwardD [OF assms(5) True] by blast
    next
      case 2
      then have k: "rf = None" "loads kind" "is_store (ev g j)" "addr (ev g j) = a"
        using X(2) by (auto simp: init_targets_def split: if_splits)
      show ?thesis unfolding 2(1) by (rule init_before) (use k True in \<open>simp_all add: E new_event_def\<close>)
    qed
  next
    case False
    then have jn: "j = ?n" using j(1) E(1) by simp
    then consider "i \<in> set before \<or> last_event g pid = Some i \<or> rf = Some i"
      | "first_write pid kind a g" "i \<in> set (reads_from_init g a)"
      using j(2) D(10) by (auto simp: preds_iff E(3) new_event_def split: if_splits)
    then show ?thesis
    proof cases
      case 1
      then show ?thesis using assms(8,9) jn by blast
    next
      case 2
      then have "i < ?n" "is_load (ev g i)" "read_from (ev g i) = None" "addr (ev g i) = a" using X(4) by blast+
      then show ?thesis
        unfolding jn using 2(1) by (intro init_before) (auto simp: E new_event_def first_write_def)
    qed
  qed
  moreover have "clocks_sound h pos"
    unfolding clocks_sound_def vc_claims_def
  proof (intro allI impI)
    fix i j assume i: "i < length (events h)" and j: "j < length (events h)"
      and le: "ev_index (ev h j) \<le> vc_get (vclk h i) (ev_pid (ev h j))"
    note C = clocks_okD [OF G(4)]
    have "0 < ev_index (ev h j)"
      using place_okD(2) [OF sg_staticD(2) [OF event_added_static [OF G(1) assms(3,4)] j]] .
    then have vi: "i < ?n" "vclk h i = vclk g i"
      using le i C(1) E(1) by (auto simp: D(7) nth_append vc_get_def less_Suc_eq split: if_splits)
    have "ev_index (new_event pid x kind a rf g) = Suc (length (process_events g pid))"
      by (rule last_event_spec(1) [OF G(1)])
    moreover have "vc_get (vclk g i) pid \<le> length (process_events g pid)"
      using C(3) [OF vi(1), of pid] by (auto simp: clock_bound_def split: if_splits)
    ultimately have "j \<noteq> ?n" using le vi(2) by (auto simp: E(3) new_event_def)
    then have "j < ?n" using j E(1) by simp
    then show "pos j \<le> pos i"
      using le vi assms(6) by (simp add: clocks_sound_def vc_claims_def E(2))
  qed
  ultimately show ?thesis using assms(7) by (simp add: sc_execution_def edges_forward_def)
qed

end
