(* ===== verification/SatGraph_Runs.thy ===== *)
theory SatGraph_Runs
  imports SatGraph_Events
begin

text \<open>
  Runs of a saturated graph: the graphs reachable from the empty one by \<^verbatim>\<open>add_event\<close>, \<^verbatim>\<open>add_edge\<close> and
  successful calls of \<^verbatim>\<open>saturate\<close>, as a step relation, and what holds of all of them.
\<close>

section \<open>What saturation leaves alone\<close>

definition sg_indices ::
  "('x, 'a) sgraph \<Rightarrow> ('x, 'a) event list \<times> ('x \<Rightarrow> nat option) \<times> ('a \<Rightarrow> (nat \<times> nat) list) \<times> ('a \<Rightarrow> nat list)" where
  "sg_indices g = (events g, extid_to_id g, writes_by_address g, reads_from_init g)"

lemma indices_update [graph_frame]:
  "sg_indices (g\<lparr>ins := x\<rparr>) = sg_indices g" "sg_indices (g\<lparr>outs := x\<rparr>) = sg_indices g"
  "sg_indices (g\<lparr>vclocks := v\<rparr>) = sg_indices g" "sg_indices (g\<lparr>wq_queue := q\<rparr>) = sg_indices g"
  "sg_indices (g\<lparr>wq_set := m\<rparr>) = sg_indices g" "sg_indices (g\<lparr>saturated_until := n\<rparr>) = sg_indices g"
  by (simp_all add: sg_indices_def)

lemma indices_wq [graph_frame]:
  "sg_indices (wq_add i g) = sg_indices g" "sg_indices (wq_add_first i g) = sg_indices g"
  "sg_indices (add_edge_internal f t g) = sg_indices g" "sg_indices (snd (wq_pop g)) = sg_indices g"
  by (auto simp: wq_add_eq add_edge_internal_def wq_pop_def Let_def graph_frame)

lemma indices_wq_add_all [graph_frame]: "sg_indices (wq_add_all is g) = sg_indices g"
  by (induction "is" arbitrary: g) (simp_all add: graph_frame)

lemma indices_add_edges [graph_frame]: "sg_indices (add_edges es g) = sg_indices g"
  by (induction es g rule: add_edges.induct) (simp_all add: graph_frame)

lemma indices_add_from_reads: "add_from_reads eid rs (g, b) = (h, c) \<Longrightarrow> sg_indices h = sg_indices g"
  by (induction rs arbitrary: g b) (auto simp: graph_frame split: if_splits)

lemma indices_saturate_pid:
  "saturate_pid eid e old_vc vc p (g, es, b) = Inr (h, fs, c) \<Longrightarrow> sg_indices h = sg_indices g"
  by (auto simp: saturate_pid_def Let_def split: if_splits option.splits prod.splits dest: indices_add_from_reads)

lemma indices_saturate_pids:
  "saturate_pids eid e old_vc vc ps (g, es, b) = Inr (h, fs, c) \<Longrightarrow> sg_indices h = sg_indices g"
proof (induction ps arbitrary: g es b)
  case (Cons p ps)
  then obtain k ks d where "saturate_pid eid e old_vc vc p (g, es, b) = Inr (k, ks, d)"
    "saturate_pids eid e old_vc vc ps (k, ks, d) = Inr (h, fs, c)"
    by (cases "saturate_pid eid e old_vc vc p (g, es, b)") auto
  then show ?case using Cons.IH indices_saturate_pid by metis
qed simp

lemma indices_saturate_one:
  assumes "sg_inv g" "\<not> wq_empty g" "saturate_one g = Inr h"
  shows "sg_indices h = sg_indices g"
  using assms(1,2)
proof (cases rule: saturate_one_cases)
  case (same eid k)
  then show ?thesis using assms(3) indices_wq(4) [of g] by simp
next
  case (update eid k l es new_in m)
  have "sg_indices l = sg_indices k" using update(5) indices_saturate_pids by (fastforce split: if_splits)
  then show ?thesis
    using assms(3) update(1,7) indices_wq(4) [of g]
    unfolding update(6) by (auto simp: add_successors_to_wq_def Let_def graph_frame)
qed (use assms(3) in auto)

lemma indices_saturate_loop:
  assumes "sg_inv g" "saturate_loop g = Some (Done True h)"
  shows "sg_indices h = sg_indices g"
  using assms
proof (induction rule: saturate_loop_induct)
  case (step g k)
  then show ?case using indices_saturate_one [of g k] by (simp add: saturate_loop_unfold)
qed (auto simp: saturate_loop_unfold graph_frame)

lemma indices_reverse_saturate:
  assumes "sg_inv g" "reverse_saturate g = Some h"
  shows "sg_indices h = sg_indices g"
proof -
  obtain k where "added g k" "h = k\<lparr>saturated_until := length (events k)\<rparr>"
    using reverse_saturate_added [OF assms] .
  then show ?thesis by (simp add: sg_indices_def added_def grows_def)
qed

lemma saturate_indices:
  assumes "sg_inv g" "saturate g = Some (Done True h)"
  shows "sg_indices h = sg_indices g"
proof -
  obtain k where k: "reverse_saturate g = Some k" "saturate_loop k = Some (Done True h)"
    using saturate_accepts [OF assms] by blast
  then show ?thesis
    using indices_reverse_saturate [OF assms(1) k(1)]
      indices_saturate_loop [OF reverse_saturate_inv [OF assms(1) k(1)] k(2)] by simp
qed

section \<open>The step relation\<close>

text \<open>
  \<open>lt\<close> restricts the edges a caller may ask for (program order, reads-from, given predecessors and
  \<^verbatim>\<open>add_edge\<close>); with \<open>\<lambda>_ _. True\<close> it restricts nothing.
\<close>

inductive sg_run ::
  "((nat \<times> nat) list \<Rightarrow> (nat \<times> nat) list) \<Rightarrow> (nat \<Rightarrow> nat \<Rightarrow> bool) \<Rightarrow> ('x, 'a) sgraph \<Rightarrow> bool" for trav lt where
  start: "sg_run trav lt sg_empty"
| event: "sg_run trav lt g \<Longrightarrow> event_args_ok trav x kind a rfx g \<Longrightarrow>
    add_event trav pid x kind a rfx orig_in g = Some h \<Longrightarrow> n = length (events g) \<Longrightarrow>
    \<forall>q. po_predecessor (ev h n) = Some q \<or> read_from (ev h n) = Some q \<or>
        Some q \<in> extid_to_id h ` set orig_in \<longrightarrow> lt q n \<Longrightarrow>
    sg_run trav lt h"
| edge: "sg_run trav lt g \<Longrightarrow> add_edge x y g = Some h \<Longrightarrow> extid_to_id g x = Some i \<Longrightarrow>
    extid_to_id g y = Some j \<Longrightarrow> lt i j \<Longrightarrow> sg_run trav lt h"
| saturated: "sg_run trav lt g \<Longrightarrow> saturate g = Some (Done True h) \<Longrightarrow> sg_run trav lt h"

lemma add_edge_effect:
  assumes "sg_inv g" "sg_index g" "add_edge x y g = Some h"
  obtains i j where "extid_to_id g x = Some i" "extid_to_id g y = Some j" "h = add_edge_internal i j g"
    "i < length (events g)" "j < length (events g)" "added g h"
proof -
  obtain i j where e: "extid_to_id g x = Some i" "extid_to_id g y = Some j" "h = add_edge_internal i j g"
    using assms(3) by (auto simp: add_edge_def split: option.splits)
  then have ij: "i < length (events g)" "j < length (events g)" using sg_indexD(1) [OF assms(2)] by blast+
  have "grows g g" using grows_refl sg_invD(2,3) [OF assms(1)] by blast
  then show ?thesis using that e ij added_edge_internal(1) by blast
qed

lemma sg_index_cong: "sg_indices h = sg_indices g \<Longrightarrow> sg_index h = sg_index g"
  by (simp add: sg_indices_def sg_index_def)

lemma sg_run_keeps: "sg_run trav lt g \<Longrightarrow> sg_inv g \<and> sg_index g"
proof (induction rule: sg_run.induct)
  case start
  show ?case by (simp add: sg_inv_empty sg_index_empty)
next
  case (event g x kind a rfx pid orig_in h n)
  then show ?case using add_event_keeps [OF _ _ event(2,3)] by blast
next
  case (edge g x y h i j)
  then have "sg_inv g" "sg_index g" by blast+
  then obtain i j where "h = add_edge_internal i j g" "added g h" by (rule add_edge_effect [OF _ _ edge(2)])
  then show ?case
    using added_inv \<open>sg_inv g\<close> \<open>sg_index g\<close> sg_index_cong [of h g] by (simp add: graph_frame)
next
  case (saturated g h)
  then show ?case using saturate_accepted(1) [of g h] saturate_indices [of g h] sg_index_cong by blast
qed

text \<open>An execution that the requested edges follow is one of the whole graph, derived edges included.\<close>

lemma sg_run_execution:
  assumes "sg_run trav (\<lambda>i j. pos i < pos j) g" "reads_last (events g) pos"
  shows "sc_execution g pos \<and> clocks_sound g pos"
  using assms
proof (induction rule: sg_run.induct)
  case start
  show ?case by (simp add: sc_execution_def edges_forward_def clocks_sound_def reads_last_def sg_empty_def)
next
  case (event g x kind a rfx pid orig_in h n)
  have I: "sg_inv g" "sg_index g" using sg_run_keeps [OF event(1)] by blast+
  obtain rf before where bf: "map (extid_to_id h) orig_in = map Some before"
    and A: "event_added pid x kind a rf before g h" and rs: "reads_store kind a rf g"
    using add_event_effect [OF I event(2,3)] by metis
  have E: "ev h n = new_event pid x kind a rf g" using event_added_events(3) [OF A] event(4) by simp
  have base: "pos q < pos n" if "last_event g pid = Some q \<or> rf = Some q" for q
    using event(5) that by (auto simp: E new_event_def)
  have "Some i \<in> extid_to_id h ` set orig_in" if "i \<in> set before" for i
  proof -
    have "Some i \<in> set (map (extid_to_id h) orig_in)" unfolding bf using that by simp
    then show ?thesis by simp
  qed
  then have "\<forall>i \<in> set before. pos i < pos n" using event(5) by blast
  moreover have "reads_last (events g) pos" by (rule reads_last_prefix [OF A event.prems])
  ultimately show ?case
    using event_added_sound [OF I A rs] event.IH base event(4,7) by (auto simp: sc_execution_def)
next
  case (edge g x y h i j)
  have I: "sg_inv g" "sg_index g" using sg_run_keeps [OF edge(1)] by blast+
  have h: "h = add_edge_internal i j g" using edge(2-4) by (simp add: add_edge_def)
  have ij: "i < length (events g)" "j < length (events g)" using sg_indexD(1) [OF I(2)] edge(3,4) by blast+
  have gr: "grows g g" using grows_refl sg_invD(2,3) [OF I(1)] by blast
  note S = add_edge_internal_spec [OF gr ij, folded h]
  note D = growsD(1,2) [OF S(1)]
  have sc: "sc_execution g pos" "clocks_sound g pos" using edge by (simp_all add: D)
  have "pos k < pos l" if l: "l < length (events h)" "k \<in> preds h l" for k l
  proof -
    have "k \<in> preds g l \<or> (k = i \<and> l = j)" using l S(3) [of l] by (auto simp: preds_iff D split: if_splits)
    then show ?thesis using sc(1) l(1) edge(5) by (auto simp: sc_execution_def D dest: edges_forwardD)
  qed
  then show ?case
    using sc by (simp add: sc_execution_def edges_forward_def clocks_sound_def vc_claims_def D)
next
  case (saturated g h)
  have I: "sg_inv g" using sg_run_keeps [OF saturated(1)] by blast
  have "events h = events g" using saturate_indices [OF I saturated(2)] by (simp add: sg_indices_def)
  then have "sc_execution g pos" "clocks_sound g pos" using saturated by simp_all
  then show ?case using saturate_sound [OF I] saturated(2) by auto
qed

section \<open>An example\<close>

text \<open>
  Process 1 loads the initial value of address 7, process 0 stores to it, and process 1 loads again,
  from that store.
\<close>

definition mp_1 :: "(nat, nat) sgraph" where
  "mp_1 = the (add_event (\<lambda>ws. ws) 1 10 LOAD 7 None [] sg_empty)"

definition mp_2 :: "(nat, nat) sgraph" where
  "mp_2 = the (add_event (\<lambda>ws. ws) 0 11 STORE 7 None [] mp_1)"

definition mp_3 :: "(nat, nat) sgraph" where
  "mp_3 = the (add_event (\<lambda>ws. ws) 1 12 LOAD 7 (Some 11) [] mp_2)"

lemma mp_events:
  "events mp_3 = [
    \<lparr>ev_pid = 1, ev_index = 1, ext_id = 10, is_load = True, is_store = False, addr = 7, read_from = None,
     readers = [], po_predecessor = None\<rparr>,
    \<lparr>ev_pid = 0, ev_index = 1, ext_id = 11, is_load = False, is_store = True, addr = 7, read_from = None,
     readers = [2], po_predecessor = None\<rparr>,
    \<lparr>ev_pid = 1, ev_index = 2, ext_id = 12, is_load = True, is_store = False, addr = 7, read_from = Some 1,
     readers = [], po_predecessor = Some 0\<rparr>]"
  by code_simp

lemma mp_lengths: "length (events mp_1) = 1" "length (events mp_2) = 2"
  "po_predecessor (ev mp_2 1) = None" "read_from (ev mp_2 1) = None"
  "po_predecessor (ev mp_1 0) = None" "read_from (ev mp_1 0) = None"
  by code_simp+

lemma mp_lookup: "extid_to_id (sg_empty :: (nat, nat) sgraph) 10 = None" "extid_to_id mp_1 11 = None"
  "extid_to_id mp_2 11 = Some 1" "extid_to_id mp_2 12 = None"
  "is_store (ev mp_2 1)" "addr (ev mp_2 1) = 7"
  by code_simp+

lemma mp_some:
  "add_event (\<lambda>ws. ws) 1 10 LOAD 7 None [] sg_empty = Some mp_1"
  "add_event (\<lambda>ws. ws) 0 11 STORE 7 None [] mp_1 = Some mp_2"
  "add_event (\<lambda>ws. ws) 1 12 LOAD 7 (Some 11) [] mp_2 = Some mp_3"
proof -
  have "\<not> Option.is_none (add_event (\<lambda>ws. ws) 1 10 LOAD 7 None [] (sg_empty :: (nat, nat) sgraph))"
    "\<not> Option.is_none (add_event (\<lambda>ws. ws) 0 11 STORE 7 None [] mp_1)"
    "\<not> Option.is_none (add_event (\<lambda>ws. ws) 1 12 LOAD 7 (Some 11) [] mp_2)" by code_simp+
  then show "add_event (\<lambda>ws. ws) 1 10 LOAD 7 None [] sg_empty = Some mp_1"
    "add_event (\<lambda>ws. ws) 0 11 STORE 7 None [] mp_1 = Some mp_2"
    "add_event (\<lambda>ws. ws) 1 12 LOAD 7 (Some 11) [] mp_2 = Some mp_3"
    by (auto simp: Option.is_none_def mp_1_def mp_2_def mp_3_def)
qed

lemma mp_run: "sg_run (\<lambda>ws. ws) (\<lambda>i j. i < j) mp_3"
proof -
  have "sg_run (\<lambda>ws. ws) (\<lambda>i j. i < j) mp_1"
    by (rule sg_run.event [OF sg_run.start _ mp_some(1) refl])
      (use mp_lengths in \<open>simp_all add: event_args_ok_def mp_lookup sg_empty_def\<close>)
  then have "sg_run (\<lambda>ws. ws) (\<lambda>i j. i < j) mp_2"
    by (rule sg_run.event [OF _ _ mp_some(2) refl])
      (use mp_lengths in \<open>simp_all add: event_args_ok_def mp_lookup\<close>)
  then show ?thesis
    by (rule sg_run.event [OF _ _ mp_some(3) refl])
      (use mp_lookup in \<open>simp_all add: event_args_ok_def mp_lengths mp_events\<close>)
qed

lemma mp_reads: "reads_last (events mp_3) (\<lambda>i. i)"
proof -
  have "length (events mp_3) = 3" by (simp add: mp_events)
  then show ?thesis by (auto simp: reads_last_def less_Suc_eq numeral_3_eq_3 mp_events)
qed

section \<open>Properties\<close>

text \<open>
  C1. Saturation never rejects a possible execution: if the events of a graph built by the program's
  operations have a sequentially consistent execution (positions such that program order, reads-from
  and requested edges go forward and every load reads the last store before it), then \<^verbatim>\<open>saturate\<close>
  returns true, and every edge it derived goes forward in that execution.
\<close>

theorem saturate_accepts_executions:
  assumes "sg_run trav (\<lambda>i j. pos i < pos j) g" "reads_last (events g) pos"
  shows "\<exists>h. saturate g = Some (Done True h) \<and> events h = events g \<and> sc_execution h pos"
proof -
  have I: "sg_inv g" using sg_run_keeps [OF assms(1)] by blast
  obtain h where h: "saturate g = Some (Done True h)" "sc_execution h pos"
    using saturate_sound [OF I] sg_run_execution [OF assms] by blast
  then show ?thesis using saturate_indices [OF I h(1)] by (auto simp: sg_indices_def)
qed

theorem saturate_accepts_executions_witness:
  "\<exists>h. saturate mp_3 = Some (Done True h) \<and> events h = events mp_3 \<and> sc_execution h (\<lambda>i. i)"
  by (rule saturate_accepts_executions [OF mp_run mp_reads])

text \<open>
  C8. A graph accepted by \<^verbatim>\<open>saturate\<close> has no cycle of program order, reads-from and derived edges, its
  work queue is empty, and its vector clocks are exactly its happens-before relation.
\<close>

theorem saturate_acyclic:
  assumes "sg_run trav lt g" "saturate g = Some (Done True h)"
  shows "is_saturated h \<and> acyclic (sg_edge_rel h) \<and>
    (\<forall>i < length (events h). \<forall>j < length (events h).
       ev_index (ev h j) \<le> vc_get (vclk h i) (ev_pid (ev h j)) \<longleftrightarrow> (j, i) \<in> (sg_edge_rel h)\<^sup>*)"
proof -
  have I: "sg_inv g" using sg_run_keeps [OF assms(1)] by blast
  note A = saturate_accepted [OF I assms(2)]
  show ?thesis using saturated_acyclic [OF A] saturated_clock_iff [OF A] A(2) by (simp add: is_saturated_def)
qed

theorem saturate_acyclic_witness:
  "\<exists>h. saturate mp_3 = Some (Done True h) \<and> is_saturated h \<and> acyclic (sg_edge_rel h)"
proof -
  obtain h where h: "saturate mp_3 = Some (Done True h)"
    using saturate_sound sg_run_keeps [OF mp_run] sg_run_execution [OF mp_run mp_reads] by blast
  then show ?thesis using saturate_acyclic [OF mp_run h] by blast
qed



end
