(* ===== verification/SatGraph_Complete.thy ===== *)
theory SatGraph_Complete
  imports SatGraph_Runs
begin

text \<open>
  Completeness of saturation. A graph that \<^verbatim>\<open>saturate\<close> accepts is closed under the two rules it
  derives edges with: a store that comes before a load comes before the store that is read, and a
  load comes before every store that comes after the store it reads. The forward loop looks at the
  last visible write of each process only and reverse saturation at the first one below, so the
  closure is shown for those and extended along program order. Between two calls the rules may only
  be missing for loads added since, which are the events from \<^verbatim>\<open>saturated_until\<close> on.
\<close>

section \<open>The rules\<close>

abbreviation hb :: "('x, 'a) sgraph \<Rightarrow> nat \<Rightarrow> nat \<Rightarrow> bool" where
  "hb g i j \<equiv> (i, j) \<in> (sg_edge_rel g)\<^sup>*"

text \<open>\<open>w\<close> is the last write of its process to the address of \<open>e\<close> that the clock of \<open>e\<close> covers.\<close>

definition last_vis :: "('x, 'a) sgraph \<Rightarrow> nat \<Rightarrow> nat \<Rightarrow> bool" where
  "last_vis g e w \<longleftrightarrow>
     w \<noteq> e \<and> visible g (addr (ev g e)) (ev_pid (ev g w)) (vc_get (vclk g e) (ev_pid (ev g w))) w \<and>
     (\<forall>v. visible g (addr (ev g e)) (ev_pid (ev g w)) (vc_get (vclk g e) (ev_pid (ev g w))) v \<longrightarrow> v \<noteq> e \<longrightarrow>
        ev_index (ev g v) \<le> ev_index (ev g w))"

definition rules_at :: "('x, 'a) sgraph \<Rightarrow> nat \<Rightarrow> nat \<Rightarrow> nat \<Rightarrow> bool" where
  "rules_at g n e w \<longleftrightarrow>
     (is_store (ev g e) \<longrightarrow> (\<forall>r \<in> set (readers (ev g w)). r < n \<longrightarrow> hb g r e)) \<and>
     (is_load (ev g e) \<longrightarrow> (\<exists>rf. read_from (ev g e) = Some rf \<and> hb g w rf))"

definition closed_upto :: "nat \<Rightarrow> ('x, 'a) sgraph \<Rightarrow> bool" where
  "closed_upto n g \<longleftrightarrow>
     (\<forall>e < length (events g). \<forall>w. last_vis g e w \<and> (is_load (ev g e) \<or> is_store (ev g e)) \<longrightarrow>
        w < n \<and> rules_at g n e w)"

definition sg_closed :: "('x, 'a) sgraph \<Rightarrow> bool" where
  "sg_closed g \<longleftrightarrow> saturated_until g \<le> length (events g) \<and> closed_upto (saturated_until g) g"

text \<open>Loads of the initial value have an edge to the first write of every process.\<close>

definition init_closed :: "('x, 'a) sgraph \<Rightarrow> bool" where
  "init_closed g \<longleftrightarrow>
     (\<forall>a r p w. r \<in> set (reads_from_init g a) \<and> (p, w) \<in> set (writes_by_address g a) \<and> w \<noteq> r \<longrightarrow> r \<in> set (ins g ! w)) \<and>
     (\<forall>a p w v. (p, w) \<in> set (writes_by_address g a) \<and> v < length (events g) \<and> is_store (ev g v) \<and>
        addr (ev g v) = a \<and> ev_pid (ev g v) = p \<longrightarrow> ev_index (ev g w) \<le> ev_index (ev g v))"

lemma edge_rel_mono:
  assumes "events h = events g" "\<And>j. j < length (events g) \<Longrightarrow> set (ins g ! j) \<subseteq> set (ins h ! j)"
  shows "sg_edge_rel g \<subseteq> sg_edge_rel h" "hb g i j \<Longrightarrow> hb h i j"
proof -
  show "sg_edge_rel g \<subseteq> sg_edge_rel h" using assms by (auto simp: sg_edge_rel_def preds_iff)
  then show "hb g i j \<Longrightarrow> hb h i j" using rtrancl_mono by blast
qed

lemma grows_edge_rel:
  assumes "grows g h"
  shows "sg_edge_rel g \<subseteq> sg_edge_rel h" "hb g i j \<Longrightarrow> hb h i j"
  using edge_rel_mono [OF growsD(1) [OF assms]] growsD(12) [OF assms] by blast+

lemma last_vis_cong:
  "events h = events g \<Longrightarrow> vclk h e = vclk g e \<Longrightarrow> last_vis h e w = last_vis g e w"
  by (simp add: last_vis_def visible_def)

lemma rules_at_mono:
  "events h = events g \<Longrightarrow> sg_edge_rel g \<subseteq> sg_edge_rel h \<Longrightarrow> rules_at g n e w \<Longrightarrow> rules_at h n e w"
  using rtrancl_mono [of "sg_edge_rel g" "sg_edge_rel h"] unfolding rules_at_def by auto

lemma edge_hb: "j < length (events g) \<Longrightarrow> i \<in> set (ins g ! j) \<Longrightarrow> hb g i j"
  by (rule r_into_rtrancl) (simp add: sg_edge_rel_def preds_iff)

lemma program_order_hb:
  assumes "sg_static g" "i < length (events g)" "j < length (events g)" "ev_pid (ev g i) = ev_pid (ev g j)"
    and "ev_index (ev g i) \<le> ev_index (ev g j)"
  shows "hb g i j"
  using program_order_path [OF assms(1-4), of "ev_index (ev g j) - ev_index (ev g i)"] assms(5) by simp

section \<open>The forward loop\<close>

lemma saturate_pid_rules:
  assumes "sg_static g" "grows g g" "eid < length (events g)" "vc_get old_vc p \<noteq> vc_get vc p"
    and "last_visible_write g eid (addr e) p (vc_get vc p) = Some w" "w < length (events g)"
    and "\<not> ev_index (ev g w) \<le> vc_get old_vc p" "saturate_pid eid e old_vc vc p (g, es, b) = Inr (h, fs, c)"
  shows "is_store e \<Longrightarrow> set (readers (ev g w)) - {eid} \<subseteq> set (ins h ! eid)"
    and "is_load e \<Longrightarrow> \<exists>rf. read_from e = Some rf \<and> (w = rf \<or> (w, rf) \<in> set fs)"
proof -
  obtain k d where kd: "(if is_store e then add_from_reads eid (readers (ev g w)) (g, b) else (g, b)) = (k, d)"
    by fastforce
  have res: "h = k \<and> (is_load e \<longrightarrow> (\<exists>rf. read_from e = Some rf \<and> (w = rf \<or> (w, rf) \<in> set fs)))"
    using assms(8) assms(4,5,7) kd by (auto simp: saturate_pid_def Let_def split: if_splits option.splits)
  have "\<forall>r \<in> set (readers (ev g w)). r < length (events g)"
    using reads_okD(2) [OF sg_staticD(4) [OF assms(1)] assms(6)] by blast
  then show "is_store e \<Longrightarrow> set (readers (ev g w)) - {eid} \<subseteq> set (ins h ! eid)"
    using add_from_reads_spec [OF assms(2,3), of "readers (ev g w)" b k d] kd res by auto
  show "is_load e \<Longrightarrow> \<exists>rf. read_from e = Some rf \<and> (w = rf \<or> (w, rf) \<in> set fs)" using res by blast
qed

lemma saturate_pid_edges: "saturate_pid eid e old_vc vc p (g, es, b) = Inr (h, fs, c) \<Longrightarrow> set es \<subseteq> set fs"
  by (auto simp: saturate_pid_def Let_def split: if_splits option.splits prod.splits)

lemma saturate_pids_edges: "saturate_pids eid e old_vc vc ps (g, es, b) = Inr (h, fs, c) \<Longrightarrow> set es \<subseteq> set fs"
proof (induction ps arbitrary: g es b)
  case (Cons p ps)
  then obtain k ks d where "saturate_pid eid e old_vc vc p (g, es, b) = Inr (k, ks, d)"
    "saturate_pids eid e old_vc vc ps (k, ks, d) = Inr (h, fs, c)"
    by (cases "saturate_pid eid e old_vc vc p (g, es, b)") auto
  then show ?case using Cons.IH saturate_pid_edges by blast
qed simp

lemma last_visible_write_grows: "grows g h \<Longrightarrow> last_visible_write h eid a p k = last_visible_write g eid a p k"
  by (simp add: last_visible_write_def get_process_event_def growsD)

lemma pids_effect_start:
  "grows g g \<Longrightarrow> \<forall>(f, t) \<in> set es. f < length (events g) \<and> t < length (events g) \<Longrightarrow> pids_effect eid g (g, es, b)"
  by (simp add: pids_effect_def)

lemma saturate_pids_rules:
  assumes "sg_static g" "grows g g" "vc_in_range g vc" "vc_leq old_vc vc" "eid < length (events g)" "e = ev g eid"
    and "\<forall>(f, t) \<in> set es. f < length (events g) \<and> t < length (events g)"
    and "p \<in> set ps" "vc_get old_vc p \<noteq> vc_get vc p"
    and "last_visible_write g eid (addr e) p (vc_get vc p) = Some w" "w < length (events g)"
    and "\<not> ev_index (ev g w) \<le> vc_get old_vc p" "saturate_pids eid e old_vc vc ps (g, es, b) = Inr (h, fs, c)"
  shows "(is_store e \<longrightarrow> set (readers (ev g w)) - {eid} \<subseteq> set (ins h ! eid)) \<and>
    (is_load e \<longrightarrow> (\<exists>rf. read_from e = Some rf \<and> (w = rf \<or> (w, rf) \<in> set fs)))"
  using assms
proof (induction ps arbitrary: g es b)
  case (Cons q ps)
  note pr = Cons.prems
  obtain k ks d where k: "saturate_pid eid e old_vc vc q (g, es, b) = Inr (k, ks, d)"
    "saturate_pids eid e old_vc vc ps (k, ks, d) = Inr (h, fs, c)"
    using pr(13) by (cases "saturate_pid eid e old_vc vc q (g, es, b)") auto
  have eff: "pids_effect eid g (k, ks, d)"
    by (rule saturate_pid_effect [OF pr(1-6) pids_effect_start [OF pr(2,7)] k(1)])
  then have gr: "grows g k" and ks: "\<forall>(f, t) \<in> set ks. f < length (events g) \<and> t < length (events g)"
    by (auto simp: pids_effect_def)
  note D = growsD(1) [OF gr]
  have st: "sg_static k" "vc_in_range k vc" using pr(1,3) sg_static_grows [OF gr] vc_in_range_grows [OF gr] by simp_all
  have e: "eid < length (events k)" "e = ev k eid" using pr(5,6) D by simp_all
  have ks': "\<forall>(f, t) \<in> set ks. f < length (events k) \<and> t < length (events k)" using ks D by simp
  show ?case
  proof (cases "q = p")
    case True
    note R = saturate_pid_rules [OF pr(1,2,5,9-12) k(1) [unfolded True]]
    have "pids_effect eid k (h, fs, c)"
      by (rule saturate_pids_effect [OF st(1) grows_self [OF gr] st(2) pr(4) e pids_effect_start [OF grows_self [OF gr] ks'] k(2)])
    then have "set (ins k ! eid) \<subseteq> set (ins h ! eid)" using growsD(12) e(1) by (auto simp: pids_effect_def)
    then show ?thesis using R saturate_pids_edges [OF k(2)] by blast
  next
    case False
    then have "p \<in> set ps" using pr(8) by simp
    then show ?thesis
      using Cons.IH [OF st(1) grows_self [OF gr] st(2) pr(4) e ks' _ pr(9) _ _ _ k(2)] pr(10-12) D
        last_visible_write_grows [OF gr] by simp
  qed
qed simp

text \<open>One iteration: only the clock of the event it takes from the queue changes.\<close>

lemma saturated_until_wq [graph_frame]:
  "saturated_until (wq_add i g) = saturated_until g" "saturated_until (wq_add_first i g) = saturated_until g"
  "saturated_until (snd (wq_pop g)) = saturated_until g" "saturated_until (add_edge_internal f t g) = saturated_until g"
  by (simp_all add: wq_add_eq wq_pop_def add_edge_internal_def Let_def)

lemma saturated_until_wq_all [graph_frame]: "saturated_until (wq_add_all is g) = saturated_until g"
  by (induction "is" arbitrary: g) (simp_all add: graph_frame)

lemma saturated_until_add_edges [graph_frame]: "saturated_until (add_edges es g) = saturated_until g"
  by (induction es g rule: add_edges.induct) (simp_all add: graph_frame)

lemma update_rules:
  assumes "sg_inv g" "wq_pop g = (eid, h)" "\<not> wq_empty g" "is_load (ev g eid) \<or> is_store (ev g eid)"
    and "saturate_pids eid (ev g eid) (vclk g eid) (rvc g eid) [0..<length (rvc g eid)] (h, [], False) = Inr (k, es, b)"
    and "\<And>w. last_vis g eid w \<Longrightarrow> rules_at g n eid w"
    and "events l = events g" "vclk l eid = rvc g eid" "last_vis l eid w"
    and "\<And>j. j < length (events g) \<Longrightarrow> set (ins l ! j) = set (ins k ! j) \<union> {f. (f, j) \<in> set es}"
  shows "rules_at l n eid w"
proof -
  note G = sg_invD [OF assms(1)] and P = popped_ok [OF assms(1,3,2)]
  note W = wq_pop_spec [OF G(3) assms(3,2)]
  note S = W(1) [unfolded same_graph_def]
  let ?p = "ev_pid (ev g w)" and ?a = "addr (ev g eid)"
  have E: "events h = events g" "vclocks h = vclocks g" using S by simp_all
  have eff: "pids_effect eid h (k, es, b)" by (rule saturate_pids_effect [OF P(1-7) assms(5)])
  then have gr: "grows h k" by (simp add: pids_effect_def)
  have sub: "set (ins g ! j) \<subseteq> set (ins l ! j)" if "j < length (events g)" for j
    using growsD(12) [OF gr, of j] assms(10) [OF that] that S by auto
  note mono = edge_rel_mono [OF assms(7) sub]
  have w: "w \<noteq> eid" "visible g ?a ?p (vc_get (rvc g eid) ?p) w"
    "\<And>v. visible g ?a ?p (vc_get (rvc g eid) ?p) v \<Longrightarrow> v \<noteq> eid \<Longrightarrow> ev_index (ev g v) \<le> ev_index (ev g w)"
    using assms(9) by (auto simp: last_vis_def visible_def assms(7,8))
  have wl: "w < length (events g)" using w(2) by (simp add: visible_def)
  have old: "rules_at l n eid w" if "ev_index (ev g w) \<le> vc_get (vclk g eid) ?p"
  proof -
    have "last_vis g eid w"
      using w that P(4) by (auto simp: last_vis_def visible_def vc_leq_iff intro: order_trans)
    then show ?thesis using rules_at_mono [OF assms(7) mono(1) assms(6)] by blast
  qed
  show ?thesis
  proof (cases "ev_index (ev g w) \<le> vc_get (vclk g eid) ?p")
    case new: False
    have nz: "vc_get (rvc g eid) ?p \<noteq> 0" "vc_get (vclk g eid) ?p \<noteq> vc_get (rvc g eid) ?p"
      using w(2) new by (auto simp: visible_def)
    note r = vc_in_range_visible [OF P(3) nz(1)]
    have lv: "last_visible_write h eid ?a ?p (vc_get (rvc g eid) ?p) = Some w"
    proof (cases "last_visible_write h eid ?a ?p (vc_get (rvc g eid) ?p)")
      case None
      then show ?thesis using last_visible_write_spec(2) [OF P(1) r None, of w] w(1,2) by (simp add: visible_def E)
    next
      case (Some v)
      note L = last_visible_write_spec(1) [OF P(1) r Some]
      then have v: "visible g ?a ?p (vc_get (rvc g eid) ?p) v" "v \<noteq> eid" "ev_index (ev g w) \<le> ev_index (ev g v)"
        using w(1,2) by (simp_all add: visible_def E)
      have vw: "v < length (events g)" "ev_pid (ev g v) = ?p" using v(1) by (simp_all add: visible_def)
      have "v = w" using same_process_order(2) [OF G(1) vw(1) wl vw(2)] v(3) w(3) [OF v(1,2)] by linarith
      then show ?thesis using Some by simp
    qed
    have p: "?p \<in> set [0..<length (rvc g eid)]"
    proof (rule ccontr)
      assume "\<not> ?thesis"
      then show False using nz(1) by (simp add: vc_get_def)
    qed
    have "(is_store (ev g eid) \<longrightarrow> set (readers (ev h w)) - {eid} \<subseteq> set (ins k ! eid)) \<and>
      (is_load (ev g eid) \<longrightarrow> (\<exists>rf. read_from (ev g eid) = Some rf \<and> (w = rf \<or> (w, rf) \<in> set es)))"
      by (rule saturate_pids_rules [OF P(1-6) _ p nz(2) lv _ _ assms(5)]) (use wl new E in simp_all)
    moreover have "hb l r eid" if "r \<in> set (ins k ! eid)" for r
      using assms(10) [of eid] that W(3) assms(7) by (intro edge_hb) simp_all
    moreover have "hb l w rf" if "(w, rf) \<in> set es" for rf
    proof -
      have "rf < length (events g)" using eff that E by (auto simp: pids_effect_def)
      then show ?thesis using assms(7,10) that by (intro edge_hb) simp_all
    qed
    ultimately show ?thesis by (auto simp: rules_at_def assms(7) E)
  qed (rule old)
qed

lemma closed_upto_same:
  "same_graph g h \<Longrightarrow> closed_upto n h = closed_upto n g"
  by (simp add: closed_upto_def last_vis_def visible_def rules_at_def sg_edge_rel_def preds_def same_graph_def)

lemma update_edges:
  assumes "sg_inv g" "\<not> wq_empty g" "wq_pop g = (eid, h)"
    and "(if is_load (ev g eid) \<or> is_store (ev g eid) then
          saturate_pids eid (ev g eid) (vclk g eid) (rvc g eid) [0..<length (rvc g eid)] (h, [], False)
        else Inr (h, [], False)) = Inr (k, es, new_in)"
    and "l = (let g2 = add_successors_to_wq eid (ev g eid) k;
                g3 = g2\<lparr>vclocks := (vclocks g2)[eid := rvc g eid]\<rparr>;
                g4 = (if new_in then wq_add_first eid g3 else g3)
            in add_edges es g4)"
  shows "events l = events g" "vclocks l = (vclocks g)[eid := rvc g eid]" "saturated_until l = saturated_until g"
    and "j < length (events g) \<Longrightarrow> set (ins l ! j) = set (ins k ! j) \<union> {f. (f, j) \<in> set es}"
    and "j < length (events g) \<Longrightarrow> set (ins g ! j) \<subseteq> set (ins l ! j)"
proof -
  note P = popped_ok [OF assms(1-3)]
  note S = wq_pop_spec(1) [OF sg_invD(3) [OF assms(1)] assms(2,3), unfolded same_graph_def]
  have eff: "pids_effect eid h (k, es, new_in)"
    using assms(4) P(7) saturate_pids_effect [OF P(1-5,6,7)] by (auto split: if_splits)
  then have gr: "grows h k" by (simp add: pids_effect_def)
  note F = finish_updated [OF P(1,2,5,6) eff refl refl refl, where vc = "rvc g eid", folded assms(5) [unfolded Let_def]]
  show "events l = events g" "vclocks l = (vclocks g)[eid := rvc g eid]"
    using F(1) S by (simp_all add: updated_def)
  show "saturated_until l = saturated_until g"
    using growsD(8) [OF gr] S by (simp add: assms(5) Let_def graph_frame add_successors_to_wq_def)
  show ins: "set (ins l ! j) = set (ins k ! j) \<union> {f. (f, j) \<in> set es}" if "j < length (events g)" for j
    using F(2) [of j] that S by simp
  show "set (ins g ! j) \<subseteq> set (ins l ! j)" if "j < length (events g)" for j
    using growsD(12) [OF gr, of j] ins [OF that] that S by auto
qed

lemma saturate_one_edges:
  assumes "sg_inv g" "\<not> wq_empty g" "saturate_one g = Inr g'"
  shows "events g' = events g \<and> (\<forall>j < length (events g). set (ins g ! j) \<subseteq> set (ins g' ! j))"
  using assms(1,2)
proof (cases rule: saturate_one_cases)
  case (same eid h)
  then show ?thesis
    using wq_pop_spec(1) [OF sg_invD(3) [OF assms(1)] assms(2) same(1)] assms(3) by (simp add: same_graph_def)
next
  case (update eid h k es new_in l)
  then show ?thesis using update_edges(1,5) [OF assms(1,2) update(1,5,6)] assms(3) by simp
qed (use assms(3) in auto)

lemma saturate_one_closed:
  assumes "sg_inv g" "\<not> wq_empty g" "closed_upto n g" "n = length (events g)" "saturate_one g = Inr g'"
  shows "closed_upto n g' \<and> length (events g') = n \<and> saturated_until g' = saturated_until g"
  using assms(1,2)
proof (cases rule: saturate_one_cases)
  case (same eid h)
  note W = wq_pop_spec [OF sg_invD(3) [OF assms(1)] assms(2) same(1)]
  then show ?thesis using closed_upto_same [OF W(1)] same(5) assms(3-5) by (simp add: same_graph_def)
next
  case (update eid h k es new_in l)
  note G = sg_invD [OF assms(1)] and P = popped_ok [OF assms(1,2) update(1)]
  note W = wq_pop_spec [OF G(3) assms(2) update(1)]
  note E = update_edges(1,2) [OF assms(1,2) update(1,5,6)] and ins = update_edges(4) [OF assms(1,2) update(1,5,6)]
    and sub = update_edges(5) [OF assms(1,2) update(1,5,6)]
  note mono = edge_rel_mono [OF E(1) sub]
  have "w < n \<and> rules_at l n e w"
    if e: "e < length (events l)" "last_vis l e w" "is_load (ev l e) \<or> is_store (ev l e)" for e w
  proof
    show "w < n" using e(2) E(1) assms(4) by (simp add: last_vis_def visible_def)
    have len: "length (vclocks g) = length (events g)" using clocks_okD(1) [OF G(4)] .
    show "rules_at l n e w"
    proof (cases "e = eid")
      case True
      have "rules_at g n eid v" if "last_vis g eid v" for v
        using that e(3) W(3) assms(3) E(1) True by (simp add: closed_upto_def)
      then show ?thesis
        using update_rules [OF assms(1) update(1) assms(2) _ _ _ E(1) _ _ ins, where b = new_in and n = n and w = w] update(5) e(2,3) E W(3)
          len True by simp
    next
      case False
      then have "last_vis g e w" using last_vis_cong [of l g e w] e(2) E by simp
      then have "rules_at g n e w" using assms(3) e E(1) by (simp add: closed_upto_def)
      then show ?thesis using rules_at_mono [OF E(1) mono(1)] by blast
    qed
  qed
  moreover have "saturated_until l = saturated_until g" by (rule update_edges(3) [OF assms(1,2) update(1,5,6)])
  ultimately show ?thesis using update(7) assms(4,5) E(1) by (simp add: closed_upto_def)
qed (use assms(5) in auto)

text \<open>The loop never removes an edge.\<close>

lemma saturate_loop_ins:
  assumes "sg_inv g" "saturate_loop g = Some (Done True h)"
  shows "\<forall>j < length (events g). set (ins g ! j) \<subseteq> set (ins h ! j)"
  using assms
proof (induction rule: saturate_loop_induct)
  case (step g k)
  have k: "saturate_loop k = Some (Done True h)" using step saturate_loop_unfold(3) [OF step(1-3)] by simp
  from saturate_one_edges [OF step(1,2,3)] step.IH [OF k] show ?case by fastforce
qed (auto simp: saturate_loop_unfold)

lemma saturate_loop_closed:
  assumes "sg_inv g" "closed_upto (length (events g)) g" "saturate_loop g = Some (Done True h)"
  shows "closed_upto (length (events g)) h \<and> length (events h) = length (events g) \<and>
    saturated_until h = saturated_until g"
  using assms
proof (induction rule: saturate_loop_induct)
  case (empty g)
  have "same_graph g (g\<lparr>wq_set := []\<rparr>)" by (simp add: same_graph_def)
  from closed_upto_same [OF this] empty show ?case by (auto simp: saturate_loop_unfold)
next
  case (step g k)
  have k: "saturate_loop k = Some (Done True h)" using step saturate_loop_unfold(3) [OF step(1-3)] by simp
  from saturate_one_closed [OF step(1,2) step.prems(1) refl step(3)] step.IH [OF _ k] show ?case by fastforce
qed (simp add: saturate_loop_unfold)

section \<open>Reverse saturation\<close>

lemma first_visible_write_least:
  assumes "sg_static g" "fv < length (events g)" "p = ev_pid (ev g fv)" "e < length (events g)" "ev_pid (ev g e) = p"
    and "is_store (ev g e)" "addr (ev g e) = a" "e \<noteq> eid" "ev_index (ev g fv) \<le> ev_index (ev g e)"
  shows "\<exists>w. first_visible_write g eid a p fv = Some w \<and> ev_index (ev g w) \<le> ev_index (ev g e)"
proof -
  let ?ws = "(writes_by_process_and_address g ! p) a"
  define k where "k = lower_bound ?ws fv"
  have p: "p < length (events_by_pid g)" using place_okD(1) [OF sg_staticD(2) [OF assms(1,2)]] assms(3) by simp
  note P = sg_staticD(3) [OF assms(1) p]
  have asc: "ascending ?ws" using process_okD(1) [OF P] by (simp add: process_okD(5) [OF P] sorted_wrt_filter)
  have mem: "w \<in> set ?ws \<longleftrightarrow> w < length (events g) \<and> ev_pid (ev g w) = p \<and> is_store (ev g w) \<and> addr (ev g w) = a" for w
    using process_member [OF assms(1) p] by (auto simp: process_okD(5) [OF P])
  then obtain m where m: "m < length ?ws" "?ws ! m = e" using assms(4-7) by (metis in_set_conv_nth)
  have "\<not> e < fv" using same_process_order(1) [OF assms(1,4,2)] assms(3,5,9) by simp
  have km: "k \<le> m"
  proof (rule ccontr)
    assume "\<not> k \<le> m"
    then have "m < length (takeWhile (\<lambda>y. y < fv) ?ws)" by (simp add: k_def lower_bound_def)
    then have "?ws ! m < fv" using set_takeWhileD [of "?ws ! m" "\<lambda>y. y < fv" ?ws] takeWhile_nth nth_mem by metis
    then show False using \<open>\<not> e < fv\<close> m(2) by simp
  qed
  have le: "ev_index (ev g (?ws ! l)) \<le> ev_index (ev g e)" if "l \<le> m" for l
  proof (cases "l = m")
    case False
    then have "?ws ! l < e" "?ws ! l \<in> set ?ws" using ascending_nth_less [OF asc, of l m] m that by auto
    then show ?thesis using same_process_order(1) [OF assms(1) _ assms(4), of "?ws ! l"] mem assms(5) by auto
  qed (simp add: m(2))
  show ?thesis
  proof (cases "?ws ! k = eid")
    case True
    then have "k + 1 \<le> m" using km m(2) assms(8) by (cases "k = m") auto
    then show ?thesis using True m(1) le [of "k + 1"] by (simp add: first_visible_write_def Let_def flip: k_def)
  next
    case False
    then show ?thesis using km m(1) le [of k] by (simp add: first_visible_write_def Let_def flip: k_def)
  qed
qed

lemma reverse_pids_complete:
  assumes "sg_static g" "grows g g" "\<forall>r \<in> set new_out. r < length (events g)"
    and "\<forall>p \<in> set ps. p < length (events_by_pid g)" "reverse_pids eid a bc new_out ps g = Some h"
    and "e < length (events g)" "is_store (ev g e)" "addr (ev g e) = a" "e \<noteq> eid" "ev_pid (ev g e) \<in> set ps"
    and "cv_get bc eid (ev_pid (ev g e)) \<le> ev_index (ev g e)" "r \<in> set new_out"
  shows "hb h r e"
  using assms
proof (induction ps arbitrary: g)
  case (Cons p ps)
  note pr = Cons.prems
  have p: "p < length (events_by_pid g)" "\<forall>p \<in> set ps. p < length (events_by_pid g)" using pr(4) by auto
  show ?case
  proof (cases "ev_pid (ev g e) \<in> set ps")
    case True
    from pr(5) show ?thesis
    proof (cases rule: reverse_pids_cons)
      case skip
      then show ?thesis using Cons.IH [OF pr(1-3) p(2) _ pr(6-9) True pr(11,12)] by simp
    next
      case 2: (found fv w)
      note M = maybe_get_process_event_spec [OF pr(1) p(1) 2(1)]
      note A = add_missed_from_reads_spec [OF pr(2) first_visible_write_spec(1) [OF pr(1) M(1,2) 2(2)] pr(3) refl]
      then have gr: "grows g (add_missed_from_reads new_out w g)" by (simp add: added_def)
      show ?thesis
        by (rule Cons.IH [OF _ grows_self [OF gr] _ _ 2(3)])
          (use pr(1,3,6-9,11,12) p(2) True sg_static_grows [OF gr] growsD(1,3) [OF gr] in auto)
    qed
  next
    case False
    then have q: "p = ev_pid (ev g e)" using pr(10) by simp
    note Q = place_okD [OF sg_staticD(2) [OF pr(1,6)]]
    have "cv_get bc eid p \<noteq> 0" "cv_get bc eid p \<le> length (events_by_pid g ! p)"
      using pr(5,11) Q(3) q by (auto simp: maybe_get_process_event_def split: if_splits)
    then obtain fv where fv: "maybe_get_process_event g p (cv_get bc eid p) = Some (Some fv)"
      using p(1) by (simp add: maybe_get_process_event_def)
    note M = maybe_get_process_event_spec [OF pr(1) p(1) fv]
    obtain w where w: "first_visible_write g eid a p fv = Some w" "ev_index (ev g w) \<le> ev_index (ev g e)"
      using first_visible_write_least [OF pr(1) M(1,2) pr(6) q [symmetric] pr(7-9)] M(3) pr(11) q by auto
    note F = first_visible_write_spec [OF pr(1) M(1,2) w(1)]
    let ?k = "add_missed_from_reads new_out w g"
    note A = add_missed_from_reads_spec [OF pr(2) F(1) pr(3) refl]
    then have gr: "grows g ?k" by (simp add: added_def)
    note D = growsD(1,3) [OF gr]
    have st: "sg_static ?k" using pr(1) sg_static_grows [OF gr] by simp
    have rest: "reverse_pids eid a bc new_out ps ?k = Some h" using pr(5) fv w(1) by (simp add: Let_def split: if_splits)
    have "added ?k h"
      by (rule reverse_pids_added [OF st grows_self [OF gr] _ _ rest]) (use pr(3) p(2) D in auto)
    then have gk: "grows ?k h" by (simp add: added_def)
    have "hb ?k r w"
    proof (cases "r = w")
      case False
      then have "r \<in> set (ins ?k ! w)" using A F(1) pr(12) by simp
      then show ?thesis using F(1) D(1) by (intro edge_hb) simp_all
    qed simp
    moreover have "hb ?k w e" by (rule program_order_hb [OF st]) (use F q w(2) pr(6) D in simp_all)
    ultimately show ?thesis using grows_edge_rel(2) [OF gk] rtrancl_trans by metis
  qed
qed simp

text \<open>The clock of \<open>i\<close> covers the events that come after \<open>i\<close>.\<close>

definition below_covers :: "('x, 'a) sgraph \<Rightarrow> vclock_vec \<Rightarrow> nat \<Rightarrow> bool" where
  "below_covers g bc i \<longleftrightarrow> (\<forall>j < length (events g). hb g i j \<longrightarrow> cv_get bc i (ev_pid (ev g j)) \<le> ev_index (ev g j))"

lemma below_clock_covers:
  assumes "sg_static g" "edges_ok (events g) (ins g) (outs g)" "eid < length (events g)"
    and "cv_ok bc (length (events g))" "cv_clock_size bc = length (events_by_pid g)"
    and "\<forall>s \<in> set (successors g eid). s < length (events g) \<and> s \<noteq> eid"
    and "bc' = below_clock g (top_clock g) eid bc" "events g0 = events g" "sg_edge_rel g0 \<subseteq> sg_edge_rel g"
  shows "\<forall>s \<in> set (successors g eid). below_covers g0 bc s \<Longrightarrow> below_covers g0 bc' eid"
    and "i \<noteq> eid \<Longrightarrow> below_covers g0 bc i \<Longrightarrow> below_covers g0 bc' i"
proof -
  have pl: "ev_pid (ev g j) < length (events_by_pid g)" if "j < length (events g)" for j
    using place_okD(1) [OF sg_staticD(2) [OF assms(1) that]] .
  note F = below_clock_get [OF assms(1,6,3-5,7)]
  show "i \<noteq> eid \<Longrightarrow> below_covers g0 bc i \<Longrightarrow> below_covers g0 bc' i"
    using F(2) pl by (simp add: below_covers_def assms(8))
  assume s: "\<forall>s \<in> set (successors g eid). below_covers g0 bc s"
  show "below_covers g0 bc' eid"
    unfolding below_covers_def
  proof (intro allI impI)
    fix j assume "j < length (events g0)" and h: "hb g0 eid j"
    then have j: "j < length (events g)" by (simp add: assms(8))
    note B = F(3) [OF pl [OF j], THEN iffD1, OF order_refl]
    from h show "cv_get bc' eid (ev_pid (ev g0 j)) \<le> ev_index (ev g0 j)"
    proof (cases rule: converse_rtranclE)
      case base
      then show ?thesis using B by (simp add: assms(8))
    next
      case (step k)
      then have k: "k \<in> set (successors g eid)" using edge_successor [OF assms(1,2)] assms(9) by blast
      then have "cv_get bc k (ev_pid (ev g j)) \<le> ev_index (ev g j)"
        using s step(2) j by (simp add: below_covers_def assms(8))
      then show ?thesis using B k by (auto simp: assms(8))
    qed
  qed
qed

lemma reverse_loop_complete:
  assumes "sg_static g" "grows g g" "grows g0 g" "\<forall>i \<in> set ids \<union> D. i < length (events g)"
    and "cv_ok bc (length (events g))" "cv_clock_size bc = length (events_by_pid g)" "\<forall>i \<in> D. below_covers g0 bc i"
    and "ordered_after g D ids" "distinct ids" "D \<inter> set ids = {}" "top_vc = top_clock g"
    and "reverse_loop top_vc ids bc g = Some h" "w \<in> set ids" "is_store (ev g w)" "r \<in> set (readers (ev g w))"
    and "saturated_until g \<le> r" "e < length (events g)" "is_store (ev g e)" "addr (ev g e) = addr (ev g w)" "e \<noteq> w"
    and "hb g0 w e"
  shows "hb h r e"
  using assms
proof (induction ids arbitrary: g bc D)
  case (Cons eid ids)
  note pr = Cons.prems
  let ?bc = "below_clock g top_vc eid bc" and ?rs = "filter (\<lambda>r. r \<ge> saturated_until g) (readers (ev g eid))"
  have eid: "eid < length (events g)" and sD: "set (successors g eid) \<subseteq> D" using pr(4,8) by simp_all
  have s: "\<forall>s \<in> set (successors g eid). s < length (events g) \<and> s \<noteq> eid" using sD pr(4,10) by auto
  note D0 = growsD(1) [OF pr(3)] grows_edge_rel(1) [OF pr(3)]
  note B = below_clock_covers [OF pr(1) growsD(9) [OF pr(2)] eid pr(5,6) s _ D0(1) [symmetric] D0(2), of ?bc,
      unfolded pr(11), OF refl]
  have D': "\<forall>i \<in> insert eid D. below_covers g0 ?bc i" using B sD pr(7,11) by (metis insert_iff subsetD)
  have cs: "cv_clock_size ?bc = length (events_by_pid g)" using pr(6) by (simp add: below_clock_size)
  have cok: "cv_ok ?bc (length (events g))"
    using below_clock_get(1) [OF pr(1) s eid pr(5,6) refl, of "ev_pid (ev g eid)"] pr(11)
      place_okD(1) [OF sg_staticD(2) [OF pr(1) eid]] by simp
  let ?step = "if is_store (ev g eid) \<and> ?rs \<noteq> []
        then reverse_pids eid (addr (ev g eid)) ?bc ?rs [0..<cv_clock_size ?bc] g else Some g"
  obtain k where k: "?step = Some k" "reverse_loop top_vc ids ?bc k = Some h"
    using pr(12) by (auto simp: Let_def split: if_splits option.splits)
  have rd: "\<forall>r \<in> set ?rs. r < length (events g)" using reads_okD(2) [OF sg_staticD(4) [OF pr(1)] eid] by auto
  have ps: "\<forall>p \<in> set [0..<cv_clock_size ?bc]. p < length (events_by_pid g)" using cs by simp
  have A: "added g k"
    using k(1) reverse_pids_added [OF pr(1,2) rd ps, of eid "addr (ev g eid)" ?bc k] pr(2)
    by (auto simp: added_def split: if_splits)
  then have gr: "grows g k" by (simp add: added_def)
  note E = growsD(1,3,8) [OF gr]
  have st: "sg_static k" using pr(1) sg_static_grows [OF gr] by simp
  show ?case
  proof (cases "w = eid")
    case True
    then have "r \<in> set ?rs" using pr(15,16) by simp
    moreover have "reverse_pids eid (addr (ev g eid)) ?bc ?rs [0..<cv_clock_size ?bc] g = Some k"
      using k(1) pr(14) True calculation by (auto simp: filter_empty_conv split: if_splits)
    moreover have "cv_get ?bc eid (ev_pid (ev g e)) \<le> ev_index (ev g e)"
      using D' pr(17,21) True D0(1) by (simp add: below_covers_def)
    ultimately have "hb k r e"
      using reverse_pids_complete [OF pr(1,2) rd ps, of eid "addr (ev g eid)" ?bc k e r] pr(17-20) True
        place_okD(1) [OF sg_staticD(2) [OF pr(1,17)]] cs by simp
    moreover have "added k h"
      by (rule reverse_loop_added [OF st added_self [OF A] _ _ k(2)]) (use pr(4) cs E in auto)
    ultimately show ?thesis using grows_edge_rel(2) [of k h] by (simp add: added_def)
  next
    case False
    have outs: "\<forall>i < length (events g). i \<notin> set ?rs \<longrightarrow> outs k ! i = outs g ! i"
      using k(1) reverse_pids_outs [OF pr(1,2) rd ps, of eid "addr (ev g eid)" ?bc k] by (auto split: if_splits)
    have succ: "successors k i = successors g i" if "i \<in> set ids" for i
    proof -
      have "i \<notin> set ?rs" using that pr(10) sD by (auto simp: successors_def Let_def)
      then show ?thesis using outs that pr(4) E by (simp add: successors_def po_successor_def)
    qed
    show ?thesis
    proof (rule Cons.IH [OF st added_self [OF A] grows_trans [OF pr(3) gr], where D = "insert eid D", OF _ _ _ D' _ _ _ _ k(2)])
      show "ordered_after k (insert eid D) ids" using ordered_after_cong [of ids k g] succ pr(8) by auto
      show "top_vc = top_clock k" using pr(11) by (simp add: top_clock_def E)
    qed (use pr cok cs E False in auto)
  qed
qed simp

lemma closed_upto_until: "closed_upto n (g\<lparr>saturated_until := m\<rparr>) = closed_upto n g"
  by (simp add: closed_upto_def last_vis_def visible_def rules_at_def sg_edge_rel_def preds_def)

lemma edge_rel_until: "sg_edge_rel (g\<lparr>saturated_until := m\<rparr>) = sg_edge_rel g"
  by (simp add: sg_edge_rel_def preds_def)

lemma reverse_saturate_closed:
  assumes "sg_inv g" "acyclic (sg_edge_rel g)" "sg_closed g" "reverse_saturate g = Some h"
  shows "closed_upto (length (events h)) h"
proof -
  note G = sg_invD [OF assms(1)]
  obtain k where k: "added g k" "h = k\<lparr>saturated_until := length (events k)\<rparr>"
    using reverse_saturate_added [OF assms(1,4)] .
  then have gr: "grows g k" by (simp add: added_def)
  note D = growsD(1,2) [OF gr]
  obtain pos where "edges_forward g pos" using acyclic_positions [OF assms(1,2)] by blast
  note sf = succs_forward_execution [OF G(1,2) this]
  note R = reverse_care_post_order [OF sf]
  let ?ids = "snd (reverse_care_set g)" and ?bc = "cv_new (length (events_by_pid g)) (length (events g))"
  have missed: "hb k r e"
    if e: "e < length (events g)" "last_vis g e w" "is_store (ev g e)" "w < saturated_until g"
      and r: "r \<in> set (readers (ev g w))" "saturated_until g \<le> r" for e w r
  proof -
    have w: "w < length (events g)" "is_store (ev g w)" "addr (ev g w) = addr (ev g e)" "w \<noteq> e"
      "ev_index (ev g w) \<le> vc_get (vclk g e) (ev_pid (ev g w))"
      using e(2) by (auto simp: last_vis_def visible_def)
    have rl: "r < length (events g)" "read_from (ev g r) = Some w"
      using reads_okD(2) [OF sg_staticD(4) [OF G(1)] w(1) r(1)] by simp_all
    then have "is_load (ev g r)" using reads_okD(1) [OF sg_staticD(4) [OF G(1)] rl] by simp
    then have wi: "w \<in> set ?ids" using R rl r(2) e(4) w(1) by blast
    then obtain z where lp: "reverse_loop (top_clock g) ?ids ?bc g = Some z"
        "z\<lparr>saturated_until := length (events z)\<rparr> = k\<lparr>saturated_until := length (events k)\<rparr>"
      using assms(4) e(4) r(2) rl(1) k(2) by (auto simp: reverse_saturate_def Let_def split: if_splits)
    then have zk: "sg_edge_rel z = sg_edge_rel k" by (metis edge_rel_until)
    have ids: "\<forall>i \<in> set ?ids. i < length (events g)" using reverse_care_less by blast
    have "hb g w e" by (rule clock_path [OF assms(1,2) e(1) w(1,5)])
    note pre = lp(1) wi w(2) r(1,2) e(1,3) w(3) [symmetric] w(4) [symmetric] this
    have "ordered_after g {} ?ids" using R ordered_after_post_ordered [of g "[]" ?ids] by simp
    moreover have "cv_ok ?bc (length (events g))" "cv_clock_size ?bc = length (events_by_pid g)"
      by (simp_all add: cv_ok_def cv_new_def mult.commute)
    moreover have "distinct ?ids" using R by blast
    ultimately have "hb z r e"
      using reverse_loop_complete [OF G(1) grows_refl [OF G(2,3)] grows_refl [OF G(2,3)] _ _ _ _ _ _ _ refl pre,
            where D = "{}"] ids by simp
    then show ?thesis by (simp add: zk)
  qed
  have "w < length (events k) \<and> rules_at k (length (events k)) e w"
    if e: "e < length (events k)" "last_vis k e w" "is_load (ev k e) \<or> is_store (ev k e)" for e w
  proof -
    have lv: "last_vis g e w" using e(2) last_vis_cong [of k g] D by simp
    then have c: "w < saturated_until g" "rules_at g (saturated_until g) e w" "saturated_until g \<le> length (events g)"
      using assms(3) e D by (auto simp: sg_closed_def closed_upto_def)
    have "rules_at k (saturated_until g) e w" by (rule rules_at_mono [OF D(1) grows_edge_rel(1) [OF gr] c(2)])
    moreover have "hb k r e" if "is_store (ev g e)" "r \<in> set (readers (ev g w))" "saturated_until g \<le> r" for r
      using missed [OF _ lv that(1) c(1) that(2,3)] e(1) D by simp
    ultimately have "rules_at k (length (events k)) e w" unfolding rules_at_def D by (metis leI)
    then show ?thesis using c(1,3) D by simp
  qed
  then have "closed_upto (length (events k)) k" by (simp add: closed_upto_def)
  then show ?thesis by (simp add: k(2) closed_upto_until)
qed

lemma saturate_closed:
  assumes "sg_inv g" "sg_closed g" "saturate g = Some (Done True h)"
  shows "sg_closed h \<and> saturated_until h = length (events h) \<and> (\<forall>j < length (events g). set (ins g ! j) \<subseteq> set (ins h ! j))"
proof -
  obtain k where k: "reverse_saturate g = Some k" "saturate_loop k = Some (Done True h)"
    using saturate_accepts [OF assms(1,3)] by blast
  note ki = reverse_saturate_inv [OF assms(1) k(1)]
  obtain l where l: "added g l" "k = l\<lparr>saturated_until := length (events l)\<rparr>"
    using reverse_saturate_added [OF assms(1) k(1)] .
  then have gr: "grows g l" by (simp add: added_def)
  have gk: "events k = events g" "\<forall>j < length (events g). set (ins g ! j) \<subseteq> set (ins k ! j)"
    using growsD(1,12) [OF gr] l(2) by simp_all
  note H = saturate_accepted [OF assms(1,3)]
  have gh: "events h = events g" using saturate_indices [OF assms(1,3)] by (simp add: sg_indices_def)
  have kh: "\<forall>j < length (events k). set (ins k ! j) \<subseteq> set (ins h ! j)"
    by (rule saturate_loop_ins [OF ki k(2)])
  then have sub: "\<forall>j < length (events g). set (ins g ! j) \<subseteq> set (ins h ! j)" using gk by fastforce
  then have "sg_edge_rel g \<subseteq> sg_edge_rel h" using edge_rel_mono(1) [OF gh] by blast
  then have "acyclic (sg_edge_rel g)" using saturated_acyclic [OF H] acyclic_subset by blast
  note C = reverse_saturate_closed [OF assms(1) this assms(2) k(1)]
  have "saturated_until k = length (events h)" "length (events k) = length (events h)"
    using l(2) gk(1) gh by simp_all
  then show ?thesis using saturate_loop_closed [OF ki C k(2)] sub unfolding sg_closed_def by (metis order_refl)
qed

section \<open>Adding events and edges\<close>

lemma saturated_until_init_reads [graph_frame]: "saturated_until (add_init_reads eid ws g) = saturated_until g"
  by (induction eid ws g rule: add_init_reads.induct) (simp_all add: graph_frame)

lemma saturated_until_init_readers [graph_frame]: "saturated_until (add_init_readers eid rs g) = saturated_until g"
  by (induction eid rs g rule: add_init_readers.induct) simp_all

lemma saturated_until_outs [graph_frame]: "saturated_until (add_outs eid is g) = saturated_until g"
  by (induction eid "is" g rule: add_outs.induct) simp_all

lemma saturated_until_parts [graph_frame]:
  "saturated_until (event_reads trav eid ld a rf g) = saturated_until g"
  "saturated_until (event_writes pid eid st a g) = saturated_until g"
  "saturated_until (snd (snd (event_program_order pid eid g))) = saturated_until g"
  by (simp_all add: event_reads_def event_writes_def event_program_order_def Let_def graph_frame split: option.split)

lemma saturated_until_add_event:
  assumes "add_event trav pid x kind a rfx orig_in g = Some h"
  shows "saturated_until h = saturated_until g"
proof -
  obtain po index g2 where po: "event_program_order pid (length (events g))
      (g\<lparr>extid_to_id := (extid_to_id g)(x \<mapsto> length (events g))\<rparr>) = (po, index, g2)" by (metis prod_cases3)
  then have "saturated_until g2 = saturated_until g"
    using saturated_until_parts(3) [of pid "length (events g)" "g\<lparr>extid_to_id := (extid_to_id g)(x \<mapsto> length (events g))\<rparr>"] by simp
  then show ?thesis
    using assms unfolding add_event_def Let_def po prod.case
    by (auto simp: graph_frame split: option.splits if_splits)
qed

lemma event_added_edge_rel:
  assumes "event_added pid x kind a rf before g h"
  shows "sg_edge_rel g \<subseteq> sg_edge_rel h" "hb g i j \<Longrightarrow> hb h i j"
proof -
  note D = event_addedD [OF assms] and E = event_added_events [OF assms]
  show "sg_edge_rel g \<subseteq> sg_edge_rel h"
  proof
    fix p assume "p \<in> sg_edge_rel g"
    then obtain i j where p: "p = (i, j)" "j < length (events g)" "i \<in> preds g j" by (auto simp: sg_edge_rel_def)
    then have "i \<in> preds h j" using D(11) [OF p(2)] by (auto simp: preds_iff E(2) split: if_splits)
    then show "p \<in> sg_edge_rel h" using p E(1) by (simp add: sg_edge_rel_def)
  qed
  then show "hb g i j \<Longrightarrow> hb h i j" using rtrancl_mono by blast
qed

lemma event_added_last_vis:
  assumes "sg_inv g" "event_added pid x kind a rf before g h" "e < length (events h)" "last_vis h e w"
  shows "e < length (events g)" "w < length (events g)" "last_vis g e w"
proof -
  let ?n = "length (events g)"
  note G = sg_invD [OF assms(1)] and D = event_addedD [OF assms(2)] and E = event_added_events [OF assms(2)]
  have len: "length (vclocks g) = ?n" using clocks_okD(1) [OF G(4)] .
  have new: "ev_pid (ev h ?n) = pid" "ev_index (ev h ?n) = Suc (length (process_events g pid))"
    using last_event_spec(1) [OF G(1)] by (simp_all add: E(3)) (simp add: new_event_def)
  have pos: "0 < ev_index (ev h v)" if "v < length (events h)" for v
    using that place_okD(2) [OF sg_staticD(2) [OF G(1), of v]] new(2) by (cases "v = ?n") (simp_all add: E)
  have w: "w < length (events h)" "ev_index (ev h w) \<le> vc_get (vclk h e) (ev_pid (ev h w))"
    using assms(4) by (auto simp: last_vis_def visible_def)
  show e: "e < ?n"
  proof (rule ccontr)
    assume "\<not> e < ?n"
    then have "vclk h e = []" using assms(3) len by (simp add: D(7) E(1) nth_append)
    then show False using w pos [OF w(1)] by (simp add: vc_get_def)
  qed
  have vk: "vclk h e = vclk g e" using e len by (simp add: D(7) nth_append)
  have bnd: "vc_get (vclk g e) p \<le> length (process_events g p)" for p
    using clocks_okD(3) [OF G(4) e, of p] by (auto simp: clock_bound_def nth_or_def split: if_splits)
  have vis: "visible h b p (vc_get (vclk h e) p) v \<longleftrightarrow> visible g b p (vc_get (vclk g e) p) v" for b p v
  proof (cases "v = ?n")
    case True
    then show ?thesis using new bnd [of pid] by (auto simp: visible_def vk)
  next
    case False
    then show ?thesis by (cases "v < ?n") (auto simp: visible_def vk E(1,2))
  qed
  show wn: "w < ?n" using assms(4) by (auto simp: last_vis_def vis) (auto simp: visible_def)
  have idx: "ev_index (ev h v) = ev_index (ev g v)" if "visible g b p c v" for b p c v
    using that E(2) [of v] by (simp add: visible_def)
  show "last_vis g e w"
    using assms(4) wn e unfolding last_vis_def vis by (auto simp: E(2) idx)
qed

lemma event_added_closed:
  assumes "sg_inv g" "event_added pid x kind a rf before g h" "sg_closed g" "saturated_until h = saturated_until g"
  shows "sg_closed h"
proof -
  note E = event_added_events [OF assms(2)]
  have c: "saturated_until g \<le> length (events g)" "closed_upto (saturated_until g) g"
    using assms(3) by (simp_all add: sg_closed_def)
  have "w < saturated_until g \<and> rules_at h (saturated_until g) e w"
    if e: "e < length (events h)" "last_vis h e w" "is_load (ev h e) \<or> is_store (ev h e)" for e w
  proof -
    note L = event_added_last_vis [OF assms(1,2) e(1,2)]
    have r: "w < saturated_until g" "rules_at g (saturated_until g) e w"
      using c(2) L e(3) by (auto simp: closed_upto_def E(2))
    have rd: "r \<in> set (readers (ev g w))" if "r \<in> set (readers (ev h w))" "r < saturated_until g" for r
      using that c(1) L(2) by (auto simp: E(2) readers_read_by split: if_splits)
    have "rules_at h (saturated_until g) e w"
      using r(2) rd event_added_edge_rel(2) [OF assms(2)] L(1) unfolding rules_at_def
      by (auto simp: E(2))
    then show ?thesis using r(1) by simp
  qed
  then show ?thesis using c(1) E(1) by (simp add: sg_closed_def closed_upto_def assms(4))
qed

lemma event_added_init_closed:
  assumes "sg_inv g" "sg_index g" "event_added pid x kind a rf before g h" "init_closed g"
  shows "init_closed h"
proof -
  let ?n = "length (events g)"
  note G = sg_invD [OF assms(1)] and X = sg_indexD [OF assms(2)]
  note D = event_addedD [OF assms(3)] and E = event_added_events [OF assms(3)]
  have c: "r \<in> set (reads_from_init g b) \<Longrightarrow> (p, w) \<in> set (writes_by_address g b) \<Longrightarrow> w \<noteq> r \<Longrightarrow> r \<in> set (ins g ! w)"
    "(p, w) \<in> set (writes_by_address g b) \<Longrightarrow> v < ?n \<Longrightarrow> is_store (ev g v) \<Longrightarrow> addr (ev g v) = b \<Longrightarrow>
      ev_pid (ev g v) = p \<Longrightarrow> ev_index (ev g w) \<le> ev_index (ev g v)" for b r p w v
    using assms(4) unfolding init_closed_def by blast+
  have new: "ev_pid (ev h ?n) = pid" "ev_index (ev h ?n) = Suc (length (process_events g pid))"
    using last_event_spec(1) [OF G(1)] by (simp_all add: E(3)) (simp add: new_event_def)
  have wr: "(p, w) \<in> set (writes_by_address g b) \<or> first_write pid kind a g \<and> b = a \<and> p = pid \<and> w = ?n"
    if "(p, w) \<in> set (writes_by_address h b)" for b p w using that by (auto simp: D(5) split: if_splits)
  have rd: "r \<in> set (reads_from_init g b) \<or> rf = None \<and> loads kind \<and> b = a \<and> r = ?n"
    if "r \<in> set (reads_from_init h b)" for b r using that by (auto simp: D(6) split: if_splits)
  have "r \<in> set (ins h ! w)"
    if "r \<in> set (reads_from_init h b)" "(p, w) \<in> set (writes_by_address h b)" "w \<noteq> r" for b r p w
    using rd [OF that(1)] wr [OF that(2)]
  proof (elim disjE)
    assume "r \<in> set (reads_from_init g b)" and w: "(p, w) \<in> set (writes_by_address g b)"
    then show ?thesis using c(1) that(3) D(11) [of w] X(2) [OF w] by auto
  next
    assume "rf = None \<and> loads kind \<and> b = a \<and> r = ?n" and w: "(p, w) \<in> set (writes_by_address g b)"
    then have "w \<in> init_targets kind a rf g" by (force simp: init_targets_def)
    then show ?thesis using D(11) [of w] X(2) [OF w] \<open>rf = None \<and> _\<close> by simp
  qed (use that(3) D(10) in auto)
  moreover have "ev_index (ev h w) \<le> ev_index (ev h v)"
    if w: "(p, w) \<in> set (writes_by_address h b)"
      and v: "v < Suc ?n" "is_store (ev h v)" "addr (ev h v) = b" "ev_pid (ev h v) = p" for b p w v
    using wr [OF w]
  proof
    assume w: "(p, w) \<in> set (writes_by_address g b)"
    note W = X(2) [OF w]
    show ?thesis
    proof (cases "v = ?n")
      case True
      have "ev_index (ev g w) \<le> length (events_by_pid g ! p)" "p < length (events_by_pid g)"
        using place_okD(1,3) [OF sg_staticD(2) [OF G(1), of w]] W by auto
      then show ?thesis using True v(4) new W by (simp add: E(2))
    qed (use v c(2) [OF w, of v] W in \<open>simp add: E(2)\<close>)
  next
    assume n: "first_write pid kind a g \<and> b = a \<and> p = pid \<and> w = ?n"
    show ?thesis
    proof (cases "v = ?n")
      case False
      then have "v < ?n" using v(1) by simp
      then have "pid \<in> fst ` set (writes_by_address g a)" using X(3) [of v a] v n by (simp add: E(2))
      then show ?thesis using n by (simp add: first_write_def)
    qed (use n in simp)
  qed
  ultimately show ?thesis unfolding init_closed_def E(1) by blast
qed

lemma init_closed_mono:
  assumes "sg_index g" "sg_indices h = sg_indices g" "\<forall>j < length (events g). set (ins g ! j) \<subseteq> set (ins h ! j)"
    and "init_closed g"
  shows "init_closed h"
proof -
  have E: "events h = events g" "writes_by_address h = writes_by_address g" "reads_from_init h = reads_from_init g"
    using assms(2) by (simp_all add: sg_indices_def)
  have "r \<in> set (ins h ! w)"
    if "r \<in> set (reads_from_init g a)" "(p, w) \<in> set (writes_by_address g a)" "w \<noteq> r" for a r p w
  proof -
    have "r \<in> set (ins g ! w)" using that assms(4) unfolding init_closed_def by blast
    then show ?thesis using assms(3) sg_indexD(2) [OF assms(1) that(2)] by blast
  qed
  then show ?thesis using assms(4) unfolding init_closed_def E by blast
qed

lemma sg_run_closed: "sg_run trav lt g \<Longrightarrow> sg_closed g \<and> init_closed g"
proof (induction rule: sg_run.induct)
  case start
  show ?case by (simp add: sg_closed_def closed_upto_def init_closed_def sg_empty_def)
next
  case (event g x kind a rfx pid orig_in h n)
  note I = sg_run_keeps [OF event(1), THEN conjunct1] sg_run_keeps [OF event(1), THEN conjunct2]
  obtain rf before where A: "event_added pid x kind a rf before g h"
    using add_event_effect [OF I event(2,3)] by metis
  show ?case
    using event_added_closed [OF I(1) A] event_added_init_closed [OF I A] event.IH
      saturated_until_add_event [OF event(3)] by blast
next
  case (edge g x y h i j)
  note I = sg_run_keeps [OF edge(1), THEN conjunct1] sg_run_keeps [OF edge(1), THEN conjunct2]
  obtain i j where h: "h = add_edge_internal i j g" "added g h" by (rule add_edge_effect [OF I edge(2)])
  then have gr: "grows g h" by (simp add: added_def)
  note D = growsD(1,2,8) [OF gr]
  have "closed_upto (saturated_until g) h"
    using edge.IH last_vis_cong [of h g] rules_at_mono [OF D(1) grows_edge_rel(1) [OF gr]]
    unfolding sg_closed_def closed_upto_def D by blast
  moreover have "init_closed h"
    using init_closed_mono [OF I(2)] edge.IH growsD(12) [OF gr] h(1) by (simp add: graph_frame)
  ultimately show ?case using edge.IH D by (simp add: sg_closed_def)
next
  case (saturated g h)
  note I = sg_run_keeps [OF saturated(1), THEN conjunct1] sg_run_keeps [OF saturated(1), THEN conjunct2]
  show ?case
    using saturate_closed [OF I(1) _ saturated(2)] saturated.IH saturate_indices [OF I(1) saturated(2)]
      init_closed_mono [OF I(2)] by blast
qed

section \<open>The closure of a saturated graph\<close>

text \<open>The last write of the process of \<open>w\<close> that a clock covering \<open>w\<close> covers.\<close>

lemma last_vis_exists:
  assumes "sg_static g" "w < length (events g)" "is_store (ev g w)" "addr (ev g w) = addr (ev g e)" "w \<noteq> e"
    and "ev_index (ev g w) \<le> vc_get (vclk g e) (ev_pid (ev g w))"
  obtains v where "last_vis g e v" "ev_pid (ev g v) = ev_pid (ev g w)" "ev_index (ev g w) \<le> ev_index (ev g v)"
proof -
  let ?p = "ev_pid (ev g w)"
  let ?P = "\<lambda>v. visible g (addr (ev g e)) ?p (vc_get (vclk g e) ?p) v \<and> v \<noteq> e"
  have P: "?P w" using assms by (simp add: visible_def)
  have "\<forall>v. ?P v \<longrightarrow> ev_index (ev g v) \<le> vc_get (vclk g e) ?p" by (simp add: visible_def)
  then obtain v where v: "?P v" "\<forall>u. ?P u \<longrightarrow> ev_index (ev g u) \<le> ev_index (ev g v)"
    using ex_has_greatest_nat [of ?P w "\<lambda>v. ev_index (ev g v)"] P by (metis less_Suc_eq_le)
  then have pid: "ev_pid (ev g v) = ?p" by (simp add: visible_def)
  have "last_vis g e v" using v unfolding last_vis_def pid by blast
  then show ?thesis using that v(2) P pid by blast
qed

lemma saturated_before_read:
  assumes "sg_inv g" "wq_empty g" "sg_closed g" "r < length (events g)" "is_load (ev g r)"
    and "s < length (events g)" "is_store (ev g s)" "addr (ev g s) = addr (ev g r)" "s \<noteq> r" "hb g s r"
  shows "\<exists>w. read_from (ev g r) = Some w \<and> hb g s w"
proof -
  note G = sg_invD [OF assms(1)]
  have "ev_index (ev g s) \<le> vc_get (vclk g r) (ev_pid (ev g s))"
    using saturated_clock_iff [OF assms(1,2,4,6)] assms(10) by simp
  then obtain v where v: "last_vis g r v" "ev_pid (ev g v) = ev_pid (ev g s)" "ev_index (ev g s) \<le> ev_index (ev g v)"
    by (rule last_vis_exists [OF G(1) assms(6-9)])
  then obtain w where "read_from (ev g r) = Some w" "hb g v w"
    using assms(3,4,5) unfolding sg_closed_def closed_upto_def rules_at_def by blast
  moreover have "hb g s v"
    using program_order_hb [OF G(1) assms(6)] v by (simp add: last_vis_def visible_def)
  ultimately show ?thesis by (meson rtrancl_trans)
qed

lemma saturated_after_read:
  assumes "sg_inv g" "wq_empty g" "sg_closed g" "saturated_until g = length (events g)"
    and "r < length (events g)" "read_from (ev g r) = Some w"
  shows "s < length (events g) \<Longrightarrow> is_store (ev g s) \<Longrightarrow> addr (ev g s) = addr (ev g r) \<Longrightarrow> s \<noteq> w \<Longrightarrow> hb g w s \<Longrightarrow>
    hb g r s"
proof (induction s rule: wf_induct_rule [OF wf_trancl [OF edge_rel_wf [OF assms(1) saturated_acyclic [OF assms(1,2)]]]])
  case (1 s)
  note G = sg_invD [OF assms(1)]
  note R = reads_okD(1) [OF sg_staticD(4) [OF G(1)] assms(5,6)]
  have "ev_index (ev g w) \<le> vc_get (vclk g s) (ev_pid (ev g w))"
    using saturated_clock_iff [OF assms(1,2) 1(2)] R 1(6) by blast
  then obtain v where v: "last_vis g s v" "ev_pid (ev g v) = ev_pid (ev g w)" "ev_index (ev g w) \<le> ev_index (ev g v)"
    using last_vis_exists [OF G(1), of w s] R 1(4,5) by metis
  then have vs: "v < length (events g)" "is_store (ev g v)" "addr (ev g v) = addr (ev g s)" "v \<noteq> s"
    "ev_index (ev g v) \<le> vc_get (vclk g s) (ev_pid (ev g v))" by (auto simp: last_vis_def visible_def)
  have vh: "hb g v s" using saturated_clock_iff [OF assms(1,2) 1(2) vs(1)] vs(5) by simp
  show ?case
  proof (cases "v = w")
    case True
    then show ?thesis using assms(3-5) v(1) R 1(2,3) by (auto simp: sg_closed_def closed_upto_def rules_at_def)
  next
    case False
    have "hb g w v" by (rule program_order_hb [OF G(1)]) (use R vs(1) v(2,3) in auto)
    moreover have "(v, s) \<in> (sg_edge_rel g)\<^sup>+" using vh vs(4) by (simp add: rtrancl_eq_or_trancl)
    ultimately have "hb g r v" using "1.IH" vs(1-3) 1(4) False by simp
    then show ?thesis using vh by (meson rtrancl_trans)
  qed
qed

lemma init_read_first:
  assumes "sg_inv g" "sg_index g" "init_closed g" "r < length (events g)" "is_load (ev g r)" "read_from (ev g r) = None"
    and "s < length (events g)" "is_store (ev g s)" "addr (ev g s) = addr (ev g r)"
  shows "hb g r s"
proof -
  note G = sg_invD [OF assms(1)] and X = sg_indexD [OF assms(2)]
  obtain w where w: "(ev_pid (ev g s), w) \<in> set (writes_by_address g (addr (ev g r)))"
    using X(3) [OF assms(7-9)] by force
  note W = X(2) [OF w]
  have "r \<in> set (reads_from_init g (addr (ev g r)))" using X(4) assms(4-6) by simp
  then have "hb g r w" using assms(3) w W edge_hb [of w g r] unfolding init_closed_def by (cases "w = r") auto
  moreover have "ev_index (ev g w) \<le> ev_index (ev g s)" using assms(3,7-9) w unfolding init_closed_def by blast
  then have "hb g w s" using program_order_hb [OF G(1), of w s] W assms(7) by simp
  ultimately show ?thesis by (rule rtrancl_trans)
qed

section \<open>Properties\<close>

text \<open>
  C12. \<^verbatim>\<open>saturate\<close> terminates on every graph the program can build, and none of its assertions fails if
  the graph it is called on is acyclic: it then returns true or false. On a graph that already has a
  cycle it returns false or stops at an assertion.
\<close>

theorem saturate_terminates:
  assumes "sg_run trav lt g"
  shows "(acyclic (sg_edge_rel g) \<longrightarrow> (\<exists>b h. saturate g = Some (Done b h))) \<and>
    (\<not> acyclic (sg_edge_rel g) \<longrightarrow> saturate g = Some Aborted \<or> (\<exists>h. saturate g = Some (Done False h)))"
proof -
  have I: "sg_inv g" "sg_closed g" using sg_run_keeps [OF assms] sg_run_closed [OF assms] by blast+
  have "acyclic (sg_edge_rel g)" if h: "saturate g = Some (Done True h)" for h
  proof -
    have "events h = events g" using saturate_indices [OF I(1) h] by (simp add: sg_indices_def)
    then have "sg_edge_rel g \<subseteq> sg_edge_rel h" using edge_rel_mono(1) saturate_closed [OF I h] by blast
    then show ?thesis using saturated_acyclic [OF saturate_accepted [OF I(1) h]] acyclic_subset by blast
  qed
  then show ?thesis using saturate_acyclic_returns [OF I(1)] saturate_total [OF I(1)] by (metis (full_types))
qed

theorem saturate_terminates_witness: "\<exists>b h. saturate mp_3 = Some (Done b h)"
proof -
  have "edges_forward mp_3 (\<lambda>i. i)" using sg_run_execution [OF mp_run mp_reads] by (simp add: sc_execution_def)
  then have "sg_edge_rel mp_3 \<subseteq> {(i, j). i < j}" by (auto simp: sg_edge_rel_def edges_forward_def)
  then have "acyclic (sg_edge_rel mp_3)" using acyclic_subset wf_acyclic [OF wf_less] by metis
  then show ?thesis using saturate_terminates [OF mp_run] by blast
qed


declare saturate_loop.simps [code]





text \<open>
  C2. Saturation is complete: a graph accepted by \<^verbatim>\<open>saturate\<close>, after any sequence of operations, is
  closed under the rules that sequential consistency imposes. For every load \<open>r\<close> and every other store
  \<open>s\<close> to its address: if \<open>r\<close> reads the initial value, \<open>r\<close> comes before \<open>s\<close> and not after it; if \<open>r\<close> reads
  from \<open>w\<close>, then \<open>s\<close> before \<open>r\<close> implies \<open>s\<close> before \<open>w\<close>, and \<open>w\<close> before \<open>s\<close> implies \<open>r\<close> before \<open>s\<close>.
\<close>

theorem saturate_complete:
  assumes "sg_run trav lt g" "saturate g = Some (Done True h)"
    and "r < length (events h)" "is_load (ev h r)" "s < length (events h)" "is_store (ev h s)"
    and "addr (ev h s) = addr (ev h r)" "s \<noteq> r" "read_from (ev h r) \<noteq> Some s"
  shows "case read_from (ev h r) of
      None \<Rightarrow> hb h r s \<and> \<not> hb h s r
    | Some w \<Rightarrow> (hb h s r \<longrightarrow> hb h s w) \<and> (hb h w s \<longrightarrow> hb h r s)"
proof -
  have R: "sg_run trav lt h" by (rule sg_run.saturated [OF assms(1,2)])
  note I = sg_run_keeps [OF R, THEN conjunct1] sg_run_keeps [OF R, THEN conjunct2]
  note C = sg_run_closed [OF R, THEN conjunct1] sg_run_closed [OF R, THEN conjunct2]
  have J: "sg_inv g" "sg_closed g" using sg_run_keeps [OF assms(1)] sg_run_closed [OF assms(1)] by blast+
  note q = saturate_accepted(2) [OF J(1) assms(2)]
  have u: "saturated_until h = length (events h)" using saturate_closed [OF J assms(2)] by blast
  note before = saturated_before_read [OF I(1) q C(1) assms(3-8)]
  show ?thesis
  proof (cases "read_from (ev h r)")
    case None
    then show ?thesis using init_read_first [OF I C(2) assms(3,4) _ assms(5-7)] before by auto
  next
    case (Some w)
    have "s \<noteq> w" using Some assms(9) by blast
    then show ?thesis using saturated_after_read [OF I(1) q C(1) u assms(3) Some assms(5-7)] before Some by auto
  qed
qed

theorem saturate_complete_witness:
  "\<exists>h. saturate mp_3 = Some (Done True h) \<and> hb h 0 1 \<and> \<not> hb h 1 0"
proof -
  obtain h where h: "saturate mp_3 = Some (Done True h)"
    using saturate_sound sg_run_keeps [OF mp_run] sg_run_execution [OF mp_run mp_reads] by blast
  have "events h = events mp_3"
    using saturate_indices [OF _ h] sg_run_keeps [OF mp_run] by (simp add: sg_indices_def)
  then have "hb h 0 1 \<and> \<not> hb h 1 0" using saturate_complete [OF mp_run h, of 0 1] by (simp add: mp_events)
  then show ?thesis using h by blast
qed

end
