(* ===== verification/PrefixHeuristic.thy ===== *)
theory PrefixHeuristic
  imports SatGraph_Complete
begin

text \<open>
  The prefix heuristic of \<^verbatim>\<open>src/src/PrefixHeuristic.cpp\<close>. It turns a saturated graph into an execution
  without calling a solver: it guesses a total coherence order per address, from the order of the
  current execution, saturates after every guess, and sorts the result topologically. An order it
  returns is shown to be a sequentially consistent execution of the graph.

  The command line option \<^verbatim>\<open>--no-heuristic\<close> is a parameter. The output of a failed attempt to
  \<^verbatim>\<open>cycle.dot\<close> and the timing guard are left out.
\<close>

section \<open>Guessing coherence\<close>

text \<open>The distance of what \<^verbatim>\<open>std::find\<close> returns from the begin of the range.\<close>

definition find_pos :: "'x list \<Rightarrow> 'x \<Rightarrow> nat" where
  "find_pos xs x = length (takeWhile (\<lambda>y. y \<noteq> x) xs)"

text \<open>
  The loop for \<^verbatim>\<open>ins_ptr\<close>, a position in the coherence order so far, from its end on. \<open>None\<close> is a
  failed assertion, or the exception of \<^verbatim>\<open>event_vc\<close> for an unknown event.
\<close>

fun insert_position :: "('x, 'a) sgraph \<Rightarrow> 'x list \<Rightarrow> 'x \<Rightarrow> vclock \<Rightarrow> 'x list \<Rightarrow> nat \<Rightarrow> nat option" where
  "insert_position g current_exec w wc co 0 = Some 0"
| "insert_position g current_exec w wc co (Suc k) =
     (let i = co ! k in
      case event_vc g i of
        None \<Rightarrow> None
      | Some ic \<Rightarrow>
          if \<not> find_pos current_exec w > find_pos current_exec i then None
          else if \<not> vc_leq wc ic then Some (Suc k)
          else insert_position g current_exec w wc co k)"

text \<open>
  The outcome of a part of \<^verbatim>\<open>try_generate_prefix\<close>: a failed assertion or an exception, the early
  \<^verbatim>\<open>return nullptr\<close>, or a value to go on with.
\<close>

datatype 'r heuristic_result = Failed | NoPrefix | Found 'r

definition guess_store ::
  "'x list \<Rightarrow> 'x \<Rightarrow> ('x, 'a) sgraph \<Rightarrow> ('a \<Rightarrow> 'x list) \<Rightarrow>
   (('x, 'a) sgraph \<times> ('a \<Rightarrow> 'x list)) heuristic_result option" where
  "guess_store current_exec w g total_co =
     (case event_vc g w of None \<Rightarrow> Some Failed | Some wc \<Rightarrow>
      case event_addr g w of None \<Rightarrow> Some Failed | Some a \<Rightarrow>
      case insert_position g current_exec w wc (total_co a) (length (total_co a)) of
        None \<Rightarrow> Some Failed
      | Some k \<Rightarrow>
      case (if k \<noteq> 0 then add_edge (total_co a ! (k - 1)) w g else Some g) of
        None \<Rightarrow> Some Failed
      | Some g1 \<Rightarrow>
      case (if k \<noteq> length (total_co a) then add_edge w (total_co a ! k) g1 else Some g1) of
        None \<Rightarrow> Some Failed
      | Some g2 \<Rightarrow>
      let total_co1 = total_co(a := take k (total_co a) @ w # drop k (total_co a)) in
      case saturate g2 of
        None \<Rightarrow> None
      | Some Aborted \<Rightarrow> Some Failed
      | Some (Done b g3) \<Rightarrow> if \<not> b then Some NoPrefix else Some (Found (g3, total_co1)))"

fun guess_coherence ::
  "'x list \<Rightarrow> 'x list \<Rightarrow> ('x, 'a) sgraph \<Rightarrow> ('a \<Rightarrow> 'x list) \<Rightarrow>
   (('x, 'a) sgraph \<times> ('a \<Rightarrow> 'x list)) heuristic_result option" where
  "guess_coherence current_exec [] g total_co = Some (Found (g, total_co))"
| "guess_coherence current_exec (w # ws) g total_co =
     (case event_is_store g w of
        None \<Rightarrow> Some Failed
      | Some st \<Rightarrow>
          if \<not> st then guess_coherence current_exec ws g total_co
          else case guess_store current_exec w g total_co of
              None \<Rightarrow> None
            | Some Failed \<Rightarrow> Some Failed
            | Some NoPrefix \<Rightarrow> Some NoPrefix
            | Some (Found (g1, total_co1)) \<Rightarrow> guess_coherence current_exec ws g1 total_co1)"

section \<open>Topological sorting\<close>

text \<open>
  \<^verbatim>\<open>toposort\<close> on an event is a depth-first search against the edges. The list holds the events its
  loop still has to visit, so that the loop over in-edges and the one over all events are the same
  recursion. \<open>None\<close> is a call that does not return or throws on an unknown event.
\<close>

partial_function (option) toposort_all ::
  "('x, 'a) sgraph \<Rightarrow> 'x list \<Rightarrow> 'x set \<Rightarrow> 'x list \<Rightarrow> ('x set \<times> 'x list) option" where
  "toposort_all g ids mark ret =
     (case ids of
        [] \<Rightarrow> Some (mark, ret)
      | x # xs \<Rightarrow>
          if x \<in> mark then toposort_all g xs mark ret
          else case event_in g x of
              None \<Rightarrow> None
            | Some into \<Rightarrow>
                Option.bind (toposort_all g into (insert x mark) ret)
                  (\<lambda>(mark1, ret1). toposort_all g xs mark1 (ret1 @ [x])))"

definition toposort :: "('x, 'a) sgraph \<Rightarrow> 'x list \<Rightarrow> 'x list option" where
  "toposort g ids = map_option snd (toposort_all g ids {} [])"

definition try_generate_prefix :: "bool \<Rightarrow> ('x, 'a) sgraph \<Rightarrow> 'x list \<Rightarrow> 'x list heuristic_result option" where
  "try_generate_prefix no_heuristic g current_exec =
     (if no_heuristic then Some NoPrefix
      else let ids = filter (has_event g) current_exec in
        case guess_coherence current_exec ids g (\<lambda>_. []) of
          None \<Rightarrow> None
        | Some Failed \<Rightarrow> Some Failed
        | Some NoPrefix \<Rightarrow> Some NoPrefix
        | Some (Found (g1, total_co)) \<Rightarrow> map_option Found (toposort g1 ids))"

section \<open>The sort returns a linear extension\<close>

text \<open>The direct predecessors of an event by external identifier.\<close>

lemma event_in_preds:
  assumes "sg_inv g" "sg_index g" "i < length (events g)"
  shows "\<exists>into. event_in g (ext_id (ev g i)) = Some into \<and> set into = (\<lambda>j. ext_id (ev g j)) ` preds g i"
proof -
  have "extid_to_id g (ext_id (ev g i)) = Some i" using sg_indexD(1) [OF assms(2)] assms(3) by simp
  then show ?thesis by (auto simp: event_in_def Let_def preds_iff split: option.split)
qed

text \<open>A list in which every event comes after its predecessors.\<close>

definition pre_ordered :: "('x, 'a) sgraph \<Rightarrow> 'x list \<Rightarrow> bool" where
  "pre_ordered g xs \<longleftrightarrow>
     (\<forall>k < length xs. \<forall>i < length (events g). xs ! k = ext_id (ev g i) \<longrightarrow>
        (\<lambda>j. ext_id (ev g j)) ` preds g i \<subseteq> set (take k xs))"

lemma pre_ordered_snoc:
  assumes "sg_index g" "i < length (events g)"
  shows "pre_ordered g (xs @ [ext_id (ev g i)]) \<longleftrightarrow>
    pre_ordered g xs \<and> (\<lambda>j. ext_id (ev g j)) ` preds g i \<subseteq> set xs"
proof -
  have "j = i" if "j < length (events g)" "ext_id (ev g i) = ext_id (ev g j)" for j
    using sg_indexD(1) [OF assms(1), of "ext_id (ev g i)"] assms(2) that by (metis option.inject)
  then have last: "(\<forall>j < length (events g). ext_id (ev g i) = ext_id (ev g j) \<longrightarrow>
      (\<lambda>k. ext_id (ev g k)) ` preds g j \<subseteq> set xs) \<longleftrightarrow> (\<lambda>j. ext_id (ev g j)) ` preds g i \<subseteq> set xs"
    using assms(2) by metis
  show ?thesis unfolding pre_ordered_def by (simp add: nth_append All_less_Suc last cong: conj_cong) auto
qed

text \<open>
  The search from events that come before everything on its stack (marked, but not yet listed): it
  returns, the list stays ordered, the stack is restored, and the events asked for are listed.
\<close>

lemma toposort_all_spec:
  assumes "sg_inv g" "sg_index g" "edges_forward g pos" "N = {..<length (events g)}"
    and "set ids \<subseteq> set (event_ids g)" "mark \<subseteq> set (event_ids g)"
    and "\<forall>i \<in> N. \<forall>j \<in> N. ext_id (ev g i) \<in> set ids \<and> ext_id (ev g j) \<in> mark - set ret \<longrightarrow> pos i < pos j"
    and "set ret \<subseteq> mark" "pre_ordered g ret" "distinct ret"
  shows "\<exists>mark1 ret1. toposort_all g ids mark ret = Some (mark1, ret1) \<and> mark \<subseteq> mark1 \<and> mark1 \<subseteq> set (event_ids g) \<and>
    set ret1 \<subseteq> mark1 \<and> pre_ordered g ret1 \<and> distinct ret1 \<and> set ret \<subseteq> set ret1 \<and> set ids \<subseteq> set ret1 \<and>
    mark1 - set ret1 = mark - set ret"
  using assms(5-10)
proof (induction "(ids, mark)" arbitrary: ids mark ret
    rule: wf_induct_rule [OF wf_measures [of "[\<lambda>(ids, mark). card (set (event_ids g) - mark), \<lambda>(ids, mark). length ids]"]])
  case 1
  note pr = "1.prems"
  show ?case
  proof (cases ids)
    case Nil
    then show ?thesis using pr by (subst toposort_all.simps) auto
  next
    case (Cons x xs)
    obtain i where i: "i < length (events g)" "x = ext_id (ev g i)"
      using pr(1) Cons by (auto simp: event_ids_def in_set_conv_nth)
    show ?thesis
    proof (cases "x \<in> mark")
      case True
      have "x \<in> set ret" using pr(3) i Cons True assms(4) by fastforce
      then show ?thesis
        using "1.hyps" [of xs mark ret] pr Cons True by (subst toposort_all.simps) auto
    next
      case False
      obtain into where into: "event_in g x = Some into" "set into = (\<lambda>j. ext_id (ev g j)) ` preds g i"
        using event_in_preds [OF assms(1,2) i(1)] i(2) by auto
      have pl: "j < length (events g)" "pos j < pos i" if "j \<in> preds g i" for j
        using preds_less [OF sg_invD(1,2) [OF assms(1)] i(1) that] edges_forwardD [OF assms(3) i(1) that] by blast+
      have inj: "k = j" if "k < length (events g)" "j < length (events g)" "ext_id (ev g k) = ext_id (ev g j)" for k j
        using sg_indexD(1) [OF assms(2), of "ext_id (ev g k)"] that by (metis option.inject)
      have less: "card (set (event_ids g) - insert x mark) < card (set (event_ids g) - mark)"
        using pr(1) Cons False by (intro psubset_card_mono) auto
      have sub: "set into \<subseteq> set (event_ids g)" using into(2) pl(1) by (auto simp: event_ids_def)
      have stack: "\<forall>k \<in> N. \<forall>j \<in> N. ext_id (ev g k) \<in> set into \<and> ext_id (ev g j) \<in> insert x mark - set ret \<longrightarrow> pos k < pos j"
      proof (intro ballI impI)
        fix k j assume kj: "k \<in> N" "j \<in> N" "ext_id (ev g k) \<in> set into \<and> ext_id (ev g j) \<in> insert x mark - set ret"
        then obtain l where "l \<in> preds g i" "ext_id (ev g k) = ext_id (ev g l)" using into(2) by auto
        then have k: "pos k < pos i" using pl inj kj(1) assms(4) by (metis lessThan_iff)
        show "pos k < pos j"
        proof (cases "ext_id (ev g j) = x")
          case True
          then have "j = i" using inj kj(2) i assms(4) by simp
          then show ?thesis using k by simp
        next
          case False
          then have "pos i < pos j" using pr(3) kj i Cons assms(4) by auto
          then show ?thesis using k by simp
        qed
      qed
      have "set ret \<subseteq> insert x mark" "insert x mark \<subseteq> set (event_ids g)" using pr(1,2,4) Cons by auto
      then obtain m1 r1 where r: "toposort_all g into (insert x mark) ret = Some (m1, r1)" "insert x mark \<subseteq> m1"
          "m1 \<subseteq> set (event_ids g)" "set r1 \<subseteq> m1" "pre_ordered g r1" "distinct r1" "set ret \<subseteq> set r1"
          "set into \<subseteq> set r1" "m1 - set r1 = insert x mark - set ret"
        using "1.hyps" [of into "insert x mark" ret] less sub stack pr(5,6) by auto
      have x: "x \<notin> set r1" "x \<in> m1" using r(2,9) False pr(4) by auto
      have out: "m1 - set (r1 @ [x]) = mark - set ret" using r(9) False pr(4) x by auto
      have "pre_ordered g (r1 @ [x])"
        using pre_ordered_snoc [OF assms(2) i(1)] r(5,8) into(2) i(2) by simp
      moreover have "card (set (event_ids g) - m1) \<le> card (set (event_ids g) - insert x mark)"
        using r(2) by (intro card_mono) auto
      moreover have "\<forall>k \<in> N. \<forall>j \<in> N. ext_id (ev g k) \<in> set xs \<and> ext_id (ev g j) \<in> m1 - set (r1 @ [x]) \<longrightarrow> pos k < pos j"
        unfolding out using pr(3) Cons by simp
      ultimately obtain m2 r2 where "toposort_all g xs m1 (r1 @ [x]) = Some (m2, r2)" "m1 \<subseteq> m2"
          "m2 \<subseteq> set (event_ids g)" "set r2 \<subseteq> m2" "pre_ordered g r2" "distinct r2" "set (r1 @ [x]) \<subseteq> set r2"
          "set xs \<subseteq> set r2" "m2 - set r2 = m1 - set (r1 @ [x])"
        using "1.hyps" [of xs m1 "r1 @ [x]"] less r(3,4,6) x pr(1) Cons by auto
      moreover from this have "toposort_all g ids mark ret = Some (m2, r2)"
        using Cons False into(1) r(1) by (subst toposort_all.simps) simp
      ultimately show ?thesis using out r(2,7) Cons by auto
    qed
  qed
qed

lemma toposort_spec:
  assumes "sg_inv g" "sg_index g" "edges_forward g pos" "set ids = set (event_ids g)"
  shows "\<exists>order. toposort g ids = Some order \<and> set order = set (event_ids g) \<and> distinct order \<and> pre_ordered g order"
proof -
  obtain mark ret where r: "toposort_all g ids {} [] = Some (mark, ret)" "mark \<subseteq> set (event_ids g)" "set ret \<subseteq> mark"
      "pre_ordered g ret" "distinct ret" "set ids \<subseteq> set ret"
    using toposort_all_spec [OF assms(1-3) refl, of ids "{}" "[]"] assms(4) by (auto simp: pre_ordered_def)
  then have "toposort g ids = Some ret" "set ret = set (event_ids g)" using assms(4) by (auto simp: toposort_def)
  then show ?thesis using r by blast
qed

section \<open>The guessed orders are total\<close>

abbreviation id_of :: "('x, 'a) sgraph \<Rightarrow> 'x \<Rightarrow> nat" where
  "id_of g x \<equiv> the (extid_to_id g x)"

text \<open>
  What the loop maintains: the order of an address lists the stores to it that were visited, and
  earlier entries happen before later ones.
\<close>

definition coherent :: "('x, 'a) sgraph \<Rightarrow> 'x set \<Rightarrow> ('a \<Rightarrow> 'x list) \<Rightarrow> bool" where
  "coherent g visited total_co \<longleftrightarrow>
     (\<forall>a. set (total_co a) = {x \<in> visited. event_is_store g x = Some True \<and> event_addr g x = Some a}) \<and>
     (\<forall>a. sorted_wrt (\<lambda>x y. hb g (id_of g x) (id_of g y)) (total_co a))"

lemma event_queries:
  assumes "sg_index g" "i < length (events g)"
  shows "extid_to_id g (ext_id (ev g i)) = Some i"
    "event_is_store g (ext_id (ev g i)) = Some (is_store (ev g i))"
    "is_store (ev g i) \<Longrightarrow> event_addr g (ext_id (ev g i)) = Some (addr (ev g i))"
    "wq_empty g \<Longrightarrow> event_vc g (ext_id (ev g i)) = Some (vclk g i)"
proof -
  show e: "extid_to_id g (ext_id (ev g i)) = Some i" using sg_indexD(1) [OF assms(1)] assms(2) by simp
  then show "event_is_store g (ext_id (ev g i)) = Some (is_store (ev g i))"
    "is_store (ev g i) \<Longrightarrow> event_addr g (ext_id (ev g i)) = Some (addr (ev g i))"
    "wq_empty g \<Longrightarrow> event_vc g (ext_id (ev g i)) = Some (vclk g i)"
    by (simp_all add: event_is_store_def event_addr_def event_vc_def is_saturated_def)
qed

lemma has_event_ids: "sg_index g \<Longrightarrow> has_event g x \<longleftrightarrow> x \<in> set (event_ids g)"
  using sg_indexD(1) [of g x] by (auto simp: has_event_def event_ids_def in_set_conv_nth image_iff) (metis nth_mem)

lemma insert_position_succeeds:
  assumes "\<forall>x \<in> set co. event_vc g x \<noteq> None \<and> find_pos current_exec x < find_pos current_exec w" "k \<le> length co"
  shows "\<exists>j. insert_position g current_exec w wc co k = Some j \<and> j \<le> k"
  using assms(2)
proof (induction k)
  case (Suc k)
  then have "co ! k \<in> set co" by simp
  then show ?case using assms(1) Suc by (fastforce simp: Let_def)
qed simp

lemma sg_run_any: "sg_run trav lt g \<Longrightarrow> sg_run trav (\<lambda>_ _. True) g"
proof (induction rule: sg_run.induct)
  case (event g x kind a rfx pid orig_in h n)
  then show ?case using sg_run.event [OF event.IH event(2,3,4)] by blast
next
  case (edge g x y h i j)
  then show ?case using sg_run.edge [OF edge.IH edge(2-4)] by blast
qed (blast intro: sg_run.start sg_run.saturated)+

text \<open>An edge between two known events.\<close>

lemma add_edge_run:
  assumes "sg_run trav (\<lambda>_ _. True) g" "extid_to_id g x = Some i" "extid_to_id g y = Some j"
  obtains h where "add_edge x y g = Some h" "sg_run trav (\<lambda>_ _. True) h" "sg_indices h = sg_indices g"
    "saturated_until h = saturated_until g" "hb h i j" "\<And>k l. hb g k l \<Longrightarrow> hb h k l"
proof -
  note I = sg_run_keeps [OF assms(1), THEN conjunct1] sg_run_keeps [OF assms(1), THEN conjunct2]
  have e: "add_edge x y g = Some (add_edge_internal i j g)" using assms by (simp add: add_edge_def)
  note R = sg_run.edge [OF assms(1) e assms(2,3)]
  have ij: "i < length (events g)" "j < length (events g)" using sg_indexD(1) [OF I(2)] assms(2,3) by blast+
  note S = add_edge_internal_spec [OF grows_refl [OF sg_invD(2,3) [OF I(1)]] ij]
  have "hb (add_edge_internal i j g) i j" by (rule edge_hb) (use S(3) [of j] growsD(1) [OF S(1)] ij in simp_all)
  then show ?thesis using that [OF e] R grows_edge_rel(2) [OF S(1)] by (simp add: graph_frame)
qed

lemma saturate_unless_aborted:
  assumes "sg_inv g" "saturated_until g = length (events g)"
  shows "\<exists>b h. saturate g = Some (Done b h)"
proof -
  have "reverse_saturate g = Some (g\<lparr>saturated_until := length (events g)\<rparr>)"
    by (simp add: reverse_saturate_def assms(2))
  then show ?thesis using saturate_done(2) [OF assms(1)] by blast
qed

lemma sorted_wrt_insert_at:
  assumes "sorted_wrt R xs" "transp R" "k \<le> length xs" "k \<noteq> 0 \<longrightarrow> R (xs ! (k - 1)) w" "k \<noteq> length xs \<longrightarrow> R w (xs ! k)"
  shows "sorted_wrt R (take k xs @ w # drop k xs)"
proof -
  have nth: "R (xs ! i) (xs ! j)" if "i < j" "j < length xs" for i j
    using assms(1) that by (simp add: sorted_wrt_iff_nth_less)
  have "R x w" if x: "x \<in> set (take k xs)" for x
  proof -
    obtain i where i: "i < k" "i < length xs" "x = xs ! i" using x by (auto simp: in_set_conv_nth)
    then have "i < k - 1 \<or> i = k - 1" "k - 1 < length xs" using assms(3) by linarith+
    then have "i = k - 1 \<or> R (xs ! i) (xs ! (k - 1))" "R (xs ! (k - 1)) w" using nth assms(4) i(1) by auto
    then show ?thesis using i(3) assms(2) by (metis transpD)
  qed
  moreover have "R w x" if x: "x \<in> set (drop k xs)" for x
  proof -
    obtain i where i: "k \<le> i" "i < length xs" "x = xs ! i" using x assms(3)
      by (auto simp: in_set_conv_nth) (metis le_add1 less_diff_conv add.commute)
    then have "i = k \<or> R (xs ! k) (xs ! i)" "R w (xs ! k)" using nth [of k i] assms(5) by (auto simp: le_less)
    then show ?thesis using i(3) assms(2) by (metis transpD)
  qed
  moreover have "R x y" if "x \<in> set (take k xs)" "y \<in> set (drop k xs)" for x y
    using assms(1) that by (metis append_take_drop_id sorted_wrt_append)
  ultimately show ?thesis
    using assms(1) sorted_wrt_take [of R xs k] sorted_wrt_drop [of R xs k] by (auto simp: sorted_wrt_append)
qed

lemma coherent_mono:
  assumes "coherent g visited co" "sg_indices h = sg_indices g" "\<And>k l. hb g k l \<Longrightarrow> hb h k l"
  shows "coherent h visited co"
proof -
  have "event_is_store h x = event_is_store g x" "event_addr h x = event_addr g x" "extid_to_id h x = extid_to_id g x" for x
    using assms(2) by (simp_all add: sg_indices_def event_is_store_def event_addr_def split: option.split)
  note q = this
  have "sorted_wrt (\<lambda>x y. hb h (id_of h x) (id_of h y)) (co a)" for a
  proof (rule sorted_wrt_mono_rel)
    show "sorted_wrt (\<lambda>x y. hb g (id_of g x) (id_of g y)) (co a)" using assms(1) by (simp add: coherent_def)
  qed (use assms(3) q in simp)
  then show ?thesis using assms(1) by (simp add: coherent_def q)
qed

text \<open>The graphs the loop goes through.\<close>

definition guessing :: "((nat \<times> nat) list \<Rightarrow> (nat \<times> nat) list) \<Rightarrow> ('x, 'a) sgraph \<Rightarrow> ('x, 'a) sgraph \<Rightarrow> bool" where
  "guessing trav g h \<longleftrightarrow>
     sg_run trav (\<lambda>_ _. True) h \<and> wq_empty h \<and> saturated_until h = length (events h) \<and>
     sg_indices h = sg_indices g \<and> (\<forall>k l. hb g k l \<longrightarrow> hb h k l)"

lemma saturate_run:
  assumes "sg_run trav lt g" "saturate g = Some (Done True h)"
  shows "sg_run trav lt h" "wq_empty h" "saturated_until h = length (events h)" "sg_indices h = sg_indices g"
    "hb g k l \<Longrightarrow> hb h k l" "sg_edge_rel g \<subseteq> sg_edge_rel h"
proof -
  have J: "sg_inv g" "sg_closed g" using sg_run_keeps [OF assms(1)] sg_run_closed [OF assms(1)] by blast+
  note C = saturate_closed [OF J assms(2)]
  show ix: "sg_indices h = sg_indices g" by (rule saturate_indices [OF J(1) assms(2)])
  then have "events h = events g" by (simp add: sg_indices_def)
  from edge_rel_mono [OF this] C show "sg_edge_rel g \<subseteq> sg_edge_rel h" "hb g k l \<Longrightarrow> hb h k l" by blast+
  show "sg_run trav lt h" by (rule sg_run.saturated [OF assms])
  show "wq_empty h" by (rule saturate_accepted(2) [OF J(1) assms(2)])
  show "saturated_until h = length (events h)" using C by blast
qed

lemma guess_store_spec:
  assumes "guessing trav g0 g" "i < length (events g)" "w = ext_id (ev g i)" "is_store (ev g i)"
    and "coherent g visited co" "\<forall>x \<in> visited. find_pos current_exec x < find_pos current_exec w"
  shows "guess_store current_exec w g co = Some NoPrefix \<or>
    (\<exists>h co1. guess_store current_exec w g co = Some (Found (h, co1)) \<and> guessing trav g0 h \<and>
       coherent h (insert w visited) co1)"
proof -
  have R: "sg_run trav (\<lambda>_ _. True) g" "saturated_until g = length (events g)" "wq_empty g"
    using assms(1) by (simp_all add: guessing_def)
  note I = sg_run_keeps [OF R(1), THEN conjunct1] sg_run_keeps [OF R(1), THEN conjunct2]
  note Q0 = event_queries [OF I(2) assms(2), folded assms(3)]
  note Q = Q0(1,2) Q0(3) [OF assms(4)] Q0(4) [OF R(3)]
  let ?a = "addr (ev g i)"
  have co: "set (co ?a) \<subseteq> visited" "\<forall>x \<in> set (co ?a). event_vc g x \<noteq> None \<and> extid_to_id g x \<noteq> None"
    using assms(5) R(3) by (auto simp: coherent_def event_addr_def event_vc_def is_saturated_def split: option.splits)
  then obtain k where k: "insert_position g current_exec w (vclk g i) (co ?a) (length (co ?a)) = Some k" "k \<le> length (co ?a)"
    using insert_position_succeeds [of "co ?a" g current_exec w "length (co ?a)"] assms(6) by blast
  obtain g1 where g1: "(if k \<noteq> 0 then add_edge (co ?a ! (k - 1)) w g else Some g) = Some g1"
    "sg_run trav (\<lambda>_ _. True) g1" "sg_indices g1 = sg_indices g" "saturated_until g1 = saturated_until g"
    "k \<noteq> 0 \<longrightarrow> hb g1 (id_of g (co ?a ! (k - 1))) i" "\<And>m l. hb g m l \<Longrightarrow> hb g1 m l"
  proof (cases "k = 0")
    case False
    then have "co ?a ! (k - 1) \<in> set (co ?a)" using k(2) by simp
    then obtain j where j: "extid_to_id g (co ?a ! (k - 1)) = Some j" using co(2) by blast
    show ?thesis using add_edge_run [OF R(1) j Q(1)] that False j by (metis option.sel)
  qed (use R(1) that in simp)
  have ix: "extid_to_id g1 = extid_to_id g" "events g1 = events g" using g1(3) by (simp_all add: sg_indices_def)
  obtain g2 where g2: "(if k \<noteq> length (co ?a) then add_edge w (co ?a ! k) g1 else Some g1) = Some g2"
    "sg_run trav (\<lambda>_ _. True) g2" "sg_indices g2 = sg_indices g1" "saturated_until g2 = saturated_until g1"
    "k \<noteq> length (co ?a) \<longrightarrow> hb g2 i (id_of g (co ?a ! k))" "\<And>m l. hb g1 m l \<Longrightarrow> hb g2 m l"
  proof (cases "k = length (co ?a)")
    case False
    then have "co ?a ! k \<in> set (co ?a)" using k(2) by simp
    then obtain j where j: "extid_to_id g1 (co ?a ! k) = Some j" using co(2) ix(1) by fastforce
    show ?thesis using add_edge_run [OF g1(2) Q(1) [folded ix(1)] j] that False j ix(1) by (metis option.sel)
  qed (use g1(2) that in simp)
  have e2: "events g2 = events g" "extid_to_id g2 = extid_to_id g" using g2(3) ix by (simp_all add: sg_indices_def)
  have "saturated_until g2 = length (events g2)" using g2(4) g1(4) R(2) e2(1) by simp
  then obtain b h where h: "saturate g2 = Some (Done b h)"
    using saturate_unless_aborted [of g2] sg_run_keeps [OF g2(2)] by blast
  let ?co = "co(?a := take k (co ?a) @ w # drop k (co ?a))"
  have res: "guess_store current_exec w g co = (if b then Some (Found (h, ?co)) else Some NoPrefix)"
    unfolding guess_store_def Q(3,4) option.case k(1) g1(1) g2(1) h Let_def by simp
  have "guessing trav g0 h \<and> coherent h (insert w visited) ?co" if b: "b"
  proof
    have hT: "saturate g2 = Some (Done True h)" using h b by simp
    note S = saturate_run [OF g2(2) hT]
    have up: "hb h m l" if "hb g m l" for m l by (rule S(5) [OF g2(6) [OF g1(6) [OF that]]])
    have ixh: "sg_indices h = sg_indices g" using S(4) g2(3) g1(3) by simp
    show "guessing trav g0 h" using assms(1) S(1-3) ixh up by (simp add: guessing_def)
    have ch: "coherent h visited co" by (rule coherent_mono [OF assms(5) ixh up])
    have qh: "extid_to_id h = extid_to_id g" "event_is_store h x = event_is_store g x"
      "event_addr h x = event_addr g x" for x
      using ixh by (simp_all add: sg_indices_def event_is_store_def event_addr_def split: option.split)
    let ?R = "\<lambda>x y. hb h (id_of h x) (id_of h y)"
    have "transp ?R" by (rule transpI) (rule rtrancl_trans)
    moreover have "sorted_wrt ?R (co ?a)" using ch by (simp add: coherent_def)
    moreover have "k \<noteq> 0 \<longrightarrow> ?R (co ?a ! (k - 1)) w" "k \<noteq> length (co ?a) \<longrightarrow> ?R w (co ?a ! k)"
      using S(5) [OF g2(6)] S(5) [OF g2(5) [rule_format]] g1(5) Q(1) by (simp_all add: qh)
    ultimately have srt: "sorted_wrt ?R (take k (co ?a) @ w # drop k (co ?a))"
      by (intro sorted_wrt_insert_at) (use k(2) in simp_all)
    have ins: "set (take k (co ?a) @ w # drop k (co ?a)) = insert w (set (co ?a))"
      by (metis append_take_drop_id insert_is_Un set_append set_simps(2) sup_left_commute)
    have old: "set (co b) = {x \<in> visited. event_is_store g x = Some True \<and> event_addr g x = Some b}"
      "sorted_wrt ?R (co b)" for b using assms(5) ch by (simp_all add: coherent_def)
    have "set (?co b) = {x \<in> insert w visited. event_is_store h x = Some True \<and> event_addr h x = Some b}" for b
      using Q(2,3) assms(4) unfolding qh by (cases "b = ?a") (simp only: fun_upd_same ins old, auto simp: old)
    moreover have "sorted_wrt ?R (?co b)" for b using srt old(2) by simp
    ultimately show "coherent h (insert w visited) ?co" unfolding coherent_def by blast
  qed
  then show ?thesis using res by auto
qed

lemma guess_coherence_spec:
  assumes "guessing trav g0 g" "set ws \<subseteq> set (event_ids g)" "coherent g visited co"
    and "sorted_wrt (\<lambda>x y. find_pos current_exec x < find_pos current_exec y) ws"
    and "\<forall>x \<in> visited. \<forall>w \<in> set ws. find_pos current_exec x < find_pos current_exec w"
  shows "guess_coherence current_exec ws g co = Some NoPrefix \<or>
    (\<exists>h co1. guess_coherence current_exec ws g co = Some (Found (h, co1)) \<and> guessing trav g0 h \<and>
       coherent h (visited \<union> set ws) co1)"
  using assms
proof (induction ws arbitrary: g visited co)
  case (Cons w ws)
  note pr = Cons.prems
  have R: "sg_run trav (\<lambda>_ _. True) g" using pr(1) by (simp add: guessing_def)
  note I = sg_run_keeps [OF R, THEN conjunct2]
  obtain i where i: "i < length (events g)" "w = ext_id (ev g i)"
    using pr(2) by (auto simp: event_ids_def in_set_conv_nth)
  note Q = event_queries [OF I i(1), folded i(2)]
  show ?case
  proof (cases "is_store (ev g i)")
    case True
    have "\<forall>x \<in> visited. find_pos current_exec x < find_pos current_exec w" using pr(5) by simp
    from guess_store_spec [OF pr(1) i True pr(3) this] show ?thesis
    proof (elim disjE exE conjE)
      fix h co1 assume h: "guess_store current_exec w g co = Some (Found (h, co1))" "guessing trav g0 h"
        "coherent h (insert w visited) co1"
      have "event_ids h = event_ids g" using h(2) pr(1) by (simp add: guessing_def sg_indices_def event_ids_def)
      then show ?thesis using Cons.IH [OF h(2) _ h(3)] pr(2,4,5) h(1) Q(2) True by simp
    qed (use Q(2) True in simp)
  next
    case False
    then have "coherent g (insert w visited) co" using pr(3) Q(2) by (auto simp: coherent_def)
    then show ?thesis using Cons.IH [OF pr(1), of "insert w visited" co] pr(2,4,5) Q(2) False by simp
  qed
qed simp

section \<open>Linear extensions are executions\<close>

lemma find_pos_nth: "x \<in> set xs \<Longrightarrow> find_pos xs x < length xs \<and> xs ! find_pos xs x = x"
  by (induction xs) (auto simp: find_pos_def)

lemma find_pos_take: "x \<in> set (take k xs) \<Longrightarrow> find_pos xs x < k"
proof (induction xs arbitrary: k)
  case (Cons y ys)
  then show ?case by (cases k) (auto simp: find_pos_def)
qed simp

lemma find_pos_append: "x \<in> set xs \<Longrightarrow> find_pos (xs @ ys) x = find_pos xs x"
  by (induction xs) (auto simp: find_pos_def)

lemma find_pos_snoc: "x \<notin> set xs \<Longrightarrow> find_pos (xs @ [x]) x = length xs"
  by (induction xs) (auto simp: find_pos_def)

lemma find_pos_sorted: "distinct xs \<Longrightarrow> sorted_wrt (\<lambda>x y. find_pos xs x < find_pos xs y) xs"
proof (induction xs rule: rev_induct)
  case (snoc x xs)
  have "find_pos (xs @ [x]) x = length xs" using snoc.prems find_pos_snoc [of x xs] by simp
  moreover have "find_pos (xs @ [x]) y = find_pos xs y \<and> find_pos xs y < length xs" if "y \<in> set xs" for y
    using that find_pos_append find_pos_nth by metis
  moreover have "sorted_wrt (\<lambda>y z. find_pos (xs @ [x]) y < find_pos (xs @ [x]) z) xs"
    by (rule sorted_wrt_mono_rel [OF _ snoc.IH]) (use snoc.prems calculation(2) in auto)
  ultimately show ?case by (simp add: sorted_wrt_append)
qed simp

lemma pre_ordered_forward:
  assumes "sg_inv g" "sg_index g" "set order = set (event_ids g)" "pre_ordered g order"
    and "pos = (\<lambda>i. find_pos order (ext_id (ev g i)))"
  shows "inj_on pos {..<length (events g)}" "edges_forward g pos"
proof -
  have mem: "ext_id (ev g i) \<in> set order" if "i < length (events g)" for i
    using that assms(3) by (simp add: event_ids_def)
  show "inj_on pos {..<length (events g)}"
  proof (rule inj_onI)
    fix i j assume ij: "i \<in> {..<length (events g)}" "j \<in> {..<length (events g)}" "pos i = pos j"
    then have "ext_id (ev g i) = ext_id (ev g j)"
      using find_pos_nth mem unfolding assms(5) by (metis lessThan_iff)
    then show "i = j" using sg_indexD(1) [OF assms(2), of "ext_id (ev g i)"] ij by (metis lessThan_iff option.inject)
  qed
  show "edges_forward g pos"
    unfolding edges_forward_def
  proof (intro allI impI ballI)
    fix j i assume j: "j < length (events g)" and i: "i \<in> preds g j"
    have "pos j < length order" "order ! pos j = ext_id (ev g j)"
      using find_pos_nth [OF mem [OF j]] by (simp_all add: assms(5))
    then have "ext_id (ev g i) \<in> set (take (pos j) order)"
      using assms(4) j i unfolding pre_ordered_def by (metis image_subset_iff)
    then show "pos i < pos j" using find_pos_take by (simp add: assms(5))
  qed
qed

lemma edges_forward_hb:
  assumes "edges_forward g pos" "hb g i j" "i \<noteq> j"
  shows "pos i < pos j"
proof -
  have "(i, j) \<in> (sg_edge_rel g)\<^sup>+" using assms(2,3) by (simp add: rtrancl_eq_or_trancl)
  then show ?thesis
    by (induction rule: trancl_induct)
      (use edges_forwardD [OF assms(1)] in \<open>auto simp: sg_edge_rel_def intro: order.strict_trans\<close>)
qed

text \<open>With a total coherence order per address, saturation leaves no choice to a linear extension.\<close>

lemma extension_reads_last:
  assumes "guessing trav g0 g" "coherent g (set (event_ids g)) co" "inj_on pos {..<length (events g)}"
    and "edges_forward g pos"
  shows "reads_last (events g) pos"
  unfolding reads_last_def
proof (intro conjI allI impI)
  have R: "sg_run trav (\<lambda>_ _. True) g" and q: "wq_empty g" "saturated_until g = length (events g)"
    using assms(1) by (simp_all add: guessing_def)
  note I = sg_run_keeps [OF R, THEN conjunct1] sg_run_keeps [OF R, THEN conjunct2]
  note C = sg_run_closed [OF R, THEN conjunct1] sg_run_closed [OF R, THEN conjunct2]
  show "inj_on pos {..<length (events g)}" by (rule assms(3))
  fix i s assume i: "i < length (events g)" "s < length (events g)"
    and "is_load (ev g i) \<and> is_store (ev g s) \<and> addr (ev g s) = addr (ev g i) \<and> s \<noteq> i \<and> pos s < pos i"
  then have s: "is_load (ev g i)" "is_store (ev g s)" "addr (ev g s) = addr (ev g i)" "s \<noteq> i" "pos s < pos i" by auto
  have notafter: "\<not> hb g i s" using edges_forward_hb [OF assms(4), of i s] s(4,5) by auto
  obtain w where w: "read_from (ev g i) = Some w"
    using init_read_first [OF I C(2) i(1) s(1) _ i(2) s(2,3)] notafter by (cases "read_from (ev g i)") auto
  note W = reads_okD(1) [OF sg_staticD(4) [OF sg_invD(1) [OF I(1)]] i(1) w]
  have "s = w \<or> pos s < pos w"
  proof (cases "s = w")
    case False
    let ?co = "co (addr (ev g i))"
    have "ext_id (ev g s) \<in> set ?co" "ext_id (ev g w) \<in> set ?co"
      using assms(2) event_queries [OF I(2)] i(2) s(2,3) W by (auto simp: coherent_def event_ids_def)
    then obtain m n where mn: "m < length ?co" "?co ! m = ext_id (ev g s)" "n < length ?co" "?co ! n = ext_id (ev g w)"
      by (metis in_set_conv_nth)
    have "sorted_wrt (\<lambda>x y. hb g (id_of g x) (id_of g y)) ?co" using assms(2) by (simp add: coherent_def)
    then have "m < n \<Longrightarrow> hb g (id_of g (?co ! m)) (id_of g (?co ! n))"
      "n < m \<Longrightarrow> hb g (id_of g (?co ! n)) (id_of g (?co ! m))"
      using mn(1,3) by (simp_all add: sorted_wrt_iff_nth_less)
    then have "m < n \<Longrightarrow> hb g s w" "n < m \<Longrightarrow> hb g w s"
      using event_queries(1) [OF I(2) i(2)] event_queries(1) [OF I(2), of w] W by (simp_all add: mn(2,4))
    moreover have "m \<noteq> n" using mn False sg_indexD(1) [OF I(2), of "ext_id (ev g s)"] i(2) W by (metis option.inject)
    moreover have "\<not> hb g w s"
      using saturated_after_read [OF I(1) q(1) C(1) q(2) i(1) w i(2) s(2,3) False] notafter by blast
    ultimately have "hb g s w" by (meson linorder_neqE_nat)
    then show ?thesis using edges_forward_hb [OF assms(4)] False by blast
  qed simp
  then show "\<exists>w. read_from (ev g i) = Some w \<and> (s = w \<or> pos s < pos w)" using w by blast
qed

section \<open>Properties\<close>

text \<open>
  C3. The prefix heuristic is right. On a graph that \<^verbatim>\<open>saturate\<close> accepted, with every event of the graph
  in the current execution, \<^verbatim>\<open>try_generate_prefix\<close> returns (no assertion fails, the sort and every
  saturation terminate), and an order it returns lists the events of the graph once each and is a
  sequentially consistent execution of it: program order, reads-from and all edges go forward and
  every load reads the last store to its address before it.
\<close>

theorem try_generate_prefix_correct:
  assumes "sg_run trav lt g0" "saturate g0 = Some (Done True g)" "distinct current_exec"
    and "set (event_ids g) \<subseteq> set current_exec"
  shows "try_generate_prefix no_heuristic g current_exec = Some NoPrefix \<or>
    (\<exists>order. try_generate_prefix no_heuristic g current_exec = Some (Found order) \<and>
       distinct order \<and> set order = set (event_ids g) \<and>
       sc_execution g (\<lambda>i. find_pos order (ext_id (ev g i))))"
proof (cases no_heuristic)
  case False
  note S = saturate_run [OF sg_run_any [OF assms(1)] assms(2)]
  have G: "guessing trav g g" using S(1-3) by (simp add: guessing_def)
  let ?ids = "filter (has_event g) current_exec"
  have ids: "set ?ids = set (event_ids g)"
    using assms(4) has_event_ids [OF sg_run_keeps [OF S(1), THEN conjunct2]] by auto
  have srt: "sorted_wrt (\<lambda>x y. find_pos current_exec x < find_pos current_exec y) ?ids"
    by (rule sorted_wrt_filter [OF find_pos_sorted [OF assms(3)]])
  have "coherent g {} (\<lambda>_. [])" by (simp add: coherent_def)
  then consider "guess_coherence current_exec ?ids g (\<lambda>_. []) = Some NoPrefix"
    | h co where "guess_coherence current_exec ?ids g (\<lambda>_. []) = Some (Found (h, co))" "guessing trav g h"
        "coherent h (set ?ids) co"
    using guess_coherence_spec [OF G _ _ srt, of "{}" "\<lambda>_. []"] ids by auto
  then show ?thesis
  proof cases
    case (2 h co)
    have R: "sg_run trav (\<lambda>_ _. True) h" "wq_empty h" using 2(2) by (simp_all add: guessing_def)
    have E: "events h = events g" "event_ids h = event_ids g"
      using 2(2) by (simp_all add: guessing_def sg_indices_def event_ids_def)
    note I = sg_run_keeps [OF R(1), THEN conjunct1] sg_run_keeps [OF R(1), THEN conjunct2]
    obtain pos0 where "edges_forward h pos0" using acyclic_positions [OF I(1) saturated_acyclic [OF I(1) R(2)]] by blast
    then obtain order where o: "toposort h ?ids = Some order" "set order = set (event_ids h)" "distinct order"
        "pre_ordered h order"
      using toposort_spec [OF I, of pos0 ?ids] ids E(2) by auto
    let ?pos = "\<lambda>i. find_pos order (ext_id (ev g i))"
    note F = pre_ordered_forward [OF I o(2,4), of ?pos, unfolded E(1), OF refl]
    have "reads_last (events g) ?pos"
      using extension_reads_last [OF 2(2), of co ?pos] 2(3) F ids E by simp
    moreover have "edges_forward g ?pos"
    proof -
      have "?pos i < ?pos j" if "j < length (events g)" "i \<in> preds g j" for i j
      proof -
        have "hb g i j" using that by (intro r_into_rtrancl) (simp add: sg_edge_rel_def)
        moreover have "i \<noteq> j"
          using that saturated_edge_lt [OF _ S(2), of i j] sg_run_keeps [OF S(1)] vc_lt_irrefl by (auto simp: sg_edge_rel_def)
        ultimately show ?thesis using edges_forward_hb [OF F(2)] 2(2) by (simp add: guessing_def)
      qed
      then show ?thesis by (simp add: edges_forward_def)
    qed
    moreover have "try_generate_prefix no_heuristic g current_exec = Some (Found order)"
      using False 2(1) o(1) by (simp add: try_generate_prefix_def Let_def)
    ultimately show ?thesis using o(2,3) E(2) by (auto simp: sc_execution_def)
  qed (use False in \<open>simp add: try_generate_prefix_def Let_def\<close>)
qed (simp add: try_generate_prefix_def)

text \<open>The example graph has one store, so that the heuristic adds no edge and finds an order.\<close>

theorem try_generate_prefix_correct_witness:
  "\<exists>g order. saturate mp_3 = Some (Done True g) \<and> try_generate_prefix False g [10, 11, 12] = Some (Found order) \<and>
     set order = {10, 11, 12} \<and> sc_execution g (\<lambda>i. find_pos order (ext_id (ev g i)))"
proof -
  have I: "sg_inv mp_3" "sg_index mp_3" using sg_run_keeps [OF mp_run] by blast+
  obtain g where g: "saturate mp_3 = Some (Done True g)" "sc_execution g (\<lambda>i. i)" "clocks_sound g (\<lambda>i. i)"
    using saturate_sound [OF I(1)] sg_run_execution [OF mp_run mp_reads] by blast
  note S = saturate_run [OF mp_run g(1)]
  have E: "events g = events mp_3" "event_ids g = [10, 11, 12]"
    using S(4) by (simp_all add: sg_indices_def event_ids_def mp_events)
  have len: "length (events g) = 3" by (simp add: E mp_events)
  have J: "sg_inv g" "sg_index g" using sg_run_keeps [OF S(1)] by blast+
  obtain h where h: "saturate g = Some (Done True h)" using saturate_sound [OF J(1) g(2,3)] by blast
  have ext: "ext_id (ev g 0) = 10" "ext_id (ev g 1) = 11" "ext_id (ev g 2) = 12" by (simp_all add: E mp_events)
  note Q = event_queries [OF J(2), of 0, unfolded ext] event_queries [OF J(2), of 1, unfolded ext]
    event_queries [OF J(2), of 2, unfolded ext]
  have H: "sg_indices h = sg_indices g" by (rule saturate_indices [OF J(1) h])
  have "event_is_store h 12 = event_is_store g 12" using H by (simp add: sg_indices_def event_is_store_def)
  then have "guess_coherence [10, 11, 12] [10, 11, 12] g (\<lambda>_. []) = Some (Found (h, (\<lambda>_. [])(7 := [11])))"
    using Q len h S(2) by (simp add: guess_store_def E mp_events)
  moreover have "filter (has_event g) [10, 11, 12] = [10, 11, 12]"
    using has_event_ids [OF J(2)] E(2) by simp
  ultimately have "try_generate_prefix False g [10, 11, 12] \<noteq> Some NoPrefix"
    by (simp add: try_generate_prefix_def del: filter.simps)
  then show ?thesis
    using try_generate_prefix_correct [OF mp_run g(1), of "[10, 11, 12]" False] E(2) g(1) by auto
qed

end
