(* ===== verification/RFSC.thy ===== *)
theory RFSC
  imports DecisionTree Unfolding CPids PrefixHeuristic
begin

text \<open>
  The trace builder of the optimal reads-from exploration, \<^verbatim>\<open>src/src/RFSCTraceBuilder.h\<close> and \<^verbatim>\<open>src/src/RFSCTraceBuilder.cpp\<close>.
  The members of the class are the fields of the record \<open>rfsc\<close>, every method is a function on it. A result \<open>None\<close> is a failed
  assertion or an abort. Threads are numbers, positions in the prefix are integers with \<open>-1\<close> for none, and a
  \<^verbatim>\<open>std::map\<close> that is read with \<^verbatim>\<open>operator[]\<close> is a function with the default value. The decision tree and the unfolding tree
  are shared with other builders: they are arguments and results of the methods that use them, and pointers into
  them are node numbers. Metadata pointers are opaque numbers.

  Condition variables, full memory conflicts and nondeterministic events are rejected by the code with an error before
  any other effect; the statements after the \<^verbatim>\<open>return\<close> cannot be reached and are left out, with the member \<^verbatim>\<open>cond_vars\<close>.
\<close>

section \<open>State\<close>

record rf_thread =
  rt_cpid :: cpid
  rt_available :: bool
  rt_spawn_event :: int
  rt_event_indices :: "nat list"

definition RF_Thread :: "cpid \<Rightarrow> int \<Rightarrow> rf_thread" where
  "RF_Thread c spawn_event =
     \<lparr>rt_cpid = c, rt_available = True, rt_spawn_event = spawn_event, rt_event_indices = []\<rparr>"

definition last_event_index :: "rf_thread \<Rightarrow> nat" where
  "last_event_index t = length (rt_event_indices t)"

record rf_event =
  re_alt :: nat
  re_size :: nat
  re_pinned :: bool
  re_iid :: "nat \<times> nat"
  re_md :: nat
  re_clock :: vclock
  re_above_clock :: vclock
  re_happens_after :: "nat list"
  re_may_conflict :: bool
  re_event :: "nat option"
  re_read_from :: "int option"
  re_sym :: symev
  re_decision_ptr :: "nat option"
  re_decision_depth :: int

definition RF_Event :: "nat \<times> nat \<Rightarrow> symev \<Rightarrow> rf_event" where
  "RF_Event i s =
     \<lparr>re_alt = 0, re_size = 1, re_pinned = False, re_iid = i, re_md = 0, re_clock = [], re_above_clock = [],
      re_happens_after = [], re_may_conflict = False, re_event = None, re_read_from = None, re_sym = s,
      re_decision_ptr = None, re_decision_depth = -1\<rparr>"

abbreviation re_pid :: "rf_event \<Rightarrow> nat" where
  "re_pid e \<equiv> fst (re_iid e)"

abbreviation re_index :: "rf_event \<Rightarrow> nat" where
  "re_index e \<equiv> snd (re_iid e)"

record rf_mutex =
  rm_last_access :: int
  rm_last_lock :: int
  rm_locked :: bool

definition RF_Mutex :: "int \<Rightarrow> rf_mutex" where
  "RF_Mutex lacc = \<lparr>rm_last_access = lacc, rm_last_lock = -1, rm_locked = False\<rparr>"

record rfsc =
  rf_threads :: "rf_thread list"
  rf_CPS :: cpid_system
  rf_mem :: "symaddr \<Rightarrow> int"
  rf_mutexes :: "symaddr \<rightharpoonup> rf_mutex"
  rf_mutex_deadlocks :: "symaddr \<Rightarrow> nat list"
  rf_prefix :: "rf_event list"
  rf_below_clocks :: vclock_vec
  rf_prefix_idx :: int
  rf_seen_effect :: bool
  rf_replay :: bool
  rf_cancelled :: bool
  rf_replay_point :: int
  rf_last_md :: nat
  rf_tasks_created :: int
  rf_work_item :: "nat option"
  rf_errors :: "((cpid \<times> nat) \<times> string) list"
  rf_max_search_depth :: int
  rf_mutex_require_init :: bool

text \<open>The constructor; it leaves \<^verbatim>\<open>seen_effect\<close> unset (\<open>s\<close>).\<close>

definition RFSCTraceBuilder :: "int \<Rightarrow> bool \<Rightarrow> bool \<Rightarrow> rfsc" where
  "RFSCTraceBuilder depth require_init s =
     \<lparr>rf_threads = [RF_Thread CPid (-1)], rf_CPS = CPidSystem, rf_mem = (\<lambda>_. -1), rf_mutexes = (\<lambda>_. None),
      rf_mutex_deadlocks = (\<lambda>_. []), rf_prefix = [], rf_below_clocks = cv_new 0 0, rf_prefix_idx = -1,
      rf_seen_effect = s, rf_replay = False, rf_cancelled = False, rf_replay_point = 0, rf_last_md = 0,
      rf_tasks_created = 0, rf_work_item = None, rf_errors = [], rf_max_search_depth = depth,
      rf_mutex_require_init = require_init\<rparr>"

section \<open>Access to the state\<close>

abbreviation rth :: "rfsc \<Rightarrow> nat \<Rightarrow> rf_thread" where
  "rth st p \<equiv> rf_threads st ! p"

abbreviation rfe :: "rfsc \<Rightarrow> nat \<Rightarrow> rf_event" where
  "rfe st i \<equiv> rf_prefix st ! i"

definition rf_upd_th :: "nat \<Rightarrow> (rf_thread \<Rightarrow> rf_thread) \<Rightarrow> rfsc \<Rightarrow> rfsc" where
  "rf_upd_th p f st = st\<lparr>rf_threads := (rf_threads st)[p := f (rth st p)]\<rparr>"

definition rf_upd_ev :: "nat \<Rightarrow> (rf_event \<Rightarrow> rf_event) \<Rightarrow> rfsc \<Rightarrow> rfsc" where
  "rf_upd_ev i f st = st\<lparr>rf_prefix := (rf_prefix st)[i := f (rfe st i)]\<rparr>"

definition rf_curev :: "rfsc \<Rightarrow> rf_event option" where
  "rf_curev st = do {
     assertp (0 \<le> rf_prefix_idx st);
     assertp (rf_prefix_idx st < int (length (rf_prefix st)));
     Some (rfe st (nat (rf_prefix_idx st)))
   }"

abbreviation rf_upd_cur :: "(rf_event \<Rightarrow> rf_event) \<Rightarrow> rfsc \<Rightarrow> rfsc" where
  "rf_upd_cur f st \<equiv> rf_upd_ev (nat (rf_prefix_idx st)) f st"

definition rf_ipid :: "rfsc \<Rightarrow> nat \<Rightarrow> int \<Rightarrow> nat option" where
  "rf_ipid st proc aux = do {
     assertp (aux = -1);
     assertp (proc < length (rf_threads st));
     Some proc
   }"

text \<open>The event of a thread that contains its instruction number \<open>index\<close>.\<close>

definition rf_find_process_event :: "rfsc \<Rightarrow> nat \<Rightarrow> nat \<Rightarrow> nat option" where
  "rf_find_process_event st pid index = do {
     assertp (pid < length (rf_threads st));
     assertp (1 \<le> index \<and> index \<le> length (rt_event_indices (rth st pid)));
     let k = rt_event_indices (rth st pid) ! (index - 1);
     assertp (k < length (rf_prefix st));
     assertp (re_size (rfe st k) > 0);
     assertp (re_pid (rfe st k) = pid \<and> re_index (rfe st k) \<le> index \<and> re_index (rfe st k) + re_size (rfe st k) > index);
     Some k
   }"

definition rf_try_find_process_event :: "rfsc \<Rightarrow> nat \<Rightarrow> nat \<Rightarrow> nat option option" where
  "rf_try_find_process_event st pid index = do {
     assertp (pid < length (rf_threads st));
     assertp (1 \<le> index);
     if index > length (rt_event_indices (rth st pid)) then Some None
     else map_option Some (rf_find_process_event st pid index)
   }"

text \<open>\<open>Some None\<close> is the result \<^verbatim>\<open>nullptr\<close>.\<close>

definition rf_po_predecessor :: "rfsc \<Rightarrow> nat \<Rightarrow> nat option option" where
  "rf_po_predecessor st i =
     (if re_index (rfe st i) = 1 then Some None
      else map_option Some (rf_find_process_event st (re_pid (rfe st i)) (re_index (rfe st i) - 1)))"

definition rf_get_iid :: "rfsc \<Rightarrow> (cpid \<times> nat) option" where
  "rf_get_iid st = do {
     e \<leftarrow> rf_curev st;
     Some (rt_cpid (rth st (re_pid e)), re_index e)
   }"

definition rf_error :: "string \<Rightarrow> rfsc \<Rightarrow> rfsc option" where
  "rf_error msg st = do {
     loc \<leftarrow> rf_get_iid st;
     Some (st\<lparr>rf_errors := rf_errors st @ [(loc, msg)]\<rparr>)
   }"

section \<open>Scheduling\<close>

definition rf_mark_available :: "nat \<Rightarrow> int \<Rightarrow> rfsc \<Rightarrow> rfsc option" where
  "rf_mark_available proc aux st =
     map_option (\<lambda>p. rf_upd_th p (\<lambda>t. t\<lparr>rt_available := True\<rparr>) st) (rf_ipid st proc aux)"

definition rf_mark_unavailable :: "nat \<Rightarrow> int \<Rightarrow> rfsc \<Rightarrow> rfsc option" where
  "rf_mark_unavailable proc aux st =
     map_option (\<lambda>p. rf_upd_th p (\<lambda>t. t\<lparr>rt_available := False\<rparr>) st) (rf_ipid st proc aux)"

definition push_event_index :: "nat \<Rightarrow> rfsc \<Rightarrow> rfsc" where
  "push_event_index p st =
     rf_upd_th p (\<lambda>t. t\<lparr>rt_event_indices := rt_event_indices t @ [nat (rf_prefix_idx st)]\<rparr>) st"

text \<open>
  \<^verbatim>\<open>schedule\<close> returns the process and the alternative, or \<open>None\<close> when it returns false; \<^verbatim>\<open>aux\<close> is always \<open>-1\<close> and
  \<^verbatim>\<open>dryrun\<close> false.
\<close>

type_synonym rf_scheduled = "(nat \<times> nat) option"

definition rf_unfinished :: "rfsc \<Rightarrow> bool option" where
  "rf_unfinished st =
     (if 0 \<le> rf_prefix_idx st then do {
        e \<leftarrow> rf_curev st;
        assertp (re_pid e < length (rf_threads st));
        Some (last_event_index (rth st (re_pid e)) < re_index e + re_size e - 1)
      } else Some False)"

text \<open>The assertion that the event that was replayed had the effect of its first execution.\<close>

definition rf_effect_seen :: "rfsc \<Rightarrow> bool option" where
  "rf_effect_seen st =
     (if rf_prefix_idx st < 0 then Some True
      else do {
        e \<leftarrow> rf_curev st;
        Some (ev_empty (re_sym e) \<noteq> rf_seen_effect st \<or>
              (rf_errors st \<noteq> [] \<and> fst (last (rf_errors st)) = (rt_cpid (rth st (re_pid e)), re_index e)))
      })"

definition rf_replay_continue :: "rfsc \<Rightarrow> (rf_scheduled \<times> rfsc) option" where
  "rf_replay_continue st = do {
     e \<leftarrow> rf_curev st;
     let pid = re_pid e;
     assertp (rt_available (rth st pid));
     Some (Some (pid, 0), push_event_index pid st)
   }"

definition rf_replay_next :: "rfsc \<Rightarrow> (rf_scheduled \<times> rfsc) option" where
  "rf_replay_next st0 = do {
     ok \<leftarrow> rf_effect_seen st0;
     assertp ok;
     let st = st0\<lparr>rf_seen_effect := False, rf_prefix_idx := rf_prefix_idx st0 + 1\<rparr>;
     e \<leftarrow> rf_curev st;
     let pid = re_pid e;
     assertp (pid < length (rf_threads st));
     assertp (rt_available (rth st pid));
     Some (Some (pid, re_alt e), push_event_index pid st)
   }"

definition rf_merge_last :: "rfsc \<Rightarrow> rfsc option" where
  "rf_merge_last st =
     (let n = length (rf_prefix st) in
      if n > 1 \<and> re_pid (rfe st (n - 1)) = re_pid (rfe st (n - 2)) \<and> \<not> re_may_conflict (rfe st (n - 1)) then do {
        e \<leftarrow> rf_curev st;
        assertp (ev_empty (re_sym e));
        let st1 = st\<lparr>rf_prefix := butlast (rf_prefix st), rf_prefix_idx := rf_prefix_idx st - 1\<rparr>;
        e1 \<leftarrow> rf_curev st1;
        let st2 = rf_upd_cur (\<lambda>e. e\<lparr>re_size := re_size e + 1\<rparr>) st1;
        let idx = rt_event_indices (rth st2 (re_pid e1));
        assertp (idx \<noteq> [] \<and> int (last idx) = rf_prefix_idx st2 + 1);
        Some (rf_upd_th (re_pid e1) (\<lambda>t. t\<lparr>rt_event_indices := butlast idx @ [nat (rf_prefix_idx st2)]\<rparr>) st2)
      } else Some st)"

definition rf_can_run :: "rfsc \<Rightarrow> nat \<Rightarrow> bool" where
  "rf_can_run st p =
     (rt_available (rth st p) \<and>
      (rf_max_search_depth st < 0 \<or> int (last_event_index (rth st p)) < rf_max_search_depth st))"

definition rf_schedule_new :: "rfsc \<Rightarrow> (rf_scheduled \<times> rfsc) option" where
  "rf_schedule_new st0 = do {
     assertp (\<not> rf_replay st0);
     st \<leftarrow> rf_merge_last st0;
     (case find (rf_can_run st) [0..<length (rf_threads st)] of
        None \<Rightarrow> Some (None, st)
      | Some p \<Rightarrow> do {
          let st1 = st\<lparr>rf_seen_effect := False, rf_prefix_idx := rf_prefix_idx st + 1\<rparr>;
          assertp (rf_prefix_idx st1 = int (length (rf_prefix st1)));
          let st2 = push_event_index p st1;
          Some (Some (p, 0), st2\<lparr>rf_prefix := rf_prefix st2 @ [RF_Event (p, last_event_index (rth st2 p)) ev_None]\<rparr>)
        })
   }"

definition rf_schedule :: "rfsc \<Rightarrow> (rf_scheduled \<times> rfsc) option" where
  "rf_schedule st =
     (if rf_cancelled st then do {
        assertp (\<not> list_ex rt_available (rf_threads st));
        Some (None, st)
      }
      else if rf_replay st then do {
        unfinished \<leftarrow> rf_unfinished st;
        if unfinished then rf_replay_continue st
        else if rf_prefix_idx st + 1 = int (length (rf_prefix st)) then do {
          ok \<leftarrow> rf_effect_seen st;
          assertp ok;
          rf_schedule_new (st\<lparr>rf_replay := False\<rparr>)
        }
        else rf_replay_next st
      }
      else rf_schedule_new st)"

definition rf_refuse_schedule :: "rfsc \<Rightarrow> rfsc option" where
  "rf_refuse_schedule st = do {
     assertp (rf_prefix_idx st = int (length (rf_prefix st)) - 1);
     e \<leftarrow> rf_curev st;
     assertp (re_size e = 1);
     assertp (\<not> re_may_conflict e);
     let last_pid = re_pid e;
     let st1 = st\<lparr>rf_prefix := butlast (rf_prefix st)\<rparr>;
     let idx = rt_event_indices (rth st1 last_pid);
     assertp (idx \<noteq> [] \<and> int (last idx) = rf_prefix_idx st1);
     let st2 = rf_upd_th last_pid (\<lambda>t. t\<lparr>rt_event_indices := butlast idx\<rparr>) st1;
     rf_mark_unavailable last_pid (-1) (st2\<lparr>rf_prefix_idx := rf_prefix_idx st2 - 1\<rparr>)
   }"

definition rf_is_replaying :: "rfsc \<Rightarrow> bool" where
  "rf_is_replaying st = (rf_prefix_idx st < rf_replay_point st)"

definition rf_metadata :: "nat \<Rightarrow> rfsc \<Rightarrow> rfsc option" where
  "rf_metadata md st = do {
     e \<leftarrow> rf_curev st;
     Some (rf_upd_cur (\<lambda>e. e\<lparr>re_md := md\<rparr>) (st\<lparr>rf_last_md := md\<rparr>))
   }"

text \<open>
  \<^verbatim>\<open>cancel_replay\<close> blames the deepest decision among the events so far and prunes the tree below it.
\<close>

definition rf_blame :: "rf_event list \<Rightarrow> int \<times> int" where
  "rf_blame es =
     fold (\<lambda>(i, e) (blame, max_depth).
        if re_decision_depth e > max_depth then (int i, re_decision_depth e) else (blame, max_depth))
       (enumerate 0 es) (-1, -1)"

definition rf_cancel_replay :: "rfsc \<Rightarrow> ('x, 'a) dtree \<Rightarrow> (rfsc \<times> ('x, 'a) dtree) option" where
  "rf_cancel_replay st tr = do {
     assertp (rf_replay st = rf_is_replaying st);
     let st1 = st\<lparr>rf_cancelled := True, rf_replay := False\<rparr>;
     let blame = fst (rf_blame (take (nat (rf_prefix_idx st1 + 1)) (rf_prefix st1)));
     if blame \<noteq> -1 then do {
       n \<leftarrow> re_decision_ptr (rfe st1 (nat blame));
       tr1 \<leftarrow> prune_decisions n tr;
       Some (st1, tr1)
     } else Some (st1, tr)
   }"

section \<open>Registration of events\<close>

definition rf_pid_str :: "rfsc \<Rightarrow> int \<Rightarrow> string" where
  "rf_pid_str st p =
     (if p < 0 \<or> p \<ge> int (length (rf_threads st)) then show_int p else cpid_to_string (rt_cpid (rth st (nat p))))"

definition rf_record_symbolic :: "symev \<Rightarrow> rfsc \<Rightarrow> (bool \<times> rfsc) option" where
  "rf_record_symbolic event st = do {
     assertp (\<not> rf_seen_effect st);
     e \<leftarrow> rf_curev st;
     let recorded = rf_upd_cur (\<lambda>e. e\<lparr>re_sym := event\<rparr>) (st\<lparr>rf_seen_effect := True\<rparr>);
     if \<not> rf_replay st then Some (True, recorded)
     else do {
       same \<leftarrow> is_compatible_with (re_sym e) event;
       if same then Some (True, recorded)
       else do {
         was \<leftarrow> ev_to_string (rf_pid_str st) (re_sym e);
         became \<leftarrow> ev_to_string (rf_pid_str st) event;
         st1 \<leftarrow> rf_error (''Event with effect '' @ was @ '' became '' @ became @ '' when replayed'') st;
         Some (False, st1)
       }
     }
   }"

text \<open>\<^verbatim>\<open>if (!record_symbolic(event)) return false;\<close> and the rest of the method.\<close>

definition rf_recorded :: "symev \<Rightarrow> (rfsc \<Rightarrow> rfsc option) \<Rightarrow> rfsc \<Rightarrow> (bool \<times> rfsc) option" where
  "rf_recorded event f st = do {
     (ok, st1) \<leftarrow> rf_record_symbolic event st;
     if ok then map_option (Pair True) (f st1) else Some (False, st1)
   }"

definition rf_set_may_conflict :: "rfsc \<Rightarrow> rfsc option" where
  "rf_set_may_conflict st = do {
     e \<leftarrow> rf_curev st;
     Some (rf_upd_cur (\<lambda>e. e\<lparr>re_may_conflict := True\<rparr>) st)
   }"

definition rf_spawn :: "rfsc \<Rightarrow> (bool \<times> rfsc) option" where
  "rf_spawn st0 = do {
     st \<leftarrow> rf_set_may_conflict st0;
     rf_recorded (ev_Spawn (int (length (rf_threads st)))) (\<lambda>st1. do {
       e \<leftarrow> rf_curev st1;
       (child_cpid, cps) \<leftarrow> cs_spawn (rf_CPS st1) (rt_cpid (rth st1 (re_pid e)));
       Some (st1\<lparr>rf_CPS := cps, rf_threads := rf_threads st1 @ [RF_Thread child_cpid (rf_prefix_idx st1)]\<rparr>)
     }) st
   }"

text \<open>Stores are atomic under sequential consistency: \<^verbatim>\<open>store\<close> aborts.\<close>

definition rf_store :: "symdata \<Rightarrow> rfsc \<Rightarrow> (bool \<times> rfsc) option" where
  "rf_store sd st = None"

definition rf_do_atomic_store :: "symdata \<Rightarrow> rfsc \<Rightarrow> rfsc option" where
  "rf_do_atomic_store sd st0 = do {
     st \<leftarrow> rf_set_may_conflict st0;
     Some (st\<lparr>rf_mem := fold (\<lambda>b m. m(b := rf_prefix_idx st)) (as_elements (sd_ref sd)) (rf_mem st)\<rparr>)
   }"

definition rf_get_addr :: "rfsc \<Rightarrow> nat \<Rightarrow> symaddrsize option" where
  "rf_get_addr st i = ev_addr (re_sym (rfe st i))"

definition rf_do_load :: "symaddrsize \<Rightarrow> rfsc \<Rightarrow> rfsc option" where
  "rf_do_load ml st0 = do {
     st1 \<leftarrow> rf_set_may_conflict st0;
     let lu = rf_mem st1 (as_addr ml);
     let st = rf_upd_cur (\<lambda>e. e\<lparr>re_read_from := Some lu\<rparr>) st1;
     (if lu = -1 then Some () else do {
        a \<leftarrow> rf_get_addr st (nat lu);
        assertp (a = ml)
      });
     assertp (list_all (\<lambda>b. rf_mem st b = lu) (as_elements ml));
     Some st
   }"

definition rf_atomic_store :: "symdata \<Rightarrow> rfsc \<Rightarrow> (bool \<times> rfsc) option" where
  "rf_atomic_store sd = rf_recorded (ev_Store sd) (rf_do_atomic_store sd)"

definition rf_atomic_rmw :: "symdata \<Rightarrow> rmw_kind \<Rightarrow> bytes option \<Rightarrow> bool \<Rightarrow> rfsc \<Rightarrow> (bool \<times> rfsc) option" where
  "rf_atomic_rmw sd k operand used st = do {
     event \<leftarrow> ev_Rmw sd k operand used;
     rf_recorded event (\<lambda>st. rf_do_load (sd_ref sd) st \<bind> rf_do_atomic_store sd) st
   }"

definition rf_load :: "symaddrsize \<Rightarrow> rfsc \<Rightarrow> (bool \<times> rfsc) option" where
  "rf_load ml = rf_recorded (ev_Load ml) (rf_do_load ml)"

definition rf_compare_exchange :: "symdata \<Rightarrow> bytes option \<Rightarrow> bool \<Rightarrow> rfsc \<Rightarrow> (bool \<times> rfsc) option" where
  "rf_compare_exchange sd expected success =
     (if success then rf_recorded (ev_CmpXhg sd expected) (\<lambda>st. rf_do_load (sd_ref sd) st \<bind> rf_do_atomic_store sd)
      else rf_recorded (ev_CmpXhgFail sd expected) (rf_do_load (sd_ref sd)))"

definition rf_unsupported :: "string \<Rightarrow> rfsc \<Rightarrow> (bool \<times> rfsc) option" where
  "rf_unsupported msg st = map_option (Pair False) (rf_error msg st)"

definition rf_full_memory_conflict :: "rfsc \<Rightarrow> (bool \<times> rfsc) option" where
  "rf_full_memory_conflict = rf_unsupported ''RFSC does not support black-box functions with memory effects''"

definition rf_fence :: "rfsc \<Rightarrow> (bool \<times> rfsc) option" where
  "rf_fence st = Some (True, st)"

definition rf_add_happens_after :: "nat \<Rightarrow> nat \<Rightarrow> rfsc \<Rightarrow> rfsc option" where
  "rf_add_happens_after second first st = do {
     assertp (first < second);
     assertp (int second \<le> rf_prefix_idx st);
     let vec = re_happens_after (rfe st second);
     Some (if vec \<noteq> [] \<and> last vec = first then st
           else rf_upd_ev second (\<lambda>e. e\<lparr>re_happens_after := vec @ [first]\<rparr>) st)
   }"

definition rf_add_happens_after_thread :: "nat \<Rightarrow> nat \<Rightarrow> rfsc \<Rightarrow> rfsc option" where
  "rf_add_happens_after_thread second thread st = do {
     assertp (int second = rf_prefix_idx st);
     assertp (thread < length (rf_threads st));
     if rt_event_indices (rth st thread) = [] then Some st
     else rf_add_happens_after second (last (rt_event_indices (rth st thread))) st
   }"

definition rf_join :: "nat \<Rightarrow> rfsc \<Rightarrow> (bool \<times> rfsc) option" where
  "rf_join tgt_proc st0 = do {
     st \<leftarrow> rf_set_may_conflict st0;
     rf_recorded (ev_Join (int tgt_proc)) (\<lambda>st1. rf_add_happens_after_thread (nat (rf_prefix_idx st1)) tgt_proc st1) st
   }"

subsection \<open>Mutexes\<close>

definition rf_mutex_at :: "rfsc \<Rightarrow> symaddr \<Rightarrow> rf_mutex" where
  "rf_mutex_at st a = (case rf_mutexes st a of None \<Rightarrow> RF_Mutex (-1) | Some m \<Rightarrow> m)"

definition rf_read_mutex :: "symaddr \<Rightarrow> rfsc \<Rightarrow> rfsc" where
  "rf_read_mutex a st = rf_upd_cur (\<lambda>e. e\<lparr>re_read_from := Some (rm_last_access (rf_mutex_at st a))\<rparr>) st"

definition rf_mutex_lock :: "symaddrsize \<Rightarrow> rfsc \<Rightarrow> (bool \<times> rfsc) option" where
  "rf_mutex_lock ml st0 = do {
     st \<leftarrow> rf_set_may_conflict st0;
     rf_recorded (ev_MLock ml) (\<lambda>st1.
       let st2 = rf_read_mutex (as_addr ml) st1; i = rf_prefix_idx st2 in
       Some (st2\<lparr>rf_mutexes := (rf_mutexes st2)(as_addr ml \<mapsto>
         (rf_mutex_at st2 (as_addr ml))\<lparr>rm_last_lock := i, rm_last_access := i, rm_locked := True\<rparr>)\<rparr>)) st
   }"

definition rf_mutex_lock_fail :: "symaddrsize \<Rightarrow> rfsc \<Rightarrow> (bool \<times> rfsc) option" where
  "rf_mutex_lock_fail ml st = do {
     assertp (\<not> rf_mutex_require_init st \<or> rf_mutexes st (as_addr ml) \<noteq> None);
     assertp (0 \<le> rm_last_lock (rf_mutex_at st (as_addr ml)) \<and> rm_locked (rf_mutex_at st (as_addr ml)));
     e \<leftarrow> rf_curev st;
     let current = re_pid e;
     assertp (current \<notin> set (rf_mutex_deadlocks st (as_addr ml)));
     Some (True, st\<lparr>rf_mutex_deadlocks := (rf_mutex_deadlocks st)(as_addr ml := rf_mutex_deadlocks st (as_addr ml) @ [current])\<rparr>)
   }"

definition rf_mutex_trylock :: "symaddrsize \<Rightarrow> rfsc \<Rightarrow> (bool \<times> rfsc) option" where
  "rf_mutex_trylock ml st0 = do {
     let a = as_addr ml;
     let locked = rm_locked (rf_mutex_at st0 a);
     st \<leftarrow> rf_set_may_conflict (st0\<lparr>rf_mutexes := (rf_mutexes st0)(a \<mapsto> rf_mutex_at st0 a)\<rparr>);
     rf_recorded (if locked then ev_MTryLockFail ml else ev_MTryLock ml) (\<lambda>st1.
       let st2 = rf_read_mutex a st1; i = rf_prefix_idx st2; m = (rf_mutex_at st2 a)\<lparr>rm_last_access := i\<rparr> in
       Some (st2\<lparr>rf_mutexes := (rf_mutexes st2)(a \<mapsto>
         (if \<not> locked then m\<lparr>rm_last_lock := i, rm_locked := True\<rparr> else m))\<rparr>)) st
   }"

definition rf_mutex_unlock :: "symaddrsize \<Rightarrow> rfsc \<Rightarrow> (bool \<times> rfsc) option" where
  "rf_mutex_unlock ml st0 = do {
     let a = as_addr ml;
     st \<leftarrow> rf_set_may_conflict st0;
     rf_recorded (ev_MUnlock ml) (\<lambda>st1. do {
       let st2 = rf_read_mutex a st1;
       assertp (0 \<le> rm_last_access (rf_mutex_at st2 a));
       Some (st2\<lparr>rf_mutexes := (rf_mutexes st2)(a \<mapsto>
               (rf_mutex_at st2 a)\<lparr>rm_last_access := rf_prefix_idx st2, rm_locked := False\<rparr>),
             rf_mutex_deadlocks := (rf_mutex_deadlocks st2)(a := [])\<rparr>)
     }) st
   }"

definition rf_mutex_init :: "symaddrsize \<Rightarrow> rfsc \<Rightarrow> (bool \<times> rfsc) option" where
  "rf_mutex_init ml st0 = do {
     st \<leftarrow> rf_set_may_conflict st0;
     rf_recorded (ev_MInit ml) (\<lambda>st1. do {
       assertp (rf_mutexes st1 (as_addr ml) = None);
       let st2 = rf_upd_cur (\<lambda>e. e\<lparr>re_read_from := Some (-1)\<rparr>) st1;
       Some (st2\<lparr>rf_mutexes := (rf_mutexes st2)(as_addr ml \<mapsto> RF_Mutex (rf_prefix_idx st2))\<rparr>)
     }) st
   }"

definition rf_mutex_destroy :: "symaddrsize \<Rightarrow> rfsc \<Rightarrow> (bool \<times> rfsc) option" where
  "rf_mutex_destroy ml st0 = do {
     st \<leftarrow> rf_set_may_conflict st0;
     rf_recorded (ev_MDelete ml) (\<lambda>st1.
       let st2 = rf_read_mutex (as_addr ml) st1 in
       Some (st2\<lparr>rf_mutexes := (rf_mutexes st2)(as_addr ml \<mapsto>
         (rf_mutex_at st2 (as_addr ml))\<lparr>rm_last_access := rf_prefix_idx st2, rm_locked := False\<rparr>)\<rparr>)) st
   }"

text \<open>
  The operations on condition variables and \<^verbatim>\<open>register_alternatives\<close> report an error. \<^verbatim>\<open>cond_destroy\<close> returns an
  \<^verbatim>\<open>int\<close>, and its \<^verbatim>\<open>return false\<close> is zero.
\<close>

definition rf_cond_op :: "rfsc \<Rightarrow> (bool \<times> rfsc) option" where
  "rf_cond_op st = rf_set_may_conflict st \<bind> rf_unsupported ''RFSC does not support condition variables''"

definition rf_cond_destroy :: "rfsc \<Rightarrow> (int \<times> rfsc) option" where
  "rf_cond_destroy st = map_option (\<lambda>(b, st1). (if b then 1 else 0, st1)) (rf_cond_op st)"

definition rf_register_alternatives :: "nat \<Rightarrow> rfsc \<Rightarrow> (bool \<times> rfsc) option" where
  "rf_register_alternatives alt_count st =
     rf_set_may_conflict st \<bind> rf_unsupported ''RFSC does not support nondeterministic events''"

section \<open>The next execution\<close>

text \<open>\<^verbatim>\<open>iid_map\<close>: the next instruction number of each thread; a missing entry is 1.\<close>

definition iid_map_step :: "nat list \<Rightarrow> rf_event \<Rightarrow> nat list" where
  "iid_map_step m e =
     (let m1 = (if length m \<le> re_pid e then resize (re_pid e + 1) 1 m else m)
      in m1[re_pid e := m1 ! re_pid e + re_size e])"

definition iid_map_step_rev :: "nat list \<Rightarrow> rf_event \<Rightarrow> nat list" where
  "iid_map_step_rev m e = m[re_pid e := m ! re_pid e - re_size e]"

definition iid_map_at :: "rfsc \<Rightarrow> nat \<Rightarrow> nat list" where
  "iid_map_at st n = fold (\<lambda>e m. iid_map_step m e) (take n (rf_prefix st)) (replicate (length (rf_threads st)) 1)"

definition rf_branch_event :: "('x, 'a) dtree \<Rightarrow> nat \<Rightarrow> nat list \<Rightarrow> rf_branch \<Rightarrow> rf_event option" where
  "rf_branch_event tr work_item m b = do {
     let index = (if int (length m) \<le> rb_pid b then 1 else m ! nat (rb_pid b));
     ptr \<leftarrow> (if rb_decision_depth b = -1 then Some None
             else map_option Some (find_ancestor tr work_item (rb_decision_depth b)));
     Some ((RF_Event (nat (rb_pid b), index) (rb_sym b))\<lparr>re_size := nat (rb_size b), re_pinned := rb_pinned b,
       re_decision_depth := rb_decision_depth b, re_decision_ptr := ptr\<rparr>)
   }"

fun rf_branch_events :: "('x, 'a) dtree \<Rightarrow> nat \<Rightarrow> nat list \<Rightarrow> rf_branch list \<Rightarrow> rf_event list option" where
  "rf_branch_events tr work_item m [] = Some []"
| "rf_branch_events tr work_item m (b # bs) = do {
     e \<leftarrow> rf_branch_event tr work_item m b;
     es \<leftarrow> rf_branch_events tr work_item (iid_map_step m e) bs;
     Some (e # es)
   }"

text \<open>
  \<^verbatim>\<open>reset\<close>, with the work items in the order the scheduler hands them out (\<open>None\<close> is the null pointer). The list has an
  item for every call of \<^verbatim>\<open>get_next_work_task\<close>; the result says how many were taken.
\<close>

declare is_pruned.simps [code] get_ancestor.simps [code]

fun rf_next_item :: "('x, 'a) dtree \<Rightarrow> nat option list \<Rightarrow> int \<Rightarrow> (nat option \<times> int) option" where
  "rf_next_item tr [] tasks = None"
| "rf_next_item tr (None # items) tasks = Some (None, tasks)"
| "rf_next_item tr (Some n # items) tasks = do {
     pruned \<leftarrow> is_pruned tr n;
     if pruned then rf_next_item tr items (tasks - 1) else Some (Some n, tasks)
   }"

text \<open>The leaf and the event of the node are moved out of it.\<close>

definition take_leaf :: "nat \<Rightarrow> ('x, 'a) dtree \<Rightarrow> ('x, 'a) dtree" where
  "take_leaf n tr = tr[n := (tr ! n)\<lparr>dn_leaf := bottom_leaf, dn_unfold_node := None\<rparr>]"

definition rf_reset_to :: "rfsc \<Rightarrow> ('x, 'a) dtree \<Rightarrow> nat \<Rightarrow> (rfsc \<times> ('x, 'a) dtree) option" where
  "rf_reset_to st tr n = do {
     let l = dn_leaf (tr ! n);
     assertp (\<not> is_bottom l);
     assertp ((lf_prefix l = []) = (dn_depth (tr ! n) = -1));
     new_prefix \<leftarrow> rf_branch_events tr n [] (lf_prefix l);
     assertp (list_all (\<lambda>d. list_ex (\<lambda>e. re_decision_depth e = int d) new_prefix) [0..<nat (dn_depth (tr ! n))]);
     Some (st\<lparr>rf_work_item := Some n, rf_replay_point := int (length (lf_prefix l)), rf_prefix := new_prefix,
       rf_CPS := CPidSystem, rf_threads := [RF_Thread CPid (-1)], rf_mutexes := (\<lambda>_. None), rf_mem := (\<lambda>_. -1),
       rf_mutex_deadlocks := (\<lambda>_. []), rf_prefix_idx := -1, rf_replay := True, rf_cancelled := False, rf_last_md := 0,
       rf_tasks_created := 0\<rparr>, take_leaf n tr)
   }"

definition rf_reset :: "nat option list \<Rightarrow> rfsc \<Rightarrow> ('x, 'a) dtree \<Rightarrow> (bool \<times> rfsc \<times> ('x, 'a) dtree) option" where
  "rf_reset items st tr = do {
     (item, tasks) \<leftarrow> rf_next_item tr items (rf_tasks_created st);
     (case item of
        None \<Rightarrow> Some (False, st\<lparr>rf_work_item := None, rf_tasks_created := tasks\<rparr>, tr)
      | Some n \<Rightarrow> map_option (Pair True) (rf_reset_to (st\<lparr>rf_tasks_created := tasks\<rparr>) tr n))
   }"

end
