(* ===== verification/RFSC_Analysis.thy ===== *)
theory RFSC_Analysis
  imports RFSC
begin

text \<open>
  The analysis of a finished execution in \<^verbatim>\<open>src/src/RFSCTraceBuilder.cpp\<close>: the vector clocks and unfolding events of the
  prefix, the causal past of a decision, the formula for the solver, \<^verbatim>\<open>try_sat\<close>, and \<^verbatim>\<open>compute_prefixes\<close>, which tries
  every other source of every load. A result \<open>None\<close> is a failed assertion, an abort, or the dereference of an empty
  \<^verbatim>\<open>Option\<close>. Debug output and timing are left out.
\<close>

section \<open>Kinds of events\<close>

definition symev_is_lock_type :: "symev \<Rightarrow> bool" where
  "symev_is_lock_type e =
     (ev_kind e = M_INIT \<or> ev_kind e = M_LOCK \<or> ev_kind e = M_TRYLOCK \<or> ev_kind e = M_TRYLOCK_FAIL \<or>
      ev_kind e = M_UNLOCK \<or> ev_kind e = M_DELETE)"

abbreviation rsym :: "rfsc \<Rightarrow> nat \<Rightarrow> symev" where
  "rsym st i \<equiv> re_sym (rfe st i)"

definition rf_is_load :: "rfsc \<Rightarrow> nat \<Rightarrow> bool" where
  "rf_is_load st i =
     (ev_kind (rsym st i) = SymEvs.LOAD \<or> ev_kind (rsym st i) = SymEvs.RMW \<or> ev_kind (rsym st i) = CMPXHG \<or>
      ev_kind (rsym st i) = CMPXHGFAIL \<or> symev_is_lock_type (rsym st i))"

definition rf_is_lock :: "rfsc \<Rightarrow> nat \<Rightarrow> bool" where
  "rf_is_lock st i = (ev_kind (rsym st i) = M_LOCK)"

definition rf_does_lock :: "rfsc \<Rightarrow> nat \<Rightarrow> bool" where
  "rf_does_lock st i = (ev_kind (rsym st i) = M_LOCK \<or> ev_kind (rsym st i) = M_TRYLOCK)"

definition rf_is_trylock_fail :: "rfsc \<Rightarrow> nat \<Rightarrow> bool" where
  "rf_is_trylock_fail st i = (ev_kind (rsym st i) = M_TRYLOCK_FAIL)"

definition rf_is_unlock :: "rfsc \<Rightarrow> nat \<Rightarrow> bool" where
  "rf_is_unlock st i = (ev_kind (rsym st i) = M_UNLOCK)"

definition rf_is_minit :: "rfsc \<Rightarrow> nat \<Rightarrow> bool" where
  "rf_is_minit st i = (ev_kind (rsym st i) = M_INIT)"

definition rf_is_mdelete :: "rfsc \<Rightarrow> nat \<Rightarrow> bool" where
  "rf_is_mdelete st i = (ev_kind (rsym st i) = M_DELETE)"

definition rf_is_lock_type :: "rfsc \<Rightarrow> nat \<Rightarrow> bool" where
  "rf_is_lock_type st i = symev_is_lock_type (rsym st i)"

definition rf_is_store :: "rfsc \<Rightarrow> nat \<Rightarrow> bool" where
  "rf_is_store st i =
     (ev_kind (rsym st i) = SymEvs.STORE \<or> ev_kind (rsym st i) = CMPXHG \<or> ev_kind (rsym st i) = SymEvs.RMW \<or>
      symev_is_lock_type (rsym st i))"

definition rf_is_cmpxhgfail :: "rfsc \<Rightarrow> nat \<Rightarrow> bool" where
  "rf_is_cmpxhgfail st i = (ev_kind (rsym st i) = CMPXHGFAIL)"

text \<open>What the event at \<open>i\<close> wrote; the initial value is zero.\<close>

definition rf_get_data :: "rfsc \<Rightarrow> int \<Rightarrow> symaddrsize \<Rightarrow> symdata option" where
  "rf_get_data st i a =
     (if i = -1 then Some \<lparr>sd_ref = a, sd_block = Some (replicate (unat (as_size a)) 0)\<rparr>
      else do {
        let e = rsym st (nat i);
        assertp (has_data e);
        assertp (ev_addr e = Some a);
        ev_data e
      })"

text \<open>\<^verbatim>\<open>memcmp\<close> of the expected value and of what would be read from \<open>w\<close>.\<close>

definition cmpxhg_matches :: "rfsc \<Rightarrow> symev \<Rightarrow> int \<Rightarrow> bool option" where
  "cmpxhg_matches st e w = do {
     expected \<leftarrow> ev_expected_data e;
     actual \<leftarrow> rf_get_data st w (sd_ref expected);
     eb \<leftarrow> sd_block expected;
     ab \<leftarrow> sd_block actual;
     let n = unat (as_size (sd_ref expected));
     Some (take n eb = take n ab)
   }"

definition is_store_when_reading_from :: "rfsc \<Rightarrow> nat \<Rightarrow> int \<Rightarrow> bool option" where
  "is_store_when_reading_from st i w =
     (let e = rsym st i in
      if ev_kind e = SymEvs.STORE \<or> ev_kind e = SymEvs.RMW \<or> symev_is_lock_type e then Some True
      else if ev_kind e \<noteq> CMPXHG \<and> ev_kind e \<noteq> CMPXHGFAIL then Some False
      else cmpxhg_matches st e w)"

section \<open>Success of compare-exchange and trylock under another source\<close>

text \<open>The loop of \<^verbatim>\<open>delete_from_back\<close>, with the iterator before position \<open>k\<close>.\<close>

fun delete_from_back_loop :: "int list \<Rightarrow> int \<Rightarrow> nat \<Rightarrow> (nat \<times> int list) option" where
  "delete_from_back_loop vec val 0 = None"
| "delete_from_back_loop vec val (Suc k) =
     (if val = vec ! k then Some (k, butlast (vec[k := last vec])) else delete_from_back_loop vec val k)"

definition delete_from_back :: "int list \<Rightarrow> int \<Rightarrow> (nat \<times> int list) option" where
  "delete_from_back vec val = delete_from_back_loop vec val (length vec)"

datatype undo_kind = UNDO_NONE | SUCCEED | FAIL | M_SUCCEED | M_FAIL

record undo_log =
  ul_kind :: undo_kind
  ul_idx :: nat
  ul_pos :: nat

definition set_sym :: "nat \<Rightarrow> symev \<Rightarrow> rfsc \<Rightarrow> rfsc" where
  "set_sym i s = rf_upd_ev i (\<lambda>e. e\<lparr>re_sym := s\<rparr>)"

definition recompute_trylock :: "nat \<Rightarrow> int list \<Rightarrow> rfsc \<Rightarrow> (undo_log \<times> int list \<times> rfsc) option" where
  "recompute_trylock idx writes st = do {
     let e = rsym st idx;
     let did = (ev_kind e = M_TRYLOCK);
     w \<leftarrow> re_read_from (rfe st idx);
     let after = (w = -1 \<or> \<not> rf_does_lock st (nat w));
     if after \<and> \<not> did then do {
       a \<leftarrow> ev_addr e;
       Some (\<lparr>ul_kind = M_FAIL, ul_idx = idx, ul_pos = length writes\<rparr>, writes @ [int idx], set_sym idx (ev_MTryLock a) st)
     }
     else if did \<and> \<not> after then do {
       a \<leftarrow> ev_addr e;
       (pos, writes1) \<leftarrow> delete_from_back writes (int idx);
       Some (\<lparr>ul_kind = M_SUCCEED, ul_idx = idx, ul_pos = pos\<rparr>, writes1, set_sym idx (ev_MTryLockFail a) st)
     }
     else Some (\<lparr>ul_kind = UNDO_NONE, ul_idx = idx, ul_pos = 0\<rparr>, writes, st)
   }"

definition recompute_cmpxhg :: "nat \<Rightarrow> int list \<Rightarrow> rfsc \<Rightarrow> (undo_log \<times> int list \<times> rfsc) option" where
  "recompute_cmpxhg idx writes st = do {
     let e = rsym st idx;
     let did = (ev_kind e = CMPXHG);
     w \<leftarrow> re_read_from (rfe st idx);
     after \<leftarrow> cmpxhg_matches st e w;
     d \<leftarrow> ev_data e;
     expected \<leftarrow> ev_expected_data e;
     let st1 = set_sym idx (if after then ev_CmpXhg d (sd_block expected) else ev_CmpXhgFail d (sd_block expected)) st;
     if after \<and> \<not> did then
       Some (\<lparr>ul_kind = FAIL, ul_idx = idx, ul_pos = length writes\<rparr>, writes @ [int idx], st1)
     else if did \<and> \<not> after then do {
       (pos, writes1) \<leftarrow> delete_from_back writes (int idx);
       Some (\<lparr>ul_kind = SUCCEED, ul_idx = idx, ul_pos = pos\<rparr>, writes1, st1)
     }
     else Some (\<lparr>ul_kind = UNDO_NONE, ul_idx = idx, ul_pos = 0\<rparr>, writes, st1)
   }"

definition recompute_cmpxhg_success :: "nat \<Rightarrow> int list \<Rightarrow> rfsc \<Rightarrow> (undo_log \<times> int list \<times> rfsc) option" where
  "recompute_cmpxhg_success idx writes st =
     (let k = ev_kind (rsym st idx) in
      if k = M_TRYLOCK \<or> k = M_TRYLOCK_FAIL then recompute_trylock idx writes st
      else if k \<noteq> CMPXHG \<and> k \<noteq> CMPXHGFAIL then Some (\<lparr>ul_kind = UNDO_NONE, ul_idx = idx, ul_pos = 0\<rparr>, writes, st)
      else recompute_cmpxhg idx writes st)"

text \<open>The labels \<^verbatim>\<open>succeed_cont\<close> and \<^verbatim>\<open>fail_cont\<close>.\<close>

definition undo_succeed :: "undo_log \<Rightarrow> int list \<Rightarrow> int list option" where
  "undo_succeed l writes = do {
     let w = writes @ [int (ul_idx l)];
     assertp (length w > ul_pos l);
     Some (w[length w - 1 := w ! ul_pos l, ul_pos l := last w])
   }"

definition undo_fail :: "undo_log \<Rightarrow> int list \<Rightarrow> int list option" where
  "undo_fail l writes = do {
     assertp (writes \<noteq> [] \<and> last writes = int (ul_idx l));
     assertp (length writes - 1 = ul_pos l);
     Some (butlast writes)
   }"

definition undo_cmpxhg_recomputation :: "undo_log \<Rightarrow> int list \<Rightarrow> rfsc \<Rightarrow> (int list \<times> rfsc) option" where
  "undo_cmpxhg_recomputation l writes st =
     (let e = rsym st (ul_idx l) in
      case ul_kind l of
        UNDO_NONE \<Rightarrow> Some (writes, st)
      | M_SUCCEED \<Rightarrow> do {
          a \<leftarrow> ev_addr e;
          writes1 \<leftarrow> undo_succeed l writes;
          Some (writes1, set_sym (ul_idx l) (ev_MTryLock a) st)
        }
      | M_FAIL \<Rightarrow> do {
          a \<leftarrow> ev_addr e;
          writes1 \<leftarrow> undo_fail l writes;
          Some (writes1, set_sym (ul_idx l) (ev_MTryLockFail a) st)
        }
      | SUCCEED \<Rightarrow> do {
          d \<leftarrow> ev_data e;
          expected \<leftarrow> ev_expected_data e;
          writes1 \<leftarrow> undo_succeed l writes;
          Some (writes1, set_sym (ul_idx l) (ev_CmpXhg d (sd_block expected)) st)
        }
      | FAIL \<Rightarrow> do {
          d \<leftarrow> ev_data e;
          expected \<leftarrow> ev_expected_data e;
          writes1 \<leftarrow> undo_fail l writes;
          Some (writes1, set_sym (ul_idx l) (ev_CmpXhgFail d (sd_block expected)) st)
        })"

section \<open>Vector clocks\<close>

text \<open>The event before \<open>i\<close> in its thread, if any, and the state with the clocks of \<open>i\<close> without reversible edges.\<close>

definition start_clock :: "nat \<Rightarrow> rfsc \<Rightarrow> (nat option \<times> rfsc) option" where
  "start_clock i st = do {
     let pid = re_pid (rfe st i);
     let iidx = re_index (rfe st i);
     if iidx > 1 then do {
       prev \<leftarrow> rf_find_process_event st pid (iidx - 1);
       Some (Some prev, rf_upd_ev i (\<lambda>e. e\<lparr>re_clock := re_clock (rfe st prev)\<rparr>) st)
     }
     else do {
       let st1 = rf_upd_ev i (\<lambda>e. e\<lparr>re_clock := []\<rparr>) st;
       assertp (pid < length (rf_threads st1));
       let spawn = rt_spawn_event (rth st1 pid);
       st2 \<leftarrow> (if spawn \<ge> 0 then rf_add_happens_after i (nat spawn) st1 else Some st1);
       Some (None, st2)
     }
   }"

definition compute_above_clock :: "nat \<Rightarrow> rfsc \<Rightarrow> (nat option \<times> rfsc) option" where
  "compute_above_clock i st0 = do {
     (prev, st1) \<leftarrow> start_clock i st0;
     let st2 = rf_upd_ev i (\<lambda>e. e\<lparr>re_clock := vc_set (re_clock e) (re_pid e) (re_index e)\<rparr>) st1;
     assertp (list_all (\<lambda>j. j < i) (re_happens_after (rfe st2 i)));
     let st3 = fold (\<lambda>j s. rf_upd_ev i (\<lambda>e. e\<lparr>re_clock := vc_plus_assign (re_clock e) (re_clock (rfe s j))\<rparr>) s)
                 (re_happens_after (rfe st2 i)) st2;
     Some (prev, rf_upd_ev i (\<lambda>e. e\<lparr>re_above_clock := re_clock e\<rparr>) st3)
   }"

text \<open>The reading of the loop variable \<open>i\<close> of \<^verbatim>\<open>compute_vclocks\<close>, with the local vector \<^verbatim>\<open>happens_after\<close>.\<close>

definition reads_event :: "rf_event \<Rightarrow> nat list" where
  "reads_event e = (case re_read_from e of None \<Rightarrow> [] | Some w \<Rightarrow> if w = -1 then [] else [nat w])"

definition clock_step :: "nat \<Rightarrow> rfsc \<times> nat list list \<Rightarrow> (rfsc \<times> nat list list) option" where
  "clock_step i s = do {
     (prev, st1) \<leftarrow> compute_above_clock i (fst s);
     let ha1 = (case prev of None \<Rightarrow> snd s | Some p \<Rightarrow> push_at p i (snd s));
     let ha2 = fold (\<lambda>j ha. push_at j i ha) (re_happens_after (rfe st1 i)) ha1;
     Some (case reads_event (rfe st1 i) of
             [] \<Rightarrow> (st1, ha2)
           | w # _ \<Rightarrow> (rf_upd_ev i (\<lambda>e. e\<lparr>re_clock := vc_plus_assign (re_clock e) (re_clock (rfe st1 w))\<rparr>) st1, push_at w i ha2))
   }"

definition below_step :: "rf_event list \<Rightarrow> nat list list \<Rightarrow> nat \<Rightarrow> vclock_vec \<Rightarrow> vclock_vec option" where
  "below_step es ha i bc = do {
     assertp (list_all (\<lambda>j. i < j) (ha ! i));
     Some (fold (\<lambda>j b. cv_minus_assign b i j) (ha ! i) (cv_put bc i (re_pid (es ! i)) (re_index (es ! i))))
   }"

definition rf_top_clock :: "rfsc \<Rightarrow> vclock" where
  "rf_top_clock st =
     fold (\<lambda>i v. vc_set v i (length (rt_event_indices (rth st i)))) [0..<length (rf_threads st)] []"

definition compute_vclocks :: "rfsc \<Rightarrow> rfsc option" where
  "compute_vclocks st = do {
     let n = length (rf_prefix st);
     (st1, ha) \<leftarrow> run_calls clock_step [0..<n] (st, replicate n []);
     let bc = cv_assign (rf_below_clocks st1) (length (rf_threads st1)) n (rf_top_clock st1);
     bc1 \<leftarrow> run_calls (below_step (rf_prefix st1) ha) (rev [0..<n]) bc;
     Some (st1\<lparr>rf_below_clocks := bc1\<rparr>)
   }"

definition rf_happens_before :: "rf_event \<Rightarrow> vclock \<Rightarrow> bool" where
  "rf_happens_before e c = vc_includes c (re_iid e)"

definition can_rf_by_vclocks :: "rfsc \<Rightarrow> nat \<Rightarrow> int \<Rightarrow> int \<Rightarrow> bool option" where
  "can_rf_by_vclocks st r ow w = do {
     assertp (\<not> (w \<noteq> -1 \<and> rf_happens_before (rfe st r) (re_clock (rfe st (nat w)))));
     Some (\<not> (ow \<noteq> -1 \<and> (w = -1 \<or> rf_happens_before (rfe st (nat w)) (re_clock (rfe st (nat ow)))) \<and>
              rf_happens_before (rfe st (nat ow)) (re_above_clock (rfe st r))))
   }"

definition can_swap_by_vclocks :: "rfsc \<Rightarrow> nat \<Rightarrow> nat \<Rightarrow> bool" where
  "can_swap_by_vclocks st r w = (\<not> rf_happens_before (rfe st r) (re_above_clock (rfe st w)))"

definition can_swap_lock_by_vclocks :: "rfsc \<Rightarrow> nat \<Rightarrow> nat \<Rightarrow> nat \<Rightarrow> bool" where
  "can_swap_lock_by_vclocks st f u s = (\<not> rf_happens_before (rfe st f) (re_above_clock (rfe st s)))"

end
