(* ===== verification/RFSC_Plan.thy ===== *)
theory RFSC_Plan
  imports RFSC_Analysis
begin

text \<open>
  The planning of further executions in \<^verbatim>\<open>src/src/RFSCTraceBuilder.cpp\<close>: unfolding events and decision nodes, the
  causal past of a decision, the formula for the solver, \<^verbatim>\<open>try_sat\<close>, and \<^verbatim>\<open>compute_prefixes\<close>.

  The world of the analysis is the builder with the two shared trees, the queue of the scheduler and the local map
  \<^verbatim>\<open>writes_by_address\<close>. What is chosen outside of the code is in the record \<open>rf_env\<close>: the thread that asks for
  unfolding nodes, the order in which the graph walks its hash tables, the option \<^verbatim>\<open>--no-heuristic\<close>, and the solver, a function from
  the number of variables and the constraints to a model or to nothing, as \<^verbatim>\<open>src/src/SatSolver.h\<close> describes it.
\<close>

section \<open>State\<close>

datatype constraint = Edge nat nat | EdgeDisj nat nat nat nat

record rf_env =
  env_thread :: nat
  env_trav :: "(nat \<times> nat) list \<Rightarrow> (nat \<times> nat) list"
  env_no_heuristic :: bool
  env_solver :: "nat \<Rightarrow> constraint list \<Rightarrow> nat list option"

type_synonym rf_graph = "(nat \<times> nat, symaddr) sgraph"
type_synonym rf_tree = "(nat \<times> nat, symaddr) dtree"

record rf_world =
  rw_st :: rfsc
  rw_unf :: unf_tree
  rw_tree :: rf_tree
  rw_sched :: pq_sched
  rw_writes :: "symaddr \<Rightarrow> int list"

definition rw_upd_ev :: "nat \<Rightarrow> (rf_event \<Rightarrow> rf_event) \<Rightarrow> rf_world \<Rightarrow> rf_world" where
  "rw_upd_ev i f w = w\<lparr>rw_st := rf_upd_ev i f (rw_st w)\<rparr>"

abbreviation rwe :: "rf_world \<Rightarrow> nat \<Rightarrow> rf_event" where
  "rwe w i \<equiv> rfe (rw_st w) i"

section \<open>Unfolding events\<close>

definition unfold_parent :: "rfsc \<Rightarrow> nat \<Rightarrow> nat \<Rightarrow> nat option option" where
  "unfold_parent st p index =
     (if index = 1 then Some None else map_option (\<lambda>par_idx. re_event (rfe st par_idx)) (rf_find_process_event st p (index - 1)))"

definition read_event :: "rfsc \<Rightarrow> int option \<Rightarrow> nat option" where
  "read_event st rf = (case rf of None \<Rightarrow> None | Some w \<Rightarrow> if w = -1 then None else re_event (rfe st (nat w)))"

definition rf_find_node :: "rf_env \<Rightarrow> nat \<Rightarrow> nat option \<Rightarrow> nat option \<Rightarrow> rf_world \<Rightarrow> (nat \<times> rf_world) option" where
  "rf_find_node env p parent src w = do {
     (n, unf) \<leftarrow> find_unfolding_node (env_thread env) (rt_cpid (rth (rw_st w) p)) parent src (rw_unf w);
     Some (n, w\<lparr>rw_unf := unf\<rparr>)
   }"

definition set_decision :: "rf_tree \<Rightarrow> nat option \<Rightarrow> rf_event \<Rightarrow> rf_event" where
  "set_decision tr d e =
     e\<lparr>re_decision_ptr := d, re_decision_depth := (case d of None \<Rightarrow> -1 | Some n \<Rightarrow> dn_depth (tr ! n))\<rparr>"

text \<open>The source of a \<^verbatim>\<open>JOIN\<close> is the last event of the joined thread.\<close>

definition unfold_read_from :: "rfsc \<Rightarrow> nat \<Rightarrow> nat option option" where
  "unfold_read_from st i =
     (if ev_kind (rsym st i) = JOIN then do {
        assertp (reads_event (rfe st i) = []);
        thread \<leftarrow> ev_num (rsym st i);
        assertp (0 \<le> thread \<and> nat thread < length (rf_threads st));
        assertp (rt_event_indices (rth st (nat thread)) \<noteq> []);
        Some (re_event (rfe st (last (rt_event_indices (rth st (nat thread))))))
      }
      else Some (read_event st (re_read_from (rfe st i))))"

text \<open>One round of the loop of \<^verbatim>\<open>compute_unfolding\<close>, with \<^verbatim>\<open>deepest_node\<close>.\<close>

definition unfold_step :: "rf_env \<Rightarrow> nat \<Rightarrow> rf_world \<times> nat \<Rightarrow> (rf_world \<times> nat) option" where
  "unfold_step env i = (\<lambda>(w, deepest0). do {
     let deepest = (case re_decision_ptr (rwe w i) of
                      None \<Rightarrow> deepest0
                    | Some d \<Rightarrow> if dn_depth (rw_tree w ! d) > dn_depth (rw_tree w ! deepest0) then d else deepest0);
     let p = re_pid (rwe w i);
     parent \<leftarrow> unfold_parent (rw_st w) p (re_index (rwe w i));
     if \<not> re_may_conflict (rwe w i) \<and> parent \<noteq> None then
       Some (rw_upd_ev i (\<lambda>e. e\<lparr>re_event := parent\<rparr>) w, deepest)
     else do {
       src \<leftarrow> unfold_read_from (rw_st w) i;
       (n, w1) \<leftarrow> rf_find_node env p parent src w;
       let w2 = rw_upd_ev i (\<lambda>e. e\<lparr>re_event := Some n\<rparr>) w1;
       if int i \<ge> rf_replay_point (rw_st w2) \<and> rf_is_load (rw_st w2) i then do {
         x \<leftarrow> ut_nodes (rw_unf w2) n;
         (d, tr) \<leftarrow> new_decision_node deepest (if rf_is_lock_type (rw_st w2) i then Some n else un_read_from x) (rw_tree w2);
         Some (rw_upd_ev i (set_decision tr (Some d)) (w2\<lparr>rw_tree := tr\<rparr>), d)
       } else Some (w2, deepest)
     }
   })"

definition compute_unfolding :: "rf_env \<Rightarrow> rf_world \<Rightarrow> rf_world option" where
  "compute_unfolding env w = do {
     item \<leftarrow> rf_work_item (rw_st w);
     (w1, deepest) \<leftarrow> run_calls (unfold_step env) [0..<length (rf_prefix (rw_st w))] (w, item);
     Some (w1\<lparr>rw_st := (rw_st w1)\<lparr>rf_work_item := Some deepest\<rparr>\<rparr>)
   }"

definition unfold_find_unfolding_node :: "rf_env \<Rightarrow> nat \<Rightarrow> nat \<Rightarrow> int option \<Rightarrow> rf_world \<Rightarrow> (nat \<times> rf_world) option" where
  "unfold_find_unfolding_node env p index prefix_rf w = do {
     parent \<leftarrow> unfold_parent (rw_st w) p index;
     rf_find_node env p parent (read_event (rw_st w) prefix_rf) w
   }"

definition unfold_alternative :: "rf_env \<Rightarrow> nat \<Rightarrow> nat option \<Rightarrow> rf_world \<Rightarrow> (nat \<times> rf_world) option" where
  "unfold_alternative env i src w = do {
     n \<leftarrow> re_event (rwe w i);
     x \<leftarrow> ut_nodes (rw_unf w) n;
     rf_find_node env (re_pid (rwe w i)) (un_parent x) src w
   }"

section \<open>Causal past\<close>

text \<open>What \<^verbatim>\<open>causal_past_1\<close> visits from \<open>i\<close>.\<close>

definition causes :: "rfsc \<Rightarrow> nat \<Rightarrow> nat list option" where
  "causes st i = do {
     p \<leftarrow> rf_po_predecessor st i;
     Some (reads_event (rfe st i) @ re_happens_after (rfe st i) @ (case p of None \<Rightarrow> [] | Some q \<Rightarrow> [q]))
   }"

text \<open>
  \<^verbatim>\<open>causal_past_1\<close> on a list of events still to visit, so that the calls of one round are a loop. \<open>None\<close> is a failed
  assertion, an access out of range, or a call that does not return.
\<close>

partial_function (option) causal_past_1s :: "rfsc \<Rightarrow> nat list \<Rightarrow> bool list \<Rightarrow> bool list option" where
  "causal_past_1s st is acc =
     (case is of
        [] \<Rightarrow> Some acc
      | i # js \<Rightarrow>
          if \<not> i < length acc then None
          else if acc ! i then causal_past_1s st js acc
          else Option.bind (causes st i) (\<lambda>cs.
            Option.bind (causal_past_1s st cs (acc[i := True])) (causal_past_1s st js)))"

declare causal_past_1s.simps [code]

definition causal_past_1 :: "rfsc \<Rightarrow> nat \<Rightarrow> bool list \<Rightarrow> bool list option" where
  "causal_past_1 st i acc = causal_past_1s st [i] acc"

definition causal_past_step :: "rfsc \<Rightarrow> int \<Rightarrow> nat \<Rightarrow> bool list \<Rightarrow> bool list option" where
  "causal_past_step st decision i acc = do {
     let d = re_decision_depth (rfe st i);
     assertp (\<not> (d \<noteq> -1 \<and> re_pinned (rfe st i)));
     assertp (rf_is_load st i = (d \<noteq> -1 \<or> re_pinned (rfe st i)));
     if d \<noteq> -1 \<and> d \<le> decision then causal_past_1 st i acc else Some acc
   }"

definition causal_past :: "rfsc \<Rightarrow> int \<Rightarrow> bool list option" where
  "causal_past st decision =
     run_calls (causal_past_step st decision) [0..<length (rf_prefix st)] (replicate (length (rf_prefix st)) False)"

section \<open>The formula\<close>

text \<open>The constraints in the order they are added; the variable of an event is the number of kept events before it.\<close>

definition sat_var :: "bool list \<Rightarrow> nat \<Rightarrow> nat" where
  "sat_var keep i = length (filter (\<lambda>b. b) (take i keep))"

definition no_keep :: "bool list \<Rightarrow> nat" where
  "no_keep keep = length (filter (\<lambda>b. b) keep)"

definition po_constraint :: "rfsc \<Rightarrow> bool list \<Rightarrow> nat \<Rightarrow> constraint list option" where
  "po_constraint st keep i =
     (if \<not> keep ! i then Some []
      else do {
        p \<leftarrow> rf_po_predecessor st i;
        (case p of
           None \<Rightarrow> Some []
         | Some q \<Rightarrow> do { assertp (q \<noteq> i); Some [Edge (sat_var keep q) (sat_var keep i)] })
      })"

definition rf_constraint :: "rfsc \<Rightarrow> (symaddr \<Rightarrow> int list) \<Rightarrow> bool list \<Rightarrow> nat \<Rightarrow> constraint list option" where
  "rf_constraint st writes keep r =
     (case re_read_from (rfe st r) of
        None \<Rightarrow> Some []
      | Some w \<Rightarrow>
          if \<not> keep ! r then Some []
          else do {
            assertp (int r \<noteq> w);
            a \<leftarrow> rf_get_addr st r;
            let js = map nat (writes (as_addr a));
            Some (if w = -1 then
                    map (\<lambda>j. Edge (sat_var keep r) (sat_var keep j)) (filter (\<lambda>j. \<not> (j = r \<or> \<not> keep ! j)) js)
                  else
                    Edge (sat_var keep (nat w)) (sat_var keep r) #
                    map (\<lambda>j. EdgeDisj (sat_var keep j) (sat_var keep (nat w)) (sat_var keep r) (sat_var keep j))
                      (filter (\<lambda>j. \<not> (j = nat w \<or> j = r \<or> \<not> keep ! j)) js))
          })"

definition ha_constraint :: "rfsc \<Rightarrow> bool list \<Rightarrow> nat \<Rightarrow> constraint list option" where
  "ha_constraint st keep i =
     Some (if \<not> keep ! i then [] else map (\<lambda>j. Edge (sat_var keep j) (sat_var keep i)) (re_happens_after (rfe st i)))"

definition add_constraints :: "(nat \<Rightarrow> constraint list option) \<Rightarrow> nat \<Rightarrow> constraint list \<Rightarrow> constraint list option" where
  "add_constraints f i cs = map_option (\<lambda>ds. cs @ ds) (f i)"

definition output_formula :: "rfsc \<Rightarrow> (symaddr \<Rightarrow> int list) \<Rightarrow> bool list \<Rightarrow> (nat \<times> constraint list) option" where
  "output_formula st writes keep = do {
     let is = [0..<length (rf_prefix st)];
     c1 \<leftarrow> run_calls (add_constraints (po_constraint st keep)) is [];
     c2 \<leftarrow> run_calls (add_constraints (rf_constraint st writes keep)) is c1;
     c3 \<leftarrow> run_calls (add_constraints (ha_constraint st keep)) is c2;
     Some (no_keep keep, c3)
   }"

section \<open>Trying a change\<close>

definition order_to_leaf :: "rfsc \<Rightarrow> int \<Rightarrow> nat list \<Rightarrow> nat list \<Rightarrow> leaf" where
  "order_to_leaf st decision changed order =
     prefix_leaf
       (map (\<lambda>i. let e = rfe st i; deeper = (re_decision_depth e > decision) in
               \<lparr>rb_pid = int (re_pid e), rb_size = (if i \<in> set changed then 1 else int (re_size e)),
                rb_decision_depth = (if deeper then -1 else re_decision_depth e),
                rb_pinned = (re_pinned e \<or> deeper), rb_sym = re_sym e\<rparr>) order)
       (length order)"

definition add_event_to_graph :: "rf_env \<Rightarrow> rfsc \<Rightarrow> nat \<Rightarrow> rf_graph \<Rightarrow> rf_graph option" where
  "add_event_to_graph env st i g = do {
     let kind = (if rf_is_load st i then if rf_is_store st i then SatGraph.RMW else SatGraph.LOAD
                 else if rf_is_store st i then SatGraph.STORE else SatGraph.NONE);
     a \<leftarrow> (if kind \<noteq> SatGraph.NONE then map_option as_addr (rf_get_addr st i) else Some sa_null);
     let src = (case reads_event (rfe st i) of [] \<Rightarrow> None | w # _ \<Rightarrow> Some (re_iid (rfe st w)));
     add_event (env_trav env) (re_pid (rfe st i)) (re_iid (rfe st i)) kind a src
       (map (\<lambda>j. re_iid (rfe st j)) (re_happens_after (rfe st i))) g
   }"

text \<open>The loops that add the kept events the graph does not have.\<close>

definition add_missing :: "rf_env \<Rightarrow> rfsc \<Rightarrow> (nat \<Rightarrow> bool) \<Rightarrow> nat \<Rightarrow> rf_graph \<Rightarrow> rf_graph option" where
  "add_missing env st wanted i g =
     (if wanted i \<and> \<not> has_event g (re_iid (rfe st i)) then add_event_to_graph env st i g else Some g)"

declare reuse_loop.simps [code] toposort_all.simps [code]

definition rf_saturate :: "rf_graph \<Rightarrow> (bool \<times> rf_graph) option" where
  "rf_saturate g = Option.bind (saturate g) (\<lambda>r. case r of Aborted \<Rightarrow> None | Done b g1 \<Rightarrow> Some (b, g1))"

definition get_cached_graph :: "rf_env \<Rightarrow> nat \<Rightarrow> rf_world \<Rightarrow> (rf_graph \<times> rf_world) option" where
  "get_cached_graph env decision w = do {
     let st = rw_st w;
     (g, tr) \<leftarrow> get_saturated_graph
       (\<lambda>g0. do {
          keep \<leftarrow> causal_past st (dn_depth (rw_tree w ! decision) - 1);
          g1 \<leftarrow> run_calls (add_missing env st (\<lambda>i. keep ! i)) [0..<length (rf_prefix st)] g0;
          (ok, g2) \<leftarrow> rf_saturate g1;
          assertp ok;
          Some g2
        }) decision (rw_tree w);
     Some (g, w\<lparr>rw_tree := tr\<rparr>)
   }"

text \<open>The order that a model describes: the kept event with variable \<open>v\<close> is at position \<open>model ! v\<close>.\<close>

definition place_event :: "nat list \<Rightarrow> nat \<times> nat \<Rightarrow> nat list \<Rightarrow> nat list option" where
  "place_event model vi order = do {
     assertp (fst vi < length model);
     assertp (model ! fst vi < length order);
     Some (order[model ! fst vi := snd vi])
   }"

definition order_of_model :: "bool list \<Rightarrow> nat list \<Rightarrow> nat list option" where
  "order_of_model keep model =
     run_calls (place_event model) (enumerate 0 (filter (\<lambda>i. keep ! i) [0..<length keep])) (replicate (no_keep keep) 0)"

definition try_sat :: "rf_env \<Rightarrow> nat list \<Rightarrow> rf_world \<Rightarrow> (leaf \<times> rf_world) option" where
  "try_sat env changed w0 = do {
     assertp (changed \<noteq> []);
     let last_change = last changed;
     let st = rw_st w0;
     decision \<leftarrow> re_decision_ptr (rfe st last_change);
     let decision_depth = dn_depth (rw_tree w0 ! decision);
     keep \<leftarrow> causal_past st decision_depth;
     (cached, w) \<leftarrow> get_cached_graph env decision w0;
     g0 \<leftarrow> clone cached;
     g1 \<leftarrow> run_calls (add_missing env st (\<lambda>i. keep ! i \<and> i \<noteq> last_change)) [0..<length (rf_prefix st)] g0;
     g2 \<leftarrow> add_event_to_graph env st last_change g1;
     (ok, g) \<leftarrow> rf_saturate g2;
     if \<not> ok then Some (bottom_leaf, w)
     else do {
       r \<leftarrow> try_generate_prefix (env_no_heuristic env) g (map re_iid (rf_prefix st));
       (case r of
          Failed \<Rightarrow> None
        | Found res \<Rightarrow> do {
            order \<leftarrow> run_calls (\<lambda>iid order. map_option (\<lambda>i. order @ [i]) (rf_find_process_event st (fst iid) (snd iid))) res [];
            Some (order_to_leaf st decision_depth changed order, w)
          }
        | NoPrefix \<Rightarrow> do {
            (n, cs) \<leftarrow> output_formula st (rw_writes w) keep;
            (case env_solver env n cs of
               None \<Rightarrow> Some (bottom_leaf, w)
             | Some model \<Rightarrow> do {
                 order \<leftarrow> order_of_model keep model;
                 Some (order_to_leaf st decision_depth changed order, w)
               })
          })
     }
   }"

section \<open>Neighbours of an execution\<close>

text \<open>The event maps of \<^verbatim>\<open>compute_prefixes\<close>: writes and failed compare-exchanges by address, and writes by process.\<close>

record event_maps =
  em_writes :: "symaddr \<Rightarrow> int list"
  em_cmpxhgfail :: "symaddr \<Rightarrow> int list"
  em_by_process :: "(symaddr \<Rightarrow> nat list) list"

definition index_event :: "rfsc \<Rightarrow> nat \<Rightarrow> event_maps \<Rightarrow> event_maps option" where
  "index_event st j m =
     (if rf_is_store st j then do {
        a \<leftarrow> map_option as_addr (rf_get_addr st j);
        let p = re_pid (rfe st j);
        let by_addr = em_by_process m ! p;
        Some (m\<lparr>em_writes := (em_writes m)(a := em_writes m a @ [int j]),
                em_by_process := (em_by_process m)[p := by_addr(a := by_addr a @ [j])]\<rparr>)
      }
      else if rf_is_cmpxhgfail st j then do {
        a \<leftarrow> map_option as_addr (rf_get_addr st j);
        Some (m\<lparr>em_cmpxhgfail := (em_cmpxhgfail m)(a := em_cmpxhgfail m a @ [int j])\<rparr>)
      }
      else Some m)"

definition index_events :: "rfsc \<Rightarrow> event_maps option" where
  "index_events st =
     run_calls (index_event st) [0..<length (rf_prefix st)]
       \<lparr>em_writes = (\<lambda>_. []), em_cmpxhgfail = (\<lambda>_. []), em_by_process = replicate (length (rf_threads st)) (\<lambda>_. [])\<rparr>"

definition set_read_from :: "nat \<Rightarrow> int \<Rightarrow> rf_world \<Rightarrow> rf_world" where
  "set_read_from i w = rw_upd_ev i (\<lambda>e. e\<lparr>re_read_from := Some w\<rparr>)"

definition decision_swap :: "nat \<Rightarrow> nat \<Rightarrow> rf_world \<Rightarrow> rf_world" where
  "decision_swap i j w =
     (let a = rwe w i; b = rwe w j in
      rw_upd_ev j (\<lambda>e. e\<lparr>re_decision_ptr := re_decision_ptr a, re_decision_depth := re_decision_depth a\<rparr>)
        (rw_upd_ev i (\<lambda>e. e\<lparr>re_decision_ptr := re_decision_ptr b, re_decision_depth := re_decision_depth b\<rparr>) w))"

definition rw_try_alloc :: "nat \<Rightarrow> nat option \<Rightarrow> rf_world \<Rightarrow> (bool \<times> rf_world) option" where
  "rw_try_alloc d unf w = do {
     (fresh, tr) \<leftarrow> try_alloc_unf d unf (rw_tree w);
     Some (fresh, w\<lparr>rw_tree := tr\<rparr>)
   }"

definition add_solution :: "nat \<Rightarrow> nat option \<Rightarrow> leaf \<Rightarrow> rf_world \<Rightarrow> rf_world option" where
  "add_solution d unf l w =
     (if is_bottom l then Some w
      else do {
        (tr, s) \<leftarrow> construct_sibling d unf l (rw_tree w, rw_sched w);
        Some (w\<lparr>rw_tree := tr, rw_sched := s, rw_st := (rw_st w)\<lparr>rf_tasks_created := rf_tasks_created (rw_st w) + 1\<rparr>\<rparr>)
      })"

definition try_change :: "rf_env \<Rightarrow> nat list \<Rightarrow> nat \<Rightarrow> nat option \<Rightarrow> rf_world \<Rightarrow> rf_world option" where
  "try_change env changed d unf w = do {
     (solution, w1) \<leftarrow> try_sat env changed w;
     add_solution d unf solution w1
   }"

text \<open>The source in the unfolding of the event at \<open>i\<close>: \<^verbatim>\<open>prefix[i].event->read_from\<close>.\<close>

definition event_read_from :: "nat \<Rightarrow> rf_world \<Rightarrow> nat option option" where
  "event_read_from i w = do {
     n \<leftarrow> re_event (rwe w i);
     x \<leftarrow> ut_nodes (rw_unf w) n;
     Some (un_read_from x)
   }"

definition try_swap :: "rf_env \<Rightarrow> nat \<Rightarrow> nat \<Rightarrow> rf_world \<Rightarrow> rf_world option" where
  "try_swap env i j w = do {
     original_read_from \<leftarrow> re_read_from (rwe w i);
     src \<leftarrow> event_read_from i w;
     (alt, w1) \<leftarrow> unfold_alternative env j src w;
     d \<leftarrow> re_decision_ptr (rwe w1 i);
     (fresh, w2) \<leftarrow> rw_try_alloc d (Some alt) w1;
     if \<not> fresh \<or> \<not> can_swap_by_vclocks (rw_st w2) i j then Some w2
     else do {
       w3 \<leftarrow> try_change env [j] d (Some alt) (decision_swap i j (set_read_from j original_read_from w2));
       Some (decision_swap i j (set_read_from j (int i) w3))
     }
   }"

definition try_swap_lock :: "rf_env \<Rightarrow> nat \<Rightarrow> nat \<Rightarrow> nat \<Rightarrow> rf_world \<Rightarrow> rf_world option" where
  "try_swap_lock env i unlock j w = do {
     assertp (rf_does_lock (rw_st w) i \<and> rf_is_unlock (rw_st w) unlock \<and> rf_is_lock (rw_st w) j \<and>
              re_read_from (rwe w j) = Some (int unlock));
     src \<leftarrow> event_read_from i w;
     (alt, w1) \<leftarrow> unfold_alternative env j src w;
     d \<leftarrow> re_decision_ptr (rwe w1 i);
     (fresh, w2) \<leftarrow> rw_try_alloc d (Some alt) w1;
     if \<not> fresh \<or> \<not> can_swap_lock_by_vclocks (rw_st w2) i unlock j then Some w2
     else do {
       original_read_from \<leftarrow> re_read_from (rwe w2 i);
       w3 \<leftarrow> try_change env [j] d (Some alt) (decision_swap i j (set_read_from j original_read_from w2));
       Some (decision_swap i j (set_read_from j (int unlock) w3))
     }
   }"

text \<open>The blocked event is added to the end of the prefix for the time of the attempt.\<close>

definition push_blocked :: "nat \<Rightarrow> nat \<Rightarrow> symev \<Rightarrow> nat \<Rightarrow> rf_world \<Rightarrow> rf_world option" where
  "push_blocked jp jidx s alt w = do {
     let st = (rw_st w)\<lparr>rf_prefix_idx := rf_prefix_idx (rw_st w) + 1\<rparr>;
     assertp (int (length (rf_prefix st)) = rf_prefix_idx st);
     let st1 = st\<lparr>rf_prefix := rf_prefix st @ [(RF_Event (jp, jidx) s)\<lparr>re_event := Some alt\<rparr>]\<rparr>;
     let st2 = push_event_index jp st1;
     (_, st3) \<leftarrow> compute_above_clock (length (rf_prefix st)) st2;
     Some (w\<lparr>rw_st := st3\<rparr>)
   }"

definition pop_blocked :: "nat \<Rightarrow> rf_world \<Rightarrow> rf_world" where
  "pop_blocked jp w =
     (let st = rf_upd_th jp (\<lambda>t. t\<lparr>rt_event_indices := butlast (rt_event_indices t)\<rparr>) (rw_st w) in
      w\<lparr>rw_st := st\<lparr>rf_prefix := butlast (rf_prefix st), rf_prefix_idx := rf_prefix_idx st - 1\<rparr>\<rparr>)"

definition try_swap_blocked :: "rf_env \<Rightarrow> nat \<Rightarrow> nat \<Rightarrow> symev \<Rightarrow> rf_world \<Rightarrow> rf_world option" where
  "try_swap_blocked env i jp s w = do {
     original_read_from \<leftarrow> re_read_from (rwe w i);
     let jidx = last_event_index (rth (rw_st w) jp) + 1;
     (alt, w1) \<leftarrow> unfold_find_unfolding_node env jp jidx (Some original_read_from) w;
     d \<leftarrow> re_decision_ptr (rwe w1 i);
     (fresh, w2) \<leftarrow> rw_try_alloc d (Some alt) w1;
     if \<not> fresh then Some w2
     else do {
       let j = length (rf_prefix (rw_st w2));
       w3 \<leftarrow> push_blocked jp jidx s alt w2;
       w4 \<leftarrow> (if can_swap_by_vclocks (rw_st w3) i j then do {
                let w5 = decision_swap i j (set_read_from j original_read_from w3);
                assertp (\<not> re_pinned (rwe w5 i));
                w6 \<leftarrow> try_change env [j] d (Some alt) (rw_upd_ev i (\<lambda>e. e\<lparr>re_pinned := True\<rparr>) w5);
                Some (rw_upd_ev i (\<lambda>e. e\<lparr>re_pinned := False\<rparr>) (decision_swap i j w6))
              } else Some w3);
       Some (pop_blocked jp w4)
     }
   }"

subsection \<open>Accesses to mutexes\<close>

text \<open>\<^verbatim>\<open>std::upper_bound\<close> in a list that is ascending.\<close>

definition next_access :: "int list \<Rightarrow> nat \<Rightarrow> nat" where
  "next_access accesses i = length (takeWhile (\<lambda>x. x \<le> int i) accesses)"

definition relock :: "rfsc \<Rightarrow> int list \<Rightarrow> nat \<Rightarrow> (nat \<times> nat) option" where
  "relock st accesses nxt0 =
     (let nxt = nxt0 + length (takeWhile (\<lambda>x. rf_is_trylock_fail st (nat x)) (drop nxt0 accesses)) in
      if nxt = length accesses \<or> \<not> rf_is_unlock st (nat (accesses ! nxt)) then None
      else if nxt + 1 = length accesses \<or> \<not> rf_is_lock st (nat (accesses ! (nxt + 1))) then None
      else Some (nat (accesses ! nxt), nat (accesses ! (nxt + 1))))"

definition ponder_mutex :: "rf_env \<Rightarrow> nat \<Rightarrow> rf_world \<Rightarrow> rf_world option" where
  "ponder_mutex env i w = do {
     a \<leftarrow> rf_get_addr (rw_st w) i;
     let accesses = rw_writes w (as_addr a);
     let nxt = next_access accesses i;
     if nxt = length accesses then
       (if rf_does_lock (rw_st w) i
        then run_calls (\<lambda>other. try_swap_blocked env i other (ev_MLock a)) (rf_mutex_deadlocks (rw_st w) (as_addr a)) w
        else Some w)
     else do {
       let j = nat (accesses ! nxt);
       rf \<leftarrow> re_read_from (rwe w j);
       assertp (rf = int i);
       if rf_is_unlock (rw_st w) i \<and> rf_is_lock (rw_st w) j then Some w
       else do {
         w1 \<leftarrow> try_swap env i j w;
         if \<not> rf_does_lock (rw_st w1) i then Some w1
         else (case relock (rw_st w1) accesses nxt of
                 None \<Rightarrow> Some w1
               | Some (unlock, again) \<Rightarrow> try_swap_lock env i unlock again w1)
       }
     }
   }"

subsection \<open>Loads\<close>

definition rw_recompute :: "nat \<Rightarrow> symaddr \<Rightarrow> rf_world \<Rightarrow> (undo_log \<times> rf_world) option" where
  "rw_recompute idx a w = do {
     (l, ws, st) \<leftarrow> recompute_cmpxhg_success idx (rw_writes w a) (rw_st w);
     Some (l, w\<lparr>rw_st := st, rw_writes := (rw_writes w)(a := ws)\<rparr>)
   }"

definition rw_undo :: "undo_log \<Rightarrow> symaddr \<Rightarrow> rf_world \<Rightarrow> rf_world option" where
  "rw_undo l a w = do {
     (ws, st) \<leftarrow> undo_cmpxhg_recomputation l (rw_writes w a) (rw_st w);
     Some (w\<lparr>rw_st := st, rw_writes := (rw_writes w)(a := ws)\<rparr>)
   }"

definition try_read_from_rmw :: "rf_env \<Rightarrow> nat \<Rightarrow> symaddr \<Rightarrow> int \<Rightarrow> nat \<Rightarrow> nat \<Rightarrow> rf_world \<Rightarrow> rf_world option" where
  "try_read_from_rmw env i a original_read_from d j w = do {
     writes \<leftarrow> is_store_when_reading_from (rw_st w) j original_read_from;
     assertp (j > i \<and> rf_is_store (rw_st w) i \<and> rf_is_load (rw_st w) j \<and> writes);
     rf \<leftarrow> re_read_from (rwe w j);
     if rf \<noteq> int i then Some w
     else do {
       src \<leftarrow> event_read_from i w;
       (alt, w1) \<leftarrow> unfold_alternative env j src w;
       (fresh, w2) \<leftarrow> rw_try_alloc d (Some alt) w1;
       if \<not> fresh \<or> \<not> can_swap_by_vclocks (rw_st w2) i j then Some w2
       else do {
         (undoj, w3) \<leftarrow> rw_recompute j a (set_read_from i (int j) (set_read_from j original_read_from w2));
         (undoi, w4) \<leftarrow> rw_recompute i a w3;
         w5 \<leftarrow> try_change env [j, i] d (Some alt) w4;
         w6 \<leftarrow> rw_undo undoi a (set_read_from j (int i) w5);
         rw_undo undoj a w6
       }
     }
   }"

definition try_read_from :: "rf_env \<Rightarrow> nat \<Rightarrow> symaddr \<Rightarrow> int \<Rightarrow> nat \<Rightarrow> int \<Rightarrow> rf_world \<Rightarrow> rf_world option" where
  "try_read_from env i a original_read_from d j w =
     (if j = original_read_from \<or> j = int i then Some w
      else if j \<noteq> -1 \<and> j > int i \<and> rf_is_store (rw_st w) i \<and> rf_is_load (rw_st w) (nat j) then do {
        writes \<leftarrow> is_store_when_reading_from (rw_st w) (nat j) original_read_from;
        if \<not> writes then Some w else try_read_from_rmw env i a original_read_from d (nat j) w
      }
      else do {
        let src = (if j = -1 then None else re_event (rwe w (nat j)));
        (fresh, w1) \<leftarrow> rw_try_alloc d src w;
        if \<not> fresh then Some w1
        else do {
          possible \<leftarrow> can_rf_by_vclocks (rw_st w1) i original_read_from j;
          if \<not> possible then Some w1
          else do {
            (undoi, w2) \<leftarrow> rw_recompute i a (set_read_from i j w1);
            w3 \<leftarrow> try_change env [i] d src w2;
            rw_undo undoi a w3
          }
        }
      })"

text \<open>The writes of a process that are visible to the load: from the last one before it, to the first one after it.\<close>

definition visible_writes :: "rfsc \<Rightarrow> nat \<Rightarrow> nat list \<Rightarrow> nat \<Rightarrow> nat list option" where
  "visible_writes st i writes p = do {
     let up = length (takeWhile (\<lambda>w. \<not> vc_get (re_above_clock (rfe st i)) p < re_index (rfe st w)) writes);
     let first = (if up \<noteq> 0 then up - 1 else up);
     let low = length (takeWhile (\<lambda>w. re_index (rfe st w) < cv_get (rf_below_clocks st) i p) writes);
     let past = (if rf_is_store st i \<and> low \<noteq> length writes \<and> rf_is_load st (writes ! low) then low + 1 else low);
     assertp (first \<le> past);
     Some (drop first (take past writes))
   }"

definition ponder_process ::
  "rf_env \<Rightarrow> event_maps \<Rightarrow> nat \<Rightarrow> symaddr \<Rightarrow> int \<Rightarrow> nat \<Rightarrow> nat \<Rightarrow> rf_world \<Rightarrow> rf_world option" where
  "ponder_process env m i a original_read_from d p w = do {
     vis \<leftarrow> visible_writes (rw_st w) i ((em_by_process m ! p) a) p;
     run_calls (try_read_from env i a original_read_from d) (map int vis) w
   }"

definition ponder_cmpxhgfail ::
  "rf_env \<Rightarrow> nat \<Rightarrow> symaddr \<Rightarrow> int \<Rightarrow> nat \<Rightarrow> int \<Rightarrow> rf_world \<Rightarrow> rf_world option" where
  "ponder_cmpxhgfail env i a original_read_from d j w =
     (if j > int i then do {
        writes \<leftarrow> is_store_when_reading_from (rw_st w) (nat j) original_read_from;
        if writes then try_read_from_rmw env i a original_read_from d (nat j) w else Some w
      } else Some w)"

definition ponder_load :: "rf_env \<Rightarrow> event_maps \<Rightarrow> nat \<Rightarrow> rf_world \<Rightarrow> rf_world option" where
  "ponder_load env m i w = do {
     a \<leftarrow> map_option as_addr (rf_get_addr (rw_st w) i);
     original_read_from \<leftarrow> re_read_from (rwe w i);
     assertp (original_read_from \<in> set (rw_writes w a) \<or> original_read_from = -1);
     d \<leftarrow> re_decision_ptr (rwe w i);
     w1 \<leftarrow> run_calls (ponder_process env m i a original_read_from d) [0..<length (rf_threads (rw_st w))] w;
     w2 \<leftarrow> try_read_from env i a original_read_from d (-1) w1;
     w3 \<leftarrow> (if rf_is_store (rw_st w2) i
             then run_calls (ponder_cmpxhgfail env i a original_read_from d) (em_cmpxhgfail m a) w2 else Some w2);
     Some (set_read_from i original_read_from w3)
   }"

definition ponder_event :: "rf_env \<Rightarrow> event_maps \<Rightarrow> nat \<Rightarrow> rf_world \<Rightarrow> rf_world option" where
  "ponder_event env m i w =
     (if \<not> re_pinned (rwe w i) \<and> rf_is_lock_type (rw_st w) i then ponder_mutex env i w
      else if \<not> re_pinned (rwe w i) \<and> rf_is_load (rw_st w) i then ponder_load env m i w
      else Some w)"

definition compute_prefixes :: "rf_env \<Rightarrow> rf_world \<Rightarrow> rf_world option" where
  "compute_prefixes env w0 = do {
     st \<leftarrow> compute_vclocks (rw_st w0);
     w \<leftarrow> compute_unfolding env (w0\<lparr>rw_st := st\<rparr>);
     m \<leftarrow> index_events (rw_st w);
     run_calls (ponder_event env m) [0..<length (rf_prefix (rw_st w))] (w\<lparr>rw_writes := em_writes m\<rparr>)
   }"

end
