(* ===== verification/RFSC_Inv.thy ===== *)
theory RFSC_Inv
  imports RFSC
begin

text \<open>
  Executions of the reads-from trace builder (\<^verbatim>\<open>src/src/RFSCTraceBuilder.cpp\<close>): what the recorded sources of loads and of
  mutex operations are. The relevant part of the state is the list of effects executed so far, each with
  the source that was recorded for it.
\<close>

section \<open>The last position with a property\<close>

definition last_pos :: "('a \<Rightarrow> bool) \<Rightarrow> 'a list \<Rightarrow> int" where
  "last_pos P xs = int (length xs) - int (length (takeWhile (\<lambda>x. \<not> P x) (rev xs))) - 1"

lemma last_pos_Nil [simp]: "last_pos P [] = -1"
  by (simp add: last_pos_def)

lemma last_pos_snoc [simp]: "last_pos P (xs @ [x]) = (if P x then int (length xs) else last_pos P xs)"
  by (simp add: last_pos_def)

lemma last_pos_cases:
  "last_pos P xs = -1 \<and> (\<forall>i < length xs. \<not> P (xs ! i)) \<or>
   (\<exists>j < length xs. last_pos P xs = int j \<and> P (xs ! j) \<and> (\<forall>i < length xs. j < i \<longrightarrow> \<not> P (xs ! i)))"
proof (induction xs rule: rev_induct)
  case (snoc x xs)
  show ?case
  proof (cases "P x")
    case True
    then show ?thesis by (intro disjI2 exI [of _ "length xs"]) (auto simp: nth_append)
  next
    case False
    from snoc show ?thesis
    proof (elim disjE exE conjE)
      assume "last_pos P xs = -1" "\<forall>i < length xs. \<not> P (xs ! i)"
      then show ?thesis using False by (auto simp: nth_append less_Suc_eq)
    next
      fix j assume "j < length xs" "last_pos P xs = int j" "P (xs ! j)" "\<forall>i < length xs. j < i \<longrightarrow> \<not> P (xs ! i)"
      then show ?thesis using False by (intro disjI2 exI [of _ j]) (auto simp: nth_append less_Suc_eq)
    qed
  qed
qed simp

text \<open>A property of every element and the elements before it.\<close>

definition all_pre :: "('a list \<Rightarrow> 'a \<Rightarrow> bool) \<Rightarrow> 'a list \<Rightarrow> bool" where
  "all_pre P xs \<longleftrightarrow> (\<forall>i < length xs. P (take i xs) (xs ! i))"

lemma all_pre_Nil [simp]: "all_pre P []"
  by (simp add: all_pre_def)

lemma all_pre_snoc [simp]: "all_pre P (xs @ [x]) \<longleftrightarrow> all_pre P xs \<and> P xs x"
  by (auto simp: all_pre_def less_Suc_eq nth_append)

section \<open>Effects\<close>

definition mem_store :: "symev \<Rightarrow> bool" where
  "mem_store s \<longleftrightarrow> ev_kind s = SymEvs.STORE \<or> ev_kind s = SymEvs.RMW \<or> ev_kind s = CMPXHG"

definition mem_load :: "symev \<Rightarrow> bool" where
  "mem_load s \<longleftrightarrow> ev_kind s = SymEvs.LOAD \<or> ev_kind s = SymEvs.RMW \<or> ev_kind s = CMPXHG \<or> ev_kind s = CMPXHGFAIL"

definition mutex_op :: "symev \<Rightarrow> bool" where
  "mutex_op s \<longleftrightarrow> ev_kind s = M_INIT \<or> ev_kind s = M_LOCK \<or> ev_kind s = M_TRYLOCK \<or> ev_kind s = M_TRYLOCK_FAIL \<or>
     ev_kind s = M_UNLOCK \<or> ev_kind s = M_DELETE"

definition stores_byte :: "symaddr \<Rightarrow> symev \<Rightarrow> bool" where
  "stores_byte b s \<longleftrightarrow> mem_store s \<and> (\<exists>a. ev_addr s = Some a \<and> b \<in> set (as_elements a))"

definition on_mutex :: "symaddr \<Rightarrow> symev \<Rightarrow> bool" where
  "on_mutex b s \<longleftrightarrow> mutex_op s \<and> (\<exists>a. ev_addr s = Some a \<and> as_addr a = b)"

text \<open>An effect with its source, after the effects \<open>es\<close>.\<close>

type_synonym effect = "symev \<times> int option"

definition load_ok :: "effect list \<Rightarrow> effect \<Rightarrow> bool" where
  "load_ok es e \<longleftrightarrow> (mem_load (fst e) \<longrightarrow> (\<exists>a w. ev_addr (fst e) = Some a \<and> snd e = Some w \<and>
     (\<forall>b \<in> set (as_elements a). w = last_pos (\<lambda>f. stores_byte b (fst f)) es) \<and>
     (w \<noteq> -1 \<longrightarrow> 0 \<le> w \<and> w < int (length es) \<and> mem_store (fst (es ! nat w)) \<and> ev_addr (fst (es ! nat w)) = Some a)))"

definition mutex_ok :: "effect list \<Rightarrow> effect \<Rightarrow> bool" where
  "mutex_ok es e \<longleftrightarrow> (mutex_op (fst e) \<longrightarrow> (\<exists>a. ev_addr (fst e) = Some a \<and>
     snd e = Some (last_pos (\<lambda>f. on_mutex (as_addr a) (fst f)) es)))"

definition exec_ok :: "effect list \<Rightarrow> (symaddr \<Rightarrow> int) \<Rightarrow> (symaddr \<rightharpoonup> rf_mutex) \<Rightarrow> bool" where
  "exec_ok es mem mtx \<longleftrightarrow> all_pre load_ok es \<and> all_pre mutex_ok es \<and>
     (\<forall>b. mem b = last_pos (\<lambda>f. stores_byte b (fst f)) es) \<and>
     (\<forall>b. (case mtx b of None \<Rightarrow> -1 | Some m \<Rightarrow> rm_last_access m) = last_pos (\<lambda>f. on_mutex b (fst f)) es)"

definition no_effect :: "symev \<Rightarrow> bool" where
  "no_effect s \<longleftrightarrow> \<not> mem_load s \<and> \<not> mem_store s \<and> \<not> mutex_op s"

lemma exec_ok_start: "exec_ok [] (\<lambda>_. -1) (\<lambda>_. None)"
  by (simp add: exec_ok_def)

lemma exec_ok_silent: "no_effect (fst e) \<Longrightarrow> exec_ok (es @ [e]) mem mtx = exec_ok es mem mtx"
  by (auto simp: exec_ok_def no_effect_def load_ok_def mutex_ok_def stores_byte_def on_mutex_def)

lemma empty_no_effect: "ev_empty s \<Longrightarrow> no_effect s"
  by (simp add: ev_empty_def no_effect_def mem_load_def mem_store_def mutex_op_def)

section \<open>The executed part of the prefix\<close>

text \<open>
  The number of events that had their effect. The flag says that an event is scheduled: it has been executed once its
  effect is seen, and otherwise when the next one is scheduled.
\<close>

definition done_count :: "rfsc \<Rightarrow> bool \<Rightarrow> nat" where
  "done_count st running = nat (rf_prefix_idx st + (if running \<and> \<not> rf_seen_effect st then 0 else 1))"

abbreviation effect_of :: "rf_event \<Rightarrow> effect" where
  "effect_of e \<equiv> (re_sym e, re_read_from e)"

definition effects :: "rfsc \<Rightarrow> bool \<Rightarrow> effect list" where
  "effects st running = map effect_of (take (done_count st running) (rf_prefix st))"

definition exec_inv :: "rfsc \<Rightarrow> bool \<Rightarrow> bool" where
  "exec_inv st running \<longleftrightarrow>
     -1 \<le> rf_prefix_idx st \<and> rf_prefix_idx st < int (length (rf_prefix st)) \<and> (running \<longrightarrow> 0 \<le> rf_prefix_idx st) \<and>
     (\<not> rf_replay st \<and> \<not> rf_cancelled st \<longrightarrow> rf_prefix_idx st + 1 = int (length (rf_prefix st))) \<and>
     (rf_errors st = [] \<longrightarrow>
        (\<not> rf_replay st \<and> \<not> rf_cancelled st \<and> running \<and> \<not> rf_seen_effect st \<longrightarrow> ev_empty (re_sym (rfe st (nat (rf_prefix_idx st))))) \<and>
        exec_ok (effects st running) (rf_mem st) (rf_mutexes st))"

section \<open>What operations keep\<close>

text \<open>The fields that tell where the execution stands.\<close>

definition stand :: "rfsc \<Rightarrow> int \<times> bool \<times> bool \<times> bool \<times> ((cpid \<times> nat) \<times> string) list \<times> nat" where
  "stand st = (rf_prefix_idx st, rf_seen_effect st, rf_replay st, rf_cancelled st, rf_errors st, length (rf_prefix st))"

lemma standD:
  assumes "stand st1 = stand st"
  shows "rf_prefix_idx st1 = rf_prefix_idx st" "rf_seen_effect st1 = rf_seen_effect st" "rf_replay st1 = rf_replay st"
    "rf_cancelled st1 = rf_cancelled st" "rf_errors st1 = rf_errors st" "length (rf_prefix st1) = length (rf_prefix st)"
  using assms by (simp_all add: stand_def)

definition same_effects :: "rfsc \<Rightarrow> rfsc \<Rightarrow> bool" where
  "same_effects st st1 \<longleftrightarrow> stand st1 = stand st \<and> map effect_of (rf_prefix st1) = map effect_of (rf_prefix st) \<and>
     rf_mem st1 = rf_mem st \<and> rf_mutexes st1 = rf_mutexes st"

lemma same_effects_sym:
  assumes "same_effects st st1" "i < length (rf_prefix st)"
  shows "re_sym (rfe st1 i) = re_sym (rfe st i)"
proof -
  have "length (rf_prefix st1) = length (rf_prefix st)" using assms(1) by (intro standD(6)) (simp add: same_effects_def)
  moreover have "map effect_of (rf_prefix st1) ! i = map effect_of (rf_prefix st) ! i" using assms(1) by (simp add: same_effects_def)
  ultimately show ?thesis using assms(2) by simp
qed

lemma same_effects_effects: "same_effects st st1 \<Longrightarrow> effects st1 r = effects st r"
proof -
  assume S: "same_effects st st1"
  then have "stand st1 = stand st" by (simp add: same_effects_def)
  note D = standD [OF this]
  show ?thesis using S unfolding effects_def done_count_def D(1,2) by (simp add: same_effects_def flip: take_map)
qed

lemma same_effects_inv:
  assumes "same_effects st st1"
  shows "exec_inv st1 r = exec_inv st r"
proof (cases "-1 \<le> rf_prefix_idx st \<and> rf_prefix_idx st < int (length (rf_prefix st)) \<and> (r \<longrightarrow> 0 \<le> rf_prefix_idx st)")
  case True
  have S: "stand st1 = stand st" "rf_mem st1 = rf_mem st" "rf_mutexes st1 = rf_mutexes st"
    using assms by (simp_all add: same_effects_def)
  note D = standD [OF S(1)]
  have "ev_empty (re_sym (rfe st1 (nat (rf_prefix_idx st)))) = ev_empty (re_sym (rfe st (nat (rf_prefix_idx st))))" if r
    using True that same_effects_sym [OF assms] by (simp add: nat_less_iff)
  then show ?thesis
    unfolding exec_inv_def D S(2,3) same_effects_effects [OF assms] by blast
next
  case False
  have "stand st1 = stand st" using assms by (simp add: same_effects_def)
  note D = standD [OF this]
  show ?thesis using False unfolding exec_inv_def D by blast
qed

lemma rf_upd_ev_frame [simp]:
  "stand (rf_upd_ev i f st) = stand st" "rf_mem (rf_upd_ev i f st) = rf_mem st" "rf_mutexes (rf_upd_ev i f st) = rf_mutexes st"
  "rf_prefix (rf_upd_ev i f st) = (rf_prefix st)[i := f (rfe st i)]" "rf_threads (rf_upd_ev i f st) = rf_threads st"
  "rf_prefix_idx (rf_upd_ev i f st) = rf_prefix_idx st" "rf_seen_effect (rf_upd_ev i f st) = rf_seen_effect st"
  "rf_replay (rf_upd_ev i f st) = rf_replay st" "rf_cancelled (rf_upd_ev i f st) = rf_cancelled st"
  "rf_errors (rf_upd_ev i f st) = rf_errors st"
  by (simp_all add: rf_upd_ev_def stand_def)

lemma rf_upd_th_frame [simp]:
  "stand (rf_upd_th p g st) = stand st" "rf_mem (rf_upd_th p g st) = rf_mem st" "rf_mutexes (rf_upd_th p g st) = rf_mutexes st"
  "rf_prefix (rf_upd_th p g st) = rf_prefix st" "rf_prefix_idx (rf_upd_th p g st) = rf_prefix_idx st"
  "rf_seen_effect (rf_upd_th p g st) = rf_seen_effect st" "rf_replay (rf_upd_th p g st) = rf_replay st"
  "rf_cancelled (rf_upd_th p g st) = rf_cancelled st" "rf_errors (rf_upd_th p g st) = rf_errors st"
  by (simp_all add: rf_upd_th_def stand_def)

lemma same_effects_refl: "same_effects st st"
  by (simp add: same_effects_def)

lemma same_effects_upd_ev:
  assumes "effect_of (f (rfe st i)) = effect_of (rfe st i)"
  shows "same_effects st (rf_upd_ev i f st)"
proof (cases "i < length (rf_prefix st)")
  case True
  have "map effect_of ((rf_prefix st)[i := f (rfe st i)]) = (map effect_of (rf_prefix st))[i := map effect_of (rf_prefix st) ! i]"
    using assms True by (simp add: map_update)
  then show ?thesis by (simp add: same_effects_def)
qed (simp add: same_effects_def list_update_beyond)

lemma same_effects_upd_th: "same_effects st (rf_upd_th p g st)"
  by (simp add: same_effects_def)

lemma curevD:
  assumes "rf_curev st = Some e"
  shows "0 \<le> rf_prefix_idx st" "nat (rf_prefix_idx st) < length (rf_prefix st)" "e = rfe st (nat (rf_prefix_idx st))"
  using assms by (auto simp: rf_curev_def assertp_def split: if_splits)

lemma may_conflict_same: "rf_set_may_conflict st = Some st1 \<Longrightarrow> same_effects st st1"
  by (auto simp: rf_set_may_conflict_def same_effects_upd_ev split: bind_splits)

text \<open>An operation that gives the current event its effect.\<close>

definition effect_step :: "symev \<Rightarrow> (rfsc \<Rightarrow> rfsc option) \<Rightarrow> bool" where
  "effect_step s f \<longleftrightarrow> (\<forall>st st1. let n = nat (rf_prefix_idx st); es = map effect_of (take n (rf_prefix st)) in
     f st = Some st1 \<and> 0 \<le> rf_prefix_idx st \<and> n < length (rf_prefix st) \<and> re_sym (rfe st n) = s \<longrightarrow>
     stand st1 = stand st \<and> (\<exists>w. map effect_of (rf_prefix st1) = (map effect_of (rf_prefix st))[n := (s, w)] \<and>
       (exec_ok es (rf_mem st) (rf_mutexes st) \<longrightarrow> exec_ok (es @ [(s, w)]) (rf_mem st1) (rf_mutexes st1))))"

lemma effect_stepD:
  assumes "effect_step s f" "f st = Some st1" "0 \<le> rf_prefix_idx st" "nat (rf_prefix_idx st) < length (rf_prefix st)"
    and "re_sym (rfe st (nat (rf_prefix_idx st))) = s"
  obtains w where "stand st1 = stand st"
    "map effect_of (rf_prefix st1) = (map effect_of (rf_prefix st))[nat (rf_prefix_idx st) := (s, w)]"
    "exec_ok (map effect_of (take (nat (rf_prefix_idx st)) (rf_prefix st))) (rf_mem st) (rf_mutexes st) \<Longrightarrow>
     exec_ok (map effect_of (take (nat (rf_prefix_idx st)) (rf_prefix st)) @ [(s, w)]) (rf_mem st1) (rf_mutexes st1)"
  using assms(1) [unfolded effect_step_def Let_def, rule_format, of st st1] assms(2-) by blast

lemma effect_stepI:
  assumes "\<And>st st1. f st = Some st1 \<Longrightarrow> 0 \<le> rf_prefix_idx st \<Longrightarrow> nat (rf_prefix_idx st) < length (rf_prefix st) \<Longrightarrow>
      re_sym (rfe st (nat (rf_prefix_idx st))) = s \<Longrightarrow> stand st1 = stand st \<and>
      (\<exists>w. map effect_of (rf_prefix st1) = (map effect_of (rf_prefix st))[nat (rf_prefix_idx st) := (s, w)] \<and>
        (\<forall>es. es = map effect_of (take (nat (rf_prefix_idx st)) (rf_prefix st)) \<and> exec_ok es (rf_mem st) (rf_mutexes st) \<longrightarrow>
           exec_ok (es @ [(s, w)]) (rf_mem st1) (rf_mutexes st1)))"
  shows "effect_step s f"
  unfolding effect_step_def Let_def by (intro allI impI) (use assms in \<open>elim conjE; blast\<close>)

lemma record_symbolic_cases:
  assumes "rf_record_symbolic s st = Some (b, st1)"
  obtains (recorded) e where "b" "\<not> rf_seen_effect st" "rf_curev st = Some e"
      "st1 = rf_upd_cur (\<lambda>e. e\<lparr>re_sym := s\<rparr>) (st\<lparr>rf_seen_effect := True\<rparr>)"
    | (mismatch) msg where "\<not> b" "rf_error msg st = Some st1"
  using assms by (auto simp: rf_record_symbolic_def assertp_def Let_def split: bind_splits if_splits)

lemma error_frame:
  assumes "rf_error msg st = Some st1"
  shows "rf_errors st1 \<noteq> []" "rf_prefix st1 = rf_prefix st" "rf_prefix_idx st1 = rf_prefix_idx st" "rf_replay st1 = rf_replay st"
    "rf_cancelled st1 = rf_cancelled st" "rf_threads st1 = rf_threads st"
  using assms by (auto simp: rf_error_def split: bind_splits)

lemma error_inv: "exec_inv st r \<Longrightarrow> rf_error msg st = Some st1 \<Longrightarrow> exec_inv st1 r"
  using error_frame [of msg st st1] by (auto simp: exec_inv_def)

lemma recorded_inv:
  assumes inv: "exec_inv st True" and r: "rf_recorded s f st = Some (b, st2)" and step: "effect_step s f"
  shows "exec_inv st2 True"
proof -
  obtain ok st1 where 1: "rf_record_symbolic s st = Some (ok, st1)" using r by (auto simp: rf_recorded_def split: bind_splits)
  then show ?thesis
  proof (cases rule: record_symbolic_cases)
    case (recorded e)
    let ?n = "nat (rf_prefix_idx st)"
    note c = curevD [OF recorded(3)]
    have f: "f st1 = Some st2" using r 1 recorded(1) by (auto simp: rf_recorded_def split: bind_splits)
    let ?es = "map effect_of (take ?n (rf_prefix st))"
    have idx: "rf_prefix_idx st1 = rf_prefix_idx st" "length (rf_prefix st1) = length (rf_prefix st)" by (simp_all add: recorded(4))
    have es: "map effect_of (take ?n (rf_prefix st1)) = ?es" by (simp add: recorded(4))
    have "re_sym (rfe st1 ?n) = s" using c by (simp add: recorded(4))
    then obtain w where w: "stand st2 = stand st1" "map effect_of (rf_prefix st2) = (map effect_of (rf_prefix st1))[?n := (s, w)]"
      "exec_ok ?es (rf_mem st1) (rf_mutexes st1) \<Longrightarrow> exec_ok (?es @ [(s, w)]) (rf_mem st2) (rf_mutexes st2)"
      using effect_stepD [OF step f, unfolded es idx, OF c(1,2)] by blast
    have st2: "rf_prefix_idx st2 = rf_prefix_idx st" "rf_seen_effect st2" "rf_replay st2 = rf_replay st"
      "rf_cancelled st2 = rf_cancelled st" "rf_errors st2 = rf_errors st" "length (rf_prefix st2) = length (rf_prefix st)"
      using standD [OF w(1)] by (simp_all add: recorded(4))
    have "effects st True = ?es" using recorded(2) by (simp add: effects_def done_count_def)
    moreover have "effects st2 True = ?es @ [(s, w)]"
    proof -
      have "effects st2 True = take (Suc ?n) (map effect_of (rf_prefix st2))"
        using st2 c by (simp add: effects_def done_count_def take_map nat_add_distrib)
      also have "\<dots> = ?es @ [(s, w)]"
        using c by (simp add: w(2) recorded(4) take_Suc_conv_app_nth take_map)
      finally show ?thesis .
    qed
    ultimately show ?thesis using inv w(3) st2 by (simp add: exec_inv_def recorded(4))
  next
    case (mismatch msg)
    then show ?thesis using r 1 error_inv [OF inv] by (auto simp: rf_recorded_def split: bind_splits)
  qed
qed

subsection \<open>The effects\<close>

lemma mutex_of_exec: "exec_ok es mem (rf_mutexes st) \<Longrightarrow> rm_last_access (rf_mutex_at st b) = last_pos (\<lambda>f. on_mutex b (fst f)) es"
proof -
  assume "exec_ok es mem (rf_mutexes st)"
  then have "(case rf_mutexes st b of None \<Rightarrow> -1 | Some m \<Rightarrow> rm_last_access m) = last_pos (\<lambda>f. on_mutex b (fst f)) es"
    unfolding exec_ok_def by blast
  then show ?thesis by (simp add: rf_mutex_at_def RF_Mutex_def split: option.splits)
qed

lemma effect_step_silent:
  assumes "no_effect s" "\<And>st st1. f st = Some st1 \<Longrightarrow> same_effects st st1"
  shows "effect_step s f"
proof (rule effect_stepI)
  fix st st1 :: rfsc
  let ?n = "nat (rf_prefix_idx st)"
  assume a: "f st = Some st1" "?n < length (rf_prefix st)" "re_sym (rfe st ?n) = s"
  note S = assms(2) [OF a(1), unfolded same_effects_def]
  have "(map effect_of (rf_prefix st))[?n := (s, re_read_from (rfe st ?n))] = map effect_of (rf_prefix st)"
    using a(2,3) by (simp add: list_update_same_conv)
  then show "stand st1 = stand st \<and> (\<exists>w. map effect_of (rf_prefix st1) = (map effect_of (rf_prefix st))[?n := (s, w)] \<and>
      (\<forall>es. es = map effect_of (take ?n (rf_prefix st)) \<and> exec_ok es (rf_mem st) (rf_mutexes st) \<longrightarrow>
         exec_ok (es @ [(s, w)]) (rf_mem st1) (rf_mutexes st1)))"
    using S by (intro conjI exI [of _ "re_read_from (rfe st ?n)"]) (simp_all add: exec_ok_silent assms(1))
qed

text \<open>A store, also after a load in the same event.\<close>

lemma exec_ok_event:
  assumes "exec_ok es mem mtx" "load_ok es (s, w)" "mutex_ok es (s, w)"
    and "\<And>b. mem1 b = (if stores_byte b s then int (length es) else mem b)"
    and "\<And>b. (case mtx1 b of None \<Rightarrow> -1 | Some m \<Rightarrow> rm_last_access m) =
              (if on_mutex b s then int (length es) else (case mtx b of None \<Rightarrow> -1 | Some m \<Rightarrow> rm_last_access m))"
  shows "exec_ok (es @ [(s, w)]) mem1 mtx1"
  using assms unfolding exec_ok_def by auto

lemma fold_upd: "fold (\<lambda>b m. m(b := v)) bs m b = (if b \<in> set bs then v else m b)"
  by (induction bs arbitrary: m) auto

lemma rf_upd_ev_twice: "i < length (rf_prefix st) \<Longrightarrow> rf_upd_ev i f (rf_upd_ev i g st) = rf_upd_ev i (\<lambda>e. f (g e)) st"
  by (simp add: rf_upd_ev_def)

lemma do_load_eq:
  assumes "rf_do_load ml st = Some st1"
  shows "st1 = rf_upd_cur (\<lambda>e. e\<lparr>re_may_conflict := True, re_read_from := Some (rf_mem st (as_addr ml))\<rparr>) st"
    "\<And>b. b \<in> set (as_elements ml) \<Longrightarrow> rf_mem st b = rf_mem st (as_addr ml)"
    "rf_mem st (as_addr ml) \<noteq> -1 \<Longrightarrow> ev_addr (re_sym (rfe st1 (nat (rf_mem st (as_addr ml))))) = Some ml"
    "0 \<le> rf_prefix_idx st" "nat (rf_prefix_idx st) < length (rf_prefix st)"
proof -
  let ?lu = "rf_mem st (as_addr ml)"
  obtain e where e: "rf_curev st = Some e" using assms by (auto simp: rf_do_load_def rf_set_may_conflict_def split: bind_splits)
  note c = curevD [OF e]
  let ?st1 = "rf_upd_cur (\<lambda>e. e\<lparr>re_may_conflict := True, re_read_from := Some ?lu\<rparr>) st"
  have "rf_do_load ml st = do { (if ?lu = -1 then Some () else do { a \<leftarrow> rf_get_addr ?st1 (nat ?lu); assertp (a = ml) });
      assertp (list_all (\<lambda>b. rf_mem st b = ?lu) (as_elements ml)); Some ?st1 }"
    by (simp add: rf_do_load_def rf_set_may_conflict_def e rf_upd_ev_twice [OF c(2)] Let_def)
  with assms have r: "st1 = ?st1" "list_all (\<lambda>b. rf_mem st b = ?lu) (as_elements ml)" "?lu \<noteq> -1 \<Longrightarrow> rf_get_addr ?st1 (nat ?lu) = Some ml"
    by (auto simp: assertp_def split: bind_splits if_splits)
  show "st1 = ?st1" by (rule r(1))
  show "rf_mem st b = ?lu" if "b \<in> set (as_elements ml)" for b using r(2) that by (auto simp: list_all_iff)
  show "ev_addr (re_sym (rfe st1 (nat ?lu))) = Some ml" if "?lu \<noteq> -1" using r(3) [OF that] r(1) by (simp add: rf_get_addr_def)
  show "0 \<le> rf_prefix_idx st" "nat (rf_prefix_idx st) < length (rf_prefix st)" using c by simp_all
qed

lemma do_load_frame:
  assumes "rf_do_load ml st = Some st1"
  shows "stand st1 = stand st" "rf_mem st1 = rf_mem st" "rf_mutexes st1 = rf_mutexes st" "rf_threads st1 = rf_threads st"
    "map effect_of (rf_prefix st1) = (map effect_of (rf_prefix st))
       [nat (rf_prefix_idx st) := (re_sym (rfe st (nat (rf_prefix_idx st))), Some (rf_mem st (as_addr ml)))]"
  by (simp_all add: do_load_eq(1) [OF assms] map_update)

lemma do_atomic_store_frame:
  assumes "rf_do_atomic_store sd st = Some st1"
  shows "stand st1 = stand st" "rf_mutexes st1 = rf_mutexes st" "rf_threads st1 = rf_threads st"
    "map effect_of (rf_prefix st1) = map effect_of (rf_prefix st)"
    "\<And>b. rf_mem st1 b = (if b \<in> set (as_elements (sd_ref sd)) then rf_prefix_idx st else rf_mem st b)"
proof -
  obtain st0 where st0: "rf_set_may_conflict st = Some st0"
    "st1 = st0\<lparr>rf_mem := fold (\<lambda>b m. m(b := rf_prefix_idx st0)) (as_elements (sd_ref sd)) (rf_mem st0)\<rparr>"
    using assms by (auto simp: rf_do_atomic_store_def split: bind_splits)
  have S: "same_effects st st0" by (rule may_conflict_same [OF st0(1)])
  have T: "rf_threads st0 = rf_threads st" using st0(1) by (auto simp: rf_set_may_conflict_def split: bind_splits)
  note D = standD [of st0 st]
  show "stand st1 = stand st" "rf_mutexes st1 = rf_mutexes st" "map effect_of (rf_prefix st1) = map effect_of (rf_prefix st)"
    "rf_threads st1 = rf_threads st"
    using S T by (simp_all add: st0(2) same_effects_def stand_def)
  show "rf_mem st1 b = (if b \<in> set (as_elements (sd_ref sd)) then rf_prefix_idx st else rf_mem st b)" for b
    using S by (simp add: st0(2) same_effects_def stand_def fold_upd)
qed

lemma load_ok_source:
  assumes "exec_ok es mem mtx" "ev_addr s = Some ml" "\<And>b. b \<in> set (as_elements ml) \<Longrightarrow> mem b = mem (as_addr ml)"
    and "mem (as_addr ml) \<noteq> -1 \<Longrightarrow> ev_addr (fst (es ! nat (mem (as_addr ml)))) = Some ml"
  shows "load_ok es (s, Some (mem (as_addr ml)))"
proof -
  have m: "mem b = last_pos (\<lambda>f. stores_byte b (fst f)) es" for b using assms(1) by (simp add: exec_ok_def)
  have "0 \<le> mem (as_addr ml) \<and> mem (as_addr ml) < int (length es) \<and> mem_store (fst (es ! nat (mem (as_addr ml))))"
    if "mem (as_addr ml) \<noteq> -1"
    using last_pos_cases [of "\<lambda>f. stores_byte (as_addr ml) (fst f)" es] that
    by (auto simp: m [of "as_addr ml"] stores_byte_def)
  then show ?thesis using assms(2,3,4) m by (auto simp: load_ok_def)
qed

lemma do_load_ok:
  assumes "rf_do_load ml st = Some st1" "es = map effect_of (take (nat (rf_prefix_idx st)) (rf_prefix st))"
    and "exec_ok es (rf_mem st) (rf_mutexes st)" "ev_addr s = Some ml"
  shows "load_ok es (s, Some (rf_mem st (as_addr ml)))"
proof (rule load_ok_source [OF assms(3,4)])
  note F = do_load_frame [OF assms(1)] do_load_eq(2-) [OF assms(1)]
  show "rf_mem st b = rf_mem st (as_addr ml)" if "b \<in> set (as_elements ml)" for b using F(6) [OF that] .
  let ?w = "rf_mem st (as_addr ml)" and ?n = "nat (rf_prefix_idx st)"
  assume w: "?w \<noteq> -1"
  have "?w = last_pos (\<lambda>f. stores_byte (as_addr ml) (fst f)) es" using assms(3) by (simp add: exec_ok_def)
  then have l: "0 \<le> ?w" "nat ?w < ?n"
    using w last_pos_cases [of "\<lambda>f. stores_byte (as_addr ml) (fst f)" es] F(8,9) by (auto simp: assms(2))
  then have "map effect_of (rf_prefix st1) ! nat ?w = map effect_of (rf_prefix st) ! nat ?w"
    unfolding F(5) by (intro nth_list_update_neq) linarith
  moreover have "length (rf_prefix st1) = length (rf_prefix st)" by (rule standD(6) [OF F(1)])
  ultimately have "re_sym (rfe st1 (nat ?w)) = re_sym (rfe st (nat ?w))" using l F(9) by simp
  moreover have "es ! nat ?w = effect_of (rfe st (nat ?w))" using l F(9) by (simp add: assms(2))
  ultimately show "ev_addr (fst (es ! nat ?w)) = Some ml" using F(7) [OF w] by simp
qed

text \<open>The kinds of the events that the operations record.\<close>

lemmas effect_kinds = mem_load_def mem_store_def mutex_op_def stores_byte_def on_mutex_def no_effect_def
  ev_constructor_defs mk_ev_defs ev_query_defs

lemma effect_step_store: "effect_step (ev_Store sd) (rf_do_atomic_store sd)"
proof (rule effect_stepI)
  fix st st1 :: rfsc
  let ?n = "nat (rf_prefix_idx st)" and ?s = "ev_Store sd"
  assume a: "rf_do_atomic_store sd st = Some st1" "0 \<le> rf_prefix_idx st" "?n < length (rf_prefix st)" "re_sym (rfe st ?n) = ?s"
  note F = do_atomic_store_frame [OF a(1)]
  have "exec_ok (es @ [(?s, re_read_from (rfe st ?n))]) (rf_mem st1) (rf_mutexes st1)"
    if "es = map effect_of (take ?n (rf_prefix st))" "exec_ok es (rf_mem st) (rf_mutexes st)" for es
    using that a(2,3) F
    by (intro exec_ok_event [OF that(2)]) (auto simp: load_ok_def mutex_ok_def effect_kinds)
  moreover have "(map effect_of (rf_prefix st))[?n := (?s, re_read_from (rfe st ?n))] = map effect_of (rf_prefix st)"
    using a(3,4) by (simp add: list_update_same_conv)
  ultimately show "stand st1 = stand st \<and> (\<exists>w. map effect_of (rf_prefix st1) = (map effect_of (rf_prefix st))[?n := (?s, w)] \<and>
      (\<forall>es. es = map effect_of (take ?n (rf_prefix st)) \<and> exec_ok es (rf_mem st) (rf_mutexes st) \<longrightarrow>
         exec_ok (es @ [(?s, w)]) (rf_mem st1) (rf_mutexes st1)))"
    using F by (intro conjI exI [of _ "re_read_from (rfe st ?n)"]) simp_all
qed

text \<open>A load, with or without a store after it in the same event.\<close>

definition loads_then :: "symaddrsize \<Rightarrow> symev \<Rightarrow> (rfsc \<Rightarrow> rfsc option) \<Rightarrow> bool" where
  "loads_then ml s g \<longleftrightarrow> (\<forall>st st1. g st = Some st1 \<longrightarrow> stand st1 = stand st \<and> rf_mutexes st1 = rf_mutexes st \<and>
     map effect_of (rf_prefix st1) = map effect_of (rf_prefix st) \<and>
     (\<forall>b. rf_mem st1 b = (if stores_byte b s then rf_prefix_idx st else rf_mem st b)))"

lemma effect_step_load:
  assumes "loads_then ml s g" "ev_addr s = Some ml" "\<not> mutex_op s"
  shows "effect_step s (\<lambda>st. rf_do_load ml st \<bind> g)"
proof (rule effect_stepI)
  fix st st1 :: rfsc
  let ?n = "nat (rf_prefix_idx st)" and ?w = "Some (rf_mem st (as_addr ml))"
  assume a: "(rf_do_load ml st \<bind> g) = Some st1" "0 \<le> rf_prefix_idx st" "?n < length (rf_prefix st)" "re_sym (rfe st ?n) = s"
  then obtain st0 where st0: "rf_do_load ml st = Some st0" "g st0 = Some st1" by (auto split: bind_splits)
  note F = do_load_frame [OF st0(1)]
  have G: "stand st1 = stand st0" "rf_mutexes st1 = rf_mutexes st0" "map effect_of (rf_prefix st1) = map effect_of (rf_prefix st0)"
    "rf_mem st1 b = (if stores_byte b s then rf_prefix_idx st0 else rf_mem st0 b)" for b
    using assms(1) st0(2) unfolding loads_then_def by blast+
  have i: "rf_prefix_idx st0 = rf_prefix_idx st" by (rule standD(1) [OF F(1)])
  have "exec_ok (es @ [(s, ?w)]) (rf_mem st1) (rf_mutexes st1)"
    if es: "es = map effect_of (take ?n (rf_prefix st))" "exec_ok es (rf_mem st) (rf_mutexes st)" for es
    using do_load_ok [OF st0(1) es assms(2)] assms(3) a(2,3)
    by (intro exec_ok_event [OF es(2)]) (auto simp: mutex_ok_def on_mutex_def G F i es(1))
  then show "stand st1 = stand st \<and> (\<exists>w. map effect_of (rf_prefix st1) = (map effect_of (rf_prefix st))[?n := (s, w)] \<and>
      (\<forall>es. es = map effect_of (take ?n (rf_prefix st)) \<and> exec_ok es (rf_mem st) (rf_mutexes st) \<longrightarrow>
         exec_ok (es @ [(s, w)]) (rf_mem st1) (rf_mutexes st1)))"
    using F(5) by (intro conjI exI [of _ ?w]) (simp_all add: G F a(4))
qed

lemma loads_only: "\<not> mem_store s \<Longrightarrow> loads_then ml s Some"
  by (simp add: loads_then_def stores_byte_def)

lemma loads_and_stores: "mem_store s \<Longrightarrow> ev_addr s = Some (sd_ref sd) \<Longrightarrow> loads_then ml s (rf_do_atomic_store sd)"
  by (auto simp: loads_then_def stores_byte_def do_atomic_store_frame)

lemma effect_step_loads:
  "effect_step (ev_Load ml) (rf_do_load ml)"
  "effect_step (ev_CmpXhgFail sd expected) (rf_do_load (sd_ref sd))"
  "ev_Rmw sd k operand used = Some e \<Longrightarrow> effect_step e (\<lambda>st. rf_do_load (sd_ref sd) st \<bind> rf_do_atomic_store sd)"
  "effect_step (ev_CmpXhg sd expected) (\<lambda>st. rf_do_load (sd_ref sd) st \<bind> rf_do_atomic_store sd)"
  using effect_step_load [OF loads_only, of "ev_Load ml" ml] effect_step_load [OF loads_only, of "ev_CmpXhgFail sd expected" "sd_ref sd"]
    effect_step_load [OF loads_and_stores, of e sd "sd_ref sd"]
    effect_step_load [OF loads_and_stores, of "ev_CmpXhg sd expected" sd "sd_ref sd"]
  by (auto simp: effect_kinds Let_def split: if_splits)

text \<open>Mutex operations.\<close>

lemma effect_step_mutex:
  assumes "mutex_op s" "ev_addr s = Some ml" "\<not> mem_load s" "\<not> mem_store s"
    and "\<And>st st1. f st = Some st1 \<Longrightarrow> stand st1 = stand st \<and> rf_mem st1 = rf_mem st \<and>
      rf_prefix st1 = (rf_prefix st)[nat (rf_prefix_idx st) := (rfe st (nat (rf_prefix_idx st)))
        \<lparr>re_read_from := Some (rm_last_access (rf_mutex_at st (as_addr ml)))\<rparr>] \<and>
      (\<exists>m. rf_mutexes st1 = (rf_mutexes st)(as_addr ml \<mapsto> m) \<and> rm_last_access m = rf_prefix_idx st)"
  shows "effect_step s f"
proof (rule effect_stepI)
  fix st st1 :: rfsc
  let ?n = "nat (rf_prefix_idx st)" and ?w = "Some (rm_last_access (rf_mutex_at st (as_addr ml)))"
  assume a: "f st = Some st1" "0 \<le> rf_prefix_idx st" "?n < length (rf_prefix st)" "re_sym (rfe st ?n) = s"
  note F = assms(5) [OF a(1)]
  obtain m where m: "rf_mutexes st1 = (rf_mutexes st)(as_addr ml \<mapsto> m)" "rm_last_access m = rf_prefix_idx st" using F by blast
  have "exec_ok (es @ [(s, ?w)]) (rf_mem st1) (rf_mutexes st1)"
    if es: "es = map effect_of (take ?n (rf_prefix st))" "exec_ok es (rf_mem st) (rf_mutexes st)" for es
  proof (rule exec_ok_event [OF es(2)])
    have "?w = Some (last_pos (\<lambda>f. on_mutex (as_addr ml) (fst f)) es)" using mutex_of_exec [OF es(2)] by simp
    then show "mutex_ok es (s, ?w)" using assms(2) by (simp add: mutex_ok_def)
    have l: "int (length es) = rf_prefix_idx st" using a(2,3) by (simp add: es(1))
    show "(case rf_mutexes st1 b of None \<Rightarrow> -1 | Some m \<Rightarrow> rm_last_access m) = (if on_mutex b s then int (length es)
        else (case rf_mutexes st b of None \<Rightarrow> -1 | Some m \<Rightarrow> rm_last_access m))" for b
      using assms(1,2) by (auto simp: m on_mutex_def l)
  qed (use assms F in \<open>auto simp: load_ok_def stores_byte_def\<close>)
  then show "stand st1 = stand st \<and> (\<exists>w. map effect_of (rf_prefix st1) = (map effect_of (rf_prefix st))[?n := (s, w)] \<and>
      (\<forall>es. es = map effect_of (take ?n (rf_prefix st)) \<and> exec_ok es (rf_mem st) (rf_mutexes st) \<longrightarrow>
         exec_ok (es @ [(s, w)]) (rf_mem st1) (rf_mutexes st1)))"
    using F a(4) by (intro conjI exI [of _ ?w]) (simp_all add: map_update)
qed

section \<open>Places of events\<close>

text \<open>
  What an operation keeps of the events beside their effects: their identifiers and sizes stay, an event that may
  conflict or has an effect keeps that, and threads are only added.
\<close>

abbreviation place_of :: "rf_event \<Rightarrow> (nat \<times> nat) \<times> nat" where
  "place_of e \<equiv> (re_iid e, re_size e)"

definition same_place_of :: "rf_event \<Rightarrow> rf_event \<Rightarrow> bool" where
  "same_place_of e f \<longleftrightarrow> place_of f = place_of e \<and> (re_may_conflict e \<longrightarrow> re_may_conflict f) \<and>
     (\<not> ev_empty (re_sym e) \<longrightarrow> \<not> ev_empty (re_sym f))"

definition same_places :: "rfsc \<Rightarrow> rfsc \<Rightarrow> bool" where
  "same_places st st1 \<longleftrightarrow> rf_prefix_idx st1 = rf_prefix_idx st \<and> rf_replay st1 = rf_replay st \<and> rf_cancelled st1 = rf_cancelled st \<and>
     rf_replay_point st1 = rf_replay_point st \<and> list_all2 same_place_of (rf_prefix st) (rf_prefix st1) \<and>
     (rf_errors st1 = [] \<longrightarrow> rf_errors st = []) \<and>
     (\<exists>n. map rt_event_indices (rf_threads st1) = map rt_event_indices (rf_threads st) @ replicate n [])"

lemma same_place_of_refl [simp]: "same_place_of e e"
  by (simp add: same_place_of_def)

lemma same_places_refl [simp]: "same_places st st"
  by (auto simp: same_places_def list_all2_refl intro: exI [of _ 0])

lemma same_places_trans: "same_places st st1 \<Longrightarrow> same_places st1 st2 \<Longrightarrow> same_places st st2"
proof -
  assume a: "same_places st st1" "same_places st1 st2"
  have "list_all2 same_place_of (rf_prefix st) (rf_prefix st2)"
    by (rule list_all2_trans [of same_place_of same_place_of same_place_of _ "rf_prefix st1"])
      (use a in \<open>auto simp: same_place_of_def same_places_def\<close>)
  moreover have "\<exists>n. map rt_event_indices (rf_threads st2) = map rt_event_indices (rf_threads st) @ replicate n []"
    using a unfolding same_places_def by (metis append_assoc replicate_add)
  ultimately show ?thesis using a by (simp add: same_places_def)
qed

lemma same_places_nth:
  assumes "same_places st st1"
  shows "length (rf_prefix st1) = length (rf_prefix st)" "length (rf_threads st) \<le> length (rf_threads st1)"
    "i < length (rf_prefix st) \<Longrightarrow> same_place_of (rfe st i) (rfe st1 i)"
    "p < length (rf_threads st) \<Longrightarrow> rt_event_indices (rth st1 p) = rt_event_indices (rth st p)"
    "length (rf_threads st) \<le> p \<Longrightarrow> p < length (rf_threads st1) \<Longrightarrow> rt_event_indices (rth st1 p) = []"
proof -
  obtain n where n: "map rt_event_indices (rf_threads st1) = map rt_event_indices (rf_threads st) @ replicate n []"
    and m: "list_all2 same_place_of (rf_prefix st) (rf_prefix st1)"
    using assms by (auto simp: same_places_def)
  have "length (map rt_event_indices (rf_threads st1)) = length (rf_threads st) + n" by (subst n) simp
  then have l: "length (rf_threads st1) = length (rf_threads st) + n" by simp
  show L: "length (rf_prefix st1) = length (rf_prefix st)" using list_all2_lengthD [OF m] by simp
  show "length (rf_threads st) \<le> length (rf_threads st1)" using l by simp
  show "same_place_of (rfe st i) (rfe st1 i)" if "i < length (rf_prefix st)" using m that by (rule list_all2_nthD)
  have t: "map rt_event_indices (rf_threads st1) ! p = (map rt_event_indices (rf_threads st) @ replicate n []) ! p" for p
    by (simp only: n)
  show "rt_event_indices (rth st1 p) = rt_event_indices (rth st p)" if "p < length (rf_threads st)"
    using t [of p] that l by (simp add: nth_append)
  show "rt_event_indices (rth st1 p) = []" if "length (rf_threads st) \<le> p" "p < length (rf_threads st1)"
    using t [of p] that l by (simp add: nth_append)
qed

lemma same_places_upd_ev:
  assumes "same_place_of (rfe st i) (f (rfe st i))"
  shows "same_places st (rf_upd_ev i f st)"
proof -
  have "list_all2 same_place_of (rf_prefix st) ((rf_prefix st)[i := f (rfe st i)])"
    using assms by (cases "i < length (rf_prefix st)") (auto simp: list_all2_conv_all_nth nth_list_update)
  then show ?thesis by (auto simp: same_places_def rf_upd_ev_def intro: exI [of _ 0])
qed

text \<open>Fields that neither invariant mentions.\<close>

lemma same_places_fields:
  "rf_prefix st1 = rf_prefix st \<Longrightarrow> rf_prefix_idx st1 = rf_prefix_idx st \<Longrightarrow> rf_replay st1 = rf_replay st \<Longrightarrow>
   rf_cancelled st1 = rf_cancelled st \<Longrightarrow> rf_threads st1 = rf_threads st \<Longrightarrow> rf_replay_point st1 = rf_replay_point st \<Longrightarrow>
   (rf_errors st1 = [] \<Longrightarrow> rf_errors st = []) \<Longrightarrow> same_places st st1"
  by (auto simp: same_places_def list_all2_refl intro: exI [of _ 0])

section \<open>Operations keep the invariant\<close>

text \<open>An event whose effect was seen is marked as one that may conflict.\<close>

definition run_inv :: "rfsc \<Rightarrow> bool \<Rightarrow> bool" where
  "run_inv st running \<longleftrightarrow> exec_inv st running \<and>
     (rf_errors st = [] \<and> running \<and> rf_seen_effect st \<longrightarrow> re_may_conflict (rfe st (nat (rf_prefix_idx st))))"

definition keeps :: "rfsc \<Rightarrow> rfsc \<Rightarrow> bool" where
  "keeps st st1 \<longleftrightarrow> (run_inv st True \<longrightarrow> run_inv st1 True) \<and> same_places st st1"

lemma rf_keeps_refl [simp]: "keeps st st"
  by (simp add: keeps_def)

lemma rf_keeps_trans: "keeps st st1 \<Longrightarrow> keeps st1 st2 \<Longrightarrow> keeps st st2"
  unfolding keeps_def using same_places_trans by blast

lemma exec_inv_cur: "exec_inv st True \<Longrightarrow> nat (rf_prefix_idx st) < length (rf_prefix st)"
  by (auto simp: exec_inv_def)

lemma keeps_same:
  assumes "same_effects st st1" "same_places st st1"
  shows "keeps st st1"
proof -
  have "run_inv st1 True" if i: "run_inv st True"
  proof -
    have S: "stand st1 = stand st" using assms(1) by (simp add: same_effects_def)
    note D = standD [OF S]
    have "re_may_conflict (rfe st (nat (rf_prefix_idx st))) \<longrightarrow> re_may_conflict (rfe st1 (nat (rf_prefix_idx st)))"
      using same_places_nth(3) [OF assms(2)] exec_inv_cur i by (simp add: same_place_of_def run_inv_def)
    then show ?thesis using i same_effects_inv [OF assms(1)] unfolding run_inv_def D by blast
  qed
  then show ?thesis using assms(2) by (simp add: keeps_def)
qed

lemma may_conflict_keeps: "rf_set_may_conflict st = Some st1 \<Longrightarrow> keeps st st1"
  by (rule keeps_same [OF may_conflict_same])
    (auto simp: rf_set_may_conflict_def same_place_of_def intro!: same_places_upd_ev split: bind_splits)

lemma may_conflict_set:
  assumes "rf_set_may_conflict st = Some st1"
  shows "re_may_conflict (rfe st1 (nat (rf_prefix_idx st1)))"
proof -
  obtain e where "rf_curev st = Some e" using assms by (auto simp: rf_set_may_conflict_def split: bind_splits)
  then show ?thesis using assms curevD(2) by (auto simp: rf_set_may_conflict_def split: bind_splits)
qed

lemma error_keeps:
  assumes "rf_error msg st = Some st1" shows "keeps st st1"
proof -
  have "rf_replay_point st1 = rf_replay_point st" using assms by (auto simp: rf_error_def split: bind_splits)
  then have "same_places st st1" using error_frame [OF assms] by (intro same_places_fields) simp_all
  then show ?thesis using error_inv [OF _ assms] error_frame(1) [OF assms] by (simp add: keeps_def run_inv_def)
qed

text \<open>The rest of an operation after its event is recorded: it sets \<^verbatim>\<open>may_conflict\<close>, unless that was done before.\<close>

definition after_record :: "bool \<Rightarrow> (rfsc \<Rightarrow> rfsc option) \<Rightarrow> bool" where
  "after_record conflict f \<longleftrightarrow> (\<forall>st st1. f st = Some st1 \<longrightarrow> same_places st st1 \<and>
     (conflict \<longrightarrow> re_may_conflict (rfe st1 (nat (rf_prefix_idx st1)))))"

lemma recorded_keeps:
  assumes r: "rf_recorded s f st = Some (b, st2)" and s: "effect_step s f" "\<not> ev_empty s"
    and f: "after_record conflict f" "conflict \<or> re_may_conflict (rfe st (nat (rf_prefix_idx st)))"
  shows "keeps st st2"
proof -
  obtain ok st1 where 1: "rf_record_symbolic s st = Some (ok, st1)" using r by (auto simp: rf_recorded_def split: bind_splits)
  then show ?thesis
  proof (cases rule: record_symbolic_cases)
    case (recorded e)
    note c = curevD(2) [OF recorded(3)]
    have 2: "f st1 = Some st2" using r 1 recorded(1) by (auto simp: rf_recorded_def split: bind_splits)
    have P: "same_places st1 st2" "conflict \<Longrightarrow> re_may_conflict (rfe st2 (nat (rf_prefix_idx st2)))"
      using f(1) 2 by (simp_all add: after_record_def)
    have "same_places st (st\<lparr>rf_seen_effect := True\<rparr>)" by (rule same_places_fields) simp_all
    moreover have "same_places (st\<lparr>rf_seen_effect := True\<rparr>) st1"
      unfolding recorded(4) by (rule same_places_upd_ev) (simp add: same_place_of_def s(2))
    ultimately have Q: "same_places st st1" "same_places st st2" using P(1) same_places_trans by blast+
    have "re_may_conflict (rfe st2 (nat (rf_prefix_idx st2)))"
      using f(2) P(2) same_places_nth(3) [OF Q(2), of "nat (rf_prefix_idx st)"] c Q(2) by (auto simp: same_place_of_def same_places_def)
    then show ?thesis using recorded_inv [OF _ r s(1)] Q(2) by (simp add: keeps_def run_inv_def)
  next
    case (mismatch msg)
    then show ?thesis using r 1 error_keeps by (auto simp: rf_recorded_def split: bind_splits)
  qed
qed

text \<open>The operations that set \<^verbatim>\<open>may_conflict\<close> before they record.\<close>

lemma conflict_recorded_keeps:
  assumes "(rf_set_may_conflict st \<bind> rf_recorded s f) = Some (b, st1)" "effect_step s f" "\<not> ev_empty s"
    and "\<And>st1 st2. f st1 = Some st2 \<Longrightarrow> same_places st1 st2"
  shows "keeps st st1"
proof -
  obtain st0 where st0: "rf_set_may_conflict st = Some st0" "rf_recorded s f st0 = Some (b, st1)"
    using assms(1) by (auto split: bind_splits)
  have "keeps st0 st1"
    by (rule recorded_keeps [OF st0(2) assms(2,3), of False]) (use assms(4) may_conflict_set [OF st0(1)] in \<open>simp_all add: after_record_def\<close>)
  then show ?thesis using may_conflict_keeps [OF st0(1)] rf_keeps_trans by blast
qed

lemma do_load_after: "after_record True (rf_do_load ml)"
  unfolding after_record_def
proof (intro allI impI)
  fix st st1 assume "rf_do_load ml st = Some st1"
  note L = do_load_eq [OF this]
  show "same_places st st1 \<and> (True \<longrightarrow> re_may_conflict (rfe st1 (nat (rf_prefix_idx st1))))"
    using L(5) by (simp add: L(1) same_places_upd_ev same_place_of_def)
qed

lemma do_atomic_store_after: "after_record True (rf_do_atomic_store sd)"
  unfolding after_record_def
proof (intro allI impI)
  fix st st1 assume "rf_do_atomic_store sd st = Some st1"
  then obtain st0 where st0: "rf_set_may_conflict st = Some st0"
    "st1 = st0\<lparr>rf_mem := fold (\<lambda>b m. m(b := rf_prefix_idx st0)) (as_elements (sd_ref sd)) (rf_mem st0)\<rparr>"
    by (auto simp: rf_do_atomic_store_def split: bind_splits)
  have "same_places st0 st1" by (rule same_places_fields) (simp_all add: st0(2))
  then show "same_places st st1 \<and> (True \<longrightarrow> re_may_conflict (rfe st1 (nat (rf_prefix_idx st1))))"
    using may_conflict_keeps [OF st0(1)] may_conflict_set [OF st0(1)] same_places_trans by (auto simp: keeps_def st0(2))
qed

lemma after_record_bind: "after_record c f \<Longrightarrow> after_record True g \<Longrightarrow> after_record True (\<lambda>st. f st \<bind> g)"
  unfolding after_record_def by (auto split: bind_splits) (blast intro: same_places_trans)

lemma recorded_not_empty:
  "\<not> ev_empty (ev_Store sd)" "\<not> ev_empty (ev_Load ml)" "ev_Rmw sd k operand used = Some e \<Longrightarrow> \<not> ev_empty e" "\<not> ev_empty (ev_CmpXhg sd x)"
  "\<not> ev_empty (ev_CmpXhgFail sd x)" "\<not> ev_empty (ev_Spawn n)" "\<not> ev_empty (ev_Join n)" "\<not> ev_empty (ev_MLock ml)"
  "\<not> ev_empty (ev_MTryLock ml)" "\<not> ev_empty (ev_MTryLockFail ml)" "\<not> ev_empty (ev_MUnlock ml)" "\<not> ev_empty (ev_MInit ml)"
  "\<not> ev_empty (ev_MDelete ml)"
  by (auto simp: ev_empty_def ev_constructor_defs mk_ev_defs Let_def split: if_splits)

lemma memory_keeps:
  "rf_atomic_store sd st = Some (b, st1) \<Longrightarrow> keeps st st1"
  "rf_atomic_rmw sd k operand used st = Some (b, st1) \<Longrightarrow> keeps st st1"
  "rf_load ml st = Some (b, st1) \<Longrightarrow> keeps st st1"
  "rf_compare_exchange sd expected success st = Some (b, st1) \<Longrightarrow> keeps st st1"
proof -
  note B = after_record_bind [OF do_load_after do_atomic_store_after]
  note R = recorded_keeps [where conflict = True]
  show "rf_atomic_store sd st = Some (b, st1) \<Longrightarrow> keeps st st1"
    unfolding rf_atomic_store_def using R effect_step_store do_atomic_store_after recorded_not_empty by blast
  show "rf_atomic_rmw sd k operand used st = Some (b, st1) \<Longrightarrow> keeps st st1"
    unfolding rf_atomic_rmw_def using R [OF _ effect_step_loads(3) recorded_not_empty(3) B] by (auto split: bind_splits)
  show "rf_load ml st = Some (b, st1) \<Longrightarrow> keeps st st1"
    unfolding rf_load_def using R effect_step_loads(1) do_load_after recorded_not_empty by blast
  show "rf_compare_exchange sd expected success st = Some (b, st1) \<Longrightarrow> keeps st st1"
    unfolding rf_compare_exchange_def using R effect_step_loads(2,4) do_load_after B recorded_not_empty by (auto split: if_splits)
qed

lemma spawn_keeps:
  assumes "rf_spawn st = Some (b, st1)"
  shows "keeps st st1"
proof -
  let ?f = "\<lambda>st1. do { e \<leftarrow> rf_curev st1; (child_cpid, cps) \<leftarrow> cs_spawn (rf_CPS st1) (rt_cpid (rth st1 (re_pid e)));
       Some (st1\<lparr>rf_CPS := cps, rf_threads := rf_threads st1 @ [RF_Thread child_cpid (rf_prefix_idx st1)]\<rparr>) }"
  obtain st0 where st0: "rf_set_may_conflict st = Some st0" "rf_recorded (ev_Spawn (int (length (rf_threads st0)))) ?f st0 = Some (b, st1)"
    using assms by (auto simp: rf_spawn_def split: bind_splits)
  have f: "same_effects u v \<and> same_places u v" if fu: "?f u = Some v" for u v
  proof -
    obtain c cps where v: "v = u\<lparr>rf_CPS := cps, rf_threads := rf_threads u @ [RF_Thread c (rf_prefix_idx u)]\<rparr>"
      using fu by (auto split: bind_splits)
    show ?thesis by (auto simp: v same_effects_def stand_def same_places_def RF_Thread_def list_all2_refl intro: exI [of _ 1])
  qed
  have "effect_step (ev_Spawn (int (length (rf_threads st0)))) ?f"
    by (rule effect_step_silent) (use f in \<open>auto simp: effect_kinds\<close>)
  then have "keeps st0 st1"
    using recorded_keeps [OF st0(2) _ recorded_not_empty(6), of False] f may_conflict_set [OF st0(1)] by (auto simp: after_record_def)
  then show ?thesis using may_conflict_keeps [OF st0(1)] rf_keeps_trans by blast
qed

lemma add_happens_after_same:
  assumes "rf_add_happens_after second first st = Some st1"
  shows "same_effects st st1 \<and> same_places st st1"
  using assms
  by (auto simp: rf_add_happens_after_def assertp_def Let_def same_effects_refl same_effects_upd_ev same_places_upd_ev same_place_of_def
      split: if_splits)

lemma join_keeps:
  assumes "rf_join tgt st = Some (b, st1)"
  shows "keeps st st1"
proof -
  let ?f = "\<lambda>st1. rf_add_happens_after_thread (nat (rf_prefix_idx st1)) tgt st1"
  have f: "same_effects u v \<and> same_places u v" if "?f u = Some v" for u v
    using that add_happens_after_same
    by (auto simp: rf_add_happens_after_thread_def assertp_def same_effects_refl split: if_splits)
  have "effect_step (ev_Join (int tgt)) ?f" by (rule effect_step_silent) (use f in \<open>auto simp: effect_kinds\<close>)
  then show ?thesis using conflict_recorded_keeps [OF _ _ recorded_not_empty(7)] assms f unfolding rf_join_def by blast
qed

lemma mutex_update_places: "same_places st (rf_read_mutex a st\<lparr>rf_mutexes := m\<rparr>)"
proof -
  have "same_places st (rf_read_mutex a st)" unfolding rf_read_mutex_def by (rule same_places_upd_ev) (simp add: same_place_of_def)
  moreover have "same_places (rf_read_mutex a st) (rf_read_mutex a st\<lparr>rf_mutexes := m\<rparr>)" by (rule same_places_fields) simp_all
  ultimately show ?thesis by (rule same_places_trans)
qed

lemma read_mutex_frame [simp]:
  "rf_prefix_idx (rf_read_mutex a st) = rf_prefix_idx st" "rf_mutexes (rf_read_mutex a st) = rf_mutexes st"
  "rf_mutex_at (rf_read_mutex a st) b = rf_mutex_at st b" "rf_mem (rf_read_mutex a st) = rf_mem st"
  "rf_prefix (rf_read_mutex a st) = (rf_prefix st)[nat (rf_prefix_idx st) := (rfe st (nat (rf_prefix_idx st)))
     \<lparr>re_read_from := Some (rm_last_access (rf_mutex_at st a))\<rparr>]"
  "stand (rf_read_mutex a st) = stand st"
  by (simp_all add: rf_read_mutex_def rf_mutex_at_def)

lemma stand_fields: "stand (st\<lparr>rf_mutexes := m\<rparr>) = stand st" "stand (st\<lparr>rf_mutex_deadlocks := d\<rparr>) = stand st"
  by (simp_all add: stand_def)

lemma mutex_keeps:
  "rf_mutex_lock ml st = Some (b, st1) \<Longrightarrow> keeps st st1"
  "rf_mutex_unlock ml st = Some (b, st1) \<Longrightarrow> keeps st st1"
  "rf_mutex_init ml st = Some (b, st1) \<Longrightarrow> keeps st st1"
  "rf_mutex_destroy ml st = Some (b, st1) \<Longrightarrow> keeps st st1"
proof -
  note R = conflict_recorded_keeps
  have D: "same_places u (v\<lparr>rf_mutex_deadlocks := d\<rparr>)" if "same_places u v" for u v d
    using that same_places_trans [OF that same_places_fields [of "v\<lparr>rf_mutex_deadlocks := d\<rparr>" v]] by simp
  show "keeps st st1" if "rf_mutex_lock ml st = Some (b, st1)"
    using that unfolding rf_mutex_lock_def
    by (rule R, intro effect_step_mutex [of _ ml])
      (auto simp: effect_kinds ev_empty_def Let_def stand_fields mutex_update_places)
  show "keeps st st1" if "rf_mutex_destroy ml st = Some (b, st1)"
    using that unfolding rf_mutex_destroy_def
    by (rule R, intro effect_step_mutex [of _ ml])
      (auto simp: effect_kinds ev_empty_def Let_def stand_fields mutex_update_places)
  show "keeps st st1" if "rf_mutex_unlock ml st = Some (b, st1)"
    using that unfolding rf_mutex_unlock_def Let_def
    by (rule R, intro effect_step_mutex [of _ ml])
      (auto simp: effect_kinds ev_empty_def Let_def stand_fields assertp_def mutex_update_places intro: D split: if_splits)
  have init: "same_places u (rf_upd_cur (\<lambda>e. e\<lparr>re_read_from := x\<rparr>) u\<lparr>rf_mutexes := m\<rparr>)" for u x m
    by (rule same_places_trans [OF same_places_upd_ev [of _ _ "\<lambda>e. e\<lparr>re_read_from := x\<rparr>"] same_places_fields])
      (simp_all add: same_place_of_def rf_upd_ev_def)
  show "keeps st st1" if "rf_mutex_init ml st = Some (b, st1)"
    using that unfolding rf_mutex_init_def
    by (rule R, intro effect_step_mutex [of _ ml])
      (auto simp: effect_kinds ev_empty_def Let_def stand_fields assertp_def init rf_mutex_at_def RF_Mutex_def split: if_splits)
qed

text \<open>\<^verbatim>\<open>mutexes[ml.addr]\<close> adds a mutex without an access.\<close>

lemma touch_mutex_keeps: "keeps st (st\<lparr>rf_mutexes := (rf_mutexes st)(a \<mapsto> rf_mutex_at st a)\<rparr>)"
proof -
  let ?st = "st\<lparr>rf_mutexes := (rf_mutexes st)(a \<mapsto> rf_mutex_at st a)\<rparr>"
  have m: "(case rf_mutexes ?st b of None \<Rightarrow> -1 | Some m \<Rightarrow> rm_last_access m) =
      (case rf_mutexes st b of None \<Rightarrow> -1 | Some m \<Rightarrow> rm_last_access m)" for b
    by (simp add: rf_mutex_at_def RF_Mutex_def split: option.splits)
  have "exec_ok es mem (rf_mutexes ?st) = exec_ok es mem (rf_mutexes st)" for es mem
    unfolding exec_ok_def m ..
  moreover have "effects ?st r = effects st r" for r by (simp add: effects_def done_count_def)
  ultimately have "run_inv ?st r = run_inv st r" for r unfolding run_inv_def exec_inv_def by simp
  moreover have "same_places st ?st" by (rule same_places_fields) simp_all
  ultimately show ?thesis by (simp add: keeps_def)
qed

lemma trylock_keeps:
  assumes "rf_mutex_trylock ml st = Some (b, st1)"
  shows "keeps st st1"
proof (rule rf_keeps_trans [OF touch_mutex_keeps])
  show "keeps (st\<lparr>rf_mutexes := (rf_mutexes st)(as_addr ml \<mapsto> rf_mutex_at st (as_addr ml))\<rparr>) st1"
    using assms unfolding rf_mutex_trylock_def Let_def
    by (rule conflict_recorded_keeps, intro effect_step_mutex [of _ ml])
      (auto simp: effect_kinds ev_empty_def Let_def stand_fields mutex_update_places)
qed

lemma lock_fail_keeps:
  assumes "rf_mutex_lock_fail ml st = Some (b, st1)"
  shows "keeps st st1"
proof -
  obtain d where st1: "st1 = st\<lparr>rf_mutex_deadlocks := d\<rparr>"
    using assms by (auto simp: rf_mutex_lock_fail_def assertp_def Let_def split: bind_splits if_splits)
  have "same_effects st st1" by (simp add: st1 same_effects_def stand_fields)
  moreover have "same_places st st1" by (rule same_places_fields) (simp_all add: st1)
  ultimately show ?thesis by (rule keeps_same)
qed

lemma unsupported_keeps:
  "rf_unsupported msg st = Some (b, st1) \<Longrightarrow> keeps st st1" "rf_cond_op st = Some (b, st1) \<Longrightarrow> keeps st st1"
  "rf_register_alternatives n st = Some (b, st1) \<Longrightarrow> keeps st st1"
proof -
  have U: "keeps u v" if "rf_unsupported msg u = Some (b, v)" for u v msg
    using that error_keeps by (auto simp: rf_unsupported_def)
  have C: "keeps st v" if "(rf_set_may_conflict st \<bind> rf_unsupported msg) = Some (b, v)" for v msg
    using that U may_conflict_keeps rf_keeps_trans by (auto split: bind_splits) blast
  show "rf_unsupported msg st = Some (b, st1) \<Longrightarrow> keeps st st1" using U by blast
  show "rf_cond_op st = Some (b, st1) \<Longrightarrow> keeps st st1" "rf_register_alternatives n st = Some (b, st1) \<Longrightarrow> keeps st st1"
    using C by (simp_all add: rf_cond_op_def rf_register_alternatives_def)
qed

end
