(* ===== verification/RFSC_Runs.thy ===== *)
theory RFSC_Runs
  imports RFSC_Inv
begin

text \<open>
  Runs of the reads-from trace builder: what scheduling keeps of the invariant, sequences of calls as the interpreter
  makes them, and the sources that are recorded in them.
\<close>

section \<open>Scheduling\<close>

text \<open>A replayed event is scheduled when it is entered; before the first one there is none.\<close>

definition sess_inv :: "rfsc \<Rightarrow> bool \<Rightarrow> bool" where
  "sess_inv st running \<longleftrightarrow> run_inv st running \<and> (rf_replay st \<and> \<not> running \<longrightarrow> rf_prefix_idx st = -1)"

lemma exec_inv_settle:
  assumes "exec_inv st r" "rf_errors st = []"
    and "r \<Longrightarrow> \<not> rf_seen_effect st \<Longrightarrow> ev_empty (re_sym (rfe st (nat (rf_prefix_idx st))))"
  shows "exec_ok (map effect_of (take (nat (rf_prefix_idx st + 1)) (rf_prefix st))) (rf_mem st) (rf_mutexes st)"
proof (cases "r \<and> \<not> rf_seen_effect st")
  case True
  let ?n = "nat (rf_prefix_idx st)"
  have n: "0 \<le> rf_prefix_idx st" "?n < length (rf_prefix st)" using assms(1) True by (auto simp: exec_inv_def)
  have "exec_ok (map effect_of (take ?n (rf_prefix st))) (rf_mem st) (rf_mutexes st)"
    using assms(1,2) True by (simp add: exec_inv_def effects_def done_count_def)
  moreover have "nat (rf_prefix_idx st + 1) = Suc ?n" using n(1) by simp
  ultimately show ?thesis
    using n(2) empty_no_effect [of "re_sym (rfe st ?n)"] assms(3) True by (simp add: take_Suc_conv_app_nth exec_ok_silent)
next
  case False
  then have "done_count st r = nat (rf_prefix_idx st + 1)" by (auto simp: done_count_def)
  then show ?thesis using assms(1,2) by (simp add: exec_inv_def effects_def)
qed

lemma exec_inv_settled:
  assumes "exec_inv st r" "\<not> rf_replay st" "\<not> rf_cancelled st"
  shows "exec_inv st False"
  using assms exec_inv_settle [OF assms(1)] by (simp add: exec_inv_def effects_def done_count_def)

lemma effect_seenD:
  assumes "rf_effect_seen st = Some True" "rf_errors st = []" "0 \<le> rf_prefix_idx st"
  shows "\<not> rf_seen_effect st \<Longrightarrow> ev_empty (re_sym (rfe st (nat (rf_prefix_idx st))))"
    "rf_seen_effect st \<Longrightarrow> \<not> ev_empty (re_sym (rfe st (nat (rf_prefix_idx st))))"
  using assms by (auto simp: rf_effect_seen_def dest!: curevD split: if_splits bind_splits)

lemma push_event_index_same: "same_effects st (push_event_index p st)"
  unfolding push_event_index_def by (rule same_effects_upd_th)

lemma push_event_index_frame [simp]:
  "rf_prefix (push_event_index p st) = rf_prefix st" "rf_prefix_idx (push_event_index p st) = rf_prefix_idx st"
  "rf_replay (push_event_index p st) = rf_replay st" "rf_cancelled (push_event_index p st) = rf_cancelled st"
  "rf_seen_effect (push_event_index p st) = rf_seen_effect st" "rf_errors (push_event_index p st) = rf_errors st"
  "rf_mem (push_event_index p st) = rf_mem st" "rf_mutexes (push_event_index p st) = rf_mutexes st"
  by (simp_all add: push_event_index_def)

lemma merge_last_cases:
  assumes "rf_merge_last st = Some st1"
  obtains (same) "st1 = st" "length (rf_prefix st) \<le> 1 \<or> re_pid (rfe st (length (rf_prefix st) - 1)) \<noteq> re_pid (rfe st (length (rf_prefix st) - 2)) \<or>
      re_may_conflict (rfe st (length (rf_prefix st) - 1))"
    | (merged) e idx where "1 < length (rf_prefix st)" "re_pid (rfe st (length (rf_prefix st) - 1)) = re_pid (rfe st (length (rf_prefix st) - 2))"
      "\<not> re_may_conflict (rfe st (length (rf_prefix st) - 1))"
      "rf_curev st = Some e" "ev_empty (re_sym e)" "1 \<le> rf_prefix_idx st"
      "idx = rt_event_indices (rth st (re_pid (rfe st (nat (rf_prefix_idx st - 1)))))" "idx \<noteq> []" "int (last idx) = rf_prefix_idx st"
      "st1 = rf_upd_th (re_pid (rfe st (nat (rf_prefix_idx st - 1)))) (\<lambda>t. t\<lparr>rt_event_indices := butlast idx @ [nat (rf_prefix_idx st - 1)]\<rparr>)
        (rf_upd_ev (nat (rf_prefix_idx st - 1)) (\<lambda>e. e\<lparr>re_size := re_size e + 1\<rparr>)
          (st\<lparr>rf_prefix := butlast (rf_prefix st), rf_prefix_idx := rf_prefix_idx st - 1\<rparr>))"
proof (cases "1 < length (rf_prefix st) \<and> re_pid (rfe st (length (rf_prefix st) - 1)) = re_pid (rfe st (length (rf_prefix st) - 2)) \<and>
      \<not> re_may_conflict (rfe st (length (rf_prefix st) - 1))")
  case True
  let ?st1 = "st\<lparr>rf_prefix := butlast (rf_prefix st), rf_prefix_idx := rf_prefix_idx st - 1\<rparr>"
  obtain e e1 where e: "rf_curev st = Some e" "ev_empty (re_sym e)" "rf_curev ?st1 = Some e1"
    using assms True by (auto simp: rf_merge_last_def Let_def assertp_def split: bind_splits if_splits)
  note c = curevD [OF e(1)] curevD [OF e(3)]
  have e1: "e1 = rfe st (nat (rf_prefix_idx st - 1))" using c(4-) by (simp add: nth_butlast)
  show ?thesis
    using assms True e c(4) e1
    by (intro merged [OF _ _ _ e(1,2) _ refl]) (auto simp: rf_merge_last_def Let_def assertp_def split: if_splits)
qed (use assms in \<open>auto simp: rf_merge_last_def Let_def intro: same\<close>)

lemma take_all_nat: "n + 1 = int (length xs) \<Longrightarrow> take (nat (n + 1)) xs = xs"
  by simp

lemma merge_last_exec:
  assumes inv: "exec_inv st r" and mode: "\<not> rf_replay st" "\<not> rf_cancelled st" and m: "rf_merge_last st = Some st1"
  shows "exec_inv st1 False \<and> \<not> rf_replay st1 \<and> \<not> rf_cancelled st1 \<and> length (rf_prefix st1) \<le> length (rf_prefix st)"
  using m
proof (cases rule: merge_last_cases)
  case same
  then show ?thesis using exec_inv_settled [OF inv mode] mode by simp
next
  case (merged e idx)
  let ?es = "map effect_of (rf_prefix st)" and ?i = "nat (rf_prefix_idx st - 1)"
  note c = curevD [OF merged(4)]
  have all: "rf_prefix_idx st + 1 = int (length (rf_prefix st))" using inv mode by (simp add: exec_inv_def)
  have le: "rf_prefix st = butlast (rf_prefix st) @ [e]"
    using c merged(1) all by (metis append_butlast_last_id last_conv_nth length_0_conv nat_int add_diff_cancel_right' diff_Suc_1
        less_nat_zero_code of_nat_1 of_nat_diff linorder_not_le less_one nat_less_le One_nat_def)
  have "?es = map effect_of (butlast (rf_prefix st)) @ [effect_of e]" by (subst le) simp
  then have ok: "exec_ok (map effect_of (butlast (rf_prefix st))) (rf_mem st) (rf_mutexes st)" if "rf_errors st = []"
    using exec_inv_settled [OF inv mode] that merged(5) empty_no_effect [of "re_sym e"] all
    by (simp add: exec_inv_def effects_def done_count_def exec_ok_silent)
  have i: "?i < length (butlast (rf_prefix st))" "nat (rf_prefix_idx st) = length (butlast (rf_prefix st))" using merged(6) all by auto
  have es: "map effect_of ((butlast (rf_prefix st))[?i := (butlast (rf_prefix st) ! ?i)\<lparr>re_size := x\<rparr>]) = map effect_of (butlast (rf_prefix st))" for x
    using i(1) by (simp add: map_update list_update_same_conv)
  have "effects st1 False = map effect_of (butlast (rf_prefix st))"
    using i es by (simp add: merged(10) effects_def done_count_def)
  then show ?thesis
    using ok all merged(6) mode by (auto simp: exec_inv_def merged(10))
qed

lemma schedule_new_inv:
  assumes inv: "exec_inv st r" and mode: "\<not> rf_cancelled st" and s: "rf_schedule_new st = Some (res, st1)"
  shows "sess_inv st1 (res \<noteq> None)"
proof -
  have rep: "\<not> rf_replay st" using s by (auto simp: rf_schedule_new_def assertp_def split: if_splits)
  obtain st0 where st0: "rf_merge_last st = Some st0" using s by (auto simp: rf_schedule_new_def split: bind_splits)
  note M = merge_last_exec [OF inv rep mode st0]
  show ?thesis
  proof (cases "find (rf_can_run st0) [0..<length (rf_threads st0)]")
    case None
    then have "st1 = st0" "res = None" using s st0 rep by (auto simp: rf_schedule_new_def assertp_def)
    then show ?thesis using M by (simp add: sess_inv_def run_inv_def)
  next
    case (Some p)
    let ?e = "RF_Event (p, last_event_index (rth (push_event_index p (st0\<lparr>rf_seen_effect := False, rf_prefix_idx := rf_prefix_idx st0 + 1\<rparr>)) p)) ev_None"
    have st1: "res = Some (p, 0)" "rf_prefix st1 = rf_prefix st0 @ [?e]" "rf_prefix_idx st1 = rf_prefix_idx st0 + 1" "\<not> rf_seen_effect st1"
      "rf_replay st1 = rf_replay st0" "rf_cancelled st1 = rf_cancelled st0" "rf_errors st1 = rf_errors st0" "rf_mem st1 = rf_mem st0"
      "rf_mutexes st1 = rf_mutexes st0"
      using s st0 rep Some by (auto simp: rf_schedule_new_def assertp_def Let_def split: if_splits)
    have l: "rf_prefix_idx st0 + 1 = int (length (rf_prefix st0))" using M by (simp add: exec_inv_def)
    then have "effects st1 True = effects st0 False" using st1(3,4) by (simp add: effects_def done_count_def st1(2))
    moreover have "ev_empty (re_sym ?e)" by (simp add: RF_Event_def ev_None_def mk_ev_def ev_empty_def)
    moreover have "rfe st1 (nat (rf_prefix_idx st1)) = ?e" using l by (simp add: st1(2,3))
    ultimately show ?thesis
      using M l st1 by (auto simp: sess_inv_def run_inv_def exec_inv_def)
  qed
qed

lemma unfinished_idx: "rf_unfinished st = Some True \<Longrightarrow> 0 \<le> rf_prefix_idx st"
  by (auto simp: rf_unfinished_def split: if_splits)

lemma schedule_inv:
  assumes inv: "sess_inv st r" and s: "rf_schedule st = Some (res, st1)"
  shows "sess_inv st1 (if rf_cancelled st then r else res \<noteq> None)"
proof (cases "rf_cancelled st \<or> \<not> rf_replay st")
  case True
  then show ?thesis
    using s inv schedule_new_inv [of st r res st1] by (auto simp: rf_schedule_def assertp_def sess_inv_def run_inv_def split: if_splits)
next
  case False
  have E: "exec_inv st r" using inv by (simp add: sess_inv_def run_inv_def)
  obtain u where u: "rf_unfinished st = Some u" using s False by (auto simp: rf_schedule_def split: bind_splits)
  consider (continue) "u" "rf_replay_continue st = Some (res, st1)"
    | (leave) "\<not> u" "rf_prefix_idx st + 1 = int (length (rf_prefix st))" "rf_effect_seen st = Some True"
        "rf_schedule_new (st\<lparr>rf_replay := False\<rparr>) = Some (res, st1)"
    | (enter) "\<not> u" "rf_replay_next st = Some (res, st1)"
    using s False u by (auto simp: rf_schedule_def assertp_def split: if_splits bind_splits)
  then show ?thesis
  proof cases
    case continue
    then have "0 \<le> rf_prefix_idx st" using u unfinished_idx by simp
    then have r: r using inv False by (auto simp: sess_inv_def)
    obtain e where "rf_curev st = Some e" "res = Some (re_pid e, 0)" "st1 = push_event_index (re_pid e) st"
      using continue(2) by (auto simp: rf_replay_continue_def assertp_def Let_def split: bind_splits if_splits)
    then show ?thesis
      using inv r same_effects_inv [OF push_event_index_same, of "re_pid e" st r] False by (simp add: sess_inv_def run_inv_def)
  next
    case leave
    have "ev_empty (re_sym (rfe st (nat (rf_prefix_idx st))))" if "rf_errors st = []" "r" "\<not> rf_seen_effect st"
      using effect_seenD(1) [OF leave(3) that(1)] that E by (simp add: exec_inv_def)
    then have "exec_inv (st\<lparr>rf_replay := False\<rparr>) r"
      using E leave(2) by (auto simp: exec_inv_def effects_def done_count_def)
    then show ?thesis using schedule_new_inv [OF _ _ leave(4)] False by simp
  next
    case enter
    let ?st = "st\<lparr>rf_seen_effect := False, rf_prefix_idx := rf_prefix_idx st + 1\<rparr>"
    obtain e where e: "rf_effect_seen st = Some True" "rf_curev ?st = Some e" "res = Some (re_pid e, re_alt e)" "st1 = push_event_index (re_pid e) ?st"
      using enter(2) by (auto simp: rf_replay_next_def assertp_def Let_def split: bind_splits if_splits)
    note c = curevD [OF e(2)]
    have "exec_ok (map effect_of (take (nat (rf_prefix_idx st + 1)) (rf_prefix st))) (rf_mem st) (rf_mutexes st)" if "rf_errors st = []"
      using exec_inv_settle [OF E that] effect_seenD(1) [OF e(1) that] E by (auto simp: exec_inv_def)
    then have "exec_inv ?st True"
      using E c False by (auto simp: exec_inv_def effects_def done_count_def)
    then have "exec_inv st1 True" using same_effects_inv [OF push_event_index_same, of "re_pid e" ?st] by (simp add: e(4))
    then show ?thesis using False by (simp add: sess_inv_def run_inv_def e(3,4))
  qed
qed

lemma refuse_inv:
  assumes inv: "sess_inv st True" and rep: "\<not> rf_replay st" and s: "rf_refuse_schedule st = Some st1"
  shows "sess_inv st1 False"
proof -
  obtain e where e: "rf_curev st = Some e" "\<not> re_may_conflict e" "rf_prefix_idx st = int (length (rf_prefix st)) - 1"
    using s by (auto simp: rf_refuse_schedule_def assertp_def split: bind_splits if_splits)
  have st1: "rf_prefix st1 = butlast (rf_prefix st)" "rf_prefix_idx st1 = rf_prefix_idx st - 1" "rf_errors st1 = rf_errors st"
    "rf_replay st1 = rf_replay st" "rf_cancelled st1 = rf_cancelled st" "rf_mem st1 = rf_mem st" "rf_mutexes st1 = rf_mutexes st"
    using s by (auto simp: rf_refuse_schedule_def assertp_def rf_mark_unavailable_def Let_def split: bind_splits if_splits)
  have E: "exec_inv st True" using inv by (simp add: sess_inv_def run_inv_def)
  have n: "0 \<le> rf_prefix_idx st" using E by (simp add: exec_inv_def)
  have "effects st1 False = effects st True" if "rf_errors st = []"
  proof -
    have "\<not> rf_seen_effect st" using inv that curevD(3) [OF e(1)] e(2) by (auto simp: sess_inv_def run_inv_def)
    then show ?thesis using e(3) n by (simp add: effects_def done_count_def st1 butlast_conv_take nat_diff_distrib take_take)
  qed
  moreover have "int (length (rf_prefix st1)) = int (length (rf_prefix st)) - 1"
    using n e(3) by (cases "rf_prefix st") (simp_all add: st1(1))
  ultimately show ?thesis
    using E n rep e(3) by (auto simp: sess_inv_def run_inv_def exec_inv_def st1(2-))
qed

section \<open>Sequences of calls\<close>

datatype rf_call =
  R_reset "nat option list" | R_schedule | R_refuse_schedule | R_mark_available nat int | R_mark_unavailable nat int
| R_cancel_replay | R_metadata nat | R_spawn | R_store symdata | R_atomic_store symdata | R_atomic_rmw symdata rmw_kind "bytes option" bool
| R_compare_exchange symdata "bytes option" bool | R_load symaddrsize | R_full_memory_conflict | R_fence | R_join nat
| R_mutex_lock symaddrsize | R_mutex_lock_fail symaddrsize | R_mutex_trylock symaddrsize | R_mutex_unlock symaddrsize
| R_mutex_init symaddrsize | R_mutex_destroy symaddrsize | R_cond_op | R_cond_destroy | R_register_alternatives nat

text \<open>
  The state is the builder, the decision tree, and whether an event is scheduled. The methods that register an event,
  and \<^verbatim>\<open>refuse_schedule\<close>, are called only after a successful \<^verbatim>\<open>schedule\<close>, as \<^verbatim>\<open>TSOPSOTraceBuilder.h\<close> demands; an event that
  is replayed has been executed before, and is not refused.
\<close>

type_synonym ('x, 'a) session = "rfsc \<times> ('x, 'a) dtree \<times> bool"

definition in_event :: "(rfsc \<Rightarrow> ('r \<times> rfsc) option) \<Rightarrow> ('x, 'a) session \<Rightarrow> ('x, 'a) session option" where
  "in_event f = (\<lambda>(st, tr, running). if running then map_option (\<lambda>(b, st1). (st1, tr, True)) (f st) else None)"

definition on_state :: "(rfsc \<Rightarrow> rfsc option) \<Rightarrow> ('x, 'a) session \<Rightarrow> ('x, 'a) session option" where
  "on_state f = (\<lambda>(st, tr, running). map_option (\<lambda>st1. (st1, tr, running)) (f st))"

fun rf_do :: "rf_call \<Rightarrow> ('x, 'a) session \<Rightarrow> ('x, 'a) session option" where
  "rf_do (R_reset items) (st, tr, running) =
     map_option (\<lambda>(ok, st1, tr1). (st1, tr1, running \<and> \<not> ok)) (rf_reset items st tr)"
| "rf_do R_schedule (st, tr, running) =
     map_option (\<lambda>(res, st1). (st1, tr, if rf_cancelled st then running else res \<noteq> None)) (rf_schedule st)"
| "rf_do R_refuse_schedule (st, tr, running) =
     (if running \<and> \<not> rf_replay st then map_option (\<lambda>st1. (st1, tr, False)) (rf_refuse_schedule st) else None)"
| "rf_do (R_mark_available p aux) s = on_state (rf_mark_available p aux) s"
| "rf_do (R_mark_unavailable p aux) s = on_state (rf_mark_unavailable p aux) s"
| "rf_do R_cancel_replay (st, tr, running) = map_option (\<lambda>(st1, tr1). (st1, tr1, running)) (rf_cancel_replay st tr)"
| "rf_do (R_metadata md) s = on_state (rf_metadata md) s"
| "rf_do R_spawn s = in_event rf_spawn s"
| "rf_do (R_store sd) s = in_event (rf_store sd) s"
| "rf_do (R_atomic_store sd) s = in_event (rf_atomic_store sd) s"
| "rf_do (R_atomic_rmw sd k operand used) s = in_event (rf_atomic_rmw sd k operand used) s"
| "rf_do (R_compare_exchange sd expected success) s = in_event (rf_compare_exchange sd expected success) s"
| "rf_do (R_load ml) s = in_event (rf_load ml) s"
| "rf_do R_full_memory_conflict s = in_event rf_full_memory_conflict s"
| "rf_do R_fence s = in_event rf_fence s"
| "rf_do (R_join p) s = in_event (rf_join p) s"
| "rf_do (R_mutex_lock ml) s = in_event (rf_mutex_lock ml) s"
| "rf_do (R_mutex_lock_fail ml) s = in_event (rf_mutex_lock_fail ml) s"
| "rf_do (R_mutex_trylock ml) s = in_event (rf_mutex_trylock ml) s"
| "rf_do (R_mutex_unlock ml) s = in_event (rf_mutex_unlock ml) s"
| "rf_do (R_mutex_init ml) s = in_event (rf_mutex_init ml) s"
| "rf_do (R_mutex_destroy ml) s = in_event (rf_mutex_destroy ml) s"
| "rf_do R_cond_op s = in_event rf_cond_op s"
| "rf_do R_cond_destroy s = in_event rf_cond_destroy s"
| "rf_do (R_register_alternatives n) s = in_event (rf_register_alternatives n) s"

definition session_start :: "('x, 'a) session \<Rightarrow> bool" where
  "session_start = (\<lambda>(st, tr, running). \<not> running \<and> (\<exists>depth require_init s. st = RFSCTraceBuilder depth require_init s))"

definition session_inv :: "('x, 'a) session \<Rightarrow> bool" where
  "session_inv = (\<lambda>(st, tr, running). sess_inv st running)"

lemma in_event_inv:
  assumes "session_inv s" "in_event f s = Some s1" "\<And>st b st1. f st = Some (b, st1) \<Longrightarrow> keeps st st1"
  shows "session_inv s1"
proof -
  obtain st tr st1 b where s: "s = (st, tr, True)" "s1 = (st1, tr, True)" "f st = Some (b, st1)"
    using assms(2) by (cases s) (auto simp: in_event_def split: if_splits)
  then show ?thesis using assms(1) assms(3) [OF s(3)] by (auto simp: session_inv_def sess_inv_def keeps_def)
qed

lemma run_inv_same:
  assumes "same_effects st st1" "same_places st st1"
  shows "run_inv st r \<Longrightarrow> run_inv st1 r"
  using keeps_same [OF assms] same_effects_inv [OF assms(1)] by (cases r) (auto simp: keeps_def run_inv_def)

lemma on_state_inv:
  assumes "session_inv s" "on_state f s = Some s1" "\<And>st st1. f st = Some st1 \<Longrightarrow> same_effects st st1 \<and> same_places st st1"
  shows "session_inv s1"
proof -
  obtain st tr r st1 where s: "s = (st, tr, r)" "s1 = (st1, tr, r)" "f st = Some st1"
    using assms(2) by (cases s) (auto simp: on_state_def)
  note S = assms(3) [OF s(3)]
  have "rf_replay st1 = rf_replay st" "rf_prefix_idx st1 = rf_prefix_idx st" using S by (auto simp: same_places_def)
  then show ?thesis using assms(1) run_inv_same [of st st1 r] S by (simp add: s(1,2) session_inv_def sess_inv_def)
qed

lemma mark_same:
  "rf_mark_available p aux st = Some st1 \<Longrightarrow> same_effects st st1 \<and> same_places st st1"
  "rf_mark_unavailable p aux st = Some st1 \<Longrightarrow> same_effects st st1 \<and> same_places st st1"
  "rf_metadata md st = Some st1 \<Longrightarrow> same_effects st st1 \<and> same_places st st1"
proof -
  have T: "same_places st (rf_upd_th q (\<lambda>t. t\<lparr>rt_available := b\<rparr>) st)" for q b
  proof (cases "q < length (rf_threads st)")
    case True
    then show ?thesis
      by (auto simp: same_places_def rf_upd_th_def list_all2_refl map_update list_update_same_conv intro: exI [of _ 0])
  qed (auto simp: same_places_def rf_upd_th_def list_all2_refl list_update_beyond intro: exI [of _ 0])
  show "rf_mark_available p aux st = Some st1 \<Longrightarrow> same_effects st st1 \<and> same_places st st1"
    "rf_mark_unavailable p aux st = Some st1 \<Longrightarrow> same_effects st st1 \<and> same_places st st1"
    using T by (auto simp: rf_mark_available_def rf_mark_unavailable_def same_effects_upd_th)
  let ?st = "st\<lparr>rf_last_md := md\<rparr>"
  have "same_effects st ?st" by (simp add: same_effects_def stand_def)
  moreover have "same_places st ?st" by (rule same_places_fields) simp_all
  moreover have "same_effects ?st (rf_upd_cur (\<lambda>e. e\<lparr>re_md := md\<rparr>) ?st)" by (rule same_effects_upd_ev) simp
  moreover have "same_places ?st (rf_upd_cur (\<lambda>e. e\<lparr>re_md := md\<rparr>) ?st)" by (rule same_places_upd_ev) (simp add: same_place_of_def)
  ultimately show "rf_metadata md st = Some st1 \<Longrightarrow> same_effects st st1 \<and> same_places st st1"
    using same_places_trans [of st ?st] by (auto simp: rf_metadata_def same_effects_def split: bind_splits)
qed

lemma reset_inv:
  assumes "rf_reset items st tr = Some (ok, st1, tr1)" "sess_inv st r"
  shows "sess_inv st1 (r \<and> \<not> ok)"
proof (cases ok)
  case True
  then obtain n t where "rf_reset_to (st\<lparr>rf_tasks_created := t\<rparr>) tr n = Some (st1, tr1)"
    using assms(1) by (auto simp: rf_reset_def split: bind_splits option.splits)
  then have "rf_prefix_idx st1 = -1" "rf_replay st1" "rf_mem st1 = (\<lambda>_. -1)" "rf_mutexes st1 = (\<lambda>_. None)"
    by (auto simp: rf_reset_to_def assertp_def Let_def split: bind_splits if_splits)
  then show ?thesis
    using True exec_ok_start by (simp add: sess_inv_def run_inv_def exec_inv_def effects_def done_count_def)
next
  case False
  then obtain t where "st1 = st\<lparr>rf_work_item := None, rf_tasks_created := t\<rparr>"
    using assms(1) by (auto simp: rf_reset_def split: bind_splits option.splits)
  then show ?thesis
    using assms(2) False by (simp add: sess_inv_def run_inv_def exec_inv_def effects_def done_count_def)
qed

lemma cancel_inv:
  assumes "rf_cancel_replay st tr = Some (st1, tr1)" "sess_inv st r"
  shows "sess_inv st1 r"
proof -
  have "st1 = st\<lparr>rf_cancelled := True, rf_replay := False\<rparr>"
    using assms(1) by (auto simp: rf_cancel_replay_def assertp_def Let_def split: bind_splits if_splits)
  then show ?thesis using assms(2) by (simp add: sess_inv_def run_inv_def exec_inv_def effects_def done_count_def)
qed

lemma cond_destroy_keeps: "rf_cond_destroy st = Some (n, st1) \<Longrightarrow> keeps st st1"
  using unsupported_keeps(2) by (auto simp: rf_cond_destroy_def)

lemmas event_keeps = memory_keeps spawn_keeps join_keeps mutex_keeps trylock_keeps lock_fail_keeps unsupported_keeps cond_destroy_keeps

lemma rf_do_inv:
  assumes "session_inv s" "rf_do c s = Some s1"
  shows "session_inv s1"
proof -
  obtain st tr r where s: "s = (st, tr, r)" by (cases s)
  note E = in_event_inv [OF assms(1)] and S = on_state_inv [OF assms(1)]
  have inv: "sess_inv st r" using assms(1) by (simp add: s session_inv_def)
  show ?thesis
  proof (cases c)
    case (R_reset items)
    then show ?thesis using assms(2) reset_inv [OF _ inv] by (auto simp: s session_inv_def)
  next
    case R_schedule
    then show ?thesis using assms(2) schedule_inv [OF inv] by (auto simp: s session_inv_def)
  next
    case R_refuse_schedule
    then show ?thesis using assms(2) inv refuse_inv by (auto simp: s session_inv_def split: if_splits)
  next
    case R_cancel_replay
    then show ?thesis using assms(2) cancel_inv [OF _ inv] by (auto simp: s session_inv_def)
  next
    case (R_mark_available p aux)
    then show ?thesis using assms(2) S mark_same(1) by auto
  next
    case (R_mark_unavailable p aux)
    then show ?thesis using assms(2) S mark_same(2) by auto
  next
    case (R_metadata md)
    then show ?thesis using assms(2) S mark_same(3) by auto
  qed (use assms(2) in \<open>auto elim!: E intro: event_keeps simp: rf_store_def rf_fence_def rf_full_memory_conflict_def\<close>)
qed

interpretation rf_sys: call_system session_start rf_do session_inv
proof
  show "session_inv s" if "session_start s" for s :: "('a, 'b) session"
    using that exec_ok_start
    by (auto simp: session_start_def session_inv_def sess_inv_def run_inv_def exec_inv_def effects_def done_count_def RFSCTraceBuilder_def)
qed (rule rf_do_inv)

section \<open>Properties\<close>

text \<open>The events of a session that had their effect.\<close>

definition executed :: "rfsc \<Rightarrow> bool \<Rightarrow> nat \<Rightarrow> bool" where
  "executed st running i \<longleftrightarrow> i < length (rf_prefix st) \<and> i < done_count st running"

lemma effects_nth:
  assumes "exec_inv st r"
  shows "length (effects st r) = done_count st r" "i < done_count st r \<Longrightarrow> effects st r ! i = effect_of (rfe st i)"
    "i < done_count st r \<Longrightarrow> executed st r i"
proof -
  have "done_count st r \<le> length (rf_prefix st)" using assms by (auto simp: exec_inv_def done_count_def)
  then show "length (effects st r) = done_count st r" "i < done_count st r \<Longrightarrow> effects st r ! i = effect_of (rfe st i)"
    "i < done_count st r \<Longrightarrow> executed st r i"
    by (simp_all add: effects_def executed_def)
qed

lemma last_pos_source:
  assumes "w = last_pos P (take i xs)" "i \<le> length xs"
  shows "w = -1 \<and> (\<forall>k < i. \<not> P (xs ! k)) \<or> (\<exists>j < i. w = int j \<and> P (xs ! j) \<and> (\<forall>k < i. j < k \<longrightarrow> \<not> P (xs ! k)))"
  using last_pos_cases [of P "take i xs"] assms by auto

lemma executed_load:
  assumes ok: "exec_ok es mem mtx" and i: "i < length es" and l: "mem_load (fst (es ! i))"
  shows "\<exists>a w. ev_addr (fst (es ! i)) = Some a \<and> snd (es ! i) = Some w \<and>
    (\<forall>b \<in> set (as_elements a). \<forall>k < i. w < int k \<longrightarrow> \<not> stores_byte b (fst (es ! k))) \<and>
    (w = -1 \<or> (\<exists>j < i. w = int j \<and> mem_store (fst (es ! j)) \<and> ev_addr (fst (es ! j)) = Some a))"
proof -
  have "load_ok (take i es) (es ! i)" using ok i by (simp add: exec_ok_def all_pre_def)
  then obtain a w where w: "ev_addr (fst (es ! i)) = Some a" "snd (es ! i) = Some w"
    "\<And>b. b \<in> set (as_elements a) \<Longrightarrow> w = last_pos (\<lambda>f. stores_byte b (fst f)) (take i es)"
    "w \<noteq> -1 \<Longrightarrow> 0 \<le> w \<and> w < int (length (take i es)) \<and> mem_store (fst (take i es ! nat w)) \<and> ev_addr (fst (take i es ! nat w)) = Some a"
    using l unfolding load_ok_def by blast
  have "\<not> stores_byte b (fst (es ! k))" if "b \<in> set (as_elements a)" "k < i" "w < int k" for b k
    using last_pos_source [OF w(3) [OF that(1)]] i that by auto
  moreover have "w = -1 \<or> (\<exists>j < i. w = int j \<and> mem_store (fst (es ! j)) \<and> ev_addr (fst (es ! j)) = Some a)"
  proof (cases "w = -1")
    case False
    then show ?thesis using w(4) i by (intro disjI2 exI [of _ "nat w"]) auto
  qed simp
  ultimately show ?thesis using w(1,2) by blast
qed

text \<open>
  C4. Reads-from is sequentially consistent. After every sequence of calls of the builder's methods, across schedules,
  replays, refusals and resets, and as long as no error was reported: every load (also of an atomic or
  compare-exchange) that was executed has the source that memory has at that point. The source is an earlier executed store to exactly the same bytes
  with no store to any of them in between, or there is no earlier store to any of them. The source of every operation
  on a mutex is the operation before it on that mutex.
\<close>

theorem rf_sources:
  assumes "run_calls rf_do cs (RFSCTraceBuilder depth require_init s, tr0, False) = Some (st, tr, running)" "rf_errors st = []"
    and "executed st running i"
  shows "(mem_load (re_sym (rfe st i)) \<longrightarrow> (\<exists>a w. ev_addr (re_sym (rfe st i)) = Some a \<and> re_read_from (rfe st i) = Some w \<and>
      (\<forall>b \<in> set (as_elements a). \<forall>k < i. w < int k \<longrightarrow> \<not> stores_byte b (re_sym (rfe st k))) \<and>
      (w = -1 \<or> (\<exists>j < i. w = int j \<and> mem_store (re_sym (rfe st j)) \<and> ev_addr (re_sym (rfe st j)) = Some a)))) \<and>
    (mutex_op (re_sym (rfe st i)) \<longrightarrow> (\<exists>a w. ev_addr (re_sym (rfe st i)) = Some a \<and> re_read_from (rfe st i) = Some w \<and>
      (\<forall>k < i. w < int k \<longrightarrow> \<not> on_mutex (as_addr a) (re_sym (rfe st k))) \<and>
      (w = -1 \<or> (\<exists>j < i. w = int j \<and> on_mutex (as_addr a) (re_sym (rfe st j))))))"
proof -
  have "session_inv (st, tr, running)" by (rule rf_sys.reachable_inv [OF _ assms(1)]) (auto simp: session_start_def)
  then have E: "exec_inv st running" by (simp add: session_inv_def sess_inv_def run_inv_def)
  let ?es = "effects st running"
  have ok: "exec_ok ?es (rf_mem st) (rf_mutexes st)" using E assms(2) by (simp add: exec_inv_def)
  have i: "i < length ?es" using assms(3) effects_nth(1) [OF E] by (simp add: executed_def)
  have es: "?es ! k = effect_of (rfe st k)" if "k \<le> i" for k
    using effects_nth(2) [OF E, of k] assms(3) that by (simp add: executed_def)
  have L: "mem_load (re_sym (rfe st i)) \<longrightarrow> (\<exists>a w. ev_addr (re_sym (rfe st i)) = Some a \<and> re_read_from (rfe st i) = Some w \<and>
      (\<forall>b \<in> set (as_elements a). \<forall>k < i. w < int k \<longrightarrow> \<not> stores_byte b (re_sym (rfe st k))) \<and>
      (w = -1 \<or> (\<exists>j < i. w = int j \<and> mem_store (re_sym (rfe st j)) \<and> ev_addr (re_sym (rfe st j)) = Some a)))"
    using executed_load [OF ok i] es by (simp cong: conj_cong)
  have "\<exists>a w. ev_addr (re_sym (rfe st i)) = Some a \<and> re_read_from (rfe st i) = Some w \<and>
      (\<forall>k < i. w < int k \<longrightarrow> \<not> on_mutex (as_addr a) (re_sym (rfe st k))) \<and>
      (w = -1 \<or> (\<exists>j < i. w = int j \<and> on_mutex (as_addr a) (re_sym (rfe st j))))" if m: "mutex_op (re_sym (rfe st i))"
  proof -
    have "mutex_ok (take i ?es) (?es ! i)" using ok i by (simp add: exec_ok_def all_pre_def)
    then obtain a where a: "ev_addr (re_sym (rfe st i)) = Some a"
        "re_read_from (rfe st i) = Some (last_pos (\<lambda>f. on_mutex (as_addr a) (fst f)) (take i ?es))"
      using m es by (auto simp: mutex_ok_def)
    let ?w = "last_pos (\<lambda>f. on_mutex (as_addr a) (fst f)) (take i ?es)"
    have "(\<forall>k < i. ?w < int k \<longrightarrow> \<not> on_mutex (as_addr a) (re_sym (rfe st k))) \<and>
        (?w = -1 \<or> (\<exists>j < i. ?w = int j \<and> on_mutex (as_addr a) (re_sym (rfe st j))))"
      using last_pos_source [OF refl, of i ?es "\<lambda>f. on_mutex (as_addr a) (fst f)"] i es by auto
    then show ?thesis using a by blast
  qed
  then show ?thesis using L by blast
qed

text \<open>
  Two threads: the first one spawns the second, stores and locks; the second loads, does a failing trylock and unlocks.
\<close>

definition rf_example_ml :: symaddrsize where
  "rf_example_ml = \<lparr>as_addr = \<lparr>sa_block = \<lparr>sb_pid = 65535, sb_alloc = 1\<rparr>, sa_offset = 0\<rparr>, as_size = 1\<rparr>"

definition rf_example :: "rf_call list" where
  "rf_example = [R_reset [Some 0], R_schedule, R_spawn, R_schedule, R_atomic_store \<lparr>sd_ref = rf_example_ml, sd_block = Some [1]\<rparr>,
     R_schedule, R_mutex_lock rf_example_ml, R_schedule, R_refuse_schedule, R_schedule, R_load rf_example_ml,
     R_schedule, R_mutex_trylock rf_example_ml, R_schedule, R_mutex_unlock rf_example_ml]"

theorem rf_sources_witness:
  "\<exists>st tr. run_calls rf_do rf_example (RFSCTraceBuilder (-1) False False, initial_tree :: (nat, nat) dtree, False) = Some (st, tr, True) \<and>
     mem_load (re_sym (rfe st 3)) \<and> re_read_from (rfe st 3) = Some 1 \<and> mem_store (re_sym (rfe st 1))"
proof -
  let ?r = "run_calls rf_do rf_example (RFSCTraceBuilder (-1) False False, initial_tree :: (nat, nat) dtree, False)"
  have "map_option (\<lambda>(st, tr, r). (rf_errors st, r, length (rf_prefix st), done_count st r, ev_kind (re_sym (rfe st 3)), re_read_from (rfe st 3))) ?r =
      Some ([], True, 6, 6, SymEvs.LOAD, Some 1)"
    by code_simp
  then obtain st tr where st: "?r = Some (st, tr, True)" "rf_errors st = []" "executed st True 3" "mem_load (re_sym (rfe st 3))"
      "re_read_from (rfe st 3) = Some 1"
    by (auto simp: executed_def mem_load_def)
  note S = rf_sources [OF st(1,2,3), THEN conjunct1, rule_format, OF st(4)]
  then have "mem_store (re_sym (rfe st 1))" using st(5) by auto
  then show ?thesis using st by blast
qed

end
