(* ===== verification/RFSC_Restore.thy ===== *)
theory RFSC_Restore
  imports RFSC_Plan RFSC_Runs
begin

text \<open>
  The analysis changes sources and effects of events for the time of an attempt, and undoes every change: what
  \<^verbatim>\<open>compute_prefixes\<close> of \<^verbatim>\<open>src/src/RFSCTraceBuilder.cpp\<close> leaves of the recorded execution.
\<close>

section \<open>Undoing a recomputation\<close>

lemma delete_from_back_loop_spec:
  "delete_from_back_loop vec val k = Some (pos, vec1) \<Longrightarrow> pos < k \<and> vec ! pos = val \<and> vec1 = butlast (vec[pos := last vec])"
  by (induction k) (auto split: if_splits)

lemma delete_from_back_total: "val \<in> set vec \<Longrightarrow> \<exists>pos vec1. delete_from_back vec val = Some (pos, vec1)"
proof -
  have "\<exists>pos vec1. delete_from_back_loop vec val k = Some (pos, vec1)" if "i < k" "vec ! i = val" for i k
    using that by (induction k) (auto simp: less_Suc_eq)
  then show "val \<in> set vec \<Longrightarrow> ?thesis" by (auto simp: delete_from_back_def in_set_conv_nth)
qed

lemma undo_delete:
  assumes "delete_from_back vec (int idx) = Some (pos, vec1)"
  shows "undo_succeed \<lparr>ul_kind = k, ul_idx = idx, ul_pos = pos\<rparr> vec1 = Some vec"
proof -
  have d: "pos < length vec" "vec ! pos = int idx" "vec1 = butlast (vec[pos := last vec])"
    using delete_from_back_loop_spec assms unfolding delete_from_back_def by blast+
  have ne: "vec \<noteq> []" using d(1) by auto
  let ?w = "vec1 @ [int idx]"
  have l: "length vec1 = length vec - 1" "length ?w = length vec" using d(1) by (simp_all add: d(3))
  have w: "?w ! i = (if i = length vec - 1 then int idx else vec[pos := last vec] ! i)" if "i < length vec" for i
  proof (cases "i = length vec - 1")
    case True
    then show ?thesis using l(1) by (simp add: nth_append)
  next
    case False
    then have "i < length vec1" using that l(1) by simp
    then show ?thesis using False by (simp add: nth_append d(3) nth_butlast)
  qed
  let ?u = "?w[length ?w - 1 := ?w ! pos, pos := last ?w]"
  have v: "vec ! i = ?u ! i" if "i < length vec" for i
    using that d(1,2) l w ne by (auto simp: nth_list_update last_conv_nth)
  have "?u = vec"
  proof (rule nth_equalityI)
    show len: "length ?u = length vec" using l(2) by simp
    show "?u ! i = vec ! i" if "i < length ?u" for i
      by (rule v [symmetric]) (use that len in argo)
  qed
  moreover have "ul_pos \<lparr>ul_kind = k, ul_idx = idx, ul_pos = pos\<rparr> < length ?w" using d(1) l(2) by simp
  ultimately show ?thesis unfolding undo_succeed_def Let_def by (simp add: assertp_def)
qed

lemma undo_append: "undo_fail \<lparr>ul_kind = k, ul_idx = idx, ul_pos = length vec\<rparr> (vec @ [int idx]) = Some vec"
  by (simp add: undo_fail_def assertp_def)

text \<open>Events as the operations record them.\<close>

definition sym_recorded :: "symev \<Rightarrow> bool" where
  "sym_recorded s \<longleftrightarrow>
     (ev_kind s = CMPXHG \<longrightarrow> (\<exists>d b. s = ev_CmpXhg d b)) \<and> (ev_kind s = CMPXHGFAIL \<longrightarrow> (\<exists>d b. s = ev_CmpXhgFail d b)) \<and>
     (ev_kind s = M_TRYLOCK \<longrightarrow> (\<exists>a. s = ev_MTryLock a)) \<and> (ev_kind s = M_TRYLOCK_FAIL \<longrightarrow> (\<exists>a. s = ev_MTryLockFail a))"

lemma cmpxhg_members [simp]:
  "ev_kind (ev_CmpXhg d b) = CMPXHG" "ev_kind (ev_CmpXhgFail d b) = CMPXHGFAIL"
  "ev_data (ev_CmpXhg d b) = (if sd_block d = None then None else Some d)"
  "ev_data (ev_CmpXhgFail d b) = (if sd_block d = None then None else Some d)"
  "ev_expected_data (ev_CmpXhg d b) = (if sd_block d = None then None else Some \<lparr>sd_ref = sd_ref d, sd_block = b\<rparr>)"
  "ev_expected_data (ev_CmpXhgFail d b) = (if sd_block d = None then None else Some \<lparr>sd_ref = sd_ref d, sd_block = b\<rparr>)"
  "ev_addr (ev_CmpXhg d b) = Some (sd_ref d)" "ev_addr (ev_CmpXhgFail d b) = Some (sd_ref d)"
  "ev_kind (ev_MTryLock a) = M_TRYLOCK" "ev_kind (ev_MTryLockFail a) = M_TRYLOCK_FAIL"
  "ev_addr (ev_MTryLock a) = Some a" "ev_addr (ev_MTryLockFail a) = Some a"
  by (cases d; auto simp: ev_constructor_defs mk_ev_defs ev_query_defs)+

lemma set_sym_frame [simp]:
  "rf_prefix (set_sym i s st) = (rf_prefix st)[i := (rfe st i)\<lparr>re_sym := s\<rparr>]"
  by (simp add: set_sym_def)

lemma rf_upd_ev_same: "f (rfe st i) = rfe st i \<Longrightarrow> rf_upd_ev i f st = st"
  by (cases st) (simp add: rf_upd_ev_def)

lemma set_sym_same: "re_sym (rfe st i) = s \<Longrightarrow> set_sym i s st = st"
  unfolding set_sym_def by (rule rf_upd_ev_same) (cases "rfe st i"; simp)

lemma set_sym_twice: "i < length (rf_prefix st) \<Longrightarrow> set_sym i s (set_sym i t st) = set_sym i s st"
  unfolding set_sym_def by (simp add: rf_upd_ev_twice)

text \<open>The outcome of a recomputation: the event is changed in its kind only, and the log undoes that.\<close>

definition undoes :: "undo_log \<Rightarrow> nat \<Rightarrow> symev \<Rightarrow> symev \<Rightarrow> int list \<Rightarrow> int list \<Rightarrow> bool" where
  "undoes l idx s s1 writes writes1 \<longleftrightarrow> ul_idx l = idx \<and>
     (\<forall>st. rsym st idx = s1 \<longrightarrow> undo_cmpxhg_recomputation l writes1 st = Some (writes, set_sym idx s st))"

lemma recompute_trylock_undoes:
  assumes r: "recompute_trylock idx writes st = Some (l, writes1, st1)" and s: "sym_recorded (rsym st idx)"
    and k: "ev_kind (rsym st idx) = M_TRYLOCK \<or> ev_kind (rsym st idx) = M_TRYLOCK_FAIL"
  shows "\<exists>s1. st1 = set_sym idx s1 st \<and> undoes l idx (rsym st idx) s1 writes writes1"
proof -
  obtain a where a: "rsym st idx = ev_MTryLock a \<or> rsym st idx = ev_MTryLockFail a" using s k by (auto simp: sym_recorded_def)
  obtain w where w: "re_read_from (rfe st idx) = Some w" using r by (auto simp: recompute_trylock_def Let_def split: bind_splits)
  let ?after = "w = -1 \<or> \<not> rf_does_lock st (nat w)"
  consider (gain) "?after" "rsym st idx = ev_MTryLockFail a" | (lose) "\<not> ?after" "rsym st idx = ev_MTryLock a"
    | (same) "ev_kind (rsym st idx) = M_TRYLOCK \<longleftrightarrow> ?after" using a by (cases ?after) auto
  then show ?thesis
  proof cases
    case gain
    then have "l = \<lparr>ul_kind = M_FAIL, ul_idx = idx, ul_pos = length writes\<rparr>" "writes1 = writes @ [int idx]" "st1 = set_sym idx (ev_MTryLock a) st"
      using r w by (auto simp: recompute_trylock_def Let_def)
    then show ?thesis using gain(2) by (auto simp: undoes_def undo_cmpxhg_recomputation_def undo_append)
  next
    case lose
    then obtain pos where "delete_from_back writes (int idx) = Some (pos, writes1)" "l = \<lparr>ul_kind = M_SUCCEED, ul_idx = idx, ul_pos = pos\<rparr>"
      "st1 = set_sym idx (ev_MTryLockFail a) st"
      using r w by (auto simp: recompute_trylock_def Let_def split: bind_splits)
    then show ?thesis using lose(2) undo_delete by (auto simp: undoes_def undo_cmpxhg_recomputation_def)
  next
    case same
    then have "l = \<lparr>ul_kind = UNDO_NONE, ul_idx = idx, ul_pos = 0\<rparr>" "writes1 = writes" "st1 = st"
      using r w by (auto simp: recompute_trylock_def Let_def split: if_splits bind_splits)
    then show ?thesis
      by (intro exI [of _ "rsym st idx"]) (simp add: undoes_def undo_cmpxhg_recomputation_def set_sym_same)
  qed
qed

lemma recompute_cmpxhg_undoes:
  assumes r: "recompute_cmpxhg idx writes st = Some (l, writes1, st1)" and s: "sym_recorded (rsym st idx)"
    and k: "ev_kind (rsym st idx) = CMPXHG \<or> ev_kind (rsym st idx) = CMPXHGFAIL"
  shows "\<exists>s1. st1 = set_sym idx s1 st \<and> undoes l idx (rsym st idx) s1 writes writes1"
proof -
  obtain d b where a: "rsym st idx = ev_CmpXhg d b \<or> rsym st idx = ev_CmpXhgFail d b" using s k by (auto simp: sym_recorded_def)
  obtain w after where w: "re_read_from (rfe st idx) = Some w" "cmpxhg_matches st (rsym st idx) w = Some after"
    using r by (auto simp: recompute_cmpxhg_def Let_def split: bind_splits)
  have "ev_data (rsym st idx) \<noteq> None" using r by (auto simp: recompute_cmpxhg_def Let_def split: bind_splits)
  then have nn [simp]: "sd_block d \<noteq> None" using a by (auto split: if_splits)
  have m: "ev_data (rsym st idx) = Some d" "ev_expected_data (rsym st idx) = Some \<lparr>sd_ref = sd_ref d, sd_block = b\<rparr>"
    using a by auto
  consider (gain) "after" "rsym st idx = ev_CmpXhgFail d b" | (lose) "\<not> after" "rsym st idx = ev_CmpXhg d b"
    | (same) "rsym st idx = (if after then ev_CmpXhg d b else ev_CmpXhgFail d b)" using a by (cases after) auto
  then show ?thesis
  proof cases
    case gain
    then have "l = \<lparr>ul_kind = FAIL, ul_idx = idx, ul_pos = length writes\<rparr>" "writes1 = writes @ [int idx]" "st1 = set_sym idx (ev_CmpXhg d b) st"
      using r w m by (auto simp: recompute_cmpxhg_def Let_def)
    then show ?thesis using gain(2) by (auto simp: undoes_def undo_cmpxhg_recomputation_def undo_append)
  next
    case lose
    then obtain pos where "delete_from_back writes (int idx) = Some (pos, writes1)" "l = \<lparr>ul_kind = SUCCEED, ul_idx = idx, ul_pos = pos\<rparr>"
      "st1 = set_sym idx (ev_CmpXhgFail d b) st"
      using r w m by (auto simp: recompute_cmpxhg_def Let_def split: bind_splits)
    then show ?thesis using lose(2) undo_delete by (auto simp: undoes_def undo_cmpxhg_recomputation_def)
  next
    case same
    then have "ev_kind (rsym st idx) = CMPXHG \<longleftrightarrow> after" by simp
    then have "l = \<lparr>ul_kind = UNDO_NONE, ul_idx = idx, ul_pos = 0\<rparr>" "writes1 = writes" "st1 = set_sym idx (rsym st idx) st"
      using r w m same by (auto simp: recompute_cmpxhg_def Let_def split: if_splits bind_splits)
    then show ?thesis
      by (intro exI [of _ "rsym st idx"]) (simp add: undoes_def undo_cmpxhg_recomputation_def set_sym_same)
  qed
qed

lemma recompute_undoes:
  assumes "recompute_cmpxhg_success idx writes st = Some (l, writes1, st1)" "sym_recorded (rsym st idx)"
  shows "\<exists>s1. st1 = set_sym idx s1 st \<and> undoes l idx (rsym st idx) s1 writes writes1"
proof -
  consider (trylock) "ev_kind (rsym st idx) = M_TRYLOCK \<or> ev_kind (rsym st idx) = M_TRYLOCK_FAIL"
    | (cmpxhg) "ev_kind (rsym st idx) = CMPXHG \<or> ev_kind (rsym st idx) = CMPXHGFAIL"
    | (other) "l = \<lparr>ul_kind = UNDO_NONE, ul_idx = idx, ul_pos = 0\<rparr>" "writes1 = writes" "st1 = st"
    using assms(1) by (auto simp: recompute_cmpxhg_success_def Let_def split: if_splits)
  then show ?thesis
  proof cases
    case trylock
    then show ?thesis using assms recompute_trylock_undoes by (auto simp: recompute_cmpxhg_success_def Let_def)
  next
    case cmpxhg
    then show ?thesis using assms recompute_cmpxhg_undoes by (auto simp: recompute_cmpxhg_success_def Let_def)
  next
    case other
    then show ?thesis
      by (intro exI [of _ "rsym st idx"]) (simp add: undoes_def undo_cmpxhg_recomputation_def set_sym_same)
  qed
qed

section \<open>Attempts leave the execution as it was\<close>

text \<open>The same execution, with the same writes; only the counter of new tasks may have changed.\<close>

definition same_execution :: "rf_world \<Rightarrow> rf_world \<Rightarrow> bool" where
  "same_execution w w1 \<longleftrightarrow> rw_writes w1 = rw_writes w \<and> (\<exists>t. rw_st w1 = (rw_st w)\<lparr>rf_tasks_created := t\<rparr>)"

lemma same_execution_refl [simp]: "same_execution w w"
  by (auto simp: same_execution_def intro: exI [of _ "rf_tasks_created (rw_st w)"])

lemma same_execution_trans: "same_execution u v \<Longrightarrow> same_execution v w \<Longrightarrow> same_execution u w"
  by (auto simp: same_execution_def)

lemma tasks_upd_ev: "rf_upd_ev i f (st\<lparr>rf_tasks_created := t\<rparr>) = (rf_upd_ev i f st)\<lparr>rf_tasks_created := t\<rparr>"
  by (simp add: rf_upd_ev_def)

lemma same_execution_upd_ev:
  "same_execution u v \<Longrightarrow> same_execution (rw_upd_ev i f u) (rw_upd_ev i f v)"
  by (auto simp: same_execution_def rw_upd_ev_def tasks_upd_ev)

lemma same_execution_ev: "same_execution u v \<Longrightarrow> rf_prefix (rw_st v) = rf_prefix (rw_st u)"
  by (auto simp: same_execution_def)

lemma same_execution_fields [simp]:
  "same_execution u (v\<lparr>rw_unf := x\<rparr>) = same_execution u v" "same_execution u (v\<lparr>rw_tree := t\<rparr>) = same_execution u v"
  "same_execution u (v\<lparr>rw_sched := s\<rparr>) = same_execution u v" "same_execution (u\<lparr>rw_unf := x\<rparr>) v = same_execution u v"
  "same_execution (u\<lparr>rw_tree := t\<rparr>) v = same_execution u v"
  by (auto simp: same_execution_def)

lemma find_node_same: "rf_find_node env p parent src w = Some (n, w1) \<Longrightarrow> same_execution w w1"
  by (auto simp: rf_find_node_def split: bind_splits)

lemma unfold_same:
  "unfold_alternative env i src w = Some (n, w1) \<Longrightarrow> same_execution w w1"
  "unfold_find_unfolding_node env p index rf w = Some (n, w1) \<Longrightarrow> same_execution w w1"
  by (auto simp: unfold_alternative_def unfold_find_unfolding_node_def split: bind_splits dest: find_node_same)

lemma try_alloc_same: "rw_try_alloc d unf w = Some (b, w1) \<Longrightarrow> same_execution w w1"
  by (auto simp: rw_try_alloc_def split: bind_splits)

lemma cached_graph_same: "get_cached_graph env d w = Some (g, w1) \<Longrightarrow> same_execution w w1"
  by (auto simp: get_cached_graph_def Let_def split: bind_splits)

lemma try_sat_same: "try_sat env changed w = Some (l, w1) \<Longrightarrow> same_execution w w1"
  unfolding try_sat_def Let_def
  by (auto split: bind_splits if_splits heuristic_result.splits option.splits dest!: cached_graph_same)

lemma try_change_same:
  assumes "try_change env changed d unf w = Some w2" shows "same_execution w w2"
proof -
  obtain l w1 where 1: "try_sat env changed w = Some (l, w1)" "add_solution d unf l w1 = Some w2"
    using assms by (auto simp: try_change_def split: bind_splits)
  have "same_execution w1 w2"
    using 1(2) by (auto simp: add_solution_def same_execution_def split: if_splits bind_splits
        intro: exI [of _ "rf_tasks_created (rw_st w1)"])
  then show ?thesis using try_sat_same [OF 1(1)] same_execution_trans by blast
qed

text \<open>Changes of events of the prefix, as changes of the list.\<close>

definition dswap :: "nat \<Rightarrow> nat \<Rightarrow> rf_event list \<Rightarrow> rf_event list" where
  "dswap i j es = (let a = es ! i; b = es ! j;
     fs = es[i := a\<lparr>re_decision_ptr := re_decision_ptr b, re_decision_depth := re_decision_depth b\<rparr>]
     in fs[j := (fs ! j)\<lparr>re_decision_ptr := re_decision_ptr a, re_decision_depth := re_decision_depth a\<rparr>])"

definition on_prefix :: "(rf_event list \<Rightarrow> rf_event list) \<Rightarrow> rf_world \<Rightarrow> rf_world" where
  "on_prefix f w = w\<lparr>rw_st := (rw_st w)\<lparr>rf_prefix := f (rf_prefix (rw_st w))\<rparr>\<rparr>"

lemma rw_upd_ev_on_prefix: "rw_upd_ev i f = on_prefix (\<lambda>es. es[i := f (es ! i)])"
  by (simp add: rw_upd_ev_def rf_upd_ev_def on_prefix_def fun_eq_iff)

lemma set_read_from_on_prefix: "set_read_from i x = on_prefix (\<lambda>es. es[i := (es ! i)\<lparr>re_read_from := Some x\<rparr>])"
  by (simp add: set_read_from_def rw_upd_ev_on_prefix)

lemma decision_swap_on_prefix: "decision_swap i j = on_prefix (dswap i j)"
  by (simp add: decision_swap_def rw_upd_ev_on_prefix on_prefix_def dswap_def Let_def fun_eq_iff)

lemma on_prefix_comp: "on_prefix f (on_prefix g w) = on_prefix (\<lambda>es. f (g es)) w"
  by (simp add: on_prefix_def)

lemma on_prefix_id: "f (rf_prefix (rw_st w)) = rf_prefix (rw_st w) \<Longrightarrow> on_prefix f w = w"
  by (cases w) (simp add: on_prefix_def)

lemma on_prefix_same: "same_execution u v \<Longrightarrow> same_execution (on_prefix f u) (on_prefix f v)"
proof -
  assume "same_execution u v"
  then obtain t where "rw_writes v = rw_writes u" "rw_st v = (rw_st u)\<lparr>rf_tasks_created := t\<rparr>" by (auto simp: same_execution_def)
  then show ?thesis unfolding same_execution_def on_prefix_def by (intro conjI exI [of _ t]) simp_all
qed

lemma on_prefix_attempt:
  assumes "same_execution (on_prefix f w) v" "g (f (rf_prefix (rw_st w))) = rf_prefix (rw_st w)"
  shows "same_execution w (on_prefix g v)"
  using on_prefix_same [OF assms(1), of g] on_prefix_id [of "\<lambda>es. g (f es)" w] assms(2) by (simp add: on_prefix_comp)

lemma dswap_nth:
  assumes "i < length es" "j < length es" "k < length es"
  shows "dswap i j es ! k =
    (if k = j then (es ! k)\<lparr>re_decision_ptr := re_decision_ptr (es ! i), re_decision_depth := re_decision_depth (es ! i)\<rparr>
     else if k = i then (es ! k)\<lparr>re_decision_ptr := re_decision_ptr (es ! j), re_decision_depth := re_decision_depth (es ! j)\<rparr> else es ! k)"
  using assms by (auto simp: dswap_def Let_def nth_list_update)

lemma length_dswap [simp]: "length (dswap i j es) = length es"
  by (simp add: dswap_def Let_def)

lemma event_eqI:
  "re_alt e = re_alt f \<Longrightarrow> place_of e = place_of f \<Longrightarrow> re_pinned e = re_pinned f \<Longrightarrow> re_md e = re_md f \<Longrightarrow> re_clock e = re_clock f \<Longrightarrow>
   re_above_clock e = re_above_clock f \<Longrightarrow> re_happens_after e = re_happens_after f \<Longrightarrow> re_may_conflict e = re_may_conflict f \<Longrightarrow>
   re_event e = re_event f \<Longrightarrow> effect_of e = effect_of f \<Longrightarrow> re_decision_ptr e = re_decision_ptr f \<Longrightarrow>
   re_decision_depth e = re_decision_depth f \<Longrightarrow> e = (f :: rf_event)"
  by simp

lemma swap_back:
  assumes "i < length es" "j < length es" "re_read_from (es ! j) = Some y"
  shows "dswap i j ((dswap i j (es[j := (es ! j)\<lparr>re_read_from := x\<rparr>]))[j := (dswap i j (es[j := (es ! j)\<lparr>re_read_from := x\<rparr>]) ! j)\<lparr>re_read_from := Some y\<rparr>]) = es"
    (is "?l = es")
proof (rule nth_equalityI)
  show "?l ! k = es ! k" if "k < length ?l" for k
    using that assms by (intro event_eqI) (simp_all add: dswap_nth nth_list_update)
qed simp

text \<open>The mutex operations that are swapped.\<close>

lemma swap_attempt_same:
  assumes "i < length (rf_prefix (rw_st w))" "j < length (rf_prefix (rw_st w))" "re_read_from (rwe w j) = Some y"
    and "same_execution (decision_swap i j (set_read_from j x w)) v"
  shows "same_execution w (decision_swap i j (set_read_from j y v))"
  using on_prefix_attempt [OF assms(4) [unfolded decision_swap_on_prefix set_read_from_on_prefix on_prefix_comp],
      of "\<lambda>es. dswap i j (es[j := (es ! j)\<lparr>re_read_from := Some y\<rparr>])"] swap_back [OF assms(1-3)]
  by (simp add: decision_swap_on_prefix set_read_from_on_prefix on_prefix_comp)

lemma try_swap_same:
  assumes "try_swap env i j w = Some w1" "i < length (rf_prefix (rw_st w))" "j < length (rf_prefix (rw_st w))"
    and "re_read_from (rwe w j) = Some (int i)"
  shows "same_execution w w1"
proof -
  obtain x src alt w' d fresh w2 where 1: "re_read_from (rwe w i) = Some x" "unfold_alternative env j src w = Some (alt, w')"
    "rw_try_alloc d (Some alt) w' = Some (fresh, w2)"
    and 2: "(if \<not> fresh \<or> \<not> can_swap_by_vclocks (rw_st w2) i j then Some w2
     else do { w3 \<leftarrow> try_change env [j] d (Some alt) (decision_swap i j (set_read_from j x w2));
               Some (decision_swap i j (set_read_from j (int i) w3)) }) = Some w1"
    using assms(1) unfolding try_swap_def by (auto split: bind_splits)
  have S: "same_execution w w2" using unfold_same(1) [OF 1(2)] try_alloc_same [OF 1(3)] same_execution_trans by blast
  note E = same_execution_ev [OF S]
  have "same_execution w2 w1"
    using 2 swap_attempt_same [of i w2 j "int i" x] assms(2-) E by (auto split: if_splits bind_splits dest!: try_change_same)
  then show ?thesis using S same_execution_trans by blast
qed

lemma try_swap_lock_same:
  assumes "try_swap_lock env i unlock j w = Some w1" "i < length (rf_prefix (rw_st w))" "j < length (rf_prefix (rw_st w))"
  shows "same_execution w w1"
proof -
  obtain src alt w' d fresh w2 where 1: "re_read_from (rwe w j) = Some (int unlock)" "unfold_alternative env j src w = Some (alt, w')"
    "rw_try_alloc d (Some alt) w' = Some (fresh, w2)"
    and 2: "(if \<not> fresh \<or> \<not> can_swap_lock_by_vclocks (rw_st w2) i unlock j then Some w2
     else do { x \<leftarrow> re_read_from (rwe w2 i);
               w3 \<leftarrow> try_change env [j] d (Some alt) (decision_swap i j (set_read_from j x w2));
               Some (decision_swap i j (set_read_from j (int unlock) w3)) }) = Some w1"
    using assms(1) unfolding try_swap_lock_def by (auto simp: assertp_def split: bind_splits if_splits)
  have S: "same_execution w w2" using unfold_same(1) [OF 1(2)] try_alloc_same [OF 1(3)] same_execution_trans by blast
  note E = same_execution_ev [OF S]
  have "same_execution w2 w1"
    using 2 swap_attempt_same [of i w2 j "int unlock"] assms(2-) E 1(1) by (auto split: if_splits bind_splits dest!: try_change_same)
  then show ?thesis using S same_execution_trans by blast
qed

text \<open>An event of a blocked thread, added and removed.\<close>

definition only_event :: "nat \<Rightarrow> rfsc \<Rightarrow> rfsc \<Rightarrow> bool" where
  "only_event i st st1 \<longleftrightarrow> (\<exists>e. st1 = st\<lparr>rf_prefix := (rf_prefix st)[i := e]\<rparr>)"

lemma only_event_refl: "only_event i st st"
  unfolding only_event_def by (intro exI [of _ "rfe st i"]) (cases st; simp)

lemma only_event_trans: "only_event i st st1 \<Longrightarrow> only_event i st1 st2 \<Longrightarrow> only_event i st st2"
  by (auto simp: only_event_def)

lemma only_event_upd: "only_event i st st1 \<Longrightarrow> only_event i st (rf_upd_ev i f st1)"
  by (auto simp: only_event_def rf_upd_ev_def)

lemma only_event_fold:
  "only_event i st st1 \<Longrightarrow> only_event i st (fold (\<lambda>j s. rf_upd_ev i (f j s) s) js st1)"
  by (induction js arbitrary: st1) (simp_all add: only_event_upd)

lemma compute_above_clock_only:
  assumes "compute_above_clock i st = Some (p, st1)" shows "only_event i st st1"
proof -
  obtain st2 where st2: "start_clock i st = Some (p, st2)" and st1: "st1 = (let st2 = rf_upd_ev i (\<lambda>e. e\<lparr>re_clock := vc_set (re_clock e) (re_pid e) (re_index e)\<rparr>) st2;
     st3 = fold (\<lambda>j s. rf_upd_ev i (\<lambda>e. e\<lparr>re_clock := vc_plus_assign (re_clock e) (re_clock (rfe s j))\<rparr>) s) (re_happens_after (rfe st2 i)) st2 in
     rf_upd_ev i (\<lambda>e. e\<lparr>re_above_clock := re_clock e\<rparr>) st3)"
    using assms by (auto simp: compute_above_clock_def assertp_def Let_def split: bind_splits if_splits)
  have h: "only_event i u v" if "rf_add_happens_after i j u = Some v" for j u v
    using that by (auto simp: rf_add_happens_after_def assertp_def Let_def only_event_refl only_event_upd split: if_splits)
  have "only_event i st st2"
    using st2
    by (auto simp: start_clock_def Let_def assertp_def only_event_upd only_event_refl split: if_splits bind_splits
        dest!: h intro: only_event_trans [OF only_event_upd [OF only_event_refl]])
  then show ?thesis unfolding st1 Let_def by (intro only_event_upd only_event_fold)
qed

definition with_blocked :: "nat \<Rightarrow> rf_event list \<Rightarrow> rfsc \<Rightarrow> rfsc" where
  "with_blocked jp es st = (rf_upd_th jp (\<lambda>t. t\<lparr>rt_event_indices := rt_event_indices t @ [length (rf_prefix st)]\<rparr>) st)
     \<lparr>rf_prefix_idx := rf_prefix_idx st + 1, rf_prefix := es\<rparr>"

lemma push_blocked_eq:
  assumes "push_blocked jp jidx s alt w = Some w1"
  shows "\<exists>e. w1 = w\<lparr>rw_st := with_blocked jp (rf_prefix (rw_st w) @ [e]) (rw_st w)\<rparr>"
proof -
  let ?st = "rw_st w" and ?n = "length (rf_prefix (rw_st w))"
  let ?e = "(RF_Event (jp, jidx) s)\<lparr>re_event := Some alt\<rparr>"
  let ?st2 = "push_event_index jp (?st\<lparr>rf_prefix_idx := rf_prefix_idx ?st + 1, rf_prefix := rf_prefix ?st @ [?e]\<rparr>)"
  obtain p st3 where 1: "int ?n = rf_prefix_idx ?st + 1" "compute_above_clock ?n ?st2 = Some (p, st3)" "w1 = w\<lparr>rw_st := st3\<rparr>"
    using assms by (auto simp: push_blocked_def assertp_def Let_def split: bind_splits if_splits)
  then obtain e where "st3 = ?st2\<lparr>rf_prefix := (rf_prefix ?st2)[?n := e]\<rparr>"
    using compute_above_clock_only unfolding only_event_def by blast
  moreover have "nat (rf_prefix_idx ?st + 1) = ?n" using 1(1) by linarith
  ultimately have "st3 = with_blocked jp (rf_prefix ?st @ [e]) ?st"
    by (simp add: with_blocked_def push_event_index_def rf_upd_th_def)
  then show ?thesis using 1(3) by blast
qed

lemma pop_blocked_same:
  assumes "rw_st w1 = (with_blocked jp (rf_prefix (rw_st w) @ [e]) (rw_st w))\<lparr>rf_tasks_created := t\<rparr>" "rw_writes w1 = rw_writes w"
  shows "same_execution w (pop_blocked jp w1)"
proof -
  let ?st = "rw_st w"
  have "(rf_threads ?st)[jp := (rth ?st jp)\<lparr>rt_event_indices := rt_event_indices (rth ?st jp)\<rparr>] = rf_threads ?st"
    by simp
  then have th: "rf_threads (rf_upd_th jp (\<lambda>t. t\<lparr>rt_event_indices := butlast (rt_event_indices t)\<rparr>) (rw_st w1)) = rf_threads ?st"
    by (cases "jp < length (rf_threads ?st)") (simp_all add: assms(1) with_blocked_def rf_upd_th_def list_update_beyond)
  have "rw_st (pop_blocked jp w1) = ?st\<lparr>rf_tasks_created := t\<rparr>"
    using th by (simp add: pop_blocked_def Let_def assms(1) with_blocked_def rf_upd_th_def)
  moreover have "rw_writes (pop_blocked jp w1) = rw_writes w" by (simp add: pop_blocked_def Let_def assms(2))
  ultimately show ?thesis unfolding same_execution_def by blast
qed

lemma try_swap_blocked_same:
  assumes "try_swap_blocked env i jp s w = Some w1" "i < length (rf_prefix (rw_st w))"
  shows "same_execution w w1"
proof -
  obtain x jidx alt w' d fresh w2 where 1: "unfold_find_unfolding_node env jp jidx (Some x) w = Some (alt, w')"
    "rw_try_alloc d (Some alt) w' = Some (fresh, w2)"
    and 2: "(if \<not> fresh then Some w2
     else do {
       let j = length (rf_prefix (rw_st w2));
       w3 \<leftarrow> push_blocked jp jidx s alt w2;
       w4 \<leftarrow> (if can_swap_by_vclocks (rw_st w3) i j then do {
                let w5 = decision_swap i j (set_read_from j x w3);
                assertp (\<not> re_pinned (rwe w5 i));
                w6 \<leftarrow> try_change env [j] d (Some alt) (rw_upd_ev i (\<lambda>e. e\<lparr>re_pinned := True\<rparr>) w5);
                Some (rw_upd_ev i (\<lambda>e. e\<lparr>re_pinned := False\<rparr>) (decision_swap i j w6))
              } else Some w3);
       Some (pop_blocked jp w4)
     }) = Some w1"
    using assms(1) unfolding try_swap_blocked_def by (auto simp: Let_def split: bind_splits)
  have S: "same_execution w w2" using unfold_same(2) [OF 1(1)] try_alloc_same [OF 1(2)] same_execution_trans by blast
  have i: "i < length (rf_prefix (rw_st w2))" using assms(2) same_execution_ev [OF S] by simp
  have "same_execution w2 w1"
  proof (cases fresh)
    case True
    let ?j = "length (rf_prefix (rw_st w2))" and ?es = "rf_prefix (rw_st w2)"
    obtain w3 w4 where w3: "push_blocked jp jidx s alt w2 = Some w3" and w1: "w1 = pop_blocked jp w4"
      and w4: "(if can_swap_by_vclocks (rw_st w3) i ?j then do {
                let w5 = decision_swap i ?j (set_read_from ?j x w3);
                assertp (\<not> re_pinned (rwe w5 i));
                w6 \<leftarrow> try_change env [?j] d (Some alt) (rw_upd_ev i (\<lambda>e. e\<lparr>re_pinned := True\<rparr>) w5);
                Some (rw_upd_ev i (\<lambda>e. e\<lparr>re_pinned := False\<rparr>) (decision_swap i ?j w6)) } else Some w3) = Some w4"
      using 2 True by (auto simp: Let_def split: bind_splits)
    obtain e where e: "w3 = w2\<lparr>rw_st := with_blocked jp (?es @ [e]) (rw_st w2)\<rparr>" using push_blocked_eq [OF w3] by blast
    have p3: "rf_prefix (rw_st w3) = ?es @ [e]" by (simp add: e with_blocked_def)
    have "\<exists>e' t. rw_st w4 = (with_blocked jp (?es @ [e']) (rw_st w2))\<lparr>rf_tasks_created := t\<rparr> \<and> rw_writes w4 = rw_writes w2"
    proof (cases "can_swap_by_vclocks (rw_st w3) i ?j")
      case False
      then have "w4 = w3" using w4 by simp
      then show ?thesis
        by (intro exI [of _ e] exI [of _ "rf_tasks_created (rw_st w2)"]) (simp add: e with_blocked_def rf_upd_th_def)
    next
      case True
      let ?pin = "\<lambda>b es. es[i := (es ! i)\<lparr>re_pinned := b\<rparr>]"
      let ?f = "\<lambda>es. dswap i ?j (es[?j := (es ! ?j)\<lparr>re_read_from := Some x\<rparr>])"
      obtain w6 where np: "\<not> re_pinned (?f (?es @ [e]) ! i)" and w6: "same_execution (on_prefix (\<lambda>es. ?pin True (?f es)) w3) w6"
        and w4': "w4 = on_prefix (\<lambda>es. ?pin False (dswap i ?j es)) w6"
        using w4 True by (auto simp: Let_def assertp_def decision_swap_on_prefix set_read_from_on_prefix rw_upd_ev_on_prefix on_prefix_comp p3
            on_prefix_def split: if_splits bind_splits dest!: try_change_same)
      define r where r: "r = ?pin False (dswap i ?j (?pin True (?f (?es @ [e]))))"
      obtain t where t: "rw_writes w6 = rw_writes w2" "rw_st w6 = (rw_st (on_prefix (\<lambda>es. ?pin True (?f es)) w3))\<lparr>rf_tasks_created := t\<rparr>"
        using w6 by (auto simp: same_execution_def on_prefix_def e)
      have np': "\<not> re_pinned (?es ! i)" using np i by (simp add: dswap_nth nth_append nth_list_update)
      have "r ! k = ?es ! k" if "k < ?j" for k
        using that i np' unfolding r by (intro event_eqI) (auto simp: dswap_nth nth_append nth_list_update)
      moreover have "length r = Suc ?j" by (simp add: r)
      ultimately have "r = ?es @ [r ! ?j]"
        using take_Suc_conv_app_nth [of ?j r] by (simp add: list_eq_iff_nth_eq nth_append less_Suc_eq)
      moreover have "rw_st w4 = (with_blocked jp r (rw_st w2))\<lparr>rf_tasks_created := t\<rparr>"
        unfolding w4' on_prefix_def r by (simp add: t(2) on_prefix_def e with_blocked_def rf_upd_th_def)
      moreover have "rw_writes w4 = rw_writes w2" using t(1) by (simp add: w4' on_prefix_def)
      ultimately show ?thesis by metis
    qed
    then show ?thesis using pop_blocked_same w1 by blast
  qed (use 2 in simp)
  then show ?thesis using S same_execution_trans by blast
qed

text \<open>Loads: every attempt undoes the recomputed effects; the source of the load itself is reset at the end.\<close>

definition same_upto :: "nat \<Rightarrow> rf_world \<Rightarrow> rf_world \<Rightarrow> bool" where
  "same_upto i w w1 \<longleftrightarrow> (\<exists>x. same_execution (rw_upd_ev i (\<lambda>e. e\<lparr>re_read_from := x\<rparr>) w) w1)"

lemma same_upto_same: "same_execution w w1 \<Longrightarrow> same_upto i w w1"
  unfolding same_upto_def rw_upd_ev_on_prefix
  by (intro exI [of _ "re_read_from (rwe w i)"]) (subst on_prefix_id; simp)

lemma same_upto_trans: "same_upto i u v \<Longrightarrow> same_upto i v w \<Longrightarrow> same_upto i u w"
proof -
  assume "same_upto i u v" "same_upto i v w"
  then obtain x y where x: "same_execution (rw_upd_ev i (\<lambda>e. e\<lparr>re_read_from := x\<rparr>) u) v"
    and y: "same_execution (rw_upd_ev i (\<lambda>e. e\<lparr>re_read_from := y\<rparr>) v) w"
    by (auto simp: same_upto_def)
  have "same_execution (rw_upd_ev i (\<lambda>e. e\<lparr>re_read_from := y\<rparr>) (rw_upd_ev i (\<lambda>e. e\<lparr>re_read_from := x\<rparr>) u)) w"
    using same_execution_trans [OF same_execution_upd_ev [OF x] y] .
  moreover have "rw_upd_ev i (\<lambda>e. e\<lparr>re_read_from := y\<rparr>) (rw_upd_ev i (\<lambda>e. e\<lparr>re_read_from := x\<rparr>) u) = rw_upd_ev i (\<lambda>e. e\<lparr>re_read_from := y\<rparr>) u"
    by (cases "i < length (rf_prefix (rw_st u))") (simp_all add: rw_upd_ev_on_prefix on_prefix_def list_update_beyond)
  ultimately show ?thesis unfolding same_upto_def by auto
qed

lemma same_upto_ev:
  assumes "same_upto i u v"
  shows "length (rf_prefix (rw_st v)) = length (rf_prefix (rw_st u))" "k \<noteq> i \<Longrightarrow> rwe v k = rwe u k"
    "re_sym (rwe v k) = re_sym (rwe u k)" "rw_writes v = rw_writes u" "rf_threads (rw_st v) = rf_threads (rw_st u)"
proof -
  obtain x where x: "same_execution (rw_upd_ev i (\<lambda>e. e\<lparr>re_read_from := x\<rparr>) u) v" using assms by (auto simp: same_upto_def)
  then obtain t where v: "rw_writes v = rw_writes u" "rw_st v = (rf_upd_ev i (\<lambda>e. e\<lparr>re_read_from := x\<rparr>) (rw_st u))\<lparr>rf_tasks_created := t\<rparr>"
    by (auto simp: same_execution_def rw_upd_ev_def)
  show "length (rf_prefix (rw_st v)) = length (rf_prefix (rw_st u))" "rw_writes v = rw_writes u" "k \<noteq> i \<Longrightarrow> rwe v k = rwe u k"
    "rf_threads (rw_st v) = rf_threads (rw_st u)"
    using v by simp_all
  show "re_sym (rwe v k) = re_sym (rwe u k)"
    using v by (cases "k = i"; cases "i < length (rf_prefix (rw_st u))") (simp_all add: list_update_beyond)
qed

definition put_sym :: "nat \<Rightarrow> symev \<Rightarrow> rf_world \<Rightarrow> rf_world" where
  "put_sym i s = on_prefix (\<lambda>es. es[i := (es ! i)\<lparr>re_sym := s\<rparr>])"

definition put_writes :: "symaddr \<Rightarrow> int list \<Rightarrow> rf_world \<Rightarrow> rf_world" where
  "put_writes a ws w = w\<lparr>rw_writes := (rw_writes w)(a := ws)\<rparr>"

lemma put_writes_same: "same_execution u v \<Longrightarrow> same_execution (put_writes a ws u) (put_writes a ws v)"
  by (auto simp: same_execution_def put_writes_def)

lemma put_writes_on_prefix: "on_prefix f (put_writes a ws w) = put_writes a ws (on_prefix f w)"
  by (simp add: on_prefix_def put_writes_def)

lemma put_writes_twice: "put_writes a ws (put_writes a vs w) = put_writes a ws w"
  by (simp add: put_writes_def)

lemma put_writes_id: "put_writes a (rw_writes w a) w = w"
  by (simp add: put_writes_def)

lemma rw_recompute_eq:
  assumes "rw_recompute idx a w = Some (l, w1)" "sym_recorded (re_sym (rwe w idx))"
  shows "\<exists>s1 ws. w1 = put_writes a ws (put_sym idx s1 w) \<and> undoes l idx (re_sym (rwe w idx)) s1 (rw_writes w a) ws"
proof -
  obtain ws st where r: "recompute_cmpxhg_success idx (rw_writes w a) (rw_st w) = Some (l, ws, st)"
    "w1 = w\<lparr>rw_st := st, rw_writes := (rw_writes w)(a := ws)\<rparr>"
    using assms(1) by (auto simp: rw_recompute_def split: bind_splits)
  then obtain s1 where "st = set_sym idx s1 (rw_st w)" "undoes l idx (re_sym (rwe w idx)) s1 (rw_writes w a) ws"
    using recompute_undoes [OF r(1) assms(2)] by blast
  then show ?thesis
    using r(2) by (intro exI conjI) (simp_all add: put_writes_def put_sym_def on_prefix_def set_sym_def rf_upd_ev_def)
qed

lemma rw_undo_eq:
  assumes "undoes l idx s s1 W ws" "re_sym (rwe w idx) = s1" "rw_writes w a = ws"
  shows "rw_undo l a w = Some (put_writes a W (put_sym idx s w))"
  using assms by (simp add: rw_undo_def undoes_def put_writes_def put_sym_def on_prefix_def set_sym_def rf_upd_ev_def)

lemma try_read_from_rmw_same:
  assumes t: "try_read_from_rmw env i a orig d j w = Some w1"
    and b: "i < length (rf_prefix (rw_st w))" "j < length (rf_prefix (rw_st w))"
    and s: "sym_recorded (re_sym (rwe w i))" "sym_recorded (re_sym (rwe w j))"
  shows "same_upto i w w1"
proof -
  have ij: "i < j" using t by (auto simp: try_read_from_rmw_def assertp_def split: bind_splits if_splits)
  consider "w1 = w" | (tried) src alt w' fresh w2 where "re_read_from (rwe w j) = Some (int i)" "unfold_alternative env j src w = Some (alt, w')"
      "rw_try_alloc d (Some alt) w' = Some (fresh, w2)"
      "(if \<not> fresh \<or> \<not> can_swap_by_vclocks (rw_st w2) i j then Some w2
       else do {
         (undoj, w3) \<leftarrow> rw_recompute j a (set_read_from i (int j) (set_read_from j orig w2));
         (undoi, w4) \<leftarrow> rw_recompute i a w3;
         w5 \<leftarrow> try_change env [j, i] d (Some alt) w4;
         w6 \<leftarrow> rw_undo undoi a (set_read_from j (int i) w5);
         rw_undo undoj a w6 }) = Some w1"
    using t by (auto simp: try_read_from_rmw_def assertp_def split: bind_splits if_splits)
  then show ?thesis
  proof cases
    case tried
    have S: "same_execution w w2" using unfold_same(1) [OF tried(2)] try_alloc_same [OF tried(3)] same_execution_trans by blast
    note E = same_execution_ev [OF S]
    show ?thesis
    proof (cases "\<not> fresh \<or> \<not> can_swap_by_vclocks (rw_st w2) i j")
      case True
      then show ?thesis using tried(4) S same_upto_same by auto
    next
      case False
      let ?W = "rw_writes w2 a" and ?es = "rf_prefix (rw_st w2)"
      let ?u = "set_read_from i (int j) (set_read_from j orig w2)"
      obtain lj w3 li w4 w5 w6 where r: "rw_recompute j a ?u = Some (lj, w3)" "rw_recompute i a w3 = Some (li, w4)"
        "try_change env [j, i] d (Some alt) w4 = Some w5" "rw_undo li a (set_read_from j (int i) w5) = Some w6" "rw_undo lj a w6 = Some w1"
        using tried(4) False by (auto split: bind_splits)
      have u: "re_sym (rwe ?u k) = re_sym (?es ! k)" "rw_writes ?u = rw_writes w2" for k
        using b E by (auto simp: set_read_from_on_prefix on_prefix_def nth_list_update)
      obtain sj wsj where j: "w3 = put_writes a wsj (put_sym j sj ?u)" "undoes lj j (re_sym (?es ! j)) sj ?W wsj"
        using rw_recompute_eq [OF r(1)] u s(2) E by auto
      have w3: "re_sym (rwe w3 i) = re_sym (?es ! i)" "rw_writes w3 a = wsj"
        using ij u(1) [of i] by (simp_all add: j(1) put_writes_def put_sym_def on_prefix_def)
      obtain si wsi where i: "w4 = put_writes a wsi (put_sym i si w3)" "undoes li i (re_sym (?es ! i)) si wsj wsi"
        using rw_recompute_eq [OF r(2)] w3 s(1) E by auto
      note w5 = try_change_same [OF r(3)]
      let ?v = "set_read_from j (int i) w5"
      have p4: "rf_prefix (rw_st w4) = (rf_prefix (rw_st w3))[i := (rwe w3 i)\<lparr>re_sym := si\<rparr>]" "rw_writes w4 a = wsi"
        by (simp_all add: i(1) put_writes_def put_sym_def on_prefix_def)
      have p3: "rf_prefix (rw_st w3) = (rf_prefix (rw_st ?u))[j := (rwe ?u j)\<lparr>re_sym := sj\<rparr>]"
        by (simp add: j(1) put_writes_def put_sym_def on_prefix_def)
      have pu: "rf_prefix (rw_st ?u) = (?es[j := (?es ! j)\<lparr>re_read_from := Some orig\<rparr>])[i := (?es ! i)\<lparr>re_read_from := Some (int j)\<rparr>]"
        using ij by (simp add: set_read_from_on_prefix on_prefix_def)
      have le: "i < length ?es" "j < length ?es" using b E by simp_all
      have v: "re_sym (rwe ?v i) = si" "rw_writes ?v a = wsi" "re_sym (rwe ?v j) = sj"
        using same_execution_ev [OF w5] w5 p4 p3 pu le ij by (auto simp: set_read_from_on_prefix on_prefix_def same_execution_def)
      have w6: "w6 = put_writes a wsj (put_sym i (re_sym (?es ! i)) ?v)" using r(4) rw_undo_eq [OF i(2) v(1,2)] by simp
      have v6: "re_sym (rwe w6 j) = sj" "rw_writes w6 a = wsj"
        using v(3) ij by (simp_all add: w6 put_writes_def put_sym_def on_prefix_def)
      have w1: "w1 = put_writes a ?W (put_sym j (re_sym (?es ! j)) w6)" using r(5) rw_undo_eq [OF j(2) v6] by simp
      let ?restored = "\<lambda>es. (let fs = es[j := (es ! j)\<lparr>re_read_from := Some (int i)\<rparr>]; gs = fs[i := (fs ! i)\<lparr>re_sym := re_sym (?es ! i)\<rparr>]
          in gs[j := (gs ! j)\<lparr>re_sym := re_sym (?es ! j)\<rparr>])"
      have "w1 = put_writes a ?W (on_prefix ?restored w5)"
        by (simp add: w1 w6 put_sym_def set_read_from_on_prefix put_writes_on_prefix on_prefix_comp put_writes_twice Let_def)
      moreover have "same_execution (put_writes a ?W (on_prefix ?restored w4)) (put_writes a ?W (on_prefix ?restored w5))"
        by (intro put_writes_same on_prefix_same w5)
      moreover have "put_writes a ?W (on_prefix ?restored w4) = rw_upd_ev i (\<lambda>e. e\<lparr>re_read_from := Some (int j)\<rparr>) w2"
      proof -
        have rf: "re_read_from (?es ! j) = Some (int i)" using tried(1) E by simp
        have "?restored (rf_prefix (rw_st w4)) ! k = ?es[i := (?es ! i)\<lparr>re_read_from := Some (int j)\<rparr>] ! k" if "k < length ?es" for k
          using that le ij rf by (intro event_eqI) (auto simp: p4 p3 pu Let_def nth_list_update)
        then have p: "?restored (rf_prefix (rw_st w4)) = ?es[i := (?es ! i)\<lparr>re_read_from := Some (int j)\<rparr>]"
          by (intro nth_equalityI) (simp_all add: p4 p3 pu Let_def)
        have "put_writes a ?W (on_prefix ?restored w4) = w4\<lparr>rw_st := (rw_st w4)\<lparr>rf_prefix := ?restored (rf_prefix (rw_st w4))\<rparr>, rw_writes := (rw_writes w4)(a := ?W)\<rparr>"
          by (simp add: put_writes_def on_prefix_def)
        also have "\<dots> = rw_upd_ev i (\<lambda>e. e\<lparr>re_read_from := Some (int j)\<rparr>) w2"
          unfolding p by (simp add: i(1) j(1) put_writes_def put_sym_def on_prefix_def set_read_from_on_prefix rw_upd_ev_on_prefix)
        finally show ?thesis .
      qed
      ultimately have "same_upto i w2 w1" unfolding same_upto_def by auto
      then show ?thesis using S same_upto_same same_upto_trans by blast
    qed
  qed (simp add: same_upto_same)
qed

lemma try_read_from_same:
  assumes t: "try_read_from env i a orig d j w = Some w1" and b: "i < length (rf_prefix (rw_st w))"
    and j: "j \<noteq> -1 \<longrightarrow> 0 \<le> j \<and> nat j < length (rf_prefix (rw_st w))"
    and s: "\<forall>k < length (rf_prefix (rw_st w)). sym_recorded (re_sym (rwe w k))"
  shows "same_upto i w w1"
proof -
  let ?src = "if j = -1 then None else re_event (rwe w (nat j))"
  define rest where "rest = (\<lambda>fresh w2. if \<not> fresh then Some w2
        else do {
          possible \<leftarrow> can_rf_by_vclocks (rw_st w2) i orig j;
          if \<not> possible then Some w2
          else do {
            (undoi, w3) \<leftarrow> rw_recompute i a (set_read_from i j w2);
            w4 \<leftarrow> try_change env [i] d ?src w3;
            rw_undo undoi a w4
          }
        })"
  consider (same) "j = orig \<or> j = int i" | (rmw) "\<not> (j = orig \<or> j = int i)" "j \<noteq> -1 \<and> j > int i \<and> rf_is_store (rw_st w) i \<and> rf_is_load (rw_st w) (nat j)"
    | (load) "\<not> (j = orig \<or> j = int i)" "\<not> (j \<noteq> -1 \<and> j > int i \<and> rf_is_store (rw_st w) i \<and> rf_is_load (rw_st w) (nat j))" by blast
  then show ?thesis
  proof cases
    case same
    then show ?thesis using t by (simp add: try_read_from_def same_upto_same)
  next
    case rmw
    then have "w1 = w \<or> try_read_from_rmw env i a orig d (nat j) w = Some w1"
      using t by (auto simp: try_read_from_def split: bind_splits if_splits)
    then show ?thesis using try_read_from_rmw_same b j s rmw(2) same_upto_same [OF same_execution_refl] by blast
  next
    case load
    have "rw_try_alloc d ?src w \<bind> (\<lambda>(fresh, w2). rest fresh w2) = Some w1"
      using t load unfolding try_read_from_def Let_def rest_def by (simp only: if_False)
    then obtain fresh w2 where r2: "rw_try_alloc d ?src w = Some (fresh, w2)" "rest fresh w2 = Some w1" by (auto split: bind_splits)
    have tried: "rw_try_alloc d ?src w = Some (fresh, w2)"
        "w1 = w2 \<or> (\<exists>undoi w3 w4 src. rw_recompute i a (set_read_from i j w2) = Some (undoi, w3) \<and>
           try_change env [i] d src w3 = Some w4 \<and> rw_undo undoi a w4 = Some w1)"
    proof (rule r2(1))
      show "w1 = w2 \<or> (\<exists>undoi w3 w4 src. rw_recompute i a (set_read_from i j w2) = Some (undoi, w3) \<and>
           try_change env [i] d src w3 = Some w4 \<and> rw_undo undoi a w4 = Some w1)"
        using r2(2) unfolding rest_def by (auto split: bind_splits if_splits) blast+
    qed
    note S = try_alloc_same [OF tried(1)]
    note E = same_execution_ev [OF S]
    show ?thesis
      using tried(2)
    proof (elim disjE exE conjE)
      assume "w1 = w2"
      then show ?thesis using S same_upto_same by blast
    next
      fix l w3 w4 src
      let ?u = "set_read_from i j w2" and ?es = "rf_prefix (rw_st w2)"
      assume r: "rw_recompute i a ?u = Some (l, w3)" "try_change env [i] d src w3 = Some w4" "rw_undo l a w4 = Some w1"
      have le: "i < length ?es" using b E by simp
      have u: "re_sym (rwe ?u i) = re_sym (?es ! i)" "rw_writes ?u = rw_writes w2" using le by (simp_all add: set_read_from_on_prefix on_prefix_def)
      obtain si ws where 1: "w3 = put_writes a ws (put_sym i si ?u)" "undoes l i (re_sym (?es ! i)) si (rw_writes w2 a) ws"
        using rw_recompute_eq [OF r(1)] u s b E by auto
      note w4 = try_change_same [OF r(2)]
      have v: "re_sym (rwe w4 i) = si" "rw_writes w4 a = ws"
        using same_execution_ev [OF w4] w4 le
        by (auto simp: 1(1) put_writes_def put_sym_def set_read_from_on_prefix on_prefix_def same_execution_def)
      have "w1 = put_writes a (rw_writes w2 a) (put_sym i (re_sym (?es ! i)) w4)" using r(3) rw_undo_eq [OF 1(2) v] by simp
      moreover have "same_execution (put_writes a (rw_writes w2 a) (put_sym i (re_sym (?es ! i)) w3)) (put_writes a (rw_writes w2 a) (put_sym i (re_sym (?es ! i)) w4))"
        unfolding put_sym_def by (intro put_writes_same on_prefix_same w4)
      moreover have "put_writes a (rw_writes w2 a) (put_sym i (re_sym (?es ! i)) w3) = rw_upd_ev i (\<lambda>e. e\<lparr>re_read_from := Some j\<rparr>) w2"
        using le by (simp add: 1(1) put_writes_def put_sym_def on_prefix_def set_read_from_on_prefix rw_upd_ev_on_prefix)
      ultimately have "same_upto i w2 w1" unfolding same_upto_def by auto
      then show ?thesis using S same_upto_same same_upto_trans by blast
    qed
  qed
qed

section \<open>The loops\<close>

text \<open>The maps of events name positions of the prefix, and every event is as the operations record it.\<close>

definition maps_ok :: "event_maps \<Rightarrow> rf_world \<Rightarrow> bool" where
  "maps_ok m w \<longleftrightarrow>
     (\<forall>a. \<forall>x \<in> set (rw_writes w a) \<union> set (em_cmpxhgfail m a). 0 \<le> x \<and> nat x < length (rf_prefix (rw_st w))) \<and>
     (\<forall>p < length (rf_threads (rw_st w)). \<forall>a. \<forall>x \<in> set ((em_by_process m ! p) a). x < length (rf_prefix (rw_st w))) \<and>
     (\<forall>k < length (rf_prefix (rw_st w)). sym_recorded (re_sym (rwe w k)))"

lemma maps_ok_upto:
  assumes "maps_ok m w" "same_upto i w w1" shows "maps_ok m w1"
  using assms(1) unfolding maps_ok_def same_upto_ev(1,3-5) [OF assms(2)] .

lemma run_calls_upto:
  assumes "run_calls f cs w = Some w1" "maps_ok m w"
    and "\<And>c u v. c \<in> set cs \<Longrightarrow> f c u = Some v \<Longrightarrow> maps_ok m u \<Longrightarrow> length (rf_prefix (rw_st u)) = length (rf_prefix (rw_st w)) \<Longrightarrow>
      length (rf_threads (rw_st u)) = length (rf_threads (rw_st w)) \<Longrightarrow> same_upto i u v"
  shows "same_upto i w w1"
  using assms
proof (induction cs arbitrary: w)
  case (Cons c cs)
  obtain u where u: "f c w = Some u" "run_calls f cs u = Some w1" using Cons.prems(1) by (auto split: bind_splits)
  have S: "same_upto i w u" using Cons.prems(3) [OF _ u(1) Cons.prems(2)] by simp
  have "same_upto i u w1"
  proof (rule Cons.IH [OF u(2) maps_ok_upto [OF Cons.prems(2) S]])
    fix c' x y assume a: "c' \<in> set cs" "f c' x = Some y" "maps_ok m x" "length (rf_prefix (rw_st x)) = length (rf_prefix (rw_st u))"
      "length (rf_threads (rw_st x)) = length (rf_threads (rw_st u))"
    show "same_upto i x y"
      by (rule Cons.prems(3) [OF _ a(2,3)]) (use a same_upto_ev(1,5) [OF S] in simp_all)
  qed
  then show ?case using S same_upto_trans by blast
qed (auto intro: same_upto_same)

lemma ponder_load_same:
  assumes p: "ponder_load env m i w = Some w1" and ok: "maps_ok m w" and i: "i < length (rf_prefix (rw_st w))"
  shows "same_execution w w1"
proof -
  obtain ml orig d w2 w3 w4 where 1: "re_read_from (rwe w i) = Some orig"
    "run_calls (ponder_process env m i ml orig d) [0..<length (rf_threads (rw_st w))] w = Some w2"
    "try_read_from env i ml orig d (-1) w2 = Some w3"
    "(if rf_is_store (rw_st w3) i then run_calls (ponder_cmpxhgfail env i ml orig d) (em_cmpxhgfail m ml) w3 else Some w3) = Some w4"
    "w1 = set_read_from i orig w4"
    using p by (auto simp: ponder_load_def assertp_def split: bind_splits if_splits)
  have vis: "set vis \<subseteq> set ws" if "visible_writes st k ws q = Some vis" for st k ws q vis
    using that by (auto simp: visible_writes_def assertp_def Let_def split: if_splits dest!: in_set_dropD in_set_takeD)
  have R: "same_upto i u v" if "try_read_from env i ml orig d j u = Some v" "maps_ok m u" "i < length (rf_prefix (rw_st u))"
      "j \<noteq> -1 \<longrightarrow> 0 \<le> j \<and> nat j < length (rf_prefix (rw_st u))" for j u v
    using try_read_from_same [OF that(1,3,4)] that(2) by (simp add: maps_ok_def)
  have P: "same_upto i u v" if q: "ponder_process env m i ml orig d q u = Some v" "maps_ok m u" "i < length (rf_prefix (rw_st u))"
      "q < length (rf_threads (rw_st u))" for q u v
  proof -
    obtain vis0 where v0: "visible_writes (rw_st u) i ((em_by_process m ! q) ml) q = Some vis0"
      "run_calls (try_read_from env i ml orig d) (map int vis0) u = Some v"
      using q(1) by (auto simp: ponder_process_def split: bind_splits)
    have "x < length (rf_prefix (rw_st u))" if "x \<in> set vis0" for x
      using vis [OF v0(1)] that q(2,4) by (auto simp: maps_ok_def)
    then show ?thesis by (intro run_calls_upto [OF v0(2) q(2)] R) (use q(3) in auto)
  qed
  have 2: "same_upto i w w2" by (rule run_calls_upto [OF 1(2) ok]) (use P i in auto)
  have 3: "same_upto i w2 w3" using R [OF 1(3) maps_ok_upto [OF ok 2]] i same_upto_ev(1) [OF 2] by simp
  have S3: "same_upto i w w3" using 2 3 same_upto_trans by blast
  have C: "same_upto i u v" if c: "ponder_cmpxhgfail env i ml orig d j u = Some v" "maps_ok m u" "i < length (rf_prefix (rw_st u))"
      "j \<in> set (em_cmpxhgfail m ml)" for j u v
  proof -
    have "0 \<le> j" "nat j < length (rf_prefix (rw_st u))" using c(2,4) by (auto simp: maps_ok_def)
    then show ?thesis
      using c(1,3) try_read_from_rmw_same [of env i ml orig d "nat j" u v] c(2) same_upto_same [OF same_execution_refl]
      by (auto simp: ponder_cmpxhgfail_def maps_ok_def split: if_splits bind_splits)
  qed
  have "same_upto i w3 w4"
  proof (cases "rf_is_store (rw_st w3) i")
    case True
    then have "run_calls (ponder_cmpxhgfail env i ml orig d) (em_cmpxhgfail m ml) w3 = Some w4" using 1(4) by simp
    then show ?thesis by (rule run_calls_upto [OF _ maps_ok_upto [OF ok S3]]) (use C i same_upto_ev(1) [OF S3] in simp)
  qed (use 1(4) same_upto_same [OF same_execution_refl] in simp)
  then have "same_upto i w w4" using S3 same_upto_trans by blast
  then obtain x where "same_execution (rw_upd_ev i (\<lambda>e. e\<lparr>re_read_from := x\<rparr>) w) w4" by (auto simp: same_upto_def)
  then have "same_execution w (on_prefix (\<lambda>es. es[i := (es ! i)\<lparr>re_read_from := Some orig\<rparr>]) w4)"
    unfolding rw_upd_ev_on_prefix by (rule on_prefix_attempt) (use i 1(1) in \<open>simp add: list_update_same_conv\<close>)
  then show ?thesis by (simp add: 1(5) set_read_from_on_prefix)
qed

lemma run_calls_same:
  assumes "run_calls f cs w = Some w1"
    and "\<And>c u v. c \<in> set cs \<Longrightarrow> f c u = Some v \<Longrightarrow> same_execution w u \<Longrightarrow> same_execution u v"
  shows "same_execution w w1"
  using assms
proof (induction cs arbitrary: w)
  case (Cons c cs)
  obtain u where u: "f c w = Some u" "run_calls f cs u = Some w1" using Cons.prems(1) by (auto split: bind_splits)
  have S: "same_execution w u" using Cons.prems(2) [OF _ u(1)] by simp
  have "same_execution u w1"
  proof (rule Cons.IH [OF u(2)])
    fix c' x y assume a: "c' \<in> set cs" "f c' x = Some y" "same_execution u x"
    show "same_execution x y" by (rule Cons.prems(2) [OF _ a(2) same_execution_trans [OF S a(3)]]) (use a(1) in simp)
  qed
  then show ?case using S same_execution_trans by blast
qed simp

lemma next_access_less: "next_access xs i \<le> length xs"
  by (simp add: next_access_def length_takeWhile_le)

lemma relock_mem:
  assumes "relock st xs k = Some (u, r)" "k \<le> length xs"
  shows "\<exists>x \<in> set xs. r = nat x"
proof -
  define n where "n = k + length (takeWhile (\<lambda>x. rf_is_trylock_fail st (nat x)) (drop k xs))"
  have "n \<noteq> length xs" "n + 1 \<noteq> length xs" "r = nat (xs ! (n + 1))"
    using assms(1) by (auto simp: relock_def Let_def n_def split: if_splits)
  moreover have "n \<le> length xs"
    using length_takeWhile_le [of "\<lambda>x. rf_is_trylock_fail st (nat x)" "drop k xs"] assms(2) by (simp add: n_def)
  ultimately show ?thesis by (intro bexI [of _ "xs ! (n + 1)"] nth_mem) simp_all
qed

lemma ponder_mutex_same:
  assumes p: "ponder_mutex env i w = Some w1" and ok: "maps_ok m w" and i: "i < length (rf_prefix (rw_st w))"
  shows "same_execution w w1"
proof -
  obtain a where a: "rf_get_addr (rw_st w) i = Some a" using p by (auto simp: ponder_mutex_def split: bind_splits)
  let ?xs = "rw_writes w (as_addr a)" and ?k = "next_access (rw_writes w (as_addr a)) i"
  show ?thesis
  proof (cases "?k = length ?xs")
    case True
    then have "w1 = w \<or> run_calls (\<lambda>other. try_swap_blocked env i other (ev_MLock a)) (rf_mutex_deadlocks (rw_st w) (as_addr a)) w = Some w1"
      using p a by (auto simp: ponder_mutex_def Let_def split: if_splits)
    then show ?thesis
      using run_calls_same [of "\<lambda>other. try_swap_blocked env i other (ev_MLock a)" _ w w1] try_swap_blocked_same same_execution_ev i by auto
  next
    case False
    let ?j = "nat (?xs ! ?k)"
    have k: "?k < length ?xs" using False next_access_less [of ?xs i] by simp
    have j: "?j < length (rf_prefix (rw_st w))" using ok nth_mem [OF k] by (auto simp: maps_ok_def)
    obtain w2 where rf: "re_read_from (rwe w ?j) = Some (int i)" and 1: "w1 = w \<or> try_swap env i ?j w = Some w2 \<and>
        (w1 = w2 \<or> (\<exists>u r. relock (rw_st w2) ?xs ?k = Some (u, r) \<and> try_swap_lock env i u r w2 = Some w1))"
      using p a False by (auto simp: ponder_mutex_def assertp_def Let_def split: bind_splits if_splits option.splits)
    have S: "same_execution w w2" if "try_swap env i ?j w = Some w2" by (rule try_swap_same [OF that i j rf])
    have L: "same_execution w2 w1" if "relock (rw_st w2) ?xs ?k = Some (u, r)" "try_swap_lock env i u r w2 = Some w1" "same_execution w w2" for u r
      using try_swap_lock_same [OF that(2)] relock_mem [OF that(1) next_access_less] ok i same_execution_ev [OF that(3)] by (auto simp: maps_ok_def)
    show ?thesis using 1 S L same_execution_trans by (metis same_execution_refl)
  qed
qed

lemma maps_ok_same: "maps_ok m w \<Longrightarrow> same_execution w w1 \<Longrightarrow> maps_ok m w1"
  using maps_ok_upto same_upto_same by blast

lemma ponder_events_same:
  assumes "run_calls (ponder_event env m) [0..<length (rf_prefix (rw_st w))] w = Some w1" "maps_ok m w"
  shows "same_execution w w1"
  using assms(1)
proof (rule run_calls_same)
  fix i u v assume a: "i \<in> set [0..<length (rf_prefix (rw_st w))]" "ponder_event env m i u = Some v" "same_execution w u"
  have "maps_ok m u" "i < length (rf_prefix (rw_st u))" using maps_ok_same [OF assms(2) a(3)] a(1) same_execution_ev [OF a(3)] by simp_all
  then show "same_execution u v"
    using a(2) ponder_mutex_same ponder_load_same by (auto simp: ponder_event_def split: if_splits)
qed

section \<open>The whole analysis\<close>

text \<open>What the computation of clocks and of unfolding events leaves of an event, and of the state.\<close>

definition kept_event :: "rf_event \<Rightarrow> rf_event \<Rightarrow> bool" where
  "kept_event e f \<longleftrightarrow> effect_of f = effect_of e \<and> place_of f = place_of e \<and> re_pinned f = re_pinned e \<and>
     re_may_conflict f = re_may_conflict e \<and> re_alt f = re_alt e"

definition kept_state :: "rfsc \<Rightarrow> rfsc \<Rightarrow> bool" where
  "kept_state st st1 \<longleftrightarrow> list_all2 kept_event (rf_prefix st) (rf_prefix st1) \<and> rf_threads st1 = rf_threads st \<and>
     rf_prefix_idx st1 = rf_prefix_idx st \<and> rf_mem st1 = rf_mem st \<and> rf_mutexes st1 = rf_mutexes st \<and>
     rf_mutex_deadlocks st1 = rf_mutex_deadlocks st \<and> rf_errors st1 = rf_errors st"

lemma kept_event_refl [simp]: "kept_event e e"
  by (simp add: kept_event_def)

lemma kept_state_refl [simp]: "kept_state st st"
  by (simp add: kept_state_def list_all2_refl)

lemma kept_state_trans: "kept_state u v \<Longrightarrow> kept_state v w \<Longrightarrow> kept_state u w"
proof -
  assume a: "kept_state u v" "kept_state v w"
  have "list_all2 kept_event (rf_prefix u) (rf_prefix w)"
    by (rule list_all2_trans [of kept_event kept_event kept_event _ "rf_prefix v"]) (use a in \<open>auto simp: kept_event_def kept_state_def\<close>)
  then show ?thesis using a by (simp add: kept_state_def)
qed

lemma kept_state_upd_ev: "kept_event (rfe st i) (f (rfe st i)) \<Longrightarrow> kept_state st (rf_upd_ev i f st)"
  by (cases "i < length (rf_prefix st)")
    (auto simp: kept_state_def rf_upd_ev_def list_all2_conv_all_nth nth_list_update)

lemma kept_state_fold:
  assumes "\<And>j s e. kept_event e (f j s e)"
  shows "kept_state st (fold (\<lambda>j s. rf_upd_ev i (f j s) s) js st)"
proof (induction js arbitrary: st)
  case (Cons j js)
  have "kept_state st (rf_upd_ev i (f j st) st)" by (rule kept_state_upd_ev) (rule assms)
  then show ?case using kept_state_trans [OF _ Cons.IH] by simp
qed simp

lemma add_happens_after_kept: "rf_add_happens_after second first st = Some st1 \<Longrightarrow> kept_state st st1"
  by (auto simp: rf_add_happens_after_def assertp_def Let_def kept_event_def intro: kept_state_upd_ev split: if_splits)

lemma compute_above_clock_kept:
  assumes "compute_above_clock i st = Some (p, st1)" shows "kept_state st st1"
proof -
  obtain st2 where st2: "start_clock i st = Some (p, st2)" and st1: "st1 = (let st2 = rf_upd_ev i (\<lambda>e. e\<lparr>re_clock := vc_set (re_clock e) (re_pid e) (re_index e)\<rparr>) st2;
     st3 = fold (\<lambda>j s. rf_upd_ev i (\<lambda>e. e\<lparr>re_clock := vc_plus_assign (re_clock e) (re_clock (rfe s j))\<rparr>) s) (re_happens_after (rfe st2 i)) st2 in
     rf_upd_ev i (\<lambda>e. e\<lparr>re_above_clock := re_clock e\<rparr>) st3)"
    using assms by (auto simp: compute_above_clock_def assertp_def Let_def split: bind_splits if_splits)
  have c: "kept_state u (rf_upd_ev i (\<lambda>e. e\<lparr>re_clock := x\<rparr>) u)" for u x by (rule kept_state_upd_ev) (simp add: kept_event_def)
  have "kept_state st st2"
    using st2
    by (auto simp: start_clock_def Let_def assertp_def c split: if_splits bind_splits
        dest!: add_happens_after_kept intro: kept_state_trans [OF c])
  moreover have "kept_state st2 st1"
    unfolding st1 Let_def
    by (rule kept_state_trans [OF kept_state_trans [OF kept_state_upd_ev kept_state_fold] kept_state_upd_ev]) (simp_all add: kept_event_def)
  ultimately show ?thesis by (rule kept_state_trans)
qed

lemma run_calls_inv:
  assumes "run_calls f cs s = Some t" "I s" "\<And>c u v. c \<in> set cs \<Longrightarrow> I u \<Longrightarrow> f c u = Some v \<Longrightarrow> I v"
  shows "I t"
  using assms
proof (induction cs arbitrary: s)
  case (Cons c cs)
  obtain u where u: "f c s = Some u" "run_calls f cs u = Some t" using Cons.prems(1) by (auto split: bind_splits)
  have "I u" using Cons.prems(3) [OF _ Cons.prems(2) u(1)] by simp
  then show ?case using Cons.IH [OF u(2)] Cons.prems(3) by (meson list.set_intros(2))
qed simp

lemma compute_vclocks_kept:
  assumes "compute_vclocks st = Some st1" shows "kept_state st st1"
proof -
  obtain st2 ha bc where 1: "run_calls clock_step [0..<length (rf_prefix st)] (st, replicate (length (rf_prefix st)) []) = Some (st2, ha)"
    "st1 = st2\<lparr>rf_below_clocks := bc\<rparr>"
    using assms by (auto simp: compute_vclocks_def Let_def split: bind_splits)
  have step: "kept_state (fst s) (fst t)" if st: "clock_step i s = Some t" for i s t
  proof -
    obtain prev u where u: "compute_above_clock i (fst s) = Some (prev, u)" using st by (auto simp: clock_step_def split: bind_splits)
    have c: "kept_state u (rf_upd_ev i (\<lambda>e. e\<lparr>re_clock := vc_plus_assign (re_clock e) x\<rparr>) u)" for x
      by (rule kept_state_upd_ev) (simp add: kept_event_def)
    have "kept_state u (fst t)" using st u c by (auto simp: clock_step_def Let_def split: list.splits)
    then show ?thesis using compute_above_clock_kept [OF u] kept_state_trans by blast
  qed
  have "kept_state st (fst (st2, ha))"
    by (rule run_calls_inv [OF 1(1), of "\<lambda>s. kept_state st (fst s)"]) (use step kept_state_trans in auto)
  then show ?thesis by (simp add: 1(2) kept_state_def)
qed

lemma compute_unfolding_kept:
  assumes "compute_unfolding env w = Some w1" shows "kept_state (rw_st w) (rw_st w1)"
proof -
  obtain item w2 d where 1: "run_calls (unfold_step env) [0..<length (rf_prefix (rw_st w))] (w, item) = Some (w2, d)"
    "w1 = w2\<lparr>rw_st := (rw_st w2)\<lparr>rf_work_item := Some d\<rparr>\<rparr>"
    using assms by (auto simp: compute_unfolding_def split: bind_splits)
  have e: "kept_state (rw_st u) (rw_st (rw_upd_ev i (\<lambda>e. e\<lparr>re_event := x\<rparr>) u))" for u i x
    unfolding rw_upd_ev_def by (simp add: kept_state_upd_ev kept_event_def)
  have d: "kept_state (rw_st u) (rw_st (rw_upd_ev i (set_decision tr x) u))" for u i tr x
    unfolding rw_upd_ev_def by (simp add: kept_state_upd_ev kept_event_def set_decision_def)
  have n: "rw_st v = rw_st u" if "rf_find_node env p parent src u = Some (n, v)" for p parent src u n v
    using that by (auto simp: rf_find_node_def split: bind_splits)
  have step: "kept_state (rw_st (fst s)) (rw_st (fst t))" if st: "unfold_step env i s = Some t" for i s t
  proof -
    obtain u d0 where s: "s = (u, d0)" by (cases s)
    obtain parent where p: "unfold_parent (rw_st u) (re_pid (rwe u i)) (re_index (rwe u i)) = Some parent"
      using st by (auto simp: s unfold_step_def Let_def split: bind_splits)
    show ?thesis
    proof (cases "\<not> re_may_conflict (rwe u i) \<and> parent \<noteq> None")
      case True
      then have "fst t = rw_upd_ev i (\<lambda>e. e\<lparr>re_event := parent\<rparr>) u" using st p by (auto simp: s unfold_step_def Let_def)
      then show ?thesis using e by (simp add: s)
    next
      case False
      then obtain src n u1 where u1: "rf_find_node env (re_pid (rwe u i)) parent src u = Some (n, u1)"
        and t: "fst t = rw_upd_ev i (\<lambda>e. e\<lparr>re_event := Some n\<rparr>) u1 \<or> (\<exists>tr x. fst t =
           rw_upd_ev i (set_decision tr x) ((rw_upd_ev i (\<lambda>e. e\<lparr>re_event := Some n\<rparr>) u1)\<lparr>rw_tree := tr\<rparr>))"
        using st p by (auto simp: s unfold_step_def Let_def split: bind_splits if_splits) blast+
      have E: "kept_state (rw_st u) (rw_st (rw_upd_ev i (\<lambda>e. e\<lparr>re_event := Some n\<rparr>) u1))" using e [of u1] n [OF u1] by simp
      from t show ?thesis
      proof (elim disjE exE)
        fix tr x assume "fst t = rw_upd_ev i (set_decision tr x) ((rw_upd_ev i (\<lambda>e. e\<lparr>re_event := Some n\<rparr>) u1)\<lparr>rw_tree := tr\<rparr>)"
        then show ?thesis using kept_state_trans [OF E] d [of "(rw_upd_ev i (\<lambda>e. e\<lparr>re_event := Some n\<rparr>) u1)\<lparr>rw_tree := tr\<rparr>"] by (simp add: s)
      qed (use E in \<open>simp add: s\<close>)
    qed
  qed
  have "kept_state (rw_st w) (rw_st (fst (w2, d)))"
    by (rule run_calls_inv [OF 1(1), of "\<lambda>s. kept_state (rw_st w) (rw_st (fst s))"]) (use step kept_state_trans in auto)
  then show ?thesis by (simp add: 1(2) kept_state_def)
qed

lemma index_events_range:
  assumes "index_events st = Some m"
  shows "x \<in> set (em_writes m a) \<union> set (em_cmpxhgfail m a) \<Longrightarrow> 0 \<le> x \<and> nat x < length (rf_prefix st)"
    "p < length (rf_threads st) \<Longrightarrow> y \<in> set ((em_by_process m ! p) a) \<Longrightarrow> y < length (rf_prefix st)"
proof -
  let ?I = "\<lambda>m. length (em_by_process m) = length (rf_threads st) \<and>
    (\<forall>a. \<forall>x \<in> set (em_writes m a) \<union> set (em_cmpxhgfail m a). 0 \<le> x \<and> nat x < length (rf_prefix st)) \<and>
    (\<forall>p < length (rf_threads st). \<forall>a. \<forall>y \<in> set ((em_by_process m ! p) a). y < length (rf_prefix st))"
  have step: "?I v" if c: "c \<in> set [0..<length (rf_prefix st)]" and u: "?I u" and s: "index_event st c u = Some v" for c u v
  proof -
    have c: "c < length (rf_prefix st)" using c by simp
    consider "v = u"
      | (store) b where "v = u\<lparr>em_writes := (em_writes u)(b := em_writes u b @ [int c]), em_by_process := (em_by_process u)
          [re_pid (rfe st c) := (em_by_process u ! re_pid (rfe st c))(b := (em_by_process u ! re_pid (rfe st c)) b @ [c])]\<rparr>"
      | (failed) b where "v = u\<lparr>em_cmpxhgfail := (em_cmpxhgfail u)(b := em_cmpxhgfail u b @ [int c])\<rparr>"
      using s by (auto simp: index_event_def Let_def split: if_splits bind_splits)
    then show ?thesis
    proof cases
      case store
      have "y < length (rf_prefix st)" if "p < length (rf_threads st)" "y \<in> set ((em_by_process v ! p) a)" for p a y
        using that u c by (cases "p = re_pid (rfe st c)") (auto simp: store split: if_splits)
      then show ?thesis using u c by (auto simp: store split: if_splits)
    next
      case failed
      then show ?thesis using u c by (auto split: if_splits)
    qed (use u in simp)
  qed
  have "?I m" by (rule run_calls_inv [OF assms [unfolded index_events_def], of ?I]) (simp, rule step)
  then show "x \<in> set (em_writes m a) \<union> set (em_cmpxhgfail m a) \<Longrightarrow> 0 \<le> x \<and> nat x < length (rf_prefix st)"
    "p < length (rf_threads st) \<Longrightarrow> y \<in> set ((em_by_process m ! p) a) \<Longrightarrow> y < length (rf_prefix st)"
    by blast+
qed

section \<open>Properties\<close>

text \<open>
  C5. Planning leaves the execution as it was recorded. \<^verbatim>\<open>compute_prefixes\<close> swaps sources, turns failed compare-exchanges
  and trylocks into successful ones and back again, appends and removes blocked events, and exchanges decisions; when it
  returns, all of that is undone: after the clocks and unfolding events are computed, only the number of new tasks
  changes in the builder. Every event has the effect, source, identifier, size and pinning it had before, and threads, memory and mutexes
  are the same.
\<close>

theorem compute_prefixes_restores:
  assumes "compute_prefixes env w0 = Some w" "\<forall>e \<in> set (rf_prefix (rw_st w0)). sym_recorded (re_sym e)"
  shows "(\<exists>st w1 t. compute_vclocks (rw_st w0) = Some st \<and> compute_unfolding env (w0\<lparr>rw_st := st\<rparr>) = Some w1 \<and>
      rw_st w = (rw_st w1)\<lparr>rf_tasks_created := t\<rparr>) \<and> kept_state (rw_st w0) (rw_st w)"
proof -
  obtain st w1 m where 1: "compute_vclocks (rw_st w0) = Some st" "compute_unfolding env (w0\<lparr>rw_st := st\<rparr>) = Some w1"
    "index_events (rw_st w1) = Some m"
    "run_calls (ponder_event env m) [0..<length (rf_prefix (rw_st w1))] (w1\<lparr>rw_writes := em_writes m\<rparr>) = Some w"
    using assms(1) by (auto simp: compute_prefixes_def split: bind_splits)
  have K: "kept_state (rw_st w0) (rw_st w1)"
    using kept_state_trans [OF compute_vclocks_kept [OF 1(1)]] compute_unfolding_kept [OF 1(2)] by simp
  have l2: "list_all2 kept_event (rf_prefix (rw_st w0)) (rf_prefix (rw_st w1))" using K by (simp add: kept_state_def)
  have "sym_recorded (re_sym (rwe w1 k))" if "k < length (rf_prefix (rw_st w1))" for k
  proof -
    have k: "k < length (rf_prefix (rw_st w0))" using that list_all2_lengthD [OF l2] by simp
    then have "re_sym (rwe w1 k) = re_sym (rwe w0 k)" using list_all2_nthD [OF l2 k] by (simp add: kept_event_def)
    then show ?thesis using assms(2) k by simp
  qed
  then have ok: "maps_ok m (w1\<lparr>rw_writes := em_writes m\<rparr>)"
    using index_events_range [OF 1(3)] by (auto simp: maps_ok_def)
  have "same_execution (w1\<lparr>rw_writes := em_writes m\<rparr>) w"
    using ponder_events_same [OF _ ok] 1(4) by simp
  then obtain t where t: "rw_st w = (rw_st w1)\<lparr>rf_tasks_created := t\<rparr>" by (auto simp: same_execution_def)
  have "kept_state (rw_st w0) (rw_st w)" using K by (simp add: t kept_state_def)
  then show ?thesis using 1(1,2) t by blast
qed

text \<open>
  One thread spawns another and stores, the other loads: the analysis finds one new task, in which the load reads the
  initial value.
\<close>

definition plan_env :: rf_env where
  "plan_env = \<lparr>env_thread = 0, env_trav = (\<lambda>ws. ws), env_no_heuristic = False, env_solver = (\<lambda>n cs. None)\<rparr>"

definition plan_calls :: "rf_call list" where
  "plan_calls = [R_reset [Some 0], R_schedule, R_spawn, R_schedule, R_atomic_store \<lparr>sd_ref = rf_example_ml, sd_block = Some [1]\<rparr>,
     R_schedule, R_refuse_schedule, R_schedule, R_load rf_example_ml, R_schedule, R_refuse_schedule]"

definition plan_world :: "rf_call list \<Rightarrow> rf_world option" where
  "plan_world cs = map_option (\<lambda>(st, tr, r). \<lparr>rw_st = st, rw_unf = RFSCUnfoldingTree, rw_tree = tr,
       rw_sched = PriorityQueueScheduler, rw_writes = (\<lambda>_. [])\<rparr>)
     (run_calls rf_do cs (RFSCTraceBuilder (-1) False False, initial_tree, False))"

theorem compute_prefixes_restores_witness:
  "\<exists>w0 w. plan_world plan_calls = Some w0 \<and> compute_prefixes plan_env w0 = Some w \<and> rf_tasks_created (rw_st w) = 1 \<and>
     kept_state (rw_st w0) (rw_st w)"
proof -
  have "map_option (\<lambda>w. map (\<lambda>e. ev_kind (re_sym e)) (rf_prefix (rw_st w))) (plan_world plan_calls) =
      Some [SPAWN, SymEvs.STORE, SymEvs.LOAD]"
    by code_simp
  moreover have "Option.bind (plan_world plan_calls) (\<lambda>w. map_option (\<lambda>w. rf_tasks_created (rw_st w)) (compute_prefixes plan_env w)) = Some 1"
    by code_simp
  ultimately obtain w0 w where w: "plan_world plan_calls = Some w0" "compute_prefixes plan_env w0 = Some w" "rf_tasks_created (rw_st w) = 1"
      "map (\<lambda>e. ev_kind (re_sym e)) (rf_prefix (rw_st w0)) = [SPAWN, SymEvs.STORE, SymEvs.LOAD]"
    by (auto split: bind_splits)
  have "\<forall>e \<in> set (rf_prefix (rw_st w0)). sym_recorded (re_sym e)"
    using w(4) by (auto simp: sym_recorded_def)
  then show ?thesis using compute_prefixes_restores [OF w(2)] w by blast
qed

text \<open>
  C27. A recomputation of the success of a compare-exchange or trylock is undone by its log: \<^verbatim>\<open>undo_cmpxhg_recomputation\<close> gives back
  the vector of writes, with its order, and the state.
\<close>

theorem recompute_undo_roundtrip:
  assumes "recompute_cmpxhg_success idx writes st = Some (l, writes1, st1)" "sym_recorded (rsym st idx)" "idx < length (rf_prefix st)"
  shows "undo_cmpxhg_recomputation l writes1 st1 = Some (writes, st)"
proof -
  obtain s1 where s1: "st1 = set_sym idx s1 st" "undoes l idx (rsym st idx) s1 writes writes1"
    using recompute_undoes [OF assms(1,2)] by blast
  have "rsym st1 idx = s1" using assms(3) by (simp add: s1(1))
  then have "undo_cmpxhg_recomputation l writes1 st1 = Some (writes, set_sym idx (rsym st idx) st1)" using s1(2) by (simp add: undoes_def)
  then show ?thesis using assms(3) by (simp add: s1(1) set_sym_twice set_sym_same)
qed


text \<open>A compare-exchange that expects one and reads the initial zero; it was the second of three writes.\<close>

theorem recompute_undo_roundtrip_witness:
  "\<exists>st st1 l. recompute_cmpxhg_success 0 [2, 0, 1] st = Some (l, [2, 1], st1) \<and>
     undo_cmpxhg_recomputation l [2, 1] st1 = Some ([2, 0, 1], st)"
proof -
  let ?s = "ev_CmpXhg \<lparr>sd_ref = rf_example_ml, sd_block = Some [5]\<rparr> (Some [1])"
  define st where "st = (RFSCTraceBuilder (-1) False False)\<lparr>rf_prefix := [(RF_Event (0, 1) ?s)\<lparr>re_read_from := Some (-1)\<rparr>]\<rparr>"
  have "map_option (\<lambda>(l, ws, st1). ws) (recompute_cmpxhg_success 0 [2, 0, 1] st) = Some [2, 1]" unfolding st_def by code_simp
  then obtain l st1 where r: "recompute_cmpxhg_success 0 [2, 0, 1] st = Some (l, [2, 1], st1)" by auto
  have "sym_recorded (rsym st 0)" "0 < length (rf_prefix st)" by (auto simp: st_def sym_recorded_def RF_Event_def)
  then show ?thesis using recompute_undo_roundtrip [OF r] r by blast
qed

end
