(* ===== verification/RFSC_Causal.thy ===== *)
theory RFSC_Causal
  imports RFSC_Restore
begin

text \<open>
  The causal past of a decision (\<^verbatim>\<open>causal_past\<close> of \<^verbatim>\<open>src/src/RFSCTraceBuilder.cpp\<close>): the depth-first search marks exactly the
  events from which a decision event is reachable along program order, reads-from and the other happens-after edges.
\<close>

section \<open>The search\<close>

text \<open>\<open>(q, i)\<close> when \<open>q\<close> is a direct cause of \<open>i\<close>: its source, an event it happens after, or its program order predecessor.\<close>

definition cause_rel :: "rfsc \<Rightarrow> (nat \<times> nat) set" where
  "cause_rel st = {(q, i). (\<exists>w. re_read_from (rfe st i) = Some w \<and> w \<noteq> -1 \<and> q = nat w) \<or>
     q \<in> set (re_happens_after (rfe st i)) \<or> rf_po_predecessor st i = Some (Some q)}"

lemma causes_cause_rel: "causes st i = Some cs \<Longrightarrow> (q, i) \<in> cause_rel st \<longleftrightarrow> q \<in> set cs"
  by (auto simp: causes_def cause_rel_def reads_event_def split: option.splits bind_splits if_splits)

text \<open>What a call of the search from \<open>is\<close> with the marks \<open>acc\<close> returns.\<close>

definition searched :: "rfsc \<Rightarrow> nat list \<Rightarrow> bool list \<Rightarrow> bool list \<Rightarrow> bool" where
  "searched st is acc acc1 \<longleftrightarrow> length acc1 = length acc \<and> (\<forall>k < length acc. acc ! k \<longrightarrow> acc1 ! k) \<and>
     (\<forall>i \<in> set is. i < length acc \<and> acc1 ! i) \<and>
     (\<forall>k < length acc. acc1 ! k \<and> \<not> acc ! k \<longrightarrow>
        (\<exists>cs. causes st k = Some cs \<and> (\<forall>c \<in> set cs. c < length acc \<and> acc1 ! c)) \<and> (\<exists>i \<in> set is. (k, i) \<in> (cause_rel st)\<^sup>*))"

lemma searchedD:
  assumes "searched st is acc acc1"
  shows "length acc1 = length acc" "k < length acc \<Longrightarrow> acc ! k \<Longrightarrow> acc1 ! k" "i \<in> set is \<Longrightarrow> i < length acc \<and> acc1 ! i"
    "k < length acc \<Longrightarrow> acc1 ! k \<Longrightarrow> \<not> acc ! k \<Longrightarrow> \<exists>cs. causes st k = Some cs \<and> (\<forall>c \<in> set cs. c < length acc \<and> acc1 ! c)"
    "k < length acc \<Longrightarrow> acc1 ! k \<Longrightarrow> \<not> acc ! k \<Longrightarrow> \<exists>i \<in> set is. (k, i) \<in> (cause_rel st)\<^sup>*"
  using assms by (auto simp: searched_def)

lemma searched_visit:
  assumes i: "i < length acc" "\<not> acc ! i" "causes st i = Some cs"
    and a: "searched st cs (acc[i := True]) acc1" and b: "searched st js acc1 acc2"
  shows "searched st (i # js) acc acc2"
proof -
  note A = searchedD [OF a] and B = searchedD [OF b]
  have l: "length acc1 = length acc" "length acc2 = length acc" using A(1) B(1) by simp_all
  have up: "acc2 ! k" if "k < length acc" "acc ! k \<or> k = i \<or> acc1 ! k" for k
    using that A(2) [of k] B(2) [of k] l i(1) by (auto simp: nth_list_update)
  have new: "(\<exists>cs. causes st k = Some cs \<and> (\<forall>c \<in> set cs. c < length acc \<and> acc2 ! c)) \<and> (\<exists>x \<in> set (i # js). (k, x) \<in> (cause_rel st)\<^sup>*)"
    if k: "k < length acc" "acc2 ! k" "\<not> acc ! k" for k
  proof (cases "acc1 ! k")
    case False
    then show ?thesis using B(4,5) [of k] k l by auto
  next
    case True
    show ?thesis
    proof (cases "k = i")
      case True
      have "c < length acc \<and> acc2 ! c" if "c \<in> set cs" for c using A(3) [OF that] B(2) [of c] l by simp
      then show ?thesis using True i(3) by auto
    next
      case False
      then have n: "k < length (acc[i := True])" "\<not> acc[i := True] ! k" using k by simp_all
      obtain ds where ds: "causes st k = Some ds" "\<forall>c \<in> set ds. c < length acc \<and> acc1 ! c" using A(4) [OF n(1) True n(2)] by auto
      obtain c where c: "c \<in> set cs" "(k, c) \<in> (cause_rel st)\<^sup>*" using A(5) [OF n(1) True n(2)] by auto
      have "(c, i) \<in> cause_rel st" using c(1) by (simp add: causes_cause_rel [OF i(3)])
      then have "(k, i) \<in> (cause_rel st)\<^sup>*" using c(2) by (rule rtrancl_into_rtrancl [rotated])
      moreover have "c < length acc \<and> acc2 ! c" if "c \<in> set ds" for c using ds(2) that up by blast
      ultimately show ?thesis using ds(1) by auto
    qed
  qed
  have "x < length acc \<and> acc2 ! x" if "x \<in> set (i # js)" for x using that up [of i] i(1) B(3) l by auto
  then show ?thesis using l up new unfolding searched_def by blast
qed

lemma searched_skip:
  assumes "i < length acc" "acc ! i" "searched st js acc acc1" shows "searched st (i # js) acc acc1"
  using assms searchedD(2) [OF assms(3)] unfolding searched_def by auto

lemma causal_past_1s_searched:
  assumes "causal_past_1s st is acc = Some acc1" shows "searched st is acc acc1"
proof (rule causal_past_1s.raw_induct [OF _ assms])
  fix search st "is" acc acc1
  assume IH: "\<And>st is acc acc1. search st is acc = Some acc1 \<Longrightarrow> searched st is acc acc1"
    and body: "(case is of [] \<Rightarrow> Some acc | i # js \<Rightarrow> if \<not> i < length acc then None else if acc ! i then search st js acc
      else causes st i \<bind> (\<lambda>cs. search st cs (acc[i := True]) \<bind> search st js)) = Some acc1"
  show "searched st is acc acc1"
  proof (cases "is")
    case Nil
    then show ?thesis using body by (simp add: searched_def)
  next
    case (Cons i js)
    have i: "i < length acc" using body Cons by (auto split: if_splits)
    show ?thesis
    proof (cases "acc ! i")
      case True
      then have "search st js acc = Some acc1" using body Cons i by simp
      then show ?thesis unfolding Cons using searched_skip [OF i True] IH by blast
    next
      case False
      obtain cs acc2 where cs: "causes st i = Some cs" "search st cs (acc[i := True]) = Some acc2" "search st js acc2 = Some acc1"
        using body Cons i False by (auto split: bind_splits)
      show ?thesis unfolding Cons using searched_visit [OF i False cs(1) IH [OF cs(2)] IH [OF cs(3)]] .
    qed
  qed
qed

text \<open>The search returns when every event has its causes in the prefix.\<close>

definition causes_ok :: "rfsc \<Rightarrow> bool" where
  "causes_ok st \<longleftrightarrow> (\<forall>i < length (rf_prefix st). rf_po_predecessor st i \<noteq> None \<and> (\<forall>q. (q, i) \<in> cause_rel st \<longrightarrow> q < length (rf_prefix st)))"

lemma causes_okD:
  assumes "causes_ok st" "i < length (rf_prefix st)"
  shows "\<exists>cs. causes st i = Some cs \<and> (\<forall>c \<in> set cs. c < length (rf_prefix st))"
proof -
  have "rf_po_predecessor st i \<noteq> None" using assms unfolding causes_ok_def by blast
  then obtain cs where cs: "causes st i = Some cs" by (auto simp: causes_def)
  then show ?thesis using assms unfolding causes_ok_def by (simp add: causes_cause_rel [OF cs])
qed

lemma searched_unmarked:
  assumes "searched st is acc acc1" shows "unmarked acc1 \<le> unmarked acc"
proof -
  note A = searchedD [OF assms]
  have "unmarked m = card {k. k < length m \<and> \<not> m ! k}" for m :: "bool list"
    unfolding unmarked_def by (simp add: length_filter_conv_card)
  moreover have "{k. k < length acc1 \<and> \<not> acc1 ! k} \<subseteq> {k. k < length acc \<and> \<not> acc ! k}" using A(1,2) by auto
  ultimately show ?thesis by (simp add: card_mono)
qed

lemma causal_past_1s_total:
  assumes ok: "causes_ok st" and "length acc = length (rf_prefix st)" "\<forall>i \<in> set is. i < length acc"
  shows "\<exists>acc1. causal_past_1s st is acc = Some acc1"
  using assms(2,3)
proof (induction "(is, acc)" arbitrary: "is" acc rule: wf_induct_rule [OF wf_measures [of "[\<lambda>x. unmarked (snd x), \<lambda>x. length (fst x)]"]])
  case 1
  note IH = "1.hyps" and len = "1.prems"(1) and range = "1.prems"(2)
  show ?case
  proof (cases "is")
    case Nil
    then show ?thesis by (simp add: causal_past_1s.simps)
  next
    case (Cons i js)
    have i: "i < length acc" using range Cons by simp
    show ?thesis
    proof (cases "acc ! i")
      case True
      have "\<exists>acc1. causal_past_1s st js acc = Some acc1" by (rule IH) (use Cons len range in \<open>simp_all\<close>)
      then show ?thesis using True i by (subst causal_past_1s.simps) (simp add: Cons)
    next
      case False
      obtain cs where cs: "causes st i = Some cs" "\<forall>c \<in> set cs. c < length (rf_prefix st)" using causes_okD [OF ok] i len by auto
      have less: "unmarked (acc[i := True]) < unmarked acc" by (rule unmarked_update_less [OF i False])
      obtain acc1 where acc1: "causal_past_1s st cs (acc[i := True]) = Some acc1" using IH [of cs "acc[i := True]"] less len cs(2) by auto
      note S = causal_past_1s_searched [OF acc1]
      have "length acc1 = length acc" using searchedD(1) [OF S] by simp
      then obtain acc2 where "causal_past_1s st js acc1 = Some acc2"
        using IH [of js acc1] searched_unmarked [OF S] less len range Cons by auto
      then show ?thesis using False i cs(1) acc1 by (subst causal_past_1s.simps) (simp add: Cons)
    qed
  qed
qed

section \<open>The causal past\<close>

text \<open>The decisions up to a depth.\<close>

definition decided :: "rfsc \<Rightarrow> int \<Rightarrow> nat \<Rightarrow> bool" where
  "decided st depth j \<longleftrightarrow> j < length (rf_prefix st) \<and> re_decision_depth (rfe st j) \<noteq> -1 \<and> re_decision_depth (rfe st j) \<le> depth"

text \<open>The marks after the loop has passed the events of \<open>js\<close>.\<close>

definition past_of :: "rfsc \<Rightarrow> nat set \<Rightarrow> bool list \<Rightarrow> bool" where
  "past_of st D acc \<longleftrightarrow> length acc = length (rf_prefix st) \<and> (\<forall>d \<in> D. d < length acc \<and> acc ! d) \<and>
     (\<forall>k < length acc. acc ! k \<longrightarrow> (\<exists>cs. causes st k = Some cs \<and> (\<forall>c \<in> set cs. c < length acc \<and> acc ! c)) \<and>
        (\<exists>d \<in> D. (k, d) \<in> (cause_rel st)\<^sup>*))"

lemma past_of_search:
  assumes "past_of st D acc" "searched st [i] acc acc1"
  shows "past_of st (insert i D) acc1"
proof -
  note A = searchedD [OF assms(2)]
  have l: "length acc1 = length acc" by (rule A(1))
  have D: "length acc = length (rf_prefix st)" "\<And>d. d \<in> D \<Longrightarrow> d < length acc \<and> acc ! d"
    "\<And>k. k < length acc \<Longrightarrow> acc ! k \<Longrightarrow> \<exists>cs. causes st k = Some cs \<and> (\<forall>c \<in> set cs. c < length acc \<and> acc ! c)"
    "\<And>k. k < length acc \<Longrightarrow> acc ! k \<Longrightarrow> \<exists>d \<in> D. (k, d) \<in> (cause_rel st)\<^sup>*"
    using assms(1) unfolding past_of_def by blast+
  have "(\<exists>cs. causes st k = Some cs \<and> (\<forall>c \<in> set cs. c < length acc \<and> acc1 ! c)) \<and> (\<exists>d \<in> insert i D. (k, d) \<in> (cause_rel st)\<^sup>*)"
    if k: "k < length acc" "acc1 ! k" for k
  proof (cases "acc ! k")
    case True
    obtain cs where "causes st k = Some cs" "\<forall>c \<in> set cs. c < length acc \<and> acc ! c" using D(3) [OF k(1) True] by blast
    then show ?thesis using A(2) D(4) [OF k(1) True] by auto
  next
    case False
    then show ?thesis using A(4,5) [OF k False] by auto
  qed
  moreover have "d < length acc \<and> acc1 ! d" if "d \<in> insert i D" for d using that A(2,3) D(2) by auto
  ultimately show ?thesis unfolding past_of_def l D(1) [symmetric] by blast
qed

lemma causal_past_loop:
  assumes "run_calls (causal_past_step st depth) is acc = Some acc1" "past_of st D acc"
  shows "past_of st (D \<union> {j \<in> set is. re_decision_depth (rfe st j) \<noteq> -1 \<and> re_decision_depth (rfe st j) \<le> depth}) acc1"
  using assms
proof (induction "is" arbitrary: acc D)
  case (Cons i js)
  let ?dec = "\<lambda>j. re_decision_depth (rfe st j) \<noteq> -1 \<and> re_decision_depth (rfe st j) \<le> depth"
  obtain acc2 where 2: "causal_past_step st depth i acc = Some acc2" "run_calls (causal_past_step st depth) js acc2 = Some acc1"
    using Cons.prems(1) by (auto split: bind_splits)
  show ?case
  proof (cases "?dec i")
    case True
    then have "causal_past_1s st [i] acc = Some acc2"
      using 2(1) by (auto simp: causal_past_step_def causal_past_1_def assertp_def Let_def split: if_splits)
    then have "past_of st (insert i D) acc2" using past_of_search [OF Cons.prems(2)] causal_past_1s_searched by blast
    moreover have "insert i D \<union> {j \<in> set js. ?dec j} = D \<union> {j \<in> set (i # js). ?dec j}" using True by auto
    ultimately show ?thesis using Cons.IH [OF 2(2), of "insert i D"] by (simp only:)
  next
    case False
    then have "acc2 = acc" using 2(1) by (auto simp: causal_past_step_def assertp_def Let_def split: if_splits)
    moreover have "{j \<in> set js. ?dec j} = {j \<in> set (i # js). ?dec j}" using False by auto
    ultimately show ?thesis using Cons.IH [OF 2(2), of D] Cons.prems(2) by (simp only:)
  qed
qed simp

lemma causal_past_past:
  assumes "causal_past st depth = Some keep"
  shows "past_of st {j. decided st depth j} keep"
proof -
  have "past_of st {} (replicate (length (rf_prefix st)) False)" by (simp add: past_of_def)
  note L = causal_past_loop [OF assms [unfolded causal_past_def] this]
  moreover have "{} \<union> {j \<in> set [0..<length (rf_prefix st)]. re_decision_depth (rfe st j) \<noteq> -1 \<and> re_decision_depth (rfe st j) \<le> depth} =
      {j. decided st depth j}" by (auto simp: decided_def)
  ultimately show ?thesis by simp
qed

lemma past_of_closed: "(k, j) \<in> (cause_rel st)\<^sup>* \<Longrightarrow> past_of st D keep \<Longrightarrow> j < length keep \<Longrightarrow> keep ! j \<Longrightarrow> k < length keep \<and> keep ! k"
proof (induction rule: converse_rtrancl_induct)
  case (step x y)
  then have "y < length keep" "keep ! y" by blast+
  then obtain cs where "causes st y = Some cs" "\<forall>c \<in> set cs. c < length keep \<and> keep ! c" using step.prems(1) by (auto simp: past_of_def)
  then show ?case using step.hyps(1) causes_cause_rel by blast
qed simp

section \<open>Properties\<close>

text \<open>
  C6. \<^verbatim>\<open>causal_past\<close> is the causal past. When every event of the prefix has its program order predecessor, source and other
  predecessors in the prefix, and exactly the loads have a decision or are pinned, the search returns, and it
  marks an event if and only if a decision up to the given depth is reachable from it along these edges.
\<close>

theorem causal_past_exact:
  assumes "causes_ok st"
    and "\<forall>i < length (rf_prefix st). \<not> (re_decision_depth (rfe st i) \<noteq> -1 \<and> re_pinned (rfe st i)) \<and>
      rf_is_load st i = (re_decision_depth (rfe st i) \<noteq> -1 \<or> re_pinned (rfe st i))"
  shows "\<exists>keep. causal_past st depth = Some keep \<and> length keep = length (rf_prefix st) \<and>
    (\<forall>i < length keep. keep ! i \<longleftrightarrow> (\<exists>j. decided st depth j \<and> (i, j) \<in> (cause_rel st)\<^sup>*))"
proof -
  have "\<exists>keep. run_calls (causal_past_step st depth) is acc = Some keep"
    if "\<forall>i \<in> set is. i < length (rf_prefix st)" "length acc = length (rf_prefix st)" for "is" acc
    using that
  proof (induction "is" arbitrary: acc)
    case (Cons i js)
    have i: "i < length (rf_prefix st)" using Cons.prems(1) by simp
    obtain acc0 where acc0: "causal_past_1s st [i] acc = Some acc0" "length acc0 = length acc"
      using causal_past_1s_total [OF assms(1) Cons.prems(2), of "[i]"] i Cons.prems(2) searchedD(1) [OF causal_past_1s_searched] by auto
    have "causal_past_step st depth i acc = Some (if decided st depth i then acc0 else acc)"
      using acc0(1) assms(2) i by (simp add: causal_past_step_def causal_past_1_def assertp_def Let_def decided_def)
    then show ?case using Cons acc0(2) by simp
  qed simp
  then obtain keep where keep: "causal_past st depth = Some keep" unfolding causal_past_def by fastforce
  note P = causal_past_past [OF keep]
  have "keep ! i \<longleftrightarrow> (\<exists>j. decided st depth j \<and> (i, j) \<in> (cause_rel st)\<^sup>*)" if "i < length keep" for i
    using P past_of_closed [OF _ P] that unfolding past_of_def by blast
  then show ?thesis using keep P unfolding past_of_def by blast
qed

theorem causal_past_exact_witness:
  "\<exists>w0 w keep. plan_world plan_calls = Some w0 \<and> compute_prefixes plan_env w0 = Some w \<and> causal_past (rw_st w) 0 = Some keep \<and>
     (\<forall>i < length keep. keep ! i \<longleftrightarrow> (\<exists>j. decided (rw_st w) 0 j \<and> (i, j) \<in> (cause_rel (rw_st w))\<^sup>*))"
proof -
  let ?ok = "\<lambda>st. list_all (\<lambda>i. (case causes st i of None \<Rightarrow> False | Some cs \<Rightarrow> list_all (\<lambda>c. c < length (rf_prefix st)) cs) \<and>
      \<not> (re_decision_depth (rfe st i) \<noteq> -1 \<and> re_pinned (rfe st i)) \<and>
      rf_is_load st i = (re_decision_depth (rfe st i) \<noteq> -1 \<or> re_pinned (rfe st i))) [0..<length (rf_prefix st)]"
  have "Option.bind (plan_world plan_calls) (\<lambda>w. map_option (\<lambda>w. ?ok (rw_st w)) (compute_prefixes plan_env w)) = Some True"
    by code_simp
  then obtain w0 w where w: "plan_world plan_calls = Some w0" "compute_prefixes plan_env w0 = Some w" "?ok (rw_st w)"
    by (auto split: bind_splits)
  have "rf_po_predecessor (rw_st w) i \<noteq> None \<and> (\<forall>q. (q, i) \<in> cause_rel (rw_st w) \<longrightarrow> q < length (rf_prefix (rw_st w)))"
    if i: "i < length (rf_prefix (rw_st w))" for i
  proof -
    obtain cs where cs: "causes (rw_st w) i = Some cs" "\<forall>c \<in> set cs. c < length (rf_prefix (rw_st w))"
      using bspec [OF w(3) [unfolded list_all_iff], of i] i by (cases "causes (rw_st w) i") (simp_all add: list_all_iff)
    then show ?thesis by (auto simp: causes_cause_rel [OF cs(1)] causes_def split: bind_splits)
  qed
  then have "causes_ok (rw_st w)" unfolding causes_ok_def by blast
  then show ?thesis
    using causal_past_exact [of "rw_st w" 0] w by (auto simp: list_all_iff)
qed

end
