(* ===== verification/RFSC_Formula.thy ===== *)
theory RFSC_Formula
  imports RFSC_Causal
begin

text \<open>
  The formula that \<^verbatim>\<open>output_formula\<close> (\<^verbatim>\<open>src/src/RFSCTraceBuilder.cpp\<close>) hands to a solver, and the order that is read off a
  model: the models are exactly the sequentially consistent orders of the kept events.
\<close>

section \<open>Models\<close>

fun satisfies :: "nat list \<Rightarrow> constraint \<Rightarrow> bool" where
  "satisfies model (Edge a b) \<longleftrightarrow> model ! a < model ! b"
| "satisfies model (EdgeDisj a b c d) \<longleftrightarrow> model ! a < model ! b \<or> model ! c < model ! d"

text \<open>A model places the variables on distinct positions from 0 on, and satisfies the constraints.\<close>

definition is_model :: "nat \<Rightarrow> constraint list \<Rightarrow> nat list \<Rightarrow> bool" where
  "is_model n cs model \<longleftrightarrow> length model = n \<and> distinct model \<and> (\<forall>x \<in> set model. x < n) \<and> list_all (satisfies model) cs"

section \<open>Variables\<close>

definition kept :: "bool list \<Rightarrow> nat list" where
  "kept keep = filter (\<lambda>i. keep ! i) [0..<length keep]"

lemma kept_snoc: "kept (keep @ [b]) = kept keep @ (if b then [length keep] else [])"
proof -
  have "filter ((!) (keep @ [b])) [0..<length keep] = filter ((!) keep) [0..<length keep]"
    by (rule filter_cong) (auto simp: nth_append)
  then show ?thesis by (simp add: kept_def)
qed

lemma length_kept: "length (kept keep) = no_keep keep"
  by (induction keep rule: rev_induct) (simp_all add: kept_snoc no_keep_def, simp add: kept_def)

lemma set_kept: "set (kept keep) = {i. i < length keep \<and> keep ! i}"
  by (auto simp: kept_def)

lemma distinct_kept: "distinct (kept keep)"
  by (simp add: kept_def)

lemma kept_take:
  assumes "i < length keep" shows "kept keep = kept (take i keep) @ filter (\<lambda>k. keep ! k) [i..<length keep]"
proof -
  have "[0..<length keep] = [0..<i] @ [i..<length keep]" using upt_add_eq_append [of 0 i "length keep - i"] assms by simp
  moreover have "filter (\<lambda>k. keep ! k) [0..<i] = filter (\<lambda>k. take i keep ! k) [0..<i]" by (rule filter_cong) auto
  ultimately show ?thesis using assms by (simp add: kept_def min_def)
qed

lemma kept_var:
  assumes "i < length keep" "keep ! i"
  shows "sat_var keep i < no_keep keep" "kept keep ! sat_var keep i = i"
proof -
  have v: "sat_var keep i = length (kept (take i keep))" by (simp add: sat_var_def length_kept no_keep_def)
  have "filter (\<lambda>k. keep ! k) [i..<length keep] = i # filter (\<lambda>k. keep ! k) [Suc i..<length keep]"
    using assms(2) by (simp add: upt_conv_Cons [OF assms(1)])
  then have k: "kept keep = kept (take i keep) @ i # filter (\<lambda>k. keep ! k) [Suc i..<length keep]" using kept_take [OF assms(1)] by simp
  show "kept keep ! sat_var keep i = i" unfolding v by (subst k) simp
  have "length (kept (take i keep)) < length (kept keep)" using arg_cong [OF k, of length] by simp
  then show "sat_var keep i < no_keep keep" by (simp add: v length_kept)
qed

lemma var_kept: "v < no_keep keep \<Longrightarrow> sat_var keep (kept keep ! v) = v"
proof -
  assume v: "v < no_keep keep"
  then have "kept keep ! v \<in> set (kept keep)" by (simp add: length_kept)
  then have "kept keep ! sat_var keep (kept keep ! v) = kept keep ! v" "sat_var keep (kept keep ! v) < no_keep keep"
    using kept_var by (auto simp: set_kept)
  then show ?thesis using v distinct_kept [of keep] by (simp add: nth_eq_iff_index_eq length_kept)
qed

section \<open>The order of a model\<close>

definition model_order :: "bool list \<Rightarrow> nat list \<Rightarrow> nat list \<Rightarrow> bool" where
  "model_order keep model order \<longleftrightarrow> length order = no_keep keep \<and> (\<forall>v < no_keep keep. model ! v < no_keep keep \<and> order ! (model ! v) = kept keep ! v)"

lemma place_events:
  assumes "length model = n" "distinct model" "\<forall>x \<in> set model. x < n" "k + length xs \<le> n" "length order = n"
  shows "\<exists>order1. run_calls (place_event model) (enumerate k xs) order = Some order1 \<and> length order1 = n \<and>
    (\<forall>v < length xs. order1 ! (model ! (k + v)) = xs ! v) \<and> (\<forall>p < n. p \<notin> (\<lambda>v. model ! (k + v)) ` {..<length xs} \<longrightarrow> order1 ! p = order ! p)"
  using assms(4,5)
proof (induction xs arbitrary: k order)
  case (Cons x xs)
  have k: "k < length model" "model ! k < length order" using Cons.prems assms(1,3) by auto
  obtain order1 where o: "run_calls (place_event model) (enumerate (Suc k) xs) (order[model ! k := x]) = Some order1" "length order1 = n"
    "\<forall>v < length xs. order1 ! (model ! (Suc k + v)) = xs ! v"
    "\<forall>p < n. p \<notin> (\<lambda>v. model ! (Suc k + v)) ` {..<length xs} \<longrightarrow> order1 ! p = order[model ! k := x] ! p"
    using Cons.IH [of "Suc k" "order[model ! k := x]"] Cons.prems by auto
  have "model ! k \<notin> (\<lambda>v. model ! (Suc k + v)) ` {..<length xs}"
    using assms(1,2) Cons.prems(1) by (auto simp: nth_eq_iff_index_eq)
  then have "order1 ! (model ! k) = x" using o(4) k Cons.prems(2) by auto
  moreover have "order1 ! p = order ! p" if "p < n" "p \<notin> (\<lambda>v. model ! (k + v)) ` {..<length (x # xs)}" for p
  proof -
    have "p \<noteq> model ! k" using that(2) by (force simp: image_iff)
    moreover have "p \<notin> (\<lambda>v. model ! (Suc k + v)) ` {..<length xs}" using that(2) by (force simp: image_iff)
    ultimately show ?thesis using o(4) that(1) by simp
  qed
  moreover have "order1 ! (model ! (k + v)) = (x # xs) ! v" if "v < length (x # xs)" for v
    using that o(3) calculation(1) by (cases v) auto
  moreover have "run_calls (place_event model) (enumerate k (x # xs)) order = Some order1"
    using o(1) k by (simp add: place_event_def assertp_def)
  ultimately show ?case using o(2) by blast
qed auto

lemma order_of_model_order:
  assumes "length model = no_keep keep" "distinct model" "\<forall>x \<in> set model. x < no_keep keep"
  shows "\<exists>order. order_of_model keep model = Some order \<and> model_order keep model order"
proof -
  have "filter (\<lambda>i. keep ! i) [0..<length keep] = kept keep" by (simp add: kept_def)
  then show ?thesis
    using place_events [OF assms, of 0 "kept keep" "replicate (no_keep keep) 0"] assms(1,3)
    by (fastforce simp: order_of_model_def model_order_def length_kept)
qed

section \<open>Sequentially consistent orders\<close>

definition precedes :: "'a list \<Rightarrow> 'a \<Rightarrow> 'a \<Rightarrow> bool" where
  "precedes order x y \<longleftrightarrow> (\<exists>i j. i < j \<and> j < length order \<and> order ! i = x \<and> order ! j = y)"

text \<open>The last element of \<open>ws\<close> before \<open>r\<close>, or \<open>-1\<close>.\<close>

definition last_write :: "nat list \<Rightarrow> nat set \<Rightarrow> nat \<Rightarrow> int" where
  "last_write order ws r = (let before_r = filter (\<lambda>j. j \<in> ws) (takeWhile (\<lambda>x. x \<noteq> r) order) in
     if before_r = [] then -1 else int (last before_r))"

text \<open>
  An order of the kept events is sequentially consistent when it follows program order and the other happens-after edges, and every
  event with a source reads from the last write to its address before it.
\<close>

definition sc_order :: "rfsc \<Rightarrow> (symaddr \<Rightarrow> int list) \<Rightarrow> bool list \<Rightarrow> nat list \<Rightarrow> bool" where
  "sc_order st writes keep order \<longleftrightarrow> distinct order \<and> set order = {i. i < length keep \<and> keep ! i} \<and>
     (\<forall>i \<in> set order. \<forall>q. rf_po_predecessor st i = Some (Some q) \<longrightarrow> precedes order q i) \<and>
     (\<forall>i \<in> set order. \<forall>j \<in> set (re_happens_after (rfe st i)). precedes order j i) \<and>
     (\<forall>r \<in> set order. \<forall>w a. re_read_from (rfe st r) = Some w \<longrightarrow> rf_get_addr st r = Some a \<longrightarrow>
        last_write order (nat ` set (writes (as_addr a))) r = w)"

lemma precedes_split:
  assumes "distinct (xs @ r # ys)"
  shows "precedes (xs @ r # ys) j r \<longleftrightarrow> j \<in> set xs" "precedes (xs @ r # ys) r j \<longleftrightarrow> j \<in> set ys"
proof -
  let ?o = "xs @ r # ys"
  have r: "k < length ?o \<Longrightarrow> ?o ! k = r \<longleftrightarrow> k = length xs" for k
    using nth_eq_iff_index_eq [OF assms, of k "length xs"] by simp
  show "precedes ?o j r \<longleftrightarrow> j \<in> set xs"
  proof
    assume "precedes ?o j r"
    then obtain i k where "i < k" "k < length ?o" "?o ! i = j" "?o ! k = r" by (auto simp: precedes_def)
    then show "j \<in> set xs" using r by (auto simp: nth_append)
  next
    assume "j \<in> set xs"
    then obtain i where "i < length xs" "xs ! i = j" by (auto simp: in_set_conv_nth)
    then show "precedes ?o j r" unfolding precedes_def by (intro exI [of _ i] exI [of _ "length xs"]) (auto simp: nth_append)
  qed
  show "precedes ?o r j \<longleftrightarrow> j \<in> set ys"
  proof
    assume "precedes ?o r j"
    then obtain i k where k: "i < k" "k < length ?o" "?o ! i = r" "?o ! k = j" by (auto simp: precedes_def)
    then have "i = length xs" using r by simp
    then obtain m where "k = Suc (length xs + m)" using k(1) less_iff_Suc_add by auto
    then show "j \<in> set ys" using k by (auto simp: nth_append)
  next
    assume "j \<in> set ys"
    then obtain i where "i < length ys" "ys ! i = j" by (auto simp: in_set_conv_nth)
    then show "precedes ?o r j" unfolding precedes_def
      by (intro exI [of _ "length xs"] exI [of _ "Suc (length xs + i)"]) (auto simp: nth_append)
  qed
qed

text \<open>The last write before a read in terms of the order: the two forms of the constraints.\<close>

lemma last_write_none:
  assumes "distinct order" "r \<in> set order"
  shows "last_write order ws r = -1 \<longleftrightarrow> (\<forall>j \<in> ws \<inter> set order. j \<noteq> r \<longrightarrow> precedes order r j)"
proof -
  obtain xs ys where o: "order = xs @ r # ys" using split_list [OF assms(2)] by blast
  have d: "distinct (xs @ r # ys)" using assms(1) o by simp
  have tw: "takeWhile (\<lambda>x. x \<noteq> r) order = xs" unfolding o using d by (subst takeWhile_append2) auto
  have lw: "last_write order ws r = -1 \<longleftrightarrow> (\<forall>x \<in> set xs. x \<notin> ws)" unfolding last_write_def Let_def tw by (simp add: filter_empty_conv)
  have pr: "precedes order r j \<longleftrightarrow> j \<in> set ys" for j unfolding o by (rule precedes_split(2) [OF d])
  have so: "set order = insert r (set xs \<union> set ys)" "r \<notin> set xs" "set xs \<inter> set ys = {}" using d by (auto simp: o)
  have "x \<notin> set ys \<and> x \<noteq> r" if "x \<in> set xs" for x using that so(2,3) by auto
  then show ?thesis unfolding lw pr so(1) by (intro iffI ballI impI) auto
qed

lemma last_write_some:
  assumes "distinct order" "r \<in> set order" "w \<in> ws" "w \<noteq> r"
  shows "last_write order ws r = int w \<longleftrightarrow>
    precedes order w r \<and> (\<forall>j \<in> ws \<inter> set order. j \<noteq> w \<and> j \<noteq> r \<longrightarrow> precedes order j w \<or> precedes order r j)"
proof -
  obtain xs ys where o: "order = xs @ r # ys" using split_list [OF assms(2)] by blast
  have d: "distinct (xs @ r # ys)" using assms(1) o by simp
  have tw: "takeWhile (\<lambda>x. x \<noteq> r) order = xs" unfolding o using d by (subst takeWhile_append2) auto
  note P = precedes_split [OF d]
  show ?thesis
  proof (cases "w \<in> set xs")
    case False
    then have "last_write order ws r \<noteq> int w"
      unfolding last_write_def Let_def tw by (auto dest!: last_in_set)
    then show ?thesis using False P(1) by (simp add: o)
  next
    case True
    then obtain us vs where x: "xs = us @ w # vs" using split_list by fast
    have d1: "distinct (us @ w # (vs @ r # ys))" using d x by simp
    have lw: "last_write order ws r = int w \<longleftrightarrow> (\<forall>j \<in> set vs. j \<notin> ws)"
    proof -
      have "filter (\<lambda>j. j \<in> ws) xs = filter (\<lambda>j. j \<in> ws) us @ w # filter (\<lambda>j. j \<in> ws) vs" using assms(3) by (simp add: x)
      moreover have "last (filter (\<lambda>j. j \<in> ws) vs) \<noteq> w" if "filter (\<lambda>j. j \<in> ws) vs \<noteq> []"
        using last_in_set [OF that] d1 by auto
      ultimately show ?thesis unfolding last_write_def Let_def tw by (auto simp: filter_empty_conv)
    qed
    have pw: "precedes order j w \<longleftrightarrow> j \<in> set us" for j using precedes_split(1) [OF d1] by (simp add: o x)
    have pr: "precedes order j r \<longleftrightarrow> j \<in> set xs" "precedes order r j \<longleftrightarrow> j \<in> set ys" for j using P by (simp_all add: o)
    have so: "set order = insert w (insert r (set us \<union> set vs \<union> set ys))" "w \<notin> set vs" "r \<notin> set vs"
      "set vs \<inter> set us = {}" "set vs \<inter> set ys = {}" using d1 by (auto simp: o x)
    have "j \<notin> set us \<and> j \<notin> set ys \<and> j \<noteq> w \<and> j \<noteq> r" if "j \<in> set vs" for j using that so(2-5) by auto
    then show ?thesis unfolding lw pw pr so(1) using True by (intro iffI conjI ballI impI) auto
  qed
qed

text \<open>The positions of the events are the values of their variables.\<close>

lemma model_order_set:
  assumes "model_order keep model order"
  shows "distinct order" "set order = {i. i < length keep \<and> keep ! i}"
proof -
  have sub: "set (kept keep) \<subseteq> set order"
  proof
    fix x assume "x \<in> set (kept keep)"
    then obtain v where "v < no_keep keep" "kept keep ! v = x" by (auto simp: in_set_conv_nth length_kept)
    then show "x \<in> set order" using assms by (metis model_order_def nth_mem)
  qed
  have c: "card (set (kept keep)) = length order" using assms distinct_card [OF distinct_kept] by (simp add: model_order_def length_kept)
  then have e: "card (set order) = length order" using card_mono [OF _ sub] card_length [of order] by simp
  then show "distinct order" by (rule card_distinct)
  show "set order = {i. i < length keep \<and> keep ! i}" using card_subset_eq [OF _ sub] c e by (simp add: set_kept)
qed

lemma model_order_precedes:
  assumes m: "model_order keep model order" and a: "a < length keep" "keep ! a" and b: "b < length keep" "keep ! b"
  shows "model ! sat_var keep a < model ! sat_var keep b \<longleftrightarrow> precedes order a b"
proof -
  have at: "model ! sat_var keep x < length order \<and> order ! (model ! sat_var keep x) = x" if "x < length keep" "keep ! x" for x
    using m kept_var [OF that] by (simp add: model_order_def)
  have pos: "k = model ! sat_var keep x" if "k < length order" "order ! k = x" "x < length keep" "keep ! x" for k x
    using that at [of x] nth_eq_iff_index_eq [OF model_order_set(1) [OF m]] by metis
  show ?thesis
  proof
    assume "model ! sat_var keep a < model ! sat_var keep b"
    then show "precedes order a b" using at [OF a] at [OF b] unfolding precedes_def by blast
  next
    assume "precedes order a b"
    then obtain i j where "i < j" "j < length order" "order ! i = a" "order ! j = b" by (auto simp: precedes_def)
    then show "model ! sat_var keep a < model ! sat_var keep b" using pos [of i a] pos [of j b] a b by simp
  qed
qed

text \<open>Every order of the kept events is the order of the model of its positions.\<close>

lemma order_has_model:
  assumes d: "distinct order" and s: "set order = {i. i < length keep \<and> keep ! i}"
  defines "model \<equiv> map (find_pos order) (kept keep)"
  shows "length model = no_keep keep" "distinct model" "\<forall>x \<in> set model. x < no_keep keep" "model_order keep model order"
    "order_of_model keep model = Some order"
proof -
  have so: "set order = set (kept keep)" using s by (simp add: set_kept)
  have lo: "length order = no_keep keep" using distinct_card [OF d] distinct_card [OF distinct_kept] so length_kept by metis
  note pos = find_pos_nth [of _ order, unfolded so]
  show l: "length model = no_keep keep" by (simp add: model_def length_kept)
  have "inj_on (find_pos order) (set (kept keep))" using pos by (metis inj_onI)
  then show dm: "distinct model" by (simp add: model_def distinct_map distinct_kept)
  show r: "\<forall>x \<in> set model. x < no_keep keep" using pos lo by (auto simp: model_def)
  show m: "model_order keep model order"
    using pos lo by (auto simp: model_order_def model_def length_kept)
  obtain order1 where o: "order_of_model keep model = Some order1" "model_order keep model order1"
    using order_of_model_order [OF l dm r] by blast
  have "order1 = order"
  proof (rule nth_equalityI)
    show "length order1 = length order" using o(2) lo by (simp add: model_order_def)
    fix q assume "q < length order1"
    then have q: "q < length order" using o(2) lo by (simp add: model_order_def)
    then obtain v where v: "v < no_keep keep" "kept keep ! v = order ! q" using so nth_mem [OF q] by (metis in_set_conv_nth length_kept)
    have "find_pos order (order ! q) = q" using find_pos_nth [OF nth_mem [OF q]] nth_eq_iff_index_eq [OF d _ q] by blast
    then have "model ! v = q" using v by (simp add: model_def length_kept)
    then show "order1 ! q = order ! q" using o(2) v by (auto simp: model_order_def)
  qed
  then show "order_of_model keep model = Some order" using o(1) by simp
qed

section \<open>Constraints\<close>

lemma add_constraints_run:
  "run_calls (add_constraints f) is cs = Some cs1 \<Longrightarrow>
    list_all P cs1 \<longleftrightarrow> list_all P cs \<and> (\<forall>i \<in> set is. \<exists>ds. f i = Some ds \<and> list_all P ds)"
proof (induction "is" arbitrary: cs)
  case (Cons i "is")
  obtain ds where "f i = Some ds" "run_calls (add_constraints f) is (cs @ ds) = Some cs1"
    using Cons.prems by (cases "f i") (auto simp: add_constraints_def [of f i])
  then show ?case using Cons.IH by auto
qed simp

lemma add_constraints_some: "run_calls (add_constraints f) is cs = Some cs1 \<Longrightarrow> i \<in> set is \<Longrightarrow> \<exists>ds. f i = Some ds"
  using add_constraints_run [of f "is" cs cs1 "\<lambda>_. True"] by (auto simp: list_all_iff)

text \<open>The sources and writes that the formula is about are in the prefix.\<close>

definition sources_listed :: "rfsc \<Rightarrow> (symaddr \<Rightarrow> int list) \<Rightarrow> bool list \<Rightarrow> bool" where
  "sources_listed st writes keep = list_all (\<lambda>r. keep ! r \<longrightarrow> (case re_read_from (rfe st r) of
       None \<Rightarrow> True
     | Some w \<Rightarrow> (case rf_get_addr st r of
         None \<Rightarrow> True
       | Some a \<Rightarrow> (w = -1 \<or> w \<in> set (writes (as_addr a))) \<and>
           list_all (\<lambda>x. 0 \<le> x \<and> nat x < length (rf_prefix st)) (writes (as_addr a))))) [0..<length (rf_prefix st)]"

lemma sources_listedD:
  assumes "sources_listed st writes keep" "r < length (rf_prefix st)" "keep ! r" "re_read_from (rfe st r) = Some w" "rf_get_addr st r = Some a"
  shows "w = -1 \<or> w \<in> set (writes (as_addr a))" "x \<in> set (writes (as_addr a)) \<Longrightarrow> 0 \<le> x \<and> nat x < length (rf_prefix st)"
  using assms by (auto simp: sources_listed_def list_all_iff)

lemma po_constraint_sat:
  assumes m: "model_order keep model order" and p: "past_of st D keep" and i: "i < length keep" "keep ! i"
    and c: "po_constraint st keep i = Some ds"
  shows "list_all (satisfies model) ds \<longleftrightarrow> (\<forall>q. rf_po_predecessor st i = Some (Some q) \<longrightarrow> precedes order q i)"
proof -
  obtain x where x: "rf_po_predecessor st i = Some x" using c i(2) by (auto simp: po_constraint_def split: bind_splits)
  show ?thesis
  proof (cases x)
    case None
    then show ?thesis using c i(2) x by (simp add: po_constraint_def)
  next
    case (Some q)
    have "(q, i) \<in> cause_rel st" using x Some by (simp add: cause_rel_def)
    then have "q < length keep \<and> keep ! q" using past_of_closed [OF r_into_rtrancl p i] by blast
    moreover have "ds = [Edge (sat_var keep q) (sat_var keep i)]" using c i(2) x Some by (auto simp: po_constraint_def assertp_def split: if_splits)
    ultimately show ?thesis using x Some model_order_precedes [OF m _ _ i] by simp
  qed
qed

lemma ha_constraint_sat:
  assumes m: "model_order keep model order" and p: "past_of st D keep" and i: "i < length keep" "keep ! i"
    and c: "ha_constraint st keep i = Some ds"
  shows "list_all (satisfies model) ds \<longleftrightarrow> (\<forall>j \<in> set (re_happens_after (rfe st i)). precedes order j i)"
proof -
  have "j < length keep \<and> keep ! j" if "j \<in> set (re_happens_after (rfe st i))" for j
  proof -
    have "(j, i) \<in> cause_rel st" using that by (simp add: cause_rel_def)
    then show ?thesis using past_of_closed [OF r_into_rtrancl p i] by blast
  qed
  then show ?thesis using c i(2) model_order_precedes [OF m _ _ i] by (auto simp: ha_constraint_def list_all_iff)
qed

lemma rf_constraint_sat:
  assumes m: "model_order keep model order" and p: "past_of st D keep" and l: "sources_listed st writes keep"
    and i: "r < length keep" "keep ! r" and c: "rf_constraint st writes keep r = Some ds"
  shows "list_all (satisfies model) ds \<longleftrightarrow> (\<forall>w a. re_read_from (rfe st r) = Some w \<longrightarrow> rf_get_addr st r = Some a \<longrightarrow>
    last_write order (nat ` set (writes (as_addr a))) r = w)"
proof (cases "re_read_from (rfe st r)")
  case None
  then show ?thesis using c by (simp add: rf_constraint_def)
next
  case (Some w)
  obtain a where a: "rf_get_addr st r = Some a" and rw: "int r \<noteq> w"
    using c Some i(2) by (auto simp: rf_constraint_def assertp_def split: if_splits bind_splits)
  let ?ws = "nat ` set (writes (as_addr a))" and ?v = "sat_var keep"
  have len: "length keep = length (rf_prefix st)" using p by (simp add: past_of_def)
  note L = sources_listedD [OF l i(1) [unfolded len] i(2) Some a]
  note O = model_order_set [OF m] and M = model_order_precedes [OF m]
  have r: "r \<in> set order" using i O(2) by simp
  have js: "j \<in> ?ws \<Longrightarrow> j < length keep" for j using L(2) len by auto
  have set: "j \<in> ?ws \<inter> set order \<longleftrightarrow> j \<in> ?ws \<and> keep ! j" for j using js O(2) by blast
  show ?thesis
  proof (cases "w = -1")
    case True
    then have ds: "ds = map (\<lambda>j. Edge (?v r) (?v j)) (filter (\<lambda>j. \<not> (j = r \<or> \<not> keep ! j)) (map nat (writes (as_addr a))))"
      using c Some i(2) a by (simp add: rf_constraint_def assertp_def)
    have "list_all (satisfies model) ds \<longleftrightarrow> (\<forall>j \<in> ?ws. keep ! j \<and> j \<noteq> r \<longrightarrow> model ! ?v r < model ! ?v j)"
      by (auto simp: ds list_all_iff)
    also have "\<dots> \<longleftrightarrow> (\<forall>j \<in> ?ws \<inter> set order. j \<noteq> r \<longrightarrow> precedes order r j)"
      using M [OF i] js set by meson
    finally show ?thesis using last_write_none [OF O(1) r] Some a True by simp
  next
    case False
    have "w \<in> set (writes (as_addr a))" using L(1) False by simp
    then have w: "nat w \<in> ?ws" "int (nat w) = w" using L(2) by auto
    have "(nat w, r) \<in> cause_rel st" using Some False by (auto simp: cause_rel_def)
    then have k: "nat w < length keep" "keep ! nat w" using past_of_closed [OF r_into_rtrancl p i] by blast+
    have ds: "ds = Edge (?v (nat w)) (?v r) # map (\<lambda>j. EdgeDisj (?v j) (?v (nat w)) (?v r) (?v j))
        (filter (\<lambda>j. \<not> (j = nat w \<or> j = r \<or> \<not> keep ! j)) (map nat (writes (as_addr a))))"
      using c Some i(2) a False by (auto simp: rf_constraint_def assertp_def split: if_splits)
    have "list_all (satisfies model) ds \<longleftrightarrow> model ! ?v (nat w) < model ! ?v r \<and>
        (\<forall>j \<in> ?ws. keep ! j \<longrightarrow> j \<noteq> nat w \<and> j \<noteq> r \<longrightarrow> model ! ?v j < model ! ?v (nat w) \<or> model ! ?v r < model ! ?v j)"
      by (auto simp: ds list_all_iff)
    also have "\<dots> \<longleftrightarrow> precedes order (nat w) r \<and>
        (\<forall>j \<in> ?ws \<inter> set order. j \<noteq> nat w \<and> j \<noteq> r \<longrightarrow> precedes order j (nat w) \<or> precedes order r j)"
      using M [OF k i] M [OF i] M [OF _ _ k] js set by meson
    finally show ?thesis using last_write_some [OF O(1) r w(1)] rw w(2) Some a by auto
  qed
qed

lemma formula_sat:
  assumes p: "past_of st D keep" and l: "sources_listed st writes keep" and f: "output_formula st writes keep = Some (n, cs)"
    and m: "model_order keep model order"
  shows "list_all (satisfies model) cs \<longleftrightarrow> sc_order st writes keep order"
proof -
  let ?is = "[0..<length (rf_prefix st)]"
  obtain c1 c2 where c: "run_calls (add_constraints (po_constraint st keep)) ?is [] = Some c1"
    "run_calls (add_constraints (rf_constraint st writes keep)) ?is c1 = Some c2"
    "run_calls (add_constraints (ha_constraint st keep)) ?is c2 = Some cs"
    using f by (auto simp: output_formula_def Let_def split: bind_splits)
  have len: "length keep = length (rf_prefix st)" using p by (simp add: past_of_def)
  note O = model_order_set [OF m]
  have all: "list_all (satisfies model) cs \<longleftrightarrow>
      (\<forall>i < length keep. (\<exists>ds. po_constraint st keep i = Some ds \<and> list_all (satisfies model) ds) \<and>
        (\<exists>ds. rf_constraint st writes keep i = Some ds \<and> list_all (satisfies model) ds) \<and>
        (\<exists>ds. ha_constraint st keep i = Some ds \<and> list_all (satisfies model) ds))"
    using add_constraints_run [OF c(1)] add_constraints_run [OF c(2)] add_constraints_run [OF c(3)] len by auto
  have unkept: "po_constraint st keep i = Some [] \<and> ha_constraint st keep i = Some [] \<and> rf_constraint st writes keep i = Some []"
    if "\<not> keep ! i" for i
    using that by (simp add: po_constraint_def ha_constraint_def rf_constraint_def split: option.split)
  have ok: "(\<exists>ds. po_constraint st keep i = Some ds) \<and> (\<exists>ds. rf_constraint st writes keep i = Some ds) \<and> (\<exists>ds. ha_constraint st keep i = Some ds)"
    if "i < length keep" for i
    using add_constraints_some [OF c(1)] add_constraints_some [OF c(2)] add_constraints_some [OF c(3)] that len by simp
  have iff: "(\<exists>ds. po_constraint st keep i = Some ds \<and> list_all (satisfies model) ds) \<and>
        (\<exists>ds. rf_constraint st writes keep i = Some ds \<and> list_all (satisfies model) ds) \<and>
        (\<exists>ds. ha_constraint st keep i = Some ds \<and> list_all (satisfies model) ds) \<longleftrightarrow>
      (keep ! i \<longrightarrow> (\<forall>q. rf_po_predecessor st i = Some (Some q) \<longrightarrow> precedes order q i) \<and>
        (\<forall>j \<in> set (re_happens_after (rfe st i)). precedes order j i) \<and>
        (\<forall>w a. re_read_from (rfe st i) = Some w \<longrightarrow> rf_get_addr st i = Some a \<longrightarrow>
          last_write order (nat ` set (writes (as_addr a))) i = w))" if i: "i < length keep" for i
  proof (cases "keep ! i")
    case False
    then show ?thesis using unkept by simp
  next
    case True
    obtain d1 d2 d3 where d: "po_constraint st keep i = Some d1" "rf_constraint st writes keep i = Some d2" "ha_constraint st keep i = Some d3"
      using ok [OF i] by blast
    show ?thesis
      using po_constraint_sat [OF m p i True d(1)] rf_constraint_sat [OF m p l i True d(2)] ha_constraint_sat [OF m p i True d(3)] True
      by (simp add: d) blast
  qed
  show ?thesis unfolding all sc_order_def O(2) using O(1) iff by blast
qed

section \<open>Properties\<close>

text \<open>
  C7. The formula for the solver is exact. Let \<^verbatim>\<open>keep\<close> be a causal past, and let \<^verbatim>\<open>writes_by_address\<close> list the sources of the kept events, with
  all its entries in the prefix. Then the order that is read off a model of the formula is a sequentially consistent
  order of exactly the kept events: it follows program order and the other happens-after edges, and every event
  with a source reads from the last write to its address before it. Conversely every such order comes from a model, so that
  an unsatisfiable formula means that there is none.
\<close>

theorem formula_exact:
  assumes "causal_past st depth = Some keep" "output_formula st writes keep = Some (n, cs)" "sources_listed st writes keep"
  shows "(\<forall>model. is_model n cs model \<longrightarrow> (\<exists>order. order_of_model keep model = Some order \<and> sc_order st writes keep order)) \<and>
    (\<forall>order. sc_order st writes keep order \<longrightarrow> (\<exists>model. is_model n cs model \<and> order_of_model keep model = Some order))"
proof -
  note F = formula_sat [OF causal_past_past [OF assms(1)] assms(3,2)]
  have n: "n = no_keep keep" using assms(2) by (auto simp: output_formula_def Let_def split: bind_splits)
  have "\<exists>order. order_of_model keep model = Some order \<and> sc_order st writes keep order" if "is_model n cs model" for model
    using order_of_model_order [of model keep] that F unfolding is_model_def n by blast
  moreover have "\<exists>model. is_model n cs model \<and> order_of_model keep model = Some order" if "sc_order st writes keep order" for order
  proof -
    have o: "distinct order" "set order = {i. i < length keep \<and> keep ! i}" using that by (simp_all add: sc_order_def)
    note M = order_has_model [OF o]
    have "list_all (satisfies (map (find_pos order) (kept keep))) cs" using F [OF M(4)] that by simp
    then show ?thesis using M unfolding is_model_def n by blast
  qed
  ultimately show ?thesis by blast
qed


text \<open>A thread is created, stores, and the new thread reads what was stored: the recorded order is a model.\<close>

theorem formula_exact_witness:
  "\<exists>w0 w keep n cs. plan_world plan_calls = Some w0 \<and> compute_prefixes plan_env w0 = Some w \<and> causal_past (rw_st w) 0 = Some keep \<and>
     output_formula (rw_st w) (rw_writes w) keep = Some (n, cs) \<and> is_model n cs [0, 1, 2] \<and>
     (\<exists>order. order_of_model keep [0, 1, 2] = Some order \<and> sc_order (rw_st w) (rw_writes w) keep order)"
proof -
  have "Option.bind (plan_world plan_calls) (\<lambda>w0. Option.bind (compute_prefixes plan_env w0) (\<lambda>w.
      Option.bind (causal_past (rw_st w) 0) (\<lambda>keep. map_option (\<lambda>(n, cs). is_model n cs [0, 1, 2] \<and> sources_listed (rw_st w) (rw_writes w) keep)
        (output_formula (rw_st w) (rw_writes w) keep)))) = Some True"
    by code_simp
  then obtain w0 w keep n cs where w: "plan_world plan_calls = Some w0" "compute_prefixes plan_env w0 = Some w"
      "causal_past (rw_st w) 0 = Some keep" "output_formula (rw_st w) (rw_writes w) keep = Some (n, cs)"
      "is_model n cs [0, 1, 2]" "sources_listed (rw_st w) (rw_writes w) keep"
    by (auto split: bind_splits)
  then show ?thesis using formula_exact [OF w(3,4,6)] by blast
qed

end
