(* ===== verification/MRefs.thy ===== *)
theory MRefs
  imports Prelude "HOL-Library.Multiset"
begin

text \<open>
  Memory references and reference counted blocks: \<^verbatim>\<open>src/src/MRef.h\<close> and \<^verbatim>\<open>src/src/MRef.cpp\<close>. Pointers
  are numbers (an overflowing pointer is undefined in the program). The blocks are modelled with
  the heap cells they share: the allocated memory, the counters, and the live \<^verbatim>\<open>MBlock\<close> objects;
  touching a freed cell gives \<open>None\<close>.
\<close>

section \<open>References\<close>

record mref =
  mr_ref :: nat
  mr_size :: int

definition mk_mref :: "nat \<Rightarrow> int \<Rightarrow> mref option" where
  "mk_mref r sz = (if 0 < sz then Some \<lparr>mr_ref = r, mr_size = sz\<rparr> else None)"

definition mr_subsetof :: "mref \<Rightarrow> mref \<Rightarrow> bool" where
  "mr_subsetof a mr = (mr_ref mr \<le> mr_ref a \<and> int (mr_ref a) + mr_size a \<le> int (mr_ref mr) + mr_size mr)"

definition mr_overlaps :: "mref \<Rightarrow> mref \<Rightarrow> bool" where
  "mr_overlaps a mr = (int (mr_ref a) < int (mr_ref mr) + mr_size mr \<and> int (mr_ref mr) < int (mr_ref a) + mr_size a)"

text \<open>The overloads of \<^verbatim>\<open>ConstMRef\<close> compute the same on the addresses.\<close>

definition cmr_subsetof :: "mref \<Rightarrow> mref \<Rightarrow> bool" where
  "cmr_subsetof a mr = (mr_ref mr \<le> mr_ref a \<and> int (mr_ref a) + mr_size a \<le> int (mr_ref mr) + mr_size mr)"

definition cmr_overlaps :: "mref \<Rightarrow> mref \<Rightarrow> bool" where
  "cmr_overlaps a mr = (int (mr_ref a) < int (mr_ref mr) + mr_size mr \<and> int (mr_ref mr) < int (mr_ref a) + mr_size a)"

definition mr_includes :: "mref \<Rightarrow> nat \<Rightarrow> bool" where
  "mr_includes a bptr = (mr_ref a \<le> bptr \<and> int bptr < int (mr_ref a) + mr_size a)"

definition mr_eq :: "mref \<Rightarrow> mref \<Rightarrow> bool" where
  "mr_eq a ml = (mr_ref a = mr_ref ml \<and> mr_size a = mr_size ml)"

definition mr_neq :: "mref \<Rightarrow> mref \<Rightarrow> bool" where
  "mr_neq a ml = (mr_ref a \<noteq> mr_ref ml \<or> mr_size a \<noteq> mr_size ml)"

definition mr_lt :: "mref \<Rightarrow> mref \<Rightarrow> bool" where
  "mr_lt a ml = (mr_ref a < mr_ref ml \<or> (mr_ref a = mr_ref ml \<and> mr_size a < mr_size ml))"

definition mr_le :: "mref \<Rightarrow> mref \<Rightarrow> bool" where
  "mr_le a ml = (mr_ref a \<le> mr_ref ml \<and> (mr_ref a \<noteq> mr_ref ml \<or> mr_size a \<le> mr_size ml))"

definition mr_gt :: "mref \<Rightarrow> mref \<Rightarrow> bool" where
  "mr_gt a ml = (mr_ref a > mr_ref ml \<or> (mr_ref a = mr_ref ml \<and> mr_size a > mr_size ml))"

definition mr_ge :: "mref \<Rightarrow> mref \<Rightarrow> bool" where
  "mr_ge a ml = (mr_ref a \<ge> mr_ref ml \<and> (mr_ref a \<noteq> mr_ref ml \<or> mr_size a \<ge> mr_size ml))"

text \<open>The iterator: \<^verbatim>\<open>ptr\<close> runs from \<^verbatim>\<open>ref\<close> to \<^verbatim>\<open>ref + size\<close>.\<close>

definition mr_iterator :: "mref \<Rightarrow> int \<Rightarrow> nat option" where
  "mr_iterator a i = (if 0 \<le> mr_size a \<and> 0 \<le> i \<and> i \<le> mr_size a then Some (mr_ref a + nat i) else None)"

function mr_iterate :: "nat \<Rightarrow> nat \<Rightarrow> nat list" where
  "mr_iterate ptr e = (if ptr \<ge> e then [] else ptr # mr_iterate (ptr + 1) e)"
  by pat_completeness auto
termination mr_iterate by (relation "measure (\<lambda>(ptr, e). e - ptr)") auto

declare mr_iterate.simps [simp del]

definition mr_bytes :: "mref \<Rightarrow> nat list option" where
  "mr_bytes a =
     (case (mr_iterator a 0, mr_iterator a (mr_size a)) of
        (Some b, Some e) \<Rightarrow> Some (mr_iterate b e) | _ \<Rightarrow> None)"

section \<open>Blocks\<close>

record mblock =
  mb_ref :: mref
  mb_block :: nat
  mb_counter :: "nat option"

record mb_state =
  mb_vars :: "nat \<Rightarrow> mblock option"
  mb_counters :: "nat \<Rightarrow> int option"
  mb_blocks :: "nat \<Rightarrow> int option"

text \<open>\<^verbatim>\<open>++*ptr_counter\<close>\<close>

definition mb_retain :: "mb_state \<Rightarrow> mblock \<Rightarrow> mb_state option" where
  "mb_retain st b =
     (case mb_counter b of
        None \<Rightarrow> Some st
      | Some c \<Rightarrow>
          (case mb_counters st c of
             None \<Rightarrow> None
           | Some n \<Rightarrow> Some (st\<lparr>mb_counters := (mb_counters st)(c \<mapsto> n + 1)\<rparr>)))"

text \<open>\<^verbatim>\<open>--*ptr_counter\<close>, and at 0 the block is freed and the counter deleted.\<close>

definition mb_release :: "mb_state \<Rightarrow> mblock \<Rightarrow> mb_state option" where
  "mb_release st b =
     (case mb_counter b of
        None \<Rightarrow> Some st
      | Some c \<Rightarrow>
          (case mb_counters st c of
             None \<Rightarrow> None
           | Some n \<Rightarrow>
               if n - 1 = 0 then
                 (if mb_blocks st (mb_block b) = None then None
                  else Some (st\<lparr>mb_counters := (mb_counters st)(c := None),
                                mb_blocks := (mb_blocks st)(mb_block b := None)\<rparr>))
               else Some (st\<lparr>mb_counters := (mb_counters st)(c \<mapsto> n - 1)\<rparr>)))"

text \<open>
  The constructors put an object in variable \<open>v\<close>. The addresses that \<^verbatim>\<open>malloc\<close> and \<^verbatim>\<open>new\<close> return are
  arguments.
\<close>

definition mb_alloc :: "mb_state \<Rightarrow> nat \<Rightarrow> mref \<Rightarrow> int \<Rightarrow> nat \<Rightarrow> nat \<Rightarrow> mb_state" where
  "mb_alloc st v r alloc_size blk cnt =
     st\<lparr>mb_vars := (mb_vars st)(v \<mapsto> \<lparr>mb_ref = r, mb_block = blk, mb_counter = Some cnt\<rparr>),
        mb_counters := (mb_counters st)(cnt \<mapsto> 1), mb_blocks := (mb_blocks st)(blk \<mapsto> alloc_size)\<rparr>"

definition mb_wrap :: "mb_state \<Rightarrow> nat \<Rightarrow> mref \<Rightarrow> mb_state" where
  "mb_wrap st v r = st\<lparr>mb_vars := (mb_vars st)(v \<mapsto> \<lparr>mb_ref = r, mb_block = mr_ref r, mb_counter = None\<rparr>)\<rparr>"

definition mb_copy :: "mb_state \<Rightarrow> nat \<Rightarrow> nat \<Rightarrow> mb_state option" where
  "mb_copy st v w =
     (case mb_vars st w of
        None \<Rightarrow> None
      | Some b \<Rightarrow> map_option (\<lambda>st'. st'\<lparr>mb_vars := (mb_vars st')(v \<mapsto> b)\<rparr>) (mb_retain st b))"

definition mb_assign :: "mb_state \<Rightarrow> nat \<Rightarrow> nat \<Rightarrow> mb_state option" where
  "mb_assign st v w =
     (if v = w then Some st
      else (case (mb_vars st v, mb_vars st w) of
              (Some a, Some b) \<Rightarrow>
                (case mb_retain st b of
                   None \<Rightarrow> None
                 | Some st1 \<Rightarrow>
                     map_option (\<lambda>st2. st2\<lparr>mb_vars := (mb_vars st2)(v \<mapsto> b)\<rparr>) (mb_release st1 a))
            | _ \<Rightarrow> None))"

definition mb_destroy :: "mb_state \<Rightarrow> nat \<Rightarrow> mb_state option" where
  "mb_destroy st v =
     (case mb_vars st v of
        None \<Rightarrow> None
      | Some b \<Rightarrow> map_option (\<lambda>st'. st'\<lparr>mb_vars := (mb_vars st')(v := None)\<rparr>) (mb_release st b))"

section \<open>References as sets of bytes\<close>

definition mr_set :: "mref \<Rightarrow> nat set" where
  "mr_set a = {p. mr_includes a p}"

lemma mr_overlaps_bytes:
  assumes "0 < mr_size a" "0 < mr_size b"
  shows "mr_overlaps a b \<longleftrightarrow> mr_set a \<inter> mr_set b \<noteq> {}"
proof -
  have "max (mr_ref a) (mr_ref b) \<in> mr_set a \<inter> mr_set b" if "mr_overlaps a b"
    using that assms by (auto simp: mr_overlaps_def mr_set_def mr_includes_def max_def)
  then show ?thesis by (intro iffI) (blast, auto simp: mr_overlaps_def mr_set_def mr_includes_def)
qed

lemma mr_subsetof_bytes:
  assumes "0 < mr_size a"
  shows "mr_subsetof a b \<longleftrightarrow> mr_set a \<subseteq> mr_set b"
proof
  assume sub: "mr_set a \<subseteq> mr_set b"
  have "mr_ref a \<in> mr_set a" "nat (int (mr_ref a) + mr_size a - 1) \<in> mr_set a"
    using assms by (auto simp: mr_set_def mr_includes_def)
  then show "mr_subsetof a b" using sub assms by (fastforce simp: mr_subsetof_def mr_set_def mr_includes_def)
qed (auto simp: mr_subsetof_def mr_set_def mr_includes_def)

lemma mr_iterate_upt: "mr_iterate p e = [p..<e]"
  by (induction p e rule: mr_iterate.induct) (subst mr_iterate.simps, auto simp: upt_conv_Cons)

lemma mr_bytes_eq:
  assumes "0 < mr_size a"
  shows "\<exists>bs. mr_bytes a = Some bs \<and> set bs = mr_set a \<and> ascending bs \<and> int (length bs) = mr_size a"
  using assms by (auto simp: mr_bytes_def mr_iterator_def mr_iterate_upt mr_set_def mr_includes_def
      sorted_wrt_upt)

text \<open>
  Memory references: for the non-empty references the constructor admits, \<^verbatim>\<open>overlaps\<close> holds iff
  there is a common byte and \<^verbatim>\<open>subsetof\<close> iff every byte of the first is in the second, for both
  reference classes; the iterator lists each byte once, in order; and the six comparison operators
  are those of one total order.
\<close>
lemma mref_ranges:
  assumes "mk_mref p n = Some a" "mk_mref q k = Some b"
  shows "(mr_overlaps a b \<longleftrightarrow> mr_set a \<inter> mr_set b \<noteq> {}) \<and> (mr_subsetof a b \<longleftrightarrow> mr_set a \<subseteq> mr_set b) \<and>
         (cmr_overlaps a b \<longleftrightarrow> mr_set a \<inter> mr_set b \<noteq> {}) \<and> (cmr_subsetof a b \<longleftrightarrow> mr_set a \<subseteq> mr_set b) \<and>
         (\<exists>bs. mr_bytes a = Some bs \<and> set bs = mr_set a \<and> ascending bs \<and> int (length bs) = mr_size a) \<and>
         (mr_eq a b \<longleftrightarrow> a = b) \<and> (mr_neq a b \<longleftrightarrow> a \<noteq> b) \<and> (mr_le a b \<longleftrightarrow> mr_lt a b \<or> mr_eq a b) \<and>
         (mr_gt a b \<longleftrightarrow> mr_lt b a) \<and> (mr_ge a b \<longleftrightarrow> mr_le b a) \<and> (mr_lt a b \<longleftrightarrow> \<not> mr_le b a)"
proof -
  have pos: "0 < mr_size a" "0 < mr_size b" using assms by (auto simp: mk_mref_def split: if_splits)
  have "cmr_overlaps a b = mr_overlaps a b" "cmr_subsetof a b = mr_subsetof a b"
    by (simp_all add: cmr_overlaps_def mr_overlaps_def cmr_subsetof_def mr_subsetof_def)
  then show ?thesis
    using mr_overlaps_bytes [OF pos] mr_subsetof_bytes [OF pos(1), of b] mr_bytes_eq [OF pos(1)]
    by (cases a; cases b) (auto simp: mr_eq_def mr_neq_def mr_le_def mr_lt_def mr_gt_def mr_ge_def)
qed

section \<open>Reference counts\<close>

text \<open>
  The references to counted memory: for each live object that owns its block, the pair of counter and
  block. \<open>counts_ok\<close> says that the heap agrees with them: a counter holds the number of references to
  it and exists iff there is one, counters and blocks correspond one to one, and the allocated
  blocks are the referenced ones.
\<close>

definition mb_own :: "mblock option \<Rightarrow> (nat \<times> nat) option" where
  "mb_own ob = (case ob of None \<Rightarrow> None | Some b \<Rightarrow> map_option (\<lambda>c. (c, mb_block b)) (mb_counter b))"

definition own_mset :: "(nat \<times> nat) option \<Rightarrow> (nat \<times> nat) multiset" where
  "own_mset p = (case p of None \<Rightarrow> {#} | Some q \<Rightarrow> {#q#})"

definition mb_refs :: "(nat \<Rightarrow> mblock option) \<Rightarrow> (nat \<times> nat) multiset" where
  "mb_refs vars = (\<Sum>v \<in> dom vars. own_mset (mb_own (vars v)))"

definition one_to_one :: "('a \<times> 'b) set \<Rightarrow> bool" where
  "one_to_one R \<longleftrightarrow> (\<forall>p \<in> R. \<forall>q \<in> R. fst p = fst q \<longleftrightarrow> snd p = snd q)"

definition counts_ok :: "(nat \<Rightarrow> int option) \<Rightarrow> (nat \<Rightarrow> int option) \<Rightarrow> (nat \<times> nat) multiset \<Rightarrow> bool" where
  "counts_ok counters blocks M \<longleftrightarrow>
     (\<forall>c. counters c = (let n = size {#p \<in># M. fst p = c#} in if n = 0 then None else Some (int n))) \<and>
     one_to_one (set_mset M) \<and> dom blocks = snd ` set_mset M"

definition mb_inv :: "mb_state \<Rightarrow> bool" where
  "mb_inv st \<longleftrightarrow> finite (dom (mb_vars st)) \<and> counts_ok (mb_counters st) (mb_blocks st) (mb_refs (mb_vars st))"

lemma counts_ok_in:
  assumes "counts_ok cs bs M" "p \<in># M"
  shows "\<exists>n. cs (fst p) = Some (int n) \<and> 0 < n \<and> n = size {#q \<in># M. fst q = fst p#}" "bs (snd p) \<noteq> None"
proof -
  have "p \<in># {#q \<in># M. fst q = fst p#}" using assms(2) by simp
  then have "size {#q \<in># M. fst q = fst p#} \<noteq> 0" by (metis empty_iff set_mset_empty size_eq_0_iff_empty)
  then show "\<exists>n. cs (fst p) = Some (int n) \<and> 0 < n \<and> n = size {#q \<in># M. fst q = fst p#}"
    using assms(1) unfolding counts_ok_def Let_def by (metis gr0I)
  show "bs (snd p) \<noteq> None" using assms by (auto simp: counts_ok_def)
qed

lemma counts_ok_fresh:
  assumes "counts_ok cs bs M" "cs c = None" "bs x = None"
  shows "counts_ok (cs(c \<mapsto> 1)) (bs(x \<mapsto> sz)) (add_mset (c, x) M)"
proof -
  have nc: "{#p \<in># M. fst p = c#} = {#}"
    using assms(1,2) by (auto simp: counts_ok_def Let_def split: if_splits)
  then have "\<forall>p \<in># M. fst p \<noteq> c" by auto
  moreover have "\<forall>p \<in># M. snd p \<noteq> x" using assms(1,3) by (auto simp: counts_ok_def)
  ultimately have "one_to_one (set_mset (add_mset (c, x) M))"
    using assms(1) by (auto simp: counts_ok_def one_to_one_def)
  then show ?thesis using assms(1) nc by (auto simp: counts_ok_def Let_def)
qed

lemma counts_ok_retain:
  assumes "counts_ok cs bs M" "p \<in># M" "cs (fst p) = Some n"
  shows "counts_ok (cs(fst p \<mapsto> n + 1)) bs (add_mset p M)"
proof -
  have "int (size {#q \<in># M. fst q = fst p#}) = n" using counts_ok_in(1) [OF assms(1,2)] assms(3) by auto
  moreover have "set_mset (add_mset p M) = set_mset M" using assms(2) by auto
  ultimately show ?thesis using assms(1) unfolding counts_ok_def by (auto simp: Let_def)
qed

lemma counts_ok_release:
  assumes ok: "counts_ok cs bs M" and p: "p \<in># M" and n: "cs (fst p) = Some n"
  shows "if n - 1 = 0 then counts_ok (cs(fst p := None)) (bs(snd p := None)) (M - {#p#})
         else counts_ok (cs(fst p \<mapsto> n - 1)) bs (M - {#p#})"
proof -
  define N where "N = M - {#p#}"
  have M: "M = add_mset p N" using p by (simp add: N_def)
  have size_n: "int (size {#q \<in># N. fst q = fst p#}) = n - 1"
    using counts_ok_in(1) [OF ok p] n by (auto simp: M)
  have oo: "one_to_one (set_mset M)" and dom: "dom bs = snd ` set_mset M"
    and cnt: "\<And>c. cs c = (let k = size {#q \<in># M. fst q = c#} in if k = 0 then None else Some (int k))"
    using ok by (auto simp: counts_ok_def)
  have oo': "one_to_one (set_mset N)" using oo by (auto simp: one_to_one_def M)
  have other: "cs c = (let k = size {#q \<in># N. fst q = c#} in if k = 0 then None else Some (int k))" if "c \<noteq> fst p" for c
    using cnt [of c] that by (simp add: M)
  show ?thesis
  proof (cases "n - 1 = 0")
    case True
    then have "{#q \<in># N. fst q = fst p#} = {#}" using size_n by simp
    then have "\<forall>q \<in># N. fst q \<noteq> fst p" by auto
    then have "\<forall>q \<in># N. snd q \<noteq> snd p" using oo by (auto simp: one_to_one_def M)
    then have "dom (bs(snd p := None)) = snd ` set_mset N" using dom by (auto simp: M)
    then show ?thesis
      using True other oo' \<open>{#q \<in># N. fst q = fst p#} = {#}\<close> unfolding N_def [symmetric] counts_ok_def
      by (auto simp: Let_def)
  next
    case False
    then have nz: "size {#q \<in># N. fst q = fst p#} \<noteq> 0" using size_n by linarith
    then obtain q where q: "q \<in># N" "fst q = fst p" by auto
    then have "q = p" using oo by (auto simp: one_to_one_def M prod_eq_iff)
    then have "dom bs = snd ` set_mset N" using dom q by (auto simp: M)
    then show ?thesis
      using False other oo' size_n nz unfolding N_def [symmetric] counts_ok_def
      by (simp add: Let_def del: filter_mset_eq_mempty_iff size_eq_0_iff_empty)
  qed
qed

text \<open>References of the variables after one of them changes.\<close>

lemma mb_refs_upd:
  assumes "finite (dom vars)" "vars v = None"
  shows "mb_refs (vars(v \<mapsto> b)) = own_mset (mb_own (Some b)) + mb_refs vars"
proof -
  have "v \<notin> dom vars" using assms(2) by auto
  moreover have "(\<Sum>w \<in> dom vars. own_mset (mb_own ((vars(v \<mapsto> b)) w))) = (\<Sum>w \<in> dom vars. own_mset (mb_own (vars w)))"
    using \<open>v \<notin> dom vars\<close> by (intro sum.cong) auto
  ultimately show ?thesis using assms(1) by (simp add: mb_refs_def)
qed

lemma mb_refs_split:
  assumes "finite (dom vars)" "vars v = Some a"
  shows "mb_refs vars = own_mset (mb_own (Some a)) + mb_refs (vars(v := None))"
proof -
  have "vars = (vars(v := None))(v \<mapsto> a)" using assms(2) by (auto simp: fun_eq_iff)
  moreover have "finite (dom (vars(v := None)))" using assms(1) by simp
  ultimately show ?thesis by (metis fun_upd_same mb_refs_upd)
qed

lemma mb_retain_ok:
  assumes "counts_ok (mb_counters st) (mb_blocks st) M" "own_mset (mb_own (Some b)) \<subseteq># M"
  shows "\<exists>st'. mb_retain st b = Some st' \<and> mb_vars st' = mb_vars st \<and>
     counts_ok (mb_counters st') (mb_blocks st') (own_mset (mb_own (Some b)) + M)"
proof (cases "mb_counter b")
  case (Some c)
  then have in_M: "(c, mb_block b) \<in># M" using assms(2) by (simp add: mb_own_def own_mset_def)
  obtain n where n: "mb_counters st c = Some n" using counts_ok_in(1) [OF assms(1) in_M] by auto
  then show ?thesis
    using Some counts_ok_retain [OF assms(1) in_M] by (simp add: mb_retain_def mb_own_def own_mset_def)
qed (use assms in \<open>simp add: mb_retain_def mb_own_def own_mset_def\<close>)

lemma mb_release_ok:
  assumes "counts_ok (mb_counters st) (mb_blocks st) (own_mset (mb_own (Some b)) + M)"
  shows "\<exists>st'. mb_release st b = Some st' \<and> mb_vars st' = mb_vars st \<and>
     counts_ok (mb_counters st') (mb_blocks st') M"
proof (cases "mb_counter b")
  case (Some c)
  let ?M = "add_mset (c, mb_block b) M"
  have ok: "counts_ok (mb_counters st) (mb_blocks st) ?M"
    using assms Some by (simp add: mb_own_def own_mset_def)
  obtain n where n: "mb_counters st c = Some n" using counts_ok_in(1) [OF ok, of "(c, mb_block b)"] by auto
  have "mb_blocks st (mb_block b) \<noteq> None" using counts_ok_in(2) [OF ok, of "(c, mb_block b)"] by simp
  then show ?thesis
    using Some n counts_ok_release [OF ok, of "(c, mb_block b)" n]
    by (cases "n - 1 = 0") (auto simp: mb_release_def)
qed (use assms in \<open>simp add: mb_release_def mb_own_def own_mset_def\<close>)

section \<open>Programs with blocks\<close>

text \<open>
  The operations of a program that respects object lifetimes: an object is constructed in a variable
  that holds none, and copied, assigned and destroyed while it lives; \<^verbatim>\<open>malloc\<close> and \<^verbatim>\<open>new\<close> return
  addresses that are not in use.
\<close>

datatype mb_op = MB_alloc nat mref int nat nat | MB_wrap nat mref | MB_copy nat nat | MB_assign nat nat | MB_destroy nat

fun mb_op_ok :: "mb_state \<Rightarrow> mb_op \<Rightarrow> bool" where
  "mb_op_ok st (MB_alloc v r sz blk cnt) = (mb_vars st v = None \<and> mb_blocks st blk = None \<and> mb_counters st cnt = None)"
| "mb_op_ok st (MB_wrap v r) = (mb_vars st v = None)"
| "mb_op_ok st (MB_copy v w) = (mb_vars st v = None \<and> mb_vars st w \<noteq> None)"
| "mb_op_ok st (MB_assign v w) = (mb_vars st v \<noteq> None \<and> mb_vars st w \<noteq> None)"
| "mb_op_ok st (MB_destroy v) = (mb_vars st v \<noteq> None)"

fun mb_exec :: "mb_state \<Rightarrow> mb_op \<Rightarrow> mb_state option" where
  "mb_exec st (MB_alloc v r sz blk cnt) = Some (mb_alloc st v r sz blk cnt)"
| "mb_exec st (MB_wrap v r) = Some (mb_wrap st v r)"
| "mb_exec st (MB_copy v w) = mb_copy st v w"
| "mb_exec st (MB_assign v w) = mb_assign st v w"
| "mb_exec st (MB_destroy v) = mb_destroy st v"

definition mb_init :: mb_state where
  "mb_init = \<lparr>mb_vars = (\<lambda>_. None), mb_counters = (\<lambda>_. None), mb_blocks = (\<lambda>_. None)\<rparr>"

inductive mb_run :: "mb_state \<Rightarrow> bool" where
  start: "mb_run mb_init"
| step: "mb_run st \<Longrightarrow> mb_op_ok st opr \<Longrightarrow> mb_exec st opr = Some st' \<Longrightarrow> mb_run st'"

lemma mb_copy_ok:
  assumes "mb_inv st" "mb_vars st v = None" "mb_vars st w = Some b"
  shows "\<exists>st'. mb_copy st v w = Some st' \<and> mb_inv st'"
proof -
  have "own_mset (mb_own (Some b)) \<subseteq># mb_refs (mb_vars st)"
    using mb_refs_split [of "mb_vars st" w b] assms by (simp add: mb_inv_def)
  from mb_retain_ok [OF _ this] assms(1) obtain st' where
    st': "mb_retain st b = Some st'" "mb_vars st' = mb_vars st"
      "counts_ok (mb_counters st') (mb_blocks st') (own_mset (mb_own (Some b)) + mb_refs (mb_vars st))"
    by (auto simp: mb_inv_def)
  then show ?thesis
    using assms mb_refs_upd [of "mb_vars st" v b] by (simp add: mb_copy_def mb_inv_def)
qed

lemma mb_destroy_ok:
  assumes "mb_inv st" "mb_vars st v = Some a"
  shows "\<exists>st'. mb_destroy st v = Some st' \<and> mb_inv st'"
proof -
  have "mb_refs (mb_vars st) = own_mset (mb_own (Some a)) + mb_refs ((mb_vars st)(v := None))"
    using mb_refs_split assms by (auto simp: mb_inv_def)
  then obtain st' where "mb_release st a = Some st'" "mb_vars st' = mb_vars st"
      "counts_ok (mb_counters st') (mb_blocks st') (mb_refs ((mb_vars st)(v := None)))"
    using mb_release_ok [of st a "mb_refs ((mb_vars st)(v := None))"] assms(1) by (auto simp: mb_inv_def)
  then show ?thesis using assms by (simp add: mb_destroy_def mb_inv_def)
qed

lemma mb_assign_ok:
  assumes "mb_inv st" "mb_vars st v = Some a" "mb_vars st w = Some b"
  shows "\<exists>st'. mb_assign st v w = Some st' \<and> mb_inv st'"
proof (cases "v = w")
  case False
  let ?vars = "(mb_vars st)(v := None)" and ?b = "own_mset (mb_own (Some b))"
  have fin: "finite (dom (mb_vars st))" using assms(1) by (simp add: mb_inv_def)
  have split: "mb_refs (mb_vars st) = own_mset (mb_own (Some a)) + mb_refs ?vars"
    using mb_refs_split fin assms(2) by blast
  have "?b \<subseteq># mb_refs (mb_vars st)" using mb_refs_split [OF fin assms(3)] by simp
  from mb_retain_ok [OF _ this] assms(1) obtain st1 where
    st1: "mb_retain st b = Some st1" "mb_vars st1 = mb_vars st"
      "counts_ok (mb_counters st1) (mb_blocks st1) (?b + mb_refs (mb_vars st))"
    by (auto simp: mb_inv_def)
  then have "counts_ok (mb_counters st1) (mb_blocks st1) (own_mset (mb_own (Some a)) + (?b + mb_refs ?vars))"
    by (simp add: split ac_simps)
  from mb_release_ok [OF this] obtain st2 where
    "mb_release st1 a = Some st2" "mb_vars st2 = mb_vars st" "counts_ok (mb_counters st2) (mb_blocks st2) (?b + mb_refs ?vars)"
    using st1(2) by auto
  then show ?thesis
    using False st1(1) assms fin mb_refs_upd [of ?vars v b] by (simp add: mb_assign_def mb_inv_def)
qed (use assms in \<open>simp add: mb_assign_def\<close>)

lemma mb_exec_ok:
  assumes "mb_inv st" "mb_op_ok st opr"
  shows "\<exists>st'. mb_exec st opr = Some st' \<and> mb_inv st'"
proof (cases opr)
  case (MB_alloc v r sz blk cnt)
  then show ?thesis
    using assms counts_ok_fresh [of "mb_counters st" "mb_blocks st" "mb_refs (mb_vars st)" cnt blk sz]
    by (simp add: mb_inv_def mb_alloc_def mb_refs_upd mb_own_def own_mset_def)
next
  case (MB_wrap v r)
  then show ?thesis using assms by (simp add: mb_inv_def mb_wrap_def mb_refs_upd mb_own_def own_mset_def)
qed (use assms mb_copy_ok mb_assign_ok mb_destroy_ok in auto)

lemma mb_init_inv: "mb_inv mb_init"
  by (simp add: mb_inv_def mb_init_def mb_refs_def counts_ok_def one_to_one_def)

lemma mb_run_inv: "mb_run st \<Longrightarrow> mb_inv st"
proof (induction rule: mb_run.induct)
  case (step st opr st')
  then show ?case using mb_exec_ok by fastforce
qed (rule mb_init_inv)

text \<open>
  C26. Memory safety of \<^verbatim>\<open>MBlock\<close>: in every program that respects object lifetimes no operation touches
  a freed counter or frees a block twice, every counter is the number of live objects that own its
  block, a block owned by a live object is allocated, and memory is allocated only while some live
  object owns it (no leak).
\<close>
theorem mblock_memory_safe:
  assumes "mb_run st" "mb_op_ok st opr"
  shows "\<exists>st'. mb_exec st opr = Some st' \<and>
     (\<forall>v b c. mb_vars st' v = Some b \<and> mb_counter b = Some c \<longrightarrow>
        mb_blocks st' (mb_block b) \<noteq> None \<and>
        mb_counters st' c = Some (int (size {#p \<in># mb_refs (mb_vars st'). fst p = c#}))) \<and>
     (\<forall>x. mb_blocks st' x \<noteq> None \<longrightarrow>
        (\<exists>v b c. mb_vars st' v = Some b \<and> mb_counter b = Some c \<and> mb_block b = x))"
proof -
  obtain st' where st': "mb_exec st opr = Some st'" and inv: "mb_inv st'"
    using mb_exec_ok [OF mb_run_inv [OF assms(1)] assms(2)] by blast
  let ?M = "mb_refs (mb_vars st')"
  have ok: "counts_ok (mb_counters st') (mb_blocks st') ?M" and fin: "finite (dom (mb_vars st'))"
    using inv by (auto simp: mb_inv_def)
  have in_refs: "p \<in># ?M \<longleftrightarrow> (\<exists>v b c. mb_vars st' v = Some b \<and> mb_counter b = Some c \<and> p = (c, mb_block b))" for p
    unfolding mb_refs_def set_mset_sum [OF fin] by (fastforce simp: own_mset_def mb_own_def split: option.splits)
  have "mb_blocks st' (mb_block b) \<noteq> None \<and> mb_counters st' c = Some (int (size {#p \<in># ?M. fst p = c#}))"
    if "mb_vars st' v = Some b" "mb_counter b = Some c" for v b c
    using counts_ok_in [OF ok, of "(c, mb_block b)"] that in_refs [of "(c, mb_block b)"] by auto
  moreover have "\<exists>v b c. mb_vars st' v = Some b \<and> mb_counter b = Some c \<and> mb_block b = x"
    if "mb_blocks st' x \<noteq> None" for x
  proof -
    have "x \<in> snd ` set_mset ?M" using ok that by (auto simp: counts_ok_def dom_def)
    then obtain p where "p \<in># ?M" "snd p = x" by auto
    then show ?thesis unfolding in_refs by (metis snd_conv)
  qed
  ultimately show ?thesis using st' by blast
qed

theorem mblock_memory_safe_witness:
  "\<exists>st'. mb_exec (mb_alloc mb_init 0 \<lparr>mr_ref = 8, mr_size = 4\<rparr> 4 100 200) (MB_destroy 0) = Some st'"
proof -
  have "mb_run (mb_alloc mb_init 0 \<lparr>mr_ref = 8, mr_size = 4\<rparr> 4 100 200)"
    by (rule mb_run.step [OF mb_run.start, of "MB_alloc 0 \<lparr>mr_ref = 8, mr_size = 4\<rparr> 4 100 200"])
      (simp_all add: mb_init_def)
  from mblock_memory_safe [OF this, of "MB_destroy 0"] show ?thesis by (auto simp: mb_alloc_def)
qed

end
