(* ===== verification/PSO.thy ===== *)
theory PSO
  imports Complex_Main SymAddrs VecSet VClocks "HOL-Library.AList"
begin

text \<open>
  The source-DPOR trace builder for PSO: \<^verbatim>\<open>src/src/PSOTraceBuilder.h\<close> and \<^verbatim>\<open>src/src/PSOTraceBuilder.cpp\<close>. The members of the class are the
  fields of the record \<open>pso\<close>, and every method is a function on it. A result \<open>None\<close> is a failed
  assertion (or an access that the assertions of the code are there to exclude). Vectors are lists,
  \<^verbatim>\<open>VecSet\<close>, \<^verbatim>\<open>VClock\<close> and \<^verbatim>\<open>CPidSystem\<close> are the models of these classes, and a \<^verbatim>\<open>std::map\<close> is an
  association list, of which no operation here depends on the order of the keys. Threads and
  clocks are numbers; reading a missing key with \<^verbatim>\<open>operator[]\<close> gives the default value (the default
  entry that the code inserts then is not recorded: it reads the same); positions in the prefix are integers, with negative ones for \<open>none\<close>. Pointers to
  metadata are opaque numbers.
\<close>

section \<open>State\<close>

type_synonym ipid = nat

datatype access_type = Acc_R | Acc_W | Acc_W_ALL_MEMORY | Acc_NA

record pending_store_byte =
  pb_ml :: symaddrsize
  pb_clock :: vclock
  pb_last_rowe :: int
  pb_md :: nat

record pso_thread =
  th_proc :: nat
  th_cpid :: cpid
  th_available :: bool
  th_clock :: vclock
  th_parent :: int
  th_aux_to_byte :: "symaddr list"
  th_byte_to_aux :: "(symaddr \<times> nat) list"
  th_aux_to_ipid :: "ipid list"
  th_store_buffers :: "(symaddr \<times> pending_store_byte list) list"
  th_aux_clock_sum :: vclock
  th_sleeping :: bool
  th_sleep_accesses_r :: "symaddr vecset"
  th_sleep_accesses_w :: "symaddr vecset"
  th_sleep_full_memory_conflict :: bool

definition Thread :: "nat \<Rightarrow> cpid \<Rightarrow> vclock \<Rightarrow> int \<Rightarrow> pso_thread" where
  "Thread proc c clk parent =
     \<lparr>th_proc = proc, th_cpid = c, th_available = True, th_clock = clk, th_parent = parent, th_aux_to_byte = [],
      th_byte_to_aux = [], th_aux_to_ipid = [], th_store_buffers = [], th_aux_clock_sum = [], th_sleeping = False,
      th_sleep_accesses_r = [], th_sleep_accesses_w = [], th_sleep_full_memory_conflict = False\<rparr>"

text \<open>The assertion of \<^verbatim>\<open>all_buffers_empty\<close>: no buffer in the map is empty.\<close>

definition all_buffers_empty :: "pso_thread \<Rightarrow> bool option" where
  "all_buffers_empty t = do {
     assertp (list_all (\<lambda>(b, sb). sb \<noteq> []) (th_store_buffers t));
     Some (th_store_buffers t = [])
   }"

record byte_info =
  bi_last_update :: int
  bi_last_update_ml :: symaddrsize
  bi_last_read :: "int list"

definition ByteInfo :: byte_info where
  "ByteInfo = \<lparr>bi_last_update = -1,
     bi_last_update_ml = \<lparr>as_addr = \<lparr>sa_block = \<lparr>sb_pid = 65535, sb_alloc = 0\<rparr>, sa_offset = 0\<rparr>, as_size = 1\<rparr>,
     bi_last_read = []\<rparr>"

definition last_read_set :: "int list \<Rightarrow> nat \<Rightarrow> int \<Rightarrow> int list" where
  "last_read_set v i x = (if length v \<le> i then resize (i + 1) (-1) v else v)[i := x]"

record pso_mutex =
  mx_last_access :: int
  mx_last_lock :: int
  mx_locked :: bool

definition Mutex :: pso_mutex where
  "Mutex = \<lparr>mx_last_access = -1, mx_last_lock = -1, mx_locked = False\<rparr>"

record pso_condvar =
  cd_last_signal :: int
  cd_waiters :: "int list"

definition CondVar :: "int \<Rightarrow> pso_condvar" where
  "CondVar init_idx = \<lparr>cd_last_signal = init_idx, cd_waiters = []\<rparr>"

text \<open>A branch is a pair of a thread and an alternative, ordered lexicographically.\<close>

type_synonym branch = "ipid \<times> nat"

record pso_event =
  pe_iid :: "ipid \<times> nat"
  pe_origin_iid :: "ipid \<times> nat"
  pe_size :: nat
  pe_alt :: nat
  pe_md :: nat
  pe_clock :: vclock
  pe_may_conflict :: bool
  pe_branch :: "branch vecset"
  pe_sleep :: "ipid vecset"
  pe_wakeup :: "ipid vecset"
  pe_sleep_branch_trace_count :: nat

definition Event :: "ipid \<times> nat \<Rightarrow> vclock \<Rightarrow> pso_event" where
  "Event i clk =
     \<lparr>pe_iid = i, pe_origin_iid = i, pe_size = 1, pe_alt = 0, pe_md = 0, pe_clock = clk, pe_may_conflict = False,
      pe_branch = [], pe_sleep = [], pe_wakeup = [], pe_sleep_branch_trace_count = 0\<rparr>"

record pso =
  threads :: "pso_thread list"
  proc_to_ipid :: "ipid list"
  CPS :: cpid_system
  sleepers :: "ipid vecset"
  available_threads :: "ipid vecset"
  available_auxs :: "ipid vecset"
  mem :: "(symaddr \<times> byte_info) list"
  last_full_memory_conflict :: int
  mutexes :: "(symaddr \<times> pso_mutex) list"
  cond_vars :: "(symaddr \<times> pso_condvar) list"
  prefix :: "pso_event list"
  dry_sleepers :: nat
  prefix_idx :: int
  dryrun :: bool
  replay :: bool
  last_md :: nat
  errors :: "((cpid \<times> nat) \<times> string) list"
  max_search_depth :: int

text \<open>
  The constructor, for a configured \<^verbatim>\<open>max_search_depth\<close>. It leaves \<^verbatim>\<open>dry_sleepers\<close> unset: its value
  is the argument \<open>d\<close>.
\<close>

definition PSOTraceBuilder :: "int \<Rightarrow> nat \<Rightarrow> pso" where
  "PSOTraceBuilder depth d =
     \<lparr>threads = [Thread 0 CPid [] (-1)], proc_to_ipid = [0], CPS = CPidSystem, sleepers = [],
      available_threads = fst (vs_insert 0 []), available_auxs = [], mem = [], last_full_memory_conflict = -1,
      mutexes = [], cond_vars = [], prefix = [], dry_sleepers = d, prefix_idx = -1, dryrun = False, replay = False,
      last_md = 0, errors = [], max_search_depth = depth\<rparr>"

section \<open>Access to the state\<close>

abbreviation th :: "pso \<Rightarrow> ipid \<Rightarrow> pso_thread" where
  "th st p \<equiv> threads st ! p"

definition upd_th :: "ipid \<Rightarrow> (pso_thread \<Rightarrow> pso_thread) \<Rightarrow> pso \<Rightarrow> pso" where
  "upd_th p f st = st\<lparr>threads := (threads st)[p := f (threads st ! p)]\<rparr>"

abbreviation ev :: "pso \<Rightarrow> int \<Rightarrow> pso_event" where
  "ev st i \<equiv> prefix st ! nat i"

definition upd_ev :: "int \<Rightarrow> (pso_event \<Rightarrow> pso_event) \<Rightarrow> pso \<Rightarrow> pso" where
  "upd_ev i f st = st\<lparr>prefix := (prefix st)[nat i := f (prefix st ! nat i)]\<rparr>"

definition curnode :: "pso \<Rightarrow> pso_event option" where
  "curnode st = do {
     assertp (0 \<le> prefix_idx st);
     assertp (prefix_idx st < int (length (prefix st)));
     Some (ev st (prefix_idx st))
   }"

abbreviation upd_cur :: "(pso_event \<Rightarrow> pso_event) \<Rightarrow> pso \<Rightarrow> pso" where
  "upd_cur f st \<equiv> upd_ev (prefix_idx st) f st"

abbreviation ev_pid :: "pso_event \<Rightarrow> ipid" where
  "ev_pid e \<equiv> fst (pe_iid e)"

abbreviation ev_index :: "pso_event \<Rightarrow> nat" where
  "ev_index e \<equiv> snd (pe_iid e)"

definition is_aux :: "pso \<Rightarrow> ipid \<Rightarrow> bool" where
  "is_aux st p = is_auxiliary (th_cpid (th st p))"

text \<open>\<^verbatim>\<open>clock += c\<close> for the clock of a thread and of an event.\<close>

definition th_clock_add :: "ipid \<Rightarrow> vclock \<Rightarrow> pso \<Rightarrow> pso" where
  "th_clock_add p c = upd_th p (\<lambda>t. t\<lparr>th_clock := vc_plus_assign (th_clock t) c\<rparr>)"

definition cur_clock_add :: "vclock \<Rightarrow> pso \<Rightarrow> pso" where
  "cur_clock_add c st = upd_cur (\<lambda>e. e\<lparr>pe_clock := vc_plus_assign (pe_clock e) c\<rparr>) st"

definition set_may_conflict :: "pso \<Rightarrow> pso" where
  "set_may_conflict st = upd_cur (\<lambda>e. e\<lparr>pe_may_conflict := True\<rparr>) st"

definition ipid_of :: "pso \<Rightarrow> nat \<Rightarrow> int \<Rightarrow> ipid option" where
  "ipid_of st proc aux = do {
     assertp (proc < length (proc_to_ipid st));
     let p = proc_to_ipid st ! proc;
     if 0 \<le> aux then do {
       assertp (aux < int (length (th_aux_to_ipid (th st p))));
       Some (th_aux_to_ipid (th st p) ! nat aux)
     } else Some p
   }"

section \<open>Availability\<close>

definition mark_available_ipid :: "ipid \<Rightarrow> pso \<Rightarrow> pso" where
  "mark_available_ipid pid st =
     (let st1 = upd_th pid (\<lambda>t. t\<lparr>th_available := True\<rparr>) st in
      if is_aux st1 pid then st1\<lparr>available_auxs := fst (vs_insert pid (available_auxs st1))\<rparr>
      else st1\<lparr>available_threads := fst (vs_insert pid (available_threads st1))\<rparr>)"

definition mark_unavailable_ipid :: "ipid \<Rightarrow> pso \<Rightarrow> pso" where
  "mark_unavailable_ipid pid st =
     (let st1 = upd_th pid (\<lambda>t. t\<lparr>th_available := False\<rparr>) st in
      if is_aux st1 pid then st1\<lparr>available_auxs := fst (vs_erase pid (available_auxs st1))\<rparr>
      else st1\<lparr>available_threads := fst (vs_erase pid (available_threads st1))\<rparr>)"

definition mark_available :: "nat \<Rightarrow> int \<Rightarrow> pso \<Rightarrow> pso option" where
  "mark_available proc aux st = map_option (\<lambda>p. mark_available_ipid p st) (ipid_of st proc aux)"

definition mark_unavailable :: "nat \<Rightarrow> int \<Rightarrow> pso \<Rightarrow> pso option" where
  "mark_unavailable proc aux st = map_option (\<lambda>p. mark_unavailable_ipid p st) (ipid_of st proc aux)"

section \<open>Scheduling\<close>

text \<open>
  \<^verbatim>\<open>schedule\<close> returns the process, the auxiliary index, the alternative and the dry run flag, or \<open>None\<close>
  when it returns false.
\<close>

type_synonym scheduled = "(nat \<times> int \<times> nat \<times> bool) option"

definition aux_of :: "pso \<Rightarrow> ipid \<Rightarrow> int" where
  "aux_of st p = (if is_aux st p then aux_idx (th_cpid (th st p)) else -1)"

definition clock_tick :: "ipid \<Rightarrow> pso \<Rightarrow> pso" where
  "clock_tick p = upd_th p (\<lambda>t. t\<lparr>th_clock := vc_set (th_clock t) p (vc_get (th_clock t) p + 1)\<rparr>)"

definition cur_unfinished :: "pso \<Rightarrow> bool option" where
  "cur_unfinished st =
     (if 0 \<le> prefix_idx st then do {
        e \<leftarrow> curnode st;
        Some (vc_get (th_clock (th st (ev_pid e))) (ev_pid e) < ev_index e + pe_size e - 1)
      } else Some False)"

text \<open>A thread that is replayed has been created before; otherwise the vector of threads is read out of bounds.\<close>

definition replay_continue :: "pso \<Rightarrow> (scheduled \<times> pso) option" where
  "replay_continue st = do {
     e \<leftarrow> curnode st;
     let pid = ev_pid e;
     assertp (pid < length (threads st));
     assertp (th_available (th st pid));
     Some (Some (th_proc (th st pid), aux_of st pid, 0, False), clock_tick pid st)
   }"

definition replay_sleeper :: "pso \<Rightarrow> (scheduled \<times> pso) option" where
  "replay_sleeper st = do {
     let pid = pe_sleep (ev st (prefix_idx st + 1)) ! dry_sleepers st;
     assertp (pid < length (threads st));
     let st1 = upd_th pid (\<lambda>t. t\<lparr>th_sleeping := True\<rparr>) (st\<lparr>dry_sleepers := dry_sleepers st + 1\<rparr>);
     Some (Some (th_proc (th st1 pid), aux_of st1 pid, 0, True),
           st1\<lparr>sleepers := fst (vs_insert pid (sleepers st1)), dryrun := True\<rparr>)
   }"

definition replay_next :: "pso \<Rightarrow> (scheduled \<times> pso) option" where
  "replay_next st0 = do {
     let st = st0\<lparr>dry_sleepers := 0, prefix_idx := prefix_idx st0 + 1\<rparr>;
     e \<leftarrow> curnode st;
     let pid = ev_pid e;
     assertp (pid < length (threads st));
     assertp (th_available (th st pid));
     let st1 = clock_tick pid st;
     Some (Some (th_proc (th st pid), aux_of st pid, pe_alt e, False),
           upd_cur (\<lambda>e. e\<lparr>pe_clock := th_clock (th st1 pid)\<rparr>) st1)
   }"

text \<open>Merge the last two events of the prefix when the last one is local to the same thread.\<close>

definition merge_last :: "pso \<Rightarrow> pso option" where
  "merge_last st =
     (let n = length (prefix st) in
      if n > 1 \<and> ev_pid (prefix st ! (n - 1)) = ev_pid (prefix st ! (n - 2)) \<and>
         \<not> pe_may_conflict (prefix st ! (n - 1)) \<and> pe_sleep (prefix st ! (n - 1)) = [] then do {
        assertp (pe_branch (prefix st ! (n - 1)) = []);
        assertp (pe_wakeup (prefix st ! (n - 1)) = []);
        let st1 = upd_ev (int (n - 2)) (\<lambda>e. e\<lparr>pe_size := pe_size e + 1\<rparr>) st;
        Some (st1\<lparr>prefix := butlast (prefix st1), prefix_idx := prefix_idx st1 - 1\<rparr>)
      } else Some st)"

fun at_head_loop :: "(symaddr \<times> pending_store_byte list) list \<Rightarrow> symaddr \<Rightarrow> symaddrsize \<Rightarrow> symaddr list \<Rightarrow> bool option" where
  "at_head_loop bufs b0 ml [] = Some True"
| "at_head_loop bufs b0 ml (b # bs) =
     (if b = b0 then at_head_loop bufs b0 ml bs
      else case map_of bufs b of
             None \<Rightarrow> None
           | Some sb \<Rightarrow>
               if sb = [] then None
               else if as_addr (pb_ml (hd sb)) \<noteq> b0 then Some False
               else if pb_ml (hd sb) \<noteq> ml then None
               else at_head_loop bufs b0 ml bs)"

definition is_aux_at_head :: "pso \<Rightarrow> ipid \<Rightarrow> bool option" where
  "is_aux_at_head st pid = do {
     assertp (is_aux st pid);
     let parent = th st (nat (th_parent (th st pid)));
     let b0 = th_aux_to_byte parent ! nat (aux_of st pid);
     (case map_of (th_store_buffers parent) b0 of
        None \<Rightarrow> Some False
      | Some sb \<Rightarrow> do {
          assertp (sb \<noteq> []);
          at_head_loop (th_store_buffers parent) b0 (pb_ml (hd sb)) (as_elements (pb_ml (hd sb)))
        })
   }"

definition can_run :: "pso \<Rightarrow> ipid \<Rightarrow> bool" where
  "can_run st p =
     (th_available (th st p) \<and> \<not> th_sleeping (th st p) \<and>
      (max_search_depth st < 0 \<or> int (vc_get (th_clock (th st p)) p) < max_search_depth st))"

fun pick_aux :: "pso \<Rightarrow> ipid list \<Rightarrow> ipid option option" where
  "pick_aux st [] = Some None"
| "pick_aux st (p # ps) =
     (if can_run st p then do {
        h \<leftarrow> is_aux_at_head st p;
        if h then Some (Some p) else pick_aux st ps
      } else pick_aux st ps)"

definition push_new_event :: "ipid \<Rightarrow> pso \<Rightarrow> (scheduled \<times> pso) option" where
  "push_new_event p st0 = do {
     let st = st0\<lparr>prefix_idx := prefix_idx st0 + 1\<rparr>;
     assertp (prefix_idx st = int (length (prefix st)));
     let st1 = clock_tick p st;
     let clk = th_clock (th st1 p);
     Some (Some (th_proc (th st1 p), aux_of st1 p, 0, False),
           st1\<lparr>prefix := prefix st1 @ [Event (p, vc_get clk p) clk]\<rparr>)
   }"

definition schedule_new :: "pso \<Rightarrow> (scheduled \<times> pso) option" where
  "schedule_new st0 = do {
     assertp (\<not> replay st0);
     st \<leftarrow> merge_last st0;
     a \<leftarrow> pick_aux st (available_auxs st);
     (case a of
        Some p \<Rightarrow> push_new_event p st
      | None \<Rightarrow>
          (case find (can_run st) (available_threads st) of
             None \<Rightarrow> Some (None, st)
           | Some p \<Rightarrow> push_new_event p st))
   }"

definition schedule :: "pso \<Rightarrow> (scheduled \<times> pso) option" where
  "schedule st0 =
     (let st = st0\<lparr>dryrun := False\<rparr> in
      if replay st then do {
        unfinished \<leftarrow> cur_unfinished st;
        if unfinished then replay_continue st
        else if prefix_idx st + 1 = int (length (prefix st)) then schedule_new (st\<lparr>replay := False\<rparr>)
        else if dry_sleepers st < length (pe_sleep (ev st (prefix_idx st + 1))) then replay_sleeper st
        else replay_next st
      } else schedule_new st)"

definition refuse_schedule :: "pso \<Rightarrow> pso option" where
  "refuse_schedule st = do {
     assertp (prefix_idx st = int (length (prefix st)) - 1);
     assertp (prefix st \<noteq> []);
     let l = last (prefix st);
     assertp (pe_size l = 1);
     assertp (\<not> pe_may_conflict l);
     assertp (pe_sleep l = []);
     assertp (pe_wakeup l = []);
     assertp (pe_branch l = []);
     let p = ev_pid l;
     let st1 = st\<lparr>prefix := butlast (prefix st), prefix_idx := prefix_idx st - 1\<rparr>;
     let st2 = upd_th p (\<lambda>t. t\<lparr>th_clock := vc_set (th_clock t) p (vc_get (th_clock t) p - 1)\<rparr>) st1;
     Some (mark_unavailable_ipid p st2)
   }"

definition is_replaying :: "pso \<Rightarrow> bool" where
  "is_replaying st = (replay st \<and> prefix_idx st + 1 < int (length (prefix st)))"

definition cancel_replay :: "pso \<Rightarrow> pso" where
  "cancel_replay st =
     (if \<not> replay st then st
      else st\<lparr>replay := False, prefix := resize (nat (prefix_idx st + 1)) (Event (0, 0) []) (prefix st)\<rparr>)"

definition metadata :: "nat \<Rightarrow> pso \<Rightarrow> pso option" where
  "metadata md st = do {
     e \<leftarrow> curnode st;
     Some (upd_cur (\<lambda>e. e\<lparr>pe_md := md\<rparr>) (st\<lparr>last_md := md\<rparr>))
   }"

definition sleepset_is_empty :: "pso \<Rightarrow> bool" where
  "sleepset_is_empty st = (sleepers st = [])"

definition get_iid :: "pso \<Rightarrow> (cpid \<times> nat) option" where
  "get_iid st = do {
     e \<leftarrow> curnode st;
     Some (th_cpid (th st (ev_pid e)), ev_index e)
   }"

section \<open>Races\<close>

text \<open>The threads asleep when the first event of position \<open>i\<close> starts.\<close>

fun sleep_set_loop :: "pso_event list \<Rightarrow> ipid vecset \<Rightarrow> ipid vecset" where
  "sleep_set_loop [] sleep = sleep"
| "sleep_set_loop (e # es) sleep =
     sleep_set_loop es (fold (\<lambda>p s. fst (vs_erase p s)) (pe_wakeup e) (fst (vs_insert_set (pe_sleep e) sleep)))"

definition sleep_set_at :: "pso \<Rightarrow> int \<Rightarrow> ipid vecset" where
  "sleep_set_at st i =
     fst (vs_insert_set (pe_sleep (ev st i)) (sleep_set_loop (take (nat i) (prefix st)) []))"

text \<open>
  The candidate loop of \<^verbatim>\<open>add_branch\<close>: \<open>Inl ()\<close> is the return when a satisfactory branch exists,
  \<open>Inr\<close> the last candidate.
\<close>

definition after_candidate :: "int list \<Rightarrow> vclock \<Rightarrow> bool" where
  "after_candidate candidates pclock =
     list_ex (\<lambda>q. 0 \<le> candidates ! q \<and> candidates ! q \<le> int (vc_get pclock q)) [0..<length candidates]"

fun candidate_loop :: "pso_event list \<Rightarrow> nat \<Rightarrow> nat \<Rightarrow> ipid vecset \<Rightarrow> nat list \<Rightarrow> int list \<Rightarrow> ipid option \<Rightarrow>
    unit + ipid option" where
  "candidate_loop pfx i j isleep [] candidates cand = Inr cand"
| "candidate_loop pfx i j isleep (k # ks) candidates cand =
     (let p = ev_pid (pfx ! k); pclock = pe_clock (pfx ! k) in
      if p < length candidates \<and> 0 \<le> candidates ! p then candidate_loop pfx i j isleep ks candidates cand
      else if k \<noteq> j \<and> vc_leq (pe_clock (pfx ! i)) pclock then candidate_loop pfx i j isleep ks candidates cand
      else if after_candidate candidates pclock then candidate_loop pfx i j isleep ks candidates cand
      else
        let candidates1 = (if length candidates \<le> p then resize (p + 1) (-1) candidates else candidates)
              [p := int (ev_index (pfx ! k))]
        in if vs_count (pe_branch (pfx ! i)) (p, 0) > 0 then Inl ()
           else if vs_count isleep p > 0 then Inl ()
           else candidate_loop pfx i j isleep ks candidates1 (Some p))"

definition add_branch :: "int \<Rightarrow> int \<Rightarrow> pso \<Rightarrow> pso option" where
  "add_branch i j st = do {
     assertp (0 \<le> i);
     assertp (i < j);
     assertp (j \<le> prefix_idx st);
     (case candidate_loop (prefix st) (nat i) (nat j) (sleep_set_at st i) [nat i + 1..<nat j + 1] [] None of
        Inl _ \<Rightarrow> Some st
      | Inr None \<Rightarrow> None
      | Inr (Some p) \<Rightarrow> Some (upd_ev i (\<lambda>e. e\<lparr>pe_branch := fst (vs_insert (p, 0) (pe_branch e))\<rparr>) st))
   }"

text \<open>\<^verbatim>\<open>see_events\<close>: the races of the current event, then its clock, then the branches.\<close>

definition racing :: "pso \<Rightarrow> vclock \<Rightarrow> int list \<Rightarrow> int list" where
  "racing st clk seen =
     filter (\<lambda>i. \<not> i < 0 \<and> \<not> vc_leq (pe_clock (ev st i)) clk \<and>
       \<not> list_ex (\<lambda>j. 0 \<le> j \<and> i \<noteq> j \<and> vc_leq (pe_clock (ev st i)) (pe_clock (ev st j))) seen) seen"

fun see_clocks :: "int list \<Rightarrow> pso \<Rightarrow> pso option" where
  "see_clocks [] st = Some st"
| "see_clocks (i # is) st =
     (if i < 0 then see_clocks is st
      else do {
        assertp (0 \<le> i \<and> i \<le> prefix_idx st);
        e \<leftarrow> curnode st;
        let st1 = cur_clock_add (pe_clock (ev st i)) st;
        see_clocks is (th_clock_add (ev_pid e) (pe_clock (ev st1 i)) st1)
      })"

fun add_branches :: "int list \<Rightarrow> pso \<Rightarrow> pso option" where
  "add_branches [] st = Some st"
| "add_branches (i # is) st = do {
     st1 \<leftarrow> add_branch i (prefix_idx st) st;
     add_branches is st1
   }"

definition see_events :: "int vecset \<Rightarrow> pso \<Rightarrow> pso option" where
  "see_events seen st = do {
     e \<leftarrow> curnode st;
     let branch = racing st (pe_clock e) seen;
     st1 \<leftarrow> see_clocks seen st;
     add_branches branch st1
   }"

section \<open>Waking up\<close>

definition has_pending_store :: "pso \<Rightarrow> ipid \<Rightarrow> symaddr \<Rightarrow> bool" where
  "has_pending_store st pid ml = (map_of (th_store_buffers (th st pid)) ml \<noteq> None)"

definition wakes :: "pso \<Rightarrow> ipid \<Rightarrow> access_type \<Rightarrow> symaddr \<Rightarrow> ipid \<Rightarrow> bool" where
  "wakes st pid type ml p =
     (case type of
        Acc_W_ALL_MEMORY \<Rightarrow>
          th_sleep_full_memory_conflict (th st p) \<or> th_sleep_accesses_w (th st p) \<noteq> [] \<or>
          list_ex (\<lambda>b. \<not> has_pending_store st p b) (th_sleep_accesses_r (th st p))
      | Acc_R \<Rightarrow>
          th_sleep_full_memory_conflict (th st p) \<or>
          (th_proc (th st p) \<noteq> th_proc (th st pid) \<and> vs_count (th_sleep_accesses_w (th st p)) ml > 0)
      | Acc_W \<Rightarrow>
          th_sleep_full_memory_conflict (th st p) \<or>
          (th_proc (th st p) \<noteq> th_proc (th st pid) \<and>
           (vs_count (th_sleep_accesses_w (th st p)) ml > 0 \<or>
            (vs_count (th_sleep_accesses_r (th st p)) ml > 0 \<and> \<not> has_pending_store st p ml)))
      | Acc_NA \<Rightarrow> False)"

definition wake :: "ipid \<Rightarrow> pso \<Rightarrow> pso" where
  "wake p st =
     (let st1 = upd_th p (\<lambda>t. t\<lparr>th_sleep_accesses_r := [], th_sleep_accesses_w := [],
                th_sleep_full_memory_conflict := False, th_sleeping := False\<rparr>) st;
          st2 = st1\<lparr>sleepers := fst (vs_erase p (sleepers st1))\<rparr>
      in upd_cur (\<lambda>e. e\<lparr>pe_wakeup := fst (vs_insert p (pe_wakeup e))\<rparr>) st2)"

fun wake_all :: "ipid list \<Rightarrow> pso \<Rightarrow> pso option" where
  "wake_all [] st = Some st"
| "wake_all (p # ps) st = do {
     assertp (th_sleeping (th st p));
     wake_all ps (wake p st)
   }"

text \<open>The type \<open>Acc_NA\<close> throws a logic error.\<close>

definition wakeup :: "access_type \<Rightarrow> symaddr \<Rightarrow> pso \<Rightarrow> pso option" where
  "wakeup type ml st = do {
     e \<leftarrow> curnode st;
     assertp (type \<noteq> Acc_NA);
     wake_all (filter (wakes st (ev_pid e) type ml) (sleepers st)) st
   }"

section \<open>Registration of events\<close>

text \<open>\<^verbatim>\<open>if (!f()) return false;\<close>\<close>

definition try_then :: "(bool \<times> pso) option \<Rightarrow> (pso \<Rightarrow> (bool \<times> pso) option) \<Rightarrow> (bool \<times> pso) option" where
  "try_then r f = do {
     (ok, st) \<leftarrow> r;
     if ok then f st else Some (False, st)
   }"

definition pthreads_error :: "string \<Rightarrow> pso \<Rightarrow> (bool \<times> pso) option" where
  "pthreads_error msg st = do {
     i \<leftarrow> get_iid st;
     Some (False, st\<lparr>errors := errors st @ [(i, msg)]\<rparr>)
   }"

text \<open>
  The thread being dry run. An unset \<^verbatim>\<open>dry_sleepers\<close> would read the vector at \<open>-1\<close>.
\<close>

definition dry_pid :: "pso \<Rightarrow> ipid option" where
  "dry_pid st = do {
     assertp (prefix_idx st + 1 < int (length (prefix st)));
     assertp (0 < dry_sleepers st);
     assertp (dry_sleepers st \<le> length (pe_sleep (ev st (prefix_idx st + 1))));
     Some (pe_sleep (ev st (prefix_idx st + 1)) ! (dry_sleepers st - 1))
   }"

definition insert_all :: "'a::linorder list \<Rightarrow> 'a vecset \<Rightarrow> 'a vecset" where
  "insert_all xs s = fold (\<lambda>x s. fst (vs_insert x s)) xs s"

definition dry_read :: "symaddr list \<Rightarrow> pso \<Rightarrow> (bool \<times> pso) option" where
  "dry_read bs st = do {
     pid \<leftarrow> dry_pid st;
     Some (True, upd_th pid (\<lambda>t. t\<lparr>th_sleep_accesses_r := insert_all bs (th_sleep_accesses_r t)\<rparr>) st)
   }"

definition dry_write :: "symaddr list \<Rightarrow> pso \<Rightarrow> (bool \<times> pso) option" where
  "dry_write bs st = do {
     pid \<leftarrow> dry_pid st;
     Some (True, upd_th pid (\<lambda>t. t\<lparr>th_sleep_accesses_w := insert_all bs (th_sleep_accesses_w t)\<rparr>) st)
   }"

definition spawn :: "pso \<Rightarrow> (bool \<times> pso) option" where
  "spawn st = do {
     e \<leftarrow> curnode st;
     let parent_ipid = ev_pid e;
     let child_ipid = length (threads st);
     (child_cpid, cps) \<leftarrow> cs_spawn (CPS st) (th_cpid (th st parent_ipid));
     let proc = fold (\<lambda>t m. max m (th_proc t + 1)) (threads st) 0;
     let st1 = st\<lparr>CPS := cps, proc_to_ipid := proc_to_ipid st @ [child_ipid],
       threads := threads st @ [Thread proc child_cpid (th_clock (th st parent_ipid)) (int parent_ipid)]\<rparr>;
     Some (True, mark_available_ipid child_ipid st1)
   }"

text \<open>A store puts one entry per byte in the buffers, and creates its auxiliary thread if needed.\<close>

definition buffer_push :: "symaddr \<Rightarrow> pending_store_byte \<Rightarrow> pso_thread \<Rightarrow> pso_thread" where
  "buffer_push b e t =
     t\<lparr>th_store_buffers := AList.update b
        ((case map_of (th_store_buffers t) b of None \<Rightarrow> [] | Some sb \<Rightarrow> sb) @ [e]) (th_store_buffers t)\<rparr>"

definition store :: "symaddrsize \<Rightarrow> pso \<Rightarrow> (bool \<times> pso) option" where
  "store ml st =
     (if dryrun st then Some (True, st)
      else do {
        e \<leftarrow> curnode st;
        let ipid = ev_pid e;
        let entry = \<lparr>pb_ml = ml, pb_clock = th_clock (th st ipid), pb_last_rowe = -1, pb_md = last_md st\<rparr>;
        let st1 = upd_th ipid (fold (\<lambda>b. buffer_push b entry) (as_elements ml)) st;
        (case map_of (th_byte_to_aux (th st1 ipid)) (as_addr ml) of
           None \<Rightarrow> do {
             let aux_idx = length (th_aux_to_byte (th st1 ipid));
             let upd_ipid = length (threads st1);
             (c, cps) \<leftarrow> cs_new_aux (CPS st1) (th_cpid (th st1 ipid));
             let st2 = st1\<lparr>CPS := cps,
               threads := threads st1 @ [Thread (th_proc (th st1 ipid)) c (th_clock (th st1 ipid)) (int ipid)]\<rparr>;
             let st3 = upd_th ipid (\<lambda>t. t\<lparr>th_byte_to_aux := AList.update (as_addr ml) aux_idx (th_byte_to_aux t),
               th_aux_to_byte := th_aux_to_byte t @ [as_addr ml],
               th_aux_to_ipid := th_aux_to_ipid t @ [upd_ipid]\<rparr>) st2;
             Some (True, mark_available_ipid upd_ipid st3)
           }
         | Some a \<Rightarrow> Some (True, mark_available_ipid (th_aux_to_ipid (th st1 ipid) ! a) st1))
      })"

definition mem_at :: "pso \<Rightarrow> symaddr \<Rightarrow> byte_info" where
  "mem_at st b = (case map_of (mem st) b of None \<Rightarrow> ByteInfo | Some bi \<Rightarrow> bi)"

text \<open>The real thread of a thread.\<close>

definition real_of :: "pso \<Rightarrow> ipid \<Rightarrow> ipid" where
  "real_of st p = (if is_aux st p then nat (th_parent (th st p)) else p)"

text \<open>The clock of the store being updated, or of the auxiliary threads for an atomic store.\<close>

definition update_clock :: "symaddrsize \<Rightarrow> ipid \<Rightarrow> ipid \<Rightarrow> pso \<Rightarrow> pso option" where
  "update_clock ml uipid tipid st =
     (case map_of (th_store_buffers (th st tipid)) (as_addr ml) of
        None \<Rightarrow> None
      | Some sb \<Rightarrow> do {
          assertp (sb \<noteq> []);
          assertp (pb_ml (hd sb) = ml);
          let pst = hd sb;
          let st1 = th_clock_add uipid (pb_clock pst) (cur_clock_add (pb_clock pst) st);
          Some (upd_cur (\<lambda>e. e\<lparr>pe_origin_iid := (tipid, vc_get (pb_clock pst) tipid), pe_md := pb_md pst\<rparr>) st1)
        })"

definition aux_clocks :: "ipid \<Rightarrow> pso \<Rightarrow> pso option" where
  "aux_clocks tipid st = do {
     empty \<leftarrow> all_buffers_empty (th st tipid);
     assertp empty;
     Some (fold (\<lambda>p st. let st1 = th_clock_add tipid (th_clock (th st p)) st
                        in cur_clock_add (th_clock (th st1 p)) st1) (th_aux_to_ipid (th st tipid)) st)
   }"

text \<open>Earlier updates and reads of a byte, seen by a write.\<close>

definition see_byte_write :: "ipid \<Rightarrow> ipid \<Rightarrow> symaddr \<Rightarrow> int vecset \<times> pso \<Rightarrow> (int vecset \<times> pso) option" where
  "see_byte_write uipid tipid b acc = do {
     let (seen, st) = acc;
     let bi = mem_at st b;
     let lu = bi_last_update bi;
     (seen1, st1) \<leftarrow>
       (if 0 \<le> lu then do {
          assertp (ev_pid (ev st lu) < length (threads st));
          let lu_tipid = real_of st (ev_pid (ev st lu));
          Some (if lu_tipid \<noteq> tipid then (fst (vs_insert lu seen), st)
                else let st1 = cur_clock_add (pe_clock (ev st lu)) st
                     in (seen, th_clock_add uipid (pe_clock (ev st1 lu)) st1))
        } else Some (seen, st));
     Some (insert_all (filter (\<lambda>i. 0 \<le> i \<and> ev_pid (ev st1 i) \<noteq> tipid) (bi_last_read bi)) seen1, st1)
   }"

fun see_bytes_write :: "ipid \<Rightarrow> ipid \<Rightarrow> symaddr list \<Rightarrow> int vecset \<times> pso \<Rightarrow> (int vecset \<times> pso) option" where
  "see_bytes_write uipid tipid [] acc = Some acc"
| "see_bytes_write uipid tipid (b # bs) acc = do {
     acc1 \<leftarrow> see_byte_write uipid tipid b acc;
     see_bytes_write uipid tipid bs acc1
   }"

fun register_write :: "symaddrsize \<Rightarrow> nat \<Rightarrow> int \<Rightarrow> symaddr list \<Rightarrow> pso \<Rightarrow> pso option" where
  "register_write ml proc last_rowe [] st = Some st"
| "register_write ml proc last_rowe (b # bs) st = do {
     let bi = (mem_at st b)\<lparr>bi_last_update := prefix_idx st, bi_last_update_ml := ml\<rparr>;
     let bi1 = (if 0 \<le> last_rowe then bi\<lparr>bi_last_read := last_read_set (bi_last_read bi) proc last_rowe\<rparr> else bi);
     st1 \<leftarrow> wakeup Acc_W b (st\<lparr>mem := AList.update b bi1 (mem st)\<rparr>);
     register_write ml proc last_rowe bs st1
   }"

text \<open>Removal of the pending store; an empty or missing buffer would be read out of bounds.\<close>

fun remove_pending :: "ipid \<Rightarrow> ipid \<Rightarrow> symaddr list \<Rightarrow> pso \<Rightarrow> pso option" where
  "remove_pending uipid tipid [] st = Some st"
| "remove_pending uipid tipid (b # bs) st =
     (case map_of (th_store_buffers (th st tipid)) b of
        None \<Rightarrow> None
      | Some sb \<Rightarrow> do {
          assertp (sb \<noteq> []);
          let sb1 = vs_erase_at 0 sb;
          remove_pending uipid tipid bs
            (if sb1 = [] then mark_unavailable_ipid uipid
               (upd_th tipid (\<lambda>t. t\<lparr>th_store_buffers := AList.delete b (th_store_buffers t)\<rparr>) st)
             else upd_th tipid (\<lambda>t. t\<lparr>th_store_buffers := AList.update b sb1 (th_store_buffers t)\<rparr>) st)
        })"

definition front_rowe :: "pso \<Rightarrow> ipid \<Rightarrow> symaddr \<Rightarrow> int" where
  "front_rowe st tipid b =
     (case map_of (th_store_buffers (th st tipid)) b of
        Some (pst # _) \<Rightarrow> pb_last_rowe pst | _ \<Rightarrow> -1)"

definition atomic_store :: "symaddrsize \<Rightarrow> pso \<Rightarrow> (bool \<times> pso) option" where
  "atomic_store ml st =
     (if dryrun st then dry_write (as_elements ml) st
      else do {
        e \<leftarrow> curnode st;
        let ipid = ev_pid e;
        let st0 = set_may_conflict st;
        let is_update = is_aux st0 ipid;
        let uipid = ipid;
        let tipid = (if is_update then nat (th_parent (th st0 ipid)) else ipid);
        st1 \<leftarrow> (if is_update then update_clock ml uipid tipid st0 else aux_clocks tipid st0);
        (seen, st2) \<leftarrow> see_bytes_write uipid tipid (as_elements ml) ([], st1);
        st3 \<leftarrow> see_events (fst (vs_insert (last_full_memory_conflict st2) seen)) st2;
        let last_rowe = (if is_update then front_rowe st3 tipid (as_addr ml) else -1);
        st4 \<leftarrow> register_write ml (th_proc (th st3 tipid)) last_rowe (as_elements ml) st3;
        if is_update then do {
          st5 \<leftarrow> remove_pending uipid tipid (as_elements ml) st4;
          e5 \<leftarrow> curnode st5;
          Some (True, upd_th tipid (\<lambda>t. t\<lparr>th_aux_clock_sum := vc_plus_assign (th_aux_clock_sum t) (pe_clock e5)\<rparr>) st5)
        } else Some (True, st4)
      })"

definition set_back :: "(pending_store_byte \<Rightarrow> pending_store_byte) \<Rightarrow> pending_store_byte list \<Rightarrow> pending_store_byte list" where
  "set_back f sb = sb[length sb - 1 := f (last sb)]"

text \<open>Earlier updates of a byte, seen by a read.\<close>

definition see_byte_read :: "symaddrsize \<Rightarrow> ipid \<Rightarrow> symaddr \<Rightarrow> int vecset \<times> pso \<Rightarrow> int vecset \<times> pso" where
  "see_byte_read ml ipid b acc =
     (let (seen, st) = acc; lu = bi_last_update (mem_at st b); lu_ml = bi_last_update_ml (mem_at st b) in
      if 0 \<le> lu then
        if real_of st (ev_pid (ev st lu)) \<noteq> ipid then (fst (vs_insert lu seen), st)
        else if ml \<noteq> lu_ml then
          let clk = pe_clock (ev st lu) in (seen, th_clock_add ipid clk (cur_clock_add clk st))
        else (seen, st)
      else (seen, st))"

fun register_read :: "nat \<Rightarrow> symaddr list \<Rightarrow> pso \<Rightarrow> pso option" where
  "register_read proc [] st = Some st"
| "register_read proc (b # bs) st = do {
     let bi = mem_at st b;
     let bi1 = bi\<lparr>bi_last_read := last_read_set (bi_last_read bi) proc (prefix_idx st)\<rparr>;
     st1 \<leftarrow> wakeup Acc_R b (st\<lparr>mem := AList.update b bi1 (mem st)\<rparr>);
     register_read proc bs st1
   }"

definition load :: "symaddrsize \<Rightarrow> pso \<Rightarrow> (bool \<times> pso) option" where
  "load ml st =
     (if dryrun st then dry_read (as_elements ml) st
      else do {
        e \<leftarrow> curnode st;
        let st0 = set_may_conflict st;
        let ipid = ev_pid e;
        (case map_of (th_store_buffers (th st0 ipid)) (as_addr ml) of
           Some sb \<Rightarrow> do {
             assertp (sb \<noteq> []);
             assertp (pb_ml (last sb) = ml);
             let sb1 = set_back (\<lambda>pst. pst\<lparr>pb_last_rowe := prefix_idx st0\<rparr>) sb;
             Some (True, upd_th ipid (\<lambda>t. t\<lparr>th_store_buffers := AList.update (as_addr ml) sb1 (th_store_buffers t)\<rparr>) st0)
           }
         | None \<Rightarrow> do {
             let (seen, st1) = fold (see_byte_read ml ipid) (as_elements ml) ([], st0);
             st2 \<leftarrow> see_events (fst (vs_insert (last_full_memory_conflict st1) seen)) st1;
             st3 \<leftarrow> register_read (th_proc (th st2 ipid)) (as_elements ml) st2;
             Some (True, st3)
           })
      })"

definition compare_exchange :: "symaddrsize \<Rightarrow> bool \<Rightarrow> pso \<Rightarrow> (bool \<times> pso) option" where
  "compare_exchange ml success st = (if success then atomic_store ml st else load ml st)"

text \<open>The default of the base class, and the operations it does not support.\<close>

definition atomic_rmw :: "symaddrsize \<Rightarrow> pso \<Rightarrow> (bool \<times> pso) option" where
  "atomic_rmw ml st = try_then (load ml st) (atomic_store ml)"

definition full_memory_conflict :: "pso \<Rightarrow> (bool \<times> pso) option" where
  "full_memory_conflict st =
     (if dryrun st then do {
        pid \<leftarrow> dry_pid st;
        Some (True, upd_th pid (\<lambda>t. t\<lparr>th_sleep_full_memory_conflict := True\<rparr>) st)
      } else do {
        e \<leftarrow> curnode st;
        let st0 = set_may_conflict st;
        let seen = fold (\<lambda>(b, bi) s. insert_all (bi_last_read bi) (fst (vs_insert (bi_last_update bi) s))) (mem st0) [];
        let seen1 = fold (\<lambda>(b, m) s. fst (vs_insert (mx_last_access m) s)) (mutexes st0) seen;
        st1 \<leftarrow> see_events (fst (vs_insert (last_full_memory_conflict st0) seen1)) st0;
        st2 \<leftarrow> wakeup Acc_W_ALL_MEMORY \<lparr>sa_block = \<lparr>sb_pid = 65535, sb_alloc = 0\<rparr>, sa_offset = 0\<rparr> st1;
        Some (True, st2\<lparr>last_full_memory_conflict := prefix_idx st2, mem := []\<rparr>)
      })"

definition fence :: "pso \<Rightarrow> (bool \<times> pso) option" where
  "fence st =
     (if dryrun st then Some (True, st)
      else do {
        e \<leftarrow> curnode st;
        let ipid = ev_pid e;
        assertp (\<not> is_aux st ipid);
        empty \<leftarrow> all_buffers_empty (th st ipid);
        assertp empty;
        let st1 = cur_clock_add (th_aux_clock_sum (th st ipid)) st;
        Some (True, th_clock_add ipid (th_aux_clock_sum (th st1 ipid)) st1)
      })"

definition join :: "nat \<Rightarrow> pso \<Rightarrow> (bool \<times> pso) option" where
  "join tgt_proc st =
     (if dryrun st then Some (True, st)
      else do {
        assertp (tgt_proc < length (proc_to_ipid st));
        e \<leftarrow> curnode st;
        let ipid = ev_pid e;
        let tgt_ipid = proc_to_ipid st ! tgt_proc;
        let st1 = cur_clock_add (th_clock (th st tgt_ipid)) st;
        let st2 = cur_clock_add (th_aux_clock_sum (th st1 tgt_ipid)) st1;
        e2 \<leftarrow> curnode st2;
        Some (True, th_clock_add ipid (pe_clock e2) st2)
      })"

definition mutex_at :: "pso \<Rightarrow> symaddr \<Rightarrow> pso_mutex" where
  "mutex_at st a = (case map_of (mutexes st) a of None \<Rightarrow> Mutex | Some m \<Rightarrow> m)"

definition set_mutex :: "symaddr \<Rightarrow> pso_mutex \<Rightarrow> pso \<Rightarrow> pso" where
  "set_mutex a m st = st\<lparr>mutexes := AList.update a m (mutexes st)\<rparr>"

definition race_with :: "int \<Rightarrow> pso \<Rightarrow> pso option" where
  "race_with i st = do {
     e \<leftarrow> curnode st;
     if \<not> vc_leq (pe_clock (ev st i)) (pe_clock e) then add_branch i (prefix_idx st) st else Some st
   }"

definition mutex_lock :: "symaddrsize \<Rightarrow> pso \<Rightarrow> (bool \<times> pso) option" where
  "mutex_lock ml st =
     (if dryrun st then dry_write [as_addr ml] st
      else try_then (fence st) (\<lambda>st. do {
        e \<leftarrow> curnode st;
        st1 \<leftarrow> wakeup Acc_W (as_addr ml) (set_may_conflict st);
        let m = mutex_at st1 (as_addr ml);
        let ipid = ev_pid e;
        st2 \<leftarrow>
          (if mx_last_lock m < 0
           then see_events (vs_of_range [] [mx_last_access m, last_full_memory_conflict st1]) st1
           else do {
             st2 \<leftarrow> race_with (mx_last_lock m) st1;
             let clk = pe_clock (ev st2 (mx_last_access m));
             let st3 = th_clock_add ipid clk (cur_clock_add clk st2);
             see_events (vs_of_range [] [last_full_memory_conflict st3]) st3
           });
        Some (True, set_mutex (as_addr ml)
          (m\<lparr>mx_last_lock := prefix_idx st2, mx_last_access := prefix_idx st2, mx_locked := True\<rparr>) st2)
      }))"

definition mutex_lock_fail :: "symaddrsize \<Rightarrow> pso \<Rightarrow> (bool \<times> pso) option" where
  "mutex_lock_fail ml st = do {
     assertp (\<not> dryrun st);
     assertp (map_of (mutexes st) (as_addr ml) \<noteq> None);
     let m = mutex_at st (as_addr ml);
     assertp (0 \<le> mx_last_lock m);
     st1 \<leftarrow> race_with (mx_last_lock m) st;
     st2 \<leftarrow> (if 0 \<le> last_full_memory_conflict st1 then race_with (last_full_memory_conflict st1) st1 else Some st1);
     Some (True, st2)
   }"

definition mutex_unlock :: "symaddrsize \<Rightarrow> pso \<Rightarrow> (bool \<times> pso) option" where
  "mutex_unlock ml st =
     (if dryrun st then dry_write [as_addr ml] st
      else try_then (fence st) (\<lambda>st. do {
        assertp (map_of (mutexes st) (as_addr ml) \<noteq> None);
        let m = mutex_at st (as_addr ml);
        e \<leftarrow> curnode st;
        st1 \<leftarrow> wakeup Acc_W (as_addr ml) (set_may_conflict st);
        assertp (0 \<le> mx_last_access m);
        st2 \<leftarrow> see_events (vs_of_range [] [mx_last_access m, last_full_memory_conflict st1]) st1;
        Some (True, set_mutex (as_addr ml) (m\<lparr>mx_last_access := prefix_idx st2, mx_locked := False\<rparr>) st2)
      }))"

definition mutex_trylock :: "symaddrsize \<Rightarrow> pso \<Rightarrow> (bool \<times> pso) option" where
  "mutex_trylock ml st =
     (if dryrun st then dry_write [as_addr ml] st
      else try_then (fence st) (\<lambda>st. do {
        assertp (map_of (mutexes st) (as_addr ml) \<noteq> None);
        e \<leftarrow> curnode st;
        st1 \<leftarrow> wakeup Acc_W (as_addr ml) (set_may_conflict st);
        let m = mutex_at st1 (as_addr ml);
        st2 \<leftarrow> see_events (vs_of_range [] [mx_last_access m, last_full_memory_conflict st1]) st1;
        let m1 = m\<lparr>mx_last_access := prefix_idx st2\<rparr>;
        Some (True, set_mutex (as_addr ml)
          (if \<not> mx_locked m1 then m1\<lparr>mx_last_lock := prefix_idx st2, mx_locked := True\<rparr> else m1) st2)
      }))"

definition mutex_init :: "symaddrsize \<Rightarrow> pso \<Rightarrow> (bool \<times> pso) option" where
  "mutex_init ml st =
     (if dryrun st then dry_write [as_addr ml] st
      else try_then (fence st) (\<lambda>st. do {
        e \<leftarrow> curnode st;
        let st1 = set_may_conflict st;
        let m = mutex_at st1 (as_addr ml);
        st2 \<leftarrow> see_events (vs_of_range [] [mx_last_access m, last_full_memory_conflict st1]) st1;
        Some (True, set_mutex (as_addr ml) (m\<lparr>mx_last_access := prefix_idx st2\<rparr>) st2)
      }))"

definition mutex_destroy :: "symaddrsize \<Rightarrow> pso \<Rightarrow> (bool \<times> pso) option" where
  "mutex_destroy ml st =
     (if dryrun st then dry_write [as_addr ml] st
      else try_then (fence st) (\<lambda>st. do {
        assertp (map_of (mutexes st) (as_addr ml) \<noteq> None);
        let m = mutex_at st (as_addr ml);
        e \<leftarrow> curnode st;
        st1 \<leftarrow> wakeup Acc_W (as_addr ml) (set_may_conflict st);
        st2 \<leftarrow> see_events (vs_of_range [] [mx_last_access m, last_full_memory_conflict st1]) st1;
        Some (True, st2\<lparr>mutexes := AList.delete (as_addr ml) (mutexes st2)\<rparr>)
      }))"

section \<open>Condition variables\<close>

definition set_cond :: "symaddr \<Rightarrow> pso_condvar \<Rightarrow> pso \<Rightarrow> pso" where
  "set_cond a c st = st\<lparr>cond_vars := AList.update a c (cond_vars st)\<rparr>"

definition cond_init :: "symaddrsize \<Rightarrow> pso \<Rightarrow> (bool \<times> pso) option" where
  "cond_init ml st =
     (if dryrun st then dry_write [as_addr ml] st
      else try_then (fence st) (\<lambda>st.
        if map_of (cond_vars st) (as_addr ml) \<noteq> None
        then pthreads_error ''Condition variable initiated twice.'' st
        else do {
          e \<leftarrow> curnode st;
          let st1 = set_cond (as_addr ml) (CondVar (prefix_idx st)) (set_may_conflict st);
          st2 \<leftarrow> see_events (vs_of_range [] [last_full_memory_conflict st1]) st1;
          Some (True, st2)
        }))"

definition register_alternatives :: "nat \<Rightarrow> pso \<Rightarrow> (bool \<times> pso) option" where
  "register_alternatives alt_count st = do {
     e \<leftarrow> curnode st;
     let st1 = set_may_conflict st;
     Some (True,
       if pe_alt e = 0
       then upd_cur (\<lambda>e. e\<lparr>pe_branch := insert_all (map (\<lambda>i. (ev_pid e, i)) [1..<alt_count]) (pe_branch e)\<rparr>) st1
       else st1)
   }"

text \<open>
  Wakes the waiter that started waiting at position \<open>i\<close>: it becomes available, ordered after the
  current event.
\<close>

definition wake_waiter :: "int \<Rightarrow> pso \<Rightarrow> pso option" where
  "wake_waiter i st = do {
     assertp (0 \<le> i \<and> i < prefix_idx st);
     let ipid = ev_pid (ev st i);
     assertp (\<not> th_available (th st ipid));
     let st1 = mark_available_ipid ipid st;
     e \<leftarrow> curnode st1;
     Some (th_clock_add ipid (pe_clock e) st1)
   }"

definition cond_signal :: "symaddrsize \<Rightarrow> pso \<Rightarrow> (bool \<times> pso) option" where
  "cond_signal ml st =
     (if dryrun st then dry_write [as_addr ml] st
      else try_then (fence st) (\<lambda>st. do {
        e \<leftarrow> curnode st;
        st1 \<leftarrow> wakeup Acc_W (as_addr ml) (set_may_conflict st);
        (case map_of (cond_vars st1) (as_addr ml) of
           None \<Rightarrow> pthreads_error ''cond_signal called with uninitialized condition variable.'' st1
         | Some c \<Rightarrow>
             try_then (if length (cd_waiters c) > 1 then register_alternatives (length (cd_waiters c)) st1
                       else Some (True, st1)) (\<lambda>st2. do {
               e2 \<leftarrow> curnode st2;
               assertp (cd_waiters c = [] \<or> pe_alt e2 < length (cd_waiters c));
               let seen = vs_of_range [] [last_full_memory_conflict st2];
               (seen1, c1, st3) \<leftarrow>
                 (if cd_waiters c \<noteq> [] then do {
                    let i = cd_waiters c ! pe_alt e2;
                    st3 \<leftarrow> wake_waiter i st2;
                    Some (fst (vs_insert i seen), c\<lparr>cd_waiters := vs_erase_at (pe_alt e2) (cd_waiters c)\<rparr>, st3)
                  } else Some (seen, c, st2));
               let st4 = set_cond (as_addr ml) (c1\<lparr>cd_last_signal := prefix_idx st3\<rparr>) st3;
               st5 \<leftarrow> see_events seen1 st4;
               Some (True, st5)
             }))
      }))"

fun wake_waiters :: "int list \<Rightarrow> pso \<Rightarrow> pso option" where
  "wake_waiters [] st = Some st"
| "wake_waiters (i # is) st = do {
     st1 \<leftarrow> wake_waiter i st;
     wake_waiters is st1
   }"

definition cond_broadcast :: "symaddrsize \<Rightarrow> pso \<Rightarrow> (bool \<times> pso) option" where
  "cond_broadcast ml st =
     (if dryrun st then dry_write [as_addr ml] st
      else try_then (fence st) (\<lambda>st. do {
        e \<leftarrow> curnode st;
        st1 \<leftarrow> wakeup Acc_W (as_addr ml) (set_may_conflict st);
        (case map_of (cond_vars st1) (as_addr ml) of
           None \<Rightarrow> pthreads_error ''cond_broadcast called with uninitialized condition variable.'' st1
         | Some c \<Rightarrow> do {
             st2 \<leftarrow> wake_waiters (cd_waiters c) st1;
             let seen = insert_all (cd_waiters c) (vs_of_range [] [last_full_memory_conflict st1]);
             let st3 = set_cond (as_addr ml) (c\<lparr>cd_waiters := [], cd_last_signal := prefix_idx st2\<rparr>) st2;
             st4 \<leftarrow> see_events seen st3;
             Some (True, st4)
           })
      }))"

text \<open>In a dry run the first block binds a reference that it does not use.\<close>

definition cond_wait_error :: "symaddr \<Rightarrow> pso \<Rightarrow> string option" where
  "cond_wait_error m st =
     (if dryrun st then None
      else case map_of (mutexes st) m of
             None \<Rightarrow> Some ''cond_wait called with uninitialized mutex object.''
           | Some mtx \<Rightarrow>
               if mx_last_lock mtx < 0 \<or> ev_pid (ev st (mx_last_lock mtx)) \<noteq> ev_pid (ev st (prefix_idx st))
               then Some ''cond_wait called with mutex which is not locked by the same thread.'' else None)"

definition cond_wait :: "symaddrsize \<Rightarrow> symaddrsize \<Rightarrow> pso \<Rightarrow> (bool \<times> pso) option" where
  "cond_wait cond_ml mutex_ml st =
     (case cond_wait_error (as_addr mutex_ml) st of
        Some msg \<Rightarrow> pthreads_error msg st
      | None \<Rightarrow>
          try_then (mutex_unlock mutex_ml st) (\<lambda>st.
            if dryrun st then dry_read [as_addr cond_ml] st
            else try_then (fence st) (\<lambda>st. do {
              e \<leftarrow> curnode st;
              st1 \<leftarrow> wakeup Acc_R (as_addr cond_ml) (set_may_conflict st);
              let pid = ev_pid e;
              (case map_of (cond_vars st1) (as_addr cond_ml) of
                 None \<Rightarrow> pthreads_error ''cond_wait called with uninitialized condition variable.'' st1
               | Some c \<Rightarrow> do {
                   let st2 = set_cond (as_addr cond_ml) (c\<lparr>cd_waiters := cd_waiters c @ [prefix_idx st1]\<rparr>) st1;
                   let st3 = mark_unavailable_ipid pid st2;
                   st4 \<leftarrow> see_events (vs_of_range [] [last_full_memory_conflict st3, cd_last_signal c]) st3;
                   Some (True, st4)
                 })
            })))"

definition cond_awake :: "symaddrsize \<Rightarrow> symaddrsize \<Rightarrow> pso \<Rightarrow> (bool \<times> pso) option" where
  "cond_awake cond_ml mutex_ml st = mutex_lock mutex_ml st"

text \<open>\<^verbatim>\<open>cond_destroy\<close> returns an error number; \<open>ebusy\<close> is the platform's \<^verbatim>\<open>EBUSY\<close>.\<close>

definition cond_destroy :: "int \<Rightarrow> symaddrsize \<Rightarrow> pso \<Rightarrow> (int \<times> pso) option" where
  "cond_destroy ebusy ml st =
     (if dryrun st then map_option (\<lambda>(_, st). (0, st)) (dry_write [as_addr ml] st)
      else do {
        let err = (if ebusy = 1 then 2 else 1);
        (ok, st0) \<leftarrow> fence st;
        if \<not> ok then Some (err, st0)
        else do {
          e \<leftarrow> curnode st0;
          st1 \<leftarrow> wakeup Acc_W (as_addr ml) (set_may_conflict st0);
          (case map_of (cond_vars st1) (as_addr ml) of
             None \<Rightarrow> do {
               (_, st2) \<leftarrow> pthreads_error ''cond_destroy called on uninitialized condition variable.'' st1;
               Some (err, st2)
             }
           | Some c \<Rightarrow> do {
               let seen = insert_all (cd_waiters c) (vs_of_range [] [cd_last_signal c, last_full_memory_conflict st1]);
               st2 \<leftarrow> see_events seen st1;
               Some (if cd_waiters c \<noteq> [] then ebusy else 0,
                     st2\<lparr>cond_vars := AList.delete (as_addr ml) (cond_vars st2)\<rparr>)
             })
        }
      })"

section \<open>The next trace\<close>

text \<open>Estimates are exact rationals here, \<^verbatim>\<open>long double\<close> in the code.\<close>

definition estimate_step :: "pso_event \<Rightarrow> rat \<Rightarrow> rat" where
  "estimate_step e count =
     (let count1 = count + of_nat (pe_sleep_branch_trace_count e)
      in count1 + of_nat (length (pe_branch e)) * (count1 / of_nat (1 + length (pe_sleep e))))"

definition estimate_trace_count :: "pso \<Rightarrow> nat \<Rightarrow> rat" where
  "estimate_trace_count st idx =
     (if idx > length (prefix st) then 0
      else if idx = length (prefix st) then 1
      else foldr estimate_step (drop idx (prefix st)) 1)"

fun last_branching :: "pso_event list \<Rightarrow> nat \<Rightarrow> nat option" where
  "last_branching pfx 0 = None"
| "last_branching pfx (Suc i) = (if pe_branch (pfx ! i) \<noteq> [] then Some i else last_branching pfx i)"

text \<open>The index of the next event of a thread: after its last event before position \<open>j\<close>.\<close>

fun branch_index :: "pso_event list \<Rightarrow> ipid \<Rightarrow> nat \<Rightarrow> nat" where
  "branch_index pfx p 0 = 1"
| "branch_index pfx p (Suc j) =
     (if ev_pid (pfx ! j) = p \<and> ev_index (pfx ! j) + pe_size (pfx ! j) \<noteq> 1
      then ev_index (pfx ! j) + pe_size (pfx ! j) else branch_index pfx p j)"

definition branch_event :: "pso \<Rightarrow> nat \<Rightarrow> pso_event" where
  "branch_event st i =
     (let old = prefix st ! i; br = hd (pe_branch old) in
      (Event (fst br, branch_index (prefix st) (fst br) i) [])
        \<lparr>pe_alt := snd br, pe_branch := fst (vs_erase br (pe_branch old)),
         pe_sleep := (if fst br \<noteq> ev_pid old then fst (vs_insert (ev_pid old) (pe_sleep old)) else pe_sleep old),
         pe_sleep_branch_trace_count :=
           nat \<lfloor>of_nat (pe_sleep_branch_trace_count old) + estimate_trace_count st (i + 1)\<rfloor>\<rparr>)"

definition reset :: "pso \<Rightarrow> bool \<times> pso" where
  "reset st =
     (case last_branching (prefix st) (length (prefix st)) of
        None \<Rightarrow> (False, st)
      | Some i \<Rightarrow>
          (True, st\<lparr>prefix := take i (prefix st) @ [branch_event st i],
             CPS := CPidSystem, threads := [Thread 0 CPid [] (-1)], proc_to_ipid := [0], mutexes := [],
             cond_vars := [], mem := [], last_full_memory_conflict := -1, prefix_idx := -1, dryrun := False,
             replay := True, dry_sleepers := 0, sleepers := [], available_threads := fst (vs_insert 0 []),
             available_auxs := [], last_md := 0\<rparr>))"

end
