(* ===== verification/PSO_Inv.thy ===== *)
theory PSO_Inv
  imports PSO
begin

text \<open>
  The invariants that the comments of \<^verbatim>\<open>PSOTraceBuilder.h\<close> state, for every sequence of calls: the
  sets of sleeping and available threads, the data of sleeping threads, the store buffers, the
  identifiers of the threads and the position in the prefix.
\<close>

section \<open>Sets of threads\<close>

definition tracks :: "nat vecset \<Rightarrow> (nat \<Rightarrow> bool) \<Rightarrow> nat \<Rightarrow> bool" where
  "tracks v P n \<longleftrightarrow> ascending v \<and> set v = {p. p < n \<and> P p}"

lemma tracks_cong: "tracks v P n \<Longrightarrow> (\<And>p. p < n \<Longrightarrow> Q p = P p) \<Longrightarrow> tracks v Q n"
  unfolding tracks_def by auto

lemma tracks_insert:
  "tracks v P n \<Longrightarrow> p < n \<Longrightarrow> Q p \<Longrightarrow> (\<And>q. q < n \<Longrightarrow> q \<noteq> p \<Longrightarrow> Q q = P q) \<Longrightarrow> tracks (fst (vs_insert p v)) Q n"
  unfolding tracks_def by (auto simp: vecset_specs)

lemma tracks_erase:
  "tracks v P n \<Longrightarrow> \<not> Q p \<Longrightarrow> (\<And>q. q < n \<Longrightarrow> q \<noteq> p \<Longrightarrow> Q q = P q) \<Longrightarrow> tracks (fst (vs_erase p v)) Q n"
  unfolding tracks_def by (auto simp: vecset_specs)

lemma tracks_grow: "tracks v P n \<Longrightarrow> \<not> Q n \<Longrightarrow> (\<And>q. q < n \<Longrightarrow> Q q = P q) \<Longrightarrow> tracks v Q (Suc n)"
  unfolding tracks_def by (auto simp: less_Suc_eq)

section \<open>The invariant\<close>

definition buffers_ok :: "(symaddr \<times> pending_store_byte list) list \<Rightarrow> bool" where
  "buffers_ok bufs \<longleftrightarrow> distinct (map fst bufs) \<and> (\<forall>b sb. map_of bufs b = Some sb \<longrightarrow> sb \<noteq> [])"

definition thread_ok :: "pso_thread \<Rightarrow> bool" where
  "thread_ok t \<longleftrightarrow>
     (\<not> th_sleeping t \<longrightarrow> th_sleep_accesses_r t = [] \<and> th_sleep_accesses_w t = [] \<and> \<not> th_sleep_full_memory_conflict t) \<and>
     ascending (th_sleep_accesses_r t) \<and> ascending (th_sleep_accesses_w t) \<and> buffers_ok (th_store_buffers t) \<and>
     length (th_aux_to_ipid t) = length (th_aux_to_byte t) \<and>
     (\<forall>b a. map_of (th_byte_to_aux t) b = Some a \<longleftrightarrow> a < length (th_aux_to_byte t) \<and> th_aux_to_byte t ! a = b)"

definition event_ok :: "pso_event \<Rightarrow> bool" where
  "event_ok e \<longleftrightarrow> ascending (pe_branch e) \<and> ascending (pe_sleep e) \<and> ascending (pe_wakeup e)"

text \<open>Each auxiliary thread is entered in its real thread, at its auxiliary index.\<close>

definition auxs_ok :: "pso \<Rightarrow> bool" where
  "auxs_ok st \<longleftrightarrow>
     (\<forall>p < length (threads st). length (aux_children (CPS st) ! p) = length (th_aux_to_byte (th st p)) \<and>
        (\<forall>a < length (th_aux_to_ipid (th st p)). let q = th_aux_to_ipid (th st p) ! a in
           q < length (threads st) \<and> is_aux st q \<and> th_parent (th st q) = int p \<and> aux_of st q = int a)) \<and>
     (\<forall>q < length (threads st). is_aux st q \<longrightarrow>
        (\<exists>p < length (threads st). th_parent (th st q) = int p \<and> nat (aux_of st q) < length (th_aux_to_ipid (th st p)) \<and>
           th_aux_to_ipid (th st p) ! nat (aux_of st q) = q))"

definition pso_inv :: "pso \<Rightarrow> bool" where
  "pso_inv st \<longleftrightarrow>
     (\<forall>p < length (threads st). thread_ok (th st p)) \<and> (\<forall>k < length (prefix st). event_ok (prefix st ! k)) \<and>
     tracks (sleepers st) (\<lambda>p. th_sleeping (th st p)) (length (threads st)) \<and>
     tracks (available_threads st) (\<lambda>p. \<not> is_aux st p \<and> th_available (th st p)) (length (threads st)) \<and>
     tracks (available_auxs st) (\<lambda>p. is_aux st p \<and> th_available (th st p)) (length (threads st)) \<and>
     -1 \<le> prefix_idx st \<and> prefix_idx st < int (length (prefix st)) \<and>
     (\<not> replay st \<longrightarrow> prefix_idx st + 1 = int (length (prefix st))) \<and>
     (\<forall>k. int k \<le> prefix_idx st \<longrightarrow> ev_pid (prefix st ! k) < length (threads st)) \<and>
     (\<forall>pid. dryrun st \<and> dry_pid st = Some pid \<longrightarrow> pid < length (threads st) \<and> th_sleeping (th st pid)) \<and>
     (\<forall>p \<in> set (proc_to_ipid st). p < length (threads st)) \<and> distinct (proc_to_ipid st) \<and>
     cs_ok (CPS st) \<and> cpids (CPS st) = map th_cpid (threads st) \<and> auxs_ok st"

lemma assertp_Some [simp]: "assertp b = Some u \<longleftrightarrow> b" "assertp b \<bind> f = Some r \<longleftrightarrow> b \<and> f () = Some r"
  by (auto simp: assertp_def)

lemma curnode_Some: "curnode st = Some e \<longleftrightarrow>
    0 \<le> prefix_idx st \<and> prefix_idx st < int (length (prefix st)) \<and> e = ev st (prefix_idx st)"
  by (auto simp: curnode_def)

lemma upd_simps [simp]:
  "prefix (upd_th p f st) = prefix st" "sleepers (upd_th p f st) = sleepers st"
  "available_threads (upd_th p f st) = available_threads st" "available_auxs (upd_th p f st) = available_auxs st"
  "prefix_idx (upd_th p f st) = prefix_idx st" "replay (upd_th p f st) = replay st" "dryrun (upd_th p f st) = dryrun st"
  "CPS (upd_th p f st) = CPS st" "length (threads (upd_th p f st)) = length (threads st)"
  "dry_sleepers (upd_th p f st) = dry_sleepers st" "mem (upd_th p f st) = mem st" "mutexes (upd_th p f st) = mutexes st"
  "cond_vars (upd_th p f st) = cond_vars st" "proc_to_ipid (upd_th p f st) = proc_to_ipid st"
  "last_full_memory_conflict (upd_th p f st) = last_full_memory_conflict st"
  "threads (upd_ev i g st) = threads st" "sleepers (upd_ev i g st) = sleepers st"
  "available_threads (upd_ev i g st) = available_threads st" "available_auxs (upd_ev i g st) = available_auxs st"
  "prefix_idx (upd_ev i g st) = prefix_idx st" "replay (upd_ev i g st) = replay st" "dryrun (upd_ev i g st) = dryrun st"
  "CPS (upd_ev i g st) = CPS st" "length (prefix (upd_ev i g st)) = length (prefix st)"
  "dry_sleepers (upd_ev i g st) = dry_sleepers st" "mem (upd_ev i g st) = mem st" "mutexes (upd_ev i g st) = mutexes st"
  "cond_vars (upd_ev i g st) = cond_vars st" "proc_to_ipid (upd_ev i g st) = proc_to_ipid st"
  "last_full_memory_conflict (upd_ev i g st) = last_full_memory_conflict st"
  by (simp_all add: upd_th_def upd_ev_def)

lemma nth_upd_th: "q < length (threads st) \<Longrightarrow> th (upd_th p f st) q = (if q = p then f (th st p) else th st q)"
  by (auto simp: upd_th_def nth_list_update)

lemma nth_upd_ev: "k < length (prefix st) \<Longrightarrow> prefix (upd_ev i f st) ! k = (if k = nat i then f (ev st i) else prefix st ! k)"
  by (auto simp: upd_ev_def nth_list_update)

lemma dry_pid_upd_th [simp]: "dry_pid (upd_th p f st) = dry_pid st"
  by (simp add: dry_pid_def upd_th_def)

lemma map_cpid_upd_th: "(\<And>t. th_cpid (f t) = th_cpid t) \<Longrightarrow> map th_cpid (threads (upd_th p f st)) = map th_cpid (threads st)"
  by (rule nth_equalityI) (auto simp: nth_upd_th)

lemma auxs_ok_cong:
  assumes "auxs_ok st" "length (threads st') = length (threads st)" "CPS st' = CPS st"
    "\<And>q. q < length (threads st) \<Longrightarrow> th_cpid (th st' q) = th_cpid (th st q) \<and> th_parent (th st' q) = th_parent (th st q) \<and>
       th_aux_to_ipid (th st' q) = th_aux_to_ipid (th st q) \<and> th_aux_to_byte (th st' q) = th_aux_to_byte (th st q)"
  shows "auxs_ok st'"
proof -
  have same: "is_aux st' q = is_aux st q" "aux_of st' q = aux_of st q" "th_parent (th st' q) = th_parent (th st q)"
    "th_aux_to_ipid (th st' q) = th_aux_to_ipid (th st q)" "th_aux_to_byte (th st' q) = th_aux_to_byte (th st q)"
    if "q < length (threads st)" for q
    using assms(4) [OF that] by (auto simp: is_aux_def aux_of_def)
  show ?thesis
    unfolding auxs_ok_def Let_def assms(2,3)
    using assms(1) same unfolding auxs_ok_def Let_def by (intro conjI allI impI) auto
qed

subsection \<open>Changes that do not touch the fields of the invariant\<close>

text \<open>A change of a thread that keeps its identity, availability and sleep data.\<close>

definition neutral_th :: "(pso_thread \<Rightarrow> pso_thread) \<Rightarrow> bool" where
  "neutral_th f \<longleftrightarrow> (\<forall>t. th_cpid (f t) = th_cpid t \<and> th_available (f t) = th_available t \<and>
     th_sleeping (f t) = th_sleeping t \<and> th_parent (f t) = th_parent t \<and> th_aux_to_ipid (f t) = th_aux_to_ipid t \<and>
     th_aux_to_byte (f t) = th_aux_to_byte t \<and> (thread_ok t \<longrightarrow> thread_ok (f t)))"

lemma inv_upd_th:
  assumes "pso_inv st" "neutral_th f"
  shows "pso_inv (upd_th p f st)"
proof -
  have same: "th_cpid (th (upd_th p f st) q) = th_cpid (th st q)" "th_available (th (upd_th p f st) q) = th_available (th st q)"
    "th_sleeping (th (upd_th p f st) q) = th_sleeping (th st q)" "thread_ok (th st q) \<Longrightarrow> thread_ok (th (upd_th p f st) q)"
    if "q < length (threads st)" for q
    using that assms(2) by (auto simp: nth_upd_th neutral_th_def)
  have "map th_cpid (threads (upd_th p f st)) = map th_cpid (threads st)"
    using assms(2) by (intro map_cpid_upd_th) (simp add: neutral_th_def)
  moreover have "auxs_ok (upd_th p f st)"
    by (rule auxs_ok_cong [of st]) (use assms in \<open>auto simp: nth_upd_th neutral_th_def pso_inv_def\<close>)
  ultimately show ?thesis
    using assms(1) same unfolding pso_inv_def by (auto simp: is_aux_def elim!: tracks_cong)
qed

text \<open>A change of an event that keeps its thread and its sleep set.\<close>

definition neutral_ev :: "(pso_event \<Rightarrow> pso_event) \<Rightarrow> bool" where
  "neutral_ev f \<longleftrightarrow> (\<forall>e. pe_iid (f e) = pe_iid e \<and> pe_sleep (f e) = pe_sleep e \<and> (event_ok e \<longrightarrow> event_ok (f e)))"

lemma dry_pid_upd_ev:
  assumes "neutral_ev f"
  shows "dry_pid (upd_ev i f st) = dry_pid st"
proof -
  have "pe_sleep (ev (upd_ev i f st) (prefix_idx st + 1)) = pe_sleep (ev st (prefix_idx st + 1))"
    if "prefix_idx st + 1 < int (length (prefix st))"
  proof (cases "nat (prefix_idx st + 1) < length (prefix st)")
    case True
    then show ?thesis using assms by (auto simp: nth_upd_ev neutral_ev_def)
  next
    case False
    then have "prefix st = []" using that by (cases "prefix st") auto
    then show ?thesis by (simp add: upd_ev_def)
  qed
  then show ?thesis by (auto simp: dry_pid_def assertp_def)
qed

lemma inv_upd_ev:
  assumes "pso_inv st" "neutral_ev f"
  shows "pso_inv (upd_ev i f st)"
proof -
  have same: "event_ok (prefix st ! k) \<Longrightarrow> event_ok (prefix (upd_ev i f st) ! k)"
    "ev_pid (prefix (upd_ev i f st) ! k) = ev_pid (prefix st ! k)" if "k < length (prefix st)" for k
    using that assms(2) by (auto simp: nth_upd_ev neutral_ev_def)
  have "ev_pid (prefix (upd_ev i f st) ! k) < length (threads st)" if "int k \<le> prefix_idx st" for k
    using that same(2) [of k] assms(1) by (auto simp: pso_inv_def)
  moreover have "auxs_ok (upd_ev i f st)" by (rule auxs_ok_cong [of st]) (use assms in \<open>auto simp: pso_inv_def\<close>)
  ultimately show ?thesis
    using assms(1) same(1) dry_pid_upd_ev [OF assms(2)] unfolding pso_inv_def by (auto simp: is_aux_def elim!: tracks_cong)
qed

text \<open>Changes of the other fields.\<close>

lemma inv_other [simp]:
  "pso_inv (st\<lparr>mem := m\<rparr>) = pso_inv st" "pso_inv (st\<lparr>mutexes := x\<rparr>) = pso_inv st"
  "pso_inv (st\<lparr>cond_vars := c\<rparr>) = pso_inv st" "pso_inv (st\<lparr>errors := es\<rparr>) = pso_inv st"
  "pso_inv (st\<lparr>last_md := d\<rparr>) = pso_inv st" "pso_inv (st\<lparr>last_full_memory_conflict := l\<rparr>) = pso_inv st"
  by (simp_all add: pso_inv_def is_aux_def dry_pid_def auxs_ok_def aux_of_def Let_def)

lemma neutral_simps [simp]:
  "neutral_th (\<lambda>t. t\<lparr>th_clock := g t\<rparr>)" "neutral_th (\<lambda>t. t\<lparr>th_aux_clock_sum := g t\<rparr>)"
  "neutral_ev (\<lambda>e. e\<lparr>pe_clock := h e\<rparr>)" "neutral_ev (\<lambda>e. e\<lparr>pe_may_conflict := m\<rparr>)" "neutral_ev (\<lambda>e. e\<lparr>pe_md := d\<rparr>)"
  "neutral_ev (\<lambda>e. e\<lparr>pe_origin_iid := x, pe_md := d\<rparr>)" "neutral_ev (\<lambda>e. e\<lparr>pe_size := y e\<rparr>)"
  by (simp_all add: neutral_th_def neutral_ev_def thread_ok_def event_ok_def)

lemma inv_clock_add: "pso_inv st \<Longrightarrow> pso_inv (th_clock_add p c st)" "pso_inv st \<Longrightarrow> pso_inv (cur_clock_add c st)"
  "pso_inv st \<Longrightarrow> pso_inv (clock_tick p st)" "pso_inv st \<Longrightarrow> pso_inv (set_may_conflict st)"
  by (simp_all add: th_clock_add_def cur_clock_add_def clock_tick_def set_may_conflict_def inv_upd_th inv_upd_ev)

subsection \<open>Availability and sleep\<close>

lemma inv_upd_sets:
  assumes inv: "pso_inv st" and p: "p < length (threads st)"
    and f: "th_cpid (f (th st p)) = th_cpid (th st p)" "thread_ok (f (th st p))"
      "th_parent (f (th st p)) = th_parent (th st p)" "th_aux_to_ipid (f (th st p)) = th_aux_to_ipid (th st p)"
      "th_aux_to_byte (f (th st p)) = th_aux_to_byte (th st p)"
    and sl: "tracks sl (\<lambda>q. if q = p then th_sleeping (f (th st p)) else th_sleeping (th st q)) (length (threads st))"
    and avt: "tracks avt (\<lambda>q. \<not> is_aux st q \<and> (if q = p then th_available (f (th st p)) else th_available (th st q))) (length (threads st))"
    and aa: "tracks aa (\<lambda>q. is_aux st q \<and> (if q = p then th_available (f (th st p)) else th_available (th st q))) (length (threads st))"
    and dry: "\<And>pid. dryrun st \<Longrightarrow> dry_pid st = Some pid \<Longrightarrow> th_sleeping (if pid = p then f (th st p) else th st pid)"
  shows "pso_inv ((upd_th p f st)\<lparr>sleepers := sl, available_threads := avt, available_auxs := aa\<rparr>)" (is "pso_inv ?st")
proof -
  have th: "th ?st q = (if q = p then f (th st p) else th st q)" if "q < length (threads st)" for q
    using that by (simp add: nth_upd_th)
  have aux: "is_aux ?st q = is_aux st q" if "q < length (threads st)" for q using th f(1) that by (simp add: is_aux_def)
  have "map th_cpid (threads ?st) = map th_cpid (threads st)"
    by (rule nth_equalityI) (use th f(1) in auto)
  moreover have "dry_pid ?st = dry_pid st" by (simp add: dry_pid_def)
  moreover have "auxs_ok ?st" by (rule auxs_ok_cong [of st]) (use inv th f in \<open>auto simp: pso_inv_def\<close>)
  moreover have "tracks sl (\<lambda>q. th_sleeping (th ?st q)) (length (threads st))"
    by (rule tracks_cong [OF sl]) (simp add: nth_upd_th)
  moreover have "tracks avt (\<lambda>q. \<not> is_aux ?st q \<and> th_available (th ?st q)) (length (threads st))"
    by (rule tracks_cong [OF avt]) (use th aux in simp)
  moreover have "tracks aa (\<lambda>q. is_aux ?st q \<and> th_available (th ?st q)) (length (threads st))"
    by (rule tracks_cong [OF aa]) (use th aux in simp)
  moreover have "thread_ok (th ?st q)" if "q < length (threads st)" for q
    using that th f(2) inv by (simp add: pso_inv_def)
  moreover have "pid < length (threads st) \<and> th_sleeping (th ?st pid)" if "dryrun st" "dry_pid st = Some pid" for pid
    using dry [OF that] that inv th by (simp add: pso_inv_def)
  ultimately show ?thesis
    using inv unfolding pso_inv_def by simp
qed

lemmas pso_invD = pso_inv_def [THEN iffD1]

lemma inv_dry: "pso_inv st \<Longrightarrow> dryrun st \<Longrightarrow> dry_pid st = Some pid \<Longrightarrow> pid < length (threads st) \<and> th_sleeping (th st pid)"
  unfolding pso_inv_def by blast

lemma inv_mark_available:
  assumes inv: "pso_inv st" and p: "p < length (threads st)"
  shows "pso_inv (mark_available_ipid p st)"
proof -
  let ?f = "\<lambda>t. t\<lparr>th_available := True\<rparr>" and ?n = "length (threads st)"
  have aux: "is_aux (upd_th p ?f st) p = is_aux st p" using p by (simp add: is_aux_def nth_upd_th)
  have t: "tracks (sleepers st) (\<lambda>q. th_sleeping (th st q)) ?n"
    "tracks (available_threads st) (\<lambda>q. \<not> is_aux st q \<and> th_available (th st q)) ?n"
    "tracks (available_auxs st) (\<lambda>q. is_aux st q \<and> th_available (th st q)) ?n" "thread_ok (th st p)"
    using inv p by (auto simp: pso_inv_def)
  have "pso_inv ((upd_th p ?f st)\<lparr>sleepers := sleepers st,
      available_threads := if is_aux st p then available_threads st else fst (vs_insert p (available_threads st)),
      available_auxs := if is_aux st p then fst (vs_insert p (available_auxs st)) else available_auxs st\<rparr>)"
    using inv p t inv_dry [OF inv]
    by (intro inv_upd_sets) (auto simp: thread_ok_def intro: tracks_insert tracks_cong)
  then show ?thesis
    unfolding mark_available_ipid_def Let_def aux by (cases "is_aux st p") (simp_all add: upd_th_def)
qed

lemma inv_mark_unavailable:
  assumes inv: "pso_inv st" and p: "p < length (threads st)"
  shows "pso_inv (mark_unavailable_ipid p st)"
proof -
  let ?f = "\<lambda>t. t\<lparr>th_available := False\<rparr>" and ?n = "length (threads st)"
  have aux: "is_aux (upd_th p ?f st) p = is_aux st p" using p by (simp add: is_aux_def nth_upd_th)
  have t: "tracks (sleepers st) (\<lambda>q. th_sleeping (th st q)) ?n"
    "tracks (available_threads st) (\<lambda>q. \<not> is_aux st q \<and> th_available (th st q)) ?n"
    "tracks (available_auxs st) (\<lambda>q. is_aux st q \<and> th_available (th st q)) ?n" "thread_ok (th st p)"
    using inv p by (auto simp: pso_inv_def)
  have "pso_inv ((upd_th p ?f st)\<lparr>sleepers := sleepers st,
      available_threads := if is_aux st p then available_threads st else fst (vs_erase p (available_threads st)),
      available_auxs := if is_aux st p then fst (vs_erase p (available_auxs st)) else available_auxs st\<rparr>)"
    using inv p t inv_dry [OF inv]
    by (intro inv_upd_sets) (auto simp: thread_ok_def intro: tracks_erase tracks_cong)
  then show ?thesis
    unfolding mark_unavailable_ipid_def Let_def aux by (cases "is_aux st p") (simp_all add: upd_th_def)
qed

text \<open>Waking a sleeper; outside of a dry run.\<close>

lemma inv_wake:
  assumes inv: "pso_inv st" and p: "p < length (threads st)" and nd: "\<not> dryrun st"
  shows "pso_inv (wake p st)"
proof -
  let ?f = "\<lambda>t. t\<lparr>th_sleep_accesses_r := [], th_sleep_accesses_w := [], th_sleep_full_memory_conflict := False, th_sleeping := False\<rparr>"
  let ?n = "length (threads st)"
  have t: "tracks (sleepers st) (\<lambda>q. th_sleeping (th st q)) ?n"
    "tracks (available_threads st) (\<lambda>q. \<not> is_aux st q \<and> th_available (th st q)) ?n"
    "tracks (available_auxs st) (\<lambda>q. is_aux st q \<and> th_available (th st q)) ?n" "thread_ok (th st p)"
    using inv p by (auto simp: pso_inv_def)
  have "pso_inv ((upd_th p ?f st)\<lparr>sleepers := fst (vs_erase p (sleepers st)), available_threads := available_threads st,
      available_auxs := available_auxs st\<rparr>)"
    using inv p t nd by (intro inv_upd_sets) (auto simp: thread_ok_def intro: tracks_erase tracks_cong)
  then have 1: "pso_inv ((upd_th p ?f st)\<lparr>sleepers := fst (vs_erase p (sleepers st))\<rparr>)" by (simp add: upd_th_def)
  have "neutral_ev (\<lambda>e. e\<lparr>pe_wakeup := fst (vs_insert p (pe_wakeup e))\<rparr>)"
    by (auto simp: neutral_ev_def event_ok_def vecset_specs)
  from inv_upd_ev [OF 1 this] show ?thesis by (simp add: wake_def Let_def)
qed

section \<open>Operations on the current event\<close>

text \<open>What the registration methods leave alone: the threads there are, the position, the events' identifiers.\<close>

definition frame :: "pso \<Rightarrow> pso \<Rightarrow> bool" where
  "frame st st' \<longleftrightarrow> length (threads st') = length (threads st) \<and> prefix_idx st' = prefix_idx st \<and> dryrun st' = dryrun st \<and>
     map pe_iid (prefix st') = map pe_iid (prefix st)"

definition keeps :: "pso \<Rightarrow> pso \<Rightarrow> bool" where
  "keeps st st' \<longleftrightarrow> pso_inv st' \<and> frame st st'"

lemma keepsI: "pso_inv st' \<Longrightarrow> frame st st' \<Longrightarrow> keeps st st'"
  by (simp add: keeps_def)

lemma keepsD: "keeps st st' \<Longrightarrow> pso_inv st'" "keeps st st' \<Longrightarrow> length (threads st') = length (threads st)"
  "keeps st st' \<Longrightarrow> prefix_idx st' = prefix_idx st" "keeps st st' \<Longrightarrow> dryrun st' = dryrun st"
  "keeps st st' \<Longrightarrow> length (prefix st') = length (prefix st)"
  by (auto simp: keeps_def frame_def dest: map_eq_imp_length_eq)

lemma keeps_trans [trans]: "keeps st st' \<Longrightarrow> keeps st' st'' \<Longrightarrow> keeps st st''"
  by (simp add: keeps_def frame_def)

lemma keeps_refl: "pso_inv st \<Longrightarrow> keeps st st"
  by (simp add: keeps_def frame_def)

lemma map_iid_upd_ev: "(\<And>e. pe_iid (f e) = pe_iid e) \<Longrightarrow> map pe_iid (prefix (upd_ev i f st)) = map pe_iid (prefix st)"
  by (rule nth_equalityI) (auto simp: nth_upd_ev)

lemma frame_upd: "frame st (upd_th p g st)" "(\<And>e. pe_iid (f e) = pe_iid e) \<Longrightarrow> frame st (upd_ev i f st)"
  by (auto simp: frame_def map_iid_upd_ev)

lemma keeps_upd_th: "pso_inv st \<Longrightarrow> neutral_th f \<Longrightarrow> keeps st (upd_th p f st)"
  by (simp add: keeps_def inv_upd_th frame_upd)

lemma keeps_upd_ev: "pso_inv st \<Longrightarrow> neutral_ev f \<Longrightarrow> keeps st (upd_ev i f st)"
  by (simp add: keeps_def inv_upd_ev frame_upd neutral_ev_def)

lemma keeps_other:
  "pso_inv st \<Longrightarrow> keeps st (st\<lparr>mem := m\<rparr>)" "pso_inv st \<Longrightarrow> keeps st (st\<lparr>mutexes := x\<rparr>)"
  "pso_inv st \<Longrightarrow> keeps st (st\<lparr>cond_vars := c\<rparr>)" "pso_inv st \<Longrightarrow> keeps st (st\<lparr>errors := es\<rparr>)"
  "pso_inv st \<Longrightarrow> keeps st (st\<lparr>last_md := d\<rparr>)" "pso_inv st \<Longrightarrow> keeps st (st\<lparr>last_full_memory_conflict := l\<rparr>)"
  "pso_inv st \<Longrightarrow> keeps st (set_mutex a mx st)" "pso_inv st \<Longrightarrow> keeps st (set_cond a cv st)"
  by (simp_all add: keeps_def frame_def set_mutex_def set_cond_def)

lemma keeps_clocks:
  "pso_inv st \<Longrightarrow> keeps st (th_clock_add p c st)" "pso_inv st \<Longrightarrow> keeps st (cur_clock_add c st)"
  "pso_inv st \<Longrightarrow> keeps st (clock_tick p st)" "pso_inv st \<Longrightarrow> keeps st (set_may_conflict st)"
  by (simp_all add: th_clock_add_def cur_clock_add_def clock_tick_def set_may_conflict_def keeps_upd_th keeps_upd_ev)

lemma keeps_mark:
  "pso_inv st \<Longrightarrow> p < length (threads st) \<Longrightarrow> keeps st (mark_available_ipid p st)"
  "pso_inv st \<Longrightarrow> p < length (threads st) \<Longrightarrow> keeps st (mark_unavailable_ipid p st)"
  by (simp_all add: keeps_def inv_mark_available inv_mark_unavailable)
    (simp_all add: frame_def mark_available_ipid_def mark_unavailable_ipid_def Let_def)

lemma keeps_wake: "pso_inv st \<Longrightarrow> p < length (threads st) \<Longrightarrow> \<not> dryrun st \<Longrightarrow> keeps st (wake p st)"
  by (simp add: keeps_def inv_wake) (simp add: frame_def wake_def Let_def map_iid_upd_ev)

lemma keeps_wake_all:
  "pso_inv st \<Longrightarrow> \<not> dryrun st \<Longrightarrow> \<forall>p \<in> set ps. p < length (threads st) \<Longrightarrow> wake_all ps st = Some st' \<Longrightarrow> keeps st st'"
proof (induction ps arbitrary: st)
  case (Cons p ps)
  have k: "keeps st (wake p st)" using Cons.prems by (intro keeps_wake) auto
  have "keeps (wake p st) st'"
    using Cons.prems keepsD [OF k] by (intro Cons.IH) auto
  then show ?case using k keeps_trans by blast
qed (simp add: keeps_refl)

lemma inv_sets:
  assumes "pso_inv st"
  shows "set (sleepers st) = {p. p < length (threads st) \<and> th_sleeping (th st p)}"
    "set (available_threads st) = {p. p < length (threads st) \<and> \<not> is_aux st p \<and> th_available (th st p)}"
    "set (available_auxs st) = {p. p < length (threads st) \<and> is_aux st p \<and> th_available (th st p)}"
  using assms by (simp_all add: pso_inv_def tracks_def)

lemma keeps_wakeup: "pso_inv st \<Longrightarrow> \<not> dryrun st \<Longrightarrow> wakeup type ml st = Some st' \<Longrightarrow> keeps st st'"
  unfolding wakeup_def
  by (auto simp: bind_eq_Some_conv inv_sets intro: keeps_wake_all [rotated 3])

lemma neutral_branch: "neutral_ev (\<lambda>e. e\<lparr>pe_branch := fst (vs_insert x (pe_branch e))\<rparr>)"
  by (auto simp: neutral_ev_def event_ok_def vecset_specs)

lemma keeps_add_branch: "pso_inv st \<Longrightarrow> add_branch i j st = Some st' \<Longrightarrow> keeps st st'"
  unfolding add_branch_def by (auto simp: keeps_refl intro!: keeps_upd_ev neutral_branch split: sum.splits option.splits)

lemma keeps_add_branches: "pso_inv st \<Longrightarrow> add_branches is st = Some st' \<Longrightarrow> keeps st st'"
proof (induction "is" arbitrary: st)
  case (Cons i "is")
  then obtain st1 where st1: "add_branch i (prefix_idx st) st = Some st1" "add_branches is st1 = Some st'"
    by (auto simp: bind_eq_Some_conv)
  have k: "keeps st st1" using keeps_add_branch Cons.prems(1) st1(1) by blast
  show ?case using keeps_trans [OF k Cons.IH [OF keepsD(1) [OF k] st1(2)]] .
qed (simp add: keeps_refl)

lemma keeps_see_clocks: "pso_inv st \<Longrightarrow> see_clocks is st = Some st' \<Longrightarrow> keeps st st'"
proof (induction "is" arbitrary: st)
  case (Cons i "is")
  show ?case
  proof (cases "i < 0")
    case False
    then obtain e where e: "see_clocks is (th_clock_add (ev_pid e) (pe_clock (ev (cur_clock_add (pe_clock (ev st i)) st) i))
        (cur_clock_add (pe_clock (ev st i)) st)) = Some st'"
      using Cons.prems(2) by (auto simp: bind_eq_Some_conv Let_def)
    have k: "keeps st (cur_clock_add (pe_clock (ev st i)) st)" using Cons.prems(1) by (rule keeps_clocks)
    note k2 = keeps_trans [OF k keeps_clocks(1) [OF keepsD(1) [OF k]]]
    show ?thesis using keeps_trans [OF k2 Cons.IH [OF keepsD(1) [OF k2] e]] .
  qed (use Cons in simp)
qed (simp add: keeps_refl)

lemma keeps_see_events: "pso_inv st \<Longrightarrow> see_events seen st = Some st' \<Longrightarrow> keeps st st'"
  unfolding see_events_def
  by (auto simp: bind_eq_Some_conv Let_def dest: keeps_see_clocks keeps_add_branches keepsD(1) intro: keeps_trans)

section \<open>Registration methods\<close>

text \<open>
  Rules for the methods, written as sequences of operations: \<open>keepsM st m\<close> says that whatever \<open>m\<close>
  returns keeps the invariant and the frame of \<open>st\<close>.
\<close>

definition keepsM :: "pso \<Rightarrow> ('r \<times> pso) option \<Rightarrow> bool" where
  "keepsM st m \<longleftrightarrow> (\<forall>r st'. m = Some (r, st') \<longrightarrow> keeps st st')"

lemma keepsM_ret: "keeps st st1 \<Longrightarrow> keepsM st (Some (r, st1))"
  by (simp add: keepsM_def)

lemma keepsM_None: "keepsM st None"
  by (simp add: keepsM_def)

lemma keepsM_assertp: "(b \<Longrightarrow> keepsM st (f ())) \<Longrightarrow> keepsM st (assertp b \<bind> f)"
  by (simp add: keepsM_def)

lemma keepsM_curnode:
  "(0 \<le> prefix_idx st1 \<Longrightarrow> prefix_idx st1 < int (length (prefix st1)) \<Longrightarrow> keepsM st (f (ev st1 (prefix_idx st1)))) \<Longrightarrow>
    keepsM st (curnode st1 \<bind> f)"
  by (auto simp: keepsM_def bind_eq_Some_conv curnode_Some)

lemma keepsM_option: "(\<And>x. m = Some x \<Longrightarrow> keepsM st (f x)) \<Longrightarrow> keepsM st (m \<bind> f)"
  by (auto simp: keepsM_def bind_eq_Some_conv)

lemma keepsM_state: "(\<And>st2. m = Some st2 \<Longrightarrow> keeps st st2) \<Longrightarrow> (\<And>st2. keeps st st2 \<Longrightarrow> keepsM st (f st2)) \<Longrightarrow> keepsM st (m \<bind> f)"
  by (auto simp: keepsM_def bind_eq_Some_conv)

lemma keepsM_triple:
  "(\<And>a b st2. m = Some (a, b, st2) \<Longrightarrow> keeps st st2) \<Longrightarrow> (\<And>a b st2. keeps st st2 \<Longrightarrow> keepsM st (f (a, b, st2))) \<Longrightarrow>
    keepsM st (m \<bind> f)"
  by (auto simp: keepsM_def bind_eq_Some_conv)

lemma keeps_see_events2: "see_events s st1 = Some st2 \<Longrightarrow> keeps st st1 \<Longrightarrow> keeps st st2"
  using keeps_see_events keeps_trans keepsD(1) by blast

lemma keepsM_see_events:
  "keeps st st1 \<Longrightarrow> (\<And>st2. keeps st st2 \<Longrightarrow> keepsM st (f st2)) \<Longrightarrow> keepsM st (see_events s st1 \<bind> f)"
  by (rule keepsM_state) (use keeps_see_events keeps_trans keepsD(1) in blast)+

lemma keepsM_wakeup:
  assumes "keeps st st1" "\<not> dryrun st" "\<And>st2. keeps st st2 \<Longrightarrow> keepsM st (f st2)"
  shows "keepsM st (wakeup type ml st1 \<bind> f)"
proof (rule keepsM_state)
  fix st2 assume "wakeup type ml st1 = Some st2"
  then show "keeps st st2"
    using keeps_wakeup keepsD(1) [OF assms(1)] keepsD(4) [OF assms(1)] assms(2) keeps_trans [OF assms(1)] by blast
qed (rule assms(3))

lemma keepsM_try_then: "keepsM st m \<Longrightarrow> (\<And>st1. keeps st st1 \<Longrightarrow> keepsM st (f st1)) \<Longrightarrow> keepsM st (try_then m f)"
  by (auto simp: keepsM_def try_then_def bind_eq_Some_conv split: if_splits)

lemma keepsM_if: "(b \<Longrightarrow> keepsM st m) \<Longrightarrow> (\<not> b \<Longrightarrow> keepsM st m') \<Longrightarrow> keepsM st (if b then m else m')"
  by simp

lemma keepsM_case: "(x = None \<Longrightarrow> keepsM st m) \<Longrightarrow> (\<And>y. x = Some y \<Longrightarrow> keepsM st (f y)) \<Longrightarrow>
    keepsM st (case x of None \<Rightarrow> m | Some y \<Rightarrow> f y)"
  by (cases x) auto

lemma keeps_step: "keeps st st1 \<Longrightarrow> (pso_inv st1 \<Longrightarrow> keeps st1 st2) \<Longrightarrow> keeps st st2"
  using keeps_trans keepsD(1) by blast

text \<open>Steps on a state reached with the invariant.\<close>

lemma keeps_steps:
  "keeps st st1 \<Longrightarrow> keeps st (set_mutex a mx st1)" "keeps st st1 \<Longrightarrow> keeps st (set_cond a cv st1)"
  "keeps st st1 \<Longrightarrow> keeps st (st1\<lparr>mem := m\<rparr>)" "keeps st st1 \<Longrightarrow> keeps st (st1\<lparr>mutexes := x\<rparr>)"
  "keeps st st1 \<Longrightarrow> keeps st (st1\<lparr>cond_vars := c\<rparr>)" "keeps st st1 \<Longrightarrow> keeps st (st1\<lparr>errors := es\<rparr>)"
  "keeps st st1 \<Longrightarrow> keeps st (st1\<lparr>last_full_memory_conflict := l\<rparr>)"
  "keeps st st1 \<Longrightarrow> keeps st (th_clock_add p clk st1)" "keeps st st1 \<Longrightarrow> keeps st (cur_clock_add clk st1)"
  "keeps st st1 \<Longrightarrow> keeps st (set_may_conflict st1)" 
  "keeps st st1 \<Longrightarrow> neutral_th f \<Longrightarrow> keeps st (upd_th p f st1)" "keeps st st1 \<Longrightarrow> neutral_ev g \<Longrightarrow> keeps st (upd_ev i g st1)"
  by (erule keeps_step, erule keeps_other keeps_clocks keeps_upd_th keeps_upd_ev, assumption?)+

lemma keeps_marks:
  "keeps st st1 \<Longrightarrow> p < length (threads st) \<Longrightarrow> keeps st (mark_unavailable_ipid p st1)"
  "keeps st st1 \<Longrightarrow> p < length (threads st) \<Longrightarrow> keeps st (mark_available_ipid p st1)"
  using keeps_mark keeps_trans keepsD(1,2) by metis+

lemmas keepsM_rules =
  keepsM_ret keepsM_None keepsM_assertp keepsM_curnode keepsM_see_events keepsM_wakeup keepsM_try_then keepsM_if keepsM_case

lemma inv_cur_pid: "keeps st st1 \<Longrightarrow> 0 \<le> prefix_idx st1 \<Longrightarrow> ev_pid (ev st1 (prefix_idx st1)) < length (threads st)"
  using keepsD(1,2) [of st st1] by (simp add: pso_inv_def)

lemma keepsM_pthreads_error: "keeps st st1 \<Longrightarrow> keepsM st (pthreads_error msg st1)"
  unfolding pthreads_error_def by (intro keepsM_option keepsM_ret keeps_steps)

lemma neutral_sleep:
  assumes "pso_inv st" "dryrun st" "dry_pid st = Some pid" "\<And>t. thread_ok t \<Longrightarrow> th_sleeping t \<Longrightarrow> thread_ok (f t)"
    "\<And>t. th_cpid (f t) = th_cpid t \<and> th_available (f t) = th_available t \<and> th_sleeping (f t) = th_sleeping t \<and>
       th_parent (f t) = th_parent t \<and> th_aux_to_ipid (f t) = th_aux_to_ipid t \<and> th_aux_to_byte (f t) = th_aux_to_byte t"
  shows "keeps st (upd_th pid f st)"
proof -
  have pid: "pid < length (threads st)" "th_sleeping (th st pid)" using inv_dry [OF assms(1,2,3)] by auto
  have "neutral_th (\<lambda>t. if th_sleeping t then f t else t)" using assms(4,5) by (auto simp: neutral_th_def)
  then have "keeps st (upd_th pid (\<lambda>t. if th_sleeping t then f t else t) st)" using keeps_upd_th assms(1) by blast
  then show ?thesis using pid by (simp add: upd_th_def)
qed

lemma insert_all_spec: "ascending s \<Longrightarrow> ascending (insert_all xs s) \<and> set (insert_all xs s) = set s \<union> set xs"
  using vs.fold_ins [of s xs] by (simp add: insert_all_def)

lemma keepsM_dry:
  assumes "pso_inv st" "dryrun st"
  shows "keepsM st (dry_read bs st)" "keepsM st (dry_write bs st)"
  unfolding dry_read_def dry_write_def
  by (intro keepsM_option keepsM_ret neutral_sleep assms; simp add: thread_ok_def insert_all_spec)+

lemma keepsM_dry_write: "keeps st st1 \<Longrightarrow> dryrun st1 \<Longrightarrow> keepsM st (dry_write bs st1)"
  and keepsM_dry_read: "keeps st st1 \<Longrightarrow> dryrun st1 \<Longrightarrow> keepsM st (dry_read bs st1)"
  using keepsM_dry keepsD(1) keeps_trans unfolding keepsM_def by blast+

lemma keepsM_fence: "keeps st st1 \<Longrightarrow> keepsM st (fence st1)"
  unfolding fence_def Let_def by (intro keepsM_rules keepsM_option keeps_steps)

lemma keeps_race_with: "keeps st st1 \<Longrightarrow> race_with i st1 = Some st2 \<Longrightarrow> keeps st st2"
  unfolding race_with_def
  by (auto simp: bind_eq_Some_conv split: if_splits intro: keeps_step keeps_add_branch)

lemma keepsM_race_with:
  "keeps st st1 \<Longrightarrow> (\<And>st2. keeps st st2 \<Longrightarrow> keepsM st (f st2)) \<Longrightarrow> keepsM st (race_with i st1 \<bind> f)"
  by (rule keepsM_state) (use keeps_race_with in blast)+

lemma keepsM_join: "pso_inv st \<Longrightarrow> keepsM st (join p st)"
  unfolding join_def Let_def by (intro keepsM_rules keeps_steps keeps_refl)

lemma keepsM_mutex:
  assumes "keeps st st1"
  shows "keepsM st (mutex_unlock ml st1)" "keepsM st (mutex_trylock ml st1)" "keepsM st (mutex_init ml st1)"
    "keepsM st (mutex_destroy ml st1)"
  unfolding mutex_unlock_def mutex_trylock_def mutex_init_def mutex_destroy_def Let_def
  using assms keepsD(4) [OF assms]
  by (intro keepsM_rules keepsM_dry_write keepsM_fence keeps_steps; simp)+

lemma keepsM_mutex_lock:
  assumes "keeps st st1"
  shows "keepsM st (mutex_lock ml st1)"
proof -
  have lock: "keeps st st3" if "keeps st st2"
    "(if mx_last_lock m < 0 then see_events s st2
      else race_with (mx_last_lock m) st2 \<bind> (\<lambda>st2. let clk = pe_clock (ev st2 i); st3 = th_clock_add p clk (cur_clock_add clk st2)
        in see_events (vs_of_range [] [last_full_memory_conflict st3]) st3)) = Some st3" for m i p s st2 st3
    using that keeps_race_with [OF that(1)]
    by (auto simp: bind_eq_Some_conv Let_def split: if_splits elim!: keeps_see_events2 intro!: keeps_steps)
  show ?thesis
    unfolding mutex_lock_def Let_def
    using assms keepsD(4) [OF assms]
    by (intro keepsM_if keepsM_dry_write keepsM_try_then keepsM_fence keepsM_curnode keepsM_wakeup keeps_steps
        keepsM_state keepsM_ret; simp?) (erule lock [unfolded Let_def], assumption)
qed

lemma keepsM_mutex_lock_fail: "pso_inv st \<Longrightarrow> keepsM st (mutex_lock_fail ml st)"
  unfolding mutex_lock_fail_def Let_def
  by (intro keepsM_assertp keepsM_race_with keepsM_ret keepsM_state keeps_refl)
    (auto split: if_splits dest: keeps_race_with)

lemma keepsM_cond_init: "pso_inv st \<Longrightarrow> keepsM st (cond_init ml st)"
  unfolding cond_init_def Let_def
  by (intro keepsM_rules keepsM_dry_write keepsM_fence keepsM_pthreads_error keeps_steps keeps_refl)

lemma neutral_alternatives: "neutral_ev (\<lambda>e. e\<lparr>pe_branch := insert_all (xs e) (pe_branch e)\<rparr>)"
  by (simp add: neutral_ev_def event_ok_def insert_all_spec)

lemma keepsM_register_alternatives: "keeps st st1 \<Longrightarrow> keepsM st (register_alternatives n st1)"
  unfolding register_alternatives_def Let_def
  by (intro keepsM_rules) (auto intro!: keeps_steps neutral_alternatives)

lemma keeps_wake_waiter:
  assumes "keeps st st1" "wake_waiter i st1 = Some st2"
  shows "keeps st st2"
proof -
  from assms(2) have i: "0 \<le> i" "i < prefix_idx st1" by (auto simp: wake_waiter_def)
  have "ev_pid (ev st1 i) < length (threads st)"
    using keepsD(1,2) [OF assms(1)] i by (simp add: pso_inv_def)
  then show ?thesis
    using assms by (auto simp: wake_waiter_def Let_def bind_eq_Some_conv intro: keeps_steps keeps_marks)
qed

lemma keeps_wake_waiters: "keeps st st1 \<Longrightarrow> wake_waiters is st1 = Some st2 \<Longrightarrow> keeps st st2"
  by (induction "is" arbitrary: st1) (auto simp: bind_eq_Some_conv dest: keeps_wake_waiter)

lemma keepsM_cond_broadcast: "pso_inv st \<Longrightarrow> keepsM st (cond_broadcast ml st)"
  unfolding cond_broadcast_def Let_def
  by (intro keepsM_if keepsM_dry_write keepsM_try_then keepsM_fence keepsM_curnode keepsM_wakeup keepsM_case
      keepsM_pthreads_error keepsM_state keepsM_ret keeps_steps keeps_refl)
    (auto dest: keeps_wake_waiters elim!: keeps_see_events2 intro!: keeps_steps)

lemma keepsM_cond_signal: "pso_inv st \<Longrightarrow> keepsM st (cond_signal ml st)"
proof -
  assume inv: "pso_inv st"
  have step: "keeps st st3" if "keeps st st2"
    "(if ws \<noteq> [] then wake_waiter (ws ! k) st2 \<bind> (\<lambda>st3. Some (g, h, st3)) else Some (s, c, st2)) = Some (s1, c1, st3)"
    for ws k st2 st3 g h s c s1 c1
    using that by (auto simp: bind_eq_Some_conv split: if_splits dest: keeps_wake_waiter)
  show ?thesis
    unfolding cond_signal_def Let_def
    using inv
    by (intro keepsM_if keepsM_dry_write keepsM_try_then keepsM_fence keepsM_curnode keepsM_wakeup keepsM_case
        keepsM_pthreads_error keepsM_assertp keepsM_triple keepsM_ret keeps_steps keeps_refl keepsM_register_alternatives)
      (auto split: if_splits simp: bind_eq_Some_conv dest: keeps_wake_waiter intro!: keepsM_see_events keepsM_ret keeps_steps)
qed

lemma keepsM_cond_wait: "pso_inv st \<Longrightarrow> keepsM st (cond_wait c m st)"
  unfolding cond_wait_def Let_def
  by (intro keepsM_case keepsM_if keepsM_dry_read keepsM_try_then keepsM_fence keepsM_curnode keepsM_wakeup
      keepsM_pthreads_error keepsM_see_events keepsM_ret keeps_steps keeps_refl keepsM_mutex keeps_marks inv_cur_pid;
      (simp add: keepsD)?)

lemma keepsM_cond_destroy: "pso_inv st \<Longrightarrow> keepsM st (cond_destroy eb ml st)"
proof -
  assume inv: "pso_inv st"
  have dry: "dryrun st \<Longrightarrow> keepsM st (map_option (\<lambda>(_, st). (0, st)) (dry_write bs st))" for bs
    using keepsM_dry_write [OF keeps_refl [OF inv]] by (fastforce simp: keepsM_def)
  have pair: "keepsM st m \<Longrightarrow> (\<And>r st2. keeps st st2 \<Longrightarrow> keepsM st (g r st2)) \<Longrightarrow> keepsM st (m \<bind> (\<lambda>(r, st2). g r st2))"
    for m :: "(bool \<times> pso) option" and g :: "bool \<Rightarrow> pso \<Rightarrow> (int \<times> pso) option"
    by (auto simp: keepsM_def bind_eq_Some_conv)
  show ?thesis
    unfolding cond_destroy_def Let_def
    by (intro keepsM_if dry pair keepsM_fence keepsM_pthreads_error keepsM_curnode keepsM_wakeup keepsM_case keeps_refl inv
        keepsM_see_events keepsM_ret keeps_steps)
qed

lemma keepsM_full_memory_conflict: "pso_inv st \<Longrightarrow> keepsM st (full_memory_conflict st)"
proof -
  assume inv: "pso_inv st"
  have "keeps st (upd_th pid (\<lambda>t. t\<lparr>th_sleep_full_memory_conflict := True\<rparr>) st)" if "dryrun st" "dry_pid st = Some pid" for pid
    by (rule neutral_sleep [OF inv that]) (auto simp: thread_ok_def)
  moreover have "keeps st (st1\<lparr>last_full_memory_conflict := l, mem := m\<rparr>)" if "keeps st st1" for st1 l m
    using keeps_steps(3) [OF keeps_steps(7) [OF that]] by simp
  ultimately show ?thesis
    unfolding full_memory_conflict_def Let_def
    by (intro keepsM_if keepsM_curnode keepsM_see_events keepsM_wakeup keeps_steps(10) keeps_refl inv)
      (auto intro: keepsM_ret keepsM_option)
qed

subsection \<open>Loads and stores\<close>

lemma buffers_ok_update: "buffers_ok bufs \<Longrightarrow> sb \<noteq> [] \<Longrightarrow> buffers_ok (AList.update b sb bufs)"
  unfolding buffers_ok_def by (auto simp: AList.distinct_update AList.update_conv')

lemma buffers_ok_delete: "buffers_ok bufs \<Longrightarrow> buffers_ok (AList.delete b bufs)"
  unfolding buffers_ok_def by (auto simp: AList.distinct_delete AList.delete_conv')

lemma neutral_buffers: "sb \<noteq> [] \<Longrightarrow> neutral_th (\<lambda>t. t\<lparr>th_store_buffers := AList.update b sb (th_store_buffers t)\<rparr>)"
  "neutral_th (\<lambda>t. t\<lparr>th_store_buffers := AList.delete b (th_store_buffers t)\<rparr>)"
  by (simp_all add: neutral_th_def thread_ok_def buffers_ok_update buffers_ok_delete)

lemma neutral_buffer_push: "neutral_th (buffer_push b e)"
  by (simp add: neutral_th_def thread_ok_def buffer_push_def buffers_ok_update)

lemma neutral_comp: "neutral_th f \<Longrightarrow> neutral_th g \<Longrightarrow> neutral_th (g \<circ> f)"
  by (simp add: neutral_th_def)

lemma neutral_fold: "(\<And>b. neutral_th (f b)) \<Longrightarrow> neutral_th (fold f bs)"
  by (induction bs) (auto intro: neutral_comp simp: neutral_th_def)

lemma keeps_update_clock: "keeps st st1 \<Longrightarrow> update_clock ml u t st1 = Some st2 \<Longrightarrow> keeps st st2"
  by (auto simp: update_clock_def Let_def split: option.splits intro!: keeps_steps)

lemma keeps_fold: "keeps st st1 \<Longrightarrow> (\<And>x st1. keeps st st1 \<Longrightarrow> keeps st (f x st1)) \<Longrightarrow> keeps st (fold f xs st1)"
  by (induction xs arbitrary: st1) auto

lemma keeps_aux_clocks: "keeps st st1 \<Longrightarrow> aux_clocks t st1 = Some st2 \<Longrightarrow> keeps st st2"
  by (auto simp: aux_clocks_def Let_def bind_eq_Some_conv intro!: keeps_fold keeps_steps)

lemma keeps_see_byte_write: "keeps st st1 \<Longrightarrow> see_byte_write u t b (s, st1) = Some (s2, st2) \<Longrightarrow> keeps st st2"
  by (auto simp: see_byte_write_def Let_def bind_eq_Some_conv split: if_splits intro!: keeps_steps)

lemma keeps_see_bytes_write: "keeps st st1 \<Longrightarrow> see_bytes_write u t bs (s, st1) = Some (s2, st2) \<Longrightarrow> keeps st st2"
proof (induction bs arbitrary: s st1)
  case (Cons b bs)
  then obtain s3 st3 where "see_byte_write u t b (s, st1) = Some (s3, st3)" "see_bytes_write u t bs (s3, st3) = Some (s2, st2)"
    by (auto simp: bind_eq_Some_conv)
  then show ?case using Cons.IH keeps_see_byte_write [OF Cons.prems(1)] by blast
qed simp

lemma keeps_wakeup2: "wakeup type ml st1 = Some st2 \<Longrightarrow> keeps st st1 \<Longrightarrow> \<not> dryrun st \<Longrightarrow> keeps st st2"
  using keeps_wakeup keeps_trans keepsD(1,4) by metis

lemma keeps_register_write: "keeps st st1 \<Longrightarrow> \<not> dryrun st \<Longrightarrow> register_write ml p r bs st1 = Some st2 \<Longrightarrow> keeps st st2"
  by (induction bs arbitrary: st1) (auto simp: Let_def bind_eq_Some_conv dest!: keeps_wakeup2 [OF _ keeps_steps(3)])

lemma keeps_register_read: "keeps st st1 \<Longrightarrow> \<not> dryrun st \<Longrightarrow> register_read p bs st1 = Some st2 \<Longrightarrow> keeps st st2"
  by (induction bs arbitrary: st1) (auto simp: Let_def bind_eq_Some_conv dest!: keeps_wakeup2 [OF _ keeps_steps(3)])

lemma keeps_remove_pending:
  "keeps st st1 \<Longrightarrow> u < length (threads st) \<Longrightarrow> remove_pending u t bs st1 = Some st2 \<Longrightarrow> keeps st st2"
proof (induction bs arbitrary: st1)
  case (Cons b bs)
  then obtain sb where sb: "remove_pending u t bs
      (if vs_erase_at 0 sb = [] then mark_unavailable_ipid u (upd_th t (\<lambda>t. t\<lparr>th_store_buffers := AList.delete b (th_store_buffers t)\<rparr>) st1)
       else upd_th t (\<lambda>t. t\<lparr>th_store_buffers := AList.update b (vs_erase_at 0 sb) (th_store_buffers t)\<rparr>) st1) = Some st2"
    by (auto simp: Let_def split: option.splits)
  show ?case
    by (rule Cons.IH [OF _ Cons.prems(2) sb]) (use Cons.prems in \<open>auto intro!: keeps_marks keeps_steps neutral_buffers\<close>)
qed simp

lemma keepsM_atomic_store:
  assumes "keeps st st1"
  shows "keepsM st (atomic_store ml st1)"
proof (cases "dryrun st1")
  case True
  then show ?thesis using assms by (simp add: atomic_store_def keepsM_dry_write)
next
  case False
  then have nd: "\<not> dryrun st" using keepsD(4) [OF assms] by simp
  show ?thesis
    unfolding atomic_store_def Let_def keepsM_def
    using False inv_cur_pid [OF assms]
    by (auto simp: bind_eq_Some_conv curnode_Some
        dest!: keeps_update_clock [OF keeps_steps(10) [OF assms]] keeps_aux_clocks [OF keeps_steps(10) [OF assms]]
          keeps_see_bytes_write [rotated] keeps_see_events2 keeps_register_write [OF _ nd, rotated] keeps_remove_pending [rotated 2]
        intro!: keeps_steps split: if_splits)
qed

lemma keeps_see_byte_read: "keeps st (snd acc) \<Longrightarrow> keeps st (snd (see_byte_read ml p b acc))"
  by (auto simp: see_byte_read_def Let_def split: prod.splits intro!: keeps_steps)

lemma keeps_see_bytes_read: "keeps st (snd acc) \<Longrightarrow> keeps st (snd (fold (see_byte_read ml p) bs acc))"
  by (induction bs arbitrary: acc) (simp_all add: keeps_see_byte_read)

lemma keepsM_load:
  assumes "keeps st st1"
  shows "keepsM st (load ml st1)"
proof (cases "dryrun st1")
  case True
  then show ?thesis using assms by (simp add: load_def keepsM_dry_read)
next
  case False
  then have nd: "\<not> dryrun st" using keepsD(4) [OF assms] by simp
  have bk: "neutral_th (\<lambda>t. t\<lparr>th_store_buffers := AList.update a (set_back g sb) (th_store_buffers t)\<rparr>)" if "sb \<noteq> []" for a g sb
    using that by (intro neutral_buffers) (simp add: set_back_def)
  have read: "keeps st (snd (fold (see_byte_read ml p) bs ([], set_may_conflict st1)))" for p bs
    by (rule keeps_see_bytes_read) (simp add: keeps_steps(10) assms)
  have reg: "keepsM st (register_read p bs st2 \<bind> (\<lambda>st3. Some (True, st3)))" if "keeps st st2" for p bs st2
    using that nd by (intro keepsM_state keepsM_ret) (auto dest: keeps_register_read)
  have prod: "keepsM st (g (fst x) (snd x)) \<Longrightarrow> keepsM st (case x of (a, b) \<Rightarrow> g a b)"
    for x :: "int vecset \<times> pso" and g :: "int vecset \<Rightarrow> pso \<Rightarrow> (bool \<times> pso) option"
    by (cases x) simp
  show ?thesis
    unfolding load_def Let_def
    by (intro keepsM_if keepsM_curnode keepsM_case keepsM_assertp keepsM_ret keeps_steps bk prod keepsM_see_events read reg assms)
      (use False in auto)
qed

lemma keepsM_compare_exchange: "keeps st st1 \<Longrightarrow> keepsM st (compare_exchange ml b st1)"
  by (simp add: compare_exchange_def keepsM_load keepsM_atomic_store)

lemma keepsM_atomic_rmw: "pso_inv st \<Longrightarrow> keepsM st (atomic_rmw ml st)"
  unfolding atomic_rmw_def by (intro keepsM_try_then keepsM_load keepsM_atomic_store keeps_refl)

section \<open>New threads\<close>

lemma inv_cpid_mem: "pso_inv st \<Longrightarrow> p < length (threads st) \<Longrightarrow> th_cpid (th st p) \<in> set (cpids (CPS st))"
  by (simp add: pso_inv_def)

lemma inv_cs_id:
  assumes "pso_inv st" "p < length (threads st)"
  shows "cs_id (CPS st) (th_cpid (th st p)) = p"
proof -
  have ok: "cs_ok (CPS st)" and eq: "cpids (CPS st) = map th_cpid (threads st)" using assms by (auto simp: pso_inv_def)
  have "identifiers (CPS st) (th_cpid (th st p)) = Some p" using cs_okD(4) [OF ok] eq assms(2) by simp
  then show ?thesis by (simp add: cs_id_def)
qed

lemma inv_cur_pid2: "pso_inv st \<Longrightarrow> curnode st = Some e \<Longrightarrow> ev_pid e < length (threads st)"
  using inv_cur_pid [OF keeps_refl] by (auto simp: curnode_Some)

text \<open>
  A thread \<open>t\<close> is added that is neither available nor asleep, while the entries of thread \<open>p\<close> may grow.
\<close>

lemma inv_add_thread:
  assumes inv: "pso_inv st" and p: "p < length (threads st)"
    and f: "th_cpid (f (th st p)) = th_cpid (th st p)" "th_available (f (th st p)) = th_available (th st p)"
      "th_sleeping (f (th st p)) = th_sleeping (th st p)" "thread_ok (f (th st p))"
    and t: "\<not> th_available t" "\<not> th_sleeping t" "thread_ok t"
    and cps: "cs_ok cps" "cpids cps = cpids (CPS st) @ [th_cpid t]"
    and ps: "set ps \<subseteq> insert (length (threads st)) (set (proc_to_ipid st))" "distinct ps"
    and aux: "auxs_ok (st\<lparr>CPS := cps, threads := (threads st)[p := f (th st p)] @ [t], proc_to_ipid := ps\<rparr>)"
  shows "pso_inv (st\<lparr>CPS := cps, threads := (threads st)[p := f (th st p)] @ [t], proc_to_ipid := ps\<rparr>)" (is "pso_inv ?st")
proof -
  let ?n = "length (threads st)"
  have th: "th ?st q = (if q = p then f (th st p) else th st q)" if "q < ?n" for q
    using that by (simp add: nth_append nth_list_update)
  have new: "th ?st ?n = t" by (simp add: nth_append)
  have len: "length (threads ?st) = Suc ?n" by simp
  have "map th_cpid ((threads st)[p := f (th st p)]) = map th_cpid (threads st)"
    using f(1) p by (simp add: map_update list_update_same_conv)
  then have c: "cpids (CPS ?st) = map th_cpid (threads ?st)" using cps(2) inv by (simp add: pso_inv_def)
  have ia: "is_aux ?st q = is_aux st q" if "q < ?n" for q unfolding is_aux_def th [OF that] using f(1) by simp
  have tr: "tracks v Q (Suc ?n)" if "tracks v P ?n" "\<not> Q ?n" "\<And>q. q < ?n \<Longrightarrow> Q q = P q" for v P Q
    using tracks_grow that by blast
  show ?thesis
    unfolding pso_inv_def len
  proof (intro conjI)
    show "\<forall>q < Suc ?n. thread_ok (th ?st q)"
      using inv f(4) t(3) th new by (auto simp: pso_inv_def less_Suc_eq simp del: pso.simps)
    show "tracks (sleepers ?st) (\<lambda>q. th_sleeping (th ?st q)) (Suc ?n)"
      by (rule tr [of _ "\<lambda>q. th_sleeping (th st q)"]) (use inv t new th f(3) in \<open>auto simp: pso_inv_def\<close>)
    show "tracks (available_threads ?st) (\<lambda>q. \<not> is_aux ?st q \<and> th_available (th ?st q)) (Suc ?n)"
      by (rule tr [of _ "\<lambda>q. \<not> is_aux st q \<and> th_available (th st q)"]) (use inv t new th f(2) ia in \<open>auto simp: pso_inv_def\<close>)
    show "tracks (available_auxs ?st) (\<lambda>q. is_aux ?st q \<and> th_available (th ?st q)) (Suc ?n)"
      by (rule tr [of _ "\<lambda>q. is_aux st q \<and> th_available (th st q)"]) (use inv t new th f(2) ia in \<open>auto simp: pso_inv_def\<close>)
    have "dry_pid ?st = dry_pid st" by (simp add: dry_pid_def)
    then show "\<forall>pid. dryrun ?st \<and> dry_pid ?st = Some pid \<longrightarrow> pid < Suc ?n \<and> th_sleeping (th ?st pid)"
      using inv_dry [OF inv] th f(3) by (auto simp del: upd_simps)
    show "\<forall>k. int k \<le> prefix_idx ?st \<longrightarrow> ev_pid (prefix ?st ! k) < Suc ?n" using inv by (auto simp: pso_inv_def less_Suc_eq)
    show "\<forall>p \<in> set (proc_to_ipid ?st). p < Suc ?n" using inv ps(1) by (auto simp: pso_inv_def less_Suc_eq)
    show "distinct (proc_to_ipid ?st)" using ps(2) by simp
  qed (use inv cps c aux in \<open>auto simp: pso_inv_def\<close>)
qed

lemma inv_add_available:
  assumes "pso_inv (st\<lparr>CPS := cps, threads := ts @ [t\<lparr>th_available := False\<rparr>], proc_to_ipid := ps\<rparr>)"
  shows "pso_inv (mark_available_ipid (length ts) (st\<lparr>CPS := cps, threads := ts @ [t], proc_to_ipid := ps\<rparr>))"
proof -
  let ?off = "st\<lparr>CPS := cps, threads := ts @ [t\<lparr>th_available := False\<rparr>], proc_to_ipid := ps\<rparr>"
  have "pso_inv (mark_available_ipid (length ts) ?off)" by (rule inv_mark_available [OF assms]) simp
  moreover have "mark_available_ipid (length ts) ?off = mark_available_ipid (length ts) (st\<lparr>CPS := cps, threads := ts @ [t], proc_to_ipid := ps\<rparr>)"
    by (simp add: mark_available_ipid_def upd_th_def Let_def)
  ultimately show ?thesis by simp
qed

lemma thread_ok_new: "thread_ok ((Thread proc c clk parent)\<lparr>th_available := b\<rparr>)"
  by (simp add: thread_ok_def Thread_def buffers_ok_def)

lemma auxs_ok_other: "auxs_ok (st\<lparr>proc_to_ipid := ps\<rparr>) = auxs_ok st"
  by (simp add: auxs_ok_def is_aux_def aux_of_def)

lemma auxs_ok_spawn:
  assumes ok: "auxs_ok st" and len: "length (aux_children (CPS st)) = length (threads st)"
    and t: "\<not> is_auxiliary (th_cpid t)" "th_aux_to_ipid t = []" "th_aux_to_byte t = []"
    and cps: "aux_children cps = aux_children (CPS st) @ [[]]"
  shows "auxs_ok (st\<lparr>CPS := cps, threads := threads st @ [t], proc_to_ipid := ps\<rparr>)" (is "auxs_ok ?st")
proof -
  let ?n = "length (threads st)"
  have th: "th ?st q = th st q" "is_aux ?st q = is_aux st q" "aux_of ?st q = aux_of st q" "aux_children (CPS ?st) ! q = aux_children (CPS st) ! q"
    if "q < ?n" for q
    using that len by (simp_all add: nth_append is_aux_def aux_of_def cps)
  have new: "th ?st ?n = t" "\<not> is_aux ?st ?n" "aux_children (CPS ?st) ! ?n = []"
    using t(1) len by (simp_all add: nth_append is_aux_def cps)
  have n: "length (threads ?st) = Suc ?n" by simp
  note old = ok [unfolded auxs_ok_def Let_def]
  show ?thesis
    unfolding auxs_ok_def Let_def n
  proof (intro conjI allI impI)
    fix p assume "p < Suc ?n"
    then have p: "p < ?n \<or> p = ?n" by auto
    show "length (aux_children (CPS ?st) ! p) = length (th_aux_to_byte (th ?st p))"
      using p old th(1,4) [of p] new t(3) by auto
    fix a assume a: "a < length (th_aux_to_ipid (th ?st p))"
    then have "p < ?n" using p new(1) t(2) by auto
    then have "th_aux_to_ipid (th st p) ! a < ?n \<and> is_aux st (th_aux_to_ipid (th st p) ! a) \<and>
        th_parent (th st (th_aux_to_ipid (th st p) ! a)) = int p \<and> aux_of st (th_aux_to_ipid (th st p) ! a) = int a"
      using a old th(1) by (simp del: pso.simps)
    then show "th_aux_to_ipid (th ?st p) ! a < Suc ?n" "is_aux ?st (th_aux_to_ipid (th ?st p) ! a)"
      "th_parent (th ?st (th_aux_to_ipid (th ?st p) ! a)) = int p" "aux_of ?st (th_aux_to_ipid (th ?st p) ! a) = int a"
      using th \<open>p < ?n\<close> by (simp_all del: pso.simps)
  next
    fix q assume "q < Suc ?n" "is_aux ?st q"
    then have "q < ?n" using new(2) less_Suc_eq by blast
    then obtain p where "p < ?n" "th_parent (th st q) = int p" "nat (aux_of st q) < length (th_aux_to_ipid (th st p))"
      "th_aux_to_ipid (th st p) ! nat (aux_of st q) = q" using old \<open>is_aux ?st q\<close> th(2) by blast
    then show "\<exists>p < Suc ?n. th_parent (th ?st q) = int p \<and> nat (aux_of ?st q) < length (th_aux_to_ipid (th ?st p)) \<and>
        th_aux_to_ipid (th ?st p) ! nat (aux_of ?st q) = q"
      using th [OF \<open>q < ?n\<close>] th(1) [of p] by (intro exI [of _ p]) (simp del: pso.simps)
  qed
qed

lemma auxs_ok_store:
  assumes ok: "auxs_ok st" and len: "length (aux_children (CPS st)) = length (threads st)" and p: "p < length (threads st)"
    and f: "th_cpid (f (th st p)) = th_cpid (th st p)" "th_parent (f (th st p)) = th_parent (th st p)"
      "th_aux_to_ipid (f (th st p)) = th_aux_to_ipid (th st p) @ [length (threads st)]"
      "th_aux_to_byte (f (th st p)) = th_aux_to_byte (th st p) @ [b]"
    and eq: "length (th_aux_to_ipid (th st p)) = length (th_aux_to_byte (th st p))"
    and t: "is_auxiliary (th_cpid t)" "aux_idx (th_cpid t) = int (length (th_aux_to_byte (th st p)))" "th_parent t = int p"
      "th_aux_to_ipid t = []" "th_aux_to_byte t = []"
    and cps: "aux_children cps = (aux_children (CPS st))[p := aux_children (CPS st) ! p @ [x]] @ [[]]"
  shows "auxs_ok (st\<lparr>CPS := cps, threads := (threads st)[p := f (th st p)] @ [t], proc_to_ipid := ps\<rparr>)" (is "auxs_ok ?st")
proof -
  let ?n = "length (threads st)"
  have th: "th ?st q = (if q = p then f (th st p) else th st q)" "is_aux ?st q = is_aux st q" "aux_of ?st q = aux_of st q"
    "th_parent (th ?st q) = th_parent (th st q)"
    "aux_children (CPS ?st) ! q = aux_children (CPS st) ! q @ (if q = p then [x] else [])"
    "th_aux_to_ipid (th ?st q) = th_aux_to_ipid (th st q) @ (if q = p then [?n] else [])"
    "th_aux_to_byte (th ?st q) = th_aux_to_byte (th st q) @ (if q = p then [b] else [])"
    if "q < ?n" for q
    by (cases "q = p"; use that len f in \<open>simp add: nth_append is_aux_def aux_of_def cps\<close>)+
  have new: "th ?st ?n = t" "is_aux ?st ?n" "aux_children (CPS ?st) ! ?n = []" "aux_of ?st ?n = int (length (th_aux_to_byte (th st p)))"
    using t len by (simp_all add: nth_append is_aux_def cps aux_of_def)
  have n: "length (threads ?st) = Suc ?n" by simp
  note old = ok [unfolded auxs_ok_def Let_def]
  show ?thesis
    unfolding auxs_ok_def Let_def n
  proof (intro conjI allI impI)
    fix q assume "q < Suc ?n"
    then have q: "q < ?n \<or> q = ?n" by auto
    then show "length (aux_children (CPS ?st) ! q) = length (th_aux_to_byte (th ?st q))"
      using old th(5,7) [of q] new(1,3) t(5) by auto
    fix a assume a: "a < length (th_aux_to_ipid (th ?st q))"
    then have q: "q < ?n" using q new(1) t(4) by auto
    let ?r = "th_aux_to_ipid (th ?st q) ! a"
    have cases: "a < length (th_aux_to_ipid (th st q)) \<and> ?r = th_aux_to_ipid (th st q) ! a \<or> q = p \<and> a = length (th_aux_to_ipid (th st p)) \<and> ?r = ?n"
      using a th(6) [OF q] by (auto simp: nth_append split: if_splits)
    then have "(?r < ?n \<and> is_aux st ?r \<and> th_parent (th st ?r) = int q \<and> aux_of st ?r = int a)
        \<or> q = p \<and> a = length (th_aux_to_ipid (th st p)) \<and> ?r = ?n"
      using old q by auto
    then have "?r < Suc ?n \<and> is_aux ?st ?r \<and> th_parent (th ?st ?r) = int q \<and> aux_of ?st ?r = int a"
    proof (elim disjE conjE)
      assume "?r < ?n" "is_aux st ?r" "th_parent (th st ?r) = int q" "aux_of st ?r = int a"
      then show ?thesis using th(2-4) [of ?r] by (simp del: pso.simps)
    next
      assume *: "?r = ?n" "q = p" "a = length (th_aux_to_ipid (th st p))"
      show ?thesis unfolding *(1) using new t(3) eq *(2,3) by (simp del: pso.simps)
    qed
    then show "?r < Suc ?n" "is_aux ?st ?r" "th_parent (th ?st ?r) = int q" "aux_of ?st ?r = int a" by blast+
  next
    fix q assume "q < Suc ?n" "is_aux ?st q"
    then consider "q < ?n" "is_aux st q" | "q = ?n" using th(2) less_Suc_eq by blast
    then show "\<exists>p < Suc ?n. th_parent (th ?st q) = int p \<and> nat (aux_of ?st q) < length (th_aux_to_ipid (th ?st p)) \<and>
        th_aux_to_ipid (th ?st p) ! nat (aux_of ?st q) = q"
    proof cases
      case 1
      then obtain p' where "p' < ?n" "th_parent (th st q) = int p'" "nat (aux_of st q) < length (th_aux_to_ipid (th st p'))"
        "th_aux_to_ipid (th st p') ! nat (aux_of st q) = q" using old by blast
      then show ?thesis using th(3,4) [OF 1(1)] th(6) [of p'] by (intro exI [of _ p']) (auto simp: nth_append simp del: pso.simps)
    next
      case 2
      then show ?thesis using new t(3) th(6) [OF p] p eq by (intro exI [of _ p]) (auto simp: nth_append simp del: pso.simps)
    qed
  qed
qed

lemma inv_cps_length:
  assumes "pso_inv st"
  shows "length (aux_children (CPS st)) = length (threads st)" "length (cpids (CPS st)) = length (threads st)"
proof -
  have ok: "cs_ok (CPS st)" and eq: "cpids (CPS st) = map th_cpid (threads st)" using assms by (auto simp: pso_inv_def)
  show "length (aux_children (CPS st)) = length (threads st)" "length (cpids (CPS st)) = length (threads st)"
    using cs_okD(2) [OF ok] eq by simp_all
qed

lemma Thread_simps [simp]:
  "th_cpid (Thread proc c clk parent) = c" "th_parent (Thread proc c clk parent) = parent"
  "th_aux_to_ipid (Thread proc c clk parent) = []" "th_aux_to_byte (Thread proc c clk parent) = []"
  "th_sleeping (Thread proc c clk parent) = False" "th_available (Thread proc c clk parent) = True"
  by (simp_all add: Thread_def)

lemma inv_spawn:
  assumes inv: "pso_inv st" and sp: "spawn st = Some (r, st')"
  shows "pso_inv st'"
proof -
  obtain e c cps where e: "curnode st = Some e" and c: "cs_spawn (CPS st) (th_cpid (th st (ev_pid e))) = Some (c, cps)"
    and st': "st' = mark_available_ipid (length (threads st)) (st\<lparr>CPS := cps,
       proc_to_ipid := proc_to_ipid st @ [length (threads st)],
       threads := threads st @ [Thread (fold (\<lambda>t m. max m (th_proc t + 1)) (threads st) 0) c (th_clock (th st (ev_pid e))) (int (ev_pid e))]\<rparr>)"
    using sp by (auto simp: spawn_def bind_eq_Some_conv Let_def)
  let ?p = "ev_pid e" let ?t = "Thread (fold (\<lambda>t m. max m (th_proc t + 1)) (threads st) 0) c (th_clock (th st ?p)) (int ?p)"
  let ?ps = "proc_to_ipid st @ [length (threads st)]"
  have p: "?p < length (threads st)" by (rule inv_cur_pid2 [OF inv e])
  have ok: "cs_ok (CPS st)" using inv by (simp add: pso_inv_def)
  note spec = cs_spawn_spec [OF ok inv_cpid_mem [OF inv p] c]
  have ch: "aux_children cps = aux_children (CPS st) @ [[]]"
    using c by (auto simp: cs_spawn_def Let_def cs_add_def split: option.splits)
  have aux: "auxs_ok (st\<lparr>CPS := cps, threads := (threads st)[?p := id (th st ?p)] @ [?t\<lparr>th_available := False\<rparr>], proc_to_ipid := ?ps\<rparr>)"
    using inv spec ch inv_cps_length [OF inv] by (simp add: pso_inv_def auxs_ok_spawn)
  have "distinct ?ps" using inv by (auto simp: pso_inv_def)
  moreover have "thread_ok (th st ?p)" using inv p by (simp add: pso_inv_def)
  ultimately have "pso_inv (st\<lparr>CPS := cps, threads := (threads st)[?p := id (th st ?p)] @ [?t\<lparr>th_available := False\<rparr>], proc_to_ipid := ?ps\<rparr>)"
    using spec aux by (intro inv_add_thread [where f = id, OF inv p]) (auto simp: thread_ok_new)
  from inv_add_available [OF this] have "pso_inv (mark_available_ipid (length (threads st)) (st\<lparr>CPS := cps, threads := threads st @ [?t], proc_to_ipid := ?ps\<rparr>))"
    by simp
  moreover have "st\<lparr>CPS := cps, threads := x, proc_to_ipid := ?ps\<rparr> = st\<lparr>CPS := cps, proc_to_ipid := ?ps, threads := x\<rparr>" for x
    by simp
  ultimately show ?thesis unfolding st' by simp
qed

lemma inv_new_aux:
  assumes inv: "pso_inv st" and p: "p < length (threads st)" and c: "cs_new_aux (CPS st) (th_cpid (th st p)) = Some (c, cps)"
    and fresh: "map_of (th_byte_to_aux (th st p)) b = None"
    and t_def: "t = Thread proc c clk (int p)"
  defines "f \<equiv> \<lambda>t. t\<lparr>th_byte_to_aux := AList.update b (length (th_aux_to_byte (th st p))) (th_byte_to_aux t),
      th_aux_to_byte := th_aux_to_byte t @ [b], th_aux_to_ipid := th_aux_to_ipid t @ [length (threads st)]\<rparr>"
  shows "pso_inv (mark_available_ipid (length (threads st)) (upd_th p f (st\<lparr>CPS := cps, threads := threads st @ [t]\<rparr>)))"
proof -
  have ok: "cs_ok (CPS st)" and tok: "thread_ok (th st p)" using inv p by (simp_all add: pso_inv_def)
  note spec = cs_new_aux_spec [OF ok inv_cpid_mem [OF inv p] c]
  have len: "length (aux_children (CPS st) ! p) = length (th_aux_to_byte (th st p))"
    using inv p by (simp add: pso_inv_def auxs_ok_def)
  have ch: "aux_children cps = (aux_children (CPS st))[p := aux_children (CPS st) ! p @ [length (cpids (CPS st))]] @ [[]]"
    and idx: "aux_idx c = int (length (th_aux_to_byte (th st p)))"
    using c len by (auto simp: cs_new_aux_def Let_def cs_add_def inv_cs_id [OF inv p] cpid_aux_def split: option.splits if_splits)
  have aux: "auxs_ok (st\<lparr>CPS := cps, threads := (threads st)[p := f (th st p)] @ [t\<lparr>th_available := False\<rparr>], proc_to_ipid := proc_to_ipid st\<rparr>)"
    by (rule auxs_ok_store) (use inv inv_cps_length [OF inv] spec ch idx tok p in \<open>auto simp: pso_inv_def t_def f_def thread_ok_def\<close>)
  have "th_aux_to_byte (th st p) ! a \<noteq> b" if "a < length (th_aux_to_byte (th st p))" for a
  proof -
    have "map_of (th_byte_to_aux (th st p)) (th_aux_to_byte (th st p) ! a) = Some a" using tok that by (simp add: thread_ok_def)
    then show ?thesis using fresh by auto
  qed
  then have "thread_ok (f (th st p))"
    using tok by (auto simp: thread_ok_def f_def update_conv nth_append less_Suc_eq split: if_splits)
  moreover have "distinct (proc_to_ipid st)" using inv by (simp add: pso_inv_def)
  ultimately have "pso_inv (st\<lparr>CPS := cps, threads := (threads st)[p := f (th st p)] @ [t\<lparr>th_available := False\<rparr>], proc_to_ipid := proc_to_ipid st\<rparr>)"
    using spec aux by (intro inv_add_thread [where f = f, OF inv p]) (auto simp: thread_ok_new t_def f_def)
  from inv_add_available [OF this] show ?thesis using p by (simp add: upd_th_def nth_append list_update_append)
qed

lemma inv_store:
  assumes inv: "pso_inv st" and s: "store ml st = Some (r, st')"
  shows "pso_inv st'"
proof (cases "dryrun st")
  case True
  then show ?thesis using assms by (simp add: store_def)
next
  case False
  then obtain e where e: "curnode st = Some e" using s by (auto simp: store_def bind_eq_Some_conv)
  let ?p = "ev_pid e"
  let ?st1 = "upd_th ?p (fold (\<lambda>b. buffer_push b \<lparr>pb_ml = ml, pb_clock = th_clock (th st ?p), pb_last_rowe = -1, pb_md = last_md st\<rparr>)
      (as_elements ml)) st"
  have p: "?p < length (threads ?st1)" using inv_cur_pid2 [OF inv e] by simp
  have inv1: "pso_inv ?st1" by (rule inv_upd_th [OF inv neutral_fold]) (rule neutral_buffer_push)
  show ?thesis
  proof (cases "map_of (th_byte_to_aux (th ?st1 ?p)) (as_addr ml)")
    case None
    obtain c cps where c: "cs_new_aux (CPS ?st1) (th_cpid (th ?st1 ?p)) = Some (c, cps)"
      using s False e None by (auto simp: store_def bind_eq_Some_conv Let_def split: prod.splits)
    show ?thesis
      using inv_new_aux [OF inv1 p c None refl] s False e None c by (auto simp: store_def bind_eq_Some_conv Let_def)
  next
    case (Some a)
    have "thread_ok (th ?st1 ?p)" "auxs_ok ?st1" using inv1 p by (simp_all add: pso_inv_def del: upd_simps)
    then have "th_aux_to_ipid (th ?st1 ?p) ! a < length (threads ?st1)"
      using Some p unfolding thread_ok_def auxs_ok_def Let_def by metis
    then show ?thesis
      using s False e Some inv_mark_available [OF inv1] by (auto simp: store_def Let_def)
  qed
qed

section \<open>Scheduling\<close>

text \<open>A move to another position or another prefix, with the same threads.\<close>

lemma inv_move:
  assumes inv: "pso_inv st"
    and same: "threads st' = threads st" "CPS st' = CPS st" "sleepers st' = sleepers st" "available_threads st' = available_threads st"
      "available_auxs st' = available_auxs st" "proc_to_ipid st' = proc_to_ipid st"
    and evs: "\<And>k. k < length (prefix st') \<Longrightarrow> event_ok (prefix st' ! k)" "-1 \<le> prefix_idx st'" "prefix_idx st' < int (length (prefix st'))"
      "\<not> replay st' \<Longrightarrow> prefix_idx st' + 1 = int (length (prefix st'))"
      "\<And>k. int k \<le> prefix_idx st' \<Longrightarrow> ev_pid (prefix st' ! k) < length (threads st)"
    and dry: "\<And>pid. dryrun st' \<Longrightarrow> dry_pid st' = Some pid \<Longrightarrow> pid < length (threads st) \<and> th_sleeping (th st pid)"
  shows "pso_inv st'"
proof -
  have aux: "is_aux st' = is_aux st" "auxs_ok st' = auxs_ok st" using same by (auto simp: is_aux_def auxs_ok_def aux_of_def Let_def fun_eq_iff)
  show ?thesis unfolding pso_inv_def aux same using inv evs dry by (auto simp: pso_inv_def)
qed

lemma inv_prefixD: "pso_inv st \<Longrightarrow> k < length (prefix st) \<Longrightarrow> event_ok (prefix st ! k)" "pso_inv st \<Longrightarrow> -1 \<le> prefix_idx st"
  "pso_inv st \<Longrightarrow> prefix_idx st < int (length (prefix st))" "pso_inv st \<Longrightarrow> \<not> replay st \<Longrightarrow> prefix_idx st + 1 = int (length (prefix st))"
  "pso_inv st \<Longrightarrow> int k \<le> prefix_idx st \<Longrightarrow> ev_pid (prefix st ! k) < length (threads st)"
  by (simp_all add: pso_inv_def)

lemma inv_dry_set: "pso_inv st \<Longrightarrow> pso_inv (st\<lparr>dryrun := False\<rparr>)"
  "pso_inv st \<Longrightarrow> prefix_idx st + 1 = int (length (prefix st)) \<Longrightarrow> \<not> dryrun st \<Longrightarrow> pso_inv (st\<lparr>replay := False\<rparr>)"
  by (rule inv_move [of st]; simp add: inv_prefixD)+

lemma inv_butlast:
  assumes inv: "pso_inv st" and len: "prefix_idx st + 1 = int (length (prefix st))" "prefix st \<noteq> []"
  shows "pso_inv (st\<lparr>prefix := butlast (prefix st), prefix_idx := prefix_idx st - 1\<rparr>)" (is "pso_inv ?st")
proof (rule inv_move [OF inv])
  have "length (butlast (prefix st)) = length (prefix st) - 1" by simp
  then have l: "int (length (butlast (prefix st))) = prefix_idx st" using len by (cases "prefix st") auto
  then show "prefix_idx ?st < int (length (prefix ?st))" "prefix_idx ?st + 1 = int (length (prefix ?st))" "-1 \<le> prefix_idx ?st"
    by (simp_all del: length_butlast)
  have "dry_pid ?st = None" using l by (simp add: dry_pid_def assertp_def del: length_butlast)
  then show "pid < length (threads st) \<and> th_sleeping (th st pid)" if "dry_pid ?st = Some pid" for pid using that by simp
  show "event_ok (prefix ?st ! k)" if "k < length (prefix ?st)" for k using that inv_prefixD(1) [OF inv, of k] by (simp add: nth_butlast)
  show "ev_pid (prefix ?st ! k) < length (threads st)" if "int k \<le> prefix_idx ?st" for k
    using that inv_prefixD(5) [OF inv, of k] len by (simp add: nth_butlast)
qed simp_all

lemma inv_merge_last:
  assumes "pso_inv st" "\<not> replay st" "merge_last st = Some st'"
  shows "pso_inv st' \<and> prefix_idx st' + 1 = int (length (prefix st')) \<and> \<not> replay st' \<and> dryrun st' = dryrun st"
proof -
  have len: "prefix_idx st + 1 = int (length (prefix st))" using assms(1,2) by (simp add: pso_inv_def)
  define st1 where "st1 = upd_ev (int (length (prefix st) - 2)) (\<lambda>e. e\<lparr>pe_size := pe_size e + 1\<rparr>) st"
  have "pso_inv (st1\<lparr>prefix := butlast (prefix st1), prefix_idx := prefix_idx st1 - 1\<rparr>)" if "prefix st \<noteq> []"
    by (rule inv_butlast) (use len that assms(1) in \<open>auto simp: st1_def upd_ev_def [symmetric] intro!: inv_upd_ev dest: arg_cong [of _ _ length]\<close>)
  moreover have "prefix_idx st1 = prefix_idx st" "length (prefix st1) = length (prefix st)" "replay st1 = replay st" "dryrun st1 = dryrun st"
    by (simp_all add: st1_def)
  moreover have "st' = st \<or> prefix st \<noteq> [] \<and> st' = st1\<lparr>prefix := butlast (prefix st1), prefix_idx := prefix_idx st1 - 1\<rparr>"
    using assms(3) by (auto simp: merge_last_def Let_def st1_def split: if_splits)
  ultimately show ?thesis
    using assms(1,2) len by (auto simp: of_nat_diff Suc_le_eq)
qed

lemma pick_aux_mem: "pick_aux st ps = Some (Some p) \<Longrightarrow> p \<in> set ps \<and> can_run st p"
  by (induction ps) (auto simp: bind_eq_Some_conv split: if_splits)

lemma inv_push_new_event:
  assumes inv: "pso_inv st" and p: "p < length (threads st)" and d: "\<not> dryrun st" and psh: "push_new_event p st = Some (r, st')"
  shows "pso_inv st'"
proof -
  let ?st1 = "clock_tick p st" and ?e = "Event (p, vc_get (th_clock (th (clock_tick p st) p)) p) (th_clock (th (clock_tick p st) p))"
  have i1: "pso_inv ?st1" using inv by (rule inv_clock_add(3))
  have len: "prefix_idx st + 1 = int (length (prefix st))"
    and st': "st' = ?st1\<lparr>prefix := prefix ?st1 @ [?e], prefix_idx := prefix_idx ?st1 + 1\<rparr>"
    using psh by (auto simp: push_new_event_def Let_def clock_tick_def upd_th_def)
  have n: "length (threads ?st1) = length (threads st)" "prefix_idx ?st1 = prefix_idx st" "prefix ?st1 = prefix st" "\<not> dryrun ?st1"
    using d by (simp_all add: clock_tick_def)
  show ?thesis
    by (rule inv_move [OF i1]) (use inv_prefixD [OF inv] p len n in \<open>auto simp: st' nth_append Event_def event_ok_def\<close>)
qed

lemma inv_schedule_new:
  assumes inv: "pso_inv st" and d: "\<not> dryrun st" and s: "schedule_new st = Some (r, st')"
  shows "pso_inv st'"
proof -
  obtain st1 a where m: "\<not> replay st" "merge_last st = Some st1" and a: "pick_aux st1 (available_auxs st1) = Some a"
    and r: "(case a of Some p \<Rightarrow> push_new_event p st1
      | None \<Rightarrow> (case find (can_run st1) (available_threads st1) of None \<Rightarrow> Some (None, st1) | Some p \<Rightarrow> push_new_event p st1)) = Some (r, st')"
    using s by (auto simp: schedule_new_def bind_eq_Some_conv)
  have i1: "pso_inv st1" "\<not> dryrun st1" using inv_merge_last [OF inv m] d by auto
  have "p < length (threads st1)" if "p \<in> set (available_auxs st1) \<or> p \<in> set (available_threads st1)" for p
    using i1(1) that by (auto simp: pso_inv_def tracks_def)
  moreover have "p \<in> set (available_threads st1)" if "find (can_run st1) (available_threads st1) = Some p" for p
    using that by (auto simp: find_Some_iff)
  ultimately show ?thesis
    using r i1 a by (auto split: option.splits dest!: pick_aux_mem dest: inv_push_new_event)
qed

lemma inv_replay_sleeper:
  assumes inv: "pso_inv st" and s: "replay_sleeper st = Some (r, st')"
  shows "pso_inv st'"
proof -
  let ?pid = "pe_sleep (ev st (prefix_idx st + 1)) ! dry_sleepers st" and ?f = "\<lambda>t. t\<lparr>th_sleeping := True\<rparr>"
  let ?st0 = "st\<lparr>dry_sleepers := dry_sleepers st + 1, dryrun := False\<rparr>"
  have p: "?pid < length (threads st)" using s by (auto simp: replay_sleeper_def Let_def)
  have i0: "pso_inv ?st0" by (rule inv_move [OF inv]) (use inv_prefixD [OF inv] in auto)
  have t: "tracks (sleepers st) (\<lambda>q. th_sleeping (th st q)) (length (threads st))" "thread_ok (th st ?pid)"
    "tracks (available_threads st) (\<lambda>q. \<not> is_aux ?st0 q \<and> th_available (th st q)) (length (threads st))"
    "tracks (available_auxs st) (\<lambda>q. is_aux ?st0 q \<and> th_available (th st q)) (length (threads st))"
    using inv p by (auto simp: pso_inv_def is_aux_def)
  have "pso_inv ((upd_th ?pid ?f ?st0)\<lparr>sleepers := fst (vs_insert ?pid (sleepers st)),
      available_threads := available_threads st, available_auxs := available_auxs st\<rparr>)"
    by (rule inv_upd_sets [OF i0]) (use p t in \<open>auto simp: thread_ok_def intro: tracks_insert tracks_cong\<close>)
  moreover have "(upd_th ?pid ?f ?st0)\<lparr>sleepers := fst (vs_insert ?pid (sleepers st)),
      available_threads := available_threads st, available_auxs := available_auxs st\<rparr> = st'\<lparr>dryrun := False\<rparr>"
    using s by (auto simp: replay_sleeper_def Let_def upd_th_def)
  ultimately have i: "pso_inv (st'\<lparr>dryrun := False\<rparr>)" by simp
  have "th_sleeping (th st' ?pid)" "?pid < length (threads st')"
    using s p by (auto simp: replay_sleeper_def Let_def upd_th_def)
  moreover have "pid = ?pid" if "dry_pid st' = Some pid" for pid
    using s that by (auto simp: replay_sleeper_def Let_def upd_th_def dry_pid_def)
  ultimately show ?thesis
    by (intro inv_move [OF i]) (use inv_prefixD [OF i] in auto)
qed

lemma inv_replay_next:
  assumes inv: "pso_inv st" and d: "\<not> dryrun st" and r: "replay st" and s: "replay_next st = Some (x, st')"
  shows "pso_inv st'"
proof -
  define st1 where "st1 = st\<lparr>dry_sleepers := 0, prefix_idx := prefix_idx st + 1\<rparr>"
  obtain e where e: "curnode st1 = Some e" "ev_pid e < length (threads st1)" and st': "st' = upd_cur (\<lambda>e. e\<lparr>pe_clock :=
      th_clock (th (clock_tick (ev_pid (ev st1 (prefix_idx st1))) st1) (ev_pid (ev st1 (prefix_idx st1))))\<rparr>) (clock_tick (ev_pid (ev st1 (prefix_idx st1))) st1)"
    using s by (auto simp: replay_next_def Let_def bind_eq_Some_conv st1_def [symmetric] curnode_Some)
  have ev: "ev_pid (prefix st ! k) < length (threads st)" if "int k \<le> prefix_idx st + 1" for k
  proof (cases "int k \<le> prefix_idx st")
    case True
    then show ?thesis by (rule inv_prefixD(5) [OF inv])
  next
    case False
    then have "k = nat (prefix_idx st + 1)" using that by simp
    then show ?thesis using e by (simp add: curnode_Some st1_def)
  qed
  have "pso_inv st1"
    by (rule inv_move [OF inv]) (use inv_prefixD [OF inv] d r e ev in \<open>auto simp: st1_def curnode_Some\<close>)
  then show ?thesis unfolding st' by (intro inv_upd_ev inv_clock_add) simp_all
qed

lemma inv_schedule:
  assumes inv: "pso_inv st" and s: "schedule st = Some (r, st')"
  shows "pso_inv st'"
proof -
  define st0 where "st0 = st\<lparr>dryrun := False\<rparr>"
  have i0: "pso_inv st0" "\<not> dryrun st0" using inv_dry_set(1) [OF inv] by (simp_all add: st0_def)
  show ?thesis
  proof (cases "replay st0")
    case False
    then show ?thesis using s inv_schedule_new [OF i0] by (simp add: schedule_def Let_def st0_def [symmetric])
  next
    case True
    obtain u where u: "cur_unfinished st0 = Some u" and r: "(if u then replay_continue st0
        else if prefix_idx st0 + 1 = int (length (prefix st0)) then schedule_new (st0\<lparr>replay := False\<rparr>)
        else if dry_sleepers st0 < length (pe_sleep (ev st0 (prefix_idx st0 + 1))) then replay_sleeper st0
        else replay_next st0) = Some (r, st')"
      using s True by (auto simp: schedule_def Let_def st0_def [symmetric] bind_eq_Some_conv)
    have "pso_inv st'" if "replay_continue st0 = Some (r, st')"
      using that i0 by (auto simp: replay_continue_def bind_eq_Some_conv Let_def intro: inv_clock_add)
    moreover have "pso_inv st'" if "schedule_new (st0\<lparr>replay := False\<rparr>) = Some (r, st')" "prefix_idx st0 + 1 = int (length (prefix st0))"
      by (rule inv_schedule_new [OF _ _ that(1)]) (use i0 inv_dry_set(2) [OF i0(1) that(2)] in simp_all)
    ultimately show ?thesis
      using r inv_replay_sleeper [OF i0(1)] inv_replay_next [OF i0 True] by (auto split: if_splits)
  qed
qed

lemma inv_refuse_schedule:
  assumes inv: "pso_inv st" and s: "refuse_schedule st = Some st'"
  shows "pso_inv st'"
proof -
  define st1 where "st1 = st\<lparr>prefix := butlast (prefix st), prefix_idx := prefix_idx st - 1\<rparr>"
  define p where "p = ev_pid (last (prefix st))"
  have st': "st' = mark_unavailable_ipid p (upd_th p (\<lambda>t. t\<lparr>th_clock := vc_set (th_clock t) p (vc_get (th_clock t) p - 1)\<rparr>) st1)"
    and len: "prefix_idx st + 1 = int (length (prefix st))" "prefix st \<noteq> []"
    using s by (auto simp: refuse_schedule_def Let_def st1_def p_def)
  have "ev_pid (prefix st ! nat (prefix_idx st)) < length (threads st)"
    using inv_prefixD(5) [OF inv, of "nat (prefix_idx st)"] len by (cases "prefix st") auto
  moreover have "nat (prefix_idx st) = length (prefix st) - 1" using len by simp
  ultimately have p: "p < length (threads st)" using len(2) by (simp add: last_conv_nth p_def)
  have "pso_inv st1" unfolding st1_def by (rule inv_butlast [OF inv len])
  then show ?thesis
    unfolding st' using p by (intro inv_mark_unavailable inv_upd_th) (simp_all add: st1_def)
qed

lemma inv_cancel_replay:
  assumes inv: "pso_inv st"
  shows "pso_inv (cancel_replay st)"
proof (cases "replay st")
  case True
  note P = inv_prefixD [OF inv]
  have "resize (nat (prefix_idx st + 1)) (Event (0, 0) []) (prefix st) = take (nat (prefix_idx st + 1)) (prefix st)"
    using P(3) by (simp add: resize_def)
  then have c: "cancel_replay st = st\<lparr>replay := False, prefix := take (nat (prefix_idx st + 1)) (prefix st)\<rparr>"
    using True by (simp add: cancel_replay_def)
  have "dry_pid (cancel_replay st) = None" using P(2,3) by (auto simp: c dry_pid_def assertp_def)
  then show ?thesis
    by (intro inv_move [OF inv]) (use P in \<open>auto simp: c\<close>)
qed (simp add: cancel_replay_def inv)

lemma inv_metadata: "pso_inv st \<Longrightarrow> metadata md st = Some st' \<Longrightarrow> pso_inv st'"
  by (auto simp: metadata_def bind_eq_Some_conv intro!: inv_upd_ev)

lemma ipid_of_bound:
  assumes inv: "pso_inv st" and s: "ipid_of st proc aux = Some p"
  shows "p < length (threads st)"
proof -
  have q: "proc_to_ipid st ! proc < length (threads st)" if "proc < length (proc_to_ipid st)"
    using inv that by (simp add: pso_inv_def)
  show ?thesis
  proof (cases "0 \<le> aux")
    case True
    have "auxs_ok st" using inv by (simp add: pso_inv_def)
    then show ?thesis using s q True by (auto simp: ipid_of_def Let_def auxs_ok_def)
  next
    case False
    then show ?thesis using s q by (auto simp: ipid_of_def)
  qed
qed

lemma inv_mark: "pso_inv st \<Longrightarrow> mark_available proc aux st = Some st' \<Longrightarrow> pso_inv st'"
  "pso_inv st \<Longrightarrow> mark_unavailable proc aux st = Some st' \<Longrightarrow> pso_inv st'"
  by (auto simp: mark_available_def mark_unavailable_def intro: inv_mark_available inv_mark_unavailable ipid_of_bound)

lemma last_branching_Some: "last_branching pfx n = Some i \<Longrightarrow> i < n \<and> pe_branch (pfx ! i) \<noteq> [] \<and> (\<forall>k. i < k \<and> k < n \<longrightarrow> pe_branch (pfx ! k) = [])"
  by (induction n) (auto simp: less_Suc_eq split: if_splits)

lemma last_branching_None: "last_branching pfx n = None \<longleftrightarrow> (\<forall>k < n. pe_branch (pfx ! k) = [])"
  by (induction n) (auto simp: less_Suc_eq)

lemma inv_fresh:
  assumes "\<And>k. k < length pfx \<Longrightarrow> event_ok (pfx ! k)"
    and "threads st = [Thread 0 CPid [] (-1)]" "CPS st = CPidSystem" "sleepers st = []" "available_threads st = fst (vs_insert 0 [])"
      "available_auxs st = []" "proc_to_ipid st = [0]" "prefix st = pfx" "prefix_idx st = -1" "replay st \<or> pfx = []" "\<not> dryrun st"
  shows "pso_inv st"
proof -
  have "ascending (fst (vs_insert (0::nat) []))" "set (fst (vs_insert (0::nat) [])) = {0}" by (simp_all add: vecset_specs)
  moreover have "\<not> is_aux st 0" by (simp add: is_aux_def assms CPid_def is_auxiliary_def)
  moreover have "thread_ok (Thread 0 CPid [] (-1))" using thread_ok_new [of True 0 CPid "[]" "-1"] by (simp add: Thread_def)
  moreover have "aux_children CPidSystem = [[]]" "cpids CPidSystem = [CPid]" by (simp_all add: CPidSystem_def)
  ultimately show ?thesis
    unfolding pso_inv_def auxs_ok_def using assms cs_ok_init by (auto simp: tracks_def)
qed

lemma inv_init: "pso_inv (PSOTraceBuilder depth d)"
  by (rule inv_fresh [of "[]"]) (simp_all add: PSOTraceBuilder_def)

lemma inv_reset:
  assumes inv: "pso_inv st"
  shows "pso_inv (snd (reset st))"
proof (cases "last_branching (prefix st) (length (prefix st))")
  case (Some i)
  have i: "i < length (prefix st)" using last_branching_Some [OF Some] by simp
  have "event_ok (branch_event st i)"
    using inv_prefixD(1) [OF inv i] by (auto simp: branch_event_def Let_def event_ok_def Event_def vecset_specs)
  then have "event_ok ((take i (prefix st) @ [branch_event st i]) ! k)" if "k < length (take i (prefix st) @ [branch_event st i])" for k
    using that i inv_prefixD(1) [OF inv, of k] by (auto simp: nth_append)
  then show ?thesis
    by (rule inv_fresh) (simp_all add: reset_def Some)
qed (simp add: reset_def inv)

end
