(* ===== verification/PSO_Runs.thy ===== *)
theory PSO_Runs
  imports PSO_Inv
begin

text \<open>
  Runs of the PSO trace builder: every sequence of calls of its methods from the constructor, across
  resets, and what holds in every state on the way.
\<close>

section \<open>Calls\<close>

datatype pso_call =
  C_schedule | C_refuse_schedule | C_mark_available nat int | C_mark_unavailable nat int | C_cancel_replay
| C_metadata nat | C_reset | C_spawn | C_store symaddrsize | C_atomic_store symaddrsize | C_atomic_rmw symaddrsize
| C_compare_exchange symaddrsize bool | C_load symaddrsize | C_full_memory_conflict | C_fence | C_join nat
| C_mutex_lock symaddrsize | C_mutex_lock_fail symaddrsize | C_mutex_trylock symaddrsize | C_mutex_unlock symaddrsize
| C_mutex_init symaddrsize | C_mutex_destroy symaddrsize | C_cond_init symaddrsize | C_cond_signal symaddrsize
| C_cond_broadcast symaddrsize | C_cond_wait symaddrsize symaddrsize | C_cond_awake symaddrsize symaddrsize
| C_cond_destroy int symaddrsize | C_register_alternatives nat

definition state_of :: "('r \<times> pso) option \<Rightarrow> pso option" where
  "state_of r = map_option snd r"

text \<open>The state after a call; \<open>None\<close> when an assertion fails.\<close>

fun pso_do :: "pso_call \<Rightarrow> pso \<Rightarrow> pso option" where
  "pso_do C_schedule st = state_of (schedule st)"
| "pso_do C_refuse_schedule st = refuse_schedule st"
| "pso_do (C_mark_available proc aux) st = mark_available proc aux st"
| "pso_do (C_mark_unavailable proc aux) st = mark_unavailable proc aux st"
| "pso_do C_cancel_replay st = Some (cancel_replay st)"
| "pso_do (C_metadata md) st = metadata md st"
| "pso_do C_reset st = Some (snd (reset st))"
| "pso_do C_spawn st = state_of (spawn st)"
| "pso_do (C_store ml) st = state_of (store ml st)"
| "pso_do (C_atomic_store ml) st = state_of (atomic_store ml st)"
| "pso_do (C_atomic_rmw ml) st = state_of (atomic_rmw ml st)"
| "pso_do (C_compare_exchange ml success) st = state_of (compare_exchange ml success st)"
| "pso_do (C_load ml) st = state_of (load ml st)"
| "pso_do C_full_memory_conflict st = state_of (full_memory_conflict st)"
| "pso_do C_fence st = state_of (fence st)"
| "pso_do (C_join tgt) st = state_of (join tgt st)"
| "pso_do (C_mutex_lock ml) st = state_of (mutex_lock ml st)"
| "pso_do (C_mutex_lock_fail ml) st = state_of (mutex_lock_fail ml st)"
| "pso_do (C_mutex_trylock ml) st = state_of (mutex_trylock ml st)"
| "pso_do (C_mutex_unlock ml) st = state_of (mutex_unlock ml st)"
| "pso_do (C_mutex_init ml) st = state_of (mutex_init ml st)"
| "pso_do (C_mutex_destroy ml) st = state_of (mutex_destroy ml st)"
| "pso_do (C_cond_init ml) st = state_of (cond_init ml st)"
| "pso_do (C_cond_signal ml) st = state_of (cond_signal ml st)"
| "pso_do (C_cond_broadcast ml) st = state_of (cond_broadcast ml st)"
| "pso_do (C_cond_wait cond mutex) st = state_of (cond_wait cond mutex st)"
| "pso_do (C_cond_awake cond mutex) st = state_of (cond_awake cond mutex st)"
| "pso_do (C_cond_destroy ebusy ml) st = state_of (cond_destroy ebusy ml st)"
| "pso_do (C_register_alternatives n) st = state_of (register_alternatives n st)"

definition pso_init :: "pso \<Rightarrow> bool" where
  "pso_init st \<longleftrightarrow> (\<exists>depth d. st = PSOTraceBuilder depth d)"

section \<open>The invariant in every reachable state\<close>

lemma keepsM_state_of: "keepsM st m \<Longrightarrow> state_of m = Some st' \<Longrightarrow> pso_inv st'"
  by (auto simp: state_of_def keepsM_def keeps_def)

lemma pso_do_inv:
  assumes inv: "pso_inv st" and c: "pso_do c st = Some st'"
  shows "pso_inv st'"
proof -
  note K = keeps_refl [OF inv]
  have S: "pso_inv st'" if "state_of m = Some st'" "\<And>r st'. m = Some (r, st') \<Longrightarrow> pso_inv st'"
    for m :: "('r \<times> pso) option" and st'
    using that by (auto simp: state_of_def)
  note M = keepsM_state_of [OF keepsM_atomic_store [OF K]] keepsM_state_of [OF keepsM_atomic_rmw [OF inv]]
    keepsM_state_of [OF keepsM_compare_exchange [OF K]] keepsM_state_of [OF keepsM_load [OF K]]
    keepsM_state_of [OF keepsM_full_memory_conflict [OF inv]] keepsM_state_of [OF keepsM_fence [OF K]]
    keepsM_state_of [OF keepsM_join [OF inv]] keepsM_state_of [OF keepsM_mutex_lock [OF K]]
    keepsM_state_of [OF keepsM_mutex_lock_fail [OF inv]] keepsM_mutex [OF K, THEN keepsM_state_of]
    keepsM_state_of [OF keepsM_cond_init [OF inv]] keepsM_state_of [OF keepsM_cond_signal [OF inv]]
    keepsM_state_of [OF keepsM_cond_broadcast [OF inv]] keepsM_state_of [OF keepsM_cond_wait [OF inv]]
    keepsM_state_of [OF keepsM_cond_destroy [OF inv]] keepsM_state_of [OF keepsM_register_alternatives [OF K]]
  show ?thesis
    using c
    by (cases c)
      (auto simp: cond_awake_def intro: inv_cancel_replay [OF inv] inv_reset [OF inv] elim: M S [OF _ inv_schedule [OF inv]]
        S [OF _ inv_spawn [OF inv]] S [OF _ inv_store [OF inv]] inv_refuse_schedule [OF inv] inv_mark [OF inv] inv_metadata [OF inv])
qed

interpretation pso_sys: call_system pso_init pso_do pso_inv
  by unfold_locales (auto simp: pso_init_def intro: inv_init pso_do_inv)

section \<open>Properties\<close>

text \<open>
  C10. After every sequence of calls (schedules, replays, dry runs, events of all kinds, resets) the data
  that the trace builder keeps redundantly is consistent, as the comments of the class demand: the
  sets of sleeping and of available threads are what the flags of the threads say, a thread that
  does not sleep has no sleep data, no empty store buffer is kept, the position lies in the
  prefix and at its end outside of a replay, thread identifiers are unique, and the maps between bytes,
  auxiliary indices and auxiliary threads are inverse to each other.
\<close>

theorem pso_state_consistent:
  assumes "run_calls pso_do cs (PSOTraceBuilder depth d) = Some st"
  shows "set (sleepers st) = {p. p < length (threads st) \<and> th_sleeping (th st p)} \<and>
    set (available_threads st) = {p. p < length (threads st) \<and> \<not> is_aux st p \<and> th_available (th st p)} \<and>
    set (available_auxs st) = {p. p < length (threads st) \<and> is_aux st p \<and> th_available (th st p)} \<and>
    (\<forall>p < length (threads st). \<not> th_sleeping (th st p) \<longrightarrow> th_sleep_accesses_r (th st p) = [] \<and> th_sleep_accesses_w (th st p) = [] \<and>
       \<not> th_sleep_full_memory_conflict (th st p)) \<and>
    (\<forall>p < length (threads st). all_buffers_empty (th st p) \<noteq> None) \<and>
    -1 \<le> prefix_idx st \<and> prefix_idx st < int (length (prefix st)) \<and>
    (\<not> replay st \<longrightarrow> prefix_idx st + 1 = int (length (prefix st))) \<and>
    distinct (map th_cpid (threads st)) \<and>
    (\<forall>p < length (threads st). \<forall>b a. map_of (th_byte_to_aux (th st p)) b = Some a \<longleftrightarrow>
       a < length (th_aux_to_byte (th st p)) \<and> th_aux_to_byte (th st p) ! a = b) \<and>
    (\<forall>p < length (threads st). \<forall>a < length (th_aux_to_ipid (th st p)). let q = th_aux_to_ipid (th st p) ! a in
       q < length (threads st) \<and> is_aux st q \<and> th_parent (th st q) = int p \<and> aux_of st q = int a)"
proof -
  have inv: "pso_inv st" using pso_sys.reachable_inv [OF _ assms] by (auto simp: pso_init_def)
  have "distinct (map th_cpid (threads st))" using inv cs_ok_distinct [of "CPS st"] by (auto simp: pso_inv_def)
  moreover have "all_buffers_empty (th st p) \<noteq> None" if "p < length (threads st)" for p
  proof -
    have "buffers_ok (th_store_buffers (th st p))" using inv that by (simp add: pso_inv_def thread_ok_def)
    then show ?thesis
      by (auto simp: buffers_ok_def all_buffers_empty_def list_all_iff assertp_def) blast
  qed
  ultimately show ?thesis
    using inv unfolding pso_inv_def tracks_def auxs_ok_def by (auto simp: thread_ok_def Let_def)
qed

text \<open>A run of two threads: a store, its update, a racing load, the branch, and the replay with a sleeping auxiliary thread.\<close>

definition pso_example_ml :: symaddrsize where
  "pso_example_ml = \<lparr>as_addr = \<lparr>sa_block = \<lparr>sb_pid = 65535, sb_alloc = 1\<rparr>, sa_offset = 0\<rparr>, as_size = 2\<rparr>"

definition pso_example :: "pso_call list" where
  "pso_example = [C_schedule, C_spawn, C_schedule, C_store pso_example_ml, C_schedule, C_atomic_store pso_example_ml,
     C_schedule, C_mark_unavailable 0 (-1), C_schedule, C_load pso_example_ml, C_reset, C_schedule, C_spawn, C_schedule,
     C_store pso_example_ml, C_schedule, C_atomic_store pso_example_ml]"

theorem pso_state_consistent_witness:
  "\<exists>st. run_calls pso_do pso_example (PSOTraceBuilder (-1) 0) = Some st \<and> sleepers st = [2] \<and>
     {p. p < length (threads st) \<and> th_sleeping (th st p)} = {2}"
proof -
  have "map_option sleepers (run_calls pso_do pso_example (PSOTraceBuilder (-1) 0)) = Some [2]" by code_simp
  then obtain st where st: "run_calls pso_do pso_example (PSOTraceBuilder (-1) 0) = Some st" "sleepers st = [2]" by auto
  then show ?thesis using pso_state_consistent [OF st(1)] by auto
qed

end
