(* ===== verification/PSO_Branch.thy ===== *)
theory PSO_Branch
  imports PSO_Runs
begin

text \<open>
  What the exploration of the PSO trace builder relies on: a race leaves a branch that starts the reversed
  execution (source sets), the clocks that an event sees, which sleeping threads an access wakes,
  the order of the store buffers, and the choice of the next trace.
\<close>

section \<open>Source sets\<close>

text \<open>
  Position \<open>a\<close> happens before position \<open>b\<close>, as the clock of \<open>b\<close> says. The tail of a race between \<open>i\<close> and
  \<open>j\<close> is what is executed before \<open>i\<close> when the race is reversed: the events in between that do not happen after
  \<open>i\<close>, and \<open>j\<close>. Its initials are those of its events that no event of the tail happens before.
\<close>

definition ev_hb :: "pso_event list \<Rightarrow> nat \<Rightarrow> nat \<Rightarrow> bool" where
  "ev_hb pfx a b \<longleftrightarrow> a < b \<and> ev_index (pfx ! a) \<le> vc_get (pe_clock (pfx ! b)) (ev_pid (pfx ! a))"

definition race_tail :: "pso_event list \<Rightarrow> nat \<Rightarrow> nat \<Rightarrow> nat set" where
  "race_tail pfx i j = {k. i < k \<and> k \<le> j \<and> (k = j \<or> \<not> vc_leq (pe_clock (pfx ! i)) (pe_clock (pfx ! k)))}"

definition initials :: "pso_event list \<Rightarrow> nat \<Rightarrow> nat \<Rightarrow> nat set" where
  "initials pfx i j = {k \<in> race_tail pfx i j. \<forall>l \<in> race_tail pfx i j. \<not> ev_hb pfx l k}"

text \<open>Clocks are consistent up to \<open>j\<close>: the order they give is transitive and contains the program order.\<close>

definition hb_order :: "pso_event list \<Rightarrow> nat \<Rightarrow> bool" where
  "hb_order pfx j \<longleftrightarrow>
     (\<forall>c \<le> j. \<forall>b < c. \<forall>a < b. ev_hb pfx a b \<and> ev_hb pfx b c \<longrightarrow> ev_hb pfx a c) \<and>
     (\<forall>b \<le> j. \<forall>a < b. ev_pid (pfx ! a) = ev_pid (pfx ! b) \<longrightarrow> ev_hb pfx a b)"

lemma hb_orderD:
  "hb_order pfx j \<Longrightarrow> c \<le> j \<Longrightarrow> ev_hb pfx a b \<Longrightarrow> ev_hb pfx b c \<Longrightarrow> ev_hb pfx a c"
  "hb_order pfx j \<Longrightarrow> b \<le> j \<Longrightarrow> a < b \<Longrightarrow> ev_pid (pfx ! a) = ev_pid (pfx ! b) \<Longrightarrow> ev_hb pfx a b"
  unfolding hb_order_def ev_hb_def by blast+

lemma hb_order_list [code]:
  "hb_order pfx j \<longleftrightarrow>
     list_all (\<lambda>c. list_all (\<lambda>b.
       (ev_pid (pfx ! b) = ev_pid (pfx ! c) \<longrightarrow> ev_hb pfx b c) \<and>
       (ev_hb pfx b c \<longrightarrow> list_all (\<lambda>a. ev_hb pfx a b \<longrightarrow> ev_hb pfx a c) [0..<b])) [0..<c]) [0..<Suc j]"
proof -
  have "hb_order pfx j \<longleftrightarrow> (\<forall>c < Suc j. \<forall>b < c. (ev_pid (pfx ! b) = ev_pid (pfx ! c) \<longrightarrow> ev_hb pfx b c) \<and>
      (ev_hb pfx b c \<longrightarrow> (\<forall>a < b. ev_hb pfx a b \<longrightarrow> ev_hb pfx a c)))"
    unfolding hb_order_def less_Suc_eq_le by blast
  then show ?thesis unfolding list_all_iff set_upt by (simp add: Ball_def del: upt_Suc)
qed

text \<open>The candidates recorded by the loop before position \<open>k\<close>.\<close>

definition recorded :: "pso_event list \<Rightarrow> int list \<Rightarrow> nat \<Rightarrow> bool" where
  "recorded pfx cs c \<longleftrightarrow> ev_pid (pfx ! c) < length cs \<and> cs ! ev_pid (pfx ! c) = int (ev_index (pfx ! c))"

definition candidates_ok :: "pso_event list \<Rightarrow> nat \<Rightarrow> nat \<Rightarrow> nat \<Rightarrow> int list \<Rightarrow> ipid option \<Rightarrow> bool" where
  "candidates_ok pfx i j k cs cand \<longleftrightarrow>
     (\<forall>q < length cs. 0 \<le> cs ! q \<longrightarrow> (\<exists>c \<in> initials pfx i j. c < k \<and> ev_pid (pfx ! c) = q \<and> recorded pfx cs c)) \<and>
     (\<forall>l \<in> race_tail pfx i j. l < k \<longrightarrow> (\<exists>c \<in> initials pfx i j. c < k \<and> recorded pfx cs c \<and> (c = l \<or> ev_hb pfx c l))) \<and>
     (case cand of None \<Rightarrow> \<forall>q < length cs. cs ! q < 0 | Some p \<Rightarrow> \<exists>c \<in> initials pfx i j. ev_pid (pfx ! c) = p)"

lemma candidates_okD:
  assumes "candidates_ok pfx i j k cs cand"
  shows "q < length cs \<Longrightarrow> 0 \<le> cs ! q \<Longrightarrow> \<exists>c \<in> initials pfx i j. c < k \<and> ev_pid (pfx ! c) = q \<and> recorded pfx cs c"
    and "l \<in> race_tail pfx i j \<Longrightarrow> l < k \<Longrightarrow> \<exists>c \<in> initials pfx i j. c < k \<and> recorded pfx cs c \<and> (c = l \<or> ev_hb pfx c l)"
  using assms unfolding candidates_ok_def by blast+

text \<open>A position is skipped exactly when it is no initial of the tail.\<close>

definition skipped :: "pso_event list \<Rightarrow> nat \<Rightarrow> nat \<Rightarrow> nat \<Rightarrow> int list \<Rightarrow> bool" where
  "skipped pfx i j k cs \<longleftrightarrow>
     ev_pid (pfx ! k) < length cs \<and> 0 \<le> cs ! ev_pid (pfx ! k) \<or>
     k \<noteq> j \<and> vc_leq (pe_clock (pfx ! i)) (pe_clock (pfx ! k)) \<or> after_candidate cs (pe_clock (pfx ! k))"

lemma skipped_iff:
  assumes ok: "candidates_ok pfx i j k cs cand" and hb: "hb_order pfx j" and k: "i < k" "k \<le> j"
  shows "skipped pfx i j k cs \<longleftrightarrow> k \<notin> initials pfx i j"
proof
  assume "skipped pfx i j k cs"
  moreover have "k \<notin> initials pfx i j" if p: "ev_pid (pfx ! k) < length cs" "0 \<le> cs ! ev_pid (pfx ! k)"
  proof -
    obtain c where "c \<in> initials pfx i j" "c < k" "ev_pid (pfx ! c) = ev_pid (pfx ! k)"
      using candidates_okD(1) [OF ok p] by blast
    then show ?thesis using hb_orderD(2) [OF hb k(2)] by (auto simp: initials_def)
  qed
  moreover have "k \<notin> initials pfx i j" if after: "after_candidate cs (pe_clock (pfx ! k))"
  proof -
    obtain q where q: "q < length cs" "0 \<le> cs ! q" "cs ! q \<le> int (vc_get (pe_clock (pfx ! k)) q)"
      using after by (auto simp: after_candidate_def list_ex_iff)
    obtain c where "c \<in> initials pfx i j" "c < k" "ev_pid (pfx ! c) = q" "recorded pfx cs c"
      using candidates_okD(1) [OF ok q(1,2)] by blast
    then have "ev_hb pfx c k" "c \<in> race_tail pfx i j" using q(3) by (auto simp: ev_hb_def recorded_def initials_def)
    then show ?thesis by (auto simp: initials_def)
  qed
  ultimately show "k \<notin> initials pfx i j" by (auto simp: skipped_def initials_def race_tail_def)
next
  assume no: "k \<notin> initials pfx i j"
  show "skipped pfx i j k cs"
  proof (cases "k \<in> race_tail pfx i j")
    case True
    then obtain l where l: "l \<in> race_tail pfx i j" "ev_hb pfx l k" using no by (auto simp: initials_def)
    then obtain c where c: "c \<in> initials pfx i j" "recorded pfx cs c" "c = l \<or> ev_hb pfx c l"
      using candidates_okD(2) [OF ok l(1)] by (auto simp: ev_hb_def)
    then have "ev_hb pfx c k" using l(2) hb_orderD(1) [OF hb k(2)] by blast
    then have "after_candidate cs (pe_clock (pfx ! k))"
      using c(2) by (auto simp: after_candidate_def list_ex_iff recorded_def ev_hb_def intro!: bexI [of _ "ev_pid (pfx ! c)"])
    then show ?thesis by (simp add: skipped_def)
  next
    case False
    then show ?thesis using k by (auto simp: race_tail_def skipped_def)
  qed
qed

lemma candidates_skip:
  assumes ok: "candidates_ok pfx i j k cs cand" and hb: "hb_order pfx j" and k: "k \<le> j" "k \<notin> initials pfx i j"
  shows "candidates_ok pfx i j (Suc k) cs cand"
proof -
  have "\<exists>c \<in> initials pfx i j. c < Suc k \<and> recorded pfx cs c \<and> (c = l \<or> ev_hb pfx c l)" if l: "l \<in> race_tail pfx i j" "l < Suc k" for l
  proof (cases "l < k")
    case True
    then show ?thesis using candidates_okD(2) [OF ok l(1)] by (meson less_SucI)
  next
    case False
    then have "l = k" using l(2) by simp
    then obtain m where m: "m \<in> race_tail pfx i j" "ev_hb pfx m k" using k(2) l(1) by (auto simp: initials_def)
    then obtain c where "c \<in> initials pfx i j" "c < k" "recorded pfx cs c" "c = m \<or> ev_hb pfx c m"
      using candidates_okD(2) [OF ok m(1)] by (auto simp: ev_hb_def)
    then show ?thesis using m(2) hb_orderD(1) [OF hb k(1)] \<open>l = k\<close> by (metis less_SucI)
  qed
  then show ?thesis using ok unfolding candidates_ok_def by (meson less_SucI)
qed

lemma candidates_record:
  assumes ok: "candidates_ok pfx i j k cs cand" and k: "k \<in> initials pfx i j"
    and new: "\<not> (ev_pid (pfx ! k) < length cs \<and> 0 \<le> cs ! ev_pid (pfx ! k))"
  defines "p \<equiv> ev_pid (pfx ! k)"
  defines "cs' \<equiv> (if length cs \<le> p then resize (p + 1) (-1) cs else cs)[p := int (ev_index (pfx ! k))]"
  shows "candidates_ok pfx i j (Suc k) cs' (Some p)"
proof -
  have len: "length cs' = max (length cs) (Suc p)" by (simp add: cs'_def resize_def)
  have nth: "cs' ! q = (if q = p then int (ev_index (pfx ! k)) else if q < length cs then cs ! q else -1)" if "q < length cs'" for q
    using that by (auto simp: cs'_def resize_def nth_append)
  have rk: "recorded pfx cs' k" using nth [of p] by (simp add: recorded_def len p_def [symmetric])
  have rc: "recorded pfx cs' c" if "recorded pfx cs c" for c
  proof -
    have "ev_pid (pfx ! c) \<noteq> p" using that new by (auto simp: recorded_def p_def)
    then show ?thesis using that nth [of "ev_pid (pfx ! c)"] by (auto simp: recorded_def len less_max_iff_disj)
  qed
  have "\<exists>c \<in> initials pfx i j. c < Suc k \<and> ev_pid (pfx ! c) = q \<and> recorded pfx cs' c" if "q < length cs'" "0 \<le> cs' ! q" for q
  proof (cases "q = p")
    case True
    then show ?thesis using k rk by (auto simp: p_def)
  next
    case False
    then have "q < length cs" "0 \<le> cs ! q" using that nth [of q] by (auto split: if_splits)
    then show ?thesis using candidates_okD(1) [OF ok, of q] rc by (meson less_SucI)
  qed
  moreover have "\<exists>c \<in> initials pfx i j. c < Suc k \<and> recorded pfx cs' c \<and> (c = l \<or> ev_hb pfx c l)"
    if "l \<in> race_tail pfx i j" "l < Suc k" for l
    using candidates_okD(2) [OF ok, of l] that rc rk k by (metis lessI less_SucE less_SucI)
  ultimately show ?thesis using k by (auto simp: candidates_ok_def p_def)
qed

lemma candidate_loop_unfold:
  "candidate_loop pfx i j isleep (k # ks) cs cand =
     (if skipped pfx i j k cs then candidate_loop pfx i j isleep ks cs cand
      else if vs_count (pe_branch (pfx ! i)) (ev_pid (pfx ! k), 0) > 0 \<or> vs_count isleep (ev_pid (pfx ! k)) > 0 then Inl ()
      else candidate_loop pfx i j isleep ks
        ((if length cs \<le> ev_pid (pfx ! k) then resize (ev_pid (pfx ! k) + 1) (-1) cs else cs)
           [ev_pid (pfx ! k) := int (ev_index (pfx ! k))]) (Some (ev_pid (pfx ! k))))"
  by (auto simp: skipped_def Let_def)

text \<open>
  The loop ends with an initial of the tail: one that has a branch or sleeps already, or the last one found.
\<close>

lemma candidate_loop_initial:
  assumes "candidates_ok pfx i j k cs cand" "hb_order pfx j" "i < k" "k \<le> Suc j" "i < j"
  shows "case candidate_loop pfx i j isleep [k..<Suc j] cs cand of
      Inl _ \<Rightarrow> \<exists>c \<in> initials pfx i j. vs_count (pe_branch (pfx ! i)) (ev_pid (pfx ! c), 0) > 0 \<or> vs_count isleep (ev_pid (pfx ! c)) > 0
    | Inr cand \<Rightarrow> \<exists>c \<in> initials pfx i j. cand = Some (ev_pid (pfx ! c))"
  using assms
proof (induction "Suc j - k" arbitrary: k cs cand)
  case 0
  then have k: "k = Suc j" by simp
  obtain c where "c \<in> initials pfx i j" "recorded pfx cs c"
    using candidates_okD(2) [OF 0(2), of j] 0 k by (auto simp: race_tail_def)
  then have "cand \<noteq> None" using 0(2) by (cases cand) (auto simp: candidates_ok_def recorded_def dest: spec [of _ "ev_pid (pfx ! c)"])
  then show ?case using 0(2) k by (auto simp: candidates_ok_def)
next
  case (Suc n)
  then have k: "k \<le> j" "[k..<Suc j] = k # [Suc k..<Suc j]" "n = Suc j - Suc k" "i < Suc k" "Suc k \<le> Suc j"
    by (auto simp: upt_rec)
  note sk = skipped_iff [OF Suc.prems(1,2,3) k(1)]
  show ?case
  proof (cases "skipped pfx i j k cs")
    case True
    then have "candidates_ok pfx i j (Suc k) cs cand" using candidates_skip [OF Suc.prems(1,2) k(1)] sk by blast
    then show ?thesis unfolding k(2) candidate_loop_unfold using Suc.hyps(1) [OF k(3)] Suc.prems k(4,5) True by simp
  next
    case False
    then have ini: "k \<in> initials pfx i j" and new: "\<not> (ev_pid (pfx ! k) < length cs \<and> 0 \<le> cs ! ev_pid (pfx ! k))"
      using sk by (auto simp: skipped_def)
    note ok = candidates_record [OF Suc.prems(1) ini new]
    show ?thesis
      unfolding k(2) candidate_loop_unfold
      using Suc.hyps(1) [OF k(3) ok Suc.prems(2) k(4,5) Suc.prems(5)] False ini by auto
  qed
qed

lemma sleep_set_ascending:
  "(\<And>e. e \<in> set es \<Longrightarrow> event_ok e) \<Longrightarrow> ascending s \<Longrightarrow> ascending (sleep_set_loop es s)"
proof (induction es arbitrary: s)
  case (Cons e es)
  have "ascending (fold (\<lambda>p s. fst (vs_erase p s)) xs t)" if "ascending t" for xs and t :: "nat vecset"
    using vs.fold_del that by blast
  then show ?case using Cons by (simp add: event_ok_def vecset_specs)
qed simp

lemma sleep_set_at_ascending:
  assumes "pso_inv st" "0 \<le> i" "i < int (length (prefix st))"
  shows "ascending (sleep_set_at st i)"
proof -
  have "event_ok (ev st i)" using assms by (intro inv_prefixD) auto
  moreover have "ascending (sleep_set_loop (take (nat i) (prefix st)) [])"
    by (rule sleep_set_ascending) (use inv_prefixD(1) [OF assms(1)] in \<open>auto simp: in_set_conv_nth\<close>)
  ultimately show ?thesis by (simp add: sleep_set_at_def event_ok_def vecset_specs)
qed

lemma candidates_ok_init: "candidates_ok pfx i j (Suc i) [] None"
  by (auto simp: candidates_ok_def race_tail_def)

lemma add_branch_initial:
  assumes inv: "pso_inv st" and ij: "0 \<le> i" "i < j" "j \<le> prefix_idx st" and hb: "hb_order (prefix st) (nat j)"
  obtains st' c where "add_branch i j st = Some st'" "c \<in> initials (prefix st) (nat i) (nat j)"
    "(ev_pid (prefix st ! c), 0) \<in> set (pe_branch (ev st' i)) \<or> ev_pid (prefix st ! c) \<in> set (sleep_set_at st i)"
    "\<And>k. k \<noteq> nat i \<Longrightarrow> prefix st' ! k = prefix st ! k"
    "set (pe_branch (ev st i)) \<subseteq> set (pe_branch (ev st' i))"
proof -
  let ?pfx = "prefix st" and ?r = "candidate_loop (prefix st) (nat i) (nat j) (sleep_set_at st i) [nat i + 1..<nat j + 1] [] None"
  have len: "i < int (length ?pfx)" using inv_prefixD(3) [OF inv] ij by simp
  have bi: "ascending (pe_branch (ev st i))" using inv_prefixD(1) [OF inv, of "nat i"] len ij by (simp add: event_ok_def)
  have si: "ascending (sleep_set_at st i)" by (rule sleep_set_at_ascending [OF inv ij(1) len])
  have r: "case ?r of
      Inl _ \<Rightarrow> \<exists>c \<in> initials ?pfx (nat i) (nat j). (ev_pid (?pfx ! c), 0) \<in> set (pe_branch (ev st i)) \<or> ev_pid (?pfx ! c) \<in> set (sleep_set_at st i)
    | Inr cand \<Rightarrow> \<exists>c \<in> initials ?pfx (nat i) (nat j). cand = Some (ev_pid (?pfx ! c))"
    using candidate_loop_initial [OF candidates_ok_init hb, of "nat i" "sleep_set_at st i"] ij bi si
    by (simp add: vecset_specs split: if_splits sum.splits)
  show ?thesis
  proof (cases ?r)
    case (Inl u)
    then have "add_branch i j st = Some st" using ij by (simp add: add_branch_def assertp_def)
    then show ?thesis using r Inl by (auto intro: that)
  next
    case (Inr cand)
    then obtain c where c: "c \<in> initials ?pfx (nat i) (nat j)" "cand = Some (ev_pid (?pfx ! c))" using r by auto
    let ?st = "upd_ev i (\<lambda>e. e\<lparr>pe_branch := fst (vs_insert (ev_pid (?pfx ! c), 0) (pe_branch e))\<rparr>) st"
    have "add_branch i j st = Some ?st" using ij Inr c by (simp add: add_branch_def assertp_def)
    moreover have "set (pe_branch (ev ?st i)) = insert (ev_pid (?pfx ! c), 0) (set (pe_branch (ev st i)))"
      using len ij bi by (simp add: nth_upd_ev vecset_specs)
    moreover have "prefix ?st ! k = ?pfx ! k" if "k \<noteq> nat i" for k
      using that by (simp add: upd_ev_def)
    ultimately show ?thesis using c(1) by (intro that [of ?st c]) auto
  qed
qed

section \<open>Seen events\<close>

text \<open>Whatever the clocks, the loop finds a candidate: the last event is one unless another one was found before.\<close>

lemma candidate_loop_finds:
  assumes "cand = None \<Longrightarrow> (\<forall>q < length cs. cs ! q < 0)"
  shows "candidate_loop pfx i j isleep (ks @ [j]) cs cand \<noteq> Inr None"
  using assms
proof (induction ks arbitrary: cs cand)
  case Nil
  have "cand \<noteq> None" if "skipped pfx i j j cs"
    using that Nil by (cases cand) (auto simp: skipped_def after_candidate_def list_ex_iff)
  then show ?case unfolding append_Nil candidate_loop_unfold by auto
next
  case (Cons k ks)
  have "candidate_loop pfx i j isleep (ks @ [j]) cs' (Some p) \<noteq> Inr None" for cs' p by (rule Cons.IH) simp
  moreover have "candidate_loop pfx i j isleep (ks @ [j]) cs cand \<noteq> Inr None" by (rule Cons.IH) (rule Cons.prems)
  ultimately show ?case unfolding append_Cons candidate_loop_unfold by (auto split: if_splits)
qed

lemma add_branch_succeeds:
  assumes "0 \<le> i" "i < j" "j \<le> prefix_idx st"
  obtains st' where "add_branch i j st = Some st'"
proof -
  define r where "r = candidate_loop (prefix st) (nat i) (nat j) (sleep_set_at st i) [nat i + 1..<nat j + 1] [] None"
  have "[nat i + 1..<nat j + 1] = [nat i + 1..<nat j] @ [nat j]" using assms by simp
  then have "r \<noteq> Inr None" unfolding r_def using candidate_loop_finds [of None "[]"] by simp
  then have "(case r of Inl _ \<Rightarrow> Some st | Inr None \<Rightarrow> None | Inr (Some p) \<Rightarrow>
      Some (upd_ev i (\<lambda>e. e\<lparr>pe_branch := fst (vs_insert (p, 0) (pe_branch e))\<rparr>) st)) \<noteq> None"
    by (auto split: sum.splits option.splits)
  moreover have "add_branch i j st = (case r of Inl _ \<Rightarrow> Some st | Inr None \<Rightarrow> None | Inr (Some p) \<Rightarrow>
      Some (upd_ev i (\<lambda>e. e\<lparr>pe_branch := fst (vs_insert (p, 0) (pe_branch e))\<rparr>) st))"
    unfolding add_branch_def r_def [symmetric] using assms by (simp add: assertp_def)
  ultimately show ?thesis using that by auto
qed

text \<open>Events that differ in their branches only, of which the second has at least those of the first.\<close>

definition more_branches :: "pso_event list \<Rightarrow> pso_event list \<Rightarrow> bool" where
  "more_branches es fs \<longleftrightarrow> length fs = length es \<and>
     (\<forall>k < length es. (es ! k)\<lparr>pe_branch := []\<rparr> = (fs ! k)\<lparr>pe_branch := []\<rparr> \<and> set (pe_branch (es ! k)) \<subseteq> set (pe_branch (fs ! k)))"

lemma event_eq_branch: "e\<lparr>pe_branch := []\<rparr> = f\<lparr>pe_branch := []\<rparr> \<Longrightarrow>
    pe_iid f = pe_iid e \<and> pe_clock f = pe_clock e \<and> pe_sleep f = pe_sleep e \<and> pe_wakeup f = pe_wakeup e"
  by (cases e; cases f) simp

lemma more_branches_refl [simp]: "more_branches es es"
  by (simp add: more_branches_def)

lemma more_branches_trans: "more_branches es fs \<Longrightarrow> more_branches fs gs \<Longrightarrow> more_branches es gs"
  unfolding more_branches_def by auto

lemma more_branchesD:
  assumes "more_branches es fs" "k < length es"
  shows "pe_iid (fs ! k) = pe_iid (es ! k)" "pe_clock (fs ! k) = pe_clock (es ! k)" "pe_sleep (fs ! k) = pe_sleep (es ! k)"
    "pe_wakeup (fs ! k) = pe_wakeup (es ! k)" "set (pe_branch (es ! k)) \<subseteq> set (pe_branch (fs ! k))"
  using assms event_eq_branch unfolding more_branches_def by blast+

lemma more_branches_hb:
  assumes "more_branches es fs" "j < length es"
  shows "k \<le> j \<Longrightarrow> ev_hb fs l k \<longleftrightarrow> ev_hb es l k" "hb_order fs j \<longleftrightarrow> hb_order es j"
    "i < j \<Longrightarrow> race_tail fs i j = race_tail es i j" "i < j \<Longrightarrow> initials fs i j = initials es i j"
proof -
  note D = more_branchesD [OF assms(1)]
  show hb: "ev_hb fs l k \<longleftrightarrow> ev_hb es l k" if "k \<le> j" for l k
  proof (cases "l < k")
    case True
    then show ?thesis using D(1) [of l] D(2) [of k] that assms(2) by (simp add: ev_hb_def)
  qed (simp add: ev_hb_def)
  show "hb_order fs j \<longleftrightarrow> hb_order es j"
    unfolding hb_order_def
    by (intro arg_cong2 [of _ _ _ _ "(\<and>)"] all_cong1 imp_cong refl) (use hb D(1) assms(2) in \<open>simp_all\<close>)
  show rt: "race_tail fs i j = race_tail es i j" if "i < j" using D(2) assms(2) that by (auto simp: race_tail_def)
  show "initials fs i j = initials es i j" if "i < j"
  proof -
    have "k \<in> race_tail es i j \<Longrightarrow> ev_hb fs l k = ev_hb es l k" for k l using hb by (simp add: race_tail_def)
    then show ?thesis unfolding initials_def rt [OF that] by auto
  qed
qed

lemma more_branches_sleep_set:
  assumes "more_branches (prefix st) (prefix st')" "0 \<le> i" "i < int (length (prefix st))"
  shows "sleep_set_at st' i = sleep_set_at st i"
proof -
  note D = more_branchesD [OF assms(1)]
  have "sleep_set_loop (take n (prefix st')) s = sleep_set_loop (take n (prefix st)) s" if "n \<le> length (prefix st)" for n s
  proof -
    have "sleep_set_loop es s = sleep_set_loop fs s" if "map pe_sleep es = map pe_sleep fs" "map pe_wakeup es = map pe_wakeup fs" for es fs s
      using that by (induction es fs arbitrary: s rule: list_induct2') auto
    moreover have "map pe_sleep (take n (prefix st')) = map pe_sleep (take n (prefix st))"
      "map pe_wakeup (take n (prefix st')) = map pe_wakeup (take n (prefix st))"
      using that D(3,4) assms(1) by (auto intro!: nth_equalityI simp: more_branches_def)
    ultimately show ?thesis by blast
  qed
  then show ?thesis using D(3) [of "nat i"] assms(2,3) by (simp add: sleep_set_at_def)
qed

lemma add_branch_more:
  assumes inv: "pso_inv st" and a: "add_branch i j st = Some st'"
  shows "more_branches (prefix st) (prefix st')" "prefix_idx st' = prefix_idx st" "threads st' = threads st"
    "k < length (prefix st) \<Longrightarrow> k \<noteq> nat i \<Longrightarrow> prefix st' ! k = prefix st ! k"
proof -
  have st': "st' = st \<or> (\<exists>p. st' = upd_ev i (\<lambda>e. e\<lparr>pe_branch := fst (vs_insert (p, 0) (pe_branch e))\<rparr>) st)"
    and i: "0 \<le> i" "i < j" "j \<le> prefix_idx st"
    using a by (auto simp: add_branch_def split: sum.splits option.splits)
  have "ascending (pe_branch (ev st i))"
    using inv_prefixD(1) [OF inv, of "nat i"] inv_prefixD(3) [OF inv] i by (simp add: event_ok_def)
  then show "more_branches (prefix st) (prefix st')"
    using st' by (auto simp: more_branches_def nth_upd_ev vecset_specs)
  show "prefix_idx st' = prefix_idx st" "threads st' = threads st" using st' by auto
  show "prefix st' ! k = prefix st ! k" if "k < length (prefix st)" "k \<noteq> nat i" using st' that by (auto simp: nth_upd_ev)
qed

text \<open>
  One branch per race: every race of the list gets an initial of its tail as a branch or asleep.
\<close>

definition covered :: "pso \<Rightarrow> int \<Rightarrow> int \<Rightarrow> bool" where
  "covered st i j \<longleftrightarrow> (\<exists>c \<in> initials (prefix st) (nat i) (nat j).
     (ev_pid (prefix st ! c), 0) \<in> set (pe_branch (ev st i)) \<or> ev_pid (prefix st ! c) \<in> set (sleep_set_at st i))"

lemma covered_more:
  assumes m: "more_branches (prefix st) (prefix st')" and ij: "0 \<le> i" "i < j" "j < int (length (prefix st))" and c: "covered st i j"
  shows "covered st' i j"
proof -
  have "nat j < length (prefix st)" using ij by simp
  note hb = more_branches_hb [OF m this] and s = more_branches_sleep_set [OF m ij(1)]
  obtain c where c: "c \<in> initials (prefix st) (nat i) (nat j)"
    "(ev_pid (prefix st ! c), 0) \<in> set (pe_branch (ev st i)) \<or> ev_pid (prefix st ! c) \<in> set (sleep_set_at st i)"
    using c by (auto simp: covered_def)
  have b: "set (pe_branch (ev st i)) \<subseteq> set (pe_branch (ev st' i))" using more_branchesD(5) [OF m, of "nat i"] ij by simp
  have "c < length (prefix st)" using c(1) ij by (auto simp: initials_def race_tail_def)
  then show ?thesis
    using c b hb(4) [of "nat i"] s more_branchesD(1) [OF m, of c] ij
    unfolding covered_def by (intro bexI [of _ c]) auto
qed

lemma add_branches_spec:
  assumes inv: "pso_inv st" and bnd: "\<And>i. i \<in> set rs \<Longrightarrow> 0 \<le> i \<and> i < prefix_idx st" and idx: "0 \<le> prefix_idx st"
  shows "\<exists>st'. add_branches rs st = Some st' \<and> more_branches (prefix st) (prefix st') \<and> prefix_idx st' = prefix_idx st \<and>
     threads st' = threads st \<and> (\<forall>k < length (prefix st). int k \<notin> set rs \<longrightarrow> prefix st' ! k = prefix st ! k) \<and>
     (hb_order (prefix st) (nat (prefix_idx st)) \<longrightarrow> (\<forall>i \<in> set rs. covered st' i (prefix_idx st)))"
  using assms
proof (induction rs arbitrary: st)
  case (Cons i rs)
  have i: "0 \<le> i" "i < prefix_idx st" using Cons.prems(2) by auto
  have len: "prefix_idx st < int (length (prefix st))" using inv_prefixD(3) [OF Cons.prems(1)] .
  obtain st1 where st1: "add_branch i (prefix_idx st) st = Some st1" using add_branch_succeeds [OF i order_refl] .
  note A = add_branch_more [OF Cons.prems(1) st1]
  have inv1: "pso_inv st1" using keeps_add_branch [OF Cons.prems(1) st1] keepsD(1) by blast
  obtain st' where st': "add_branches rs st1 = Some st'" "more_branches (prefix st1) (prefix st')" "prefix_idx st' = prefix_idx st1"
    "threads st' = threads st1" "\<forall>k < length (prefix st1). int k \<notin> set rs \<longrightarrow> prefix st' ! k = prefix st1 ! k"
    "hb_order (prefix st1) (nat (prefix_idx st1)) \<longrightarrow> (\<forall>i \<in> set rs. covered st' i (prefix_idx st1))"
    using Cons.IH [OF inv1] Cons.prems(2,3) A(2) by auto
  have n: "nat (prefix_idx st) < length (prefix st)" using len Cons.prems(3) by simp
  have hb: "hb_order (prefix st1) (nat (prefix_idx st)) \<longleftrightarrow> hb_order (prefix st) (nat (prefix_idx st))"
    using more_branches_hb(2) [OF A(1) n] .
  have l: "length (prefix st1) = length (prefix st)" using A(1) by (simp add: more_branches_def)
  have "covered st' i (prefix_idx st)" if h: "hb_order (prefix st) (nat (prefix_idx st))"
  proof (rule covered_more [OF st'(2) i])
    show "covered st1 i (prefix_idx st)"
    proof (rule add_branch_initial [OF Cons.prems(1) i order_refl h])
      fix st2 c assume *: "add_branch i (prefix_idx st) st = Some st2" "c \<in> initials (prefix st) (nat i) (nat (prefix_idx st))"
        "(ev_pid (prefix st ! c), 0) \<in> set (pe_branch (ev st2 i)) \<or> ev_pid (prefix st ! c) \<in> set (sleep_set_at st i)"
      have c: "c < length (prefix st)" using *(2) n by (auto simp: initials_def race_tail_def)
      then show "covered st1 i (prefix_idx st)"
        using * st1 more_branches_hb(4) [OF A(1) n, of "nat i"] more_branches_sleep_set [OF A(1) i(1)] more_branchesD(1) [OF A(1) c] i len
        unfolding covered_def by (intro bexI [of _ c]) auto
    qed
  qed (use len l in simp)
  moreover have "prefix st1 ! k = prefix st ! k" if "k < length (prefix st)" "int k \<noteq> i" for k
    using A(4) [OF that(1)] that(2) i(1) by auto
  ultimately show ?case
    using st1 st' A(2,3) hb more_branches_trans [OF A(1) st'(2)] l by auto
qed simp

text \<open>The clocks: the current event and its thread are joined with every event seen.\<close>

lemma vc_leq_plus: "vc_leq (vc_plus_assign a b) w \<longleftrightarrow> vc_leq a w \<and> vc_leq b w"
  by (auto simp: clock_specs)

lemma see_clocks_spec:
  assumes "0 \<le> prefix_idx st" "prefix_idx st < int (length (prefix st))" "\<And>i. i \<in> set rs \<Longrightarrow> i < prefix_idx st"
    "ev_pid (ev st (prefix_idx st)) < length (threads st)"
  shows "\<exists>st'. see_clocks rs st = Some st' \<and> prefix_idx st' = prefix_idx st \<and> length (prefix st') = length (prefix st) \<and>
     (\<forall>k. k \<noteq> nat (prefix_idx st) \<longrightarrow> prefix st' ! k = prefix st ! k) \<and>
     (\<exists>clk. ev st' (prefix_idx st) = (ev st (prefix_idx st))\<lparr>pe_clock := clk\<rparr>) \<and>
     (\<forall>w. vc_leq (pe_clock (ev st' (prefix_idx st))) w \<longleftrightarrow>
        vc_leq (pe_clock (ev st (prefix_idx st))) w \<and> (\<forall>i \<in> set rs. 0 \<le> i \<longrightarrow> vc_leq (pe_clock (ev st i)) w)) \<and>
     (\<forall>w. vc_leq (th_clock (th st' (ev_pid (ev st (prefix_idx st))))) w \<longleftrightarrow>
        vc_leq (th_clock (th st (ev_pid (ev st (prefix_idx st))))) w \<and> (\<forall>i \<in> set rs. 0 \<le> i \<longrightarrow> vc_leq (pe_clock (ev st i)) w))"
  using assms
proof (induction rs arbitrary: st)
  case Nil
  show ?case by (rule exI [of _ st]) (auto intro: exI [of _ "pe_clock (ev st (prefix_idx st))"])
next
  case (Cons i rs)
  show ?case
  proof (cases "i < 0")
    case True
    have "see_clocks (i # rs) st = see_clocks rs st" using True by simp
    then show ?thesis using Cons.IH [of st] Cons.prems True by simp
  next
    case False
    let ?n = "prefix_idx st" and ?p = "ev_pid (ev st (prefix_idx st))"
    have i: "0 \<le> i" "i < ?n" using False Cons.prems(3) by auto
    define st1 where "st1 = cur_clock_add (pe_clock (ev st i)) st"
    define st2 where "st2 = th_clock_add ?p (pe_clock (ev st1 i)) st1"
    have f: "prefix_idx st2 = ?n" "length (prefix st2) = length (prefix st)" "prefix st2 = prefix st1" "length (threads st2) = length (threads st)"
      by (simp_all add: st2_def st1_def cur_clock_add_def th_clock_add_def)
    have ev1: "prefix st1 ! k = (if k = nat ?n then (ev st ?n)\<lparr>pe_clock := vc_plus_assign (pe_clock (ev st ?n)) (pe_clock (ev st i))\<rparr> else prefix st ! k)" for k
      using Cons.prems(1,2) by (simp add: st1_def cur_clock_add_def upd_ev_def)
    have thp: "th_clock (th st2 ?p) = vc_plus_assign (th_clock (th st ?p)) (pe_clock (ev st i))"
    proof -
      have "nat i \<noteq> nat ?n" using i by simp
      then have "ev st1 i = ev st i" using ev1 by simp
      moreover have "threads st1 = threads st" by (simp add: st1_def cur_clock_add_def)
      ultimately show ?thesis using Cons.prems(4) by (simp add: st2_def th_clock_add_def nth_upd_th)
    qed
    have step: "see_clocks (i # rs) st = see_clocks rs st2"
      using i Cons.prems(1,2) by (simp add: st2_def st1_def curnode_def assertp_def Let_def)
    have same: "ev st2 l = ev st l" if "l < ?n" "0 \<le> l" for l
    proof -
      have "nat l \<noteq> nat ?n" using that by simp
      then show ?thesis using ev1 f(3) by simp
    qed
    have cur: "ev st2 ?n = (ev st ?n)\<lparr>pe_clock := vc_plus_assign (pe_clock (ev st ?n)) (pe_clock (ev st i))\<rparr>" using ev1 f(3) by simp
    have rest: "(\<forall>l \<in> set rs. 0 \<le> l \<longrightarrow> vc_leq (pe_clock (ev st2 l)) w) \<longleftrightarrow> (\<forall>l \<in> set rs. 0 \<le> l \<longrightarrow> vc_leq (pe_clock (ev st l)) w)" for w
      using Cons.prems(3) same by auto
    have p2: "ev_pid (ev st2 ?n) = ?p" using cur by simp
    obtain st' clk where st': "see_clocks rs st2 = Some st'" "prefix_idx st' = ?n" "length (prefix st') = length (prefix st)"
      "\<And>k. k \<noteq> nat ?n \<Longrightarrow> prefix st' ! k = prefix st2 ! k" "ev st' ?n = (ev st2 ?n)\<lparr>pe_clock := clk\<rparr>"
      "\<And>w. vc_leq (pe_clock (ev st' ?n)) w \<longleftrightarrow> vc_leq (pe_clock (ev st2 ?n)) w \<and> (\<forall>l \<in> set rs. 0 \<le> l \<longrightarrow> vc_leq (pe_clock (ev st l)) w)"
      "\<And>w. vc_leq (th_clock (th st' ?p)) w \<longleftrightarrow> vc_leq (th_clock (th st2 ?p)) w \<and> (\<forall>l \<in> set rs. 0 \<le> l \<longrightarrow> vc_leq (pe_clock (ev st l)) w)"
      using Cons.IH [of st2] Cons.prems unfolding f(1,2,4) p2 rest by auto
    show ?thesis
    proof (intro exI [of _ st'] conjI allI impI)
      show "prefix st' ! k = prefix st ! k" if "k \<noteq> nat ?n" for k using st'(4) [OF that] that ev1 f(3) by simp
      show "\<exists>clk. ev st' ?n = (ev st ?n)\<lparr>pe_clock := clk\<rparr>" using st'(5) cur by (intro exI [of _ clk]) simp
    qed (use st' step cur thp i in \<open>auto simp: vc_leq_plus\<close>)
  qed
qed

lemma racing_bounds:
  assumes "i \<in> set (racing st (pe_clock (ev st (prefix_idx st))) seen)"
  shows "i \<in> set seen" "0 \<le> i" "i \<noteq> prefix_idx st"
  using assms by (auto simp: racing_def clock_specs)

lemma see_events_spec:
  assumes inv: "pso_inv st" and idx: "0 \<le> prefix_idx st" and seen: "\<forall>i \<in> set seen. i < prefix_idx st"
  defines "n \<equiv> nat (prefix_idx st)"
  shows "\<exists>st'. see_events seen st = Some st' \<and> prefix_idx st' = prefix_idx st \<and> length (prefix st') = length (prefix st) \<and>
     (\<forall>w. vc_leq (pe_clock (prefix st' ! n)) w \<longleftrightarrow>
        vc_leq (pe_clock (prefix st ! n)) w \<and> (\<forall>i \<in> set seen. 0 \<le> i \<longrightarrow> vc_leq (pe_clock (ev st i)) w)) \<and>
     (\<forall>w. vc_leq (th_clock (th st' (ev_pid (prefix st ! n)))) w \<longleftrightarrow>
        vc_leq (th_clock (th st (ev_pid (prefix st ! n)))) w \<and> (\<forall>i \<in> set seen. 0 \<le> i \<longrightarrow> vc_leq (pe_clock (ev st i)) w)) \<and>
     (\<forall>k < n. int k \<notin> set (racing st (pe_clock (prefix st ! n)) seen) \<longrightarrow> prefix st' ! k = prefix st ! k) \<and>
     (hb_order (prefix st') n \<longrightarrow> (\<forall>i \<in> set (racing st (pe_clock (prefix st ! n)) seen). covered st' i (prefix_idx st)))"
proof -
  let ?races = "racing st (pe_clock (ev st (prefix_idx st))) seen" and ?p = "ev_pid (prefix st ! n)"
  have len: "prefix_idx st < int (length (prefix st))" using inv_prefixD(3) [OF inv] .
  have p: "?p < length (threads st)" using inv_prefixD(5) [OF inv, of n] idx by (simp add: n_def)
  obtain st1 where st1: "see_clocks seen st = Some st1" "prefix_idx st1 = prefix_idx st" "length (prefix st1) = length (prefix st)"
    "\<forall>k. k \<noteq> n \<longrightarrow> prefix st1 ! k = prefix st ! k"
    "\<forall>w. vc_leq (pe_clock (prefix st1 ! n)) w \<longleftrightarrow> vc_leq (pe_clock (prefix st ! n)) w \<and> (\<forall>i \<in> set seen. 0 \<le> i \<longrightarrow> vc_leq (pe_clock (ev st i)) w)"
    "\<forall>w. vc_leq (th_clock (th st1 ?p)) w \<longleftrightarrow> vc_leq (th_clock (th st ?p)) w \<and> (\<forall>i \<in> set seen. 0 \<le> i \<longrightarrow> vc_leq (pe_clock (ev st i)) w)"
    using see_clocks_spec [OF idx len seen [THEN bspec] p [unfolded n_def]] unfolding n_def [symmetric] by blast
  have inv1: "pso_inv st1" using keeps_see_clocks [OF inv st1(1)] keepsD(1) by blast
  have r: "0 \<le> i \<and> i < prefix_idx st1" if "i \<in> set ?races" for i using racing_bounds [OF that] seen st1(2) by fastforce
  obtain st' where st': "add_branches ?races st1 = Some st'" "more_branches (prefix st1) (prefix st')" "prefix_idx st' = prefix_idx st1"
    "threads st' = threads st1" "\<forall>k < length (prefix st1). int k \<notin> set ?races \<longrightarrow> prefix st' ! k = prefix st1 ! k"
    "hb_order (prefix st1) n \<longrightarrow> (\<forall>i \<in> set ?races. covered st' i (prefix_idx st1))"
    using add_branches_spec [OF inv1, of ?races] r idx st1(2) unfolding n_def by auto
  have n: "n < length (prefix st1)" using len idx st1(3) by (simp add: n_def)
  have "see_events seen st = Some st'"
    using st1(1) st'(1) idx len by (simp add: see_events_def curnode_def assertp_def Let_def)
  moreover have "hb_order (prefix st') n \<longleftrightarrow> hb_order (prefix st1) n" using more_branches_hb(2) [OF st'(2) n] .
  moreover have "pe_clock (prefix st' ! n) = pe_clock (prefix st1 ! n)" using more_branchesD(2) [OF st'(2) n] .
  moreover have "length (prefix st') = length (prefix st1)" using st'(2) by (simp add: more_branches_def)
  moreover have "prefix st' ! k = prefix st ! k" if "k < n" "int k \<notin> set ?races" for k using that st'(5) st1(4) n by simp
  ultimately show ?thesis using st1 st' unfolding n_def [symmetric] by auto
qed

section \<open>Waking\<close>

lemma wake_all_sleepers:
  assumes "pso_inv st" "\<not> dryrun st" "\<And>p. p \<in> set ps \<Longrightarrow> p \<in> set (sleepers st)" "distinct ps" "0 \<le> prefix_idx st"
  shows "\<exists>st'. wake_all ps st = Some st' \<and> set (sleepers st') = set (sleepers st) - set ps \<and>
    set (pe_wakeup (ev st' (prefix_idx st))) = set (pe_wakeup (ev st (prefix_idx st))) \<union> set ps \<and>
    (\<forall>q < length (threads st). th st' q = (if q \<in> set ps then (th st q)\<lparr>th_sleep_accesses_r := [], th_sleep_accesses_w := [],
       th_sleep_full_memory_conflict := False, th_sleeping := False\<rparr> else th st q)) \<and>
    prefix_idx st' = prefix_idx st"
  using assms
proof (induction ps arbitrary: st)
  case Nil
  then show ?case by simp
next
  case (Cons p ps)
  let ?f = "\<lambda>t. t\<lparr>th_sleep_accesses_r := [], th_sleep_accesses_w := [], th_sleep_full_memory_conflict := False, th_sleeping := False\<rparr>"
  have sl: "ascending (sleepers st)" "set (sleepers st) = {q. q < length (threads st) \<and> th_sleeping (th st q)}"
    using Cons.prems(1) by (auto simp: pso_inv_def tracks_def)
  have p: "p < length (threads st)" "th_sleeping (th st p)" using Cons.prems(3) [of p] sl(2) by auto
  have i1: "pso_inv (wake p st)" by (rule inv_wake [OF Cons.prems(1) p(1) Cons.prems(2)])
  have len: "nat (prefix_idx st) < length (prefix st)" using inv_prefixD(3) [OF Cons.prems(1)] Cons.prems(5) by simp
  have wk: "ascending (pe_wakeup (ev st (prefix_idx st)))" using inv_prefixD(1) [OF Cons.prems(1) len] by (simp add: event_ok_def)
  have w: "set (sleepers (wake p st)) = set (sleepers st) - {p}" "prefix_idx (wake p st) = prefix_idx st" "\<not> dryrun (wake p st)"
    "length (threads (wake p st)) = length (threads st)"
    using sl(1) Cons.prems(2) by (simp_all add: wake_def Let_def vecset_specs)
  have we: "set (pe_wakeup (ev (wake p st) (prefix_idx st))) = insert p (set (pe_wakeup (ev st (prefix_idx st))))"
    using len wk by (simp add: wake_def Let_def vecset_specs upd_ev_def upd_th_def)
  have wt: "th (wake p st) q = (if q = p then ?f (th st p) else th st q)" if "q < length (threads st)" for q
    using that by (simp add: wake_def Let_def nth_upd_th)
  obtain st' where "wake_all ps (wake p st) = Some st'" "set (sleepers st') = set (sleepers st) - {p} - set ps"
    "set (pe_wakeup (ev st' (prefix_idx st))) = insert p (set (pe_wakeup (ev st (prefix_idx st)))) \<union> set ps"
    "\<forall>q < length (threads st). th st' q = (if q \<in> set ps then ?f (th (wake p st) q) else th (wake p st) q)" "prefix_idx st' = prefix_idx st"
    using Cons.IH [OF i1] Cons.prems w we by auto
  then show ?case using p Cons.prems(4) wt by (intro exI [of _ st']) (auto simp: assertp_def)
qed

lemma wakeup_spec:
  assumes inv: "pso_inv st" and nd: "\<not> dryrun st" and idx: "0 \<le> prefix_idx st" and ty: "type \<noteq> Acc_NA"
  defines "pid \<equiv> ev_pid (ev st (prefix_idx st))"
  shows "\<exists>st'. wakeup type ml st = Some st' \<and> set (sleepers st') = {p \<in> set (sleepers st). \<not> wakes st pid type ml p} \<and>
    set (pe_wakeup (ev st' (prefix_idx st))) = set (pe_wakeup (ev st (prefix_idx st))) \<union> {p \<in> set (sleepers st). wakes st pid type ml p} \<and>
    (\<forall>q < length (threads st). th_sleeping (th st' q) \<longleftrightarrow> th_sleeping (th st q) \<and> \<not> wakes st pid type ml q)"
proof -
  let ?ps = "filter (wakes st pid type ml) (sleepers st)"
  have sl: "ascending (sleepers st)" "set (sleepers st) = {q. q < length (threads st) \<and> th_sleeping (th st q)}"
    using inv by (auto simp: pso_inv_def tracks_def)
  have "wakeup type ml st = wake_all ?ps st"
    using idx inv_prefixD(3) [OF inv] ty by (simp add: wakeup_def curnode_def assertp_def pid_def)
  moreover obtain st' where st': "wake_all ?ps st = Some st'" "set (sleepers st') = set (sleepers st) - set ?ps"
    "set (pe_wakeup (ev st' (prefix_idx st))) = set (pe_wakeup (ev st (prefix_idx st))) \<union> set ?ps"
    "\<And>q. q < length (threads st) \<Longrightarrow> th st' q = (if q \<in> set ?ps then (th st q)\<lparr>th_sleep_accesses_r := [], th_sleep_accesses_w := [],
       th_sleep_full_memory_conflict := False, th_sleeping := False\<rparr> else th st q)"
    using wake_all_sleepers [OF inv nd, of ?ps] idx ascending_distinct [OF sl(1)] by auto
  moreover have "th_sleeping (th st' q) \<longleftrightarrow> th_sleeping (th st q) \<and> \<not> wakes st pid type ml q" if "q < length (threads st)" for q
    using st'(4) [OF that] sl(2) that by auto
  ultimately show ?thesis by (intro exI [of _ st']) auto
qed

section \<open>Store buffers\<close>

text \<open>The queue of pending stores to a byte.\<close>

definition buffer_of :: "pso_thread \<Rightarrow> symaddr \<Rightarrow> pending_store_byte list" where
  "buffer_of t b = (case map_of (th_store_buffers t) b of None \<Rightarrow> [] | Some sb \<Rightarrow> sb)"

definition same_buffers :: "pso \<Rightarrow> pso \<Rightarrow> bool" where
  "same_buffers st st' \<longleftrightarrow> map th_store_buffers (threads st') = map th_store_buffers (threads st)"

lemma same_buffers_th: "same_buffers st st' \<Longrightarrow> p < length (threads st) \<Longrightarrow> buffer_of (th st' p) b = buffer_of (th st p) b"
  unfolding same_buffers_def buffer_of_def by (metis length_map nth_map)

lemma same_buffers_refl [simp]: "same_buffers st st"
  by (simp add: same_buffers_def)

lemma same_buffers_trans: "same_buffers st st1 \<Longrightarrow> same_buffers st1 st2 \<Longrightarrow> same_buffers st st2"
  by (simp add: same_buffers_def)

lemma same_buffers_upd_th: "(\<And>t. th_store_buffers (f t) = th_store_buffers t) \<Longrightarrow> same_buffers st (upd_th p f st)"
  unfolding same_buffers_def by (rule nth_equalityI) (auto simp: nth_upd_th)

lemma same_buffers_steps [intro]:
  "same_buffers st st1 \<Longrightarrow> same_buffers st (th_clock_add p c st1)" "same_buffers st st1 \<Longrightarrow> same_buffers st (cur_clock_add c st1)"
  "same_buffers st st1 \<Longrightarrow> same_buffers st (set_may_conflict st1)" "same_buffers st st1 \<Longrightarrow> same_buffers st (upd_ev i g st1)"
  "same_buffers st st1 \<Longrightarrow> same_buffers st (wake p st1)" "same_buffers st st1 \<Longrightarrow> same_buffers st (mark_unavailable_ipid p st1)"
  "same_buffers st st1 \<Longrightarrow> same_buffers st (mark_available_ipid p st1)" "same_buffers st st1 \<Longrightarrow> same_buffers st (st1\<lparr>mem := m\<rparr>)"
proof -
  assume s: "same_buffers st st1"
  have u: "map th_store_buffers (threads (upd_th p f st1)) = map th_store_buffers (threads st1)"
    if "\<And>t. th_store_buffers (f t) = th_store_buffers t" for f
    using same_buffers_upd_th [of f st1 p] that by (simp add: same_buffers_def)
  show "same_buffers st (th_clock_add p c st1)" using s u by (simp add: same_buffers_def th_clock_add_def)
  show "same_buffers st (cur_clock_add c st1)" "same_buffers st (set_may_conflict st1)" "same_buffers st (upd_ev i g st1)"
    "same_buffers st (st1\<lparr>mem := m\<rparr>)"
    using s by (simp_all add: same_buffers_def cur_clock_add_def set_may_conflict_def)
  show "same_buffers st (wake p st1)" using s u by (simp add: same_buffers_def wake_def Let_def)
  show "same_buffers st (mark_unavailable_ipid p st1)" "same_buffers st (mark_available_ipid p st1)"
    using s u by (simp_all add: same_buffers_def mark_unavailable_ipid_def mark_available_ipid_def Let_def)
qed

lemma same_buffers_wakeup: "same_buffers st st1 \<Longrightarrow> wakeup type ml st1 = Some st2 \<Longrightarrow> same_buffers st st2"
proof -
  have "wake_all ps st1 = Some st2 \<Longrightarrow> same_buffers st st1 \<Longrightarrow> same_buffers st st2" for ps st1
    by (induction ps arbitrary: st1) auto
  then show "same_buffers st st1 \<Longrightarrow> wakeup type ml st1 = Some st2 \<Longrightarrow> same_buffers st st2"
    by (auto simp: wakeup_def bind_eq_Some_conv)
qed

lemma same_buffers_see_events:
  assumes "same_buffers st st1" "see_events seen st1 = Some st2"
  shows "same_buffers st st2"
proof -
  have 1: "see_clocks rs st1 = Some st2 \<Longrightarrow> same_buffers st st1 \<Longrightarrow> same_buffers st st2" for rs st1 st2
    by (induction rs arbitrary: st1) (auto simp: bind_eq_Some_conv Let_def split: if_splits)
  have "add_branch i j st1 = Some st2 \<Longrightarrow> same_buffers st st1 \<Longrightarrow> same_buffers st st2" for i j st1 st2
    by (auto simp: add_branch_def split: sum.splits option.splits)
  then have 2: "add_branches rs st1 = Some st2 \<Longrightarrow> same_buffers st st1 \<Longrightarrow> same_buffers st st2" for rs st1 st2
    by (induction rs arbitrary: st1) (auto simp: bind_eq_Some_conv)
  show ?thesis using assms 1 2 by (auto simp: see_events_def bind_eq_Some_conv Let_def)
qed

lemma same_buffers_see_bytes: "see_bytes_write u t bs (s, st1) = Some (s2, st2) \<Longrightarrow> same_buffers st st1 \<Longrightarrow> same_buffers st st2"
proof (induction bs arbitrary: s st1)
  case (Cons b bs)
  then obtain s3 st3 where "see_byte_write u t b (s, st1) = Some (s3, st3)" "see_bytes_write u t bs (s3, st3) = Some (s2, st2)"
    by (auto simp: bind_eq_Some_conv)
  moreover from this(1) Cons.prems(2) have "same_buffers st st3"
    by (auto simp: see_byte_write_def Let_def bind_eq_Some_conv split: if_splits)
  ultimately show ?case using Cons.IH by blast
qed simp

lemma same_buffers_register: "register_write ml p r bs st1 = Some st2 \<Longrightarrow> same_buffers st st1 \<Longrightarrow> same_buffers st st2"
proof (induction bs arbitrary: st1)
  case (Cons b bs)
  obtain bi st3 where "wakeup Acc_W b (st1\<lparr>mem := bi\<rparr>) = Some st3" "register_write ml p r bs st3 = Some st2"
    using Cons.prems(1) by (auto simp: bind_eq_Some_conv Let_def)
  then show ?case using Cons.IH same_buffers_wakeup [OF same_buffers_steps(8) [OF Cons.prems(2)]] by blast
qed simp

lemma same_buffers_update_clock: "update_clock ml u t st1 = Some st2 \<Longrightarrow> same_buffers st st1 \<Longrightarrow> same_buffers st st2"
  by (auto simp: update_clock_def Let_def split: option.splits)

lemma buffer_push_buffer: "buffer_of (buffer_push b e t) c = buffer_of t c @ (if c = b then [e] else [])"
  by (auto simp: buffer_of_def buffer_push_def update_conv split: option.splits)

lemma buffer_push_all: "distinct bs \<Longrightarrow> buffer_of (fold (\<lambda>b. buffer_push b e) bs t) c = buffer_of t c @ (if c \<in> set bs then [e] else [])"
  by (induction bs arbitrary: t) (auto simp: buffer_push_buffer)

lemma remove_pending_length: "remove_pending u t bs st = Some st' \<Longrightarrow> length (threads st') = length (threads st)"
proof (induction bs arbitrary: st)
  case (Cons b bs)
  have m: "length (threads (mark_unavailable_ipid u st)) = length (threads st)" for st
    by (simp add: mark_unavailable_ipid_def Let_def)
  show ?case
    using Cons.prems Cons.IH by (auto simp: Let_def m split: option.splits if_splits)
qed simp

lemma remove_pending_buffer:
  assumes "remove_pending u t bs st = Some st'" "distinct bs" "t < length (threads st)"
  shows "buffer_of (th st' t) c = (if c \<in> set bs then tl (buffer_of (th st t) c) else buffer_of (th st t) c) \<and>
    (c \<in> set bs \<longrightarrow> buffer_of (th st t) c \<noteq> [])"
  using assms
proof (induction bs arbitrary: st)
  case (Cons b bs)
  obtain sb where sb: "map_of (th_store_buffers (th st t)) b = Some sb" "sb \<noteq> []"
    using Cons.prems(1) by (auto split: option.splits)
  define st1 where "st1 = (if vs_erase_at 0 sb = [] then mark_unavailable_ipid u
       (upd_th t (\<lambda>t. t\<lparr>th_store_buffers := AList.delete b (th_store_buffers t)\<rparr>) st)
     else upd_th t (\<lambda>t. t\<lparr>th_store_buffers := AList.update b (vs_erase_at 0 sb) (th_store_buffers t)\<rparr>) st)"
  have r: "remove_pending u t bs st1 = Some st'" using Cons.prems(1) sb by (simp add: st1_def Let_def)
  have tl: "vs_erase_at 0 sb = tl sb" using sb(2) by (cases sb) (simp_all add: vs_erase_at_eq)
  have m: "buffer_of (th (mark_unavailable_ipid u st2) t) c = buffer_of (th st2 t) c" if "t < length (threads st2)" for c st2
    by (rule same_buffers_th) (use that in auto)
  have len: "t < length (threads st1)" using Cons.prems(3) by (simp add: st1_def mark_unavailable_ipid_def Let_def)
  have "buffer_of (th st1 t) c = (if c = b then tl (buffer_of (th st t) c) else buffer_of (th st t) c)" for c
  proof (cases "tl sb = []")
    case True
    then show ?thesis using Cons.prems(3) sb by (simp add: st1_def tl m) (simp add: nth_upd_th buffer_of_def delete_conv)
  next
    case False
    then show ?thesis using Cons.prems(3) sb by (simp add: st1_def tl nth_upd_th buffer_of_def update_conv)
  qed
  moreover have "buffer_of (th st t) b = sb" using sb by (simp add: buffer_of_def)
  ultimately show ?case using Cons.IH [OF r _ len] Cons.prems(2) sb(2) by auto
qed simp

lemma as_iterate_left: "a \<in> set (as_iterate b it e) \<Longrightarrow> unat (e - sa_offset a) \<le> unat (e - it)"
proof (induction b it e rule: as_iterate.induct)
  case (1 b it e)
  show ?case
  proof (cases "it = e")
    case False
    then have "unat (e - (it + 1)) < unat (e - it)" using measure_unat [of "e - it"] by (simp add: algebra_simps)
    then show ?thesis using 1 False by (subst (asm) as_iterate.simps) auto
  next
    case True
    then show ?thesis using 1(2) by (subst (asm) as_iterate.simps) simp
  qed
qed

lemma as_iterate_distinct: "distinct (as_iterate b it e)"
proof (induction b it e rule: as_iterate.induct)
  case (1 b it e)
  show ?case
  proof (cases "it = e")
    case False
    then have "unat (e - (it + 1)) < unat (e - it)" using measure_unat [of "e - it"] by (simp add: algebra_simps)
    then have "\<lparr>sa_block = b, sa_offset = it\<rparr> \<notin> set (as_iterate b (it + 1) e)" using as_iterate_left by fastforce
    then show ?thesis using 1 False by (subst as_iterate.simps) auto
  next
    case True
    then show ?thesis by (subst as_iterate.simps) simp
  qed
qed

lemma as_elements_distinct: "distinct (as_elements r)"
  by (simp add: as_elements_def as_iterate_distinct)

lemma store_buffer:
  assumes inv: "pso_inv st" and nd: "\<not> dryrun st" and s: "store ml st = Some (r, st')"
  defines "p \<equiv> ev_pid (ev st (prefix_idx st))"
  shows "buffer_of (th st' p) c = buffer_of (th st p) c @
    (if c \<in> set (as_elements ml) then [\<lparr>pb_ml = ml, pb_clock = th_clock (th st p), pb_last_rowe = -1, pb_md = last_md st\<rparr>] else [])"
proof -
  define st1 where "st1 = upd_th p (fold (\<lambda>b. buffer_push b \<lparr>pb_ml = ml, pb_clock = th_clock (th st p), pb_last_rowe = -1, pb_md = last_md st\<rparr>)
      (as_elements ml)) st"
  obtain e where e: "curnode st = Some e" using s nd by (auto simp: store_def bind_eq_Some_conv)
  have ep: "ev_pid e = p" using e by (simp add: curnode_Some p_def)
  have p: "p < length (threads st)" using inv_cur_pid2 [OF inv e] ep by simp
  have mark: "buffer_of (th (mark_available_ipid q st2) p) c = buffer_of (th st2 p) c" if "p < length (threads st2)" for q st2
    by (rule same_buffers_th) (use that in auto)
  have "buffer_of (th st' p) c = buffer_of (th st1 p) c"
  proof (cases "map_of (th_byte_to_aux (th st1 p)) (as_addr ml)")
    case None
    let ?f = "\<lambda>t. t\<lparr>th_byte_to_aux := AList.update (as_addr ml) (length (th_aux_to_byte (th st1 p))) (th_byte_to_aux t),
        th_aux_to_byte := th_aux_to_byte t @ [as_addr ml], th_aux_to_ipid := th_aux_to_ipid t @ [length (threads st1)]\<rparr>"
    obtain x y where st': "st' = mark_available_ipid (length (threads st1)) (upd_th p ?f (st1\<lparr>CPS := x, threads := threads st1 @ [y]\<rparr>))"
      using s nd e ep None by (auto simp: store_def Let_def bind_eq_Some_conv st1_def [symmetric])
    show ?thesis unfolding st' using p by (subst mark) (auto simp: st1_def nth_upd_th nth_append buffer_of_def)
  next
    case (Some a)
    then have "st' = mark_available_ipid (th_aux_to_ipid (th st1 p) ! a) st1"
      using s nd e ep by (auto simp: store_def Let_def bind_eq_Some_conv st1_def [symmetric])
    then show ?thesis using mark [of st1] p by (simp add: st1_def)
  qed
  then show ?thesis using p by (simp add: st1_def nth_upd_th buffer_push_all [OF as_elements_distinct])
qed

lemma atomic_store_buffer:
  assumes inv: "pso_inv st" and nd: "\<not> dryrun st" and s: "atomic_store ml st = Some (r, st')"
  defines "p \<equiv> ev_pid (ev st (prefix_idx st))"
  defines "t \<equiv> nat (th_parent (th st p))"
  assumes aux: "is_aux st p"
  shows "buffer_of (th st' t) c = (if c \<in> set (as_elements ml) then tl (buffer_of (th st t) c) else buffer_of (th st t) c)"
    and "c \<in> set (as_elements ml) \<Longrightarrow> buffer_of (th st t) c \<noteq> []"
    and "buffer_of (th st t) (as_addr ml) \<noteq> [] \<and> pb_ml (hd (buffer_of (th st t) (as_addr ml))) = ml"
proof -
  obtain e where e: "curnode st = Some e" using s nd by (auto simp: atomic_store_def bind_eq_Some_conv)
  have ep: "ev_pid e = p" using e by (simp add: curnode_Some p_def)
  have p: "p < length (threads st)" using inv_cur_pid2 [OF inv e] ep by simp
  have aok: "auxs_ok st" using inv by (simp add: pso_inv_def)
  have t: "t < length (threads st)" using aok aux p unfolding auxs_ok_def t_def by auto
  let ?st0 = "set_may_conflict st"
  have same0: "is_aux ?st0 p" "nat (th_parent (th ?st0 p)) = t" "th ?st0 t = th st t"
    using aux by (simp_all add: set_may_conflict_def is_aux_def t_def)
  have eq: "atomic_store ml st = update_clock ml p t ?st0 \<bind> (\<lambda>st1. see_bytes_write p t (as_elements ml) ([], st1) \<bind> (\<lambda>(seen, st2).
      see_events (fst (vs_insert (last_full_memory_conflict st2) seen)) st2 \<bind> (\<lambda>st3.
      register_write ml (th_proc (th st3 t)) (front_rowe st3 t (as_addr ml)) (as_elements ml) st3 \<bind> (\<lambda>st4.
      remove_pending p t (as_elements ml) st4 \<bind> (\<lambda>st5. curnode st5 \<bind> (\<lambda>e5.
      Some (True, upd_th t (\<lambda>x. x\<lparr>th_aux_clock_sum := vc_plus_assign (th_aux_clock_sum x) (pe_clock e5)\<rparr>) st5)))))))"
    by (simp add: atomic_store_def nd e ep same0 Let_def)
  obtain st1 where 1: "update_clock ml p t ?st0 = Some st1" and r1: "see_bytes_write p t (as_elements ml) ([], st1) \<bind> (\<lambda>(seen, st2).
      see_events (fst (vs_insert (last_full_memory_conflict st2) seen)) st2 \<bind> (\<lambda>st3.
      register_write ml (th_proc (th st3 t)) (front_rowe st3 t (as_addr ml)) (as_elements ml) st3 \<bind> (\<lambda>st4.
      remove_pending p t (as_elements ml) st4 \<bind> (\<lambda>st5. curnode st5 \<bind> (\<lambda>e5.
      Some (True, upd_th t (\<lambda>x. x\<lparr>th_aux_clock_sum := vc_plus_assign (th_aux_clock_sum x) (pe_clock e5)\<rparr>) st5)))))) = Some (r, st')"
    using s [unfolded eq] by (cases "update_clock ml p t ?st0") (simp_all del: upd_simps)
  obtain s2 st2 where 2: "see_bytes_write p t (as_elements ml) ([], st1) = Some (s2, st2)"
    using r1 by (cases "see_bytes_write p t (as_elements ml) ([], st1)") auto
  obtain st3 where 3: "see_events (fst (vs_insert (last_full_memory_conflict st2) s2)) st2 = Some st3"
    using r1 2 by (cases "see_events (fst (vs_insert (last_full_memory_conflict st2) s2)) st2") auto
  obtain st4 where 4: "register_write ml (th_proc (th st3 t)) (front_rowe st3 t (as_addr ml)) (as_elements ml) st3 = Some st4"
    using r1 2 3 by (cases "register_write ml (th_proc (th st3 t)) (front_rowe st3 t (as_addr ml)) (as_elements ml) st3") auto
  obtain st5 where 5: "remove_pending p t (as_elements ml) st4 = Some st5"
    using r1 2 3 4 by (cases "remove_pending p t (as_elements ml) st4") auto
  obtain e5 where "curnode st5 = Some e5" using r1 2 3 4 5 by (cases "curnode st5") auto
  then have 6: "st' = upd_th t (\<lambda>x. x\<lparr>th_aux_clock_sum := vc_plus_assign (th_aux_clock_sum x) (pe_clock e5)\<rparr>) st5"
    using r1 2 3 4 5 by auto
  have b: "same_buffers st st4"
    using same_buffers_register [OF 4] same_buffers_see_events [OF _ 3] same_buffers_see_bytes [OF 2] same_buffers_update_clock [OF 1]
      same_buffers_steps(3) [OF same_buffers_refl] by blast
  have t4: "t < length (threads st4)" using b t unfolding same_buffers_def by (metis length_map)
  have t5: "t < length (threads st5)" using remove_pending_length [OF 5] t4 by simp
  have st': "buffer_of (th st' t) c = buffer_of (th st5 t) c" for c
    unfolding 6 using t5 by (simp add: nth_upd_th buffer_of_def)
  note R = remove_pending_buffer [OF 5 as_elements_distinct t4]
  show "buffer_of (th st' t) c = (if c \<in> set (as_elements ml) then tl (buffer_of (th st t) c) else buffer_of (th st t) c)"
    "c \<in> set (as_elements ml) \<Longrightarrow> buffer_of (th st t) c \<noteq> []"
    using R [of c] same_buffers_th [OF b t] st' by auto
  show "buffer_of (th st t) (as_addr ml) \<noteq> [] \<and> pb_ml (hd (buffer_of (th st t) (as_addr ml))) = ml"
    using 1 same0(3) by (auto simp: update_clock_def buffer_of_def split: option.splits)
qed

section \<open>The next trace\<close>

lemma branch_index_first: "(\<And>k. k < n \<Longrightarrow> ev_pid (pfx ! k) \<noteq> p) \<Longrightarrow> branch_index pfx p n = 1"
  by (induction n) auto

lemma branch_index_next:
  "k < n \<Longrightarrow> ev_pid (pfx ! k) = p \<Longrightarrow> (\<And>l. k < l \<Longrightarrow> l < n \<Longrightarrow> ev_pid (pfx ! l) \<noteq> p) \<Longrightarrow>
    0 < ev_index (pfx ! k) \<Longrightarrow> 0 < pe_size (pfx ! k) \<Longrightarrow> branch_index pfx p n = ev_index (pfx ! k) + pe_size (pfx ! k)"
  by (induction n) (auto simp: less_Suc_eq)

lemma hd_least: "ascending xs \<Longrightarrow> x \<in> set xs \<Longrightarrow> hd xs \<le> x" for xs :: "'a::linorder list"
  by (cases xs) auto

text \<open>
  The event \<open>e\<close> executes the least branch \<open>br\<close> of \<open>old\<close> in its place: the other branches stay, and
  the thread of \<open>old\<close> sleeps.
\<close>

definition takes_branch :: "pso_event \<Rightarrow> branch \<Rightarrow> pso_event \<Rightarrow> bool" where
  "takes_branch old br e \<longleftrightarrow>
     br \<in> set (pe_branch old) \<and> (\<forall>x \<in> set (pe_branch old). br \<le> x) \<and> ev_pid e = fst br \<and> pe_alt e = snd br \<and>
     set (pe_branch e) = set (pe_branch old) - {br} \<and> pe_wakeup e = [] \<and>
     set (pe_sleep e) = set (pe_sleep old) \<union> (if fst br \<noteq> ev_pid old then {ev_pid old} else {})"

lemma branch_event_takes:
  assumes "event_ok (prefix st ! i)" "pe_branch (prefix st ! i) \<noteq> []"
  shows "takes_branch (prefix st ! i) (hd (pe_branch (prefix st ! i))) (branch_event st i)"
  using assms hd_least [of "pe_branch (prefix st ! i)"]
  by (simp add: takes_branch_def branch_event_def Let_def Event_def vecset_specs event_ok_def)

lemma reset_false: "\<not> fst (reset st) \<longleftrightarrow> (\<forall>e \<in> set (prefix st). pe_branch e = [])"
proof -
  have "(\<forall>e \<in> set (prefix st). pe_branch e = []) \<longleftrightarrow> last_branching (prefix st) (length (prefix st)) = None"
    unfolding last_branching_None by (metis in_set_conv_nth)
  then show ?thesis by (auto simp: reset_def split: option.splits)
qed

lemma reset_true:
  assumes inv: "pso_inv st" and r: "reset st = (True, st')"
  obtains i br e where "i < length (prefix st)" "takes_branch (prefix st ! i) br e" "prefix st' = take i (prefix st) @ [e]"
    "\<And>k. i < k \<Longrightarrow> k < length (prefix st) \<Longrightarrow> pe_branch (prefix st ! k) = []" "ev_index e = branch_index (prefix st) (fst br) i"
    "prefix_idx st' = -1" "replay st'" "sleepers st' = []" "length (threads st') = 1"
proof -
  obtain i where i: "last_branching (prefix st) (length (prefix st)) = Some i" using r by (auto simp: reset_def split: option.splits)
  note L = last_branching_Some [OF i]
  have "ev_index (branch_event st i) = branch_index (prefix st) (fst (hd (pe_branch (prefix st ! i)))) i"
    by (simp add: branch_event_def Let_def Event_def)
  then show ?thesis
    using that [of i "hd (pe_branch (prefix st ! i))" "branch_event st i"] L r i branch_event_takes [of st i] inv_prefixD(1) [OF inv, of i]
    by (auto simp: reset_def)
qed

section \<open>Properties\<close>

lemma pso_run_inv: "run_calls pso_do cs (PSOTraceBuilder depth d) = Some st \<Longrightarrow> pso_inv st"
  using pso_sys.reachable_inv [of "PSOTraceBuilder depth d" cs st] by (auto simp: pso_init_def)


text \<open>The run of the example up to the load that races with the update of the store, at position 1.\<close>

definition pso_race :: "pso_call list" where
  "pso_race = [C_schedule, C_spawn, C_schedule, C_store pso_example_ml, C_schedule, C_atomic_store pso_example_ml,
     C_schedule, C_mark_unavailable 0 (-1), C_schedule]"

lemma pso_race_run:
  obtains st st' where "run_calls pso_do pso_race (PSOTraceBuilder (-1) 0) = Some st" "see_events [-1, 1] st = Some st'"
    "prefix_idx st = 3" "length (prefix st) = 4" "racing st (pe_clock (ev st 3)) [-1, 1] = [1]" "hb_order (prefix st') 3"
    "map ev_pid (prefix st') = [0, 2, 0, 1]" "pe_branch (prefix st' ! 1) = [(1, 0)]" "sleep_set_at st' 1 = []"
proof -
  let ?check = "\<lambda>st. case see_events [-1, 1] st of None \<Rightarrow> False | Some st' \<Rightarrow>
    prefix_idx st = 3 \<and> length (prefix st) = 4 \<and> racing st (pe_clock (ev st 3)) [-1, 1] = [1] \<and> hb_order (prefix st') 3 \<and>
    map ev_pid (prefix st') = [0, 2, 0, 1] \<and> pe_branch (prefix st' ! 1) = [(1, 0)] \<and> sleep_set_at st' 1 = []"
  have "map_option ?check (run_calls pso_do pso_race (PSOTraceBuilder (-1) 0)) = Some True" by code_simp
  then obtain st where st: "run_calls pso_do pso_race (PSOTraceBuilder (-1) 0) = Some st" and c: "?check st"
    by (cases "run_calls pso_do pso_race (PSOTraceBuilder (-1) 0)") simp_all
  from c obtain st' where s: "see_events [-1, 1] st = Some st'" by (cases "see_events [-1, 1] st") simp_all
  show ?thesis by (rule that [OF st s]) (use c s in simp_all)
qed


text \<open>
  C17. Seeing events always succeeds, whatever branches and clocks there are: a branch is found for every
  race. Afterwards the clock of the current event is the least clock above its old one and those of the
  events seen, likewise the clock of its thread, and the earlier events that do not race are left alone.
\<close>

theorem see_events_clocks:
  assumes "run_calls pso_do cs (PSOTraceBuilder depth d) = Some st" "0 \<le> prefix_idx st"
    and "\<forall>i \<in> set seen. i < prefix_idx st"
  defines "n \<equiv> nat (prefix_idx st)"
  shows "\<exists>st'. see_events seen st = Some st' \<and>
     (\<forall>w. vc_leq (pe_clock (prefix st' ! n)) w \<longleftrightarrow>
        vc_leq (pe_clock (prefix st ! n)) w \<and> (\<forall>i \<in> set seen. 0 \<le> i \<longrightarrow> vc_leq (pe_clock (ev st i)) w)) \<and>
     (\<forall>w. vc_leq (th_clock (th st' (ev_pid (prefix st ! n)))) w \<longleftrightarrow>
        vc_leq (th_clock (th st (ev_pid (prefix st ! n)))) w \<and> (\<forall>i \<in> set seen. 0 \<le> i \<longrightarrow> vc_leq (pe_clock (ev st i)) w)) \<and>
     (\<forall>k < n. int k \<notin> set (racing st (pe_clock (prefix st ! n)) seen) \<longrightarrow> prefix st' ! k = prefix st ! k)"
proof -
  from see_events_spec [OF pso_run_inv [OF assms(1)] assms(2,3)] show ?thesis
    unfolding n_def by (elim exE conjE, intro exI conjI)
qed

theorem see_events_clocks_witness:
  "\<exists>st st'. run_calls pso_do pso_race (PSOTraceBuilder (-1) 0) = Some st \<and> see_events [-1, 1] st = Some st' \<and>
     vc_leq (pe_clock (prefix st ! 1)) (pe_clock (prefix st' ! 3))"
proof (rule pso_race_run)
  fix st assume *: "run_calls pso_do pso_race (PSOTraceBuilder (-1) 0) = Some st" "prefix_idx st = 3"
  have refl: "vc_leq c c" for c by (simp add: clock_specs)
  obtain st' where "see_events [-1, 1] st = Some st'"
    "\<And>w. vc_leq (pe_clock (prefix st' ! 3)) w \<longleftrightarrow> vc_leq (pe_clock (prefix st ! 3)) w \<and> vc_leq (pe_clock (prefix st ! 1)) w"
    using see_events_clocks [OF *(1), of "[-1, 1]"] *(2) by auto
  then show ?thesis using *(1) refl by blast
qed

text \<open>
  Conflicts between accesses to memory, independently of how \<^verbatim>\<open>wakeup\<close> tests for them: an access reads a byte, writes a
  byte, or concerns the whole memory, as a fence or the like does. Two accesses conflict if one concerns the whole memory, or
  if they are to the same byte and one of them writes. What a sleeping thread would do next is what it recorded in its dry
  run, except that a read of a byte for which it has a store in its own buffer does not reach the memory.
\<close>

datatype mem_access = Reads symaddr | Writes symaddr | Whole_memory

fun accesses_conflict :: "mem_access \<Rightarrow> mem_access \<Rightarrow> bool" where
  "accesses_conflict Whole_memory x = True"
| "accesses_conflict x Whole_memory = True"
| "accesses_conflict (Reads a) (Reads b) = False"
| "accesses_conflict (Reads a) (Writes b) = (a = b)"
| "accesses_conflict (Writes a) (Reads b) = (a = b)"
| "accesses_conflict (Writes a) (Writes b) = (a = b)"

definition next_accesses :: "pso_thread \<Rightarrow> mem_access set" where
  "next_accesses t =
     {Reads b |b. b \<in> set (th_sleep_accesses_r t) \<and> buffer_of t b = []} \<union> Writes ` set (th_sleep_accesses_w t) \<union>
     {x. x = Whole_memory \<and> th_sleep_full_memory_conflict t}"

text \<open>Accesses of one process to a byte do not wake another thread of it (its auxiliary threads have its buffered stores).\<close>

definition wakes_up :: "pso_thread \<Rightarrow> mem_access \<Rightarrow> pso_thread \<Rightarrow> bool" where
  "wakes_up actor a t \<longleftrightarrow>
     (\<exists>x \<in> next_accesses t. accesses_conflict a x \<and> (a = Whole_memory \<or> x = Whole_memory \<or> th_proc t \<noteq> th_proc actor))"

fun access_of :: "access_type \<Rightarrow> symaddr \<Rightarrow> mem_access" where
  "access_of Acc_W_ALL_MEMORY ml = Whole_memory"
| "access_of Acc_R ml = Reads ml"
| "access_of _ ml = Writes ml"

lemma bex_next_accesses:
  "(\<exists>x \<in> next_accesses t. P x) \<longleftrightarrow> (\<exists>b \<in> set (th_sleep_accesses_r t). buffer_of t b = [] \<and> P (Reads b)) \<or>
     (\<exists>b \<in> set (th_sleep_accesses_w t). P (Writes b)) \<or> (th_sleep_full_memory_conflict t \<and> P Whole_memory)"
  by (auto simp: next_accesses_def)

lemma wakes_iff:
  assumes "pso_inv st" "p < length (threads st)" "type \<noteq> Acc_NA"
  shows "wakes st pid type ml p \<longleftrightarrow> wakes_up (th st pid) (access_of type ml) (th st p)"
proof -
  have t: "ascending (th_sleep_accesses_r (th st p))" "ascending (th_sleep_accesses_w (th st p))"
    "buffers_ok (th_store_buffers (th st p))" using assms(1,2) by (auto simp: pso_inv_def thread_ok_def)
  have b: "has_pending_store st p b \<longleftrightarrow> buffer_of (th st p) b \<noteq> []" for b
    using t(3) by (auto simp: has_pending_store_def buffer_of_def buffers_ok_def dest: map_of_SomeD split: option.splits)
  have w: "th_sleep_accesses_w (th st p) \<noteq> [] \<longleftrightarrow> (\<exists>c. c \<in> set (th_sleep_accesses_w (th st p)))"
    by (cases "th_sleep_accesses_w (th st p)") auto
  show ?thesis
    using assms(3) w unfolding wakes_def wakes_up_def bex_next_accesses
    by (cases type) (auto simp: b vs_count_spec [OF t(1)] vs_count_spec [OF t(2)] list_ex_iff)
qed

text \<open>
  C18. An access wakes exactly the sleeping threads it conflicts with: outside of a dry run \<^verbatim>\<open>wakeup\<close> succeeds; the sleeping
  threads whose next accesses conflict with the access (one of the two concerns the whole memory, or they are by different processes
  to the same byte and one is a write, reads that a thread's own buffer serves left out) leave the sleep set, no longer sleep and
  are recorded as woken by the current event, and all others sleep as before.
\<close>

theorem wakeup_exact:
  fixes ml :: symaddr
  assumes "run_calls pso_do cs (PSOTraceBuilder depth d) = Some st" "\<not> dryrun st" "0 \<le> prefix_idx st" "type \<noteq> Acc_NA"
  defines "conflicting \<equiv> \<lambda>p. wakes_up (th st (ev_pid (ev st (prefix_idx st)))) (access_of type ml) (th st p)"
  shows "\<exists>st'. wakeup type ml st = Some st' \<and> set (sleepers st') = {p \<in> set (sleepers st). \<not> conflicting p} \<and>
    set (pe_wakeup (ev st' (prefix_idx st))) = set (pe_wakeup (ev st (prefix_idx st))) \<union> {p \<in> set (sleepers st). conflicting p} \<and>
    (\<forall>q < length (threads st). th_sleeping (th st' q) \<longleftrightarrow> th_sleeping (th st q) \<and> \<not> conflicting q)"
proof -
  note inv = pso_run_inv [OF assms(1)]
  let ?pid = "ev_pid (ev st (prefix_idx st))"
  have eq: "wakes st ?pid type ml q \<longleftrightarrow> conflicting q" if "q < length (threads st)" for q
    unfolding conflicting_def by (rule wakes_iff [OF inv that assms(4)])
  have "\<forall>p \<in> set (sleepers st). p < length (threads st)" using inv by (auto simp: pso_inv_def tracks_def)
  then have sl: "{p \<in> set (sleepers st). wakes st ?pid type ml p} = {p \<in> set (sleepers st). conflicting p}"
    "{p \<in> set (sleepers st). \<not> wakes st ?pid type ml p} = {p \<in> set (sleepers st). \<not> conflicting p}" using eq by auto
  show ?thesis using wakeup_spec [OF inv assms(2-4), of ml] eq unfolding sl by simp
qed

text \<open>The replay of the example goes on with the load that the sleeping update conflicts with.\<close>

theorem wakeup_exact_witness:
  "\<exists>st st'. run_calls pso_do (pso_example @ [C_schedule]) (PSOTraceBuilder (-1) 0) = Some st \<and> sleepers st = [2] \<and>
     wakeup Acc_R (as_addr pso_example_ml) st = Some st' \<and> set (sleepers st') = {}"
proof -
  let ?t = "\<lambda>st. th st (ev_pid (ev st (prefix_idx st)))"
  let ?check = "\<lambda>st. sleepers st = [2] \<and> \<not> dryrun st \<and> 0 \<le> prefix_idx st \<and> th_proc (th st 2) \<noteq> th_proc (?t st) \<and>
    as_addr pso_example_ml \<in> set (th_sleep_accesses_w (th st 2))"
  have "map_option ?check (run_calls pso_do (pso_example @ [C_schedule]) (PSOTraceBuilder (-1) 0)) = Some True" by code_simp
  then obtain st where st: "run_calls pso_do (pso_example @ [C_schedule]) (PSOTraceBuilder (-1) 0) = Some st" and c: "?check st"
    by (cases "run_calls pso_do (pso_example @ [C_schedule]) (PSOTraceBuilder (-1) 0)") simp_all
  have "Writes (as_addr pso_example_ml) \<in> next_accesses (th st 2)" using c by (simp add: next_accesses_def)
  then have w: "wakes_up (?t st) (Reads (as_addr pso_example_ml)) (th st 2)"
    using c unfolding wakes_up_def by (metis accesses_conflict.simps(6) accesses_conflict.simps(5) accesses_conflict.simps(4))
  obtain st' where st': "wakeup Acc_R (as_addr pso_example_ml) st = Some st'" "set (sleepers st') =
      {p \<in> set (sleepers st). \<not> wakes_up (?t st) (Reads (as_addr pso_example_ml)) (th st p)}"
    using wakeup_exact [OF st, where type = Acc_R and ml = "as_addr pso_example_ml"] c by auto
  have "set (sleepers st') = {}" unfolding st'(2) using c w by auto
  then show ?thesis using st st'(1) c by blast
qed

text \<open>
  C19. Store buffers are queues, one per byte: a store appends one entry with its range and clock to the
  buffer of each of its bytes and of no others, and the update of an auxiliary thread, which finds an entry of its
  range at the head, removes the oldest entry of each of these bytes and of no others.
\<close>

theorem store_buffers_fifo:
  assumes "run_calls pso_do cs (PSOTraceBuilder depth d) = Some st" "\<not> dryrun st"
  defines "p \<equiv> ev_pid (ev st (prefix_idx st))"
  shows "(store ml st = Some (r, st') \<longrightarrow> buffer_of (th st' p) c = buffer_of (th st p) c @
      (if c \<in> set (as_elements ml) then [\<lparr>pb_ml = ml, pb_clock = th_clock (th st p), pb_last_rowe = -1, pb_md = last_md st\<rparr>] else [])) \<and>
    (atomic_store ml st = Some (r, st') \<and> is_aux st p \<longrightarrow>
      (let t = nat (th_parent (th st p)) in
       buffer_of (th st t) (as_addr ml) \<noteq> [] \<and> pb_ml (hd (buffer_of (th st t) (as_addr ml))) = ml \<and>
       (if c \<in> set (as_elements ml) then \<exists>e. buffer_of (th st t) c = e # buffer_of (th st' t) c
        else buffer_of (th st' t) c = buffer_of (th st t) c)))"
proof -
  note inv = pso_run_inv [OF assms(1)]
  have "buffer_of (th st' p) c = buffer_of (th st p) c @
      (if c \<in> set (as_elements ml) then [\<lparr>pb_ml = ml, pb_clock = th_clock (th st p), pb_last_rowe = -1, pb_md = last_md st\<rparr>] else [])"
    if "store ml st = Some (r, st')"
    using store_buffer [OF inv assms(2) that] by (simp add: p_def)
  moreover have "let t = nat (th_parent (th st p)) in
       buffer_of (th st t) (as_addr ml) \<noteq> [] \<and> pb_ml (hd (buffer_of (th st t) (as_addr ml))) = ml \<and>
       (if c \<in> set (as_elements ml) then \<exists>e. buffer_of (th st t) c = e # buffer_of (th st' t) c
        else buffer_of (th st' t) c = buffer_of (th st t) c)"
    if "atomic_store ml st = Some (r, st')" "is_aux st p"
    using atomic_store_buffer(1,2) [OF inv assms(2) that(1), of c] atomic_store_buffer(3) [OF inv assms(2) that(1)] that(2)
    unfolding Let_def p_def
    by (cases "buffer_of (th st (nat (th_parent (th st (ev_pid (ev st (prefix_idx st))))))) c") auto
  ultimately show ?thesis by blast
qed

theorem store_buffers_fifo_witness:
  "\<exists>st st'. run_calls pso_do [C_schedule] (PSOTraceBuilder (-1) 0) = Some st \<and> store pso_example_ml st = Some (True, st') \<and>
     length (buffer_of (th st' 0) (as_addr pso_example_ml)) = 1"
proof -
  let ?check = "\<lambda>st. \<not> dryrun st \<and> ev_pid (ev st (prefix_idx st)) = 0 \<and> buffer_of (th st 0) (as_addr pso_example_ml) = [] \<and>
    as_addr pso_example_ml \<in> set (as_elements pso_example_ml) \<and> map_option fst (store pso_example_ml st) = Some True"
  have "map_option ?check (run_calls pso_do [C_schedule] (PSOTraceBuilder (-1) 0)) = Some True" by code_simp
  then obtain st where st: "run_calls pso_do [C_schedule] (PSOTraceBuilder (-1) 0) = Some st" and c: "?check st"
    by (cases "run_calls pso_do [C_schedule] (PSOTraceBuilder (-1) 0)") simp_all
  then obtain st' where st': "store pso_example_ml st = Some (True, st')" by auto
  show ?thesis using store_buffers_fifo [OF st, of pso_example_ml True st' "as_addr pso_example_ml"] st c st' by auto
qed

text \<open>
  C20. The next trace: \<^verbatim>\<open>reset\<close> returns false exactly when no branch is left. Otherwise it keeps the prefix up to
  the last event with branches and replaces that event by its least branch, which is removed from the branches, with
  the old thread put to sleep there; the new event has the next index of its thread, and the
  new execution starts with one thread, at the beginning of the prefix, in replay mode.
\<close>

theorem reset_next_trace:
  assumes "run_calls pso_do cs (PSOTraceBuilder depth d) = Some st" "reset st = (b, st')"
  shows "(\<not> b \<longleftrightarrow> (\<forall>e \<in> set (prefix st). pe_branch e = [])) \<and>
    (b \<longrightarrow> (\<exists>i br e. i < length (prefix st) \<and> takes_branch (prefix st ! i) br e \<and> prefix st' = take i (prefix st) @ [e] \<and>
       (\<forall>k. i < k \<and> k < length (prefix st) \<longrightarrow> pe_branch (prefix st ! k) = []) \<and>
       ((\<forall>k < i. ev_pid (prefix st ! k) \<noteq> fst br) \<longrightarrow> ev_index e = 1) \<and>
       (\<forall>k < i. ev_pid (prefix st ! k) = fst br \<and> (\<forall>l. k < l \<and> l < i \<longrightarrow> ev_pid (prefix st ! l) \<noteq> fst br) \<and>
          0 < ev_index (prefix st ! k) \<and> 0 < pe_size (prefix st ! k) \<longrightarrow>
          ev_index e = ev_index (prefix st ! k) + pe_size (prefix st ! k)) \<and>
       prefix_idx st' = -1 \<and> replay st' \<and> sleepers st' = [] \<and> length (threads st') = 1))"
proof (rule conjI)
  show "\<not> b \<longleftrightarrow> (\<forall>e \<in> set (prefix st). pe_branch e = [])" using reset_false [of st] assms(2) by simp
  show "b \<longrightarrow> (\<exists>i br e. i < length (prefix st) \<and> takes_branch (prefix st ! i) br e \<and> prefix st' = take i (prefix st) @ [e] \<and>
       (\<forall>k. i < k \<and> k < length (prefix st) \<longrightarrow> pe_branch (prefix st ! k) = []) \<and>
       ((\<forall>k < i. ev_pid (prefix st ! k) \<noteq> fst br) \<longrightarrow> ev_index e = 1) \<and>
       (\<forall>k < i. ev_pid (prefix st ! k) = fst br \<and> (\<forall>l. k < l \<and> l < i \<longrightarrow> ev_pid (prefix st ! l) \<noteq> fst br) \<and>
          0 < ev_index (prefix st ! k) \<and> 0 < pe_size (prefix st ! k) \<longrightarrow>
          ev_index e = ev_index (prefix st ! k) + pe_size (prefix st ! k)) \<and>
       prefix_idx st' = -1 \<and> replay st' \<and> sleepers st' = [] \<and> length (threads st') = 1)"
  proof
    assume b
    then have r: "reset st = (True, st')" using assms(2) by simp
    obtain i br e where "i < length (prefix st)" "takes_branch (prefix st ! i) br e" "prefix st' = take i (prefix st) @ [e]"
      "\<And>k. i < k \<Longrightarrow> k < length (prefix st) \<Longrightarrow> pe_branch (prefix st ! k) = []" "ev_index e = branch_index (prefix st) (fst br) i"
      "prefix_idx st' = -1" "replay st'" "sleepers st' = []" "length (threads st') = 1"
      using reset_true [OF pso_run_inv [OF assms(1)] r] by metis
    then show "\<exists>i br e. i < length (prefix st) \<and> takes_branch (prefix st ! i) br e \<and> prefix st' = take i (prefix st) @ [e] \<and>
       (\<forall>k. i < k \<and> k < length (prefix st) \<longrightarrow> pe_branch (prefix st ! k) = []) \<and>
       ((\<forall>k < i. ev_pid (prefix st ! k) \<noteq> fst br) \<longrightarrow> ev_index e = 1) \<and>
       (\<forall>k < i. ev_pid (prefix st ! k) = fst br \<and> (\<forall>l. k < l \<and> l < i \<longrightarrow> ev_pid (prefix st ! l) \<noteq> fst br) \<and>
          0 < ev_index (prefix st ! k) \<and> 0 < pe_size (prefix st ! k) \<longrightarrow>
          ev_index e = ev_index (prefix st ! k) + pe_size (prefix st ! k)) \<and>
       prefix_idx st' = -1 \<and> replay st' \<and> sleepers st' = [] \<and> length (threads st') = 1"
      by (intro exI [of _ i] exI [of _ br] exI [of _ e]) (simp add: branch_index_first branch_index_next)
  qed
qed

theorem reset_next_trace_witness:
  "\<exists>st st'. run_calls pso_do (pso_race @ [C_load pso_example_ml]) (PSOTraceBuilder (-1) 0) = Some st \<and> reset st = (True, st') \<and> replay st'"
proof -
  have "map_option (\<lambda>st. fst (reset st)) (run_calls pso_do (pso_race @ [C_load pso_example_ml]) (PSOTraceBuilder (-1) 0)) = Some True"
    by code_simp
  then obtain st where st: "run_calls pso_do (pso_race @ [C_load pso_example_ml]) (PSOTraceBuilder (-1) 0) = Some st" "fst (reset st)"
    by (cases "run_calls pso_do (pso_race @ [C_load pso_example_ml]) (PSOTraceBuilder (-1) 0)") simp_all
  then show ?thesis using reset_next_trace [OF st(1), of True "snd (reset st)"] by (cases "reset st") auto
qed

end
