(* ===== verification/PSO_Cycle.thy ===== *)
theory PSO_Cycle
  imports PSO_Branch
begin

text \<open>
  The robustness check of the PSO trace builder, \<^verbatim>\<open>has_cycle\<close> and \<^verbatim>\<open>check_for_cycles\<close> of
  \<^verbatim>\<open>src/src/PSOTraceBuilder.cpp\<close>: the trace is replayed under sequential consistency, with every store executed
  together with its update. A trace that cannot be replayed has a cycle.
\<close>

section \<open>Stores\<close>

text \<open>A store event of a thread: its index in the thread and the position of its update in the prefix.\<close>

type_synonym stupd = "nat \<times> nat"

fun collect_stores :: "pso \<Rightarrow> nat list \<Rightarrow> stupd list list \<Rightarrow> stupd list list option" where
  "collect_stores st [] stores = Some stores"
| "collect_stores st (i # is) stores =
     (let e = prefix st ! i in
      if is_aux st (ev_pid e) then do {
        assertp (Some (th_cpid (th st (fst (pe_origin_iid e)))) = cpid_parent (th_cpid (th st (ev_pid e))));
        let proc = th_proc (th st (ev_pid e));
        assertp (proc < length stores);
        collect_stores st is (stores[proc := stores ! proc @ [(snd (pe_origin_iid e), i)]])
      } else collect_stores st is stores)"

text \<open>No two stores of a thread have the same index, so the order that the sort leaves among equals does not matter.\<close>

definition sorted_stores :: "pso \<Rightarrow> stupd list list option" where
  "sorted_stores st =
     map_option (map (sort_key fst)) (collect_stores st [0..<length (prefix st)] (replicate (length (proc_to_ipid st)) []))"

section \<open>Replay\<close>

record cyc_thread =
  ct_pc :: int
  ct_pfx_index :: nat
  ct_store_index :: nat
  ct_blocked :: bool
  ct_block_clock :: vclock

definition cyc_thread_init :: cyc_thread where
  "cyc_thread_init = \<lparr>ct_pc = 0, ct_pfx_index = 0, ct_store_index = 0, ct_blocked = False, ct_block_clock = []\<rparr>"

text \<open>Advance to the next event of the thread.\<close>

function advance_pfx :: "pso_event list \<Rightarrow> ipid \<Rightarrow> nat \<Rightarrow> nat" where
  "advance_pfx pfx p i = (if i < length pfx \<and> ev_pid (pfx ! i) \<noteq> p then advance_pfx pfx p (i + 1) else i)"
  by pat_completeness auto
termination by (relation "measure (\<lambda>(pfx, p, i). length pfx - i)") auto

declare advance_pfx.simps [simp del]

text \<open>The clock that the next event of an unblocked thread waits for.\<close>

definition wait_clock :: "pso_event list \<Rightarrow> ipid \<Rightarrow> stupd list \<Rightarrow> cyc_thread \<Rightarrow> cyc_thread option" where
  "wait_clock pfx p stores t = do {
     let next_pc = ct_pc t + 1;
     let e = pfx ! ct_pfx_index t;
     assertp (ev_pid e = p);
     assertp (int (ev_index e) \<le> next_pc);
     assertp (next_pc < int (ev_index e + pe_size e));
     assertp (int (vc_get (pe_clock e) p) \<le> next_pc);
     let clk = vc_set (pe_clock e) p (nat next_pc);
     Some (if ct_store_index t < length stores \<and> int (fst (stores ! ct_store_index t)) = next_pc
           then t\<lparr>ct_block_clock := vc_plus_assign clk (pe_clock (pfx ! snd (stores ! ct_store_index t))),
                  ct_store_index := ct_store_index t + 1\<rparr>
           else t\<lparr>ct_block_clock := clk\<rparr>)
   }"

text \<open>Some other thread has not got as far as the clock demands.\<close>

definition must_wait :: "ipid list \<Rightarrow> cyc_thread list \<Rightarrow> nat \<Rightarrow> vclock \<Rightarrow> bool" where
  "must_wait procs ts thread clk =
     list_ex (\<lambda>i. i \<noteq> thread \<and> ct_pc (ts ! i) < int (vc_get clk (procs ! i))) [0..<length procs]"

text \<open>Executing the next event, and the following ones up to the next store.\<close>

definition advance_pc :: "pso_event list \<Rightarrow> ipid \<Rightarrow> stupd list \<Rightarrow> cyc_thread \<Rightarrow> cyc_thread option" where
  "advance_pc pfx p stores t = do {
     let next_pc = ct_pc t + 1;
     let e = pfx ! ct_pfx_index t;
     assertp (next_pc = int (vc_get (ct_block_clock t) p));
     let last_pc = int (ev_index e + pe_size e) - 1;
     let new_pc = (if ct_store_index t < length stores \<and> int (fst (stores ! ct_store_index t)) - 1 < last_pc
                   then int (fst (stores ! ct_store_index t)) - 1 else last_pc);
     assertp (next_pc \<le> new_pc);
     Some (t\<lparr>ct_pc := new_pc,
             ct_pfx_index := (if new_pc + 1 = int (ev_index e + pe_size e) then ct_pfx_index t + 1 else ct_pfx_index t)\<rparr>)
   }"

datatype cyc_outcome = Cyc_abort | Cyc_break "cyc_thread list" | Cyc_next "cyc_thread list" nat bool

text \<open>Go on with the next thread; after a round without progress the loop ends.\<close>

definition next_thread :: "nat \<Rightarrow> cyc_thread list \<Rightarrow> nat \<Rightarrow> bool \<Rightarrow> cyc_outcome" where
  "next_thread n ts thread alive =
     (let thread1 = (thread + 1) mod n in
      if thread1 = 0 then (if \<not> alive then Cyc_break ts else Cyc_next ts thread1 False)
      else Cyc_next ts thread1 alive)"

definition cyc_step :: "pso_event list \<Rightarrow> ipid list \<Rightarrow> stupd list list \<Rightarrow> cyc_thread list \<Rightarrow> nat \<Rightarrow> bool \<Rightarrow> cyc_outcome" where
  "cyc_step pfx procs stores ts thread alive =
     (if \<not> (thread < length procs \<and> length ts = length procs) then Cyc_abort
      else
        let p = procs ! thread;
            t0 = (ts ! thread)\<lparr>ct_pfx_index := advance_pfx pfx p (ct_pfx_index (ts ! thread))\<rparr>
        in if length pfx \<le> ct_pfx_index t0 then next_thread (length procs) (ts[thread := t0]) thread alive
           else case (if ct_blocked t0 then Some t0 else wait_clock pfx p (stores ! thread) t0) of
             None \<Rightarrow> Cyc_abort
           | Some t1 \<Rightarrow>
               let t2 = t1\<lparr>ct_blocked := must_wait procs ts thread (ct_block_clock t1)\<rparr>
               in if ct_blocked t2 then next_thread (length procs) (ts[thread := t2]) thread alive
                  else case advance_pc pfx p (stores ! thread) t2 of
                    None \<Rightarrow> Cyc_abort
                  | Some t3 \<Rightarrow> Cyc_next (ts[thread := t3]) thread True)"

section \<open>Termination of the replay\<close>

text \<open>No program counter passes the last index of an event in the prefix.\<close>

definition pc_bound :: "pso_event list \<Rightarrow> int" where
  "pc_bound pfx = int (sum_list (map (\<lambda>e. ev_index e + pe_size e) pfx))"

definition work_left :: "pso_event list \<Rightarrow> cyc_thread list \<Rightarrow> nat" where
  "work_left pfx ts = sum_list (map (\<lambda>t. nat (pc_bound pfx - ct_pc t)) ts)"

lemma pc_bound_event: "k < length pfx \<Longrightarrow> int (ev_index (pfx ! k) + pe_size (pfx ! k)) \<le> pc_bound pfx"
  unfolding pc_bound_def of_nat_le_iff by (intro member_le_sum_list) auto

lemma work_left_update:
  "i < length ts \<Longrightarrow> work_left pfx (ts[i := t]) + nat (pc_bound pfx - ct_pc (ts ! i)) = work_left pfx ts + nat (pc_bound pfx - ct_pc t)"
  unfolding work_left_def
  by (induction ts arbitrary: i) (auto split: nat.splits)

lemma wait_clock_pc: "wait_clock pfx p stores t = Some t' \<Longrightarrow> ct_pc t' = ct_pc t \<and> ct_pfx_index t' = ct_pfx_index t \<and> ct_blocked t' = ct_blocked t"
  by (auto simp: wait_clock_def Let_def split: if_splits)

lemma advance_pc_progress:
  assumes "advance_pc pfx p stores t = Some t'" "ct_pfx_index t < length pfx"
  shows "ct_pc t < ct_pc t'" "ct_pc t' < pc_bound pfx"
  using assms pc_bound_event [OF assms(2)] by (auto simp: advance_pc_def Let_def split: if_splits)

lemma next_thread_measure:
  "next_thread n ts thread alive = Cyc_next ts' thread' alive' \<Longrightarrow> thread < n \<Longrightarrow>
    ts' = ts \<and> (alive' = alive \<and> n - thread' < n - thread \<or> alive \<and> \<not> alive') \<and> thread' < n"
  by (auto simp: next_thread_def Let_def mod_Suc split: if_splits)

lemma cyc_step_measure:
  assumes "cyc_step pfx procs stores ts thread alive = Cyc_next ts' thread' alive'"
  shows "work_left pfx ts' < work_left pfx ts \<or> work_left pfx ts' = work_left pfx ts \<and>
    ((if alive' then 1 else 0 :: nat) < (if alive then 1 else 0) \<or> alive' = alive \<and> length procs - thread' < length procs - thread)"
proof -
  have th: "thread < length procs" "thread < length ts" using assms by (auto simp: cyc_step_def split: if_splits)
  have same: "work_left pfx (ts[thread := t]) = work_left pfx ts" if "ct_pc t = ct_pc (ts ! thread)" for t
    using work_left_update [OF th(2), of pfx t] that by simp
  have less: "work_left pfx (ts[thread := t]) < work_left pfx ts" if "ct_pc (ts ! thread) < ct_pc t" "ct_pc t < pc_bound pfx" for t
    using work_left_update [OF th(2), of pfx t] that by (simp add: nat_less_iff)
  let ?p = "procs ! thread" let ?t0 = "(ts ! thread)\<lparr>ct_pfx_index := advance_pfx pfx ?p (ct_pfx_index (ts ! thread))\<rparr>"
  consider t where "next_thread (length procs) (ts[thread := t]) thread alive = Cyc_next ts' thread' alive'" "ct_pc t = ct_pc (ts ! thread)"
    | t t3 where "advance_pc pfx ?p (stores ! thread) t = Some t3" "ct_pc t = ct_pc (ts ! thread)" "ct_pfx_index t < length pfx" "ts' = ts[thread := t3]"
    using assms th by (auto simp: cyc_step_def Let_def split: if_splits option.splits dest!: wait_clock_pc)
  then show ?thesis
  proof cases
    case 1
    then show ?thesis using next_thread_measure [OF 1(1) th(1)] same [OF 1(2)] by auto
  next
    case 2
    then show ?thesis using advance_pc_progress [OF 2(1,3)] less [of t3] by simp
  qed
qed

function cyc_loop :: "pso_event list \<Rightarrow> ipid list \<Rightarrow> stupd list list \<Rightarrow> cyc_thread list \<Rightarrow> nat \<Rightarrow> bool \<Rightarrow> cyc_thread list option" where
  "cyc_loop pfx procs stores ts thread alive =
     (case cyc_step pfx procs stores ts thread alive of
        Cyc_abort \<Rightarrow> None
      | Cyc_break ts' \<Rightarrow> Some ts'
      | Cyc_next ts' thread' alive' \<Rightarrow> cyc_loop pfx procs stores ts' thread' alive')"
  by pat_completeness auto
termination
  by (relation "measures [\<lambda>(pfx, procs, stores, ts, thread, alive). work_left pfx ts,
      \<lambda>(pfx, procs, stores, ts, thread, alive). if alive then 1 else 0,
      \<lambda>(pfx, procs, stores, ts, thread, alive). length procs - thread]")
    (auto dest!: cyc_step_measure split: if_splits)

declare cyc_loop.simps [simp del]

section \<open>The result\<close>

text \<open>The latest update of a blocked store, and its event.\<close>

fun scan_blocked :: "pso_event list \<Rightarrow> stupd list list \<Rightarrow> cyc_thread list \<Rightarrow> nat list \<Rightarrow> int \<times> bool \<times> (ipid \<times> nat) option
    \<Rightarrow> int \<times> bool \<times> (ipid \<times> nat) option" where
  "scan_blocked pfx stores ts [] acc = acc"
| "scan_blocked pfx stores ts (i # is) (upd_idx, has, loc) =
     (let t = ts ! i in
      if ct_blocked t then
        let su = stores ! i ! (ct_store_index t - 1) in
        if 0 < ct_store_index t \<and> int (fst su) = ct_pc t + 1 \<and> upd_idx < int (snd su)
        then scan_blocked pfx stores ts is (int (snd su), True, Some (pe_iid (pfx ! snd su)))
        else scan_blocked pfx stores ts is (upd_idx, True, loc)
      else scan_blocked pfx stores ts is (upd_idx, has, loc))"

text \<open>\<open>Some None\<close> is the result false, \<open>Some (Some i)\<close> true with the location \<open>i\<close>.\<close>

definition has_cycle :: "pso \<Rightarrow> (ipid \<times> nat) option option" where
  "has_cycle st = do {
     let n = length (proc_to_ipid st);
     stores \<leftarrow> sorted_stores st;
     ts \<leftarrow> cyc_loop (prefix st) (proc_to_ipid st) stores (replicate n cyc_thread_init) 0 False;
     let (upd_idx, has, loc) = scan_blocked (prefix st) stores ts [0..<n] (-1, False, None);
     assertp (\<not> has \<or> 0 \<le> upd_idx);
     Some (if has then loc else None)
   }"

definition check_for_cycles :: "pso \<Rightarrow> (bool \<times> pso) option" where
  "check_for_cycles st = do {
     r \<leftarrow> has_cycle st;
     (case r of
        None \<Rightarrow> Some (False, st)
      | Some i \<Rightarrow> do {
          assertp (prefix st \<noteq> []);
          Some (True, st\<lparr>errors := errors st @
            [((th_cpid (th st (fst i)), snd i), ''The trace contains a happens-before cycle.'')]\<rparr>)
        })
   }"

section \<open>Replays under any schedule\<close>

text \<open>
  The specification: a sequentially consistent machine executes the instructions of the threads one by one, in any
  order of the threads. The state is the number of instructions each thread has executed. The next instruction belongs to
  the first event of the thread that is not over; it can be executed when every other thread has executed what is
  before that event, and, when the instruction is a store, what is before the update of that store: under sequential
  consistency, the store takes effect at once.
\<close>

definition next_event :: "pso_event list \<Rightarrow> ipid \<Rightarrow> nat \<Rightarrow> nat option" where
  "next_event pfx p n =
     find (\<lambda>i. ev_pid (pfx ! i) = p \<and> n < ev_index (pfx ! i) + pe_size (pfx ! i)) [0..<length pfx]"

definition may_execute :: "pso_event list \<Rightarrow> ipid list \<Rightarrow> stupd list list \<Rightarrow> nat list \<Rightarrow> nat \<Rightarrow> bool" where
  "may_execute pfx procs stores pcs i \<longleftrightarrow>
     (\<exists>e. next_event pfx (procs ! i) (pcs ! i + 1) = Some e \<and>
       (\<forall>k < length procs. k \<noteq> i \<longrightarrow> vc_get (pe_clock (pfx ! e)) (procs ! k) \<le> pcs ! k \<and>
         (\<forall>(s, u) \<in> set (stores ! i). s = pcs ! i + 1 \<longrightarrow> vc_get (pe_clock (pfx ! u)) (procs ! k) \<le> pcs ! k)))"

inductive sc_run :: "pso_event list \<Rightarrow> ipid list \<Rightarrow> stupd list list \<Rightarrow> nat list \<Rightarrow> bool"
  for pfx procs stores where
  sc_start: "sc_run pfx procs stores (replicate (length procs) 0)"
| sc_step: "sc_run pfx procs stores pcs \<Longrightarrow> i < length procs \<Longrightarrow> may_execute pfx procs stores pcs i \<Longrightarrow>
    sc_run pfx procs stores (pcs[i := pcs ! i + 1])"

text \<open>All instructions of the trace have been executed.\<close>

definition sc_complete :: "pso_event list \<Rightarrow> ipid list \<Rightarrow> nat list \<Rightarrow> bool" where
  "sc_complete pfx procs pcs \<longleftrightarrow> (\<forall>i < length procs. next_event pfx (procs ! i) (pcs ! i + 1) = None)"

lemma next_event_Some:
  "next_event pfx p n = Some e \<longleftrightarrow> e < length pfx \<and> ev_pid (pfx ! e) = p \<and> n < ev_index (pfx ! e) + pe_size (pfx ! e) \<and>
     (\<forall>j < e. ev_pid (pfx ! j) = p \<longrightarrow> ev_index (pfx ! j) + pe_size (pfx ! j) \<le> n)"
  unfolding next_event_def find_Some_iff by (auto simp: not_less)

lemma sc_run_length: "sc_run pfx procs stores pcs \<Longrightarrow> length pcs = length procs"
  by (induction rule: sc_run.induct) auto

text \<open>A configuration that no run can pass bounds all runs.\<close>

lemma sc_run_bounded:
  assumes "\<And>pcs i. i < length procs \<Longrightarrow> length pcs = length procs \<Longrightarrow> \<forall>k < length procs. pcs ! k \<le> g ! k \<Longrightarrow> pcs ! i = g ! i \<Longrightarrow>
      \<not> may_execute pfx procs stores pcs i"
  shows "sc_run pfx procs stores pcs \<Longrightarrow> \<forall>k < length procs. pcs ! k \<le> g ! k"
proof (induction rule: sc_run.induct)
  case (sc_step pcs i)
  have "pcs ! i \<noteq> g ! i" using assms [of i pcs] sc_step sc_run_length [OF sc_step.hyps(1)] by blast
  then have "pcs ! i + 1 \<le> g ! i" using sc_step.IH sc_step.hyps(2) by (simp add: nat_less_le Suc_le_eq)
  then have "pcs[i := pcs ! i + 1] ! k \<le> g ! k" if "k < length procs" for k
    using sc_step.IH sc_run_length [OF sc_step.hyps(1)] that by (cases "k = i") auto
  then show ?case by blast
qed simp

section \<open>The steps of the loop\<close>

text \<open>
  A step of the loop, in any order of the threads: a thread executes its next instruction and the following ones up to
  the next store, when no other thread is behind the clock that was computed for it.
\<close>

definition at_event :: "pso_event list \<Rightarrow> ipid \<Rightarrow> cyc_thread \<Rightarrow> cyc_thread" where
  "at_event pfx p t = t\<lparr>ct_pfx_index := advance_pfx pfx p (ct_pfx_index t)\<rparr>"

definition finished :: "pso_event list \<Rightarrow> ipid \<Rightarrow> cyc_thread \<Rightarrow> bool" where
  "finished pfx p t \<longleftrightarrow> length pfx \<le> ct_pfx_index (at_event pfx p t)"

definition local_step :: "pso_event list \<Rightarrow> ipid \<Rightarrow> stupd list \<Rightarrow> cyc_thread \<Rightarrow> vclock \<Rightarrow> cyc_thread \<Rightarrow> bool" where
  "local_step pfx p ss t clk t' \<longleftrightarrow> \<not> finished pfx p t \<and>
     (\<exists>t1. wait_clock pfx p ss (at_event pfx p t) = Some t1 \<and> clk = ct_block_clock t1 \<and> advance_pc pfx p ss t1 = Some t')"

inductive sc_replay :: "pso_event list \<Rightarrow> ipid list \<Rightarrow> stupd list list \<Rightarrow> cyc_thread list \<Rightarrow> bool"
  for pfx procs stores where
  start: "sc_replay pfx procs stores (replicate (length procs) cyc_thread_init)"
| step: "sc_replay pfx procs stores cs \<Longrightarrow> i < length procs \<Longrightarrow> local_step pfx (procs ! i) (stores ! i) (cs ! i) clk t \<Longrightarrow>
    \<not> must_wait procs cs i clk \<Longrightarrow> sc_replay pfx procs stores (cs[i := t])"

lemma advance_pfx_idem: "advance_pfx pfx p (advance_pfx pfx p i) = advance_pfx pfx p i"
proof (induction pfx p i rule: advance_pfx.induct)
  case (1 pfx p i)
  show ?case
  proof (cases "i < length pfx \<and> ev_pid (pfx ! i) \<noteq> p")
    case True
    then have "advance_pfx pfx p i = advance_pfx pfx p (i + 1)" by (subst advance_pfx.simps) simp
    then show ?thesis using 1 [OF True] by simp
  next
    case False
    then have "advance_pfx pfx p i = i" by (subst advance_pfx.simps) auto
    then show ?thesis by simp
  qed
qed

lemma at_event_idem [simp]: "at_event pfx p (at_event pfx p t) = at_event pfx p t"
  by (simp add: at_event_def advance_pfx_idem)

lemma at_event_fields [simp]: "ct_pc (at_event pfx p t) = ct_pc t" "ct_blocked (at_event pfx p t) = ct_blocked t"
  "ct_block_clock (at_event pfx p t) = ct_block_clock t"
  by (simp_all add: at_event_def)

lemma sc_replay_length: "sc_replay pfx procs stores cs \<Longrightarrow> length cs = length procs"
  by (induction rule: sc_replay.induct) auto

lemma advance_pc_blocked: "advance_pc pfx p ss t = Some t' \<Longrightarrow> ct_blocked t' = ct_blocked t"
  by (auto simp: advance_pc_def Let_def)

lemma sc_replay_unblocked: "sc_replay pfx procs stores cs \<Longrightarrow> i < length procs \<Longrightarrow> \<not> ct_blocked (cs ! i)"
proof (induction rule: sc_replay.induct)
  case start
  then show ?case by (simp add: cyc_thread_init_def)
next
  case (step cs j clk t)
  have "ct_blocked t = ct_blocked (cs ! j)" using step(3) by (auto simp: local_step_def dest!: advance_pc_blocked wait_clock_pc)
  then show ?case using step sc_replay_length [OF step(1)] by (cases "i = j") auto
qed

text \<open>The position of a thread in the loop: \<open>pc\<close> instructions are executed, earlier events and stores are over.\<close>

definition thread_at :: "pso_event list \<Rightarrow> ipid \<Rightarrow> stupd list \<Rightarrow> cyc_thread \<Rightarrow> nat \<Rightarrow> bool" where
  "thread_at pfx p ss c pc \<longleftrightarrow> ct_pc c = int pc \<and>
     (\<forall>j < ct_pfx_index c. j < length pfx \<and> ev_pid (pfx ! j) = p \<longrightarrow> ev_index (pfx ! j) + pe_size (pfx ! j) \<le> pc + 1) \<and>
     (\<forall>j < ct_store_index c. j < length ss \<longrightarrow> fst (ss ! j) \<le> pc) \<and>
     (0 < pc \<longrightarrow> (\<forall>j < length ss. ct_store_index c \<le> j \<longrightarrow> pc < fst (ss ! j)))"

lemma advance_pfx_spec:
  "i \<le> advance_pfx pfx p i \<and> (\<forall>j. i \<le> j \<and> j < advance_pfx pfx p i \<longrightarrow> ev_pid (pfx ! j) \<noteq> p)"
proof (induction pfx p i rule: advance_pfx.induct)
  case (1 pfx p i)
  show ?case
  proof (cases "i < length pfx \<and> ev_pid (pfx ! i) \<noteq> p")
    case True
    then have "advance_pfx pfx p i = advance_pfx pfx p (i + 1)" by (subst advance_pfx.simps) simp
    then show ?thesis using 1 [OF True] True by (metis Suc_eq_plus1 Suc_le_eq le_eq_less_or_eq less_or_eq_imp_le)
  next
    case False
    then have "advance_pfx pfx p i = i" by (subst advance_pfx.simps) auto
    then show ?thesis by simp
  qed
qed

lemma thread_at_past:
  assumes "thread_at pfx p ss c pc" "j < ct_pfx_index (at_event pfx p c)" "j < length pfx" "ev_pid (pfx ! j) = p"
  shows "ev_index (pfx ! j) + pe_size (pfx ! j) \<le> pc + 1"
  using assms advance_pfx_spec [of "ct_pfx_index c" pfx p]
  by (cases "j < ct_pfx_index c") (auto simp: thread_at_def at_event_def)

lemma finished_no_event: "thread_at pfx p ss c pc \<Longrightarrow> finished pfx p c \<Longrightarrow> next_event pfx p (pc + 1) = None"
proof (rule ccontr)
  assume c: "thread_at pfx p ss c pc" and f: "finished pfx p c" and "next_event pfx p (pc + 1) \<noteq> None"
  then obtain e where e: "e < length pfx" "ev_pid (pfx ! e) = p" "pc + 1 < ev_index (pfx ! e) + pe_size (pfx ! e)"
    by (auto simp: next_event_Some)
  show False using thread_at_past [OF c _ e(1,2)] f e(1,3) by (simp add: finished_def)
qed

text \<open>The event and the clock that the loop computes for the next instruction.\<close>

lemma wait_clock_event:
  assumes c: "thread_at pfx p ss c pc" and w: "wait_clock pfx p ss (at_event pfx p c) = Some t1" and f: "\<not> finished pfx p c"
  defines "e \<equiv> ct_pfx_index (at_event pfx p c)" and "s \<equiv> ct_store_index c"
  shows "next_event pfx p (pc + 1) = Some e" "ct_pc t1 = int pc" "ct_pfx_index t1 = e"
    and "ct_store_index t1 = (if s < length ss \<and> fst (ss ! s) = pc + 1 then s + 1 else s)"
    and "q \<noteq> p \<Longrightarrow> vc_get (ct_block_clock t1) q = (if s < length ss \<and> fst (ss ! s) = pc + 1
      then max (vc_get (pe_clock (pfx ! e)) q) (vc_get (pe_clock (pfx ! snd (ss ! s))) q) else vc_get (pe_clock (pfx ! e)) q)"
proof -
  have pc: "ct_pc c = int pc" using c by (simp add: thread_at_def)
  have si: "ct_store_index (at_event pfx p c) = s" by (simp add: at_event_def s_def)
  have as: "ev_pid (pfx ! e) = p" "pc + 1 < ev_index (pfx ! e) + pe_size (pfx ! e)"
    using w pc by (auto simp: wait_clock_def Let_def e_def bind_eq_Some_conv)
  have el: "e < length pfx" using f by (simp add: finished_def e_def)
  show "next_event pfx p (pc + 1) = Some e"
    unfolding next_event_Some using as el thread_at_past [OF c] by (auto simp: e_def)
  show "ct_pc t1 = int pc" "ct_pfx_index t1 = e" using wait_clock_pc [OF w] pc by (simp_all add: e_def)
  have t1: "t1 = (let clk = vc_set (pe_clock (pfx ! e)) p (nat (ct_pc (at_event pfx p c) + 1)) in
      if s < length ss \<and> fst (ss ! s) = pc + 1
      then (at_event pfx p c)\<lparr>ct_block_clock := vc_plus_assign clk (pe_clock (pfx ! snd (ss ! s))), ct_store_index := s + 1\<rparr>
      else (at_event pfx p c)\<lparr>ct_block_clock := clk\<rparr>)"
    using w pc by (auto simp: wait_clock_def Let_def si e_def bind_eq_Some_conv)
  show "ct_store_index t1 = (if s < length ss \<and> fst (ss ! s) = pc + 1 then s + 1 else s)" by (simp add: t1 Let_def si)
  show "vc_get (ct_block_clock t1) q = (if s < length ss \<and> fst (ss ! s) = pc + 1
      then max (vc_get (pe_clock (pfx ! e)) q) (vc_get (pe_clock (pfx ! snd (ss ! s))) q) else vc_get (pe_clock (pfx ! e)) q)" if "q \<noteq> p"
    using that by (simp add: t1 Let_def vc_get_plus_assign vc_get_set)
qed

lemma blocked_cannot_execute:
  assumes procs: "distinct procs" "i < length procs"
    and c: "thread_at pfx (procs ! i) (stores ! i) c (pcs ! i)" "\<not> finished pfx (procs ! i) c"
    and w: "wait_clock pfx (procs ! i) (stores ! i) (at_event pfx (procs ! i) c) = Some t1" "must_wait procs cs i (ct_block_clock t1)"
    and le: "\<And>k. k < length procs \<Longrightarrow> int (pcs ! k) \<le> ct_pc (cs ! k)"
  shows "\<not> may_execute pfx procs stores pcs i"
proof
  let ?e = "ct_pfx_index (at_event pfx (procs ! i) c)" and ?s = "ct_store_index c" and ?ss = "stores ! i"
  note W = wait_clock_event [OF c(1) w(1) c(2)]
  obtain k where k: "k < length procs" "k \<noteq> i" "ct_pc (cs ! k) < int (vc_get (ct_block_clock t1) (procs ! k))"
    using w(2) by (auto simp: must_wait_def list_ex_iff)
  have q: "procs ! k \<noteq> procs ! i" using k(1,2) procs by (simp add: nth_eq_iff_index_eq)
  have lt: "pcs ! k < vc_get (ct_block_clock t1) (procs ! k)" using k(3) le [OF k(1)] by simp
  assume "may_execute pfx procs stores pcs i"
  then have m: "vc_get (pe_clock (pfx ! ?e)) (procs ! k) \<le> pcs ! k"
      "\<And>s u. (s, u) \<in> set ?ss \<Longrightarrow> s = pcs ! i + 1 \<Longrightarrow> vc_get (pe_clock (pfx ! u)) (procs ! k) \<le> pcs ! k"
    using k(1,2) W(1) unfolding may_execute_def by auto
  show False
  proof (cases "?s < length ?ss \<and> fst (?ss ! ?s) = pcs ! i + 1")
    case True
    then have "(pcs ! i + 1, snd (?ss ! ?s)) \<in> set ?ss" by (metis nth_mem prod.collapse)
    from m(2) [OF this] show False using m(1) lt True by (simp add: W(5) [OF q])
  next
    case False
    then show False using m(1) lt unfolding W(5) [OF q] by (simp only: if_False)
  qed
qed

lemma advance_pc_at:
  assumes c: "thread_at pfx p ss c pc" "\<not> finished pfx p c" and ss: "sorted (map fst ss)"
    and w: "wait_clock pfx p ss (at_event pfx p c) = Some t1" and a: "advance_pc pfx p ss t1 = Some t"
  shows "thread_at pfx p ss t (nat (ct_pc t))" "int pc < ct_pc t"
    "nat (ct_pc t) < ev_index (pfx ! ct_pfx_index t1) + pe_size (pfx ! ct_pfx_index t1)"
    "\<And>j. j < length ss \<Longrightarrow> ct_store_index t1 \<le> j \<Longrightarrow> nat (ct_pc t) < fst (ss ! j)"
proof -
  note W = wait_clock_event [OF c(1) w c(2)]
  let ?e = "ct_pfx_index (at_event pfx p c)" and ?s = "ct_store_index c" and ?s1 = "ct_store_index t1"
  let ?fin = "ev_index (pfx ! ?e) + pe_size (pfx ! ?e)"
  have t: "int pc < ct_pc t" "ct_pc t < int ?fin" "ct_store_index t = ?s1"
      "ct_pfx_index t = (if ct_pc t + 1 = int ?fin then ?e + 1 else ?e)"
      "?s1 < length ss \<Longrightarrow> ct_pc t < int (fst (ss ! ?s1))"
    using a W(2,3) by (auto simp: advance_pc_def Let_def bind_eq_Some_conv split: if_splits)
  show "int pc < ct_pc t" by (rule t(1))
  show "nat (ct_pc t) < ev_index (pfx ! ct_pfx_index t1) + pe_size (pfx ! ct_pfx_index t1)" using t(1,2) W(3) by simp
  show later: "nat (ct_pc t) < fst (ss ! j)" if "j < length ss" "?s1 \<le> j" for j
  proof -
    have "fst (ss ! ?s1) \<le> fst (ss ! j)" using ss that by (simp add: sorted_iff_nth_mono)
    then show ?thesis using t(1,5) that by simp
  qed
  have past: "ev_index (pfx ! j) + pe_size (pfx ! j) \<le> nat (ct_pc t) + 1"
    if j: "j < ct_pfx_index t" "j < length pfx" "ev_pid (pfx ! j) = p" for j
  proof (cases "j < ?e")
    case True
    then show ?thesis using thread_at_past [OF c(1) True j(2,3)] t(1) by simp
  next
    case False
    then have "j = ?e" "ct_pc t + 1 = int ?fin" using j(1) t(4) by (auto split: if_splits)
    then show ?thesis by simp
  qed
  have "fst (ss ! j) \<le> nat (ct_pc t)" if j: "j < ?s1" "j < length ss" for j
  proof (cases "j < ?s")
    case True
    then have "fst (ss ! j) \<le> pc" using c(1) j(2) by (simp add: thread_at_def)
    then show ?thesis using t(1) by simp
  next
    case False
    then have "j = ?s" "fst (ss ! ?s) = pc + 1" using j W(4) by (auto split: if_splits)
    then show ?thesis using t(1) by simp
  qed
  then show "thread_at pfx p ss t (nat (ct_pc t))" using t(1,3) past later by (simp add: thread_at_def)
qed

text \<open>A step of the loop is a sequence of single instructions.\<close>

lemma local_step_executes:
  assumes procs: "distinct procs" "i < length procs" and ss: "sorted (map fst (stores ! i))"
    and c: "thread_at pfx (procs ! i) (stores ! i) c (pcs ! i)" and ls: "local_step pfx (procs ! i) (stores ! i) c clk t"
    and nw: "\<not> must_wait procs cs i clk" and pcs: "\<And>k. k < length procs \<Longrightarrow> ct_pc (cs ! k) = int (pcs ! k)" "length pcs = length procs"
    and m: "pcs ! i \<le> m" "m < nat (ct_pc t)"
  shows "may_execute pfx procs stores (pcs[i := m]) i"
proof -
  let ?p = "procs ! i" and ?ss = "stores ! i" and ?s = "ct_store_index c" and ?e = "ct_pfx_index (at_event pfx (procs ! i) c)"
  obtain t1 where t1: "\<not> finished pfx ?p c" "wait_clock pfx ?p ?ss (at_event pfx ?p c) = Some t1" "clk = ct_block_clock t1"
      "advance_pc pfx ?p ?ss t1 = Some t" using ls by (auto simp: local_step_def)
  note W = wait_clock_event [OF c t1(2,1)] and A = advance_pc_at [OF c t1(1) ss t1(2,4)]
  have e: "next_event pfx ?p (m + 1) = Some ?e"
    using W(1) A(3) m unfolding next_event_Some W(3) by (auto intro: order_trans)
  have wait: "vc_get clk (procs ! k) \<le> pcs ! k" if "k < length procs" "k \<noteq> i" for k
    using nw that pcs(1) [OF that(1)] by (auto simp: must_wait_def list_ex_iff not_less)
  have "vc_get (pe_clock (pfx ! ?e)) (procs ! k) \<le> pcs ! k \<and>
      (\<forall>(s, u) \<in> set ?ss. s = m + 1 \<longrightarrow> vc_get (pe_clock (pfx ! u)) (procs ! k) \<le> pcs ! k)"
    if k: "k < length procs" "k \<noteq> i" for k
  proof -
    have q: "procs ! k \<noteq> ?p" using k procs by (simp add: nth_eq_iff_index_eq)
    note clk = wait [OF k, unfolded t1(3) W(5) [OF q]]
    have "vc_get (pe_clock (pfx ! u)) (procs ! k) \<le> pcs ! k" if su: "(m + 1, u) \<in> set ?ss" for u
    proof -
      obtain j where j: "j < length ?ss" "?ss ! j = (m + 1, u)" using su by (auto simp: in_set_conv_nth)
      have "\<not> ct_store_index t1 \<le> j" using A(4) [OF j(1)] j(2) m(2) by auto
      moreover have "\<not> j < ?s" using c j m(1) by (auto simp: thread_at_def)
      ultimately have "j = ?s" "fst (?ss ! ?s) = pcs ! i + 1" using W(4) by (auto split: if_splits)
      then show ?thesis using clk j by (simp split: if_splits)
    qed
    moreover have "vc_get (pe_clock (pfx ! ?e)) (procs ! k) \<le> pcs ! k" using clk by (auto split: if_splits)
    ultimately show ?thesis by auto
  qed
  then show ?thesis using e procs(2) pcs(2) unfolding may_execute_def by (intro exI [of _ ?e]) auto
qed

lemma sc_run_upto:
  assumes "sc_run pfx procs stores pcs" "i < length procs"
    and "\<And>m. pcs ! i \<le> m \<Longrightarrow> m < n \<Longrightarrow> may_execute pfx procs stores (pcs[i := m]) i"
  shows "pcs ! i \<le> n \<Longrightarrow> sc_run pfx procs stores (pcs[i := n])"
  using assms(3)
proof (induction n)
  case 0
  then show ?case using assms(1) by (metis le_zero_eq list_update_id)
next
  case (Suc n)
  have len: "length pcs = length procs" by (rule sc_run_length [OF assms(1)])
  show ?case
  proof (cases "pcs ! i = Suc n")
    case True
    then show ?thesis using assms(1) by (metis list_update_id)
  next
    case False
    then have "pcs ! i \<le> n" using Suc.prems(1) by simp
    then have "sc_run pfx procs stores (pcs[i := n])" "may_execute pfx procs stores (pcs[i := n]) i"
      using Suc.IH Suc.prems(2) by simp_all
    from sc_step [OF this(1) assms(2) this(2)] show ?thesis using len assms(2) by simp
  qed
qed

lemma sc_replay_runs:
  assumes procs: "distinct procs" and ss: "\<forall>i < length procs. sorted (map fst (stores ! i))"
  shows "sc_replay pfx procs stores cs \<Longrightarrow>
    sc_run pfx procs stores (map (\<lambda>c. nat (ct_pc c)) cs) \<and>
    (\<forall>i < length procs. thread_at pfx (procs ! i) (stores ! i) (cs ! i) (nat (ct_pc (cs ! i))))"
proof (induction rule: sc_replay.induct)
  case start
  have "thread_at pfx p ss cyc_thread_init 0" for p ss by (simp add: thread_at_def cyc_thread_init_def)
  then show ?case by (simp add: cyc_thread_init_def map_replicate_const sc_start)
next
  case (step cs i clk t)
  let ?pcs = "map (\<lambda>c. nat (ct_pc c)) cs"
  have len: "length cs = length procs" by (rule sc_replay_length [OF step(1)])
  have at: "thread_at pfx (procs ! k) (stores ! k) (cs ! k) (?pcs ! k)" if "k < length procs" for k using step.IH that len by simp
  then have pcs: "ct_pc (cs ! k) = int (?pcs ! k)" if "k < length procs" for k using that by (simp add: thread_at_def)
  obtain t1 where t1: "\<not> finished pfx (procs ! i) (cs ! i)" "wait_clock pfx (procs ! i) (stores ! i) (at_event pfx (procs ! i) (cs ! i)) = Some t1"
      "advance_pc pfx (procs ! i) (stores ! i) t1 = Some t" using step(3) by (auto simp: local_step_def)
  note A = advance_pc_at [OF at [OF step(2)] t1(1) _ t1(2,3)]
  have sorted: "sorted (map fst (stores ! i))" using ss step(2) by blast
  have "sc_run pfx procs stores (?pcs[i := nat (ct_pc t)])"
  proof (rule sc_run_upto)
    show "sc_run pfx procs stores ?pcs" using step.IH by blast
    show "?pcs ! i \<le> nat (ct_pc t)" using A(2) [OF sorted] by simp
    show "may_execute pfx procs stores (?pcs[i := m]) i" if "?pcs ! i \<le> m" "m < nat (ct_pc t)" for m
      by (rule local_step_executes [OF procs step(2) sorted at [OF step(2)] step(3,4) pcs _ that]) (simp_all add: len)
  qed (rule step(2))
  then have "sc_run pfx procs stores (map (\<lambda>c. nat (ct_pc c)) (cs[i := t]))" by (simp add: map_update)
  moreover have "thread_at pfx (procs ! k) (stores ! k) (cs[i := t] ! k) (nat (ct_pc (cs[i := t] ! k)))" if "k < length procs" for k
    using at [OF that] A(1) [OF sorted] that len by (cases "k = i") simp_all
  ultimately show ?case by blast
qed

section \<open>The loop takes such steps\<close>

text \<open>A blocked thread of the loop has computed its clock already.\<close>

definition thread_rel :: "pso_event list \<Rightarrow> ipid \<Rightarrow> stupd list \<Rightarrow> cyc_thread \<Rightarrow> cyc_thread \<Rightarrow> bool" where
  "thread_rel pfx p ss t c \<longleftrightarrow> \<not> ct_blocked c \<and>
     (if ct_blocked t then \<not> finished pfx p c \<and> wait_clock pfx p ss (at_event pfx p c) = Some (t\<lparr>ct_blocked := False\<rparr>)
      else at_event pfx p t = at_event pfx p c)"

definition replay_rel :: "pso_event list \<Rightarrow> ipid list \<Rightarrow> stupd list list \<Rightarrow> cyc_thread list \<Rightarrow> cyc_thread list \<Rightarrow> bool" where
  "replay_rel pfx procs stores ts cs \<longleftrightarrow> length ts = length procs \<and> length cs = length procs \<and> sc_replay pfx procs stores cs \<and>
     (\<forall>i < length procs. thread_rel pfx (procs ! i) (stores ! i) (ts ! i) (cs ! i))"

lemma thread_rel_pc: "thread_rel pfx p ss t c \<Longrightarrow> ct_pc t = ct_pc c"
proof -
  assume r: "thread_rel pfx p ss t c"
  show ?thesis
  proof (cases "ct_blocked t")
    case True
    then have "wait_clock pfx p ss (at_event pfx p c) = Some (t\<lparr>ct_blocked := False\<rparr>)" using r by (simp add: thread_rel_def)
    from wait_clock_pc [OF this] show ?thesis by simp
  next
    case False
    then have "at_event pfx p t = at_event pfx p c" using r by (simp add: thread_rel_def)
    from arg_cong [OF this, of ct_pc] show ?thesis by simp
  qed
qed

lemma replay_rel_wait:
  assumes "replay_rel pfx procs stores ts cs"
  shows "must_wait procs ts i clk \<longleftrightarrow> must_wait procs cs i clk"
proof -
  have "ct_pc (ts ! k) = ct_pc (cs ! k)" if "k < length procs" for k
    using assms that thread_rel_pc by (auto simp: replay_rel_def)
  then show ?thesis by (auto simp: must_wait_def list_ex_iff)
qed

lemma replay_rel_update:
  assumes "replay_rel pfx procs stores ts cs" "i < length procs" "thread_rel pfx (procs ! i) (stores ! i) t (cs ! i)"
  shows "replay_rel pfx procs stores (ts[i := t]) cs"
  using assms by (auto simp: replay_rel_def nth_list_update)

text \<open>What a step of the loop does to its thread: the event, the clock it has to wait for, the waiting.\<close>

lemma cyc_step_cases:
  assumes rel: "replay_rel pfx procs stores ts cs" and i: "i < length procs"
    and s: "cyc_step pfx procs stores ts i alive \<noteq> Cyc_abort"
  defines "p \<equiv> procs ! i" and "ss \<equiv> stores ! i" and "c \<equiv> cs ! i"
  obtains (fin) t where "finished pfx p c" "thread_rel pfx p ss t c" "\<not> ct_blocked t"
      "cyc_step pfx procs stores ts i alive = next_thread (length procs) (ts[i := t]) i alive"
    | (wait) t where "thread_rel pfx p ss t c" "ct_blocked t" "must_wait procs cs i (ct_block_clock t)"
      "cyc_step pfx procs stores ts i alive = next_thread (length procs) (ts[i := t]) i alive"
    | (run) clk t where "local_step pfx p ss c clk t" "\<not> must_wait procs cs i clk"
      "cyc_step pfx procs stores ts i alive = Cyc_next (ts[i := t]) i True"
proof -
  let ?t = "ts ! i"
  have len: "length ts = length procs" and tr: "thread_rel pfx p ss ?t c"
    using rel i by (auto simp: replay_rel_def p_def ss_def c_def)
  define t0 where "t0 = at_event pfx p ?t"
  have idx: "length pfx \<le> ct_pfx_index t0 \<longleftrightarrow> finished pfx p ?t" by (simp add: t0_def finished_def)
  have step: "cyc_step pfx procs stores ts i alive =
      (if finished pfx p ?t then next_thread (length procs) (ts[i := t0]) i alive
       else case (if ct_blocked t0 then Some t0 else wait_clock pfx p ss t0) of
         None \<Rightarrow> Cyc_abort
       | Some t1 \<Rightarrow>
           let t2 = t1\<lparr>ct_blocked := must_wait procs ts i (ct_block_clock t1)\<rparr>
           in if ct_blocked t2 then next_thread (length procs) (ts[i := t2]) i alive
              else case advance_pc pfx p ss t2 of None \<Rightarrow> Cyc_abort | Some t3 \<Rightarrow> Cyc_next (ts[i := t3]) i True)"
    using len i idx unfolding cyc_step_def Let_def t0_def at_event_def p_def ss_def
    by (cases "wait_clock pfx (procs ! i) (stores ! i) ((ts ! i)\<lparr>ct_pfx_index := advance_pfx pfx (procs ! i) (ct_pfx_index (ts ! i))\<rparr>)") simp_all
  have mw: "must_wait procs ts i clk = must_wait procs cs i clk" for clk by (rule replay_rel_wait [OF rel])
  have go: ?thesis if nf: "\<not> finished pfx p c" and w: "wait_clock pfx p ss (at_event pfx p c) = Some (t1\<lparr>ct_blocked := False\<rparr>)"
    and st: "cyc_step pfx procs stores ts i alive = (let t2 = t1\<lparr>ct_blocked := must_wait procs ts i (ct_block_clock t1)\<rparr>
           in if ct_blocked t2 then next_thread (length procs) (ts[i := t2]) i alive
              else case advance_pc pfx p ss t2 of None \<Rightarrow> Cyc_abort | Some t3 \<Rightarrow> Cyc_next (ts[i := t3]) i True)" for t1
  proof (cases "must_wait procs cs i (ct_block_clock t1)")
    case True
    then have "thread_rel pfx p ss (t1\<lparr>ct_blocked := True\<rparr>) c" using w nf tr by (simp add: thread_rel_def)
    then show ?thesis using True st mw by (intro wait [of "t1\<lparr>ct_blocked := True\<rparr>"]) simp_all
  next
    case False
    then obtain t3 where t3: "advance_pc pfx p ss (t1\<lparr>ct_blocked := False\<rparr>) = Some t3"
      using s st mw by (cases "advance_pc pfx p ss (t1\<lparr>ct_blocked := False\<rparr>)") simp_all
    have "local_step pfx p ss c (ct_block_clock t1) t3" using nf w t3 by (auto simp: local_step_def)
    then show ?thesis using False st mw t3 by (intro run) simp_all
  qed
  show ?thesis
  proof (cases "ct_blocked ?t")
    case True
    then have w: "\<not> finished pfx p c" "wait_clock pfx p ss (at_event pfx p c) = Some (?t\<lparr>ct_blocked := False\<rparr>)" using tr by (simp_all add: thread_rel_def)
    have "ct_pfx_index ?t = ct_pfx_index (at_event pfx p c)" using wait_clock_pc [OF w(2)] by simp
    then have "t0 = ?t" by (simp add: t0_def at_event_def advance_pfx_idem)
    moreover have "\<not> finished pfx p ?t" using \<open>t0 = ?t\<close> idx \<open>ct_pfx_index ?t = _\<close> w(1) by (simp add: finished_def)
    ultimately show ?thesis using step True w by (intro go [OF w]) simp
  next
    case False
    then have eq: "t0 = at_event pfx p c" using tr by (simp add: thread_rel_def t0_def)
    show ?thesis
    proof (cases "finished pfx p c")
      case True
      then have "finished pfx p ?t" using eq idx by (simp add: finished_def)
      then show ?thesis using True step False tr eq
        by (intro fin [of t0]) (simp_all add: thread_rel_def t0_def)
    next
      case nf: False
      then have nf': "\<not> finished pfx p ?t" using eq idx by (simp add: finished_def)
      then obtain t1 where t1: "wait_clock pfx p ss t0 = Some t1" using s step False by (auto simp: t0_def split: option.splits)
      have "\<not> ct_blocked t1" using wait_clock_pc [OF t1] False by (simp add: t0_def)
      then have "t1\<lparr>ct_blocked := False\<rparr> = t1" by simp
      then show ?thesis using step t1 eq nf nf' False by (intro go [of t1]) (simp_all add: t0_def)
    qed
  qed
qed

text \<open>In a round without progress so far, the threads before the current one are finished or have to wait.\<close>

definition waiting :: "pso_event list \<Rightarrow> ipid list \<Rightarrow> cyc_thread list \<Rightarrow> cyc_thread list \<Rightarrow> nat \<Rightarrow> bool" where
  "waiting pfx procs ts cs k \<longleftrightarrow>
     (if ct_blocked (ts ! k) then must_wait procs cs k (ct_block_clock (ts ! k)) else finished pfx (procs ! k) (cs ! k))"

lemma next_thread_round:
  assumes rel: "replay_rel pfx procs stores ts cs" and i: "i < length procs"
    and t: "thread_rel pfx (procs ! i) (stores ! i) t (cs ! i)" "waiting pfx procs (ts[i := t]) cs i"
    and round: "\<not> alive \<Longrightarrow> \<forall>k < i. waiting pfx procs ts cs k"
  shows "next_thread (length procs) (ts[i := t]) i alive = Cyc_break ts' \<Longrightarrow>
      replay_rel pfx procs stores ts' cs \<and> (\<forall>k < length procs. waiting pfx procs ts' cs k)"
    and "next_thread (length procs) (ts[i := t]) i alive = Cyc_next ts' i' alive' \<Longrightarrow>
      replay_rel pfx procs stores ts' cs \<and> i' < length procs \<and> (\<not> alive' \<longrightarrow> (\<forall>k < i'. waiting pfx procs ts' cs k))"
proof -
  have r: "replay_rel pfx procs stores (ts[i := t]) cs" by (rule replay_rel_update [OF rel i t(1)])
  have w: "waiting pfx procs (ts[i := t]) cs k" if "k < Suc i" "\<not> alive" for k
    using round [OF that(2)] that(1) t(2) by (cases "k = i") (auto simp: waiting_def)
  show "replay_rel pfx procs stores ts' cs \<and> (\<forall>k < length procs. waiting pfx procs ts' cs k)"
    if "next_thread (length procs) (ts[i := t]) i alive = Cyc_break ts'"
    using that r w i by (auto simp: next_thread_def Let_def mod_Suc split: if_splits)
  show "replay_rel pfx procs stores ts' cs \<and> i' < length procs \<and> (\<not> alive' \<longrightarrow> (\<forall>k < i'. waiting pfx procs ts' cs k))"
    if "next_thread (length procs) (ts[i := t]) i alive = Cyc_next ts' i' alive'"
    using that r w i by (auto simp: next_thread_def Let_def mod_Suc split: if_splits)
qed

lemma cyc_loop_spec:
  assumes "cyc_loop pfx procs stores ts i alive = Some ts'" "replay_rel pfx procs stores ts cs" "i < length procs"
    "\<not> alive \<Longrightarrow> \<forall>k < i. waiting pfx procs ts cs k"
  shows "\<exists>cs'. replay_rel pfx procs stores ts' cs' \<and> (\<forall>k < length procs. waiting pfx procs ts' cs' k)"
  using assms
proof (induction pfx procs stores ts i alive arbitrary: cs rule: cyc_loop.induct)
  case (1 pfx procs stores ts i alive)
  note rel = 1(3) and i = 1(4) and round = 1(5)
  have loop: "(case cyc_step pfx procs stores ts i alive of Cyc_abort \<Rightarrow> None | Cyc_break ts' \<Rightarrow> Some ts'
      | Cyc_next ts' i' alive' \<Rightarrow> cyc_loop pfx procs stores ts' i' alive') = Some ts'"
    using 1(2) by (simp add: cyc_loop.simps [of pfx procs stores ts])
  then have na: "cyc_step pfx procs stores ts i alive \<noteq> Cyc_abort" by auto
  have turn: ?case if t: "thread_rel pfx (procs ! i) (stores ! i) t (cs ! i)" "waiting pfx procs (ts[i := t]) cs i"
    and st: "cyc_step pfx procs stores ts i alive = next_thread (length procs) (ts[i := t]) i alive" for t
  proof (cases "next_thread (length procs) (ts[i := t]) i alive")
    case (Cyc_break ts1)
    then show ?thesis using next_thread_round(1) [OF rel i t round Cyc_break] loop st by auto
  next
    case (Cyc_next ts1 i1 alive1)
    note N = next_thread_round(2) [OF rel i t round Cyc_next]
    show ?thesis
      by (rule 1(1) [of ts1 i1 alive1 cs]) (use N loop st Cyc_next in auto)
  qed (use na st in simp)
  have len: "i < length ts" using rel i by (simp add: replay_rel_def)
  show ?case
  proof (rule cyc_step_cases [OF rel i na])
    fix t assume "finished pfx (procs ! i) (cs ! i)" "thread_rel pfx (procs ! i) (stores ! i) t (cs ! i)" "\<not> ct_blocked t"
      "cyc_step pfx procs stores ts i alive = next_thread (length procs) (ts[i := t]) i alive"
    then show ?thesis using turn [of t] len by (simp add: waiting_def)
  next
    fix t assume "thread_rel pfx (procs ! i) (stores ! i) t (cs ! i)" "ct_blocked t" "must_wait procs cs i (ct_block_clock t)"
      "cyc_step pfx procs stores ts i alive = next_thread (length procs) (ts[i := t]) i alive"
    then show ?thesis using turn [of t] len by (simp add: waiting_def)
  next
    fix clk t assume ls: "local_step pfx (procs ! i) (stores ! i) (cs ! i) clk t" "\<not> must_wait procs cs i clk"
      and st: "cyc_step pfx procs stores ts i alive = Cyc_next (ts[i := t]) i True"
    have sc: "sc_replay pfx procs stores (cs[i := t])" using sc_replay.step [of pfx procs stores cs i clk t] ls rel i by (simp add: replay_rel_def)
    have "\<not> ct_blocked t" using sc_replay_unblocked [OF sc i] i rel by (simp add: replay_rel_def)
    then have "replay_rel pfx procs stores (ts[i := t]) (cs[i := t])"
      using rel sc i by (auto simp: replay_rel_def nth_list_update thread_rel_def)
    then show ?thesis
      by (intro 1(1) [of "ts[i := t]" i True "cs[i := t]"]) (use loop st i in auto)
  qed
qed

text \<open>When all threads are finished or wait, no replay gets further.\<close>

lemma waiting_bound:
  assumes procs: "distinct procs" and ss: "\<forall>i < length procs. sorted (map fst (stores ! i))"
    and rel: "replay_rel pfx procs stores ts cs" and w: "\<forall>k < length procs. waiting pfx procs ts cs k"
  shows "(\<exists>pcs. sc_run pfx procs stores pcs \<and> sc_complete pfx procs pcs) \<longleftrightarrow> (\<forall>k < length procs. \<not> ct_blocked (ts ! k))"
proof -
  let ?g = "map (\<lambda>c. nat (ct_pc c)) cs"
  have sc: "sc_replay pfx procs stores cs" and len: "length cs = length procs" using rel by (simp_all add: replay_rel_def)
  note R = sc_replay_runs [OF procs ss sc]
  have at: "thread_at pfx (procs ! k) (stores ! k) (cs ! k) (?g ! k)" if "k < length procs" for k using R that len by simp
  have pc: "ct_pc (cs ! k) = int (?g ! k)" if "k < length procs" for k using at [OF that] by (simp add: thread_at_def)
  have blocked: "\<not> finished pfx (procs ! k) (cs ! k) \<and> (\<exists>t1. wait_clock pfx (procs ! k) (stores ! k) (at_event pfx (procs ! k) (cs ! k)) = Some t1 \<and>
      must_wait procs cs k (ct_block_clock t1))" if "k < length procs" "ct_blocked (ts ! k)" for k
    using rel w that by (auto simp: replay_rel_def thread_rel_def waiting_def)
  have fin: "next_event pfx (procs ! k) (?g ! k + 1) = None" if "k < length procs" "\<not> ct_blocked (ts ! k)" for k
    using w that finished_no_event [OF at [OF that(1)]] by (simp add: waiting_def)
  have bound: "\<not> may_execute pfx procs stores pcs k"
    if k: "k < length procs" "length pcs = length procs" "\<forall>j < length procs. pcs ! j \<le> ?g ! j" "pcs ! k = ?g ! k" for pcs k
  proof (cases "ct_blocked (ts ! k)")
    case True
    then obtain t1 where t1: "\<not> finished pfx (procs ! k) (cs ! k)" "must_wait procs cs k (ct_block_clock t1)"
        "wait_clock pfx (procs ! k) (stores ! k) (at_event pfx (procs ! k) (cs ! k)) = Some t1" using blocked [OF k(1)] by blast
    show ?thesis
    proof (rule blocked_cannot_execute [OF procs k(1) _ t1(1,3,2)])
      show "thread_at pfx (procs ! k) (stores ! k) (cs ! k) (pcs ! k)" using at [OF k(1)] k(4) by simp
      show "int (pcs ! j) \<le> ct_pc (cs ! j)" if "j < length procs" for j using k(3) that pc [OF that] by simp
    qed
  next
    case False
    then show ?thesis using fin [OF k(1)] k(4) by (simp add: may_execute_def)
  qed
  show ?thesis
  proof
    assume "\<exists>pcs. sc_run pfx procs stores pcs \<and> sc_complete pfx procs pcs"
    then obtain pcs where r: "sc_run pfx procs stores pcs" "sc_complete pfx procs pcs" by blast
    have le: "\<forall>k < length procs. pcs ! k \<le> ?g ! k" by (rule sc_run_bounded [OF bound r(1)])
    show "\<forall>k < length procs. \<not> ct_blocked (ts ! k)"
    proof (intro allI impI notI)
      fix k assume k: "k < length procs" "ct_blocked (ts ! k)"
      then obtain t1 where t1: "\<not> finished pfx (procs ! k) (cs ! k)"
          "wait_clock pfx (procs ! k) (stores ! k) (at_event pfx (procs ! k) (cs ! k)) = Some t1" using blocked by blast
      from wait_clock_event(1) [OF at [OF k(1)] t1(2,1)]
      have "\<exists>e < length pfx. ev_pid (pfx ! e) = procs ! k \<and> pcs ! k + 1 < ev_index (pfx ! e) + pe_size (pfx ! e)"
        using le k(1) unfolding next_event_Some by (meson add_le_mono1 le_less_trans)
      moreover have "next_event pfx (procs ! k) (pcs ! k + 1) = None" using r(2) k(1) by (simp add: sc_complete_def)
      ultimately show False by (auto simp: next_event_def find_None_iff)
    qed
  next
    assume "\<forall>k < length procs. \<not> ct_blocked (ts ! k)"
    then have "sc_complete pfx procs ?g" using fin by (simp add: sc_complete_def)
    then show "\<exists>pcs. sc_run pfx procs stores pcs \<and> sc_complete pfx procs pcs" using R by blast
  qed
qed

lemma collect_stores_length: "collect_stores st is stores = Some r \<Longrightarrow> length r = length stores"
  by (induction st "is" stores rule: collect_stores.induct) (auto simp: Let_def bind_eq_Some_conv split: if_splits)

lemma sorted_stores_sorted:
  "sorted_stores st = Some stores \<Longrightarrow> \<forall>i < length (proc_to_ipid st). sorted (map fst (stores ! i))"
  by (auto simp: sorted_stores_def dest!: collect_stores_length)

lemma scan_blocked_has: "fst (snd (scan_blocked pfx stores ts ks acc)) \<longleftrightarrow> fst (snd acc) \<or> (\<exists>k \<in> set ks. ct_blocked (ts ! k))"
  by (induction pfx stores ts ks acc rule: scan_blocked.induct) (simp_all add: Let_def)

lemma scan_blocked_loc:
  "(0 \<le> fst acc \<longrightarrow> snd (snd acc) \<noteq> None) \<Longrightarrow> 0 \<le> fst (scan_blocked pfx stores ts ks acc) \<Longrightarrow> snd (snd (scan_blocked pfx stores ts ks acc)) \<noteq> None"
  by (induction pfx stores ts ks acc rule: scan_blocked.induct) (auto simp: Let_def split: if_splits)

lemma has_cycle_spec:
  assumes h: "has_cycle st = Some r" and procs: "distinct (proc_to_ipid st)"
  obtains stores where "sorted_stores st = Some stores"
    "r = None \<longleftrightarrow> (\<exists>pcs. sc_run (prefix st) (proc_to_ipid st) stores pcs \<and> sc_complete (prefix st) (proc_to_ipid st) pcs)"
proof -
  let ?n = "length (proc_to_ipid st)" let ?init = "replicate ?n cyc_thread_init"
  obtain stores where s: "sorted_stores st = Some stores" using h by (cases "sorted_stores st") (simp_all add: has_cycle_def)
  obtain ts where l: "cyc_loop (prefix st) (proc_to_ipid st) stores ?init 0 False = Some ts"
    using h s by (cases "cyc_loop (prefix st) (proc_to_ipid st) stores ?init 0 False") (simp_all add: has_cycle_def Let_def)
  obtain u b loc where sc: "scan_blocked (prefix st) stores ts [0..<?n] (-1, False, None) = (u, b, loc)" by (metis prod_cases3)
  have r: "\<not> b \<or> 0 \<le> u" "r = (if b then loc else None)"
    using h s l sc by (auto simp: has_cycle_def Let_def)
  have n: "0 < ?n" using l by (auto simp: cyc_loop.simps [of _ _ _ _ 0] cyc_step_def)
  have rel: "replay_rel (prefix st) (proc_to_ipid st) stores ?init ?init"
    by (auto simp: replay_rel_def thread_rel_def cyc_thread_init_def intro: sc_replay.start [unfolded cyc_thread_init_def])
  obtain cs where cs: "replay_rel (prefix st) (proc_to_ipid st) stores ts cs" "\<forall>k < ?n. waiting (prefix st) (proc_to_ipid st) ts cs k"
    using cyc_loop_spec [OF l rel] n by auto
  have "r = None \<longleftrightarrow> \<not> b" using r scan_blocked_loc [of "(-1, False, None)" "prefix st" stores ts "[0..<?n]"] sc by auto
  also have "\<dots> \<longleftrightarrow> (\<forall>k < ?n. \<not> ct_blocked (ts ! k))"
    using scan_blocked_has [of "prefix st" stores ts "[0..<?n]" "(-1, False, None)"] sc by auto
  also have "\<dots> \<longleftrightarrow> (\<exists>pcs. sc_run (prefix st) (proc_to_ipid st) stores pcs \<and> sc_complete (prefix st) (proc_to_ipid st) pcs)"
    using waiting_bound [OF procs sorted_stores_sorted [OF s] cs] by blast
  finally show ?thesis using s that by blast
qed

section \<open>Properties\<close>

text \<open>
  C11. The robustness check decides whether a sequentially consistent machine can execute the trace: in every state
  that a sequence of calls brings about, if no assertion fails, \<^verbatim>\<open>check_for_cycles\<close> returns false exactly when there is a
  run that executes all instructions one by one, each after all that is before its event and, for a store, before its
  update; it then changes nothing; when it returns true, it reports one error. (The loop of the check ends on every
  input: its definition is total.)
\<close>

theorem robustness_check_correct:
  assumes "run_calls pso_do cs (PSOTraceBuilder depth d) = Some st" "check_for_cycles st = Some (b, st')"
  shows "\<exists>stores. sorted_stores st = Some stores \<and>
     (\<not> b \<longleftrightarrow> (\<exists>pcs. sc_run (prefix st) (proc_to_ipid st) stores pcs \<and> sc_complete (prefix st) (proc_to_ipid st) pcs)) \<and>
     (\<not> b \<longrightarrow> st' = st) \<and> (b \<longrightarrow> (\<exists>err. st' = st\<lparr>errors := errors st @ [err]\<rparr>))"
proof -
  have procs: "distinct (proc_to_ipid st)" using pso_run_inv [OF assms(1)] by (simp add: pso_inv_def)
  obtain r where r: "has_cycle st = Some r" using assms(2) by (cases "has_cycle st") (simp_all add: check_for_cycles_def)
  have b: "b \<longleftrightarrow> r \<noteq> None" "\<not> b \<longrightarrow> st' = st" "b \<longrightarrow> (\<exists>err. st' = st\<lparr>errors := errors st @ [err]\<rparr>)"
    using assms(2) r by (auto simp: check_for_cycles_def split: option.splits)
  show ?thesis by (rule has_cycle_spec [OF r procs]) (use b in auto)
qed

text \<open>Store buffering: both loads come before the updates, which no interleaving explains.\<close>

definition sb_ml :: "nat \<Rightarrow> symaddrsize" where
  "sb_ml k = \<lparr>as_addr = \<lparr>sa_block = \<lparr>sb_pid = 65535, sb_alloc = of_nat k\<rparr>, sa_offset = 0\<rparr>, as_size = 1\<rparr>"

definition store_buffering :: "pso_call list" where
  "store_buffering = [C_schedule, C_spawn, C_schedule, C_store (sb_ml 1), C_mark_unavailable 0 0, C_schedule, C_load (sb_ml 2),
     C_mark_unavailable 0 (-1), C_schedule, C_store (sb_ml 2), C_mark_unavailable 1 0, C_schedule, C_load (sb_ml 1),
     C_mark_unavailable 1 (-1), C_mark_available 0 0, C_schedule, C_atomic_store (sb_ml 1), C_mark_available 1 0,
     C_schedule, C_atomic_store (sb_ml 2)]"

theorem robustness_check_correct_witness:
  "\<exists>st st' stores. run_calls pso_do store_buffering (PSOTraceBuilder (-1) 0) = Some st \<and> check_for_cycles st = Some (True, st') \<and>
     sorted_stores st = Some stores \<and>
     \<not> (\<exists>pcs. sc_run (prefix st) (proc_to_ipid st) stores pcs \<and> sc_complete (prefix st) (proc_to_ipid st) pcs)"
proof -
  have "map_option (\<lambda>st. map_option fst (check_for_cycles st)) (run_calls pso_do store_buffering (PSOTraceBuilder (-1) 0)) = Some (Some True)"
    by code_simp
  then obtain st st' where st: "run_calls pso_do store_buffering (PSOTraceBuilder (-1) 0) = Some st" "check_for_cycles st = Some (True, st')"
    by (cases "run_calls pso_do store_buffering (PSOTraceBuilder (-1) 0)") auto
  then show ?thesis using robustness_check_correct [OF st] by auto
qed

end
