(* ===== verification/SExprs.thy ===== *)
theory SExprs
  imports CPids
begin

text \<open>
  S-expressions, the exchange format with a solver: \<^verbatim>\<open>src/src/SExpr.h\<close> and \<^verbatim>\<open>src/src/SExpr.cpp\<close>. A stream is the list of the
  characters left in it; reading past its end gives \<^verbatim>\<open>EOF\<close>.
\<close>

section \<open>Expressions\<close>

text \<open>The alternatives of the variant; an integer is a C++ \<^verbatim>\<open>int\<close>.\<close>

datatype sexpr = Token string | IntV int | List "sexpr list"

datatype sexpr_kind = K_TOKEN | K_INT | K_LIST

fun sx_kind :: "sexpr \<Rightarrow> sexpr_kind" where
  "sx_kind (Token s) = K_TOKEN"
| "sx_kind (IntV i) = K_INT"
| "sx_kind (List l) = K_LIST"

datatype parse_error = Got_EOF | Unmatched_paren

section \<open>Characters and numbers\<close>

definition is_space :: "char \<Rightarrow> bool" where
  "is_space c \<longleftrightarrow> (of_char c :: nat) \<in> {9, 10, 11, 12, 13, 32}"

text \<open>\<open>None\<close> is \<^verbatim>\<open>EOF\<close>.\<close>

fun endoftok :: "char option \<Rightarrow> bool" where
  "endoftok None = True"
| "endoftok (Some c) = (is_space c \<or> c = CHR '')'' \<or> c = CHR ''('')"

text \<open>
  \<^verbatim>\<open>std::strtol\<close> in base 10 on a string without leading space: the number of characters it consumes, and the value,
  clamped to 64 bits.
\<close>

definition clamp_long :: "int \<Rightarrow> int" where
  "clamp_long v = max (- (2 ^ 63)) (min (2 ^ 63 - 1) v)"

definition strtol :: "string \<Rightarrow> nat \<times> int" where
  "strtol s =
     (let neg = (s \<noteq> [] \<and> hd s = CHR ''-'');
          ds = (if s \<noteq> [] \<and> (hd s = CHR ''-'' \<or> hd s = CHR ''+'') then tl s else s);
          d = takeWhile is_digit ds
      in if d = [] then (0, 0)
         else (length s - length ds + length d, clamp_long (if neg then - int (digit_value d) else int (digit_value d))))"

text \<open>The conversion of \<^verbatim>\<open>long\<close> to \<^verbatim>\<open>int\<close>.\<close>

definition to_int :: "int \<Rightarrow> int" where
  "to_int v = (v + 2 ^ 31) mod 2 ^ 32 - 2 ^ 31"

section \<open>Reader\<close>

definition skip_ws :: "string \<Rightarrow> string" where
  "skip_ws inp = dropWhile is_space inp"

text \<open>The characters up to the end of the token, and the rest, to which the last character read was put back.\<close>

definition read_token :: "string \<Rightarrow> string \<times> string" where
  "read_token inp =
     (takeWhile (\<lambda>c. \<not> endoftok (Some c)) inp, dropWhile (\<lambda>c. \<not> endoftok (Some c)) inp)"

definition atom :: "string \<Rightarrow> sexpr" where
  "atom str = (let (n, num) = strtol str in if n \<noteq> length str then Token str else IntV (to_int num))"

text \<open>
  \<^verbatim>\<open>operator>>\<close>: \<open>None\<close> reads one expression, \<open>Some elems\<close> is the loop that has read the elements \<open>elems\<close> of a list. The
  result is the error that is thrown, or the expression and the rest of the stream.
\<close>

partial_function (option) sx_read ::
  "sexpr list option \<Rightarrow> string \<Rightarrow> (parse_error + sexpr \<times> string) option" where
  "sx_read mode inp =
     (let s = skip_ws inp in
      case mode of
        None \<Rightarrow>
          (if s = [] then Some (Inl Got_EOF)
           else if hd s = CHR '')'' then Some (Inl Unmatched_paren)
           else if hd s = CHR ''('' then sx_read (Some []) (tl s)
           else let (str, rest) = read_token s in Some (Inr (atom str, rest)))
      | Some elems \<Rightarrow>
          (if s \<noteq> [] \<and> hd s = CHR '')'' then Some (Inr (List elems, tl s))
           else Option.bind (sx_read None s) (\<lambda>r.
             case r of
               Inl err \<Rightarrow> Some (Inl err)
             | Inr (e, rest) \<Rightarrow> sx_read (Some (elems @ [e])) rest)))"

section \<open>Printer\<close>

fun sx_print :: "sexpr \<Rightarrow> string" and sx_prints :: "sexpr list \<Rightarrow> string" where
  "sx_print (Token s) = s"
| "sx_print (IntV i) = show_int i"
| "sx_print (List l) = ''('' @ sx_prints l @ '')''"
| "sx_prints [] = ''''"
| "sx_prints (e # l) = sx_print e @ (if l = [] then '''' else '' '' @ sx_prints l)"

section \<open>The reader returns\<close>

lemma skip_ws_length: "length (skip_ws inp) \<le> length inp"
  by (simp add: skip_ws_def length_dropWhile_le)

lemma skip_ws_hd: "skip_ws inp = [] \<or> \<not> is_space (hd (skip_ws inp))"
  unfolding skip_ws_def by (meson hd_dropWhile)

lemma read_token_length:
  assumes "s \<noteq> []" "\<not> endoftok (Some (hd s))"
  shows "length (snd (read_token s)) < length s"
proof -
  obtain c s1 where s: "s = c # s1" using assms(1) by (cases s) simp_all
  have "length (dropWhile (\<lambda>c. \<not> endoftok (Some c)) s1) \<le> length s1" by (rule length_dropWhile_le)
  then show ?thesis using assms(2) by (simp add: read_token_def s)
qed

text \<open>It consumes at least one character, so every input is read to an expression or an error.\<close>

definition reads :: "sexpr list option \<Rightarrow> string \<Rightarrow> bool" where
  "reads mode inp \<longleftrightarrow> (\<exists>r. sx_read mode inp = Some r \<and> (\<forall>e rest. r = Inr (e, rest) \<longrightarrow> length rest < length inp))"

lemma reads_one:
  assumes "\<And>mode j. length j < length inp \<Longrightarrow> reads mode j"
  shows "reads None inp"
proof -
  let ?s = "skip_ws inp"
  have le: "length ?s \<le> length inp" by (rule skip_ws_length)
  consider (stop) "?s = [] \<or> hd ?s = CHR '')''" | (list) "?s \<noteq> []" "hd ?s = CHR ''(''"
    | (token) "?s \<noteq> []" "\<not> endoftok (Some (hd ?s))" using skip_ws_hd [of inp] by auto
  then show ?thesis
  proof cases
    case stop
    then show ?thesis by (auto simp: reads_def sx_read.simps [of None inp] Let_def)
  next
    case list
    have e: "sx_read None inp = sx_read (Some []) (tl ?s)" using list by (simp add: sx_read.simps [of None inp] Let_def)
    have l: "length (tl ?s) < length inp" using le list(1) by (cases ?s) auto
    show ?thesis using assms [OF l, of "Some []"] l unfolding reads_def e by (meson order_less_trans)
  next
    case token
    then have "sx_read None inp = Some (Inr (atom (fst (read_token ?s)), snd (read_token ?s)))"
      by (simp add: sx_read.simps [of None inp] Let_def split: prod.splits)
    then show ?thesis using read_token_length [OF token] le by (simp add: reads_def)
  qed
qed

lemma sx_read_total: "reads mode inp"
proof (induction "length inp" arbitrary: mode inp rule: less_induct)
  case less
  let ?s = "skip_ws inp"
  have le: "length ?s \<le> length inp" by (rule skip_ws_length)
  show ?case
  proof (cases mode)
    case None
    then show ?thesis using reads_one [of inp] less by blast
  next
    case (Some elems)
    show ?thesis
    proof (cases "?s \<noteq> [] \<and> hd ?s = CHR '')''")
      case True
      then have "length (tl ?s) < length inp" using le by (cases ?s) auto
      then show ?thesis using True by (simp add: reads_def Some sx_read.simps [of "Some elems" inp] Let_def)
    next
      case False
      have "reads None ?s" by (rule reads_one) (use less le in force)
      then obtain r where r: "sx_read None ?s = Some r" "\<And>e rest. r = Inr (e, rest) \<Longrightarrow> length rest < length ?s"
        by (auto simp: reads_def)
      show ?thesis
      proof (cases r)
        case (Inl err)
        then show ?thesis using False r(1) by (auto simp: reads_def Some sx_read.simps [of "Some elems" inp] Let_def)
      next
        case (Inr x)
        obtain e rest where x: "x = (e, rest)" by (cases x)
        have l: "length rest < length inp" using r(2) Inr x le by fastforce
        have eq: "sx_read mode inp = sx_read (Some (elems @ [e])) rest"
          using False r(1) Inr x by (auto simp: Some sx_read.simps [of "Some elems" inp] Let_def)
        show ?thesis using less [OF l, of "Some (elems @ [e])"] l unfolding reads_def eq by (meson order_less_trans)
      qed
    qed
  qed
qed

section \<open>Reading back what was printed\<close>

text \<open>
  The expressions that can be printed: tokens are words that are not read as numbers, numbers are in the range of \<^verbatim>\<open>int\<close>.
\<close>

fun printable :: "sexpr \<Rightarrow> bool" where
  "printable (Token s) = (s \<noteq> [] \<and> list_all (\<lambda>c. \<not> endoftok (Some c)) s \<and> fst (strtol s) \<noteq> length s)"
| "printable (IntV i) = (- (2 ^ 31) \<le> i \<and> i < 2 ^ 31)"
| "printable (List l) = list_all printable l"

definition ends_token :: "string \<Rightarrow> bool" where
  "ends_token rest \<longleftrightarrow> endoftok (case rest of [] \<Rightarrow> None | c # _ \<Rightarrow> Some c)"

lemma digit_no_end: "is_digit c \<Longrightarrow> \<not> endoftok (Some c)"
  by (auto simp: is_digit_def is_space_def)

lemma show_int_word: "show_int i \<noteq> [] \<and> list_all (\<lambda>c. \<not> endoftok (Some c)) (show_int i)"
proof -
  have d: "digits n \<noteq> [] \<and> list_all (\<lambda>c. \<not> endoftok (Some c)) (digits n)" for n
    using digits_spec [of n] digit_no_end unfolding list_all_iff by blast
  have "\<not> endoftok (Some (CHR ''-''))" by (simp add: is_space_def)
  then show ?thesis using d by (simp add: show_int_def)
qed

lemma strtol_show_int:
  assumes "- (2 ^ 31) \<le> i" "i < 2 ^ 31"
  shows "strtol (show_int i) = (length (show_int i), i)"
proof -
  have tw: "takeWhile is_digit (digits n) = digits n" for n using digits_spec [of n] by (simp add: list_all_iff takeWhile_eq_all_conv)
  have hd: "is_digit (hd (digits n))" for n using digits_spec [of n] by (simp add: list_all_iff)
  have sg: "hd (digits n) \<noteq> CHR ''-''" "hd (digits n) \<noteq> CHR ''+''" for n using hd [of n] by (auto simp: is_digit_def)
  have c: "clamp_long i = i" using assms by (simp add: clamp_long_def)
  show ?thesis
  proof (cases "i < 0")
    case True
    then show ?thesis using c digits_spec [of "nat (- i)"] by (simp add: strtol_def show_int_def tw Let_def)
  next
    case False
    then show ?thesis using c digits_spec [of "nat i"] sg by (simp add: strtol_def show_int_def tw Let_def)
  qed
qed

lemma atom_print: "printable e \<Longrightarrow> sx_kind e \<noteq> K_LIST \<Longrightarrow> atom (sx_print e) = e"
proof (cases e)
  case (Token s)
  moreover assume "printable e"
  ultimately show ?thesis by (cases "strtol s") (simp add: atom_def)
next
  case (IntV i)
  moreover assume p: "printable e"
  ultimately show ?thesis using strtol_show_int [of i] by (simp add: atom_def to_int_def)
qed simp

lemma read_word:
  assumes "w \<noteq> []" "list_all (\<lambda>c. \<not> endoftok (Some c)) w" "ends_token rest"
  shows "sx_read None (w @ rest) = Some (Inr (atom w, rest))"
proof -
  have h: "\<not> endoftok (Some (hd w))" using assms(1,2) by (simp add: list_all_iff)
  have ws: "skip_ws (w @ rest) = w @ rest" using assms(1) h by (cases w) (simp_all add: skip_ws_def)
  have t: "takeWhile (\<lambda>c. \<not> endoftok (Some c)) (w @ rest) = w" "dropWhile (\<lambda>c. \<not> endoftok (Some c)) (w @ rest) = rest"
    using takeWhile_append2 [of w "\<lambda>c. \<not> endoftok (Some c)" rest] dropWhile_append2 [of w "\<lambda>c. \<not> endoftok (Some c)" rest] assms(2,3)
    by (cases rest; simp add: ends_token_def list_all_iff del: endoftok.simps)+
  have "read_token (w @ rest) = (w, rest)" unfolding read_token_def t by simp
  then show ?thesis using assms(1) h by (simp add: sx_read.simps [of None "w @ rest"] Let_def ws)
qed

lemma sx_read_ws: "skip_ws a = skip_ws b \<Longrightarrow> sx_read m a = sx_read m b"
  by (simp add: sx_read.simps [of m a] sx_read.simps [of m b])

lemma print_start:
  "printable e \<Longrightarrow> \<exists>c s. sx_print e = c # s \<and> \<not> is_space c \<and> c \<noteq> CHR '')''"
proof (cases e)
  case (IntV i)
  then show ?thesis using show_int_word [of i] by (cases "show_int i") auto
next
  case (Token s)
  moreover assume "printable e"
  ultimately show ?thesis by (cases s) auto
qed (simp add: is_space_def)

lemma read_close: "sx_read (Some acc) (CHR '')'' # rest) = Some (Inr (List acc, rest))"
proof -
  have "skip_ws (CHR '')'' # rest) = CHR '')'' # rest" by (simp add: skip_ws_def is_space_def)
  then show ?thesis by (simp add: sx_read.simps [of "Some acc"])
qed

lemma read_print:
  "printable e \<Longrightarrow> sx_kind e = K_LIST \<or> ends_token rest \<Longrightarrow> sx_read None (sx_print e @ rest) = Some (Inr (e, rest))"
  "list_all printable l \<Longrightarrow> sx_read (Some acc) (sx_prints l @ CHR '')'' # rest) = Some (Inr (List (acc @ l), rest))"
proof (induction e and l arbitrary: rest and acc rest rule: sx_print_sx_prints.induct)
  case (1 s)
  then show ?case using read_word [of s rest] atom_print [of "Token s"] by simp
next
  case (2 i)
  then show ?case using read_word [of "show_int i" rest] show_int_word [of i] atom_print [of "IntV i"] by simp
next
  case (3 l)
  have "skip_ws (CHR ''('' # x) = CHR ''('' # x" for x by (simp add: skip_ws_def is_space_def)
  then show ?case using 3(1) [of "[]" rest] 3(2) by (simp add: sx_read.simps [of None "CHR ''('' # _"])
next
  case 4
  show ?case by (simp add: read_close)
next
  case (5 e l)
  have p: "printable e" "list_all printable l" using 5(3) by auto
  obtain c s where c: "sx_print e = c # s" "\<not> is_space c" "c \<noteq> CHR '')''" using print_start [OF p(1)] by blast
  define tail where "tail = (if l = [] then [] else CHR '' '' # sx_prints l) @ CHR '')'' # rest"
  have inp: "sx_prints (e # l) @ CHR '')'' # rest = sx_print e @ tail" by (simp add: tail_def)
  have ends: "ends_token tail" by (simp add: tail_def ends_token_def is_space_def)
  have ws: "skip_ws (sx_print e @ tail) = sx_print e @ tail" using c(1,2) by (simp add: skip_ws_def)
  have "sx_read (Some acc) (sx_print e @ tail) = sx_read (Some (acc @ [e])) tail"
    unfolding sx_read.simps [of "Some acc" "sx_print e @ tail"] Let_def ws using 5(1) [OF p(1), of tail] ends c by simp
  also have "\<dots> = sx_read (Some (acc @ [e])) (sx_prints l @ CHR '')'' # rest)"
    by (rule sx_read_ws) (simp add: tail_def skip_ws_def is_space_def)
  also have "\<dots> = Some (Inr (List (acc @ [e] @ l), rest))"
    using 5(2) [OF _ p(2), of "acc @ [e]" rest] read_close [of "acc @ [e]" rest] by (cases "l = []") simp_all
  finally show ?case unfolding inp by simp
qed

section \<open>Property\<close>

text \<open>
  C40. Reading returns on every input, with an expression or with an error, and consumes at least one character for an
  expression; and what was printed is read back: the text of an expression whose tokens are words that are not read as
  numbers, and whose numbers are in the range of \<^verbatim>\<open>int\<close>, followed by anything that ends a token, is read as that expression
  and leaves what follows.
\<close>

theorem sexpr_roundtrip:
  "(\<exists>r. sx_read mode inp = Some r \<and> (\<forall>e rest. r = Inr (e, rest) \<longrightarrow> length rest < length inp)) \<and>
   (printable e \<and> ends_token rest \<longrightarrow> sx_read None (sx_print e @ rest) = Some (Inr (e, rest)))"
  using sx_read_total [of mode inp] read_print(1) [of e rest] by (simp add: reads_def)

theorem sexpr_roundtrip_witness:
  "sx_read None (''((x -12) ())'' @ ''  y'') = Some (Inr (List [List [Token ''x'', IntV (-12)], List []], ''  y''))"
proof -
  have p: "printable (List [List [Token ''x'', IntV (-12)], List []])" "ends_token ''  y''"
    by (simp_all add: strtol_def is_digit_def ends_token_def is_space_def)
  have "digits 12 = ''12''" by code_simp
  then have "sx_print (List [List [Token ''x'', IntV (-12)], List []]) = ''((x -12) ())''" by (simp add: show_int_def)
  then show ?thesis using sexpr_roundtrip [of None "''''" "List [List [Token ''x'', IntV (-12)], List []]" "''  y''"] p by simp
qed


end
