(* ===== verification/SmtSolver.thy ===== *)
theory SmtSolver
  imports SExprs SymEvs
begin

text \<open>
  The commands that \<^verbatim>\<open>src/src/SmtlibSatSolver.cpp\<close> writes to a solver, as text, and how it reads the answer to a check. The solver
  itself is another process. With the option \<^verbatim>\<open>--smtlib-bv\<close> the variables are bit vectors whose width is
  computed with \<^verbatim>\<open>ilog2\<close>, a binary search on the bits of a 32 bit number. \<^verbatim>\<open>get_model\<close> is not modelled: it writes beyond the size
  of the vector it returns.
\<close>

unbundle bit_operations_syntax

section \<open>The logarithm\<close>

definition ilog2_table :: "(32 word \<times> nat) list" where
  "ilog2_table = [(0xFFFF0000, 16), (0xFF00, 8), (0xF0, 4), (0xC, 2), (0x2, 1)]"

fun ilog2_loop :: "(32 word \<times> nat) list \<Rightarrow> 32 word \<Rightarrow> 32 word \<Rightarrow> 32 word" where
  "ilog2_loop [] v r = r"
| "ilog2_loop ((b, s) # bs) v r =
     (if v AND b \<noteq> 0 then ilog2_loop bs (drop_bit s v) (r OR of_nat s) else ilog2_loop bs v r)"

definition ilog2 :: "32 word \<Rightarrow> 32 word" where
  "ilog2 v = ilog2_loop ilog2_table v 0"

section \<open>Commands\<close>

text \<open>Numbers in hexadecimal; \<^verbatim>\<open>std::setw\<close> with \<^verbatim>\<open>std::setfill('0')\<close> pads on the left.\<close>

fun hex_digits :: "nat \<Rightarrow> string" where
  "hex_digits n = (if n < 16 then [hex_digit n] else hex_digits (n div 16) @ [hex_digit (n mod 16)])"

declare hex_digits.simps [simp del]

definition pad_zero :: "nat \<Rightarrow> string \<Rightarrow> string" where
  "pad_zero w s = replicate (w - length s) (CHR ''0'') @ s"

definition newline :: string where
  "newline = [CHR 0x0A]"

definition var_name :: "nat \<Rightarrow> string" where
  "var_name i = ''e'' @ digits i"

definition smt_start :: "bool \<Rightarrow> bool \<Rightarrow> string" where
  "smt_start bv lia = ''(set-option :produce-models true)'' @ newline @
     (if bv then ''(set-logic QF_BV)'' else if lia then ''(set-logic QF_LIA)'' else ''(set-logic QF_IDL)'') @ newline"

definition smt_reset :: string where
  "smt_reset = ''(reset)'' @ newline"

definition hexdigs :: "32 word \<Rightarrow> nat" where
  "hexdigs count = unat (ilog2 (count - 2)) div 4 + 1"

definition bound_text :: "32 word \<Rightarrow> string" where
  "bound_text count = pad_zero (hexdigs count) (hex_digits (unat count))"

text \<open>The test that leaves out a bound that cannot be exceeded; a shift by the width of the type, for eight digits, is not defined.\<close>

definition needs_bound :: "32 word \<Rightarrow> bool option" where
  "needs_bound count = (if hexdigs count * 4 < 32 then Some (count \<noteq> push_bit (hexdigs count * 4) 1) else None)"

definition declare_variable :: "bool \<Rightarrow> 32 word \<Rightarrow> nat \<Rightarrow> string option" where
  "declare_variable bv count i =
     (if bv then
        map_option (\<lambda>needed.
          ''(declare-fun '' @ var_name i @ '' () (_ BitVec '' @ digits (hexdigs count * 4) @ ''))'' @ newline @
          (if needed then ''(assert (bvult '' @ var_name i @ '' #x'' @ bound_text count @ ''))'' @ newline else ''''))
          (needs_bound count)
      else Some
        (''(declare-fun '' @ var_name i @ '' () Int)'' @ newline @
         ''(assert (>= '' @ var_name i @ '' 0))'' @ newline @
         ''(assert (< '' @ var_name i @ '' '' @ digits (unat count) @ ''))'' @ newline))"

definition alloc_variables :: "bool \<Rightarrow> 32 word \<Rightarrow> string option" where
  "alloc_variables bv count =
     map_option (\<lambda>decls. concat decls @
       ''(assert (distinct '' @ concat (map (\<lambda>i. var_name i @ '' '') [0..<unat count]) @ ''))'' @ newline)
     (those (map (declare_variable bv count) [0..<unat count]))"

definition less_text :: "bool \<Rightarrow> nat \<Rightarrow> nat \<Rightarrow> string" where
  "less_text bv x y = (if bv then ''(bvult '' else ''(< '') @ var_name x @ '' '' @ var_name y @ '')''"

definition smt_add_edge :: "bool \<Rightarrow> nat \<Rightarrow> nat \<Rightarrow> string" where
  "smt_add_edge bv x y = ''(assert '' @ less_text bv x y @ '')'' @ newline"

definition smt_add_edge_disj :: "bool \<Rightarrow> nat \<Rightarrow> nat \<Rightarrow> nat \<Rightarrow> nat \<Rightarrow> string" where
  "smt_add_edge_disj bv xa ya xb yb = ''(assert (or '' @ less_text bv xa ya @ less_text bv xb yb @ ''))'' @ newline"

text \<open>\<^verbatim>\<open>check_sat\<close> with the line that the solver answers; any other answer fails an assertion.\<close>

definition smt_check_sat :: "string \<Rightarrow> string \<times> bool option" where
  "smt_check_sat res = (''(check-sat)'' @ newline,
     if res = ''unsat'' then Some False else if res = ''sat'' then Some True else None)"

section \<open>The search for the highest bit\<close>

fun halving :: "nat \<Rightarrow> (32 word \<times> nat) list" where
  "halving 0 = []"
| "halving (Suc k) = (push_bit (2 ^ k) (mask (2 ^ k)), 2 ^ k) # halving k"

lemma ilog2_table_halving: "ilog2_table = halving 5"
  by code_simp

lemma upper_half:
  fixes v :: "32 word"
  assumes "drop_bit (2 * s) v = 0" "2 * s \<le> 32"
  shows "v AND push_bit s (mask s) = 0 \<longleftrightarrow> drop_bit s v = 0"
proof -
  have hi: "\<not> bit v (2 * s + n)" for n using assms(1) by (metis bit_drop_bit_eq bit_0_eq bot_apply bot_bool_def comp_apply)
  have "bit v n \<Longrightarrow> s \<le> n \<Longrightarrow> n - s < s" for n using hi [of "n - 2 * s"] by (cases "n < 2 * s") auto
  moreover have "bit v n \<Longrightarrow> n < 32" for n using bit_imp_le_length by fastforce
  ultimately show ?thesis
    by (auto simp: bit_eq_iff bit_simps) (metis add_diff_cancel_left' le_add1 le_add_diff_inverse)+
qed

lemma ilog2_loop_correct:
  assumes "k \<le> 5" "v \<noteq> 0" "drop_bit (2 ^ k) v = 0" "take_bit k r = 0"
  shows "\<exists>d. ilog2_loop (halving k) v r = r + of_nat d \<and> d < 2 ^ k \<and> drop_bit d v = 1"
  using assms
proof (induction k arbitrary: v r)
  case 0
  have "unat v div 2 = 0" using "0.prems"(3) by (metis unat_drop_bit_eq drop_bit_eq_div power_one_right power_0 unat_0)
  moreover have "unat v \<noteq> 0" using "0.prems"(2) by (simp add: unat_eq_0)
  ultimately have "unat v = 1" by arith
  then have "v = 1" by (metis unat_1 word_unat_eq_iff)
  then show ?case by (intro exI [of _ 0]) simp
next
  case (Suc k)
  let ?s = "2 ^ k :: nat"
  have half: "v AND push_bit ?s (mask ?s) = 0 \<longleftrightarrow> drop_bit ?s v = 0"
  proof (rule upper_half)
    show "drop_bit (2 * ?s) v = 0" using Suc.prems(3) by simp
    have "?s \<le> 2 ^ 4" using Suc.prems(1) by (intro power_increasing) auto
    then show "2 * ?s \<le> 32" by simp
  qed
  have t: "take_bit k r = 0" "\<not> bit r k" "\<And>n. n < k \<Longrightarrow> \<not> bit r n"
    using Suc.prems(1,4) by (auto simp: bit_eq_iff bit_simps)
  show ?case
  proof (cases "drop_bit ?s v = 0")
    case True
    then obtain d where "ilog2_loop (halving k) v r = r + of_nat d" "d < 2 ^ k" "drop_bit d v = 1"
      using Suc.IH [of v r] Suc.prems(1,2) t by auto
    then show ?thesis using True half by (intro exI [of _ d]) simp
  next
    case False
    have or: "r OR of_nat ?s = r + of_nat ?s"
    proof (rule disjunctive_add_eq_or [symmetric])
      show "r AND of_nat ?s = 0" by (rule bit_word_eqI) (use t(2) in \<open>auto simp: bit_simps\<close>)
    qed
    have "drop_bit ?s (drop_bit ?s v) = 0" using Suc.prems(3) by (simp add: mult_2)
    moreover have "take_bit k (r OR of_nat ?s) = 0" by (rule bit_word_eqI) (use t(3) in \<open>auto simp: bit_simps\<close>)
    ultimately obtain d where d: "ilog2_loop (halving k) (drop_bit ?s v) (r OR of_nat ?s) = (r OR of_nat ?s) + of_nat d" "d < 2 ^ k"
        "drop_bit d (drop_bit ?s v) = 1"
      using Suc.IH [of "drop_bit ?s v" "r OR of_nat ?s"] Suc.prems(1) False by auto
    show ?thesis
    proof (intro exI [of _ "?s + d"] conjI)
      show "ilog2_loop (halving (Suc k)) v r = r + of_nat (?s + d)" using False half d(1) or by simp
    qed (use d(2,3) in \<open>simp_all add: add.commute\<close>)
  qed
qed

text \<open>\<^verbatim>\<open>ilog2\<close> is the position of the highest bit.\<close>

lemma ilog2_spec:
  assumes "v \<noteq> 0"
  shows "unat (ilog2 v) < 32" "2 ^ unat (ilog2 v) \<le> unat v" "unat v < 2 ^ (unat (ilog2 v) + 1)"
proof -
  have "drop_bit (2 ^ 5) v = 0" by (simp add: bit_eq_iff bit_simps)
  then obtain d where d: "ilog2 v = of_nat d" "d < 2 ^ 5" "drop_bit d v = 1"
    using ilog2_loop_correct [of 5 v 0] assms by (auto simp: ilog2_def ilog2_table_halving)
  have u: "unat (ilog2 v) = d" using d(1,2) by (simp add: unat_of_nat take_bit_nat_eq_self)
  have q: "unat v div 2 ^ d = 1" using d(3) by (metis unat_drop_bit_eq drop_bit_eq_div unat_1)
  show "unat (ilog2 v) < 32" using u d(2) by simp
  show "2 ^ unat (ilog2 v) \<le> unat v" unfolding u using q by (metis div_less less_numeral_extra(3) linorder_not_less zero_neq_one)
  show "unat v < 2 ^ (unat (ilog2 v) + 1)" unfolding u using q dividend_less_div_times [of "2 ^ d" "unat v"] by simp
qed

section \<open>Width of the bit vectors\<close>

lemma hexdigs_range:
  assumes "3 \<le> unat count"
  shows "16 ^ (hexdigs count - 1) + 2 \<le> unat count" "unat count \<le> 16 ^ hexdigs count + 1"
proof -
  let ?v = "count - 2" and ?L = "unat (ilog2 (count - 2))"
  have c: "2 \<le> count" using assms by (simp add: word_le_nat_alt)
  have u: "unat ?v = unat count - 2" using unat_sub [OF c] by simp
  have "?v \<noteq> 0" using u assms by (metis diff_is_0_eq numeral_le_iff not_less_eq_eq numeral_2_eq_2 numeral_3_eq_3 unat_0)
  note L = ilog2_spec [OF this]
  have p: "(16 :: nat) ^ n = 2 ^ (4 * n)" for n by (simp add: power_mult)
  have "(2 :: nat) ^ (4 * (?L div 4)) \<le> 2 ^ ?L" by (rule power_increasing) auto
  then have "2 ^ (4 * (?L div 4)) \<le> unat count - 2" using L(2) unfolding u by (rule le_trans)
  then show "16 ^ (hexdigs count - 1) + 2 \<le> unat count" using assms unfolding p by (simp add: hexdigs_def)
  have "?L + 1 \<le> 4 * (?L div 4 + 1)" by arith
  then have "(2 :: nat) ^ (?L + 1) \<le> 2 ^ (4 * (?L div 4 + 1))" by (rule power_increasing) auto
  then have "unat count - 2 < 2 ^ (4 * (?L div 4 + 1))" using L(3) u by simp
  then show "unat count \<le> 16 ^ hexdigs count + 1" unfolding p by (simp add: hexdigs_def)
qed

lemma length_hex_digits: "0 < h \<Longrightarrow> length (hex_digits n) \<le> h \<longleftrightarrow> n < 16 ^ h"
proof (induction n arbitrary: h rule: hex_digits.induct)
  case (1 n)
  show ?case
  proof (cases "n < 16")
    case True
    moreover have "(16 :: nat) ^ 1 \<le> 16 ^ h" using "1.prems" by (intro power_increasing) auto
    ultimately show ?thesis using "1.prems" by (subst hex_digits.simps) auto
  next
    case False
    have len: "length (hex_digits n) = Suc (length (hex_digits (n div 16)))" using False by (subst hex_digits.simps) simp
    show ?thesis
    proof (cases "h = 1")
      case True
      have "hex_digits (n div 16) \<noteq> []" by (subst hex_digits.simps) simp
      then show ?thesis using False True len by simp
    next
      case h: False
      then obtain k where k: "h = Suc k" "0 < k" using "1.prems" by (cases h) auto
      have "n div 16 < 16 ^ k \<longleftrightarrow> n < 16 ^ h" unfolding k(1) by (simp add: div_less_iff_less_mult mult.commute)
      then show ?thesis using "1.IH" [OF False k(2)] len k(1) by simp
    qed
  qed
qed

lemma hexdigs_two: "unat count = 2 \<Longrightarrow> hexdigs count = 1"
proof -
  assume "unat count = 2"
  then have "count = 2" by (simp add: word_unat_eq_iff)
  moreover have "hexdigs 2 = 1" by code_simp
  ultimately show ?thesis by simp
qed

lemma hexdigs_lower:
  assumes "2 \<le> unat count"
  shows "16 ^ (hexdigs count - 1) < unat count" "unat count \<le> 16 ^ hexdigs count + 1"
  using assms hexdigs_range [of count] hexdigs_two [of count] by (cases "unat count = 2"; force)+

lemma hexdigs_shift:
  assumes "2 \<le> unat count"
  shows "hexdigs count * 4 < 32 \<longleftrightarrow> unat count < 2 ^ 28 + 2"
proof -
  have p: "(16 :: nat) ^ 7 = 2 ^ 28" by simp
  show ?thesis
  proof (cases "unat count = 2")
    case False
    then have R: "16 ^ (hexdigs count - 1) + 2 \<le> unat count" "unat count \<le> 16 ^ hexdigs count + 1"
      using assms hexdigs_range [of count] by auto
    have "(16 :: nat) ^ hexdigs count \<le> 16 ^ 7" if "hexdigs count < 8" using that by (intro power_increasing) auto
    moreover have "(16 :: nat) ^ 7 \<le> 16 ^ (hexdigs count - 1)" if "\<not> hexdigs count < 8"
      using that by (intro power_increasing) auto
    ultimately show ?thesis using R unfolding p by (cases "hexdigs count < 8") auto
  qed (simp add: hexdigs_two)
qed

lemma those_None: "those xs = None \<longleftrightarrow> None \<in> set xs"
  by (induction xs) (auto split: option.splits)

lemma alloc_variables_None:
  "alloc_variables bv count = None \<longleftrightarrow> bv \<and> count \<noteq> 0 \<and> \<not> hexdigs count * 4 < 32"
proof -
  have "(\<exists>x. x < unat count) \<longleftrightarrow> count \<noteq> 0" by (metis gr_zeroI not_less_zero unat_eq_0)
  then show ?thesis
    by (auto simp: alloc_variables_def those_None declare_variable_def needs_bound_def image_iff split: if_splits)
qed

section \<open>Properties\<close>

text \<open>
  C28. The bit vectors that \<^verbatim>\<open>alloc_variables\<close> declares. The shift in the test of the bound is undefined exactly for one variable,
  where \<^verbatim>\<open>count-2\<close> wraps, and for more than \<open>2^28 + 1\<close>. From two variables on the declared width has no superfluous digit, and the
  variables can hold every position, with a bound that is printed in as many digits as the variable has, except when the number of
  variables is one more than a power of 16: then they are one digit too narrow for the bound, and the command is ill-sorted.
\<close>

theorem alloc_width:
  "(alloc_variables True count = None \<longleftrightarrow> unat count = 1 \<or> 2 ^ 28 + 2 \<le> unat count) \<and>
   (2 \<le> unat count \<longrightarrow> 16 ^ (hexdigs count - 1) < unat count \<and>
      (unat count \<noteq> 16 ^ hexdigs count + 1 \<longleftrightarrow> unat count \<le> 16 ^ hexdigs count)) \<and>
   (2 \<le> unat count \<and> unat count < 2 ^ 28 + 2 \<longrightarrow>
      (unat count \<noteq> 16 ^ hexdigs count + 1 \<longleftrightarrow>
        (needs_bound count = Some True \<longrightarrow> length (bound_text count) = hexdigs count)))"
proof (intro conjI impI)
  show "alloc_variables True count = None \<longleftrightarrow> unat count = 1 \<or> 2 ^ 28 + 2 \<le> unat count"
  proof -
    consider "unat count = 0" | "unat count = 1" | "2 \<le> unat count" by arith
    then show ?thesis
    proof cases
      case 1
      then have "count = 0" by (simp add: unat_eq_0)
      then show ?thesis by (simp add: alloc_variables_None)
    next
      case 2
      then have c: "count = 1" by (metis unat_1 word_unat_eq_iff)
      have "hexdigs 1 = 8" by code_simp
      then show ?thesis by (simp add: alloc_variables_None c)
    next
      case 3
      then have "count \<noteq> 0" by auto
      then show ?thesis using hexdigs_shift [OF 3] 3 by (auto simp: alloc_variables_None)
    qed
  qed
next
  assume c: "2 \<le> unat count \<and> unat count < 2 ^ 28 + 2"
  have s: "hexdigs count * 4 < 32" using c hexdigs_shift by blast
  have "unat (push_bit (hexdigs count * 4) 1 :: 32 word) = 2 ^ (hexdigs count * 4)"
  proof -
    let ?n = "hexdigs count * 4"
    have "(2 :: nat) ^ ?n < 2 ^ 32" using s by (intro power_strict_increasing) auto
    then have "unat (of_nat (2 ^ ?n) :: 32 word) = 2 ^ ?n" by (simp add: unat_of_nat take_bit_nat_eq_self del: of_nat_power of_nat_numeral)
    then show ?thesis by (simp add: push_bit_of_1)
  qed
  then have n: "needs_bound count = Some (unat count \<noteq> 16 ^ hexdigs count)"
    using s by (simp add: needs_bound_def word_unat_eq_iff power_mult mult.commute [of _ 4])
  have h: "0 < hexdigs count" by (simp add: hexdigs_def)
  have "length (bound_text count) = hexdigs count \<longleftrightarrow> unat count < 16 ^ hexdigs count"
    using length_hex_digits [OF h, of "unat count"] by (auto simp: bound_text_def pad_zero_def)
  then show "unat count \<noteq> 16 ^ hexdigs count + 1 \<longleftrightarrow>
      (needs_bound count = Some True \<longrightarrow> length (bound_text count) = hexdigs count)"
    using hexdigs_lower(2) [of count] c n by auto
next
  assume c: "2 \<le> unat count"
  show "16 ^ (hexdigs count - 1) < unat count" by (rule hexdigs_lower(1) [OF c])
  show "unat count \<noteq> 16 ^ hexdigs count + 1 \<longleftrightarrow> unat count \<le> 16 ^ hexdigs count"
    using hexdigs_lower(2) [OF c] by auto
qed

text \<open>With 17 variables the bound \<^verbatim>\<open>#x11\<close> has eight bits, the variables have four.\<close>

theorem alloc_width_witness:
  "16 ^ (hexdigs 17 - 1) < unat (17 :: 32 word) \<and> hexdigs 17 = 1 \<and> bound_text 17 = ''11'' \<and> needs_bound 17 = Some True \<and>
     length (bound_text 17) \<noteq> hexdigs 17 \<and> alloc_variables True 17 \<noteq> None"
proof -
  have "hexdigs 17 = 1" "bound_text 17 = ''11''" by code_simp+
  then show ?thesis using alloc_width [of 17] by simp
qed

end
