(* ===== verification/Spec2Isabelle.thy ===== *)
theory Spec2Isabelle
  imports VecSet VClocks CPids RFSC_Formula PrefixHeuristic Rmw SymAddrs SymEvs MRefs PSO_Cycle DecisionTree Unfolding SmtSolver
begin

text \<open>
  A verification development for Nidhugg, a stateless model checker for concurrent programs that are compiled to LLVM
  IR. Nidhugg executes a program again and again with an interpreter. A trace builder (a class derived from
  \<^verbatim>\<open>TraceBuilder\<close>) decides at every step which thread goes on, is told by the interpreter which memory locations the
  step touches, finds the races between events, and from them the executions that are still to be explored. This
  development models the code that the result of a run depends on: the containers and identifiers all builders share,
  the trace builder for PSO, and the optimal reads-from exploration with its trace builder and data structures.

  \<^bold>\<open>Parts and theories.\<close> Source files are under \<^verbatim>\<open>src/src/\<close>; definitions keep the names of the source, with a prefix of two
  or three letters where a name is used by several classes.

  \<^item> \<^verbatim>\<open>Prelude\<close>: ascending lists, zero-padded reads, updates by a loop, and \<open>call_system\<close>, the locale of objects that are
    driven by calls. It is interpreted for the trace builders (\<open>pso_sys\<close>, \<open>rf_sys\<close>), the unfolding tree (\<open>unf_sys\<close>) and the
    decision tree (\<open>dtree_sys\<close>).
  \<^item> \<^verbatim>\<open>VecSet\<close> (\<^verbatim>\<open>vecset.h\<close>, \<^verbatim>\<open>vecset.tcc\<close>): sets as sorted vectors, every operation with its search and merge loops. They
    refine the operations on sets (\<open>vs_operations_refine_sets\<close>).
  \<^item> \<^verbatim>\<open>VClocks\<close> (\<^verbatim>\<open>VClock.h\<close>, \<^verbatim>\<open>VClock.cpp\<close>): vector clocks as zero-padded vectors, and the packed vectors of clocks. They form
    a lattice, and the lexicographic comparison extends happens-before to a total order.
  \<^item> \<^verbatim>\<open>CPids\<close> (\<^verbatim>\<open>CPid.h\<close>, \<^verbatim>\<open>CPid.cpp\<close>): process identifiers and the system that hands them out: identifiers are fresh, the
    system is closed under parents, printing is injective.
  \<^item> \<^verbatim>\<open>SymAddrs\<close>, \<^verbatim>\<open>SymEvs\<close>, \<^verbatim>\<open>MRefs\<close>, \<^verbatim>\<open>Rmw\<close> (\<^verbatim>\<open>SymAddr.*\<close>, \<^verbatim>\<open>IID.h\<close>, \<^verbatim>\<open>SymEv.*\<close>, \<^verbatim>\<open>MRef.*\<close>, \<^verbatim>\<open>RMWAction.*\<close>, \<^verbatim>\<open>AwaitCond.*\<close>): addresses,
    ranges and identifiers at their machine width, events as tagged unions whose members may be unset, reference
    counted blocks over an explicit heap, and byte-wise arithmetic on blocks for both byte orders. Shown are the
    meaning of range tests, absence of out-of-range and unset reads, that a block is freed once and only when
    unreferenced, and that each action computes its operation modulo the size of the block.
  \<^item> \<^verbatim>\<open>SatGraph\<close> (\<^verbatim>\<open>SaturatedGraph.h\<close>, \<^verbatim>\<open>SaturatedGraph.cpp\<close>): the graph of events of a partial execution with program order,
    reads-from and the edges that saturation derives. \<^verbatim>\<open>SatGraph_Inv\<close> has the invariant, \<^verbatim>\<open>SatGraph_Events\<close> that adding an
    event keeps it, \<^verbatim>\<open>SatGraph_Correct\<close> and \<^verbatim>\<open>SatGraph_Sound\<close> what saturation returns, \<^verbatim>\<open>SatGraph_Reverse\<close> the reverse pass,
    \<^verbatim>\<open>SatGraph_Runs\<close> the statements for every graph that is built by the operations: saturation ends, a graph it accepts
    is acyclic with correct clocks, and a graph of which there is a sequentially consistent execution is accepted.
    \<^verbatim>\<open>SatGraph_Complete\<close> shows that nothing is missed: an accepted graph is closed under the rules of sequential consistency.
  \<^item> \<^verbatim>\<open>PrefixHeuristic\<close> (\<^verbatim>\<open>PrefixHeuristic.cpp\<close>): the heuristic that orders the events of a saturated graph. An order it returns
    is a sequentially consistent execution of the graph.
  \<^item> \<^verbatim>\<open>PSO\<close> (\<^verbatim>\<open>PSOTraceBuilder.h\<close>, \<^verbatim>\<open>PSOTraceBuilder.cpp\<close>): the state of the source-DPOR trace builder as a record and every
    method that changes it, from \<^verbatim>\<open>schedule\<close> to \<^verbatim>\<open>reset\<close>. \<^verbatim>\<open>PSO_Inv\<close> shows that every method keeps the invariant, \<^verbatim>\<open>PSO_Runs\<close>
    that it therefore holds after every sequence of calls; \<^verbatim>\<open>PSO_Branch\<close> that every race gets a branch that reverses it,
    that clocks are those of happens-before, that exactly the conflicting sleeping threads wake up, that store buffers
    are queues, and what \<^verbatim>\<open>reset\<close> makes the next execution; \<^verbatim>\<open>PSO_Cycle\<close> that \<^verbatim>\<open>has_cycle\<close> accepts exactly the executions
    that a sequentially consistent machine can replay.
  \<^item> \<^verbatim>\<open>Scheduler\<close>, \<^verbatim>\<open>DecisionTree\<close> (\<^verbatim>\<open>RFSCDecisionTree.h\<close>, \<^verbatim>\<open>RFSCDecisionTree.cpp\<close>): the queues that distribute the work of a
    parallel exploration and the tree of decisions. Every critical section is a step, a run is any interleaving. The
    locale \<open>job_pool\<close> states the contract of a scheduler; it is interpreted for both (\<open>ws_pool\<close>, \<open>pq_pool\<close>). No job is
    lost or delivered twice, no assertion fails, a thread only waits when there is no work; decision nodes find their
    ancestors, allocate an event once per parent and share one saturated graph per parent.
  \<^item> \<^verbatim>\<open>Unfolding\<close> (\<^verbatim>\<open>RFSCUnfoldingTree.h\<close>, \<^verbatim>\<open>RFSCUnfoldingTree.cpp\<close>, \<^verbatim>\<open>Seqno.h\<close>): the nodes that stand for events across executions,
    with weak pointers to children and the release of nodes. A live node is the only one for its event.
  \<^item> \<^verbatim>\<open>RFSC\<close> (\<^verbatim>\<open>RFSCTraceBuilder.h\<close>, \<^verbatim>\<open>RFSCTraceBuilder.cpp\<close>): the trace builder of the reads-from exploration, its state and the methods
    that execute a program, from \<^verbatim>\<open>reset\<close> and \<^verbatim>\<open>schedule\<close> to the mutex operations. \<^verbatim>\<open>RFSC_Analysis\<close> has the kinds of events,
    the recomputation of compare-exchange and trylock, and the clocks; \<^verbatim>\<open>RFSC_Plan\<close> has unfolding events, the causal past,
    the formula, \<^verbatim>\<open>try_sat\<close> and \<^verbatim>\<open>compute_prefixes\<close>. \<^verbatim>\<open>RFSC_Inv\<close> and \<^verbatim>\<open>RFSC_Runs\<close> show that after every sequence of calls the
    recorded source of a load or mutex operation is the last access before it; \<^verbatim>\<open>RFSC_Restore\<close> that planning puts
    everything back that it changes for an attempt; \<^verbatim>\<open>RFSC_Causal\<close> that the search for the causal past returns and is exact;
    \<^verbatim>\<open>RFSC_Formula\<close> that the models of the formula for the solver are exactly the sequentially consistent orders of that past.
  \<^item> \<^verbatim>\<open>SExprs\<close> (\<^verbatim>\<open>SExpr.h\<close>, \<^verbatim>\<open>SExpr.cpp\<close>): the reader and printer of the expressions exchanged with a solver. The reader
    returns on every input, and reads back what was printed.
  \<^item> \<^verbatim>\<open>SmtSolver\<close> (\<^verbatim>\<open>SmtlibSatSolver.cpp\<close>): the commands for a solver as text. \<open>alloc_width\<close> says for which numbers of variables the
    declared bit vectors are wide enough.

  \<^bold>\<open>Interaction.\<close> The PSO trace builder keeps its sets as \<^verbatim>\<open>VecSet\<close>, its clocks as \<^verbatim>\<open>VClock<int>\<close>, its threads by \<^verbatim>\<open>CPid\<close> and
  its accesses by \<^verbatim>\<open>SymAddrSize\<close>, all by the definitions of these theories; its proofs use their specifications
  (\<open>vecset_specs\<close>, \<open>clock_specs\<close>, \<open>cpid_specs\<close>). A decision node caches a saturated graph of \<^verbatim>\<open>SatGraph\<close>, and its siblings
  are jobs of \<^verbatim>\<open>Scheduler\<close>. The reads-from trace builder records an execution, gives each event its node in \<^verbatim>\<open>Unfolding\<close> and each
  load a node in \<^verbatim>\<open>DecisionTree\<close>, tries every other source by a graph of \<^verbatim>\<open>SatGraph\<close>, \<^verbatim>\<open>PrefixHeuristic\<close> or a solver, and hands
  the new prefixes to the scheduler.

  \<^bold>\<open>Conventions.\<close> A failed assertion, an abort or a read that the code does not define is \<open>None\<close>; theorems that a call
  returns exclude it. Machine integers are words where their width matters (addresses, hashes, blocks, counters), and
  integers or naturals for indexes and clocks, which count events of one execution. Loops are recursive functions with
  a termination proof. Those that may run forever as far as their definition goes (\<^verbatim>\<open>saturate\<close>, the walks along
  parent pointers, the search for a causal past, the reader of S-expressions) are partial functions into option, with theorems that they return; there is no fuel anywhere.
  What the source leaves open is a parameter: which of several deepest jobs a \<^verbatim>\<open>std::priority_queue\<close> returns
  (\<open>picks_top\<close>), the order of a shuffle, the functions that complete a cached graph (\<open>constructs\<close>), the solver and the
  order of hash tables (\<open>rf_env\<close>).

  \<^bold>\<open>Not modelled.\<close> The interpreters and the LLVM passes, which would need a semantics of LLVM IR; the driver, options,
  output of traces and debugging; the persistent containers \<^verbatim>\<open>GenVector\<close> and \<^verbatim>\<open>GenMap\<close>, which are lists and functions here;
  \<^verbatim>\<open>get_model\<close> of the solver interface, which writes beyond the size of a vector;
  waiting on condition variables, which is a result of a step, so that a missed notification is not visible; the
  trace builder for POWER and ARM.

  \<^bold>\<open>Plan.\<close> Next is the trace builder for TSO and SC with its wakeup trees (\<^verbatim>\<open>TSOTraceBuilder.*\<close>, \<^verbatim>\<open>WakeupTrees.*\<close>), which shares its
  structure with the one for PSO.
\<close>

end
